(* ===== verification/Prelude.thy ===== *)
theory Prelude
  imports Main "HOL-Library.Word" "HOL-Library.Monad_Syntax"
begin

text \<open>
  What every component of the development shares: the C integer types and casts, the
  characters and the \<open>ctype.h\<close> tests in the C locale, decimal rendering as done by
  \<open>printf\<close>, blocks of memory with checked access, and the allocator.

  Undefined behaviour of C (a read or write outside a block, the use of NULL, a failed
  \<open>assert\<close>) is the value \<open>None\<close> of an \<open>option\<close>; a pointer that may be NULL is an
  \<open>option\<close> inside it. The data model is the 64-bit Windows one (LLP64) that
  \<open>win32_types_hiredis.h\<close> selects under \<open>_WIN64\<close>: \<open>int\<close> and \<open>unsigned int\<close> have
  32 bits, \<open>size_t\<close>, \<open>PORT_LONG\<close> and \<open>PORT_LONGLONG\<close> have 64. Sizes are natural
  numbers with the wrap-around of the C type written out (\<open>u32\<close>, \<open>u64\<close>); values whose
  bits matter are machine words.
\<close>

named_theorems mem_simps "reads and writes inside a block"
named_theorems ctype_simps "unfolding of the ctype.h tests"

section \<open>Casts\<close>

definition u32 :: "nat \<Rightarrow> nat" where
  "u32 n = n mod 2 ^ 32"

definition u64 :: "nat \<Rightarrow> nat" where
  "u64 n = n mod 2 ^ 64"

definition s32 :: "int \<Rightarrow> int" where
  "s32 i = (i + 2 ^ 31) mod 2 ^ 32 - 2 ^ 31"

definition sz_sub :: "nat \<Rightarrow> nat \<Rightarrow> nat" where
  \<comment> \<open>subtraction of two \<open>size_t\<close> values\<close>
  "sz_sub a b = u64 (a + (2 ^ 64 - b))"

definition u32_sub :: "nat \<Rightarrow> nat \<Rightarrow> nat" where
  \<comment> \<open>subtraction of two \<open>unsigned int\<close> values\<close>
  "u32_sub a b = u32 (a + (2 ^ 32 - b))"

lemma u32_id [simp]: "n < 2 ^ 32 \<Longrightarrow> u32 n = n"
  by (simp add: u32_def)

lemma u64_id [simp]: "n < 2 ^ 64 \<Longrightarrow> u64 n = n"
  by (simp add: u64_def)

lemma u32_small: "n < 2 ^ 31 \<Longrightarrow> u32 n = n"
  by (simp add: u32_def)

lemma u64_small: "n < 2 ^ 33 \<Longrightarrow> u64 n = n"
  by (simp add: u64_def)

lemma u32_less: "u32 n < 2 ^ 32"
  by (simp add: u32_def)

lemma s32_id: "- (2 ^ 31) \<le> i \<Longrightarrow> i < 2 ^ 31 \<Longrightarrow> s32 i = i"
  by (simp add: s32_def)

lemma s32_of_nat [simp]: "n < 2 ^ 31 \<Longrightarrow> s32 (int n) = int n"
  by (rule s32_id) auto

lemma s32_range: "- (2 ^ 31) \<le> s32 i \<and> s32 i < 2 ^ 31"
  unfolding s32_def by simp

lemma sz_sub_eq:
  assumes "b \<le> a" "a < 2 ^ 64"
  shows "sz_sub a b = a - b"
proof -
  have "a + (2 ^ 64 - b) = (a - b) + 2 ^ 64" using assms by simp
  then have "sz_sub a b = (a - b) mod 2 ^ 64"
    unfolding sz_sub_def u64_def by (simp only: mod_add_self2)
  also have "\<dots> = a - b" using assms by (intro mod_less) simp
  finally show ?thesis .
qed

lemma u32_sub_eq:
  assumes "b \<le> a" "a < 2 ^ 32"
  shows "u32_sub a b = a - b"
proof -
  have "a + (2 ^ 32 - b) = (a - b) + 2 ^ 32" using assms by simp
  then have "u32_sub a b = (a - b) mod 2 ^ 32"
    unfolding u32_sub_def u32_def by (simp only: mod_add_self2)
  also have "\<dots> = a - b" using assms by (intro mod_less) simp
  finally show ?thesis .
qed

section \<open>Characters\<close>

abbreviation NUL :: char where "NUL \<equiv> CHR 0x00"
abbreviation BEL :: char where "BEL \<equiv> CHR 0x07"
abbreviation BS :: char where "BS \<equiv> CHR 0x08"
abbreviation TAB :: char where "TAB \<equiv> CHR 0x09"
abbreviation LF :: char where "LF \<equiv> CHR 0x0A"
abbreviation CR :: char where "CR \<equiv> CHR 0x0D"
abbreviation DQUOTE :: char where "DQUOTE \<equiv> CHR 0x22"
abbreviation SQUOTE :: char where "SQUOTE \<equiv> CHR 0x27"
abbreviation BACKSLASH :: char where "BACKSLASH \<equiv> CHR 0x5C"
abbreviation CRLF :: string where "CRLF \<equiv> [CR, LF]"

definition code :: "char \<Rightarrow> nat" where
  \<comment> \<open>the value of an \<open>unsigned char\<close>\<close>
  "code c = of_char c"

definition schar :: "char \<Rightarrow> int" where
  \<comment> \<open>the value of a (signed) \<open>char\<close> after the integer promotion\<close>
  "schar c = (if code c < 128 then int (code c) else int (code c) - 256)"

definition isdigit_c :: "char \<Rightarrow> bool" where
  "isdigit_c c \<longleftrightarrow> 48 \<le> code c \<and> code c \<le> 57"

definition isspace_c :: "char \<Rightarrow> bool" where
  "isspace_c c \<longleftrightarrow> (9 \<le> code c \<and> code c \<le> 13) \<or> code c = 32"

definition isprint_c :: "char \<Rightarrow> bool" where
  "isprint_c c \<longleftrightarrow> 32 \<le> code c \<and> code c \<le> 126"

definition tolower_c :: "char \<Rightarrow> char" where
  "tolower_c c = (if 65 \<le> code c \<and> code c \<le> 90 then char_of (code c + 32) else c)"

definition toupper_c :: "char \<Rightarrow> char" where
  "toupper_c c = (if 97 \<le> code c \<and> code c \<le> 122 then char_of (code c - 32) else c)"

lemmas [ctype_simps] = isdigit_c_def isspace_c_def isprint_c_def code_def

lemma code_less [simp]: "code c < 256"
  by (simp add: code_def)

lemma code_char_of [simp]: "n < 256 \<Longrightarrow> code (char_of n) = n"
  by (simp add: code_def)

lemma char_of_code [simp]: "char_of (code c) = c"
  by (simp add: code_def)

lemma code_inj: "code c = code d \<longleftrightarrow> c = d"
  by (metis char_of_code)

section \<open>C strings\<close>

definition cstrlen :: "string \<Rightarrow> nat" where
  \<comment> \<open>\<open>strlen\<close> of the C string whose block is \<open>s @ [NUL]\<close>\<close>
  "cstrlen s = length (takeWhile (\<lambda>c. c \<noteq> NUL) s)"

definition strlen_block :: "char list \<Rightarrow> nat option" where
  \<comment> \<open>\<open>strlen\<close> over a block of memory; no terminator in the block is a read past its end\<close>
  "strlen_block m = (if NUL \<in> set m then Some (cstrlen m) else None)"

definition strchr_has :: "string \<Rightarrow> char \<Rightarrow> bool" where
  \<comment> \<open>\<open>strchr(s,c) != NULL\<close>: the terminator belongs to the string\<close>
  "strchr_has s c \<longleftrightarrow> c \<in> set (takeWhile (\<lambda>d. d \<noteq> NUL) s) \<or> c = NUL"

lemma cstrlen_le: "cstrlen s \<le> length s"
  by (simp add: cstrlen_def length_takeWhile_le)

lemma length_takeWhile_neq: "z \<notin> set s \<Longrightarrow> length (takeWhile (\<lambda>c. c \<noteq> z) s) = length s"
  by (induction s) auto

lemma cstrlen_no_nul: "NUL \<notin> set s \<Longrightarrow> cstrlen s = length s"
  unfolding cstrlen_def by (rule length_takeWhile_neq)

lemma takeWhile_neq_snoc: "takeWhile (\<lambda>c. c \<noteq> z) (s @ [z]) = takeWhile (\<lambda>c. c \<noteq> z) s"
  by (induction s) auto

lemma takeWhile_neq_Cons: "takeWhile (\<lambda>c. c \<noteq> z) (xs @ z # ys) = takeWhile (\<lambda>c. c \<noteq> z) xs"
  by (induction xs) auto

lemma nth_takeWhile_neq: "z \<in> set xs \<Longrightarrow> xs ! length (takeWhile (\<lambda>c. c \<noteq> z) xs) = z"
  by (induction xs) auto

lemma cstrlen_append_nul: "cstrlen (s @ [NUL]) = cstrlen s"
  unfolding cstrlen_def by (simp only: takeWhile_neq_snoc)

lemma take_cstrlen: "take (cstrlen s) s = takeWhile (\<lambda>c. c \<noteq> NUL) s"
  by (simp only: cstrlen_def takeWhile_eq_take [symmetric])

section \<open>Decimal rendering\<close>

definition digit_char :: "nat \<Rightarrow> char" where
  "digit_char d = char_of (48 + d)"

fun dec_nat :: "nat \<Rightarrow> string" where
  \<comment> \<open>\<open>printf("%Iu", n)\<close>\<close>
  "dec_nat n = (if n < 10 then [digit_char n] else dec_nat (n div 10) @ [digit_char (n mod 10)])"

declare dec_nat.simps [simp del]

definition dec_int :: "int \<Rightarrow> string" where
  \<comment> \<open>\<open>printf("%d", i)\<close>\<close>
  "dec_int i = (if i < 0 then CHR ''-'' # dec_nat (nat (- i)) else dec_nat (nat i))"

definition hex_char :: "nat \<Rightarrow> char" where
  \<comment> \<open>a digit of \<open>%x\<close>\<close>
  "hex_char d = char_of (if d < 10 then 48 + d else 87 + d)"

lemma code_digit_char: "d < 10 \<Longrightarrow> code (digit_char d) = 48 + d"
  by (simp add: digit_char_def)

lemma dec_nat_induct [case_names small large]:
  fixes n :: nat
  assumes "\<And>n. n < 10 \<Longrightarrow> P n"
    and "\<And>n. \<not> n < 10 \<Longrightarrow> P (n div 10) \<Longrightarrow> P n"
  shows "P n"
  using assms by (induction n rule: dec_nat.induct) blast

lemma dec_nat_small: "n < 10 \<Longrightarrow> dec_nat n = [digit_char n]"
  by (subst dec_nat.simps) simp

lemma dec_nat_large:
  "\<not> n < 10 \<Longrightarrow> dec_nat n = dec_nat (n div 10) @ [digit_char (n mod 10)]"
  by (subst dec_nat.simps) simp

lemma dec_nat_nonempty [simp]: "dec_nat n \<noteq> []"
  by (subst dec_nat.simps) simp

lemma dec_nat_digits: "c \<in> set (dec_nat n) \<Longrightarrow> isdigit_c c"
proof (induction n rule: dec_nat_induct)
  case (small n)
  then show ?case by (simp add: dec_nat_small isdigit_c_def code_digit_char)
next
  case (large n)
  then show ?case
    by (auto simp: dec_nat_large isdigit_c_def code_digit_char)
qed

lemma dec_nat_no_special:
  "CR \<notin> set (dec_nat n)" "LF \<notin> set (dec_nat n)" "NUL \<notin> set (dec_nat n)"
  using dec_nat_digits [of CR n] dec_nat_digits [of LF n] dec_nat_digits [of NUL n]
  by (auto simp: isdigit_c_def code_def)

section \<open>Signed words\<close>

lemma uint_sint_pos:
  fixes v :: "64 word"
  assumes "0 \<le> sint v"
  shows "uint v = sint v"
proof -
  have "uint v = sint v mod 2 ^ LENGTH(64)" using uint_word_of_int [of "sint v", where ?'a = 64] by simp
  moreover have "sint v < 2 ^ 63" using sint_less [of v] by simp
  ultimately show ?thesis using assms by simp
qed

lemma sint_nonneg_unat: "\<not> sint (v :: 64 word) < 0 \<Longrightarrow> sint v = int (unat v)"
  using uint_sint_pos [of v] by simp

lemma unat_nonneg_less: "\<not> sint (v :: 64 word) < 0 \<Longrightarrow> unat v < 2 ^ 63"
proof -
  assume "\<not> sint v < 0"
  then have "uint v < 2 ^ 63" using uint_sint_pos [of v] sint_less [of v] by simp
  then have "nat (uint v) < 2 ^ 63" by (subst nat_less_iff) simp_all
  then show ?thesis unfolding nat_uint_eq .
qed

section \<open>Blocks of memory\<close>

definition rd :: "char list \<Rightarrow> nat \<Rightarrow> char option" where
  \<comment> \<open>one byte read from a block\<close>
  "rd m i = (if i < length m then Some (m ! i) else None)"

definition read_at :: "nat \<Rightarrow> nat \<Rightarrow> char list \<Rightarrow> char list option" where
  \<comment> \<open>the source of a \<open>memcpy\<close> of \<open>n\<close> bytes at offset \<open>i\<close>\<close>
  "read_at i n m = (if i + n \<le> length m then Some (take n (drop i m)) else None)"

definition write_at :: "nat \<Rightarrow> char list \<Rightarrow> char list \<Rightarrow> char list option" where
  \<comment> \<open>the target of a \<open>memcpy\<close> of \<open>bs\<close> to offset \<open>i\<close>\<close>
  "write_at i bs m =
     (if i + length bs \<le> length m then Some (take i m @ bs @ drop (i + length bs) m) else None)"

definition poke :: "nat \<Rightarrow> char \<Rightarrow> char list \<Rightarrow> char list option" where
  \<comment> \<open>\<open>m[i] = c\<close>\<close>
  "poke i c m = (if i < length m then Some (m[i := c]) else None)"

definition require :: "bool \<Rightarrow> unit option" where
  \<comment> \<open>\<open>assert(P)\<close>\<close>
  "require P = (if P then Some () else None)"

lemma require_simps [simp]: "require True = Some ()" "require False = None"
  by (simp_all add: require_def)

lemma rd_Some [mem_simps]: "i < length m \<Longrightarrow> rd m i = Some (m ! i)"
  by (simp add: rd_def)

lemma read_at_Some [mem_simps]: "i + n \<le> length m \<Longrightarrow> read_at i n m = Some (take n (drop i m))"
  by (simp add: read_at_def)

lemma write_at_Some [mem_simps]:
  "i + length bs \<le> length m \<Longrightarrow>
     write_at i bs m = Some (take i m @ bs @ drop (i + length bs) m)"
  by (simp add: write_at_def)

lemma poke_Some [mem_simps]: "i < length m \<Longrightarrow> poke i c m = Some (m[i := c])"
  by (simp add: poke_def)

lemmas [mem_simps] = Let_def

section \<open>The allocator\<close>

text \<open>
  The outcomes of the next allocations: \<open>None\<close> is a call that returns NULL, \<open>Some f\<close> one
  that succeeds and whose fresh bytes hold \<open>f i\<close> at offset \<open>i\<close> (their content is
  indeterminate in C). Beyond the list every call succeeds.
\<close>

type_synonym fill = "nat \<Rightarrow> char"
type_synonym allocs = "fill option list"

definition alloc_next :: "allocs \<Rightarrow> fill option \<times> allocs" where
  "alloc_next al = (case al of [] \<Rightarrow> (Some (\<lambda>_. CHR 0xCD), []) | a # al' \<Rightarrow> (a, al'))"

definition malloc_bytes :: "nat \<Rightarrow> allocs \<Rightarrow> char list option \<times> allocs" where
  "malloc_bytes n al = (case alloc_next al of
       (None, al') \<Rightarrow> (None, al')
     | (Some f, al') \<Rightarrow> (Some (map f [0..<n]), al'))"

definition calloc_bytes :: "nat \<Rightarrow> allocs \<Rightarrow> char list option \<times> allocs" where
  "calloc_bytes n al = (case alloc_next al of
       (None, al') \<Rightarrow> (None, al')
     | (Some f, al') \<Rightarrow> (Some (replicate n NUL), al'))"

definition realloc_bytes :: "char list \<Rightarrow> nat \<Rightarrow> allocs \<Rightarrow> char list option \<times> allocs" where
  "realloc_bytes old n al = (case alloc_next al of
       (None, al') \<Rightarrow> (None, al')
     | (Some f, al') \<Rightarrow> (Some (take n old @ map f [length old..<n]), al'))"

lemma alloc_next_set: "alloc_next al = (a, al') \<Longrightarrow> set al' \<subseteq> set al"
  by (auto simp: alloc_next_def split: list.splits)

lemma alloc_next_None: "alloc_next al = (None, al') \<Longrightarrow> None \<in> set al"
  by (auto simp: alloc_next_def split: list.splits)

lemma alloc_next_Nil [simp]: "alloc_next [] = (Some (\<lambda>_. CHR 0xCD), [])"
  by (simp add: alloc_next_def)

section \<open>Lists\<close>

lemma nth_take_drop_split:
  "i < length xs \<Longrightarrow> xs = take i xs @ xs ! i # drop (Suc i) xs"
  by (simp add: id_take_nth_drop)

lemma drop_take_add: "drop i (take (i + n) xs) = take n (drop i xs)"
  by (simp add: drop_take)

end
