(* ===== verification/Dict.thy ===== *)
theory Dict
  imports Prelude
begin

text \<open>
  The hash table of \<open>dict.c\<close> and \<open>dict.h\<close>: separate chaining over a table whose size is a power
  of two and doubles when it is full. A chain is a list of entries, whose order is that of the
  \<open>next\<close> pointers; a pointer to an entry is the chain that starts there, the empty one NULL. A key
  or a value is what the \<open>void *\<close> stands for; the functions of \<open>dictType\<close> are a table of optional
  functions, those with effects over a state \<open>'m\<close> of their own.

  The results are never checked against NULL by the code: a failed \<open>malloc\<close> is a fault at the first
  access, a failed \<open>calloc\<close> leaves a table without a block.
\<close>

section \<open>Types\<close>

record ('k, 'v) dictEntry =
  de_key :: 'k
  de_val :: 'v

type_synonym ('k, 'v) chain = "('k, 'v) dictEntry list"

record ('k, 'v, 'm) dictType =
  hashFunction :: "'k \<Rightarrow> 32 word"
  keyDup :: "(nat \<Rightarrow> 'k \<Rightarrow> 'm \<Rightarrow> ('k \<times> 'm) option) option"
  valDup :: "(nat \<Rightarrow> 'v \<Rightarrow> 'm \<Rightarrow> ('v \<times> 'm) option) option"
  keyCompare :: "(nat \<Rightarrow> 'k \<Rightarrow> 'k \<Rightarrow> int) option"
  keyDestructor :: "(nat \<Rightarrow> 'k \<Rightarrow> 'm \<Rightarrow> 'm option) option"
  valDestructor :: "(nat \<Rightarrow> 'v \<Rightarrow> 'm \<Rightarrow> 'm option) option"

record ('k, 'v, 'm) dict =
  dt_table :: "('k, 'v) chain list option"
  dt_type :: "('k, 'v, 'm) dictType"
  dt_size :: nat
  dt_sizemask :: nat
  dt_used :: nat
  dt_privdata :: nat

record ('k, 'v) dictIterator =
  it_index :: int
  it_entry :: "('k, 'v) chain"
  it_nextEntry :: "('k, 'v) chain"

abbreviation (input) DICT_OK :: int where "DICT_OK \<equiv> 0"
abbreviation (input) DICT_ERR :: int where "DICT_ERR \<equiv> 1"

definition DICT_HT_INITIAL_SIZE :: nat where
  "DICT_HT_INITIAL_SIZE = 4"

definition PORT_LONG_MAX :: nat where
  "PORT_LONG_MAX = 2 ^ 63 - 1"

section \<open>The macros of the header\<close>

definition dictFreeEntryVal :: "('k, 'v, 'm) dict \<Rightarrow> ('k, 'v) dictEntry \<Rightarrow> 'm \<Rightarrow> 'm option" where
  "dictFreeEntryVal ht e m =
     (case valDestructor (dt_type ht) of None \<Rightarrow> Some m | Some f \<Rightarrow> f (dt_privdata ht) (de_val e) m)"

definition dictSetHashVal ::
  "('k, 'v, 'm) dict \<Rightarrow> ('k, 'v) dictEntry \<Rightarrow> 'v \<Rightarrow> 'm \<Rightarrow> (('k, 'v) dictEntry \<times> 'm) option" where
  "dictSetHashVal ht e val m =
     (case valDup (dt_type ht) of
        None \<Rightarrow> Some (e\<lparr>de_val := val\<rparr>, m)
      | Some f \<Rightarrow> do { (v, m) \<leftarrow> f (dt_privdata ht) val m; Some (e\<lparr>de_val := v\<rparr>, m) })"

definition dictFreeEntryKey :: "('k, 'v, 'm) dict \<Rightarrow> ('k, 'v) dictEntry \<Rightarrow> 'm \<Rightarrow> 'm option" where
  "dictFreeEntryKey ht e m =
     (case keyDestructor (dt_type ht) of None \<Rightarrow> Some m | Some f \<Rightarrow> f (dt_privdata ht) (de_key e) m)"

definition dictSetHashKey ::
  "('k, 'v, 'm) dict \<Rightarrow> ('k, 'v) dictEntry \<Rightarrow> 'k \<Rightarrow> 'm \<Rightarrow> (('k, 'v) dictEntry \<times> 'm) option" where
  "dictSetHashKey ht e key m =
     (case keyDup (dt_type ht) of
        None \<Rightarrow> Some (e\<lparr>de_key := key\<rparr>, m)
      | Some f \<Rightarrow> do { (k, m) \<leftarrow> f (dt_privdata ht) key m; Some (e\<lparr>de_key := k\<rparr>, m) })"

definition dictCompareHashKeys :: "('k, 'v, 'm) dict \<Rightarrow> 'k \<Rightarrow> 'k \<Rightarrow> bool" where
  "dictCompareHashKeys ht key1 key2 =
     (case keyCompare (dt_type ht) of
        None \<Rightarrow> key1 = key2
      | Some f \<Rightarrow> f (dt_privdata ht) key1 key2 \<noteq> 0)"

definition dictHashKey :: "('k, 'v, 'm) dict \<Rightarrow> 'k \<Rightarrow> nat" where
  "dictHashKey ht key = unat (hashFunction (dt_type ht) key)"

definition slot :: "nat \<Rightarrow> nat \<Rightarrow> nat" where
  \<comment> \<open>\<open>h = hash & mask\<close>, stored to an \<open>unsigned int\<close>\<close>
  "slot h sizemask = u32 (unat (and (word_of_nat h :: 64 word) (word_of_nat sizemask)))"

definition get_chain :: "('k, 'v, 'm) dict \<Rightarrow> nat \<Rightarrow> ('k, 'v) chain option" where
  \<comment> \<open>\<open>ht->table[h]\<close>\<close>
  "get_chain ht h =
     (case dt_table ht of None \<Rightarrow> None | Some t \<Rightarrow> if h < length t then Some (t ! h) else None)"

definition set_chain :: "nat \<Rightarrow> ('k, 'v) chain \<Rightarrow> ('k, 'v, 'm) dict \<Rightarrow> ('k, 'v, 'm) dict option" where
  \<comment> \<open>\<open>ht->table[h] = c\<close>\<close>
  "set_chain h c ht =
     (case dt_table ht of None \<Rightarrow> None
      | Some t \<Rightarrow> if h < length t then Some (ht\<lparr>dt_table := Some (t[h := c])\<rparr>) else None)"

section \<open>Operations\<close>

fun gen_hash :: "char list \<Rightarrow> 32 word \<Rightarrow> 32 word" where
  "gen_hash [] hash = hash"
| "gen_hash (c # buf) hash = gen_hash buf ((push_bit 5 hash + hash) + word_of_nat (code c))"

definition dictGenHashFunction :: "char list \<Rightarrow> int \<Rightarrow> 32 word option" where
  \<comment> \<open>\<open>while (len--)\<close> over the block \<open>buf\<close>; a negative or too large length leaves it\<close>
  "dictGenHashFunction buf len =
     (if 0 \<le> len \<and> nat len \<le> length buf then Some (gen_hash (take (nat len) buf) 5381) else None)"

definition dictReset :: "('k, 'v, 'm) dict \<Rightarrow> ('k, 'v, 'm) dict" where
  "dictReset ht = ht\<lparr>dt_table := None, dt_size := 0, dt_sizemask := 0, dt_used := 0\<rparr>"

definition dictInit :: "('k, 'v, 'm) dict \<Rightarrow> ('k, 'v, 'm) dictType \<Rightarrow> nat \<Rightarrow> ('k, 'v, 'm) dict" where
  "dictInit ht type privDataPtr = (dictReset ht)\<lparr>dt_type := type, dt_privdata := privDataPtr\<rparr>"

definition dictCreate :: "('k, 'v, 'm) dictType \<Rightarrow> nat \<Rightarrow> allocs \<Rightarrow> (('k, 'v, 'm) dict \<times> allocs) option" where
  \<comment> \<open>every field of the fresh block is set by \<open>_dictInit\<close>\<close>
  "dictCreate type privDataPtr al =
     (case alloc_next al of
        (None, al) \<Rightarrow> None
      | (Some _, al) \<Rightarrow>
          Some (dictInit \<lparr>dt_table = None, dt_type = type, dt_size = 0, dt_sizemask = 0, dt_used = 0,
                          dt_privdata = privDataPtr\<rparr> type privDataPtr, al))"

partial_function (option) next_power :: "nat \<Rightarrow> nat \<Rightarrow> nat option" where
  "next_power sz i = (if i \<ge> sz then Some i else next_power sz (u64 (i * 2)))"

definition dictNextPower :: "nat \<Rightarrow> nat option" where
  "dictNextPower sz =
     (if sz \<ge> PORT_LONG_MAX then Some PORT_LONG_MAX else next_power sz DICT_HT_INITIAL_SIZE)"

fun move_chain ::
  "('k, 'v) chain \<Rightarrow> ('k, 'v, 'm) dict \<Rightarrow> ('k, 'v, 'm) dict \<Rightarrow> (('k, 'v, 'm) dict \<times> ('k, 'v, 'm) dict) option" where
  \<comment> \<open>the \<open>while(he)\<close> of \<open>dictExpand\<close>: every entry goes to the front of its chain in \<open>n\<close>\<close>
  "move_chain [] ht n = Some (ht, n)"
| "move_chain (he # nextHe) ht n = do {
     let h = slot (dictHashKey ht (de_key he)) (dt_sizemask n);
     c \<leftarrow> get_chain n h;
     n \<leftarrow> set_chain h (he # c) n;
     move_chain nextHe (ht\<lparr>dt_used := sz_sub (dt_used ht) 1\<rparr>) n
   }"

function move_table ::
  "nat \<Rightarrow> nat \<Rightarrow> ('k, 'v, 'm) dict \<Rightarrow> ('k, 'v, 'm) dict \<Rightarrow> (('k, 'v, 'm) dict \<times> ('k, 'v, 'm) dict) option" where
  \<comment> \<open>\<open>for (i = 0; i < ht->size && ht->used > 0; i++)\<close>; \<open>sz\<close> is \<open>ht->size\<close>, which the loop keeps\<close>
  "move_table i sz ht n =
     (if i < sz \<and> dt_used ht > 0 then
        (case get_chain ht i of
           None \<Rightarrow> None
         | Some c \<Rightarrow>
             (case move_chain c ht n of
                None \<Rightarrow> None
              | Some (ht, n) \<Rightarrow> move_table (i + 1) sz ht n))
      else Some (ht, n))"
  by pat_completeness auto
termination
  by (relation "measure (\<lambda>(i, sz, ht, n). sz - i)") auto

declare move_table.simps [simp del]

definition dictExpand ::
  "('k, 'v, 'm) dict \<Rightarrow> nat \<Rightarrow> allocs \<Rightarrow> (int \<times> ('k, 'v, 'm) dict \<times> allocs) option" where
  "dictExpand ht sz al = do {
     realsize \<leftarrow> dictNextPower sz;
     if dt_used ht > sz then Some (DICT_ERR, ht, al)
     else do {
       let n = dictInit ht (dt_type ht) (dt_privdata ht);
       let (a, al) = alloc_next al;
       let n = n\<lparr>dt_size := realsize, dt_sizemask := sz_sub realsize 1,
                 dt_table := (case a of None \<Rightarrow> None | Some _ \<Rightarrow> Some (replicate realsize [])),
                 dt_used := dt_used ht\<rparr>;
       (ht, n) \<leftarrow> move_table 0 (dt_size ht) ht n;
       require (dt_used ht = 0);
       Some (DICT_OK, n, al)
     }
   }"

definition dictExpandIfNeeded ::
  "('k, 'v, 'm) dict \<Rightarrow> allocs \<Rightarrow> (int \<times> ('k, 'v, 'm) dict \<times> allocs) option" where
  "dictExpandIfNeeded ht al =
     (if dt_size ht = 0 then dictExpand ht DICT_HT_INITIAL_SIZE al
      else if dt_used ht = dt_size ht then dictExpand ht (u64 (dt_size ht * 2)) al
      else Some (DICT_OK, ht, al))"

fun find_chain :: "('k, 'v, 'm) dict \<Rightarrow> 'k \<Rightarrow> ('k, 'v) chain \<Rightarrow> ('k, 'v) chain" where
  \<comment> \<open>\<open>while(he) { if (dictCompareHashKeys(ht,key,he->key)) return he; he = he->next; }\<close>\<close>
  "find_chain ht key [] = []"
| "find_chain ht key (he # next) = (if dictCompareHashKeys ht key (de_key he) then he # next else find_chain ht key next)"

definition dictKeyIndex ::
  "('k, 'v, 'm) dict \<Rightarrow> 'k \<Rightarrow> allocs \<Rightarrow> (int \<times> ('k, 'v, 'm) dict \<times> allocs) option" where
  "dictKeyIndex ht key al = do {
     (st, ht, al) \<leftarrow> dictExpandIfNeeded ht al;
     if st = DICT_ERR then Some (-1, ht, al)
     else do {
       let h = slot (dictHashKey ht key) (dt_sizemask ht);
       he \<leftarrow> get_chain ht h;
       if find_chain ht key he \<noteq> [] then Some (-1, ht, al) else Some (s32 (int h), ht, al)
     }
   }"

definition dictAdd ::
  "('k, 'v, 'm) dict \<Rightarrow> 'k \<Rightarrow> 'v \<Rightarrow> 'm \<Rightarrow> allocs \<Rightarrow> (int \<times> ('k, 'v, 'm) dict \<times> 'm \<times> allocs) option" where
  \<comment> \<open>the entry is linked before its fields are set, which nothing in between observes\<close>
  "dictAdd ht key val m al = do {
     (index, ht, al) \<leftarrow> dictKeyIndex ht key al;
     if index = -1 then Some (DICT_ERR, ht, m, al)
     else do {
       let (a, al) = alloc_next al;
       require (a \<noteq> None \<and> 0 \<le> index);
       c \<leftarrow> get_chain ht (nat index);
       (e, m) \<leftarrow> dictSetHashKey ht \<lparr>de_key = key, de_val = val\<rparr> key m;
       (e, m) \<leftarrow> dictSetHashVal ht e val m;
       ht \<leftarrow> set_chain (nat index) (e # c) ht;
       Some (DICT_OK, ht\<lparr>dt_used := u64 (dt_used ht + 1)\<rparr>, m, al)
     }
   }"

definition dictFind :: "('k, 'v, 'm) dict \<Rightarrow> 'k \<Rightarrow> ('k, 'v) chain option" where
  "dictFind ht key =
     (if dt_size ht = 0 then Some []
      else do {
        let h = slot (dictHashKey ht key) (dt_sizemask ht);
        he \<leftarrow> get_chain ht h;
        Some (find_chain ht key he)
      })"

fun update_first ::
  "('k, 'v, 'm) dict \<Rightarrow> 'k \<Rightarrow> ('k, 'v) dictEntry \<Rightarrow> ('k, 'v) chain \<Rightarrow> ('k, 'v) chain" where
  \<comment> \<open>a write through the pointer that \<open>dictFind\<close> returned\<close>
  "update_first ht key e [] = []"
| "update_first ht key e (he # next) =
     (if dictCompareHashKeys ht key (de_key he) then e # next else he # update_first ht key e next)"

definition dictReplace ::
  "('k, 'v, 'm) dict \<Rightarrow> 'k \<Rightarrow> 'v \<Rightarrow> 'm \<Rightarrow> allocs \<Rightarrow> (int \<times> ('k, 'v, 'm) dict \<times> 'm \<times> allocs) option" where
  "dictReplace ht key val m al = do {
     (st, ht, m, al) \<leftarrow> dictAdd ht key val m al;
     if st = DICT_OK then Some (1, ht, m, al)
     else do {
       entry \<leftarrow> dictFind ht key;
       (case entry of
          [] \<Rightarrow> None
        | auxentry # _ \<Rightarrow> do {
            (e, m) \<leftarrow> dictSetHashVal ht auxentry val m;
            let h = slot (dictHashKey ht key) (dt_sizemask ht);
            c \<leftarrow> get_chain ht h;
            ht \<leftarrow> set_chain h (update_first ht key e c) ht;
            m \<leftarrow> dictFreeEntryVal ht auxentry m;
            Some (0, ht, m, al)
          })
     }
   }"

fun delete_chain :: "('k, 'v, 'm) dict \<Rightarrow> 'k \<Rightarrow> ('k, 'v) chain \<Rightarrow> (('k, 'v) dictEntry \<times> ('k, 'v) chain) option" where
  \<comment> \<open>the entry unlinked and the chain without it\<close>
  "delete_chain ht key [] = None"
| "delete_chain ht key (de # next) =
     (if dictCompareHashKeys ht key (de_key de) then Some (de, next)
      else map_option (\<lambda>(e, c). (e, de # c)) (delete_chain ht key next))"

definition dictDelete :: "('k, 'v, 'm) dict \<Rightarrow> 'k \<Rightarrow> 'm \<Rightarrow> (int \<times> ('k, 'v, 'm) dict \<times> 'm) option" where
  "dictDelete ht key m =
     (if dt_size ht = 0 then Some (DICT_ERR, ht, m)
      else do {
        let h = slot (dictHashKey ht key) (dt_sizemask ht);
        de \<leftarrow> get_chain ht h;
        (case delete_chain ht key de of
           None \<Rightarrow> Some (DICT_ERR, ht, m)
         | Some (de, c) \<Rightarrow> do {
             ht \<leftarrow> set_chain h c ht;
             m \<leftarrow> dictFreeEntryKey ht de m;
             m \<leftarrow> dictFreeEntryVal ht de m;
             Some (DICT_OK, ht\<lparr>dt_used := sz_sub (dt_used ht) 1\<rparr>, m)
           })
      })"

fun clear_chain :: "('k, 'v) chain \<Rightarrow> ('k, 'v, 'm) dict \<Rightarrow> 'm \<Rightarrow> (('k, 'v, 'm) dict \<times> 'm) option" where
  "clear_chain [] ht m = Some (ht, m)"
| "clear_chain (he # nextHe) ht m = do {
     m \<leftarrow> dictFreeEntryKey ht he m;
     m \<leftarrow> dictFreeEntryVal ht he m;
     clear_chain nextHe (ht\<lparr>dt_used := sz_sub (dt_used ht) 1\<rparr>) m
   }"

function clear_table :: "nat \<Rightarrow> nat \<Rightarrow> ('k, 'v, 'm) dict \<Rightarrow> 'm \<Rightarrow> (('k, 'v, 'm) dict \<times> 'm) option" where
  "clear_table i sz ht m =
     (if i < sz \<and> dt_used ht > 0 then
        (case get_chain ht i of
           None \<Rightarrow> None
         | Some c \<Rightarrow>
             (case clear_chain c ht m of
                None \<Rightarrow> None
              | Some (ht, m) \<Rightarrow> clear_table (i + 1) sz ht m))
      else Some (ht, m))"
  by pat_completeness auto
termination
  by (relation "measure (\<lambda>(i, sz, ht, m). sz - i)") auto

declare clear_table.simps [simp del]

definition dictClear :: "('k, 'v, 'm) dict \<Rightarrow> 'm \<Rightarrow> (int \<times> ('k, 'v, 'm) dict \<times> 'm) option" where
  "dictClear ht m = do {
     (ht, m) \<leftarrow> clear_table 0 (dt_size ht) ht m;
     Some (DICT_OK, dictReset ht, m)
   }"

definition dictRelease :: "('k, 'v, 'm) dict \<Rightarrow> 'm \<Rightarrow> 'm option" where
  \<comment> \<open>the header goes back as well\<close>
  "dictRelease ht m = do { (_, _, m) \<leftarrow> dictClear ht m; Some m }"

definition dictGetIterator :: "allocs \<Rightarrow> (('k, 'v) dictIterator \<times> allocs) option" where
  "dictGetIterator al =
     (case alloc_next al of
        (None, al) \<Rightarrow> None
      | (Some _, al) \<Rightarrow> Some (\<lparr>it_index = -1, it_entry = [], it_nextEntry = []\<rparr>, al))"

function dictNext ::
  "('k, 'v, 'm) dict \<Rightarrow> ('k, 'v) dictIterator \<Rightarrow> (('k, 'v) dictEntry option \<times> ('k, 'v) dictIterator) option" where
  "dictNext ht iter =
     (if it_entry iter = [] then
        (let index = it_index iter + 1 in
         if index \<ge> s32 (int (dt_size ht)) then Some (None, iter\<lparr>it_index := index\<rparr>)
         else
           (case (if index < 0 then None else get_chain ht (nat index)) of
              None \<Rightarrow> None
            | Some [] \<Rightarrow> dictNext ht (iter\<lparr>it_index := index, it_entry := []\<rparr>)
            | Some (e # next) \<Rightarrow>
                Some (Some e, iter\<lparr>it_index := index, it_entry := e # next, it_nextEntry := next\<rparr>)))
      else
        (case it_nextEntry iter of
           [] \<Rightarrow> dictNext ht (iter\<lparr>it_entry := []\<rparr>)
         | e # next \<Rightarrow> Some (Some e, iter\<lparr>it_entry := e # next, it_nextEntry := next\<rparr>)))"
  by pat_completeness auto
termination
  by (relation "inv_image (less_than <*lex*> less_than)
        (\<lambda>(ht, iter). (nat (s32 (int (dt_size ht)) - it_index iter), length (it_entry iter)))") auto

declare dictNext.simps [simp del]

end
