(* ===== verification/DictProof.thy ===== *)
theory DictProof
  imports Dict "HOL-Library.Multiset"
begin

text \<open>
  The hash table as a finite map: the invariant of the table, the multiset of its entries and those
  that match a key, what every operation does to them, the iterator, and the locale of stores that
  the table implements for a type of keys.
\<close>

section \<open>The invariant\<close>

definition entries :: "('k, 'v, 'm) dict \<Rightarrow> ('k, 'v) dictEntry multiset" where
  "entries ht = (case dt_table ht of None \<Rightarrow> {#} | Some t \<Rightarrow> mset (concat t))"

definition matching :: "('k, 'v, 'm) dict \<Rightarrow> 'k \<Rightarrow> ('k, 'v) dictEntry multiset" where
  "matching ht key = {#e \<in># entries ht. dictCompareHashKeys ht key (de_key e)#}"

definition keys_ok :: "('k, 'v, 'm) dict \<Rightarrow> bool" where
  \<comment> \<open>the comparison is an equivalence that the hash function respects\<close>
  "keys_ok ht \<longleftrightarrow> equivp (dictCompareHashKeys ht)
     \<and> (\<forall>a b. dictCompareHashKeys ht a b \<longrightarrow> dictHashKey ht a = dictHashKey ht b)"

definition home :: "('k, 'v, 'm) dict \<Rightarrow> 'k \<Rightarrow> nat" where
  "home ht key = dictHashKey ht key mod dt_size ht"

definition homed :: "('k, 'v, 'm) dict \<Rightarrow> bool" where
  \<comment> \<open>a table of a power of two chains, every entry in the chain its hash selects\<close>
  "homed ht \<longleftrightarrow> (\<exists>t n. dt_table ht = Some t \<and> length t = dt_size ht \<and> dt_size ht = 2 ^ n \<and> 2 \<le> n \<and> n \<le> 30
     \<and> dt_sizemask ht = 2 ^ n - 1 \<and> (\<forall>i < length t. \<forall>e \<in> set (t ! i). home ht (de_key e) = i))"

definition dict_ok :: "('k, 'v, 'm) dict \<Rightarrow> bool" where
  "dict_ok ht \<longleftrightarrow>
     (dt_table ht = None \<and> dt_size ht = 0 \<and> dt_sizemask ht = 0 \<or> homed ht)
     \<and> dt_used ht = size (entries ht) \<and> dt_used ht \<le> dt_size ht \<and> (\<forall>key. size (matching ht key) \<le> 1)"

definition same_but_table :: "('k, 'v, 'm) dict \<Rightarrow> ('k, 'v, 'm) dict \<Rightarrow> bool" where
  "same_but_table ht ht' \<longleftrightarrow> dt_type ht' = dt_type ht \<and> dt_privdata ht' = dt_privdata ht"

lemma same_but_table_refl [simp]: "same_but_table ht ht"
  by (simp add: same_but_table_def)

lemma same_but_table_trans: "same_but_table a b \<Longrightarrow> same_but_table b c \<Longrightarrow> same_but_table a c"
  by (simp add: same_but_table_def)

lemma same_compare: "same_but_table ht ht' \<Longrightarrow> dictCompareHashKeys ht' = dictCompareHashKeys ht"
  by (intro ext) (simp add: same_but_table_def dictCompareHashKeys_def split: option.split)

lemma same_hash: "same_but_table ht ht' \<Longrightarrow> dictHashKey ht' = dictHashKey ht"
  by (intro ext) (simp add: same_but_table_def dictHashKey_def)

lemma same_keys_ok: "same_but_table ht ht' \<Longrightarrow> keys_ok ht' = keys_ok ht"
  by (simp add: keys_ok_def same_compare same_hash)

section \<open>Chains\<close>

lemma slot_mod:
  assumes "h < 2 ^ 32" "n \<le> 30"
  shows "slot h (2 ^ n - 1) = h mod 2 ^ n"
proof -
  have "(word_of_nat (2 ^ n - 1) :: 64 word) = mask n"
    by (simp add: mask_eq_exp_minus_1 of_nat_diff)
  then have "unat (and (word_of_nat h :: 64 word) (word_of_nat (2 ^ n - 1))) = h mod 2 ^ n"
    using assms by (simp add: take_bit_eq_mask [symmetric] unsigned_take_bit_eq unat_of_nat)
      (simp add: take_bit_eq_mod)
  moreover have "h mod 2 ^ n < 2 ^ 32"
    using assms(1) by (meson le_less_trans mod_less_eq_dividend)
  ultimately show ?thesis by (simp add: slot_def)
qed

lemma dictHashKey_less: "dictHashKey ht key < 2 ^ 32"
  unfolding dictHashKey_def using unsigned_less [of "hashFunction (dt_type ht) key"] by simp

lemma slot_home: "homed ht \<Longrightarrow> slot (dictHashKey ht key) (dt_sizemask ht) = home ht key"
  using slot_mod [OF dictHashKey_less] by (auto simp: homed_def home_def)

lemma home_less: "homed ht \<Longrightarrow> home ht key < dt_size ht"
  by (auto simp: homed_def home_def)

lemma size_bounds: "homed ht \<Longrightarrow> 0 < dt_size ht \<and> dt_size ht \<le> 2 ^ 30"
  using power_increasing [of _ 30 "2 :: nat"] by (fastforce simp: homed_def)

lemma get_chain_home:
  assumes "homed ht" "h < dt_size ht"
  obtains c where "get_chain ht h = Some c" "\<And>e. e \<in> set c \<Longrightarrow> home ht (de_key e) = h"
  using assms by (auto simp: homed_def get_chain_def)

lemma mset_concat_update:
  assumes "h < length t"
  shows "mset (concat (t[h := c])) + mset (t ! h) = mset (concat t) + mset c"
proof -
  have "concat t = concat (take h t @ t ! h # drop (Suc h) t)" using nth_take_drop_split [OF assms] by simp
  then have "mset (concat t) = mset (concat (take h t)) + mset (t ! h) + mset (concat (drop (Suc h) t))" by simp
  then show ?thesis using assms by (simp add: upd_conv_take_nth_drop ac_simps)
qed

lemma set_chain_homed:
  assumes "homed ht" "get_chain ht h = Some c" "\<And>e. e \<in> set c' \<Longrightarrow> home ht (de_key e) = h"
  obtains ht' where "set_chain h c' ht = Some ht'" "homed ht'" "same_but_table ht ht'"
    "entries ht' + mset c = entries ht + mset c'" "dt_size ht' = dt_size ht" "dt_sizemask ht' = dt_sizemask ht"
    "dt_used ht' = dt_used ht"
proof -
  obtain t n where t: "dt_table ht = Some t" "length t = dt_size ht" "dt_size ht = 2 ^ n" "2 \<le> n" "n \<le> 30"
    "dt_sizemask ht = 2 ^ n - 1" "\<And>i e. i < length t \<Longrightarrow> e \<in> set (t ! i) \<Longrightarrow> home ht (de_key e) = i"
    using assms(1) unfolding homed_def by blast
  define ht' where "ht' = ht\<lparr>dt_table := Some (t[h := c'])\<rparr>"
  have h: "h < length t" "c = t ! h" using assms(2) t(1) by (auto simp: get_chain_def split: if_splits)
  have "home ht' = home ht" by (intro ext) (simp add: home_def ht'_def dictHashKey_def)
  then have "homed ht'"
    unfolding homed_def using t h(1) assms(3)
    by (auto simp: ht'_def nth_list_update)
  moreover have "set_chain h c' ht = Some ht'" using t(1) h(1) by (simp add: set_chain_def ht'_def)
  moreover have "entries ht' + mset c = entries ht + mset c'"
    using mset_concat_update [OF h(1), of c'] t(1) h(2) by (simp add: entries_def ht'_def)
  ultimately show ?thesis using that by (auto simp: ht'_def same_but_table_def)
qed

lemma entries_used [simp]: "entries (ht\<lparr>dt_used := u\<rparr>) = entries ht"
  by (simp add: entries_def)

lemma homed_used [simp]: "homed (ht\<lparr>dt_used := u\<rparr>) = homed ht"
  by (simp add: homed_def home_def dictHashKey_def)

lemma same_used [simp]:
  "same_but_table a (b\<lparr>dt_used := u\<rparr>) = same_but_table a b" "same_but_table (b\<lparr>dt_used := u\<rparr>) a = same_but_table b a"
  by (simp_all add: same_but_table_def)

lemma keys_equiv:
  assumes "keys_ok ht"
  shows keys_refl: "dictCompareHashKeys ht a a"
    and keys_sym: "dictCompareHashKeys ht a b \<Longrightarrow> dictCompareHashKeys ht b a"
    and keys_trans: "dictCompareHashKeys ht a b \<Longrightarrow> dictCompareHashKeys ht b c \<Longrightarrow> dictCompareHashKeys ht a c"
    and keys_hash: "dictCompareHashKeys ht a b \<Longrightarrow> dictHashKey ht a = dictHashKey ht b"
  using assms unfolding keys_ok_def
  by (auto dest: equivp_reflp equivp_symp intro: equivp_transp)

text \<open>All the entries that match a key are in the chain of its hash.\<close>

lemma matching_chain:
  assumes "homed ht" "keys_ok ht" "get_chain ht (home ht key) = Some c"
  shows "matching ht key = {#e \<in># mset c. dictCompareHashKeys ht key (de_key e)#}"
proof -
  let ?P = "\<lambda>e. dictCompareHashKeys ht key (de_key e)"
  obtain t where t: "dt_table ht = Some t" "length t = dt_size ht"
    "\<And>i e. i < length t \<Longrightarrow> e \<in> set (t ! i) \<Longrightarrow> home ht (de_key e) = i"
    using assms(1) unfolding homed_def by blast
  have c: "home ht key < length t" "c = t ! home ht key"
    using assms(3) t(1) by (auto simp: get_chain_def split: if_splits)
  have other: "\<not> ?P e" if i: "i < length t" "i \<noteq> home ht key" "e \<in> set (t ! i)" for i e
  proof -
    have "home ht (de_key e) = home ht key" if "?P e" for e
      using keys_hash [OF assms(2) that] by (simp add: home_def)
    then show ?thesis using t(3) [OF i(1,3)] i(2) by auto
  qed
  have "\<not> ?P e" if e: "e \<in> set (concat (take (home ht key) t))" for e
  proof -
    obtain i where "i < home ht key" "e \<in> set (t ! i)"
      using e c(1) by (auto simp: in_set_conv_nth [where xs = "take (home ht key) t"])
    then show ?thesis using other [of i e] c(1) by simp
  qed
  moreover have "\<not> ?P e" if e: "e \<in> set (concat (drop (Suc (home ht key)) t))" for e
  proof -
    obtain i where "i < length t - Suc (home ht key)" "e \<in> set (t ! (Suc (home ht key) + i))"
      using e c(1) by (auto simp: in_set_conv_nth [where xs = "drop (Suc (home ht key)) t"])
    then show ?thesis using other [of "Suc (home ht key) + i" e] by simp
  qed
  ultimately have "filter ?P (concat (take (home ht key) t @ t ! home ht key # drop (Suc (home ht key)) t)) = filter ?P c"
    using c(2) by (simp add: filter_False)
  then have "filter ?P (concat t) = filter ?P c"
    by (simp only: nth_take_drop_split [OF c(1), symmetric])
  then have "mset (filter ?P (concat t)) = mset (filter ?P c)" by (rule arg_cong)
  then show ?thesis unfolding matching_def entries_def t(1) by (simp only: mset_filter option.case)
qed

lemma find_chain_cases:
  "(find_chain ht key c = [] \<and> filter (\<lambda>e. dictCompareHashKeys ht key (de_key e)) c = [])
   \<or> (\<exists>e r. find_chain ht key c = e # r \<and> dictCompareHashKeys ht key (de_key e) \<and>
        (\<exists>xs. c = xs @ e # r \<and> filter (\<lambda>e. dictCompareHashKeys ht key (de_key e)) xs = []))"
proof (induction c)
  case (Cons a c)
  show ?case
  proof (cases "dictCompareHashKeys ht key (de_key a)")
    case False
    then show ?thesis using Cons by (auto intro: exI [where x = "a # xs" for xs])
  qed auto
qed simp

text \<open>What a search finds is the one entry that matches, or nothing when none does.\<close>

lemma dictFind_spec:
  assumes "dict_ok ht" "keys_ok ht"
  obtains (absent) "dictFind ht key = Some []" "matching ht key = {#}"
  | (found) e r where "dictFind ht key = Some (e # r)" "matching ht key = {#e#}"
proof (cases "homed ht")
  case True
  obtain c where c: "get_chain ht (home ht key) = Some c" using get_chain_home [OF True home_less [OF True]] .
  have f: "dictFind ht key = Some (find_chain ht key c)"
    using True c size_bounds [OF True] by (simp add: dictFind_def slot_home)
  have m: "matching ht key = mset (filter (\<lambda>e. dictCompareHashKeys ht key (de_key e)) c)"
    using matching_chain [OF True assms(2) c] by simp
  have le: "size (matching ht key) \<le> 1" using assms(1) by (simp add: dict_ok_def)
  from find_chain_cases [of ht key c] show ?thesis
  proof (elim disjE exE conjE)
    assume "find_chain ht key c = []" "filter (\<lambda>e. dictCompareHashKeys ht key (de_key e)) c = []"
    then show ?thesis using absent f m by simp
  next
    fix e r xs
    assume e: "find_chain ht key c = e # r" "dictCompareHashKeys ht key (de_key e)" "c = xs @ e # r"
      "filter (\<lambda>e. dictCompareHashKeys ht key (de_key e)) xs = []"
    then have "filter (\<lambda>e. dictCompareHashKeys ht key (de_key e)) r = []"
      using le m by simp
    then show ?thesis using found f m e by simp
  qed
next
  case False
  then show ?thesis using assms(1) absent by (auto simp: dict_ok_def dictFind_def matching_def entries_def)
qed

section \<open>Growing the table\<close>

lemma next_power_doubles:
  "sz \<le> 2 ^ (i + j) \<Longrightarrow> i + j \<le> 63 \<Longrightarrow> \<exists>k \<le> j. next_power sz (2 ^ i) = Some (2 ^ (i + k)) \<and> sz \<le> 2 ^ (i + k)
     \<and> (k = 0 \<or> 2 ^ (i + k) < 2 * sz)"
proof (induction j arbitrary: i)
  case 0
  then show ?case by (subst next_power.simps) simp
next
  case (Suc j)
  show ?case
  proof (cases "sz \<le> 2 ^ i")
    case True
    then show ?thesis by (subst next_power.simps) (auto intro: exI [where x = 0])
  next
    case False
    have "u64 (2 ^ i * 2) = 2 ^ Suc i"
      using power_strict_increasing [of "Suc i" 64 "2 :: nat"] Suc.prems(2) by simp
    then have "next_power sz (2 ^ i) = next_power sz (2 ^ Suc i)"
      using False by (subst next_power.simps) simp
    moreover obtain k where k: "k \<le> j" "next_power sz (2 ^ Suc i) = Some (2 ^ (Suc i + k))" "sz \<le> 2 ^ (Suc i + k)"
      "k = 0 \<or> 2 ^ (Suc i + k) < 2 * sz"
      using Suc.IH [of "Suc i"] Suc.prems by auto
    moreover have "(2 :: nat) ^ (Suc i + 0) < 2 * sz" using False by simp
    ultimately show ?thesis by (intro exI [where x = "Suc k"]) auto
  qed
qed

text \<open>The table gets the least power of two from 4 on that is not below the size asked for.\<close>

lemma dictNextPower_spec:
  assumes "sz < 2 ^ 63 - 1"
  obtains n where "dictNextPower sz = Some (2 ^ n)" "2 \<le> n" "n \<le> 63" "sz \<le> 2 ^ n" "n = 2 \<or> 2 ^ n < 2 * sz"
proof -
  have "sz \<le> 2 ^ (2 + 61)" using assms by simp
  then obtain k where "k \<le> 61" "next_power sz (2 ^ 2) = Some (2 ^ (2 + k))" "sz \<le> 2 ^ (2 + k)"
    "k = 0 \<or> 2 ^ (2 + k) < 2 * sz"
    using next_power_doubles [of sz 2 61] by auto
  then show ?thesis using assms that [of "2 + k"]
    by (auto simp: dictNextPower_def PORT_LONG_MAX_def DICT_HT_INITIAL_SIZE_def)
qed

lemma dictNextPower_power:
  assumes "2 \<le> n" "n \<le> 62"
  shows "dictNextPower (2 ^ n) = Some (2 ^ n)"
proof -
  have "(2 :: nat) ^ n \<le> 2 ^ 62" using assms(2) by (intro power_increasing) auto
  then have "(2 :: nat) ^ n < 2 ^ 63 - 1" by simp
  then obtain m where m: "dictNextPower (2 ^ n) = Some (2 ^ m)" "2 \<le> m" "(2 :: nat) ^ n \<le> 2 ^ m" "m = 2 \<or> (2 :: nat) ^ m < 2 * 2 ^ n"
    by (rule dictNextPower_spec)
  have "n \<le> m" using m(3) by (simp add: power_le_imp_le_exp [of 2])
  moreover have "m = 2 \<or> m < Suc n" using m(4) power_less_imp_less_exp [of "2 :: nat" m "Suc n"] by auto
  ultimately show ?thesis using m(1,2) assms(1) by (cases "m = n") auto
qed

lemma move_chain_spec:
  assumes "homed n" "same_but_table ht n" "length c \<le> dt_used ht" "dt_used ht < 2 ^ 64"
  shows "\<exists>n'. move_chain c ht n = Some (ht\<lparr>dt_used := dt_used ht - length c\<rparr>, n') \<and> homed n'
    \<and> same_but_table n n' \<and> entries n' = entries n + mset c \<and> dt_size n' = dt_size n \<and> dt_used n' = dt_used n"
  using assms
proof (induction c arbitrary: ht n)
  case (Cons he c)
  define h where "h = home n (de_key he)"
  have s: "slot (dictHashKey ht (de_key he)) (dt_sizemask n) = h"
    using slot_home [OF Cons.prems(1)] same_hash [OF Cons.prems(2)] by (simp add: h_def)
  obtain d where d: "get_chain n h = Some d" "\<And>e. e \<in> set d \<Longrightarrow> home n (de_key e) = h"
    using get_chain_home [OF Cons.prems(1) home_less [OF Cons.prems(1)], of "de_key he"] unfolding h_def by metis
  obtain n1 where n1: "set_chain h (he # d) n = Some n1" "homed n1" "same_but_table n n1"
    "entries n1 + mset d = entries n + mset (he # d)" "dt_size n1 = dt_size n" "dt_sizemask n1 = dt_sizemask n"
    "dt_used n1 = dt_used n"
    by (rule set_chain_homed [OF Cons.prems(1) d(1), of "he # d"]) (auto simp: d(2) h_def)
  define ht1 where "ht1 = ht\<lparr>dt_used := sz_sub (dt_used ht) 1\<rparr>"
  have u: "sz_sub (dt_used ht) (Suc 0) = dt_used ht - Suc 0"
    using Cons.prems(3,4) by (intro sz_sub_eq) auto
  have "same_but_table ht1 n1"
    using same_but_table_trans [OF Cons.prems(2) n1(3)] by (simp add: ht1_def)
  moreover have "length c \<le> dt_used ht1" "dt_used ht1 < 2 ^ 64"
    using Cons.prems(3,4) u by (auto simp: ht1_def)
  ultimately obtain n' where n': "move_chain c ht1 n1 = Some (ht1\<lparr>dt_used := dt_used ht1 - length c\<rparr>, n')" "homed n'"
    "same_but_table n1 n'" "entries n' = entries n1 + mset c" "dt_size n' = dt_size n1" "dt_used n' = dt_used n1"
    using Cons.IH [OF n1(2), of ht1] by blast
  have "move_chain (he # c) ht n = move_chain c ht1 n1"
    by (simp add: s d(1) n1(1) ht1_def)
  moreover have "entries n1 = add_mset he (entries n)" using n1(4) by simp
  ultimately show ?case using n' n1 same_but_table_trans [OF n1(3) n'(3)]
    by (auto simp: ht1_def u)
qed simp

lemma move_table_spec:
  assumes "homed n" "same_but_table ht n" "dt_table ht = Some t" "i \<le> length t"
    "dt_used ht = length (concat (drop i t))" "dt_used ht < 2 ^ 64"
  shows "\<exists>ht' n'. move_table i (length t) ht n = Some (ht', n') \<and> dt_used ht' = 0 \<and> homed n' \<and> same_but_table n n'
    \<and> entries n' = entries n + mset (concat (drop i t)) \<and> dt_size n' = dt_size n \<and> dt_used n' = dt_used n"
  using assms
proof (induction "length t - i" arbitrary: i ht n)
  case 0
  then show ?case by (subst move_table.simps) simp
next
  case (Suc k)
  show ?case
  proof (cases "dt_used ht > 0")
    case True
    have i: "i < length t" using Suc.hyps(2) by simp
    have d: "drop i t = t ! i # drop (Suc i) t" using i by (simp add: Cons_nth_drop_Suc)
    define ht1 where "ht1 = ht\<lparr>dt_used := dt_used ht - length (t ! i)\<rparr>"
    have "get_chain ht i = Some (t ! i)" using Suc.prems(3) i by (simp add: get_chain_def)
    moreover obtain n1 where n1: "move_chain (t ! i) ht n = Some (ht1, n1)" "homed n1" "same_but_table n n1"
      "entries n1 = entries n + mset (t ! i)" "dt_size n1 = dt_size n" "dt_used n1 = dt_used n"
      using move_chain_spec [OF Suc.prems(1,2), of "t ! i"] Suc.prems(5,6) d unfolding ht1_def by auto
    ultimately have "move_table i (length t) ht n = move_table (Suc i) (length t) ht1 n1"
      using True i by (subst move_table.simps) simp
    moreover have "same_but_table ht1 n1"
      using same_but_table_trans [OF Suc.prems(2) n1(3)] by (simp add: ht1_def)
    moreover have "dt_used ht1 = length (concat (drop (Suc i) t))" "dt_table ht1 = Some t" "dt_used ht1 < 2 ^ 64"
      using Suc.prems(3,5,6) d by (auto simp: ht1_def)
    moreover have "k = length t - Suc i" "Suc i \<le> length t" using Suc.hyps(2) i by auto
    ultimately obtain ht' n' where "move_table i (length t) ht n = Some (ht', n')" "dt_used ht' = 0" "homed n'"
      and n': "same_but_table n1 n'" "entries n' = entries n1 + mset (concat (drop (Suc i) t))" "dt_size n' = dt_size n1"
        "dt_used n' = dt_used n1"
      using Suc.hyps(1) [of "Suc i" n1 ht1] n1(2) by auto
    then show ?thesis using n1(4-6) d same_but_table_trans [OF n1(3) n'(1)] by simp
  next
    case False
    then show ?thesis using Suc.prems by (subst move_table.simps) auto
  qed
qed

lemma fresh_homed:
  assumes "2 \<le> n" "n \<le> 30"
  shows "homed (ht\<lparr>dt_size := 2 ^ n, dt_sizemask := 2 ^ n - 1, dt_table := Some (replicate (2 ^ n) []), dt_used := u\<rparr>)"
    (is "homed ?n")
  using assms unfolding homed_def by (intro exI [where x = "replicate (2 ^ n) []"] exI [where x = n]) auto

lemma concat_replicate_Nil: "concat (replicate n []) = []"
  by (induction n) auto

text \<open>Growing keeps every entry, puts it where its hash says and nothing else.\<close>

lemma dictExpand_spec:
  assumes "dict_ok ht" "dt_used ht \<le> 2 ^ n" "2 \<le> n" "n \<le> 30" "None \<notin> set al"
  obtains ht' al' where "dictExpand ht (2 ^ n) al = Some (DICT_OK, ht', al')" "dict_ok ht'" "homed ht'"
    "same_but_table ht ht'" "entries ht' = entries ht" "dt_size ht' = 2 ^ n" "dt_used ht' = dt_used ht" "None \<notin> set al'"
proof -
  obtain f al' where al: "alloc_next al = (Some f, al')" "None \<notin> set al'"
    using assms(5) alloc_next_None [of al] alloc_next_set [of al] by (cases "alloc_next al") (metis option.exhaust subsetD)
  have p: "(2 :: nat) ^ n \<le> 2 ^ 30" using assms(4) by (intro power_increasing) auto
  have ms: "sz_sub (2 ^ n) (Suc 0) = 2 ^ n - Suc 0" using p by (intro sz_sub_eq) auto
  define n0 where "n0 = (dictInit ht (dt_type ht) (dt_privdata ht))\<lparr>dt_size := 2 ^ n, dt_sizemask := 2 ^ n - 1,
    dt_table := Some (replicate (2 ^ n) []), dt_used := dt_used ht\<rparr>"
  have n0: "homed n0" "same_but_table ht n0" "entries n0 = {#}" "dt_size n0 = 2 ^ n" "dt_used n0 = dt_used ht"
    using fresh_homed [OF assms(3,4)]
    by (simp_all add: n0_def same_but_table_def dictInit_def dictReset_def entries_def concat_replicate_Nil)
  have "\<exists>ht' n'. move_table 0 (dt_size ht) ht n0 = Some (ht', n') \<and> dt_used ht' = 0 \<and> homed n' \<and> same_but_table n0 n'
    \<and> entries n' = entries ht \<and> dt_size n' = dt_size n0 \<and> dt_used n' = dt_used n0"
  proof (cases "dt_table ht")
    case None
    then have "dt_size ht = 0" "dt_used ht = 0" "entries ht = {#}"
      using assms(1) by (auto simp: dict_ok_def homed_def entries_def)
    then show ?thesis using n0 by (subst move_table.simps) simp
  next
    case (Some t)
    then have "length t = dt_size ht" "entries ht = mset (concat t)" "dt_used ht = length (concat t)"
      using assms(1) by (auto simp: dict_ok_def homed_def entries_def)
    moreover have "dt_used ht < 2 ^ 64" using assms(2) p by simp
    ultimately show ?thesis using move_table_spec [OF n0(1,2) Some, of 0] n0(3) by simp
  qed
  then obtain h1 ht' where h: "move_table 0 (dt_size ht) ht n0 = Some (h1, ht')" "dt_used h1 = 0" "homed ht'"
    "same_but_table n0 ht'" "entries ht' = entries ht" "dt_size ht' = 2 ^ n" "dt_used ht' = dt_used ht"
    using n0 by auto
  have e: "dictExpand ht (2 ^ n) al = Some (DICT_OK, ht', al')"
    using assms(2) dictNextPower_power [OF assms(3)] assms(4) h(1,2)
    by (simp add: dictExpand_def al(1) ms n0_def)
  have sb: "same_but_table ht ht'" using same_but_table_trans [OF n0(2) h(4)] .
  have "matching ht' key = matching ht key" for key
    unfolding matching_def h(5) same_compare [OF sb] ..
  then have "dict_ok ht'" using assms(1,2) h unfolding dict_ok_def by auto
  then show ?thesis using that e h sb al(2) by simp
qed

lemma alloc_next_ok:
  assumes "None \<notin> set al"
  obtains f al' where "alloc_next al = (Some f, al')" "None \<notin> set al'"
  using assms alloc_next_None [of al] alloc_next_set [of al] by (cases "alloc_next al") (metis option.exhaust subsetD)

lemma dictExpandIfNeeded_spec:
  assumes "dict_ok ht" "dt_used ht < 2 ^ 30" "None \<notin> set al"
  obtains ht' al' where "dictExpandIfNeeded ht al = Some (DICT_OK, ht', al')" "dict_ok ht'" "homed ht'"
    "same_but_table ht ht'" "entries ht' = entries ht" "dt_used ht' = dt_used ht" "dt_used ht' < dt_size ht'" "None \<notin> set al'"
proof (cases "homed ht")
  case False
  then have z: "dt_size ht = 0" "dt_used ht = 0" using assms(1) by (auto simp: dict_ok_def)
  have "\<exists>ht' al'. dictExpand ht (2 ^ 2) al = Some (DICT_OK, ht', al') \<and> dict_ok ht' \<and> homed ht' \<and> same_but_table ht ht'
    \<and> entries ht' = entries ht \<and> dt_used ht' = dt_used ht \<and> dt_size ht' = 2 ^ 2 \<and> None \<notin> set al'"
    by (rule dictExpand_spec [OF assms(1) _ _ _ assms(3), of 2]) (use z in auto)
  then show ?thesis using that z by (auto simp: dictExpandIfNeeded_def DICT_HT_INITIAL_SIZE_def)
next
  case True
  then obtain n where n: "dt_size ht = 2 ^ n" "2 \<le> n" "n \<le> 30" unfolding homed_def by blast
  show ?thesis
  proof (cases "dt_used ht = dt_size ht")
    case full: True
    then have "(2 :: nat) ^ n < 2 ^ 30" using assms(2) n(1) by simp
    then have n30: "Suc n \<le> 30" using power_less_imp_less_exp [of "2 :: nat" n 30] by simp
    have "u64 (dt_size ht * 2) = 2 ^ Suc n"
      using assms(2) n(1) full by (simp add: u64_def)
    moreover have "\<exists>ht' al'. dictExpand ht (2 ^ Suc n) al = Some (DICT_OK, ht', al') \<and> dict_ok ht' \<and> homed ht' \<and> same_but_table ht ht'
      \<and> entries ht' = entries ht \<and> dt_used ht' = dt_used ht \<and> dt_size ht' = 2 ^ Suc n \<and> None \<notin> set al'"
      by (rule dictExpand_spec [OF assms(1) _ _ n30 assms(3)]) (use n full in auto)
    ultimately show ?thesis using that n full by (auto simp: dictExpandIfNeeded_def)
  next
    case False
    then show ?thesis using that [of ht al] True assms size_bounds [OF True]
      by (auto simp: dictExpandIfNeeded_def dict_ok_def)
  qed
qed

section \<open>The operations on the entries\<close>

definition dup_ok :: "('k, 'v, 'm) dict \<Rightarrow> 'k \<Rightarrow> 'v \<Rightarrow> 'm \<Rightarrow> 'v \<Rightarrow> 'm \<Rightarrow> bool" where
  \<comment> \<open>storing the value \<open>val\<close> under the uncopied \<open>key\<close> makes the copy \<open>v\<close> and the state \<open>m'\<close>\<close>
  "dup_ok ht key val m v m' \<longleftrightarrow> keyDup (dt_type ht) = None
     \<and> (case valDup (dt_type ht) of None \<Rightarrow> v = val \<and> m' = m | Some f \<Rightarrow> f (dt_privdata ht) val m = Some (v, m'))"

lemma dup_ok_set:
  assumes "dup_ok ht key val m v m'"
  shows "dictSetHashKey ht e key m = Some (e\<lparr>de_key := key\<rparr>, m)"
    and "dictSetHashVal ht e val m = Some (e\<lparr>de_val := v\<rparr>, m')"
  using assms by (auto simp: dup_ok_def dictSetHashKey_def dictSetHashVal_def split: option.splits)

lemma same_dup_ok: "same_but_table ht ht' \<Longrightarrow> dup_ok ht' = dup_ok ht"
  by (intro ext) (simp add: same_but_table_def dup_ok_def split: option.split)

lemma same_free:
  assumes "same_but_table ht ht'"
  shows "dictFreeEntryKey ht' = dictFreeEntryKey ht" "dictFreeEntryVal ht' = dictFreeEntryVal ht"
  using assms
  by (auto simp: fun_eq_iff same_but_table_def dictFreeEntryKey_def dictFreeEntryVal_def split: option.split)

lemma matching_same: "same_but_table ht ht' \<Longrightarrow> entries ht' = entries ht \<Longrightarrow> matching ht' = matching ht"
  by (intro ext) (simp add: matching_def same_compare)

lemma find_chain_empty_iff:
  assumes "homed ht" "keys_ok ht" "get_chain ht (home ht key) = Some c"
  shows "find_chain ht key c = [] \<longleftrightarrow> matching ht key = {#}"
proof -
  have m: "matching ht key = mset (filter (\<lambda>e. dictCompareHashKeys ht key (de_key e)) c)"
    using matching_chain [OF assms] by simp
  from find_chain_cases [of ht key c] show ?thesis unfolding m by (auto simp: filter_empty_conv)
qed

lemma dictKeyIndex_spec:
  assumes "dict_ok ht" "keys_ok ht" "dt_used ht < 2 ^ 30" "None \<notin> set al"
  shows "\<exists>ht' al'. dictKeyIndex ht key al = Some (if matching ht key = {#} then int (home ht' key) else -1, ht', al')
    \<and> dict_ok ht' \<and> homed ht' \<and> same_but_table ht ht' \<and> entries ht' = entries ht \<and> dt_used ht' = dt_used ht
    \<and> dt_used ht' < dt_size ht' \<and> None \<notin> set al'"
proof -
  obtain ht' al' where e: "dictExpandIfNeeded ht al = Some (DICT_OK, ht', al')" "dict_ok ht'" "homed ht'"
    "same_but_table ht ht'" "entries ht' = entries ht" "dt_used ht' = dt_used ht" "dt_used ht' < dt_size ht'" "None \<notin> set al'"
    using dictExpandIfNeeded_spec [OF assms(1,3,4)] by metis
  obtain c where c: "get_chain ht' (home ht' key) = Some c" using get_chain_home [OF e(3) home_less [OF e(3), of key]] .
  have k: "keys_ok ht'" using same_keys_ok [OF e(4)] assms(2) by simp
  have "home ht' key < 2 ^ 31" using home_less [OF e(3), of key] size_bounds [OF e(3)] by simp
  then have "dictKeyIndex ht key al = Some (if matching ht key = {#} then int (home ht' key) else -1, ht', al')"
    using find_chain_empty_iff [OF e(3) k c] slot_home [OF e(3), of key] same_hash [OF e(4)] c matching_same [OF e(4,5)]
      find_chain_cases [of ht' key c]
    by (auto simp: dictKeyIndex_def e(1))
  then show ?thesis using e by blast
qed

lemma matching_add:
  assumes "same_but_table ht ht'" "entries ht' = add_mset e (entries ht)"
  shows "matching ht' k = (if dictCompareHashKeys ht k (de_key e) then add_mset e (matching ht k) else matching ht k)"
  using assms by (simp add: matching_def same_compare)

lemma matching_equiv:
  assumes "keys_ok ht" "dictCompareHashKeys ht a b"
  shows "matching ht a = matching ht b"
proof -
  have "dictCompareHashKeys ht a = dictCompareHashKeys ht b"
    using keys_sym [OF assms(1)] keys_trans [OF assms(1)] assms(2) by blast
  then show ?thesis by (simp add: matching_def)
qed

text \<open>A key without entry gets one.\<close>

lemma dictAdd_absent:
  assumes "dict_ok ht" "keys_ok ht" "dt_used ht < 2 ^ 30" "None \<notin> set al" "matching ht key = {#}" "dup_ok ht key val m v m'"
  obtains ht' al' where "dictAdd ht key val m al = Some (DICT_OK, ht', m', al')" "dict_ok ht'" "same_but_table ht ht'"
    "entries ht' = add_mset \<lparr>de_key = key, de_val = v\<rparr> (entries ht)" "dt_used ht' = dt_used ht + 1" "None \<notin> set al'"
proof -
  obtain h1 al1 where i: "dictKeyIndex ht key al = Some (int (home h1 key), h1, al1)"
    and h1: "dict_ok h1" "homed h1" "same_but_table ht h1" "entries h1 = entries ht" "dt_used h1 = dt_used ht"
    "dt_used h1 < dt_size h1" "None \<notin> set al1"
    using dictKeyIndex_spec [OF assms(1-4), of key] assms(5) by auto
  obtain f al' where al: "alloc_next al1 = (Some f, al')" "None \<notin> set al'" using alloc_next_ok [OF h1(7)] .
  define e where "e = \<lparr>de_key = key, de_val = v\<rparr>"
  obtain c where c: "get_chain h1 (home h1 key) = Some c" "\<And>e. e \<in> set c \<Longrightarrow> home h1 (de_key e) = home h1 key"
    using get_chain_home [OF h1(2) home_less [OF h1(2), of key]] by blast
  obtain h2 where h2: "set_chain (home h1 key) (e # c) h1 = Some h2" "homed h2" "same_but_table h1 h2"
    "entries h2 + mset c = entries h1 + mset (e # c)" "dt_size h2 = dt_size h1" "dt_used h2 = dt_used h1"
    by (rule set_chain_homed [OF h1(2) c(1), of "e # c"]) (auto simp: c(2) e_def)
  define ht' where "ht' = h2\<lparr>dt_used := dt_used h1 + 1\<rparr>"
  have d: "dup_ok h1 key val m v m'" using assms(6) same_dup_ok [OF h1(3)] by simp
  have u: "u64 (dt_used h1 + 1) = dt_used h1 + 1" using assms(3) h1(5) by (intro u64_id) simp
  have "dictAdd ht key val m al = Some (DICT_OK, ht', m', al')"
    using dup_ok_set [OF d] i al(1) c(1) h2(1,6) u by (simp add: dictAdd_def e_def ht'_def)
  moreover have sb: "same_but_table ht ht'" using same_but_table_trans [OF h1(3) h2(3)] by (simp add: ht'_def)
  moreover have en: "entries ht' = add_mset e (entries ht)" using h2(4) h1(4) by (simp add: ht'_def)
  moreover have "size (matching ht' k) \<le> 1" for k
  proof (cases "dictCompareHashKeys ht k key")
    case True
    then show ?thesis using matching_add [OF sb en, of k] assms(5) matching_equiv [OF assms(2) True] by (simp add: e_def)
  next
    case False
    then show ?thesis using matching_add [OF sb en, of k] assms(1) by (simp add: e_def dict_ok_def)
  qed
  then have "dict_ok ht'" using h1 h2 en assms(1) unfolding dict_ok_def by (auto simp: ht'_def)
  ultimately show ?thesis using that al(2) h1(5) by (simp add: ht'_def e_def)
qed

text \<open>A key that has an entry is refused; the table may still have grown.\<close>

lemma dictAdd_present:
  assumes "dict_ok ht" "keys_ok ht" "dt_used ht < 2 ^ 30" "None \<notin> set al" "matching ht key \<noteq> {#}"
  obtains ht' al' where "dictAdd ht key val m al = Some (DICT_ERR, ht', m, al')" "dict_ok ht'" "same_but_table ht ht'"
    "entries ht' = entries ht" "dt_used ht' = dt_used ht" "homed ht'" "None \<notin> set al'"
proof -
  obtain h1 al1 where i: "dictKeyIndex ht key al = Some (-1, h1, al1)"
    and h1: "dict_ok h1" "homed h1" "same_but_table ht h1" "entries h1 = entries ht" "dt_used h1 = dt_used ht"
    "dt_used h1 < dt_size h1" "None \<notin> set al1"
    using dictKeyIndex_spec [OF assms(1-4), of key] assms(5) by auto
  then show ?thesis using that [of h1 al1] by (simp add: dictAdd_def)
qed

lemma update_first_append:
  assumes "filter (\<lambda>e. dictCompareHashKeys ht key (de_key e)) xs = []" "dictCompareHashKeys ht key (de_key e)"
  shows "update_first ht key e' (xs @ e # r) = xs @ e' # r"
  using assms by (induction xs) (auto split: if_splits)

lemma delete_chain_append:
  assumes "filter (\<lambda>e. dictCompareHashKeys ht key (de_key e)) xs = []" "dictCompareHashKeys ht key (de_key e)"
  shows "delete_chain ht key (xs @ e # r) = Some (e, xs @ r)"
  using assms by (induction xs) (auto split: if_splits)

lemma delete_chain_None:
  "filter (\<lambda>e. dictCompareHashKeys ht key (de_key e)) c = [] \<Longrightarrow> delete_chain ht key c = None"
  by (induction c) (auto split: if_splits)

text \<open>The chain around the one entry that matches a key.\<close>

lemma matching_split:
  assumes "homed ht" "keys_ok ht" "matching ht key = {#e#}" "size (matching ht key) \<le> 1"
  obtains xs r where "get_chain ht (home ht key) = Some (xs @ e # r)" "find_chain ht key (xs @ e # r) = e # r"
    "filter (\<lambda>e. dictCompareHashKeys ht key (de_key e)) xs = []" "dictCompareHashKeys ht key (de_key e)"
    "\<And>x. x \<in> set (xs @ e # r) \<Longrightarrow> home ht (de_key x) = home ht key"
proof -
  let ?P = "\<lambda>e. dictCompareHashKeys ht key (de_key e)"
  obtain c where c: "get_chain ht (home ht key) = Some c" "\<And>e. e \<in> set c \<Longrightarrow> home ht (de_key e) = home ht key"
    using get_chain_home [OF assms(1) home_less [OF assms(1), of key]] by blast
  have m: "{#e#} = mset (filter ?P c)" using matching_chain [OF assms(1,2) c(1)] assms(3) by simp
  from find_chain_cases [of ht key c] show ?thesis
  proof (elim disjE exE conjE)
    fix e' r xs
    assume e: "find_chain ht key c = e' # r" "?P e'" "c = xs @ e' # r" "filter ?P xs = []"
    then have "e' = e" using m by auto
    then show ?thesis using that [of xs r] c e by simp
  qed (use m in simp)
qed

lemma dictDelete_present:
  assumes "dict_ok ht" "keys_ok ht" "matching ht key = {#e#}" "dictFreeEntryKey ht e m = Some m1" "dictFreeEntryVal ht e m1 = Some m2"
  obtains ht' where "dictDelete ht key m = Some (DICT_OK, ht', m2)" "dict_ok ht'" "same_but_table ht ht'"
    "entries ht = add_mset e (entries ht')" "dt_used ht' = dt_used ht - 1" "dt_size ht' = dt_size ht"
    "\<And>i. i \<noteq> home ht key \<Longrightarrow> get_chain ht' i = get_chain ht i"
    "get_chain ht' (home ht key) = map_option (remove1 e) (get_chain ht (home ht key))"
proof -
  have "e \<in># matching ht key" using assms(3) by simp
  then have en: "e \<in># entries ht" by (simp add: matching_def)
  then have H: "homed ht" using assms(1) by (auto simp: dict_ok_def entries_def)
  have le: "size (matching ht k) \<le> 1" for k using assms(1) by (simp add: dict_ok_def)
  obtain xs r where c: "get_chain ht (home ht key) = Some (xs @ e # r)"
    "filter (\<lambda>e. dictCompareHashKeys ht key (de_key e)) xs = []" "dictCompareHashKeys ht key (de_key e)"
    "\<And>x. x \<in> set (xs @ e # r) \<Longrightarrow> home ht (de_key x) = home ht key"
    using matching_split [OF H assms(2,3) le] by metis
  obtain h1 where h1: "set_chain (home ht key) (xs @ r) ht = Some h1" "homed h1" "same_but_table ht h1"
    "entries h1 + mset (xs @ e # r) = entries ht + mset (xs @ r)" "dt_size h1 = dt_size ht" "dt_used h1 = dt_used ht"
    by (rule set_chain_homed [OF H c(1), of "xs @ r"]) (auto intro: c(4))
  have e1: "entries ht = add_mset e (entries h1)" using h1(4) by simp
  define ht' where "ht' = h1\<lparr>dt_used := dt_used ht - 1\<rparr>"
  have u: "dt_used ht = size (entries ht)" "dt_used ht \<le> dt_size ht" using assms(1) by (auto simp: dict_ok_def)
  then have "sz_sub (dt_used ht) 1 = dt_used ht - 1" using e1 size_bounds [OF H] by (intro sz_sub_eq) auto
  then have "dictDelete ht key m = Some (DICT_OK, ht', m2)"
    using assms(4,5) c(1) delete_chain_append [OF c(2,3)] h1(1,6) size_bounds [OF H] slot_home [OF H] same_free [OF h1(3)]
    by (simp add: dictDelete_def ht'_def)
  moreover have sb: "same_but_table ht ht'" using h1(3) by (simp add: ht'_def)
  moreover have "matching ht' k \<subseteq># matching ht k" for k
    using e1 same_compare [OF sb] by (auto simp: matching_def ht'_def)
  then have "size (matching ht' k) \<le> 1" for k using le size_mset_mono order_trans by blast
  then have "dict_ok ht'" using h1(2,5) u e1 unfolding dict_ok_def by (auto simp: ht'_def)
  moreover have "get_chain ht' i = get_chain ht i" if "i \<noteq> home ht key" for i
    using h1(1) that by (auto simp: set_chain_def get_chain_def ht'_def split: option.splits if_splits)
  moreover have "get_chain h1 (home ht key) = Some (xs @ r)"
    using h1(1) by (auto simp: set_chain_def get_chain_def split: option.splits if_splits)
  then have "get_chain ht' (home ht key) = Some (xs @ r)" by (simp add: get_chain_def ht'_def)
  then have "get_chain ht' (home ht key) = map_option (remove1 e) (get_chain ht (home ht key))"
    using c(1-3) by (auto simp: remove1_append filter_empty_conv)
  ultimately show ?thesis using that e1 h1(5) by (simp add: ht'_def)
qed

lemma dictDelete_absent:
  assumes "dict_ok ht" "keys_ok ht" "matching ht key = {#}"
  shows "dictDelete ht key m = Some (DICT_ERR, ht, m)"
proof (cases "homed ht")
  case True
  obtain c where c: "get_chain ht (home ht key) = Some c" using get_chain_home [OF True home_less [OF True, of key]] .
  have "mset (filter (\<lambda>e. dictCompareHashKeys ht key (de_key e)) c) = {#}"
    using matching_chain [OF True assms(2) c] assms(3) by simp
  then have "delete_chain ht key c = None" by (intro delete_chain_None) (simp del: mset_filter)
  then show ?thesis using c slot_home [OF True] size_bounds [OF True] by (simp add: dictDelete_def)
next
  case False
  then show ?thesis using assms(1) by (auto simp: dict_ok_def dictDelete_def)
qed

section \<open>The table as a map\<close>

definition dict_get :: "('k, 'v, 'm) dict \<Rightarrow> 'k \<Rightarrow> 'v option" where
  "dict_get ht key = (case dictFind ht key of Some (e # _) \<Rightarrow> Some (de_val e) | _ \<Rightarrow> None)"

lemma dict_get_matching:
  assumes "dict_ok ht" "keys_ok ht"
  shows dict_get_None: "matching ht key = {#} \<Longrightarrow> dict_get ht key = None"
    and dict_get_Some: "matching ht key = {#e#} \<Longrightarrow> dict_get ht key = Some (de_val e)"
  by (rule dictFind_spec [OF assms, of key]; simp add: dict_get_def)+

lemma matching_cases:
  assumes "dict_ok ht"
  obtains "matching ht key = {#}" | e where "matching ht key = {#e#}"
proof -
  have "size (matching ht key) \<le> 1" using assms by (simp add: dict_ok_def)
  then consider "size (matching ht key) = 0" | "size (matching ht key) = 1" by linarith
  then show ?thesis using that by cases (auto dest!: size_1_singleton_mset simp del: One_nat_def)
qed

lemma dict_get_eqI:
  assumes "dict_ok ht" "keys_ok ht" "dict_ok ht'" "keys_ok ht'" "image_mset de_val (matching ht' k) = image_mset de_val (matching ht k)"
  shows "dict_get ht' k = dict_get ht k"
proof (cases rule: matching_cases [OF assms(1), of k])
  case 1
  then show ?thesis using assms by (simp add: dict_get_None)
next
  case (2 e)
  then show ?thesis using assms by (cases rule: matching_cases [OF assms(3), of k]) (auto simp: dict_get_None dict_get_Some)
qed

text \<open>Storing a value under a key, new or not.\<close>

lemma dictReplace_map:
  assumes "dict_ok ht" "keys_ok ht" "dt_used ht < 2 ^ 30" "None \<notin> set al" "dup_ok ht key val m v m1"
    "\<And>e. matching ht key = {#e#} \<Longrightarrow> dictFreeEntryVal ht e m1 = Some m2" "matching ht key = {#} \<Longrightarrow> m2 = m1"
  obtains ht' al' where
    "dictReplace ht key val m al = Some (if dict_get ht key = None then 1 else 0, ht', m2, al')"
    "dict_ok ht'" "same_but_table ht ht'" "None \<notin> set al'"
    "\<And>k. dict_get ht' k = (if dictCompareHashKeys ht k key then Some v else dict_get ht k)"
    "dt_used ht' = (if dict_get ht key = None then dt_used ht + 1 else dt_used ht)"
proof (cases rule: matching_cases [OF assms(1), of key])
  case 1
  obtain ht' al' where a: "dictAdd ht key val m al = Some (DICT_OK, ht', m1, al')" "dict_ok ht'" "same_but_table ht ht'"
    "entries ht' = add_mset \<lparr>de_key = key, de_val = v\<rparr> (entries ht)" "dt_used ht' = dt_used ht + 1" "None \<notin> set al'"
    using dictAdd_absent [OF assms(1-4) 1 assms(5)] .
  have k: "keys_ok ht'" using same_keys_ok [OF a(3)] assms(2) by simp
  have "dict_get ht' k = (if dictCompareHashKeys ht k key then Some v else dict_get ht k)" for k
  proof (cases "dictCompareHashKeys ht k key")
    case True
    then show ?thesis using matching_add [OF a(3,4), of k] matching_equiv [OF assms(2) True] 1 dict_get_Some [OF a(2) k] by simp
  next
    case False
    then show ?thesis using matching_add [OF a(3,4), of k] dict_get_eqI [OF assms(1,2) a(2) k, of k] by simp
  qed
  then show ?thesis using that [of ht' al'] a 1 assms(7) dict_get_None [OF assms(1,2)] by (simp add: dictReplace_def)
next
  case (2 e)
  obtain h1 al' where a: "dictAdd ht key val m al = Some (DICT_ERR, h1, m, al')" "dict_ok h1" "same_but_table ht h1"
    "entries h1 = entries ht" "dt_used h1 = dt_used ht" "homed h1" "None \<notin> set al'"
    using dictAdd_present [OF assms(1-4)] 2 by (metis add_mset_not_empty)
  have k1: "keys_ok h1" using same_keys_ok [OF a(3)] assms(2) by simp
  have m1: "matching h1 key = {#e#}" using matching_same [OF a(3,4)] 2 by simp
  have le: "size (matching h1 k) \<le> 1" for k using a(2) by (simp add: dict_ok_def)
  obtain xs r where c: "get_chain h1 (home h1 key) = Some (xs @ e # r)" "find_chain h1 key (xs @ e # r) = e # r"
    "filter (\<lambda>e. dictCompareHashKeys h1 key (de_key e)) xs = []" "dictCompareHashKeys h1 key (de_key e)"
    "\<And>x. x \<in> set (xs @ e # r) \<Longrightarrow> home h1 (de_key x) = home h1 key"
    using matching_split [OF a(6) k1 m1 le] by metis
  define e' where "e' = e\<lparr>de_val := v\<rparr>"
  obtain h2 where h2: "set_chain (home h1 key) (xs @ e' # r) h1 = Some h2" "homed h2" "same_but_table h1 h2"
    "entries h2 + mset (xs @ e # r) = entries h1 + mset (xs @ e' # r)" "dt_size h2 = dt_size h1" "dt_used h2 = dt_used h1"
    by (rule set_chain_homed [OF a(6) c(1), of "xs @ e' # r"]) (use c(5) in \<open>auto simp: e'_def\<close>)
  have s2: "same_but_table ht h2" using same_but_table_trans [OF a(3) h2(3)] .
  have k2: "keys_ok h2" using same_keys_ok [OF s2] assms(2) by simp
  have en: "add_mset e (entries h2) = add_mset e' (entries h1)" using h2(4) by simp
  have mt: "(if dictCompareHashKeys ht k (de_key e) then add_mset e (matching h2 k) else matching h2 k)
      = (if dictCompareHashKeys ht k (de_key e) then add_mset e' (matching h1 k) else matching h1 k)" for k
    using arg_cong [OF en, of "filter_mset (\<lambda>x. dictCompareHashKeys ht k (de_key x))"]
    by (simp add: matching_def same_compare [OF s2] same_compare [OF a(3)] e'_def split: if_splits)
  have ek: "dictCompareHashKeys ht k (de_key e) = dictCompareHashKeys ht k key" for k
    using c(4) keys_sym [OF assms(2)] keys_trans [OF assms(2)] unfolding same_compare [OF a(3)] by blast
  have m2: "matching h2 k = (if dictCompareHashKeys ht k key then {#e'#} else matching h1 k)" for k
  proof (cases "dictCompareHashKeys ht k key")
    case True
    then have "matching h1 k = {#e#}" using matching_equiv [OF k1] m1 unfolding same_compare [OF a(3)] by metis
    then show ?thesis using mt [of k] ek True by simp
  next
    case False
    then show ?thesis using mt [of k] ek by simp
  qed
  have sz: "size (entries h2) = size (entries h1)" using arg_cong [OF en, of size] by simp
  have ok2: "dict_ok h2" using a(2) h2(2,5,6) le m2 sz unfolding dict_ok_def by auto
  have f: "dictFind h1 key = Some (e # r)"
    using c(1,2) slot_home [OF a(6)] size_bounds [OF a(6)] by (simp add: dictFind_def)
  have d: "dup_ok h1 key val m v m1" using assms(5) same_dup_ok [OF a(3)] by simp
  have "dictReplace ht key val m al = Some (0, h2, m2, al')"
    using a(1) f dup_ok_set(2) [OF d] c(1) slot_home [OF a(6)] h2(1) update_first_append [OF c(3,4)]
      assms(6) [OF 2] same_free(2) [OF s2]
    by (simp add: dictReplace_def e'_def)
  moreover have "dict_get h2 k = (if dictCompareHashKeys ht k key then Some v else dict_get ht k)" for k
  proof (cases "dictCompareHashKeys ht k key")
    case True
    then show ?thesis using m2 [of k] dict_get_Some [OF ok2 k2] by (simp add: e'_def)
  next
    case False
    then show ?thesis using m2 [of k] dict_get_eqI [OF assms(1,2) ok2 k2, of k] matching_same [OF a(3,4)] by simp
  qed
  ultimately show ?thesis using that [of h2 al'] ok2 s2 a(5,7) h2(6) dict_get_Some [OF assms(1,2) 2] by simp
qed

text \<open>Removing a key.\<close>

lemma dictDelete_map:
  assumes "dict_ok ht" "keys_ok ht"
    "\<And>e. matching ht key = {#e#} \<Longrightarrow> \<exists>m1. dictFreeEntryKey ht e m = Some m1 \<and> dictFreeEntryVal ht e m1 = Some m2"
    "matching ht key = {#} \<Longrightarrow> m2 = m"
  shows "\<exists>ht'. dictDelete ht key m = Some (if dict_get ht key = None then DICT_ERR else DICT_OK, ht', m2)
    \<and> dict_ok ht' \<and> same_but_table ht ht'
    \<and> (\<forall>k. dict_get ht' k = (if dictCompareHashKeys ht k key then None else dict_get ht k)) \<and> dt_used ht' \<le> dt_used ht"
proof (cases rule: matching_cases [OF assms(1), of key])
  case 1
  have "dict_get ht k = None" if "dictCompareHashKeys ht k key" for k
    using matching_equiv [OF assms(2) that] 1 dict_get_None [OF assms(1,2)] by simp
  then show ?thesis using dictDelete_absent [OF assms(1,2) 1] 1 assms(1,4) dict_get_None [OF assms(1,2)] by simp
next
  case (2 e)
  obtain m1 where m: "dictFreeEntryKey ht e m = Some m1" "dictFreeEntryVal ht e m1 = Some m2" using assms(3) [OF 2] by blast
  obtain ht' where d: "dictDelete ht key m = Some (DICT_OK, ht', m2)" "dict_ok ht'" "same_but_table ht ht'"
    "entries ht = add_mset e (entries ht')" "dt_used ht' = dt_used ht - 1"
    using dictDelete_present [OF assms(1,2) 2 m] by metis
  have k: "keys_ok ht'" using same_keys_ok [OF d(3)] assms(2) by simp
  have mm: "matching ht k = (if dictCompareHashKeys ht k (de_key e) then add_mset e (matching ht' k) else matching ht' k)" for k
    unfolding matching_def d(4) same_compare [OF d(3)] by simp
  have "dictCompareHashKeys ht key (de_key e)" using mm [of key] 2
    by (metis (no_types, lifting) filter_mset_add_mset matching_def multi_member_last filter_mset_eq_conv)
  then have ek: "dictCompareHashKeys ht k (de_key e) = dictCompareHashKeys ht k key" for k
    using keys_sym [OF assms(2)] keys_trans [OF assms(2)] by blast
  have "dict_get ht' k = (if dictCompareHashKeys ht k key then None else dict_get ht k)" for k
  proof (cases "dictCompareHashKeys ht k key")
    case True
    then have "matching ht' k = {#}" using mm [of k] matching_equiv [OF assms(2) True] 2 ek by simp
    then show ?thesis using True dict_get_None [OF d(2) k] by simp
  next
    case False
    then show ?thesis using mm [of k] ek dict_get_eqI [OF assms(1,2) d(2) k, of k] by simp
  qed
  then show ?thesis using d dict_get_Some [OF assms(1,2) 2] by simp
qed

lemma dictCreate_spec:
  assumes "None \<notin> set al"
  obtains ht al' where "dictCreate ty p al = Some (ht, al')" "dict_ok ht" "dt_type ht = ty" "dt_privdata ht = p"
    "dt_used ht = 0" "\<And>k. dict_get ht k = None" "None \<notin> set al'"
proof -
  obtain f al' where "alloc_next al = (Some f, al')" "None \<notin> set al'" using alloc_next_ok [OF assms] .
  then show ?thesis
    using that [of "\<lparr>dt_table = None, dt_type = ty, dt_size = 0, dt_sizemask = 0, dt_used = 0, dt_privdata = p\<rparr>" al']
    by (simp add: dictCreate_def dictInit_def dictReset_def dict_ok_def entries_def matching_def dict_get_def dictFind_def)
qed

section \<open>Releasing the table\<close>

fun free_entries :: "('k, 'v, 'm) dict \<Rightarrow> ('k, 'v) dictEntry list \<Rightarrow> 'm \<Rightarrow> 'm option" where
  \<comment> \<open>the destructors, key then value, over a list of entries\<close>
  "free_entries ht [] m = Some m"
| "free_entries ht (e # es) m = do { m \<leftarrow> dictFreeEntryKey ht e m; m \<leftarrow> dictFreeEntryVal ht e m; free_entries ht es m }"

lemma free_entries_append: "free_entries ht (xs @ ys) m = Option.bind (free_entries ht xs m) (free_entries ht ys)"
  by (induction xs arbitrary: m) (auto split: bind_splits)

lemma free_entries_same: "same_but_table ht ht' \<Longrightarrow> free_entries ht' es m = free_entries ht es m"
  by (induction es arbitrary: m) (simp_all add: same_free cong: Option.bind_cong)

lemma clear_chain_spec:
  "length c \<le> dt_used ht \<Longrightarrow> dt_used ht < 2 ^ 64 \<Longrightarrow>
   clear_chain c ht m = map_option (\<lambda>m'. (ht\<lparr>dt_used := dt_used ht - length c\<rparr>, m')) (free_entries ht c m)"
proof (induction c arbitrary: ht m)
  case (Cons e c)
  have u: "sz_sub (dt_used ht) (Suc 0) = dt_used ht - Suc 0" using Cons.prems by (intro sz_sub_eq) auto
  have s: "same_but_table ht (ht\<lparr>dt_used := dt_used ht - Suc 0\<rparr>)" by simp
  have le: "length c \<le> dt_used ht - Suc 0" "dt_used ht - Suc 0 < 2 ^ 64" using Cons.prems by auto
  have "clear_chain c (ht\<lparr>dt_used := dt_used ht - Suc 0\<rparr>) m = map_option (\<lambda>m'. (ht\<lparr>dt_used := dt_used ht - Suc (length c)\<rparr>, m'))
      (free_entries ht c m)" for m
    using Cons.IH [of "ht\<lparr>dt_used := dt_used ht - Suc 0\<rparr>" m] le free_entries_same [OF s] by simp
  then show ?case by (auto simp: u split: bind_splits)
qed simp

lemma clear_table_spec:
  assumes "dt_table ht = Some t" "i \<le> length t" "dt_used ht = length (concat (drop i t))" "dt_used ht < 2 ^ 64"
  shows "\<exists>ht'. clear_table i (length t) ht m = map_option (\<lambda>m'. (ht', m')) (free_entries ht (concat (drop i t)) m)"
  using assms
proof (induction "length t - i" arbitrary: i ht m)
  case 0
  then show ?case by (subst clear_table.simps) simp
next
  case (Suc k)
  show ?case
  proof (cases "dt_used ht > 0")
    case True
    have i: "i < length t" using Suc.hyps(2) by simp
    have d: "drop i t = t ! i # drop (Suc i) t" using i by (simp add: Cons_nth_drop_Suc)
    define ht1 where "ht1 = ht\<lparr>dt_used := dt_used ht - length (t ! i)\<rparr>"
    have g: "get_chain ht i = Some (t ! i)" using Suc.prems(1) i by (simp add: get_chain_def)
    have c: "clear_chain (t ! i) ht m = map_option (\<lambda>m'. (ht1, m')) (free_entries ht (t ! i) m)"
      using clear_chain_spec [of "t ! i" ht m] Suc.prems(3,4) d by (simp add: ht1_def)
    have h1: "dt_table ht1 = Some t" "dt_used ht1 = length (concat (drop (Suc i) t))" "dt_used ht1 < 2 ^ 64"
      using Suc.prems(1,3,4) d by (auto simp: ht1_def)
    have f: "free_entries ht1 es m = free_entries ht es m" for es m
      by (rule free_entries_same) (simp add: ht1_def)
    show ?thesis
    proof (cases "free_entries ht (t ! i) m")
      case None
      then show ?thesis using True i g c d by (subst clear_table.simps) (simp add: free_entries_append)
    next
      case (Some m1)
      then show ?thesis using Suc.hyps(1) [of "Suc i" ht1 m1] Suc.hyps(2) True i g c d h1 f
        by (subst clear_table.simps) (simp add: free_entries_append)
    qed
  next
    case False
    then have "concat (drop i t) = []" using Suc.prems(3) by simp
    then show ?thesis using False by (subst clear_table.simps) (auto simp del: concat_eq_Nil_conv)
  qed
qed

definition chains :: "('k, 'v, 'm) dict \<Rightarrow> ('k, 'v) dictEntry list" where
  \<comment> \<open>the entries in the order of the table\<close>
  "chains ht = (case dt_table ht of None \<Rightarrow> [] | Some t \<Rightarrow> concat t)"

lemma mset_chains: "mset (chains ht) = entries ht"
  by (simp add: chains_def entries_def split: option.split)

lemma used_chains: "dict_ok ht \<Longrightarrow> dt_used ht = length (chains ht) \<and> dt_used ht \<le> 2 ^ 30"
  using size_bounds [of ht] mset_chains [of ht] by (metis dict_ok_def le_trans size_mset zero_le)

lemma dictRelease_spec:
  assumes "dict_ok ht"
  shows "dictRelease ht m = free_entries ht (chains ht) m"
proof (cases "dt_table ht")
  case None
  then have "dt_size ht = 0" using assms by (auto simp: dict_ok_def homed_def)
  then show ?thesis using None by (simp add: dictRelease_def dictClear_def clear_table.simps chains_def)
next
  case (Some t)
  then have "dt_size ht = length t" using assms by (auto simp: dict_ok_def homed_def)
  moreover have "dt_used ht = length (concat t)" "dt_used ht < 2 ^ 64"
    using used_chains [OF assms] Some by (auto simp: chains_def)
  ultimately obtain ht' where "clear_table 0 (dt_size ht) ht m = map_option (\<lambda>m'. (ht', m')) (free_entries ht (concat t) m)"
    using clear_table_spec [OF Some, of 0 m] by auto
  then show ?thesis using Some
    by (cases "free_entries ht (concat t) m") (simp_all add: dictRelease_def dictClear_def chains_def)
qed

section \<open>The iterator\<close>

definition rest_from :: "('k, 'v, 'm) dict \<Rightarrow> nat \<Rightarrow> ('k, 'v) dictEntry list" where
  "rest_from ht i = concat (map (\<lambda>j. the (get_chain ht j)) [i..<dt_size ht])"

definition ahead :: "('k, 'v, 'm) dict \<Rightarrow> ('k, 'v) dictIterator \<Rightarrow> ('k, 'v) dictEntry list" where
  \<comment> \<open>the entries still to be returned\<close>
  "ahead ht it = (if it_entry it = [] then [] else it_nextEntry it) @ rest_from ht (nat (it_index it + 1))"

lemma rest_from_Cons:
  "i < dt_size ht \<Longrightarrow> get_chain ht i = Some c \<Longrightarrow> rest_from ht i = c @ rest_from ht (Suc i)"
  by (simp add: rest_from_def upt_conv_Cons)

lemma rest_from_end: "dt_size ht \<le> i \<Longrightarrow> rest_from ht i = []"
  by (simp add: rest_from_def)

lemma rest_from_0: "homed ht \<Longrightarrow> rest_from ht 0 = chains ht"
proof -
  assume "homed ht"
  then obtain t where t: "dt_table ht = Some t" "length t = dt_size ht" by (auto simp: homed_def)
  then have "map (\<lambda>j. the (get_chain ht j)) [0..<dt_size ht] = map ((!) t) [0..<length t]"
    by (intro map_cong) (auto simp: get_chain_def)
  then show "rest_from ht 0 = chains ht" unfolding rest_from_def chains_def t(1) by (simp only: map_nth option.case)
qed

lemma get_chain_Some: "homed ht \<Longrightarrow> i < dt_size ht \<Longrightarrow> \<exists>c. get_chain ht i = Some c"
  by (auto simp: homed_def get_chain_def)

definition at_entry :: "('k, 'v, 'm) dict \<Rightarrow> ('k, 'v) dictIterator \<Rightarrow> ('k, 'v) chain \<Rightarrow> bool" where
  \<comment> \<open>the iterator is in a chain of the table whose last part is \<open>c\<close>\<close>
  "at_entry ht it c \<longleftrightarrow> it_entry it \<noteq> [] \<and> 0 \<le> it_index it \<and> it_index it < int (dt_size ht)
     \<and> (\<exists>xs. get_chain ht (nat (it_index it)) = Some (xs @ c))"

definition it_ok :: "('k, 'v, 'm) dict \<Rightarrow> ('k, 'v) dictIterator \<Rightarrow> bool" where
  "it_ok ht it \<longleftrightarrow> it_entry it = [] \<and> -1 \<le> it_index it \<and> it_index it < int (dt_size ht) \<or> at_entry ht it (it_nextEntry it)"

definition next_is :: "('k, 'v, 'm) dict \<Rightarrow> ('k, 'v) dictIterator \<Rightarrow> ('k, 'v) dictEntry list \<Rightarrow> bool" where
  "next_is ht it es \<longleftrightarrow>
     (case es of
        [] \<Rightarrow> \<exists>it'. dictNext ht it = Some (None, it')
      | e # es \<Rightarrow> \<exists>it'. dictNext ht it = Some (Some e, it') \<and> ahead ht it' = es \<and> at_entry ht it' (e # it_nextEntry it'))"

lemma next_is_cong: "dictNext ht it = dictNext ht it1 \<Longrightarrow> next_is ht it es = next_is ht it1 es"
  by (simp add: next_is_def split: list.split)

lemma scan_next:
  assumes "homed ht" "it_entry it = []" "-1 \<le> it_index it" "it_index it < int (dt_size ht)"
  shows "next_is ht it (ahead ht it)"
  using assms
proof (induction "nat (int (dt_size ht) - it_index it)" arbitrary: it rule: less_induct)
  case less
  have b: "s32 (int (dt_size ht)) = int (dt_size ht)" using size_bounds [OF less.prems(1)] by (intro s32_of_nat) simp
  define i where "i = nat (it_index it + 1)"
  have i: "it_index it + 1 = int i" using less.prems(3) by (simp add: i_def)
  show ?case
  proof (cases "i < dt_size ht")
    case True
    then obtain c where c: "get_chain ht i = Some c" using get_chain_Some [OF less.prems(1)] by blast
    have a: "ahead ht it = c @ rest_from ht (Suc i)"
      using less.prems(2) rest_from_Cons [OF True c] by (simp add: ahead_def i)
    show ?thesis
    proof (cases c)
      case Nil
      define it1 where "it1 = it\<lparr>it_index := int i, it_entry := []\<rparr>"
      have n: "dictNext ht it = dictNext ht it1"
        using less.prems(2) i b True c Nil by (subst dictNext.simps) (simp add: it1_def)
      have "ahead ht it1 = ahead ht it" using a Nil by (simp add: ahead_def it1_def nat_add_distrib)
      moreover have "next_is ht it1 (ahead ht it1)"
        by (rule less.hyps) (use True i less.prems(1,4) in \<open>simp_all add: it1_def\<close>)
      ultimately show ?thesis using next_is_cong [OF n] by simp
    next
      case (Cons e nx)
      then show ?thesis using a less.prems(2) i b True c
        by (subst next_is_def, subst dictNext.simps) (simp add: ahead_def at_entry_def nat_add_distrib)
    qed
  next
    case False
    then have "ahead ht it = []" using less.prems(2) i by (simp add: ahead_def rest_from_end)
    then show ?thesis using False less.prems(2) i b by (subst next_is_def, subst dictNext.simps) simp
  qed
qed

text \<open>The next entry returned is the next one of those ahead.\<close>

lemma dictNext_spec:
  assumes "homed ht" "it_ok ht it"
  shows "next_is ht it (ahead ht it)"
proof (cases "it_entry it = []")
  case True
  then show ?thesis using scan_next [OF assms(1)] assms(2) by (simp add: it_ok_def at_entry_def)
next
  case entry: False
  then have a: "at_entry ht it (it_nextEntry it)" using assms(2) by (simp add: it_ok_def)
  show ?thesis
  proof (cases "it_nextEntry it")
    case Nil
    define it1 where "it1 = it\<lparr>it_entry := []\<rparr>"
    have n: "dictNext ht it = dictNext ht it1"
      using entry Nil by (subst dictNext.simps) (simp add: it1_def)
    have "ahead ht it1 = ahead ht it" using entry Nil by (simp add: ahead_def it1_def)
    moreover have "next_is ht it1 (ahead ht it1)"
      by (rule scan_next [OF assms(1)]) (use a in \<open>simp_all add: it1_def at_entry_def\<close>)
    ultimately show ?thesis using next_is_cong [OF n] by simp
  next
    case (Cons e nx)
    define it' where "it' = it\<lparr>it_entry := e # nx, it_nextEntry := nx\<rparr>"
    have "dictNext ht it = Some (Some e, it')"
      using entry Cons by (subst dictNext.simps) (simp add: it'_def)
    moreover have "ahead ht it = e # ahead ht it'" using entry Cons by (simp add: ahead_def it'_def)
    moreover have "at_entry ht it' (e # it_nextEntry it')" using a Cons by (simp add: at_entry_def it'_def)
    ultimately show ?thesis by (simp add: next_is_def)
  qed
qed

section \<open>Visiting the table\<close>

partial_function (option) visit ::
  "(('k, 'v) dictEntry \<Rightarrow> bool) \<Rightarrow> ('k, 'v, 'm) dict \<Rightarrow> ('k, 'v) dictIterator \<Rightarrow> 'm
     \<Rightarrow> (('k, 'v) dictEntry list \<times> ('k, 'v, 'm) dict \<times> 'm) option" where
  \<comment> \<open>a loop over an iterator whose user deletes the entries that \<open>gone\<close> selects as they are returned\<close>
  "visit gone ht it m =
     (case dictNext ht it of
        None \<Rightarrow> None
      | Some (None, it) \<Rightarrow> Some ([], ht, m)
      | Some (Some e, it) \<Rightarrow>
          (if gone e then
             (case dictDelete ht (de_key e) m of
                None \<Rightarrow> None
              | Some (st, ht, m) \<Rightarrow> Option.bind (visit gone ht it m) (\<lambda>(es, r). Some (e # es, r)))
           else Option.bind (visit gone ht it m) (\<lambda>(es, r). Some (e # es, r))))"

lemma at_entry_deleted:
  assumes "dict_ok ht" "keys_ok ht" "at_entry ht it (e # it_nextEntry it)" "dictFreeEntryKey ht e m = Some m1"
    "dictFreeEntryVal ht e m1 = Some m2"
  obtains ht' where "dictDelete ht (de_key e) m = Some (DICT_OK, ht', m2)" "dict_ok ht'" "same_but_table ht ht'"
    "entries ht = add_mset e (entries ht')" "it_ok ht' it" "ahead ht' it = ahead ht it"
proof -
  define i where "i = nat (it_index it)"
  obtain xs where a: "it_entry it \<noteq> []" "it_index it = int i" "i < dt_size ht" "get_chain ht i = Some (xs @ e # it_nextEntry it)"
    using assms(3) by (auto simp: at_entry_def i_def)
  have H: "homed ht" using assms(1) a(3) by (auto simp: dict_ok_def)
  have h: "home ht (de_key e) = i"
    using get_chain_home [OF H a(3)] a(4) by (metis in_set_conv_decomp option.inject)
  let ?P = "\<lambda>x. dictCompareHashKeys ht (de_key e) (de_key x)"
  have m: "matching ht (de_key e) = mset (filter ?P (xs @ e # it_nextEntry it))"
    using matching_chain [OF H assms(2), of "de_key e"] a(4) h by simp
  have "size (matching ht (de_key e)) \<le> 1" using assms(1) by (simp add: dict_ok_def)
  then have x: "filter ?P xs = []" "matching ht (de_key e) = {#e#}"
    using m keys_refl [OF assms(2), of "de_key e"] by auto
  then have "e \<notin> set xs" using keys_refl [OF assms(2), of "de_key e"] by (auto simp: filter_empty_conv)
  obtain ht' where d: "dictDelete ht (de_key e) m = Some (DICT_OK, ht', m2)" "dict_ok ht'" "same_but_table ht ht'"
    "entries ht = add_mset e (entries ht')" "dt_size ht' = dt_size ht"
    "\<And>j. j \<noteq> i \<Longrightarrow> get_chain ht' j = get_chain ht j" "get_chain ht' i = map_option (remove1 e) (get_chain ht i)"
    by (rule dictDelete_present [OF assms(1,2) x(2) assms(4,5)]) (simp add: h)
  have "get_chain ht' i = Some (xs @ it_nextEntry it)" using d(7) a(4) \<open>e \<notin> set xs\<close> by (simp add: remove1_append)
  then have "it_ok ht' it" using a d(5) by (simp add: it_ok_def at_entry_def)
  moreover have "rest_from ht' (Suc i) = rest_from ht (Suc i)"
    unfolding rest_from_def d(5) by (intro arg_cong [where f = concat] map_cong) (auto simp: d(6))
  then have "ahead ht' it = ahead ht it" using a(1,2) by (simp add: ahead_def nat_add_distrib)
  ultimately show ?thesis using that d by blast
qed

lemma at_entry_it_ok: "at_entry ht it (e # it_nextEntry it) \<Longrightarrow> it_ok ht it"
proof -
  assume a: "at_entry ht it (e # it_nextEntry it)"
  then obtain xs where "get_chain ht (nat (it_index it)) = Some ((xs @ [e]) @ it_nextEntry it)" by (auto simp: at_entry_def)
  then show ?thesis using a unfolding it_ok_def at_entry_def by blast
qed

lemma it_ok_homed: "dict_ok ht \<Longrightarrow> it_ok ht it \<Longrightarrow> homed ht \<or> it_entry it = [] \<and> dt_size ht = 0"
  by (auto simp: it_ok_def at_entry_def dict_ok_def)

text \<open>A fresh iterator has the whole table ahead.\<close>

lemma fresh_iterator:
  assumes "dict_ok ht" "it = \<lparr>it_index = -1, it_entry = [], it_nextEntry = []\<rparr>"
  shows "ahead ht it = chains ht" "it_ok ht it"
proof -
  show "ahead ht it = chains ht"
  proof (cases "homed ht")
    case True
    then show ?thesis by (simp add: ahead_def assms(2) rest_from_0)
  next
    case False
    then show ?thesis using assms(1) by (auto simp: ahead_def assms(2) rest_from_def dict_ok_def chains_def)
  qed
  show "it_ok ht it" by (simp add: it_ok_def assms(2))
qed

lemma visit_spec:
  assumes "dict_ok ht" "keys_ok ht" "it_ok ht it"
    "free_entries ht (filter gone (ahead ht it)) m = Some m'"
  shows "\<exists>ht'. visit gone ht it m = Some (ahead ht it, ht', m') \<and> dict_ok ht' \<and> same_but_table ht ht'
    \<and> entries ht = mset (filter gone (ahead ht it)) + entries ht'"
  using assms
proof (induction "ahead ht it" arbitrary: ht it m)
  case Nil
  have "next_is ht it []"
  proof (cases "homed ht")
    case True
    then show ?thesis using dictNext_spec [OF True Nil.prems(3)] Nil.hyps by simp
  next
    case False
    then have "it_entry it = []" "dt_size ht = 0" using it_ok_homed [OF Nil.prems(1,3)] by auto
    then show ?thesis using Nil.prems(3) unfolding next_is_def
      by (subst dictNext.simps) (auto simp: it_ok_def at_entry_def s32_def)
  qed
  then obtain it' where "dictNext ht it = Some (None, it')" by (auto simp: next_is_def)
  then show ?case using Nil by (subst visit.simps) simp
next
  case (Cons e es)
  have ah: "ahead ht it = e # es" using Cons.hyps(2) by simp
  have H: "homed ht" using it_ok_homed [OF Cons.prems(1,3)] Cons.hyps(2) by (auto simp: ahead_def rest_from_def)
  obtain it' where it': "dictNext ht it = Some (Some e, it')" "ahead ht it' = es" "at_entry ht it' (e # it_nextEntry it')"
    using dictNext_spec [OF H Cons.prems(3)] unfolding ah by (auto simp: next_is_def)
  show ?case
  proof (cases "gone e")
    case True
    obtain m1 m2 where m: "dictFreeEntryKey ht e m = Some m1" "dictFreeEntryVal ht e m1 = Some m2"
      "free_entries ht (filter gone es) m2 = Some m'"
      using Cons.prems(4) True unfolding ah by (auto split: bind_splits)
    obtain h1 where h1: "dictDelete ht (de_key e) m = Some (DICT_OK, h1, m2)" "dict_ok h1" "same_but_table ht h1"
      "entries ht = add_mset e (entries h1)" "it_ok h1 it'" "ahead h1 it' = ahead ht it'"
      using at_entry_deleted [OF Cons.prems(1,2) it'(3) m(1,2)] .
    have "free_entries h1 (filter gone es) m2 = Some m'" using m(3) free_entries_same [OF h1(3)] by simp
    then obtain ht' where "visit gone h1 it' m2 = Some (es, ht', m')" "dict_ok ht'" "same_but_table h1 ht'"
      "entries h1 = mset (filter gone es) + entries ht'"
      using Cons.hyps(1) [of h1 it' m2] h1(2,5,6) it'(2) Cons.prems(2) same_keys_ok [OF h1(3)] by auto
    then show ?thesis using True it'(1) h1(1,4) same_but_table_trans [OF h1(3)]
      unfolding ah by (subst visit.simps) auto
  next
    case False
    obtain ht' where "visit gone ht it' m = Some (es, ht', m')" "dict_ok ht'" "same_but_table ht ht'"
      "entries ht = mset (filter gone es) + entries ht'"
      using Cons.hyps(1) [of ht it' m] it'(2) at_entry_it_ok [OF it'(3)] Cons.prems(1,2,4) False unfolding ah by auto
    then show ?thesis using False it'(1) unfolding ah by (subst visit.simps) auto
  qed
qed

end
