(* ===== verification/Interfaces.thy ===== *)
theory Interfaces
  imports Main
begin

text \<open>
  The interfaces that components rely on, each with the lemmas its clients use: a first-in
  first-out queue (the callback lists), one of bounded size whose readers block (the work queue and
  the connection pool) and a store of values under keys (the tables of subscriptions). Operations
  are partial: \<open>None\<close> is a fault.
\<close>

section \<open>Queues\<close>

datatype 'a fifo_op = Push 'a | Shift

fun fifo_spec :: "'a fifo_op list \<Rightarrow> 'a list \<Rightarrow> 'a option list \<times> 'a list" where
  \<comment> \<open>what a run of operations returns, one result for each \<open>Shift\<close>, and leaves\<close>
  "fifo_spec [] xs = ([], xs)"
| "fifo_spec (Push a # ops) xs = fifo_spec ops (xs @ [a])"
| "fifo_spec (Shift # ops) [] = (let (rs, ys) = fifo_spec ops [] in (None # rs, ys))"
| "fifo_spec (Shift # ops) (x # xs) = (let (rs, ys) = fifo_spec ops xs in (Some x # rs, ys))"

fun pushed :: "'a fifo_op list \<Rightarrow> 'a list" where
  "pushed [] = []"
| "pushed (Push a # ops) = a # pushed ops"
| "pushed (Shift # ops) = pushed ops"

fun results :: "'a option list \<Rightarrow> 'a list" where
  "results [] = []"
| "results (None # rs) = results rs"
| "results (Some x # rs) = x # results rs"

text \<open>Nothing is lost, duplicated or overtaken.\<close>

lemma fifo_spec_order: "fifo_spec ops xs = (rs, ys) \<Longrightarrow> results rs @ ys = xs @ pushed ops"
  by (induction ops xs arbitrary: rs rule: fifo_spec.induct) (auto split: prod.splits)

fun fifo_run :: "('a \<Rightarrow> 'q \<Rightarrow> 'q option) \<Rightarrow> ('q \<Rightarrow> ('a option \<times> 'q) option) \<Rightarrow> 'a fifo_op list \<Rightarrow> 'q
    \<Rightarrow> ('a option list \<times> 'q) option" where
  "fifo_run push shift [] q = Some ([], q)"
| "fifo_run push shift (Push a # ops) q = (case push a q of None \<Rightarrow> None | Some q \<Rightarrow> fifo_run push shift ops q)"
| "fifo_run push shift (Shift # ops) q =
     (case shift q of
        None \<Rightarrow> None
      | Some (r, q) \<Rightarrow> map_option (\<lambda>(rs, q). (r # rs, q)) (fifo_run push shift ops q))"

locale fifo =
  fixes rep :: "'q \<Rightarrow> 'a list \<Rightarrow> bool"
    and push :: "'a \<Rightarrow> 'q \<Rightarrow> 'q option"
    and shift :: "'q \<Rightarrow> ('a option \<times> 'q) option"
  assumes push_rep: "rep q xs \<Longrightarrow> \<exists>q'. push a q = Some q' \<and> rep q' (xs @ [a])"
    and shift_empty: "rep q [] \<Longrightarrow> \<exists>q'. shift q = Some (None, q') \<and> rep q' []"
    and shift_first: "rep q (x # xs) \<Longrightarrow> \<exists>q'. shift q = Some (Some x, q') \<and> rep q' xs"
begin

lemma run_refines:
  "rep q xs \<Longrightarrow> \<exists>q'. fifo_run push shift ops q = Some (fst (fifo_spec ops xs), q') \<and> rep q' (snd (fifo_spec ops xs))"
proof (induction ops xs arbitrary: q rule: fifo_spec.induct)
  case (2 a ops xs)
  then obtain q1 where "push a q = Some q1" "rep q1 (xs @ [a])" using push_rep by blast
  then show ?case using "2.IH" by simp
next
  case (3 ops)
  then obtain q1 where q1: "shift q = Some (None, q1)" "rep q1 []" using shift_empty by blast
  then show ?case using "3.IH" [OF q1(2)] by (auto split: prod.split)
next
  case (4 ops x xs)
  then obtain q1 where q1: "shift q = Some (Some x, q1)" "rep q1 xs" using shift_first by blast
  then show ?case using "4.IH" [OF q1(2)] by (auto split: prod.split)
qed simp

lemma run_order:
  assumes "rep q xs"
  shows "\<exists>rs q' ys. fifo_run push shift ops q = Some (rs, q') \<and> rep q' ys \<and> results rs @ ys = xs @ pushed ops"
  using run_refines [OF assms, of ops] fifo_spec_order [of ops xs] by (metis prod.collapse)

end

section \<open>Queues that block\<close>

locale blocking_queue =
  fixes rep :: "'q \<Rightarrow> 'a list \<Rightarrow> bool"
    and add :: "'a \<Rightarrow> 'q \<Rightarrow> 'q option"
    and wait :: "'q \<Rightarrow> ('a option \<times> 'q) option"   \<comment> \<open>no item: the caller blocks\<close>
    and cap :: nat
  assumes add_rep: "rep q xs \<Longrightarrow> length xs < cap \<Longrightarrow> \<exists>q'. add a q = Some q' \<and> rep q' (xs @ [a])"
    and wait_empty: "rep q [] \<Longrightarrow> wait q = Some (None, q)"
    and wait_first: "rep q (x # xs) \<Longrightarrow> \<exists>q'. wait q = Some (Some x, q') \<and> rep q' xs"
begin

fun add_all :: "'a list \<Rightarrow> 'q \<Rightarrow> 'q option" where
  "add_all [] q = Some q"
| "add_all (v # vs) q = (case add v q of None \<Rightarrow> None | Some q \<Rightarrow> add_all vs q)"

fun take_all :: "nat \<Rightarrow> 'q \<Rightarrow> ('a option list \<times> 'q) option" where
  "take_all 0 q = Some ([], q)"
| "take_all (Suc n) q = (case wait q of None \<Rightarrow> None
     | Some (r, q) \<Rightarrow> map_option (\<lambda>(rs, q). (r # rs, q)) (take_all n q))"

lemma add_all_rep: "rep q xs \<Longrightarrow> length xs + length vs \<le> cap \<Longrightarrow> \<exists>q'. add_all vs q = Some q' \<and> rep q' (xs @ vs)"
proof (induction vs arbitrary: q xs)
  case (Cons v vs)
  then obtain q1 where q1: "add v q = Some q1" "rep q1 (xs @ [v])" using add_rep [of q xs v] by auto
  then show ?case using Cons.IH [OF q1(2)] Cons.prems by simp
qed simp

lemma take_all_rep:
  "rep q xs \<Longrightarrow> n \<le> length xs \<Longrightarrow> \<exists>q'. take_all n q = Some (map Some (take n xs), q') \<and> rep q' (drop n xs)"
proof (induction n arbitrary: q xs)
  case (Suc n)
  then obtain x ys where xs: "xs = x # ys" by (cases xs) auto
  obtain q1 where q1: "wait q = Some (Some x, q1)" "rep q1 ys" using wait_first Suc.prems xs by blast
  then show ?case using Suc.IH [OF q1(2)] Suc.prems xs by auto
qed simp

lemma add_then_take:
  assumes "rep q []" "length vs \<le> cap"
  shows "\<exists>q1 q2. add_all vs q = Some q1 \<and> take_all (length vs) q1 = Some (map Some vs, q2) \<and> rep q2 []"
proof -
  obtain q1 where 1: "add_all vs q = Some q1" "rep q1 vs" using add_all_rep [of q "[]" vs] assms by auto
  obtain q2 where "take_all (length vs) q1 = Some (map Some (take (length vs) vs), q2)" "rep q2 (drop (length vs) vs)"
    using take_all_rep [OF 1(2) order_refl] by blast
  then show ?thesis using 1(1) by simp
qed

end

section \<open>Stores of values under keys\<close>

locale keyed_store =
  fixes ok :: "nat \<Rightarrow> 's \<Rightarrow> bool"   \<comment> \<open>a good state with room for that many more keys\<close>
    and look :: "'s \<Rightarrow> 'k \<Rightarrow> 'v option"
    and put :: "'k \<Rightarrow> 'v \<Rightarrow> 's \<Rightarrow> 's option"
    and del :: "'k \<Rightarrow> 's \<Rightarrow> 's option"
  assumes put_ok: "ok (Suc n) s \<Longrightarrow> \<exists>s'. put k v s = Some s' \<and> ok n s' \<and> look s' = (look s)(k \<mapsto> v)"
    and del_ok: "ok n s \<Longrightarrow> \<exists>s'. del k s = Some s' \<and> ok n s' \<and> look s' = (look s)(k := None)"
begin

fun put_all :: "'k list \<Rightarrow> 'v \<Rightarrow> 's \<Rightarrow> 's option" where
  "put_all [] v s = Some s"
| "put_all (k # ks) v s = (case put k v s of None \<Rightarrow> None | Some s \<Rightarrow> put_all ks v s)"

fun del_all :: "'k list \<Rightarrow> 's \<Rightarrow> 's option" where
  "del_all [] s = Some s"
| "del_all (k # ks) s = (case del k s of None \<Rightarrow> None | Some s \<Rightarrow> del_all ks s)"

lemma put_all_ok:
  "ok (length ks) s \<Longrightarrow> \<exists>s'. put_all ks v s = Some s' \<and> ok 0 s'
     \<and> look s' = (\<lambda>k. if k \<in> set ks then Some v else look s k)"
proof (induction ks arbitrary: s)
  case (Cons k ks)
  then obtain s1 where s1: "put k v s = Some s1" "ok (length ks) s1" "look s1 = (look s)(k \<mapsto> v)"
    using put_ok [of "length ks" s k v] by auto
  then show ?case using Cons.IH [OF s1(2)] by (auto simp: fun_eq_iff)
qed auto

lemma del_all_ok:
  "ok n s \<Longrightarrow> \<exists>s'. del_all ks s = Some s' \<and> ok n s' \<and> look s' = (\<lambda>k. if k \<in> set ks then None else look s k)"
proof (induction ks arbitrary: s)
  case (Cons k ks)
  then obtain s1 where s1: "del k s = Some s1" "ok n s1" "look s1 = (look s)(k := None)"
    using del_ok [of n s k] by auto
  then show ?case using Cons.IH [OF s1(2)] by (auto simp: fun_eq_iff)
qed auto

end

end
