(* ===== verification/Callbacks.thy ===== *)
theory Callbacks
  imports DictProof Interfaces
begin

text \<open>
  The callbacks of the asynchronous client: the singly linked lists of \<open>async.c\<close> over a store of
  list nodes, and the dictionary type \<open>callbackDict\<close> of the tables of subscriptions. The lists are
  queues and the tables are stores of values under keys in the sense of the interfaces.
\<close>

section \<open>Callback lists\<close>

record redisCallback =
  cb_next :: "nat option"
  cb_fn :: "nat option"   \<comment> \<open>the function, by its address\<close>
  cb_privdata :: nat

record redisCallbackList =
  cl_cells :: "nat \<Rightarrow> redisCallback option"   \<comment> \<open>the allocated nodes of the list\<close>
  cl_fresh :: nat
  cl_head :: "nat option"
  cl_tail :: "nat option"

definition empty_list :: redisCallbackList where
  "empty_list = \<lparr>cl_cells = Map.empty, cl_fresh = 0, cl_head = None, cl_tail = None\<rparr>"

definition redisPushCallback ::
  "redisCallbackList \<Rightarrow> redisCallback \<Rightarrow> allocs \<Rightarrow> (int \<times> redisCallbackList \<times> allocs) option" where
  \<comment> \<open>\<open>source\<close> is never NULL in the code; the error is \<open>REDIS_ERR_OOM\<close>\<close>
  "redisPushCallback q source al =
     (case alloc_next al of
        (None, al) \<Rightarrow> Some (5, q, al)
      | (Some _, al) \<Rightarrow> do {
          let p = cl_fresh q;
          let q = q\<lparr>cl_fresh := p + 1, cl_cells := (cl_cells q)(p \<mapsto> source\<lparr>cb_next := None\<rparr>)\<rparr>;
          let q = (if cl_head q = None then q\<lparr>cl_head := Some p\<rparr> else q);
          q \<leftarrow> (case cl_tail q of
                 None \<Rightarrow> Some q
               | Some t \<Rightarrow> do {
                   c \<leftarrow> cl_cells q t;
                   Some (q\<lparr>cl_cells := (cl_cells q)(t \<mapsto> c\<lparr>cb_next := Some p\<rparr>)\<rparr>)
                 });
          Some (0, q\<lparr>cl_tail := Some p\<rparr>, al)
        })"

definition redisShiftCallback ::
  "redisCallbackList \<Rightarrow> (int \<times> redisCallback option \<times> redisCallbackList) option" where
  \<comment> \<open>the status, what is copied to \<open>target\<close> and the list\<close>
  "redisShiftCallback q =
     (case cl_head q of
        None \<Rightarrow> Some (-1, None, q)
      | Some p \<Rightarrow> do {
          cb \<leftarrow> cl_cells q p;
          let q = q\<lparr>cl_head := cb_next cb\<rparr>;
          let q = (if cl_tail q = Some p then q\<lparr>cl_tail := None\<rparr> else q);
          Some (0, Some cb, q\<lparr>cl_cells := (cl_cells q)(p := None)\<rparr>)
        })"

section \<open>The dictionary type of subscriptions\<close>

text \<open>
  A key is the byte string that an \<open>sds\<close> name holds, a value the structure a pointer to a callback
  leads to. The memory knows which names and which copies of callbacks are allocated: a name or a
  copy that is freed has to be one of them, and is none of them afterwards.
\<close>

record cbmem =
  cm_al :: allocs
  cm_keys :: "string multiset"          \<comment> \<open>the names that are allocated\<close>
  cm_vals :: "redisCallback multiset"   \<comment> \<open>the copies of callbacks that are allocated\<close>

definition callbackHash :: "string \<Rightarrow> 32 word" where
  "callbackHash key = the (dictGenHashFunction key (s32 (int (length key))))"

definition callbackValDup :: "nat \<Rightarrow> redisCallback \<Rightarrow> cbmem \<Rightarrow> (redisCallback \<times> cbmem) option" where
  "callbackValDup privdata src m =
     (case alloc_next (cm_al m) of
        (None, al) \<Rightarrow> None
      | (Some _, al) \<Rightarrow> Some (src, m\<lparr>cm_al := al, cm_vals := add_mset src (cm_vals m)\<rparr>))"

definition callbackKeyCompare :: "nat \<Rightarrow> string \<Rightarrow> string \<Rightarrow> int" where
  "callbackKeyCompare privdata key1 key2 =
     (if length key1 \<noteq> length key2 then 0 else if key1 = key2 then 1 else 0)"

definition callbackKeyDestructor :: "nat \<Rightarrow> string \<Rightarrow> cbmem \<Rightarrow> cbmem option" where
  \<comment> \<open>\<open>sdsfree(key)\<close>: a fault for a name that is not allocated\<close>
  "callbackKeyDestructor privdata key m =
     (if key \<in># cm_keys m then Some (m\<lparr>cm_keys := cm_keys m - {#key#}\<rparr>) else None)"

definition callbackValDestructor :: "nat \<Rightarrow> redisCallback \<Rightarrow> cbmem \<Rightarrow> cbmem option" where
  \<comment> \<open>\<open>free(val)\<close>: a fault for a copy that is not allocated\<close>
  "callbackValDestructor privdata val m =
     (if val \<in># cm_vals m then Some (m\<lparr>cm_vals := cm_vals m - {#val#}\<rparr>) else None)"

definition callbackDict :: "(string, redisCallback, cbmem) dictType" where
  "callbackDict = \<lparr>hashFunction = callbackHash, keyDup = None, valDup = Some callbackValDup,
     keyCompare = Some callbackKeyCompare, keyDestructor = Some callbackKeyDestructor,
     valDestructor = Some callbackValDestructor\<rparr>"

section \<open>The lists are queues\<close>

definition cb_key :: "redisCallback \<Rightarrow> nat option \<times> nat" where
  "cb_key cb = (cb_fn cb, cb_privdata cb)"

fun linked :: "(nat \<Rightarrow> redisCallback option) \<Rightarrow> nat option \<Rightarrow> nat list \<Rightarrow> (nat option \<times> nat) list \<Rightarrow> bool" where
  \<comment> \<open>the \<open>next\<close> pointers from \<open>p\<close> go through the addresses, whose nodes hold these callbacks\<close>
  "linked c p [] [] = (p = None)"
| "linked c p (a # as) (x # xs) = (p = Some a \<and> (\<exists>cb. c a = Some cb \<and> cb_key cb = x \<and> linked c (cb_next cb) as xs))"
| "linked c p _ _ = False"

definition queue_is :: "redisCallbackList \<Rightarrow> (nat option \<times> nat) list \<Rightarrow> bool" where
  "queue_is q xs \<longleftrightarrow> (\<exists>as. linked (cl_cells q) (cl_head q) as xs \<and> distinct as \<and> (\<forall>a \<in> set as. a < cl_fresh q)
     \<and> cl_tail q = (if as = [] then None else Some (last as)) \<and> dom (cl_cells q) = set as)"

lemma queue_isI:
  assumes "linked (cl_cells q) (cl_head q) as xs" "distinct as" "\<forall>a \<in> set as. a < cl_fresh q"
    "cl_tail q = (if as = [] then None else Some (last as))" "dom (cl_cells q) = set as"
  shows "queue_is q xs"
  unfolding queue_is_def using assms by blast

lemma linked_frame: "linked c p as xs \<Longrightarrow> (\<And>a. a \<in> set as \<Longrightarrow> c' a = c a) \<Longrightarrow> linked c' p as xs"
  by (induction c p as xs rule: linked.induct) fastforce+

lemma linked_snoc:
  assumes "linked c p as xs" "as \<noteq> []" "distinct as" "b \<notin> set as" "c (last as) = Some cb" "cb_key n = x" "cb_next n = None"
  shows "linked (c(b \<mapsto> n, last as \<mapsto> cb\<lparr>cb_next := Some b\<rparr>)) p (as @ [b]) (xs @ [x])"
  using assms
proof (induction c p as xs rule: linked.induct)
  case (2 c p a as x' xs)
  show ?case
  proof (cases "as = []")
    case True
    then show ?thesis using 2 by (cases xs) (auto simp: cb_key_def)
  next
    case False
    then obtain cb' where c: "c a = Some cb'" "cb_key cb' = x'" "linked c (cb_next cb') as xs" using 2(2) by auto
    have "a \<noteq> last as" "a \<noteq> b" using 2 False by auto
    then show ?thesis using "2.IH" [of cb'] 2 c False by auto
  qed
qed auto

lemma queue_is_empty: "queue_is empty_list []"
  by (auto simp: queue_is_def empty_list_def intro: exI [where x = "[]"])

lemma redisPushCallback_ok:
  assumes "queue_is q xs" "alloc_next al = (Some f, al')"
  shows "\<exists>q'. redisPushCallback q source al = Some (0, q', al') \<and> queue_is q' (xs @ [cb_key source])"
proof -
  obtain as where a: "linked (cl_cells q) (cl_head q) as xs" "distinct as" "\<forall>a \<in> set as. a < cl_fresh q"
    "cl_tail q = (if as = [] then None else Some (last as))" "dom (cl_cells q) = set as"
    using assms(1) by (auto simp: queue_is_def)
  let ?p = "cl_fresh q" and ?n = "source\<lparr>cb_next := None\<rparr>"
  have p: "?p \<notin> set as" using a(3) by auto
  show ?thesis
  proof (cases "as = []")
    case True
    then have "xs = []" "cl_head q = None" using a(1) by (cases xs; simp)+
    define q' where "q' = q\<lparr>cl_fresh := ?p + 1, cl_cells := (cl_cells q)(?p \<mapsto> ?n), cl_head := Some ?p, cl_tail := Some ?p\<rparr>"
    have "redisPushCallback q source al = Some (0, q', al')"
      using True a(4) \<open>cl_head q = None\<close> assms(2) by (simp add: redisPushCallback_def Let_def q'_def)
    moreover have "queue_is q' (xs @ [cb_key source])"
      by (rule queue_isI [where as = "[?p]"]) (use True a(5) \<open>xs = []\<close> in \<open>auto simp: q'_def cb_key_def\<close>)
    ultimately show ?thesis by blast
  next
    case False
    then obtain cb where cb: "cl_cells q (last as) = Some cb" using a(5) by (metis domD last_in_set)
    obtain hd where h: "cl_head q = Some hd" using a(1) False by (cases as; cases xs) auto
    have "linked ((cl_cells q)(?p \<mapsto> ?n, last as \<mapsto> cb\<lparr>cb_next := Some ?p\<rparr>)) (cl_head q) (as @ [?p]) (xs @ [cb_key source])"
      by (rule linked_snoc [OF a(1) False a(2) p cb]) (simp_all add: cb_key_def)
    moreover have l: "last as \<noteq> ?p" using p False last_in_set by metis
    define q' where "q' = q\<lparr>cl_fresh := ?p + 1, cl_cells := (cl_cells q)(?p \<mapsto> ?n, last as \<mapsto> cb\<lparr>cb_next := Some ?p\<rparr>),
      cl_tail := Some ?p\<rparr>"
    have "redisPushCallback q source al = Some (0, q', al')"
      using False a(4) h cb l assms(2) by (simp add: redisPushCallback_def Let_def q'_def)
    moreover have "linked (cl_cells q') (cl_head q') (as @ [?p]) (xs @ [cb_key source])"
      using calculation(1) by (simp add: q'_def)
    then have "queue_is q' (xs @ [cb_key source])"
      by (rule queue_isI) (use a(2,3,5) p False last_in_set [OF False] in \<open>auto simp: q'_def\<close>)
    ultimately show ?thesis by blast
  qed
qed

lemma redisPushCallback_oom:
  "alloc_next al = (None, al') \<Longrightarrow> redisPushCallback q source al = Some (5, q, al')"
  by (simp add: redisPushCallback_def)

lemma redisShiftCallback_empty: "queue_is q [] \<Longrightarrow> redisShiftCallback q = Some (-1, None, q)"
proof -
  assume "queue_is q []"
  then obtain as where "linked (cl_cells q) (cl_head q) as []" by (auto simp: queue_is_def)
  then show ?thesis by (cases as) (auto simp: redisShiftCallback_def)
qed

lemma redisShiftCallback_first:
  assumes "queue_is q (x # xs)"
  shows "\<exists>cb q'. redisShiftCallback q = Some (0, Some cb, q') \<and> cb_key cb = x \<and> queue_is q' xs"
proof -
  obtain as0 where o: "linked (cl_cells q) (cl_head q) as0 (x # xs)" "distinct as0" "\<forall>a \<in> set as0. a < cl_fresh q"
    "cl_tail q = (if as0 = [] then None else Some (last as0))" "dom (cl_cells q) = set as0"
    using assms by (auto simp: queue_is_def)
  then obtain a as where as0: "as0 = a # as" by (cases as0) auto
  then obtain cb where a: "linked (cl_cells q) (cb_next cb) as xs" "cl_head q = Some a" "cl_cells q a = Some cb" "cb_key cb = x"
    using o(1) by auto
  define q' where "q' = q\<lparr>cl_head := cb_next cb, cl_tail := (if cl_tail q = Some a then None else cl_tail q),
    cl_cells := (cl_cells q)(a := None)\<rparr>"
  have l: "linked ((cl_cells q)(a := None)) (cb_next cb) as xs" by (rule linked_frame [OF a(1)]) (use o(2) as0 in auto)
  have t: "cl_tail q = Some a \<longleftrightarrow> as = []" using o(2,4) as0 last_in_set [of as] by auto
  have "redisShiftCallback q = Some (0, Some cb, q')"
    using a(2,3) by (simp add: redisShiftCallback_def Let_def q'_def)
  moreover have "queue_is q' xs"
    by (rule queue_isI [where as = as]) (use l t o(2-5) as0 in \<open>auto simp: q'_def\<close>)
  ultimately show ?thesis using a(4) by blast
qed

definition push_cb :: "nat option \<times> nat \<Rightarrow> redisCallbackList \<times> allocs \<Rightarrow> (redisCallbackList \<times> allocs) option" where
  "push_cb x s = (case redisPushCallback (fst s) \<lparr>cb_next = None, cb_fn = fst x, cb_privdata = snd x\<rparr> (snd s) of
     Some (st, q, al) \<Rightarrow> if st = 0 then Some (q, al) else None | None \<Rightarrow> None)"

definition shift_cb :: "redisCallbackList \<times> allocs \<Rightarrow> ((nat option \<times> nat) option \<times> redisCallbackList \<times> allocs) option" where
  "shift_cb s = (case redisShiftCallback (fst s) of Some (st, cb, q) \<Rightarrow> Some (map_option cb_key cb, q, snd s) | None \<Rightarrow> None)"

interpretation cbq: fifo "\<lambda>s xs. queue_is (fst s) xs \<and> None \<notin> set (snd s)" push_cb shift_cb
proof unfold_locales
  fix q :: "redisCallbackList \<times> allocs" and xs :: "(nat option \<times> nat) list" and a
  assume "queue_is (fst q) xs \<and> None \<notin> set (snd q)"
  moreover from this obtain f al' where "alloc_next (snd q) = (Some f, al')" "None \<notin> set al'" using alloc_next_ok by metis
  ultimately show "\<exists>q'. push_cb a q = Some q' \<and> queue_is (fst q') (xs @ [a]) \<and> None \<notin> set (snd q')"
    using redisPushCallback_ok [of "fst q" xs "snd q" f al' "\<lparr>cb_next = None, cb_fn = fst a, cb_privdata = snd a\<rparr>"]
    by (auto simp: push_cb_def cb_key_def)
next
  fix q :: "redisCallbackList \<times> allocs"
  assume "queue_is (fst q) [] \<and> None \<notin> set (snd q)"
  then show "\<exists>q'. shift_cb q = Some (None, q') \<and> queue_is (fst q') [] \<and> None \<notin> set (snd q')"
    using redisShiftCallback_empty [of "fst q"] by (auto simp: shift_cb_def)
next
  fix q :: "redisCallbackList \<times> allocs" and x and xs :: "(nat option \<times> nat) list"
  assume "queue_is (fst q) (x # xs) \<and> None \<notin> set (snd q)"
  then show "\<exists>q'. shift_cb q = Some (Some x, q') \<and> queue_is (fst q') xs \<and> None \<notin> set (snd q')"
    using redisShiftCallback_first [of "fst q" x xs] by (auto simp: shift_cb_def)
qed

section \<open>The tables are stores\<close>

definition callback_table :: "(string, redisCallback, cbmem) dict \<Rightarrow> bool" where
  "callback_table ht \<longleftrightarrow> dict_ok ht \<and> dt_type ht = callbackDict"

lemma callbackDict_compare:
  "dt_type ht = callbackDict \<Longrightarrow> dictCompareHashKeys ht a b \<longleftrightarrow> a = b"
  by (auto simp: dictCompareHashKeys_def callbackDict_def callbackKeyCompare_def)

lemma callbackDict_keys_ok: "dt_type ht = callbackDict \<Longrightarrow> keys_ok ht"
proof -
  assume t: "dt_type ht = callbackDict"
  then have "dictCompareHashKeys ht = (=)" by (intro ext) (simp add: callbackDict_compare)
  then show ?thesis using identity_equivp by (simp add: keys_ok_def)
qed

lemma callbackDict_free:
  assumes "dt_type ht = callbackDict"
  shows "dictFreeEntryKey ht e m = (if de_key e \<in># cm_keys m then Some (m\<lparr>cm_keys := cm_keys m - {#de_key e#}\<rparr>) else None)"
    and "dictFreeEntryVal ht e m = (if de_val e \<in># cm_vals m then Some (m\<lparr>cm_vals := cm_vals m - {#de_val e#}\<rparr>) else None)"
  using assms by (simp_all add: dictFreeEntryKey_def dictFreeEntryVal_def callbackDict_def callbackKeyDestructor_def
      callbackValDestructor_def)

lemma callbackDict_dup:
  assumes "dt_type ht = callbackDict" "alloc_next (cm_al m) = (Some f, al')"
  shows "dup_ok ht key v m v (m\<lparr>cm_al := al', cm_vals := add_mset v (cm_vals m)\<rparr>)"
  using assms by (simp add: dup_ok_def callbackDict_def callbackValDup_def)

lemma callbackDict_matching:
  assumes "callback_table ht"
  shows "dict_ok ht" "dt_type ht = callbackDict" "keys_ok ht" "matching ht key = {#e \<in># entries ht. key = de_key e#}"
  using assms callbackDict_keys_ok [of ht] by (auto simp: callback_table_def matching_def callbackDict_compare)

text \<open>The entries of a table, at one key and elsewhere.\<close>

definition elsewhere :: "(string, redisCallback, cbmem) dict \<Rightarrow> string \<Rightarrow> (string, redisCallback) dictEntry multiset" where
  "elsewhere ht key = {#e \<in># entries ht. key \<noteq> de_key e#}"

lemma entries_at:
  assumes "callback_table ht"
  shows "entries ht = (case dict_get ht key of None \<Rightarrow> {#} | Some u \<Rightarrow> {#\<lparr>de_key = key, de_val = u\<rparr>#}) + elsewhere ht key"
proof -
  note t = callbackDict_matching [OF assms]
  have p: "entries ht = matching ht key + elsewhere ht key" unfolding t(4) elsewhere_def by (rule multiset_partition)
  show ?thesis
  proof (cases rule: matching_cases [OF t(1), of key])
    case 1
    then show ?thesis using p dict_get_None [OF t(1,3) 1] by simp
  next
    case (2 e)
    then have "e \<in># matching ht key" by simp
    then have "de_key e = key" by (simp add: t(4))
    then show ?thesis using p 2 dict_get_Some [OF t(1,3) 2] by (cases e) simp
  qed
qed

lemma count_entries:
  assumes "callback_table ht"
  shows "count (entries ht) e = (if dict_get ht (de_key e) = Some (de_val e) then 1 else 0)"
proof -
  have "count (elsewhere ht (de_key e)) e = 0" by (simp add: elsewhere_def)
  then show ?thesis
    by (subst entries_at [OF assms, of "de_key e"]) (cases e; auto split: option.split)
qed

lemma elsewhere_eqI:
  assumes "callback_table ht" "callback_table ht'" "\<And>k. k \<noteq> key \<Longrightarrow> dict_get ht' k = dict_get ht k"
  shows "elsewhere ht' key = elsewhere ht key"
  using assms by (auto simp: elsewhere_def count_entries intro!: multiset_eqI)

text \<open>The names and the copies that the entries of tables hold.\<close>

definition owned :: "(string, redisCallback) dictEntry multiset \<Rightarrow> cbmem \<Rightarrow> bool" where
  \<comment> \<open>each entry has a name and a copy of its own\<close>
  "owned E m \<longleftrightarrow> image_mset de_key E \<subseteq># cm_keys m \<and> image_mset de_val E \<subseteq># cm_vals m"

definition spare :: "(string, redisCallback) dictEntry multiset \<Rightarrow> cbmem \<Rightarrow> cbmem" where
  \<comment> \<open>the memory without the names and the copies of these entries\<close>
  "spare E m = m\<lparr>cm_keys := cm_keys m - image_mset de_key E, cm_vals := cm_vals m - image_mset de_val E\<rparr>"

lemma owned_empty [simp]: "owned {#} m" and spare_empty [simp]: "spare {#} m = m"
  by (simp_all add: owned_def spare_def)

lemma subset_plus_mset: "A + B \<subseteq># C \<longleftrightarrow> A \<subseteq># C \<and> B \<subseteq># C - A"
  unfolding subseteq_mset_def count_union count_diff all_conj_distrib [symmetric] by (rule all_cong1) linarith

lemma owned_plus: "owned (E + F) m \<longleftrightarrow> owned E m \<and> owned F (spare E m)"
  by (auto simp: owned_def spare_def subset_plus_mset)

lemma spare_plus: "spare (E + F) m = spare F (spare E m)"
  by (simp add: spare_def diff_diff_add_mset)

lemma callbackDict_free_entries:
  assumes "dt_type ht = callbackDict" "owned (mset es) m"
  shows "free_entries ht es m = Some (spare (mset es) m)"
  using assms(2)
proof (induction es arbitrary: m)
  case (Cons e es)
  have "owned ({#e#} + mset es) m" using Cons.prems by simp
  then have o: "owned {#e#} m" "owned (mset es) (spare {#e#} m)" unfolding owned_plus by blast+
  have "free_entries ht (e # es) m = free_entries ht es (spare {#e#} m)"
    using o(1) by (simp add: callbackDict_free [OF assms(1)] owned_def spare_def)
  also have "\<dots> = Some (spare (mset es) (spare {#e#} m))" by (rule Cons.IH [OF o(2)])
  also have "spare (mset es) (spare {#e#} m) = spare (mset (e # es)) m"
    using spare_plus [of "{#e#}" "mset es" m] by simp
  finally show ?case .
qed simp

text \<open>Storing a callback: one more copy of it, minus the one it replaces.\<close>

lemma callback_replace:
  assumes "callback_table ht" "dt_used ht < 2 ^ 30" "None \<notin> set al" "None \<notin> set (cm_al m)"
    "image_mset de_val (entries ht) \<subseteq># cm_vals m"
  obtains ht' m' al' where
    "dictReplace ht key v m al = Some (if dict_get ht key = None then 1 else 0, ht', m', al')"
    "callback_table ht'" "None \<notin> set al'" "None \<notin> set (cm_al m')" "dict_get ht' = (dict_get ht)(key \<mapsto> v)"
    "dt_used ht' = (if dict_get ht key = None then dt_used ht + 1 else dt_used ht)"
    "entries ht' = add_mset \<lparr>de_key = key, de_val = v\<rparr> (elsewhere ht key)" "cm_keys m' = cm_keys m"
    "cm_vals m' = add_mset v (cm_vals m) - (case dict_get ht key of None \<Rightarrow> {#} | Some u \<Rightarrow> {#u#})"
proof -
  note t = callbackDict_matching [OF assms(1)]
  obtain f al1 where a: "alloc_next (cm_al m) = (Some f, al1)" "None \<notin> set al1" using alloc_next_ok [OF assms(4)] .
  define m1 where "m1 = m\<lparr>cm_al := al1, cm_vals := add_mset v (cm_vals m)\<rparr>"
  define m2 where "m2 = m1\<lparr>cm_vals := cm_vals m1 - (case dict_get ht key of None \<Rightarrow> {#} | Some u \<Rightarrow> {#u#})\<rparr>"
  have d: "dup_ok ht key v m v m1" using callbackDict_dup [OF t(2) a(1)] by (simp add: m1_def)
  have fr: "dictFreeEntryVal ht e m1 = Some m2" if e: "matching ht key = {#e#}" for e
  proof -
    have "e \<in># matching ht key" using e by simp
    then have "e \<in># entries ht" by (simp add: t(4))
    then have "de_val e \<in># image_mset de_val (entries ht)" by simp
    then have "de_val e \<in># cm_vals m" using assms(5) by (rule mset_subset_eqD [rotated])
    then show ?thesis using dict_get_Some [OF t(1,3) e] by (simp add: callbackDict_free [OF t(2)] m1_def m2_def)
  qed
  have nf: "m2 = m1" if "matching ht key = {#}" using dict_get_None [OF t(1,3) that] by (simp add: m2_def)
  obtain ht' al' where r: "dictReplace ht key v m al = Some (if dict_get ht key = None then 1 else 0, ht', m2, al')"
    "dict_ok ht'" "same_but_table ht ht'" "None \<notin> set al'"
    "\<And>k. dict_get ht' k = (if dictCompareHashKeys ht k key then Some v else dict_get ht k)"
    "dt_used ht' = (if dict_get ht key = None then dt_used ht + 1 else dt_used ht)"
    using dictReplace_map [OF t(1,3) assms(2,3) d fr nf] by blast
  have g: "dict_get ht' = (dict_get ht)(key \<mapsto> v)" using r(5) callbackDict_compare [OF t(2)] by (simp add: fun_eq_iff)
  have c: "callback_table ht'" using r(2,3) t(2) by (simp add: callback_table_def same_but_table_def)
  have "elsewhere ht' key = elsewhere ht key" by (rule elsewhere_eqI [OF assms(1) c]) (simp add: g)
  then have "entries ht' = add_mset \<lparr>de_key = key, de_val = v\<rparr> (elsewhere ht key)" using entries_at [OF c, of key] g by simp
  then show ?thesis using that [OF r(1) c r(4) _ g r(6)] a(2) by (simp add: m2_def m1_def)
qed

lemma owned_replace:
  assumes "callback_table ht" "owned (entries ht) m" "cm_keys m' = add_mset key (cm_keys m)"
    "cm_vals m' = add_mset v (cm_vals m) - (case dict_get ht key of None \<Rightarrow> {#} | Some u \<Rightarrow> {#u#})"
  shows "owned (add_mset \<lparr>de_key = key, de_val = v\<rparr> (elsewhere ht key)) m'"
proof -
  have k: "image_mset de_key (elsewhere ht key) \<subseteq># cm_keys m"
    using assms(2) unfolding owned_def elsewhere_def
    by (meson image_mset_subseteq_mono multiset_filter_subset subset_mset.order_trans)
  have "image_mset de_val (elsewhere ht key) \<subseteq># cm_vals m - (case dict_get ht key of None \<Rightarrow> {#} | Some u \<Rightarrow> {#u#})
      \<and> (case dict_get ht key of None \<Rightarrow> {#} | Some u \<Rightarrow> {#u#}) \<subseteq># cm_vals m"
    using assms(2) entries_at [OF assms(1), of key]
    by (cases "dict_get ht key") (simp_all add: owned_def insert_subset_eq_iff)
  then show ?thesis using k assms(3,4)
    by (cases "dict_get ht key") (auto simp: owned_def)
qed

lemma callback_delete:
  assumes "callback_table ht" "owned (entries ht) m"
  obtains ht' m' where "dictDelete ht key m = Some (if dict_get ht key = None then DICT_ERR else DICT_OK, ht', m')"
    "callback_table ht'" "dict_get ht' = (dict_get ht)(key := None)" "dt_used ht' \<le> dt_used ht"
    "entries ht' = elsewhere ht key"
    "m' = (case dict_get ht key of None \<Rightarrow> m | Some u \<Rightarrow> spare {#\<lparr>de_key = key, de_val = u\<rparr>#} m)"
    "owned (entries ht') m'"
proof -
  note t = callbackDict_matching [OF assms(1)]
  show ?thesis
  proof (cases rule: matching_cases [OF t(1), of key])
    case 1
    have "dict_get ht key = None" by (rule dict_get_None [OF t(1,3) 1])
    then show ?thesis using that [of ht m] dictDelete_absent [OF t(1,3) 1] assms entries_at [OF assms(1), of key]
      by (simp add: fun_upd_idem)
  next
    case (2 e)
    then have "e \<in># matching ht key" by simp
    then have ek: "de_key e = key" by (simp add: t(4))
    have g0: "dict_get ht key = Some (de_val e)" by (rule dict_get_Some [OF t(1,3) 2])
    have en: "entries ht = {#e#} + elsewhere ht key" using entries_at [OF assms(1), of key] g0 ek by (cases e) simp
    have ow: "owned {#e#} m" "owned (elsewhere ht key) (spare {#e#} m)"
      using assms(2) unfolding en owned_plus by blast+
    define m1 where "m1 = m\<lparr>cm_keys := cm_keys m - {#de_key e#}\<rparr>"
    have f: "dictFreeEntryKey ht e m = Some m1" "dictFreeEntryVal ht e m1 = Some (spare {#e#} m)"
      using ow(1) by (simp_all add: callbackDict_free [OF t(2)] m1_def owned_def spare_def)
    obtain ht' where d: "dictDelete ht key m = Some (DICT_OK, ht', spare {#e#} m)" "dict_ok ht'" "same_but_table ht ht'"
      "entries ht = add_mset e (entries ht')" "dt_used ht' = dt_used ht - 1"
      using dictDelete_present [OF t(1,3) 2 f] by metis
    have c: "callback_table ht'" using d(2,3) t(2) by (simp add: callback_table_def same_but_table_def)
    have e': "entries ht' = elsewhere ht key" using d(4) en by simp
    have "dict_get ht' k = ((dict_get ht)(key := None)) k" for k
    proof -
      have "(dict_get ht' k = Some u) = (((dict_get ht)(key := None)) k = Some u)" for u
        using count_entries [OF c, of "\<lparr>de_key = k, de_val = u\<rparr>"] count_entries [OF assms(1), of "\<lparr>de_key = k, de_val = u\<rparr>"]
        unfolding e' by (auto simp: elsewhere_def split: if_splits)
      then show ?thesis by (metis option.exhaust)
    qed
    then have g: "dict_get ht' = (dict_get ht)(key := None)" by (rule ext)
    have "\<lparr>de_key = key, de_val = de_val e\<rparr> = e" using ek by (cases e) simp
    then have sp: "spare {#e#} m = (case dict_get ht key of None \<Rightarrow> m | Some u \<Rightarrow> spare {#\<lparr>de_key = key, de_val = u\<rparr>#} m)"
      unfolding g0 by simp
    have st: "dictDelete ht key m = Some (if dict_get ht key = None then DICT_ERR else DICT_OK, ht', spare {#e#} m)"
      using d(1) unfolding g0 by simp
    have us: "dt_used ht' \<le> dt_used ht" using d(5) by simp
    show ?thesis by (rule that [OF st c g us e' sp]) (use ow(2) e' in simp)
  qed
qed

type_synonym subs = "(string, redisCallback, cbmem) dict \<times> cbmem \<times> allocs"

definition subs_ok :: "nat \<Rightarrow> subs \<Rightarrow> bool" where
  "subs_ok n = (\<lambda>(ht, m, al). callback_table ht \<and> dt_used ht + n \<le> 2 ^ 30 \<and> None \<notin> set al \<and> None \<notin> set (cm_al m)
     \<and> owned (entries ht) m)"

definition subs_put :: "string \<Rightarrow> redisCallback \<Rightarrow> subs \<Rightarrow> subs option" where
  \<comment> \<open>a new name and its entry\<close>
  "subs_put k v = (\<lambda>(ht, m, al).
     map_option (\<lambda>(st, ht, m, al). (ht, m, al)) (dictReplace ht k v (m\<lparr>cm_keys := add_mset k (cm_keys m)\<rparr>) al))"

definition subs_del :: "string \<Rightarrow> subs \<Rightarrow> subs option" where
  "subs_del k = (\<lambda>(ht, m, al). map_option (\<lambda>(st, ht, m). (ht, m, al)) (dictDelete ht k m))"

interpretation sub: keyed_store subs_ok "\<lambda>(ht, m, al). dict_get ht" subs_put subs_del
proof unfold_locales
  fix n and s :: subs and k v
  obtain ht m al where s: "s = (ht, m, al)" by (cases s)
  assume "subs_ok (Suc n) s"
  then have a: "callback_table ht" "dt_used ht < 2 ^ 30" "None \<notin> set al" "None \<notin> set (cm_al m)" "owned (entries ht) m"
    "dt_used ht + Suc n \<le> 2 ^ 30"
    by (auto simp: subs_ok_def s)
  define m1 where "m1 = m\<lparr>cm_keys := add_mset k (cm_keys m)\<rparr>"
  obtain ht' m' al' where r: "dictReplace ht k v m1 al = Some (if dict_get ht k = None then 1 else 0, ht', m', al')"
    "callback_table ht'" "None \<notin> set al'" "None \<notin> set (cm_al m')" "dict_get ht' = (dict_get ht)(k \<mapsto> v)"
    "dt_used ht' = (if dict_get ht k = None then dt_used ht + 1 else dt_used ht)"
    "entries ht' = add_mset \<lparr>de_key = k, de_val = v\<rparr> (elsewhere ht k)" "cm_keys m' = cm_keys m1"
    "cm_vals m' = add_mset v (cm_vals m1) - (case dict_get ht k of None \<Rightarrow> {#} | Some u \<Rightarrow> {#u#})"
    by (rule callback_replace [OF a(1-3), of m1 k v]) (use a(4,5) in \<open>simp_all add: m1_def owned_def\<close>)
  have "owned (entries ht') m'" unfolding r(7) by (rule owned_replace [OF a(1,5)]) (use r(8,9) in \<open>simp_all add: m1_def\<close>)
  then have "subs_ok n (ht', m', al')" using a(6) r(2-4,6) by (simp add: subs_ok_def split: if_splits)
  then show "\<exists>s'. subs_put k v s = Some s' \<and> subs_ok n s' \<and> (case s' of (ht, m, al) \<Rightarrow> dict_get ht) = (case s of (ht, m, al) \<Rightarrow> dict_get ht)(k \<mapsto> v)"
    using r(1,5) by (simp add: s subs_put_def m1_def)
next
  fix n and s :: subs and k
  obtain ht m al where s: "s = (ht, m, al)" by (cases s)
  assume "subs_ok n s"
  then have a: "callback_table ht" "owned (entries ht) m" "dt_used ht + n \<le> 2 ^ 30" "None \<notin> set al" "None \<notin> set (cm_al m)"
    by (auto simp: subs_ok_def s)
  obtain ht' m' where d: "dictDelete ht k m = Some (if dict_get ht k = None then DICT_ERR else DICT_OK, ht', m')"
    "callback_table ht'" "dict_get ht' = (dict_get ht)(k := None)" "dt_used ht' \<le> dt_used ht" "entries ht' = elsewhere ht k"
    "m' = (case dict_get ht k of None \<Rightarrow> m | Some u \<Rightarrow> spare {#\<lparr>de_key = k, de_val = u\<rparr>#} m)" "owned (entries ht') m'"
    by (rule callback_delete [OF a(1,2), of k])
  have "cm_al m' = cm_al m" using d(6) by (simp add: spare_def split: option.splits)
  then have "subs_ok n (ht', m', al)" using a d(2,4,7) by (simp add: subs_ok_def)
  then show "\<exists>s'. subs_del k s = Some s' \<and> subs_ok n s' \<and> (case s' of (ht, m, al) \<Rightarrow> dict_get ht) = (case s of (ht, m, al) \<Rightarrow> dict_get ht)(k := None)"
    using d(1,3) by (simp add: s subs_del_def)
qed

section \<open>Properties\<close>

lemma fresh_table:
  obtains ht where "dictCreate callbackDict 0 [] = Some (ht, [])" "callback_table ht" "dt_used ht = 0" "dict_get ht = Map.empty"
proof -
  have "dictCreate callbackDict 0 [] =
    Some (\<lparr>dt_table = None, dt_type = callbackDict, dt_size = 0, dt_sizemask = 0, dt_used = 0, dt_privdata = 0\<rparr>, [])"
    by (simp add: dictCreate_def dictInit_def dictReset_def)
  moreover obtain ht al' where "dictCreate callbackDict 0 [] = Some (ht, al')" "dict_ok ht" "dt_type ht = callbackDict"
    "dt_used ht = 0" "\<And>k. dict_get ht k = None"
    by (rule dictCreate_spec [of "[]" callbackDict 0]) auto
  ultimately show ?thesis using that [of ht] by (simp add: callback_table_def fun_eq_iff)
qed

lemma empty_table: "callback_table ht \<Longrightarrow> dt_used ht = 0 \<Longrightarrow> entries ht = {#}"
  by (simp add: callback_table_def dict_ok_def)

lemma one_entry_table:
  obtains h0 ht m al where "dictCreate callbackDict 0 [] = Some (h0, [])"
    "dictReplace h0 ''news'' \<lparr>cb_next = None, cb_fn = Some 1, cb_privdata = 2\<rparr> \<lparr>cm_al = [], cm_keys = {#''news''#}, cm_vals = {#}\<rparr> []
      = Some (1, ht, m, al)"
    "callback_table ht" "dt_used ht = 1" "cm_keys m = {#''news''#}" "cm_vals m = {#\<lparr>cb_next = None, cb_fn = Some 1, cb_privdata = 2\<rparr>#}"
    "entries ht = {#\<lparr>de_key = ''news'', de_val = \<lparr>cb_next = None, cb_fn = Some 1, cb_privdata = 2\<rparr>\<rparr>#}"
proof -
  obtain h0 where h: "dictCreate callbackDict 0 [] = Some (h0, [])" "callback_table h0" "dt_used h0 = 0" "dict_get h0 = Map.empty"
    by (rule fresh_table)
  define k where "k = ''news''"
  define v where "v = \<lparr>cb_next = None, cb_fn = Some 1 :: nat option, cb_privdata = 2\<rparr>"
  define m0 where "m0 = \<lparr>cm_al = [], cm_keys = {#k#}, cm_vals = {#}\<rparr>"
  have e: "entries h0 = {#}" by (rule empty_table [OF h(2,3)])
  have u: "dt_used h0 < 2 ^ 30" "image_mset de_val (entries h0) \<subseteq># cm_vals m0" using h(3) e by simp_all
  obtain ht m al where r: "dictReplace h0 k v m0 [] = Some (if dict_get h0 k = None then 1 else 0, ht, m, al)" "callback_table ht"
    "dt_used ht = (if dict_get h0 k = None then dt_used h0 + 1 else dt_used h0)"
    "entries ht = add_mset \<lparr>de_key = k, de_val = v\<rparr> (elsewhere h0 k)" "cm_keys m = cm_keys m0"
    "cm_vals m = add_mset v (cm_vals m0) - (case dict_get h0 k of None \<Rightarrow> {#} | Some u \<Rightarrow> {#u#})"
    by (rule callback_replace [OF h(2) u(1) _ _ u(2), of "[]" k v]) (simp_all add: m0_def)
  have "elsewhere h0 k = {#}" using e by (simp add: elsewhere_def)
  then show ?thesis using that [of h0 ht m al] h r
    unfolding k_def [symmetric] v_def [symmetric] m0_def [symmetric] by (simp add: m0_def)
qed

text \<open>
  C14: storing a value under a key of any well-formed table, new or not, with the table growing or
  not: \<open>dictReplace\<close> keeps the table well-formed, afterwards exactly the keys equal to that one are
  mapped to the copy of the value and all others as before, and it reports whether the key is new.
\<close>
theorem dictReplace_stores:
  assumes "dict_ok ht" "keys_ok ht" "dt_used ht < 2 ^ 30" "None \<notin> set al" "dup_ok ht key val m v m1"
    "\<And>e. matching ht key = {#e#} \<Longrightarrow> dictFreeEntryVal ht e m1 = Some m2" "matching ht key = {#} \<Longrightarrow> m2 = m1"
  shows "\<exists>ht' al'. dictReplace ht key val m al = Some (if dict_get ht key = None then 1 else 0, ht', m2, al')
    \<and> dict_ok ht' \<and> (\<forall>k. dict_get ht' k = (if dictCompareHashKeys ht k key then Some v else dict_get ht k))
    \<and> dt_used ht' = (if dict_get ht key = None then dt_used ht + 1 else dt_used ht)"
  by (rule dictReplace_map [OF assms]) blast+

theorem dictReplace_stores_witness:
  "\<exists>ht ht' m2 al'. dictCreate callbackDict 0 [] = Some (ht, [])
    \<and> dictReplace ht ''news'' \<lparr>cb_next = None, cb_fn = Some 1, cb_privdata = 2\<rparr> \<lparr>cm_al = [], cm_keys = {#''news''#}, cm_vals = {#}\<rparr> []
      = Some (1, ht', m2, al')
    \<and> dict_get ht' ''news'' = Some \<lparr>cb_next = None, cb_fn = Some 1, cb_privdata = 2\<rparr>"
proof -
  obtain ht where h: "dictCreate callbackDict 0 [] = Some (ht, [])" "callback_table ht" "dt_used ht = 0" "dict_get ht = Map.empty"
    by (rule fresh_table)
  then have t: "dict_ok ht" "dt_type ht = callbackDict" by (auto simp: callback_table_def)
  define v where "v = \<lparr>cb_next = None, cb_fn = Some 1 :: nat option, cb_privdata = 2\<rparr>"
  define k where "k = ''news''"
  define m where "m = \<lparr>cm_al = [], cm_keys = {#k#}, cm_vals = {#}\<rparr>"
  have d: "dup_ok ht k v m v (m\<lparr>cm_vals := {#v#}\<rparr>)"
    using callbackDict_dup [OF t(2), of m _ "[]" k v] by (simp add: m_def)
  have "entries ht = {#}" using t(1) h(3) by (simp add: dict_ok_def)
  then have e: "matching ht k = {#}" by (simp add: matching_def)
  show ?thesis using h(1,4)
      dictReplace_stores [OF t(1) callbackDict_keys_ok [OF t(2)] _ _ d, of "[]" "m\<lparr>cm_vals := {#v#}\<rparr>"]
    unfolding v_def [symmetric] k_def [symmetric] m_def [symmetric]
    by (auto simp: h(3) e callbackDict_compare [OF t(2)])
qed

text \<open>
  C16: \<open>dictAdd\<close> never overwrites: it stores a key that is not in the table and refuses one that is
  with \<open>DICT_ERR\<close>, leaving every value, the number of entries and the values' memory as they were,
  whether or not the table grew on the way.
\<close>
theorem dictAdd_never_overwrites:
  assumes "dict_ok ht" "keys_ok ht" "dt_used ht < 2 ^ 30" "None \<notin> set al" "dup_ok ht key val m v m1"
  shows "\<exists>st ht' m' al'. dictAdd ht key val m al = Some (st, ht', m', al') \<and> dict_ok ht'
    \<and> (if dict_get ht key = None
       then st = DICT_OK \<and> m' = m1 \<and> entries ht' = add_mset \<lparr>de_key = key, de_val = v\<rparr> (entries ht)
       else st = DICT_ERR \<and> m' = m \<and> entries ht' = entries ht \<and> (\<forall>k. dict_get ht' k = dict_get ht k))"
proof (cases rule: matching_cases [OF assms(1), of key])
  case 1
  then show ?thesis using dictAdd_absent [OF assms(1-4) 1 assms(5)] dict_get_None [OF assms(1,2) 1] by (metis (full_types))
next
  case (2 e)
  then have "matching ht key \<noteq> {#}" by simp
  then obtain h1 al' where a: "dictAdd ht key val m al = Some (DICT_ERR, h1, m, al')" "dict_ok h1" "same_but_table ht h1"
    "entries h1 = entries ht"
    using dictAdd_present [OF assms(1-4)] by metis
  have "dict_get h1 k = dict_get ht k" for k
    by (rule dict_get_eqI) (use assms(1,2) a(2) same_keys_ok [OF a(3)] matching_same [OF a(3,4)] in auto)
  then show ?thesis using a dict_get_Some [OF assms(1,2) 2] by auto
qed

theorem dictAdd_never_overwrites_witness:
  "\<exists>ht st ht' m' al'. dictCreate callbackDict 0 [] = Some (ht, [])
    \<and> dictAdd ht ''news'' \<lparr>cb_next = None, cb_fn = Some 1, cb_privdata = 2\<rparr> \<lparr>cm_al = [], cm_keys = {#''news''#}, cm_vals = {#}\<rparr> []
      = Some (st, ht', m', al') \<and> st = DICT_OK \<and> size (entries ht') = 1"
proof -
  obtain ht where h: "dictCreate callbackDict 0 [] = Some (ht, [])" "callback_table ht" "dt_used ht = 0" "dict_get ht = Map.empty"
    by (rule fresh_table)
  then have t: "dict_ok ht" "dt_type ht = callbackDict" by (auto simp: callback_table_def)
  define v where "v = \<lparr>cb_next = None, cb_fn = Some 1 :: nat option, cb_privdata = 2\<rparr>"
  define k where "k = ''news''"
  define m where "m = \<lparr>cm_al = [], cm_keys = {#k#}, cm_vals = {#}\<rparr>"
  have d: "dup_ok ht k v m v (m\<lparr>cm_vals := {#v#}\<rparr>)"
    using callbackDict_dup [OF t(2), of m _ "[]" k v] by (simp add: m_def)
  have "entries ht = {#}" using t(1) h(3) by (simp add: dict_ok_def)
  then show ?thesis using h(1,4) dictAdd_never_overwrites [OF t(1) callbackDict_keys_ok [OF t(2)] _ _ d, of "[]"]
    unfolding v_def [symmetric] k_def [symmetric] m_def [symmetric]
    by (auto simp: h(3))
qed



text \<open>
  C17: releasing a table of subscriptions whose entries hold names and copies of callbacks that are
  allocated succeeds and frees the name and the copy of every entry exactly once, no other ones and
  none twice: what is allocated afterwards is what was before, less these names and these copies.
\<close>
theorem dictRelease_frees_once:
  assumes "callback_table ht" "image_mset de_key (entries ht) \<subseteq># cm_keys m" "image_mset de_val (entries ht) \<subseteq># cm_vals m"
  shows "dictRelease ht m = Some (m\<lparr>cm_keys := cm_keys m - image_mset de_key (entries ht),
      cm_vals := cm_vals m - image_mset de_val (entries ht)\<rparr>)"
proof -
  have o: "dict_ok ht" and t: "dt_type ht = callbackDict" using assms(1) by (auto simp: callback_table_def)
  have "owned (mset (chains ht)) m" using assms(2,3) by (simp add: owned_def mset_chains)
  then show ?thesis using callbackDict_free_entries [OF t, of "chains ht" m] dictRelease_spec [OF o]
    by (simp add: mset_chains spare_def)
qed

theorem dictRelease_frees_once_witness:
  "\<exists>h0 ht m al m'. dictCreate callbackDict 0 [] = Some (h0, [])
    \<and> dictReplace h0 ''news'' \<lparr>cb_next = None, cb_fn = Some 1, cb_privdata = 2\<rparr> \<lparr>cm_al = [], cm_keys = {#''news''#}, cm_vals = {#}\<rparr> []
      = Some (1, ht, m, al)
    \<and> dictRelease ht m = Some m' \<and> cm_keys m' = {#} \<and> cm_vals m' = {#}"
proof -
  obtain h0 ht m al where h: "dictCreate callbackDict 0 [] = Some (h0, [])"
    "dictReplace h0 ''news'' \<lparr>cb_next = None, cb_fn = Some 1, cb_privdata = 2\<rparr> \<lparr>cm_al = [], cm_keys = {#''news''#}, cm_vals = {#}\<rparr> []
      = Some (1, ht, m, al)"
    "callback_table ht" "dt_used ht = 1" "cm_keys m = {#''news''#}" "cm_vals m = {#\<lparr>cb_next = None, cb_fn = Some 1, cb_privdata = 2\<rparr>#}"
    "entries ht = {#\<lparr>de_key = ''news'', de_val = \<lparr>cb_next = None, cb_fn = Some 1, cb_privdata = 2\<rparr>\<rparr>#}"
    by (rule one_entry_table)
  then show ?thesis using dictRelease_frees_once [OF h(3), of m] by simp
qed

text \<open>
  The loop that looks for the size of a table ends for every size below \<open>PORT_LONG_MAX\<close> without
  overflow, with the least power of two from the initial size on that is not below it; from
  \<open>PORT_LONG_MAX\<close> on the result is \<open>PORT_LONG_MAX\<close>, which is no power of two.
\<close>

lemma dictNextPower_least:
  "if sz < PORT_LONG_MAX
   then \<exists>n. dictNextPower sz = Some (2 ^ n) \<and> 2 \<le> n \<and> n \<le> 63 \<and> sz \<le> 2 ^ n \<and> (\<forall>k < n. k < 2 \<or> 2 ^ k < sz)
   else dictNextPower sz = Some PORT_LONG_MAX"
proof (cases "sz < PORT_LONG_MAX")
  case True
  then obtain n where n: "dictNextPower sz = Some (2 ^ n)" "2 \<le> n" "n \<le> 63" "sz \<le> 2 ^ n" "n = 2 \<or> 2 ^ n < 2 * sz"
    using dictNextPower_spec [of sz] unfolding PORT_LONG_MAX_def by metis
  have "k < 2 \<or> 2 ^ k < sz" if k: "k < n" for k
  proof (cases "n = 2")
    case False
    have "(2 :: nat) ^ Suc k \<le> 2 ^ n" using k by (intro power_increasing) auto
    then show ?thesis using n(5) False by simp
  qed (use k in simp)
  then show ?thesis using n True by auto
qed (simp add: dictNextPower_def)

text \<open>
  C18: any sequence of pushes and shifts on a list of callbacks returns, whatever the list held before,
  exactly what a first-in first-out queue returns: no callback is lost, repeated or overtaken.
\<close>
theorem callbacks_keep_order:
  assumes "queue_is q xs" "None \<notin> set al"
  shows "\<exists>rs q' al' ys. fifo_run push_cb shift_cb ops (q, al) = Some (rs, q', al') \<and> queue_is q' ys
    \<and> results rs @ ys = xs @ pushed ops \<and> rs = fst (fifo_spec ops xs)"
proof -
  obtain s' where "fifo_run push_cb shift_cb ops (q, al) = Some (fst (fifo_spec ops xs), s')" "queue_is (fst s') (snd (fifo_spec ops xs))"
    using cbq.run_refines [of "(q, al)" xs ops] assms by auto
  then show ?thesis using fifo_spec_order [of ops xs] by (metis prod.collapse)
qed

theorem callbacks_keep_order_witness:
  "\<exists>rs q' al'. fifo_run push_cb shift_cb [Push (Some 1, 10), Push (Some 2, 20), Shift, Push (Some 3, 30), Shift] (empty_list, [])
     = Some (rs, q', al') \<and> rs = [Some (Some 1, 10), Some (Some 2, 20)]"
  using callbacks_keep_order [OF queue_is_empty, of "[]" "[Push (Some 1, 10), Push (Some 2, 20), Shift, Push (Some 3, 30), Shift]"]
  by auto

end
