(* ===== verification/Sds.thy ===== *)
theory Sds
  imports Prelude
begin

text \<open>
  Dynamic strings: \<open>sds.h\<close> and the operations of \<open>sds.c\<close> that build, grow, cut and compare
  them. A string is its header (\<open>struct sdshdr\<close>) with the bytes of the allocation behind it.
  Every access to the bytes is checked against the allocation, so an operation that never
  returns \<open>None\<close> never leaves its block. The conversions and parsers of \<open>sds.c\<close> are in
  \<open>SdsText\<close>.
\<close>

section \<open>The header\<close>

record sdshdr =
  sds_len :: nat
  sds_free :: nat
  sds_buf :: "char list"

type_synonym sds = "sdshdr option"

definition SDS_MAX_PREALLOC :: nat where
  "SDS_MAX_PREALLOC = 1024 * 1024"

definition sizeof_sdshdr :: nat where
  "sizeof_sdshdr = 8"

definition room :: "nat \<Rightarrow> nat" where
  \<comment> \<open>the bytes behind the header in a request of \<open>sizeof(struct sdshdr)+n+1\<close> bytes\<close>
  "room n = u64 (sizeof_sdshdr + n + 1) - sizeof_sdshdr"

definition sdslen :: "sdshdr \<Rightarrow> nat" where
  "sdslen s = sds_len s"

definition sdsavail :: "sdshdr \<Rightarrow> nat" where
  "sdsavail s = sds_free s"

section \<open>Creating\<close>

definition sdsnewlen :: "char list option \<Rightarrow> nat \<Rightarrow> allocs \<Rightarrow> (sds \<times> allocs) option" where
  "sdsnewlen init initlen al =
     (case (case init of
              Some _ \<Rightarrow> malloc_bytes (room initlen) al
            | None \<Rightarrow> calloc_bytes (room initlen) al) of
        (None, al') \<Rightarrow> Some (None, al')
      | (Some b, al') \<Rightarrow> do {
          b1 \<leftarrow> (case init of
                  Some src \<Rightarrow> if initlen \<noteq> 0
                              then do { bs \<leftarrow> read_at 0 initlen src; write_at 0 bs b } else Some b
                | None \<Rightarrow> Some b);
          b2 \<leftarrow> poke initlen NUL b1;
          Some (Some \<lparr>sds_len = u32 initlen, sds_free = 0, sds_buf = b2\<rparr>, al')
        })"

definition sdsempty :: "allocs \<Rightarrow> (sds \<times> allocs) option" where
  "sdsempty al = sdsnewlen (Some [NUL]) 0 al"

definition sdsnew :: "string option \<Rightarrow> allocs \<Rightarrow> (sds \<times> allocs) option" where
  "sdsnew init al =
     (let initlen = (case init of None \<Rightarrow> 0 | Some s \<Rightarrow> cstrlen s)
      in sdsnewlen (map_option (\<lambda>s. s @ [NUL]) init) initlen al)"

definition sdsdup :: "sdshdr \<Rightarrow> allocs \<Rightarrow> (sds \<times> allocs) option" where
  "sdsdup s al = sdsnewlen (Some (sds_buf s)) (sdslen s) al"

section \<open>Length and free space\<close>

definition sdsupdatelen :: "sdshdr \<Rightarrow> sdshdr option" where
  "sdsupdatelen s = do {
     reallen \<leftarrow> strlen_block (sds_buf s);
     Some (s\<lparr>sds_free := u32 (sds_free s + u32_sub (sds_len s) (u32 reallen)),
             sds_len := u32 reallen\<rparr>)
   }"

definition sdsclear :: "sdshdr \<Rightarrow> sdshdr option" where
  "sdsclear s = do {
     b \<leftarrow> poke 0 NUL (sds_buf s);
     Some \<lparr>sds_len = 0, sds_free = u32 (sds_free s + sds_len s), sds_buf = b\<rparr>
   }"

definition sdsMakeRoomFor :: "sdshdr \<Rightarrow> nat \<Rightarrow> allocs \<Rightarrow> sds \<times> allocs" where
  "sdsMakeRoomFor s addlen al =
     (let free = sdsavail s in
      if free \<ge> addlen then (Some s, al)
      else
        let len = sdslen s;
            newlen = u64 (len + addlen);
            newlen = (if newlen < SDS_MAX_PREALLOC then u64 (newlen * 2)
                      else u64 (newlen + SDS_MAX_PREALLOC))
        in case realloc_bytes (sds_buf s) (room newlen) al of
             (None, al') \<Rightarrow> (None, al')
           | (Some b, al') \<Rightarrow>
               (Some (s\<lparr>sds_free := u32 (sz_sub newlen len), sds_buf := b\<rparr>), al'))"

definition sdsRemoveFreeSpace :: "sdshdr \<Rightarrow> allocs \<Rightarrow> (sdshdr \<times> allocs) option" where
  \<comment> \<open>the result of \<open>zrealloc\<close> is used without a test for NULL\<close>
  "sdsRemoveFreeSpace s al =
     (case realloc_bytes (sds_buf s) (room (sds_len s)) al of
        (None, _) \<Rightarrow> None
      | (Some b, al') \<Rightarrow> Some (s\<lparr>sds_free := 0, sds_buf := b\<rparr>, al'))"

definition sdsAllocSize :: "sdshdr \<Rightarrow> nat" where
  "sdsAllocSize s = sizeof_sdshdr + sds_len s + sds_free s + 1"

definition sdsIncrLen :: "sdshdr \<Rightarrow> int \<Rightarrow> sdshdr option" where
  "sdsIncrLen s incr = do {
     require (if incr \<ge> 0 then int (sds_free s) \<ge> incr
              else int (sds_len s) \<ge> (- incr) mod 2 ^ 32);
     let len' = nat ((int (sds_len s) + incr) mod 2 ^ 32);
     let free' = nat ((int (sds_free s) - incr) mod 2 ^ 32);
     b \<leftarrow> poke len' NUL (sds_buf s);
     Some \<lparr>sds_len = len', sds_free = free', sds_buf = b\<rparr>
   }"

definition sdsgrowzero :: "sdshdr \<Rightarrow> nat \<Rightarrow> allocs \<Rightarrow> (sds \<times> allocs) option" where
  "sdsgrowzero s len al =
     (let curlen = sds_len s in
      if len \<le> curlen then Some (Some s, al)
      else case sdsMakeRoomFor s (len - curlen) al of
          (None, al') \<Rightarrow> Some (None, al')
        | (Some s', al') \<Rightarrow> do {
            b \<leftarrow> write_at curlen (replicate (len - curlen + 1) NUL) (sds_buf s');
            let totlen = u32 (sds_len s' + sds_free s');
            Some (Some \<lparr>sds_len = u32 len, sds_free = u32 (sz_sub totlen (u32 len)), sds_buf = b\<rparr>, al')
          })"

section \<open>Appending and copying\<close>

definition sdscatlen :: "sds \<Rightarrow> char list \<Rightarrow> nat \<Rightarrow> allocs \<Rightarrow> (sds \<times> allocs) option" where
  \<comment> \<open>\<open>s = None\<close> is the NULL pointer, whose header cannot be read\<close>
  "sdscatlen s t len al = do {
     s \<leftarrow> s;
     let curlen = sdslen s;
     (case sdsMakeRoomFor s len al of
        (None, al') \<Rightarrow> Some (None, al')
      | (Some s', al') \<Rightarrow> do {
          bs \<leftarrow> read_at 0 len t;
          b1 \<leftarrow> write_at curlen bs (sds_buf s');
          b2 \<leftarrow> poke (curlen + len) NUL b1;
          Some (Some \<lparr>sds_len = u32 (curlen + len), sds_free = u32 (sz_sub (sds_free s') len),
                      sds_buf = b2\<rparr>, al')
        })
   }"

definition sdscat :: "sds \<Rightarrow> string \<Rightarrow> allocs \<Rightarrow> (sds \<times> allocs) option" where
  "sdscat s t al = sdscatlen s (t @ [NUL]) (cstrlen t) al"

definition sdscatsds :: "sds \<Rightarrow> sdshdr \<Rightarrow> allocs \<Rightarrow> (sds \<times> allocs) option" where
  "sdscatsds s t al = sdscatlen s (sds_buf t) (sdslen t) al"

definition sdscpylen :: "sdshdr \<Rightarrow> char list \<Rightarrow> nat \<Rightarrow> allocs \<Rightarrow> (sds \<times> allocs) option" where
  "sdscpylen s t len al =
     (let totlen = u32 (sds_free s + sds_len s) in
      case (if totlen < len then sdsMakeRoomFor s (sz_sub len (sds_len s)) al else (Some s, al)) of
        (None, al') \<Rightarrow> Some (None, al')
      | (Some s', al') \<Rightarrow> do {
          let totlen = u32 (sds_free s' + sds_len s');
          bs \<leftarrow> read_at 0 len t;
          b1 \<leftarrow> write_at 0 bs (sds_buf s');
          b2 \<leftarrow> poke len NUL b1;
          Some (Some \<lparr>sds_len = u32 len, sds_free = u32 (sz_sub totlen len), sds_buf = b2\<rparr>, al')
        })"

definition sdscpy :: "sdshdr \<Rightarrow> string \<Rightarrow> allocs \<Rightarrow> (sds \<times> allocs) option" where
  "sdscpy s t al = sdscpylen s (t @ [NUL]) (cstrlen t) al"

section \<open>Cutting\<close>

function trim_left :: "char list \<Rightarrow> string \<Rightarrow> int \<Rightarrow> int \<Rightarrow> int option" where
  "trim_left m cset sp e =
     (if sp \<le> e
      then (case rd m (nat sp) of
              None \<Rightarrow> None
            | Some c \<Rightarrow> if strchr_has cset c then trim_left m cset (sp + 1) e else Some sp)
      else Some sp)"
  by pat_completeness auto
termination
  by (relation "measure (\<lambda>(m, cset, sp, e). nat (e + 1 - sp))") auto

function trim_right :: "char list \<Rightarrow> string \<Rightarrow> int \<Rightarrow> int option" where
  "trim_right m cset ep =
     (if ep > 0
      then (case rd m (nat ep) of
              None \<Rightarrow> None
            | Some c \<Rightarrow> if strchr_has cset c then trim_right m cset (ep - 1) else Some ep)
      else Some ep)"
  by pat_completeness auto
termination
  by (relation "measure (\<lambda>(m, cset, ep). nat ep)") auto

declare trim_left.simps [simp del] trim_right.simps [simp del]

definition sdstrim :: "sdshdr \<Rightarrow> string \<Rightarrow> sdshdr option" where
  \<comment> \<open>pointers into the string are offsets from its start\<close>
  "sdstrim s cset = do {
     let e = int (sdslen s) - 1;
     sp \<leftarrow> trim_left (sds_buf s) cset 0 e;
     ep \<leftarrow> trim_right (sds_buf s) cset e;
     let len = (if sp > ep then 0 else nat (ep - sp + 1));
     b1 \<leftarrow> (if sp \<noteq> 0 then do { bs \<leftarrow> read_at (nat sp) len (sds_buf s); write_at 0 bs (sds_buf s) }
           else Some (sds_buf s));
     b2 \<leftarrow> poke len NUL b1;
     Some \<lparr>sds_len = u32 len, sds_free = u32 (sds_free s + sz_sub (sds_len s) len), sds_buf = b2\<rparr>
   }"

definition sdsrange :: "sdshdr \<Rightarrow> int \<Rightarrow> int \<Rightarrow> sdshdr option" where
  "sdsrange s start end =
     (let len = sdslen s in
      if len = 0 then Some s
      else do {
        let start = (if start < 0 then max 0 (s32 (int len + start)) else start);
        let end = (if end < 0 then max 0 (s32 (int len + end)) else end);
        let newlen = (if start > end then 0 else s32 (end - start + 1));
        let (start, newlen) =
          (if newlen \<noteq> 0 then
             (if start \<ge> s32 (int len) then (start, 0)
              else if end \<ge> s32 (int len) then
                (let end = s32 (int (len - 1)) in
                 (start, if start > end then 0 else s32 (end - start + 1)))
              else (start, newlen))
           else (0, 0));
        b1 \<leftarrow> (if start \<noteq> 0 \<and> newlen \<noteq> 0
              then do { bs \<leftarrow> read_at (nat start) (nat newlen) (sds_buf s); write_at 0 bs (sds_buf s) }
              else Some (sds_buf s));
        b2 \<leftarrow> poke (nat newlen) NUL b1;
        Some \<lparr>sds_len = u32 (nat newlen), sds_free = u32 (sds_free s + sz_sub (sds_len s) (nat newlen)),
              sds_buf = b2\<rparr>
      })"

section \<open>Character-wise changes and comparison\<close>

function map_loop :: "(char \<Rightarrow> char option) \<Rightarrow> nat \<Rightarrow> nat \<Rightarrow> char list \<Rightarrow> char list option" where
  \<comment> \<open>\<open>for (j = 0; j < len; j++) s[j] = f(s[j])\<close>\<close>
  "map_loop f j len m =
     (if j < len
      then (case rd m j of None \<Rightarrow> None
            | Some c \<Rightarrow> (case f c of None \<Rightarrow> None
              | Some c' \<Rightarrow> (case poke j c' m of None \<Rightarrow> None
                | Some m' \<Rightarrow> map_loop f (Suc j) len m')))
      else Some m)"
  by pat_completeness auto
termination
  by (relation "measure (\<lambda>(f, j, len, m). len - j)") auto

declare map_loop.simps [simp del]

definition sdstolower :: "sdshdr \<Rightarrow> sdshdr option" where
  "sdstolower s = do { b \<leftarrow> map_loop (Some \<circ> tolower_c) 0 (sdslen s) (sds_buf s); Some (s\<lparr>sds_buf := b\<rparr>) }"

definition sdstoupper :: "sdshdr \<Rightarrow> sdshdr option" where
  "sdstoupper s = do { b \<leftarrow> map_loop (Some \<circ> toupper_c) 0 (sdslen s) (sds_buf s); Some (s\<lparr>sds_buf := b\<rparr>) }"

function subst_char :: "char list \<Rightarrow> char list \<Rightarrow> nat \<Rightarrow> nat \<Rightarrow> char \<Rightarrow> char option" where
  \<comment> \<open>the inner loop of \<open>sdsmapchars\<close>, from entry \<open>i\<close> on\<close>
  "subst_char from to i setlen c =
     (if i < setlen
      then (case rd from i of None \<Rightarrow> None
            | Some f \<Rightarrow> if c = f then rd to i else subst_char from to (Suc i) setlen c)
      else Some c)"
  by pat_completeness auto
termination
  by (relation "measure (\<lambda>(from, to, i, setlen, c). setlen - i)") auto

declare subst_char.simps [simp del]

definition sdsmapchars :: "sdshdr \<Rightarrow> char list \<Rightarrow> char list \<Rightarrow> nat \<Rightarrow> sdshdr option" where
  "sdsmapchars s from to setlen =
     do { b \<leftarrow> map_loop (subst_char from to 0 setlen) 0 (sdslen s) (sds_buf s); Some (s\<lparr>sds_buf := b\<rparr>) }"

fun memcmp :: "char list \<Rightarrow> char list \<Rightarrow> nat \<Rightarrow> int option" where
  \<comment> \<open>the sign is all that C specifies of the result\<close>
  "memcmp a b 0 = Some 0"
| "memcmp (x # a) (y # b) (Suc n) =
     (if code x < code y then Some (-1) else if code x > code y then Some 1 else memcmp a b n)"
| "memcmp a b (Suc n) = None"

definition sdscmp :: "sdshdr \<Rightarrow> sdshdr \<Rightarrow> int option" where
  "sdscmp s1 s2 = do {
     let l1 = sdslen s1;
     let l2 = sdslen s2;
     let minlen = (if l1 < l2 then l1 else l2);
     cmp \<leftarrow> memcmp (sds_buf s1) (sds_buf s2) minlen;
     Some (if cmp = 0 then s32 (int (sz_sub l1 l2)) else cmp)
   }"

section \<open>Well-formed strings\<close>

definition sds_ok :: "sdshdr \<Rightarrow> bool" where
  "sds_ok s \<longleftrightarrow> length (sds_buf s) = sds_len s + sds_free s + 1
      \<and> sds_len s + sds_free s < 2 ^ 32 \<and> sds_buf s ! sds_len s = NUL"

definition sds_str :: "sdshdr \<Rightarrow> string" where
  "sds_str s = take (sds_len s) (sds_buf s)"

definition yields :: "allocs \<Rightarrow> (sds \<times> allocs) option \<Rightarrow> string \<Rightarrow> bool" where
  "yields al res x \<longleftrightarrow> (\<exists>s al'. res = Some (s, al') \<and> set al' \<subseteq> set al \<and>
     (case s of None \<Rightarrow> None \<in> set al | Some h \<Rightarrow> sds_ok h \<and> sds_str h = x))"

lemma yieldsI_null: "None \<in> set al \<Longrightarrow> set al' \<subseteq> set al \<Longrightarrow> yields al (Some (None, al')) x"
  by (simp add: yields_def)

lemma yieldsI: "sds_ok h \<Longrightarrow> sds_str h = x \<Longrightarrow> set al' \<subseteq> set al \<Longrightarrow> yields al (Some (Some h, al')) x"
  by (simp add: yields_def)

lemma yieldsE [consumes 1, case_names null str]:
  assumes "yields al res x"
  obtains (null) al' where "res = Some (None, al')" "None \<in> set al" "set al' \<subseteq> set al"
  | (str) h al' where "res = Some (Some h, al')" "sds_ok h" "sds_str h = x" "set al' \<subseteq> set al"
proof -
  obtain s al' where r: "res = Some (s, al')" "set al' \<subseteq> set al"
      "case s of None \<Rightarrow> None \<in> set al | Some h \<Rightarrow> sds_ok h \<and> sds_str h = x"
    using assms by (auto simp: yields_def)
  then show ?thesis by (cases s) (auto intro: null str)
qed

lemma yields_no_fault: "yields al res x \<Longrightarrow> res \<noteq> None"
  by (auto simp: yields_def)

lemma room_eq: "n < 2 ^ 33 \<Longrightarrow> room n = n + 1"
  by (simp add: room_def sizeof_sdshdr_def)

lemma length_sds_str [simp]: "sds_ok s \<Longrightarrow> length (sds_str s) = sds_len s"
  by (simp add: sds_str_def sds_ok_def)

lemma sds_okI:
  "length b = l + f + 1 \<Longrightarrow> l + f < 2 ^ 32 \<Longrightarrow> b ! l = NUL \<Longrightarrow>
     sds_ok \<lparr>sds_len = l, sds_free = f, sds_buf = b\<rparr>"
  by (simp add: sds_ok_def)

lemma sdsnewlen_yields:
  assumes "n < 2 ^ 31" "n \<le> length src"
  shows "yields al (sdsnewlen (Some src) n al) (take n src)"
proof (cases "alloc_next al")
  case (Pair a al')
  have sub: "set al' \<subseteq> set al" using Pair by (rule alloc_next_set)
  show ?thesis
  proof (cases a)
    case None
    with Pair sub show ?thesis
      by (simp add: sdsnewlen_def malloc_bytes_def yieldsI_null alloc_next_None)
  next
    case (Some f)
    have r: "room n = n + 1" using assms by (simp add: room_eq)
    show ?thesis
    proof (cases "n = 0")
      case True
      then show ?thesis using Pair Some sub r
        by (auto simp: sdsnewlen_def malloc_bytes_def mem_simps sds_str_def intro!: yieldsI sds_okI)
    next
      case False
      then show ?thesis using Pair Some sub r assms
        by (auto simp: sdsnewlen_def malloc_bytes_def mem_simps sds_str_def nth_append
            intro!: yieldsI sds_okI)
    qed
  qed
qed

definition sds_fit :: "sdshdr \<Rightarrow> bool" where
  \<comment> \<open>the header describes its block; the terminator may be missing\<close>
  "sds_fit s \<longleftrightarrow> length (sds_buf s) = sds_len s + sds_free s + 1 \<and> sds_len s + sds_free s < 2 ^ 32"

lemma sds_ok_fit: "sds_ok s \<longleftrightarrow> sds_fit s \<and> sds_buf s ! sds_len s = NUL"
  by (auto simp: sds_ok_def sds_fit_def)

lemma sdsMakeRoomFor_fit [consumes 2, case_names null room]:
  assumes ok: "sds_fit s" and lim: "sds_len s + addlen < 2 ^ 31"
  obtains (null) al' where "sdsMakeRoomFor s addlen al = (None, al')" "None \<in> set al" "set al' \<subseteq> set al"
  | (room) s' al' where "sdsMakeRoomFor s addlen al = (Some s', al')" "sds_fit s'"
      "sds_len s' = sds_len s" "take (sds_len s + 1) (sds_buf s') = take (sds_len s + 1) (sds_buf s)" "addlen \<le> sds_free s'" "set al' \<subseteq> set al"
proof (cases "addlen \<le> sds_free s")
  case True
  then show ?thesis using ok
    by (intro room [of s al]) (auto simp: sdsMakeRoomFor_def sdsavail_def)
next
  case False
  define newlen where "newlen = (if sds_len s + addlen < SDS_MAX_PREALLOC
      then (sds_len s + addlen) * 2 else sds_len s + addlen + SDS_MAX_PREALLOC)"
  have nl: "newlen < 2 ^ 32" "sds_len s + addlen \<le> newlen"
    using lim by (auto simp: newlen_def SDS_MAX_PREALLOC_def)
  have eq: "sdsMakeRoomFor s addlen al =
      (case realloc_bytes (sds_buf s) (newlen + 1) al of
         (None, al') \<Rightarrow> (None, al')
       | (Some b, al') \<Rightarrow> (Some (s\<lparr>sds_free := newlen - sds_len s, sds_buf := b\<rparr>), al'))"
    using False lim nl
    by (auto simp: sdsMakeRoomFor_def sdsavail_def sdslen_def newlen_def SDS_MAX_PREALLOC_def Let_def
        room_eq sz_sub_eq split: prod.splits option.splits)
  obtain a al' where an: "alloc_next al = (a, al')" by force
  have sub: "set al' \<subseteq> set al" using an by (rule alloc_next_set)
  show ?thesis
  proof (cases a)
    case None
    with an sub show ?thesis
      by (intro null [of al']) (auto simp: eq realloc_bytes_def dest: alloc_next_None)
  next
    case (Some f)
    let ?b = "sds_buf s @ map f [length (sds_buf s)..<newlen + 1]"
    have len: "length (sds_buf s) \<le> newlen + 1" using ok False nl by (auto simp: sds_fit_def)
    let ?s' = "s\<lparr>sds_free := newlen - sds_len s, sds_buf := ?b\<rparr>"
    have e: "sdsMakeRoomFor s addlen al = (Some ?s', al')"
      using an Some len by (simp add: eq realloc_bytes_def del: upt_Suc)
    have lb: "length ?b = newlen + 1" using len by (simp del: upt_Suc)
    have "sds_fit ?s'" using ok nl lb by (simp add: sds_fit_def del: upt_Suc)
    moreover have "take (sds_len s + 1) ?b = take (sds_len s + 1) (sds_buf s)"
      using ok by (simp add: sds_fit_def del: upt_Suc)
    ultimately show ?thesis using e sub nl
      by (intro room [of ?s' al']) (simp_all del: upt_Suc)
  qed
qed

lemma sdsMakeRoomFor_spec [consumes 2, case_names null room]:
  assumes ok: "sds_ok s" and lim: "sds_len s + addlen < 2 ^ 31"
  obtains (null) al' where "sdsMakeRoomFor s addlen al = (None, al')" "None \<in> set al" "set al' \<subseteq> set al"
  | (room) s' al' where "sdsMakeRoomFor s addlen al = (Some s', al')" "sds_ok s'"
      "sds_len s' = sds_len s" "sds_str s' = sds_str s" "addlen \<le> sds_free s'" "set al' \<subseteq> set al"
proof -
  have "sds_fit s" using ok by (simp add: sds_ok_fit)
  from this lim show ?thesis
  proof (cases rule: sdsMakeRoomFor_fit [where al = al])
    case (null al')
    then show ?thesis by (rule that(1))
  next
    case (room s' al')
    have n: "sds_len s < length (sds_buf s)" "sds_len s < length (sds_buf s')"
      using ok room(2,3) by (auto simp: sds_ok_def sds_fit_def)
    have "sds_buf s' ! sds_len s = take (sds_len s + 1) (sds_buf s') ! sds_len s" by simp
    also have "\<dots> = NUL" unfolding room(4) using ok by (simp add: sds_ok_def)
    finally have "sds_ok s'" using room(2,3) by (simp add: sds_ok_fit)
    moreover have "sds_str s' = take (sds_len s) (take (sds_len s + 1) (sds_buf s'))" using room(3) by (simp add: sds_str_def)
    then have "sds_str s' = sds_str s" unfolding room(4) by (simp add: sds_str_def)
    ultimately show ?thesis using room that(2) by blast
  qed
qed

lemma sdscatlen_yields:
  assumes ok: "sds_ok s" and lim: "sds_len s + len < 2 ^ 31" and t: "len \<le> length t"
  shows "yields al (sdscatlen (Some s) t len al) (sds_str s @ take len t)"
  using ok lim
proof (cases rule: sdsMakeRoomFor_spec [where al = al])
  case (null al')
  then show ?thesis by (simp add: sdscatlen_def yieldsI_null)
next
  case (room s' al')
  then have l: "length (sds_buf s') = sds_len s + sds_free s' + 1" "sds_len s + sds_free s' < 2 ^ 32"
    by (auto simp: sds_ok_def)
  have len: "len \<le> sds_free s'" by fact
  let ?b = "(take (sds_len s) (sds_buf s') @ take len t @ drop (sds_len s + len) (sds_buf s'))[sds_len s + len := NUL]"
  have e: "sdscatlen (Some s) t len al =
      Some (Some \<lparr>sds_len = sds_len s + len, sds_free = sds_free s' - len, sds_buf = ?b\<rparr>, al')"
    using room l len t lim by (simp add: sdscatlen_def sdslen_def mem_simps sz_sub_eq)
  show ?thesis unfolding e
  proof (rule yieldsI)
    show "sds_ok \<lparr>sds_len = sds_len s + len, sds_free = sds_free s' - len, sds_buf = ?b\<rparr>"
      using l len t by (intro sds_okI) auto
    show "sds_str \<lparr>sds_len = sds_len s + len, sds_free = sds_free s' - len, sds_buf = ?b\<rparr>
        = sds_str s @ take len t"
      using l len t room(3,4) ok by (simp add: sds_str_def sds_ok_def)
  qed (rule room)
qed

lemma sdsempty_yields: "yields al (sdsempty al) []"
  using sdsnewlen_yields [of 0 "[NUL]" al] by (simp add: sdsempty_def)

lemma sdsnew_yields:
  assumes "cstrlen s < 2 ^ 31"
  shows "yields al (sdsnew (Some s) al) (takeWhile (\<lambda>c. c \<noteq> NUL) s)"
  using sdsnewlen_yields [of "cstrlen s" "s @ [NUL]" al] assms cstrlen_le [of s]
  by (simp add: sdsnew_def take_cstrlen)

lemma sdsdup_yields:
  assumes "sds_ok s" "sds_len s < 2 ^ 31"
  shows "yields al (sdsdup s al) (sds_str s)"
  using sdsnewlen_yields [of "sds_len s" "sds_buf s" al] assms
  by (simp add: sdsdup_def sdslen_def sds_str_def sds_ok_def)

lemma sdscat_yields:
  assumes "sds_ok s" "sds_len s + cstrlen t < 2 ^ 31"
  shows "yields al (sdscat (Some s) t al) (sds_str s @ takeWhile (\<lambda>c. c \<noteq> NUL) t)"
  using sdscatlen_yields [OF assms, of "t @ [NUL]" al] cstrlen_le [of t]
  by (simp add: sdscat_def take_cstrlen)

lemma sdscatsds_yields:
  assumes "sds_ok s" "sds_ok t" "sds_len s + sds_len t < 2 ^ 31"
  shows "yields al (sdscatsds (Some s) t al) (sds_str s @ sds_str t)"
  using sdscatlen_yields [OF assms(1,3), of "sds_buf t" al] assms(2)
  by (simp add: sdscatsds_def sdslen_def sds_str_def sds_ok_def)

lemma sdsgrowzero_yields:
  assumes ok: "sds_ok s" and lim: "len < 2 ^ 31"
  shows "yields al (sdsgrowzero s len al) (sds_str s @ replicate (len - sds_len s) NUL)"
proof (cases "len \<le> sds_len s")
  case True
  with ok show ?thesis by (auto simp: sdsgrowzero_def Let_def intro!: yieldsI)
next
  case False
  then have "sds_len s + (len - sds_len s) < 2 ^ 31" using lim by simp
  with ok show ?thesis
  proof (cases rule: sdsMakeRoomFor_spec [where al = al])
    case (null al')
    with False show ?thesis by (simp add: sdsgrowzero_def Let_def yieldsI_null)
  next
    case (room s' al')
    then have l: "length (sds_buf s') = sds_len s + sds_free s' + 1" "sds_len s + sds_free s' < 2 ^ 32"
      by (auto simp: sds_ok_def)
    let ?b = "take (sds_len s) (sds_buf s') @ replicate (len - sds_len s + 1) NUL
        @ drop (len + 1) (sds_buf s')"
    have e: "sdsgrowzero s len al =
        Some (Some \<lparr>sds_len = len, sds_free = sds_len s + sds_free s' - len, sds_buf = ?b\<rparr>, al')"
      using False room l lim by (simp add: sdsgrowzero_def mem_simps sz_sub_eq del: replicate.simps replicate_Suc)
    show ?thesis unfolding e
    proof (rule yieldsI)
      show "sds_ok \<lparr>sds_len = len, sds_free = sds_len s + sds_free s' - len, sds_buf = ?b\<rparr>"
        using l room(5) False by (intro sds_okI) (auto simp: nth_append)
      show "sds_str \<lparr>sds_len = len, sds_free = sds_len s + sds_free s' - len, sds_buf = ?b\<rparr>
          = sds_str s @ replicate (len - sds_len s) NUL"
        using l room(3,4,5) False ok
        by (simp add: sds_str_def sds_ok_def take_replicate Suc_diff_le del: replicate_Suc)
    qed (rule room)
  qed
qed

lemma sdscpylen_yields:
  assumes ok: "sds_ok s" and small: "sds_len s < 2 ^ 31" and lim: "len < 2 ^ 31" and t: "len \<le> length t"
  shows "yields al (sdscpylen s t len al) (take len t)"
proof -
  let ?fits = "\<not> sds_free s + sds_len s < len"
  define R where "R = (if ?fits then (Some s, al) else sdsMakeRoomFor s (len - sds_len s) al)"
  have R: "(case (if u32 (sds_free s + sds_len s) < len then sdsMakeRoomFor s (sz_sub len (sds_len s)) al
      else (Some s, al)) of x \<Rightarrow> x) = R"
    using ok lim by (auto simp: R_def sds_ok_def sz_sub_eq add.commute)
  have "\<exists>al'. (R = (None, al') \<and> None \<in> set al \<and> set al' \<subseteq> set al)
      \<or> (\<exists>s'. R = (Some s', al') \<and> sds_ok s' \<and> len \<le> sds_len s' + sds_free s' \<and> set al' \<subseteq> set al)"
  proof (cases ?fits)
    case True
    with ok show ?thesis by (auto simp: R_def)
  next
    case False
    then have "sds_len s + (len - sds_len s) < 2 ^ 31" using lim by simp
    with ok show ?thesis
      by (cases rule: sdsMakeRoomFor_spec [where al = al]) (use False in \<open>auto simp: R_def\<close>)
  qed
  then consider (null) al' where "R = (None, al')" "None \<in> set al" "set al' \<subseteq> set al"
    | (room) s' al' where "R = (Some s', al')" "sds_ok s'" "len \<le> sds_len s' + sds_free s'" "set al' \<subseteq> set al"
    by blast
  then show ?thesis
  proof cases
    case null
    with R show ?thesis by (simp add: sdscpylen_def Let_def yieldsI_null)
  next
    case room
    then have l: "length (sds_buf s') = sds_len s' + sds_free s' + 1" "sds_len s' + sds_free s' < 2 ^ 32"
      by (auto simp: sds_ok_def)
    let ?b = "(take len t @ drop len (sds_buf s'))[len := NUL]"
    have "sdscpylen s t len al =
        Some (Some \<lparr>sds_len = len, sds_free = sds_len s' + sds_free s' - len, sds_buf = ?b\<rparr>, al')"
      using R room l t lim by (simp add: sdscpylen_def mem_simps sz_sub_eq add.commute)
    moreover have "sds_ok \<lparr>sds_len = len, sds_free = sds_len s' + sds_free s' - len, sds_buf = ?b\<rparr>"
      using l room t by (intro sds_okI) auto
    ultimately show ?thesis using room t by (auto simp: sds_str_def intro!: yieldsI)
  qed
qed

lemma sdsclear_spec:
  assumes "sds_ok s"
  shows "\<exists>s'. sdsclear s = Some s' \<and> sds_ok s' \<and> sds_str s' = [] \<and> sds_free s' = sds_len s + sds_free s"
  using assms by (auto simp: sdsclear_def sds_ok_def sds_str_def mem_simps nth_list_update)

lemma sdsupdatelen_spec:
  assumes ok: "sds_ok s"
  shows "\<exists>s'. sdsupdatelen s = Some s' \<and> sds_ok s' \<and> sds_str s' = takeWhile (\<lambda>c. c \<noteq> NUL) (sds_str s)"
proof -
  let ?b = "sds_buf s"
  let ?n = "cstrlen ?b"
  have l: "sds_len s < length ?b" "?b ! sds_len s = NUL" using ok by (auto simp: sds_ok_def)
  then have mem: "NUL \<in> set ?b" by (metis nth_mem)
  have split: "?b = sds_str s @ NUL # drop (Suc (sds_len s)) ?b"
    using l by (simp add: sds_str_def) (metis id_take_nth_drop)
  have w: "takeWhile (\<lambda>c. c \<noteq> NUL) ?b = takeWhile (\<lambda>c. c \<noteq> NUL) (sds_str s)"
    by (subst split) (rule takeWhile_neq_Cons)
  then have n: "?n \<le> sds_len s"
    using ok length_takeWhile_le [of "\<lambda>c. c \<noteq> NUL" "sds_str s"] by (simp add: cstrlen_def)
  have "?b ! ?n = NUL" using mem unfolding cstrlen_def by (rule nth_takeWhile_neq)
  moreover have "u32_sub (sds_len s) (u32 ?n) = sds_len s - ?n"
    using n ok by (simp add: u32_sub_eq sds_ok_def)
  ultimately show ?thesis
    using ok n mem w
    by (auto simp: sdsupdatelen_def strlen_block_def sds_ok_def sds_str_def take_cstrlen)
qed

section \<open>Cutting\<close>

definition c_slice :: "int \<Rightarrow> int \<Rightarrow> 'a list \<Rightarrow> 'a list" where
  \<comment> \<open>the inclusive slice of the comment before \<open>sdsrange\<close>, negative indexes from the end\<close>
  "c_slice start end xs =
     (let n = int (length xs);
          first = (if start < 0 then max 0 (n + start) else start);
          last = (if end < 0 then max 0 (n + end) else min end (n - 1))
      in if first > last then [] else take (nat (last - first + 1)) (drop (nat first) xs))"

definition strip :: "('a \<Rightarrow> bool) \<Rightarrow> 'a list \<Rightarrow> 'a list" where
  "strip P xs = rev (dropWhile P (rev (dropWhile P xs)))"

lemma cut_ok:
  assumes ok: "sds_ok s" and n: "st + n \<le> sds_len s"
    and b: "b = (if move then take n (drop st (sds_buf s)) @ drop n (sds_buf s) else sds_buf s)"
    and mv: "move \<or> st = 0 \<or> n = 0"
  shows "sds_ok \<lparr>sds_len = n, sds_free = sds_free s + (sds_len s - n), sds_buf = b[n := NUL]\<rparr>"
    and "sds_str \<lparr>sds_len = n, sds_free = sds_free s + (sds_len s - n), sds_buf = b[n := NUL]\<rparr>
           = take n (drop st (sds_str s))"
proof -
  have l: "length b = length (sds_buf s)" using ok n b by (auto simp: sds_ok_def)
  then show "sds_ok \<lparr>sds_len = n, sds_free = sds_free s + (sds_len s - n), sds_buf = b[n := NUL]\<rparr>"
    using ok n by (intro sds_okI) (auto simp: sds_ok_def)
  have "take n b = take n (drop st (sds_str s))"
    using ok n b mv by (auto simp: sds_str_def sds_ok_def drop_take)
  then show "sds_str \<lparr>sds_len = n, sds_free = sds_free s + (sds_len s - n), sds_buf = b[n := NUL]\<rparr>
           = take n (drop st (sds_str s))"
    by (simp add: sds_str_def)
qed

lemma sdsrange_spec:
  assumes ok: "sds_ok s" and small: "sds_len s < 2 ^ 31"
    and start: "- (2 ^ 31) \<le> start" "start < 2 ^ 31" and "end": "- (2 ^ 31) \<le> end" "end < 2 ^ 31"
  shows "\<exists>s'. sdsrange s start end = Some s' \<and> sds_ok s' \<and> sds_str s' = c_slice start end (sds_str s)"
proof (cases "sds_len s = 0")
  case True
  then show ?thesis using ok by (simp add: sdsrange_def sdslen_def c_slice_def sds_str_def Let_def)
next
  case False
  define n where "n = int (sds_len s)"
  define a where "a = (if start < 0 then max 0 (n + start) else start)"
  define e where "e = (if end < 0 then max 0 (n + end) else end)"
  define first where "first = (if a > e \<or> a \<ge> n then 0 else a)"
  define k where "k = (if a > e \<or> a \<ge> n then 0 else min e (n - 1) - a + 1)"
  have n: "0 < n" "n < 2 ^ 31" using False small by (auto simp: n_def)
  have ar: "0 \<le> a" "a < 2 ^ 31" using start n by (auto simp: a_def)
  have er: "0 \<le> e" "e < 2 ^ 31" using "end" n by (auto simp: e_def)
  have k: "0 \<le> k" "0 \<le> first" "k \<noteq> 0 \<longrightarrow> first + k \<le> n" "first + k \<le> n"
    using ar er n by (auto simp: k_def first_def)
  have sa: "(if start < 0 then max 0 (s32 (n + start)) else start) = a"
    using start n by (auto simp: a_def s32_id)
  have se: "(if end < 0 then max 0 (s32 (n + end)) else end) = e"
    using "end" n by (auto simp: e_def s32_id)
  have sn: "s32 n = n" using n by (simp add: s32_id)
  have sn1: "s32 (int (sds_len s - 1)) = n - 1" using n False by (auto simp: n_def s32_id of_nat_diff)
  have wrap: "s32 (e - a + 1) \<noteq> 0" if "a \<le> e"
  proof (cases "e - a + 1 < 2 ^ 31")
    case True
    with that show ?thesis by (simp add: s32_id)
  next
    case False
    with ar er have eq: "e - a + 1 = 2 ^ 31" by simp
    show ?thesis unfolding eq by (simp add: s32_def)
  qed
  have pick: "(if (if a > e then 0 else s32 (e - a + 1)) \<noteq> 0 then
         (if a \<ge> s32 n then (a, 0)
          else if e \<ge> s32 n then (a, if a > s32 (int (sds_len s - 1)) then 0 else s32 (s32 (int (sds_len s - 1)) - a + 1))
          else (a, if a > e then 0 else s32 (e - a + 1)))
       else (0, 0)) = (if a > e then 0 else a, k)"
    using wrap ar er n by (auto simp: k_def sn sn1 [unfolded One_nat_def] s32_id Let_def)
  let ?move = "(if a > e then 0 else a) \<noteq> 0 \<and> k \<noteq> 0"
  define b where "b = (if ?move then take (nat k) (drop (nat first) (sds_buf s)) @ drop (nat k) (sds_buf s)
      else sds_buf s)"
  have lb: "length (sds_buf s) = sds_len s + sds_free s + 1" "sds_len s + sds_free s < 2 ^ 32"
    using ok by (auto simp: sds_ok_def)
  have fk: "nat first + nat k \<le> sds_len s" using k by (simp add: n_def nat_add_distrib [symmetric] nat_le_iff)
  have fa: "?move \<Longrightarrow> (if a > e then 0 else a) = first" by (auto simp: first_def k_def)
  have m: "(if ?move then do { bs \<leftarrow> read_at (nat (if a > e then 0 else a)) (nat k) (sds_buf s); write_at 0 bs (sds_buf s) }
      else Some (sds_buf s)) = Some b"
    using fk fa lb by (auto simp: b_def mem_simps)
  have p: "poke (nat k) NUL b = Some (b[nat k := NUL])" using fk lb by (auto simp: b_def poke_def)
  have fr: "u32 (nat k) = nat k" "u32 (sds_free s + sz_sub (sds_len s) (nat k)) = sds_free s + (sds_len s - nat k)"
    using fk lb by (auto simp: sz_sub_eq)
  have r: "sdsrange s start end = Some \<lparr>sds_len = nat k, sds_free = sds_free s + (sds_len s - nat k),
      sds_buf = b[nat k := NUL]\<rparr>"
    unfolding sdsrange_def sdslen_def Let_def [of "sds_len s"] n_def [symmetric]
    using False by (simp only: if_False sa se Let_def prod.case pick m p fr Option.bind.bind_lunit)
  have mv: "?move \<or> nat first = 0 \<or> nat k = 0" using k by (auto simp: first_def)
  have len: "int (length (sds_str s)) = n" using ok by (simp add: n_def)
  have l: "(if end < 0 then max 0 (n + end) else min end (n - 1)) = min e (n - 1)"
    using n by (auto simp: e_def)
  have "c_slice start end (sds_str s) =
      (if a > min e (n - 1) then [] else take (nat (min e (n - 1) - a + 1)) (drop (nat a) (sds_str s)))"
    unfolding c_slice_def Let_def len l a_def ..
  then have sl: "take (nat k) (drop (nat first) (sds_str s)) = c_slice start end (sds_str s)"
    by (cases "a > e \<or> a \<ge> n") (auto simp: k_def first_def)
  show ?thesis using r cut_ok [OF ok fk b_def mv] unfolding sl by blast
qed

lemma trim_left_eq:
  "sp + n \<le> length m \<Longrightarrow>
     trim_left m cset (int sp) (int (sp + n) - 1)
       = Some (int (sp + length (takeWhile (strchr_has cset) (take n (drop sp m)))))"
proof (induction n arbitrary: sp)
  case 0
  then show ?case by (simp add: trim_left.simps)
next
  case (Suc n)
  then have d: "drop sp m = m ! sp # drop (Suc sp) m" by (simp add: Cons_nth_drop_Suc)
  show ?case
  proof (cases "strchr_has cset (m ! sp)")
    case True
    have "trim_left m cset (int sp) (int (sp + Suc n) - 1) = trim_left m cset (int (Suc sp)) (int (Suc sp + n) - 1)"
      using Suc.prems True by (subst trim_left.simps) (simp add: mem_simps add.commute)
    then show ?thesis using Suc.IH [of "Suc sp"] Suc.prems True by (simp add: d)
  next
    case False
    then show ?thesis using Suc.prems by (subst trim_left.simps) (simp add: mem_simps d)
  qed
qed

lemma trim_right_skip:
  "p + k < length m \<Longrightarrow> \<forall>c \<in> set (take k (drop (Suc p) m)). strchr_has cset c \<Longrightarrow>
     trim_right m cset (int (p + k)) = trim_right m cset (int p)"
proof (induction k)
  case 0
  then show ?case by simp
next
  case (Suc k)
  have "m ! (p + Suc k) \<in> set (take (Suc k) (drop (Suc p) m))"
    using Suc.prems(1) by (auto simp: in_set_conv_nth intro!: exI [of _ k])
  then have "strchr_has cset (m ! (p + Suc k))" using Suc.prems(2) by blast
  then have "trim_right m cset (int (p + Suc k)) = trim_right m cset (int (p + k))"
    using Suc.prems(1) by (subst trim_right.simps) (simp add: mem_simps nat_add_distrib)
  moreover have "\<forall>c \<in> set (take k (drop (Suc p) m)). strchr_has cset c"
    using Suc.prems(2) set_take_subset_set_take [of k "Suc k" "drop (Suc p) m"] by auto
  ultimately show ?case using Suc.IH Suc.prems(1) by simp
qed

lemma trim_right_stop:
  "p < length m \<Longrightarrow> p = 0 \<or> \<not> strchr_has cset (m ! p) \<Longrightarrow> trim_right m cset (int p) = Some (int p)"
  by (subst trim_right.simps) (auto simp: mem_simps)

lemma strip_split:
  assumes "\<exists>x \<in> set xs. \<not> P x"
  obtains A M B where "xs = A @ M @ B" "\<forall>x \<in> set A. P x" "\<forall>x \<in> set B. P x"
    "M \<noteq> []" "\<not> P (hd M)" "\<not> P (last M)" "strip P xs = M"
proof -
  define D where "D = dropWhile P xs"
  define M where "M = strip P xs"
  have "D \<noteq> []" using assms by (auto simp: D_def dropWhile_eq_Nil_conv)
  then have D: "D \<noteq> []" "\<not> P (hd D)" unfolding D_def by (assumption, rule hd_dropWhile)
  have revM: "rev M = dropWhile P (rev D)" by (simp add: M_def strip_def D_def)
  have "\<exists>x \<in> set (rev D). \<not> P x" using D by (auto intro: hd_in_set)
  then have "rev M \<noteq> []" unfolding revM by (simp add: dropWhile_eq_Nil_conv)
  then have M: "rev M \<noteq> []" "\<not> P (hd (rev M))" unfolding revM by (assumption, rule hd_dropWhile)
  define B where "B = rev (takeWhile P (rev D))"
  have "rev D = rev B @ rev M" by (simp add: B_def revM)
  then have DB: "D = M @ B" by (metis rev_append rev_rev_ident)
  show ?thesis
  proof
    show "xs = takeWhile P xs @ M @ B" unfolding DB [symmetric] D_def by simp
    show "\<forall>x \<in> set (takeWhile P xs). P x" by (auto dest: set_takeWhileD)
    show "\<forall>x \<in> set B. P x" by (auto simp: B_def dest: set_takeWhileD)
    show "M \<noteq> []" using M by simp
    then show "\<not> P (hd M)" using D DB by simp
    show "\<not> P (last M)" using M by (simp add: hd_rev)
    show "strip P xs = M" by (simp add: M_def)
  qed
qed

lemma sdstrim_spec:
  assumes ok: "sds_ok s" and small: "sds_len s < 2 ^ 31"
  shows "\<exists>s'. sdstrim s cset = Some s' \<and> sds_ok s' \<and> sds_str s' = strip (strchr_has cset) (sds_str s)"
proof -
  let ?P = "strchr_has cset" and ?b = "sds_buf s" and ?n = "sds_len s"
  have lb: "length ?b = ?n + sds_free s + 1" "?n + sds_free s < 2 ^ 32" using ok by (auto simp: sds_ok_def)
  have tl: "trim_left ?b cset 0 (int ?n - 1) = Some (int (length (takeWhile ?P (sds_str s))))"
    using trim_left_eq [of 0 ?n ?b cset] lb by (simp add: sds_str_def)
  obtain sp ep k where sp: "sp = length (takeWhile ?P (sds_str s))"
    and tr: "trim_right ?b cset (int ?n - 1) = Some ep"
    and k: "k = (if int sp > ep then 0 else nat (ep - int sp + 1))"
    and fits: "sp + k \<le> ?n" and str: "take k (drop sp (sds_str s)) = strip ?P (sds_str s)"
  proof (cases "\<exists>x \<in> set (sds_str s). \<not> ?P x")
    case True
    then obtain A M B where d: "sds_str s = A @ M @ B" "\<forall>x \<in> set A. ?P x" "\<forall>x \<in> set B. ?P x"
      "M \<noteq> []" "\<not> ?P (hd M)" "\<not> ?P (last M)" "strip ?P (sds_str s) = M"
      by (rule strip_split)
    let ?p = "length A + (length M - 1)"
    have n: "?n = length A + length M + length B" using d(1) ok by (metis length_append length_sds_str add.assoc)
    have bs: "take ?n ?b = A @ M @ B" using d(1) by (simp add: sds_str_def)
    have p: "?p + length B = ?n - 1" "Suc ?p = length (A @ M)" "?n \<noteq> 0" using n d(4) by (auto simp: Suc_le_eq)
    have "take (length B) (drop (Suc ?p) ?b) = drop (Suc ?p) (take ?n ?b)"
      using p n by (simp add: drop_take)
    also have "\<dots> = B" using bs p by simp
    finally have "\<forall>c \<in> set (take (length B) (drop (Suc ?p) ?b)). ?P c" using d(3) by simp
    then have "trim_right ?b cset (int (?p + length B)) = trim_right ?b cset (int ?p)"
      using p lb by (intro trim_right_skip) auto
    have "?b ! ?p = (take ?n ?b) ! ?p" using p by simp
    also have "\<dots> = M ! (length M - 1)" unfolding bs nth_append_length_plus
      using d(4) by (simp add: nth_append)
    finally have "?b ! ?p = last M" using d(4) by (simp add: last_conv_nth)
    then have "trim_right ?b cset (int ?p) = Some (int ?p)" using d(6) p lb by (intro trim_right_stop) auto
    with \<open>trim_right ?b cset (int (?p + length B)) = trim_right ?b cset (int ?p)\<close>
    have tr: "trim_right ?b cset (int ?n - 1) = Some (int ?p)"
      unfolding p(1) using p by (simp add: of_nat_diff)
    have tw: "takeWhile ?P (sds_str s) = A" using d by (cases M) (auto simp: takeWhile_append2)
    have gt: "\<not> int (length A) > int ?p" using d(4) by (cases M) auto
    have kk: "nat (int ?p - int (length A) + 1) = length M" using d(4) by (cases M) auto
    show ?thesis
      using tr by (intro that [of "length A" "int ?p" "length M"]) (use gt kk n tw d in auto)
  next
    case False
    then have all: "\<forall>x \<in> set (sds_str s). ?P x" by blast
    show ?thesis
    proof (cases "?n = 0")
      case True
      then show ?thesis
        by (intro that [of 0 "- 1" 0]) (auto simp: trim_right.simps sds_str_def strip_def)
    next
      case n: False
      have "take (?n - 1) (drop (Suc 0) ?b) = drop (Suc 0) (take ?n ?b)" using n by (simp add: drop_take)
      then have "\<forall>c \<in> set (take (?n - 1) (drop (Suc 0) ?b)). ?P c"
        using all by (auto simp: sds_str_def dest: in_set_dropD)
      then have "trim_right ?b cset (int (0 + (?n - 1))) = trim_right ?b cset (int 0)"
        using lb by (intro trim_right_skip) auto
      moreover have "trim_right ?b cset (int 0) = Some 0" by (simp add: trim_right.simps)
      ultimately have "trim_right ?b cset (int ?n - 1) = Some 0" using n by (simp add: of_nat_diff)
      moreover have "length (takeWhile ?P (sds_str s)) = length (sds_str s)" using all by (simp add: takeWhile_eq_all_conv [THEN iffD2])
      moreover have "strip ?P (sds_str s) = []" using all by (simp add: strip_def dropWhile_eq_Nil_conv [THEN iffD2])
      ultimately show ?thesis using ok n by (intro that [of ?n 0 0]) auto
    qed
  qed
  let ?move = "int sp \<noteq> 0"
  define b where "b = (if ?move then take k (drop sp ?b) @ drop k ?b else ?b)"
  have len: "(if int sp > ep then 0 else nat (ep - int sp + 1)) = k" using k by simp
  have m: "(if int sp \<noteq> 0 then do { bs \<leftarrow> read_at (nat (int sp)) k ?b; write_at 0 bs ?b } else Some ?b) = Some b"
    using fits lb by (auto simp: b_def mem_simps)
  have pk: "poke k NUL b = Some (b[k := NUL])" using fits lb by (auto simp: b_def poke_def)
  have fr: "u32 k = k" "u32 (sds_free s + sz_sub ?n k) = sds_free s + (?n - k)"
    using fits lb by (auto simp: sz_sub_eq)
  have "sdstrim s cset = Some \<lparr>sds_len = k, sds_free = sds_free s + (?n - k), sds_buf = b[k := NUL]\<rparr>"
    unfolding sdstrim_def sdslen_def Let_def
    by (simp only: tl sp [symmetric] tr Option.bind.bind_lunit len m pk fr)
  moreover have "?move \<or> sp = 0 \<or> k = 0" by auto
  ultimately show ?thesis using cut_ok [OF ok fits b_def] unfolding str by blast
qed

subsection \<open>Character-wise changes\<close>

lemma map_loop_eq:
  assumes "\<And>c. f c = Some (g c)"
  shows "j + n \<le> length m \<Longrightarrow>
     map_loop f j (j + n) m = Some (take j m @ map g (take n (drop j m)) @ drop (j + n) m)"
proof (induction n arbitrary: j m)
  case 0
  then show ?case by (simp add: map_loop.simps)
next
  case (Suc n)
  then have j: "j < length m" by simp
  have "map_loop f j (j + Suc n) m = map_loop f (Suc j) (Suc j + n) (m[j := g (m ! j)])"
    using j assms by (subst map_loop.simps) (simp add: mem_simps)
  also have "\<dots> = Some (take (Suc j) (m[j := g (m ! j)])
      @ map g (take n (drop (Suc j) (m[j := g (m ! j)]))) @ drop (Suc j + n) (m[j := g (m ! j)]))"
    using Suc.prems Suc.IH [of "Suc j" "m[j := g (m ! j)]"] by simp
  also have "\<dots> = Some (take j m @ map g (take (Suc n) (drop j m)) @ drop (j + Suc n) m)"
    using j by (simp add: take_Suc_conv_app_nth Cons_nth_drop_Suc [symmetric])
  finally show ?case .
qed

lemma map_loop_sds:
  assumes ok: "sds_ok s" and f: "\<And>c. f c = Some (g c)"
  shows "\<exists>b. map_loop f 0 (sdslen s) (sds_buf s) = Some b \<and> sds_ok (s\<lparr>sds_buf := b\<rparr>)
     \<and> sds_str (s\<lparr>sds_buf := b\<rparr>) = map g (sds_str s)"
proof -
  let ?b = "map g (take (sds_len s) (sds_buf s)) @ drop (sds_len s) (sds_buf s)"
  have "map_loop f 0 (sdslen s) (sds_buf s) = Some ?b"
    using map_loop_eq [of f g 0 "sds_len s" "sds_buf s"] f ok by (simp add: sdslen_def sds_ok_def)
  moreover have "sds_ok (s\<lparr>sds_buf := ?b\<rparr>)" using ok by (simp add: sds_ok_def nth_append)
  moreover have "sds_str (s\<lparr>sds_buf := ?b\<rparr>) = map g (sds_str s)" using ok by (simp add: sds_str_def sds_ok_def)
  ultimately show ?thesis by blast
qed

lemma sdstolower_spec:
  "sds_ok s \<Longrightarrow> \<exists>s'. sdstolower s = Some s' \<and> sds_ok s' \<and> sds_str s' = map tolower_c (sds_str s)"
  using map_loop_sds [of s "Some \<circ> tolower_c" tolower_c] by (auto simp: sdstolower_def)

lemma sdstoupper_spec:
  "sds_ok s \<Longrightarrow> \<exists>s'. sdstoupper s = Some s' \<and> sds_ok s' \<and> sds_str s' = map toupper_c (sds_str s)"
  using map_loop_sds [of s "Some \<circ> toupper_c" toupper_c] by (auto simp: sdstoupper_def)

definition subst_of :: "char list \<Rightarrow> char list \<Rightarrow> char \<Rightarrow> char" where
  "subst_of from to c = (case map_of (zip from to) c of Some d \<Rightarrow> d | None \<Rightarrow> c)"

lemma subst_char_eq:
  "i + n \<le> length from \<Longrightarrow> i + n \<le> length to \<Longrightarrow>
     subst_char from to i (i + n) c = Some (subst_of (take n (drop i from)) (take n (drop i to)) c)"
proof (induction n arbitrary: i)
  case 0
  then show ?case by (simp add: subst_char.simps subst_of_def)
next
  case (Suc n)
  then have d: "drop i from = from ! i # drop (Suc i) from" "drop i to = to ! i # drop (Suc i) to"
    by (simp_all add: Cons_nth_drop_Suc)
  show ?case using Suc.IH [of "Suc i"] Suc.prems
    by (subst subst_char.simps) (auto simp: mem_simps d subst_of_def)
qed

lemma sdsmapchars_spec:
  assumes "sds_ok s" "n \<le> length from" "n \<le> length to"
  shows "\<exists>s'. sdsmapchars s from to n = Some s' \<and> sds_ok s'
      \<and> sds_str s' = map (subst_of (take n from) (take n to)) (sds_str s)"
  using map_loop_sds [of s "subst_char from to 0 n" "subst_of (take n from) (take n to)"]
    subst_char_eq [of 0 n "from" to] assms by (auto simp: sdsmapchars_def)

subsection \<open>Comparison\<close>

abbreviation byte_order :: "(char \<times> char) set" where
  "byte_order \<equiv> {(c, d). code c < code d}"

lemma memcmp_lexord:
  "\<exists>c. memcmp (a @ x) (b @ y) (min (length a) (length b)) = Some c \<and> -1 \<le> c \<and> c \<le> 1
     \<and> (let r = (if c = 0 then int (length a) - int (length b) else c)
        in (r < 0 \<longleftrightarrow> (a, b) \<in> lexord byte_order) \<and> (r = 0 \<longleftrightarrow> a = b))"
proof (induction a arbitrary: b)
  case Nil
  then show ?case by (cases b) auto
next
  case (Cons u a)
  show ?case
  proof (cases b)
    case Nil
    then show ?thesis by simp
  next
    case b: (Cons v b')
    consider "code u < code v" | "code v < code u" | "u = v" by (metis code_inj linorder_neqE_nat)
    then show ?thesis
    proof cases
      case 3
      obtain c where c: "memcmp (a @ x) (b' @ y) (min (length a) (length b')) = Some c" "-1 \<le> c" "c \<le> 1"
        and r: "let r = (if c = 0 then int (length a) - int (length b') else c)
          in (r < 0 \<longleftrightarrow> (a, b') \<in> lexord byte_order) \<and> (r = 0 \<longleftrightarrow> a = b')"
        using Cons.IH [of b'] by blast
      have "memcmp ((u # a) @ x) (b @ y) (min (length (u # a)) (length b)) = Some c"
        using c b 3 by simp
      then show ?thesis using c r b 3 by (intro exI [of _ c]) (cases "c = 0"; simp add: Let_def)
    qed (auto simp: b Let_def)
  qed
qed

lemma sdscmp_spec:
  assumes "sds_ok s1" "sds_ok s2" "sds_len s1 < 2 ^ 31" "sds_len s2 < 2 ^ 31"
  shows "\<exists>r. sdscmp s1 s2 = Some r \<and> (r < 0 \<longleftrightarrow> (sds_str s1, sds_str s2) \<in> lexord byte_order)
     \<and> (r = 0 \<longleftrightarrow> sds_str s1 = sds_str s2)"
proof -
  let ?n = "min (sds_len s1) (sds_len s2)"
  have l: "length (sds_str s1) = sds_len s1" "length (sds_str s2) = sds_len s2" using assms by auto
  have b: "sds_buf s = sds_str s @ drop (sds_len s) (sds_buf s)" for s by (simp add: sds_str_def)
  obtain c where c: "memcmp (sds_buf s1) (sds_buf s2) ?n = Some c" "-1 \<le> c" "c \<le> 1"
    and r: "let r = (if c = 0 then int (sds_len s1) - int (sds_len s2) else c)
        in (r < 0 \<longleftrightarrow> (sds_str s1, sds_str s2) \<in> lexord byte_order) \<and> (r = 0 \<longleftrightarrow> sds_str s1 = sds_str s2)"
    using memcmp_lexord [of "sds_str s1" "drop (sds_len s1) (sds_buf s1)" "sds_str s2" "drop (sds_len s2) (sds_buf s2)"]
    unfolding l b [symmetric] by blast
  have mn: "(if sds_len s1 < sds_len s2 then sds_len s1 else sds_len s2) = ?n" by simp
  have d: "s32 (int (sz_sub (sds_len s1) (sds_len s2))) = int (sds_len s1) - int (sds_len s2)"
  proof (cases "sds_len s2 \<le> sds_len s1")
    case True
    then show ?thesis using assms by (simp add: sz_sub_eq of_nat_diff s32_id)
  next
    case False
    then have "sz_sub (sds_len s1) (sds_len s2) = 2 ^ 64 - (sds_len s2 - sds_len s1)"
      using assms by (simp add: sz_sub_def u64_def)
    then have "int (sz_sub (sds_len s1) (sds_len s2)) + 2 ^ 31
        = (int (sds_len s1) - int (sds_len s2) + 2 ^ 31) + 2 ^ 32 * 2 ^ 32"
      using False assms by (simp add: of_nat_diff)
    then have "s32 (int (sz_sub (sds_len s1) (sds_len s2)))
        = (int (sds_len s1) - int (sds_len s2) + 2 ^ 31) mod 2 ^ 32 - 2 ^ 31"
      unfolding s32_def by (simp only: mod_mult_self2)
    then show ?thesis using False assms by (simp add: s32_def [symmetric] s32_id)
  qed
  have "sdscmp s1 s2 = Some (if c = 0 then int (sds_len s1) - int (sds_len s2) else c)"
    unfolding sdscmp_def sdslen_def Let_def mn by (simp add: c d)
  then show ?thesis using r by (simp add: Let_def)
qed

subsection \<open>Moving the end by hand\<close>

lemma sdsIncrLen_spec:
  assumes ok: "sds_ok s" and r: "- int (sds_len s) \<le> incr" "incr \<le> int (sds_free s)"
  shows "\<exists>s'. sdsIncrLen s incr = Some s' \<and> sds_ok s' \<and> int (sds_len s') = int (sds_len s) + incr
     \<and> sds_str s' = take (nat (int (sds_len s) + incr)) (sds_buf s)"
proof -
  define l where "l = nat (int (sds_len s) + incr)"
  define f where "f = nat (int (sds_free s) - incr)"
  have lf: "l + f = sds_len s + sds_free s" "int l = int (sds_len s) + incr" "int f = int (sds_free s) - incr"
    using r by (auto simp: l_def f_def nat_add_distrib [symmetric])
  have b: "sds_len s + sds_free s < 2 ^ 32" "length (sds_buf s) = l + f + 1" using ok lf by (auto simp: sds_ok_def)
  have "l < 2 ^ 32" "f < 2 ^ 32" using b lf(1) by auto
  then have m: "nat ((int (sds_len s) + incr) mod 2 ^ 32) = l" "nat ((int (sds_free s) - incr) mod 2 ^ 32) = f"
    unfolding lf(2,3) [symmetric] by simp_all
  have q: "(if incr \<ge> 0 then int (sds_free s) \<ge> incr else int (sds_len s) \<ge> (- incr) mod 2 ^ 32) = True"
    using r b by auto
  have "sdsIncrLen s incr = Some \<lparr>sds_len = l, sds_free = f, sds_buf = (sds_buf s)[l := NUL]\<rparr>"
    unfolding sdsIncrLen_def Let_def m using b by (simp only: q require_simps Option.bind.bind_lunit) (simp add: mem_simps)
  moreover have "sds_ok \<lparr>sds_len = l, sds_free = f, sds_buf = (sds_buf s)[l := NUL]\<rparr>"
    using b lf by (intro sds_okI) auto
  ultimately show ?thesis using lf by (auto simp: sds_str_def l_def)
qed

section \<open>Appending as an interface\<close>

text \<open>
  What the formatters rely on: an operation \<open>app\<close> that appends bytes to a text or reports NULL,
  the latter only if memory is low. \<open>app_all\<close> is the shape of their loops, which never test an
  intermediate result for NULL.
\<close>

locale byte_appender =
  fixes app :: "'s \<Rightarrow> string \<Rightarrow> 'e \<Rightarrow> ('s option \<times> 'e) option"
    and good :: "'s \<Rightarrow> bool" and str :: "'s \<Rightarrow> string" and low :: "'e \<Rightarrow> bool" and limit :: nat
  assumes app_result: "good s \<Longrightarrow> length (str s) + length x < limit \<Longrightarrow>
      \<exists>r e'. app s x e = Some (r, e') \<and> (low e' \<longrightarrow> low e)
        \<and> (case r of None \<Rightarrow> low e | Some s' \<Rightarrow> good s' \<and> str s' = str s @ x)"
begin

lemma app_ok:
  assumes "good s" "length (str s) + length x < limit" "\<not> low e"
  obtains s' e' where "app s x e = Some (Some s', e')" "good s'" "str s' = str s @ x" "\<not> low e'"
  using app_result [OF assms(1,2), of e] assms(3) by (force split: option.splits)

fun app_all :: "'s option \<Rightarrow> string list \<Rightarrow> 'e \<Rightarrow> ('s option \<times> 'e) option" where
  "app_all s [] e = Some (s, e)"
| "app_all s (x # xs) e =
     (case s of None \<Rightarrow> None
      | Some s \<Rightarrow> (case app s x e of None \<Rightarrow> None | Some (s', e') \<Rightarrow> app_all s' xs e'))"

lemma app_all_append:
  "app_all s (xs @ ys) e = (case app_all s xs e of None \<Rightarrow> None | Some (s', e') \<Rightarrow> app_all s' ys e')"
  by (induction s xs e rule: app_all.induct) (auto split: option.splits)

lemma app_all_ok:
  assumes "good s" "length (str s) + length (concat xs) < limit" "\<not> low e"
  obtains s' e' where "app_all (Some s) xs e = Some (Some s', e')" "good s'" "str s' = str s @ concat xs" "\<not> low e'"
proof -
  have "\<exists>s' e'. app_all (Some s) xs e = Some (Some s', e') \<and> good s' \<and> str s' = str s @ concat xs \<and> \<not> low e'"
    using assms
  proof (induction xs arbitrary: s e)
    case Nil
    then show ?case by simp
  next
    case (Cons x xs)
    then have "length (str s) + length x < limit" by simp
    then obtain s1 e1 where 1: "app s x e = Some (Some s1, e1)" "good s1" "str s1 = str s @ x" "\<not> low e1"
      using app_ok [of s x e] Cons.prems(1,3) by blast
    then show ?case using Cons.IH [of s1 e1] Cons.prems(2) by auto
  qed
  then show ?thesis using that by blast
qed

text \<open>When memory is short the loop is cut: it is at a fault, or has NULL, never at a wrong text.\<close>

lemma app_all_cut:
  assumes "good s" "length (str s) + length (concat xs) < limit"
  shows "case app_all (Some s) xs e of None \<Rightarrow> low e
      | Some (None, e') \<Rightarrow> low e | Some (Some s', e') \<Rightarrow> good s' \<and> str s' = str s @ concat xs"
  using assms
proof (induction xs arbitrary: s e)
  case Nil
  then show ?case by simp
next
  case (Cons x xs)
  then obtain r e1 where 1: "app s x e = Some (r, e1)" "low e1 \<longrightarrow> low e"
      "case r of None \<Rightarrow> low e | Some s' \<Rightarrow> good s' \<and> str s' = str s @ x"
    using app_result [of s x e] by auto
  show ?case
  proof (cases r)
    case None
    then show ?thesis using 1 by (cases xs) auto
  next
    case (Some s1)
    then show ?thesis using 1 Cons.IH [of s1 e1] Cons.prems(2) by (auto split: option.splits)
  qed
qed

end

abbreviation sds_app :: "sdshdr \<Rightarrow> string \<Rightarrow> allocs \<Rightarrow> (sds \<times> allocs) option" where
  "sds_app s x al \<equiv> sdscatlen (Some s) x (length x) al"

interpretation sb: byte_appender sds_app sds_ok sds_str "\<lambda>al. None \<in> set al" "2 ^ 31"
proof (unfold_locales, goal_cases)
  case (1 s x e)
  then have "yields e (sds_app s x e) (sds_str s @ take (length x) x)"
    by (intro sdscatlen_yields) auto
  then show ?case by (cases rule: yieldsE) auto
qed

lemma sdscatlen_take:
  assumes "n \<le> length t"
  shows "sdscatlen (Some s) t n al = sds_app s (take n t) al"
proof -
  have "read_at 0 n t = read_at 0 n (take n t)" using assms by (simp add: read_at_def)
  moreover have "length (take n t) = n" using assms by simp
  ultimately show ?thesis unfolding sdscatlen_def by (simp only: Option.bind.bind_lunit)
qed

lemma sdscat_app: "sdscat (Some s) t al = sds_app s (takeWhile (\<lambda>c. c \<noteq> NUL) t) al"
  using sdscatlen_take [of "cstrlen t" "t @ [NUL]"] cstrlen_le [of t]
  by (simp add: sdscat_def take_cstrlen) 

lemma sdscat_None [simp]: "sdscat None t al = None" "sdscatlen None t n al = None"
  by (simp_all add: sdscat_def sdscatlen_def)

lemma yields_ok:
  assumes "yields al res x" "None \<notin> set al"
  obtains h al' where "res = Some (Some h, al')" "sds_ok h" "sds_str h = x" "None \<notin> set al'"
  using assms(1) by (cases rule: yieldsE) (use assms(2) that in auto)

section \<open>Properties\<close>

text \<open>
  C6: appending to a string never leaves its block: \<open>sdscatlen\<close> returns a well-formed string that
  holds the old content followed by the given bytes, or NULL, and NULL only when an allocation
  failed.
\<close>
theorem sdscatlen_appends:
  assumes "sds_ok s" "sds_len s + len < 2 ^ 31" "len \<le> length t"
  shows "\<exists>r al'. sdscatlen (Some s) t len al = Some (r, al')
    \<and> (case r of None \<Rightarrow> None \<in> set al | Some h \<Rightarrow> sds_ok h \<and> sds_str h = sds_str s @ take len t)"
  using sdscatlen_yields [OF assms, of al] by (auto simp: yields_def)

theorem sdscatlen_appends_witness:
  "\<exists>r al'. sdscatlen (Some \<lparr>sds_len = 2, sds_free = 0, sds_buf = ''ab'' @ [NUL]\<rparr>) ''cd'' 2 [Some (\<lambda>i. CHR ''?'')] = Some (r, al')
    \<and> (case r of None \<Rightarrow> False | Some h \<Rightarrow> sds_ok h \<and> sds_str h = ''abcd'')"
  using sdscatlen_appends [of "\<lparr>sds_len = 2, sds_free = 0, sds_buf = ''ab'' @ [NUL]\<rparr>" 2 "''cd''" "[Some (\<lambda>i. CHR ''?'')]"]
  by (fastforce simp: sds_ok_def sds_str_def split: option.splits)

text \<open>
  C7: \<open>sdsrange\<close> keeps exactly the inclusive slice that its comment describes, negative indexes
  counted from the end and clipped at both ends, for every pair of \<open>int\<close> arguments, and
  stays inside the block.
\<close>
theorem sdsrange_slices:
  assumes "sds_ok s" "sds_len s < 2 ^ 31"
    and "- (2 ^ 31) \<le> start" "start < 2 ^ 31" "- (2 ^ 31) \<le> end" "end < 2 ^ 31"
  shows "\<exists>s'. sdsrange s start end = Some s' \<and> sds_ok s' \<and> sds_str s' = c_slice start end (sds_str s)"
  using assms by (rule sdsrange_spec)

theorem sdsrange_slices_witness:
  "\<exists>s'. sdsrange \<lparr>sds_len = 5, sds_free = 0, sds_buf = ''Hello'' @ [NUL]\<rparr> 1 (-2) = Some s' \<and> sds_ok s' \<and> sds_str s' = ''ell''"
  using sdsrange_slices [of "\<lparr>sds_len = 5, sds_free = 0, sds_buf = ''Hello'' @ [NUL]\<rparr>" 1 "-2"]
  by (simp add: sds_ok_def sds_str_def c_slice_def)

text \<open>
  C8: \<open>sdstrim\<close> removes the longest prefix and the longest suffix made of the given characters,
  and nothing else.
\<close>
theorem sdstrim_strips:
  assumes "sds_ok s" "sds_len s < 2 ^ 31"
  shows "\<exists>s'. sdstrim s cset = Some s' \<and> sds_ok s' \<and> sds_str s' = strip (strchr_has cset) (sds_str s)"
  using assms by (rule sdstrim_spec)

theorem sdstrim_strips_witness:
  "\<exists>s'. sdstrim \<lparr>sds_len = 4, sds_free = 1, sds_buf = ''.aA.'' @ [NUL, NUL]\<rparr> ''A.'' = Some s' \<and> sds_ok s' \<and> sds_str s' = ''a''"
  using sdstrim_strips [of "\<lparr>sds_len = 4, sds_free = 1, sds_buf = ''.aA.'' @ [NUL, NUL]\<rparr>" "''A.''"]
  by (simp add: sds_ok_def sds_str_def strip_def strchr_has_def nth_append)

text \<open>
  C9: the sign of \<open>sdscmp\<close> is the lexicographic order of the two byte strings, a proper prefix
  being smaller, and it is zero for equal strings only.
\<close>
theorem sdscmp_orders:
  assumes "sds_ok s1" "sds_ok s2" "sds_len s1 < 2 ^ 31" "sds_len s2 < 2 ^ 31"
  shows "\<exists>r. sdscmp s1 s2 = Some r
     \<and> (r < 0 \<longleftrightarrow> (sds_str s1, sds_str s2) \<in> lexord {(c, d). code c < code d}) \<and> (r = 0 \<longleftrightarrow> sds_str s1 = sds_str s2)"
  using assms by (rule sdscmp_spec)

theorem sdscmp_orders_witness:
  "\<exists>r. sdscmp \<lparr>sds_len = 2, sds_free = 0, sds_buf = ''ab'' @ [NUL]\<rparr> \<lparr>sds_len = 1, sds_free = 0, sds_buf = ''b'' @ [NUL]\<rparr> = Some r
     \<and> r < 0"
  using sdscmp_orders [of "\<lparr>sds_len = 2, sds_free = 0, sds_buf = ''ab'' @ [NUL]\<rparr>" "\<lparr>sds_len = 1, sds_free = 0, sds_buf = ''b'' @ [NUL]\<rparr>"]
  by (auto simp: sds_ok_def sds_str_def code_def)

end
