(* ===== verification/SdsText.thy ===== *)
theory SdsText
  imports Sds "HOL-Library.Sublist"
begin

text \<open>
  Dynamic strings, second part: the conversions, formatters and parsers of \<open>sds.c\<close>. A C string
  argument is the list of its characters, its block that list and a terminator; a pointer that
  walks over a C string is the rest of its block, so that \<open>*(p+k)\<close> is \<open>rd p k\<close> and running
  past the block is a fault.
\<close>

section \<open>Numbers\<close>

definition SDS_LLSTR_SIZE :: nat where
  "SDS_LLSTR_SIZE = 21"

function put_digits :: "char list \<Rightarrow> nat \<Rightarrow> 64 word \<Rightarrow> (char list \<times> nat) option" where
  \<comment> \<open>\<open>do { *p++ = '0'+(v%10); v /= 10; } while(v)\<close>\<close>
  "put_digits m p v =
     (case poke p (digit_char (unat (v mod 10))) m of None \<Rightarrow> None
      | Some m' \<Rightarrow> if v div 10 \<noteq> 0 then put_digits m' (p + 1) (v div 10) else Some (m', p + 1))"
  by pat_completeness auto
termination
proof (relation "measure (\<lambda>(m, p, v). unat v)", goal_cases)
  case (2 m p v m')
  then have "unat v \<noteq> 0" by (auto simp: unat_eq_zero)
  then show ?case by (simp add: unat_div)
qed simp

function swap_loop :: "nat \<Rightarrow> nat \<Rightarrow> char list \<Rightarrow> char list option" where
  \<comment> \<open>\<open>while (s < p) { aux = *s; *s = *p; *p = aux; s++; p--; }\<close>\<close>
  "swap_loop s p m =
     (if s < p then
        (case rd m s of None \<Rightarrow> None | Some aux \<Rightarrow>
        (case rd m p of None \<Rightarrow> None | Some c \<Rightarrow>
        (case poke s c m of None \<Rightarrow> None | Some m1 \<Rightarrow>
        (case poke p aux m1 of None \<Rightarrow> None | Some m2 \<Rightarrow> swap_loop (s + 1) (p - 1) m2))))
      else Some m)"
  by pat_completeness auto
termination
  by (relation "measure (\<lambda>(s, p, m). p)") auto

declare put_digits.simps [simp del] swap_loop.simps [simp del]

definition sdsll2str :: "char list \<Rightarrow> 64 word \<Rightarrow> (char list \<times> nat) option" where
  \<comment> \<open>the negation wraps around, as the compilers of the project do it\<close>
  "sdsll2str m value = do {
     let v = (if value <s 0 then - value else value);
     (m, p) \<leftarrow> put_digits m 0 v;
     (m, p) \<leftarrow> (if value <s 0 then do { m \<leftarrow> poke p (CHR ''-'') m; Some (m, p + 1) } else Some (m, p));
     let l = p;
     m \<leftarrow> poke p NUL m;
     m \<leftarrow> swap_loop 0 (p - 1) m;
     Some (m, l)
   }"

definition sdsull2str :: "char list \<Rightarrow> 64 word \<Rightarrow> (char list \<times> nat) option" where
  "sdsull2str m v = do {
     (m, p) \<leftarrow> put_digits m 0 v;
     let l = p;
     m \<leftarrow> poke p NUL m;
     m \<leftarrow> swap_loop 0 (p - 1) m;
     Some (m, l)
   }"

definition llstr_buf :: "char list" where
  \<comment> \<open>\<open>char buf[SDS_LLSTR_SIZE]\<close>\<close>
  "llstr_buf = replicate SDS_LLSTR_SIZE (CHR 0xCC)"

definition sdsfromlonglong :: "64 word \<Rightarrow> allocs \<Rightarrow> (sds \<times> allocs) option" where
  "sdsfromlonglong value al = do {
     (buf, len) \<leftarrow> sdsll2str llstr_buf value;
     sdsnewlen (Some buf) len al
   }"

section \<open>Formatted output\<close>

definition vsnprintf :: "char list \<Rightarrow> nat \<Rightarrow> string \<Rightarrow> char list option" where
  \<comment> \<open>\<open>out\<close> is the text that the format and its arguments stand for\<close>
  "vsnprintf buf n out =
     (if n = 0 then Some buf else write_at 0 (take (n - 1) out @ [NUL]) buf)"

function vprintf_loop :: "char list \<Rightarrow> nat \<Rightarrow> string \<Rightarrow> allocs \<Rightarrow> (char list option \<times> allocs) option" where
  \<comment> \<open>the \<open>while(1)\<close> of \<open>sdscatvprintf\<close>; a buffer of \<open>2 ^ 62\<close> bytes is more than there is\<close>
  "vprintf_loop buf buflen out al =
     (if buflen < 2 \<or> 2 ^ 62 \<le> buflen then None else
      (case poke (buflen - 2) NUL buf of None \<Rightarrow> None
       | Some b1 \<Rightarrow> (case vsnprintf b1 buflen out of None \<Rightarrow> None
       | Some b2 \<Rightarrow> (case rd b2 (buflen - 2) of None \<Rightarrow> None
       | Some c \<Rightarrow> if c \<noteq> NUL then
             (case malloc_bytes (buflen * 2) al of
                (None, al') \<Rightarrow> Some (None, al')
              | (Some b, al') \<Rightarrow> vprintf_loop b (buflen * 2) out al')
           else Some (Some b2, al)))))"
  by pat_completeness auto
termination
  by (relation "measure (\<lambda>(buf, buflen, out, al). 2 ^ 62 - buflen)") auto

declare vprintf_loop.simps [simp del]

definition sdscatvprintf :: "sds \<Rightarrow> string \<Rightarrow> string \<Rightarrow> allocs \<Rightarrow> (sds \<times> allocs) option" where
  "sdscatvprintf s fmt out al =
     (let buflen = cstrlen fmt * 2 in
      case (if buflen > 1024 then
              (case malloc_bytes buflen al of (b, al') \<Rightarrow> (b, buflen, al'))
            else (Some (replicate 1024 (CHR 0xCC)), 1024, al)) of
        (None, _, al') \<Rightarrow> Some (None, al')
      | (Some buf, buflen, al') \<Rightarrow> do {
          (b, al2) \<leftarrow> vprintf_loop buf buflen out al';
          (case b of
             None \<Rightarrow> Some (None, al2)
           | Some b \<Rightarrow> sdscat s (takeWhile (\<lambda>c. c \<noteq> NUL) b) al2)
        })"

definition sdscatprintf :: "sds \<Rightarrow> string \<Rightarrow> string \<Rightarrow> allocs \<Rightarrow> (sds \<times> allocs) option" where
  "sdscatprintf s fmt out al = sdscatvprintf s fmt out al"

datatype fmt_arg =
    FStr string        \<comment> \<open>\<open>char *\<close>\<close>
  | FSds sdshdr        \<comment> \<open>\<open>sds\<close>\<close>
  | FInt "32 word"     \<comment> \<open>\<open>int\<close> or \<open>unsigned int\<close>\<close>
  | FLong "64 word"    \<comment> \<open>\<open>PORT_LONGLONG\<close> or \<open>PORT_ULONGLONG\<close>\<close>

definition idx :: "int \<Rightarrow> nat option" where
  \<comment> \<open>a position before the block is outside it\<close>
  "idx i = (if i < 0 then None else Some (nat i))"

definition catfmt_room :: "sdshdr \<Rightarrow> nat \<Rightarrow> allocs \<Rightarrow> (sdshdr \<times> allocs) option" where
  \<comment> \<open>\<open>s = sdsMakeRoomFor(s,l); sh = ...\<close>: the result is used without a test for NULL\<close>
  "catfmt_room s l al =
     (case sdsMakeRoomFor s l al of (None, _) \<Rightarrow> None | (Some s', al') \<Rightarrow> Some (s', al'))"

definition catfmt_bytes ::
  "sdshdr \<Rightarrow> int \<Rightarrow> char list \<Rightarrow> nat \<Rightarrow> allocs \<Rightarrow> (sdshdr \<times> int \<times> allocs) option" where
  "catfmt_bytes s i str l al = do {
     (s, al) \<leftarrow> (if sds_free s < l then catfmt_room s l al else Some (s, al));
     k \<leftarrow> idx i;
     bs \<leftarrow> read_at 0 l str;
     b \<leftarrow> write_at k bs (sds_buf s);
     Some (\<lparr>sds_len = u32 (sds_len s + l), sds_free = u32_sub (sds_free s) l, sds_buf = b\<rparr>,
           s32 (i + int l), al)
   }"

definition catfmt_char :: "sdshdr \<Rightarrow> int \<Rightarrow> char \<Rightarrow> (sdshdr \<times> int) option" where
  "catfmt_char s i c = do {
     k \<leftarrow> idx i;
     b \<leftarrow> poke k c (sds_buf s);
     Some (\<lparr>sds_len = u32 (sds_len s + 1), sds_free = u32_sub (sds_free s) 1, sds_buf = b\<rparr>,
           s32 (i + 1))
   }"

definition catfmt_spec ::
  "sdshdr \<Rightarrow> int \<Rightarrow> char \<Rightarrow> fmt_arg list \<Rightarrow> allocs \<Rightarrow> (sdshdr \<times> int \<times> fmt_arg list \<times> allocs) option" where
  \<comment> \<open>one conversion, \<open>nxt\<close> the character after \<open>%\<close>; \<open>va_arg\<close> of another type is a fault\<close>
  "catfmt_spec s i nxt args al =
     (if nxt = CHR ''s'' \<or> nxt = CHR ''S'' then
        (case args of
           FStr t # rest \<Rightarrow> if nxt = CHR ''s''
             then do { (s, i, al) \<leftarrow> catfmt_bytes s i (t @ [NUL]) (u32 (cstrlen t)) al; Some (s, i, rest, al) }
             else None
         | FSds t # rest \<Rightarrow> if nxt = CHR ''S''
             then do { (s, i, al) \<leftarrow> catfmt_bytes s i (sds_buf t) (u32 (sdslen t)) al; Some (s, i, rest, al) }
             else None
         | _ \<Rightarrow> None)
      else if nxt = CHR ''i'' \<or> nxt = CHR ''I'' then do {
        (num, rest) \<leftarrow> (case args of
             FInt w # rest \<Rightarrow> if nxt = CHR ''i'' then Some (scast w :: 64 word, rest) else None
           | FLong w # rest \<Rightarrow> if nxt = CHR ''I'' then Some (w, rest) else None
           | _ \<Rightarrow> None);
        (buf, l) \<leftarrow> sdsll2str llstr_buf num;
        (s, i, al) \<leftarrow> catfmt_bytes s i buf l al;
        Some (s, i, rest, al)
      }
      else if nxt = CHR ''u'' \<or> nxt = CHR ''U'' then do {
        (unum, rest) \<leftarrow> (case args of
             FInt w # rest \<Rightarrow> if nxt = CHR ''u'' then Some (ucast w :: 64 word, rest) else None
           | FLong w # rest \<Rightarrow> if nxt = CHR ''U'' then Some (w, rest) else None
           | _ \<Rightarrow> None);
        (buf, l) \<leftarrow> sdsull2str llstr_buf unum;
        (s, i, al) \<leftarrow> catfmt_bytes s i buf l al;
        Some (s, i, rest, al)
      }
      else do { (s, i) \<leftarrow> catfmt_char s i nxt; Some (s, i, args, al) })"

function catfmt_loop ::
  "char list \<Rightarrow> sdshdr \<Rightarrow> int \<Rightarrow> fmt_arg list \<Rightarrow> allocs \<Rightarrow> (sdshdr \<times> int \<times> allocs) option" where
  \<comment> \<open>\<open>f\<close> is the rest of the format's block\<close>
  "catfmt_loop f s i args al =
     (case f of [] \<Rightarrow> None
      | c # f1 \<Rightarrow>
        if c = NUL then Some (s, i, al)
        else (case (if sds_free s = 0 then catfmt_room s 1 al else Some (s, al)) of None \<Rightarrow> None
          | Some (s, al) \<Rightarrow>
            if c = CHR ''%'' then
              (case f1 of [] \<Rightarrow> None
               | nxt # f2 \<Rightarrow> (case catfmt_spec s i nxt args al of None \<Rightarrow> None
                   | Some (s, i, args, al) \<Rightarrow> catfmt_loop f2 s i args al))
            else (case catfmt_char s i c of None \<Rightarrow> None
                   | Some (s, i) \<Rightarrow> catfmt_loop f1 s i args al)))"
  by pat_completeness auto
termination
  by (relation "measure (\<lambda>(f, s, i, args, al). length f)") auto

declare catfmt_loop.simps [simp del]

definition sdscatfmt :: "sdshdr \<Rightarrow> string \<Rightarrow> fmt_arg list \<Rightarrow> allocs \<Rightarrow> (sdshdr \<times> allocs) option" where
  "sdscatfmt s fmt args al = do {
     (s, i, al) \<leftarrow> catfmt_loop (fmt @ [NUL]) s (s32 (int (sdslen s))) args al;
     k \<leftarrow> idx i;
     b \<leftarrow> poke k NUL (sds_buf s);
     Some (s\<lparr>sds_buf := b\<rparr>, al)
   }"

section \<open>Splitting at a separator\<close>

definition grow_slots :: "nat \<Rightarrow> nat \<Rightarrow> allocs \<Rightarrow> (nat option \<times> allocs)" where
  \<comment> \<open>\<open>make sure there is room for the next element and the final one\<close>\<close>
  "grow_slots slots elements al =
     (if slots < elements + 2 then
        (case alloc_next al of (None, al') \<Rightarrow> (None, al') | (Some _, al') \<Rightarrow> (Some (slots * 2), al'))
      else (Some slots, al))"

definition sep_at :: "char list \<Rightarrow> nat \<Rightarrow> char list \<Rightarrow> nat \<Rightarrow> bool option" where
  \<comment> \<open>\<open>(seplen == 1 && *(s+j) == sep[0]) || (memcmp(s+j,sep,seplen) == 0)\<close>\<close>
  "sep_at s j sep seplen = do {
     one \<leftarrow> (if seplen = 1 then do { c \<leftarrow> rd s j; d \<leftarrow> rd sep 0; Some (c = d) } else Some False);
     if one then Some True
     else do { r \<leftarrow> memcmp (drop j s) sep seplen; Some (r = 0) }
   }"

datatype split_state =
    SplitCleanup allocs                            \<comment> \<open>\<open>goto cleanup\<close>\<close>
  | SplitDone nat nat "sdshdr list" allocs         \<comment> \<open>\<open>slots\<close>, \<open>start\<close> and the tokens\<close>

definition put_token ::
  "char list \<Rightarrow> nat \<Rightarrow> nat \<Rightarrow> nat \<Rightarrow> sdshdr list \<Rightarrow> allocs \<Rightarrow> (sdshdr list option \<times> allocs) option" where
  \<comment> \<open>\<open>tokens[elements] = sdsnewlen(s+start,n)\<close>: the array has \<open>slots\<close> cells\<close>
  "put_token s start n slots toks al = do {
     require (length toks < slots);
     (t, al) \<leftarrow> sdsnewlen (Some (drop start s)) n al;
     Some (case t of None \<Rightarrow> None | Some h \<Rightarrow> Some (toks @ [h]), al)
   }"

function split_loop ::
  "char list \<Rightarrow> nat \<Rightarrow> char list \<Rightarrow> nat \<Rightarrow> nat \<Rightarrow> nat \<Rightarrow> nat \<Rightarrow> sdshdr list \<Rightarrow> allocs \<Rightarrow> split_state option" where
  "split_loop s len sep seplen j slots start toks al =
     (if seplen = 0 then None  \<comment> \<open>refused by \<open>sdssplitlen\<close>\<close>
      else if int j < int len - (int seplen - 1) then
        (case grow_slots slots (length toks) al of
           (None, al) \<Rightarrow> Some (SplitCleanup al)
         | (Some slots, al) \<Rightarrow>
             (case sep_at s j sep seplen of
                None \<Rightarrow> None
              | Some True \<Rightarrow>
                  (case put_token s start (j - start) slots toks al of
                     None \<Rightarrow> None
                   | Some (None, al) \<Rightarrow> Some (SplitCleanup al)
                   | Some (Some toks, al) \<Rightarrow>
                       split_loop s len sep seplen (j + seplen - 1 + 1) slots (j + seplen) toks al)
              | Some False \<Rightarrow> split_loop s len sep seplen (j + 1) slots start toks al))
      else Some (SplitDone slots start toks al))"
  by pat_completeness auto
termination
  by (relation "measure (\<lambda>(s, len, sep, seplen, j, slots, start, toks, al). len - j)") auto

declare split_loop.simps [simp del]

definition sdssplitlen ::
  "char list \<Rightarrow> int \<Rightarrow> char list \<Rightarrow> int \<Rightarrow> allocs \<Rightarrow> (sdshdr list option \<times> nat option \<times> allocs) option" where
  \<comment> \<open>the tokens or NULL, what is stored to \<open>*count\<close>, if anything\<close>
  "sdssplitlen s len sep seplen al =
     (if seplen < 1 \<or> len < 0 then Some (None, None, al)
      else case alloc_next al of
          (None, al) \<Rightarrow> Some (None, None, al)
        | (Some _, al) \<Rightarrow>
            if len = 0 then Some (Some [], Some 0, al)
            else do {
              r \<leftarrow> split_loop s (nat len) sep (nat seplen) 0 5 0 [] al;
              (case r of
                 SplitCleanup al \<Rightarrow> Some (None, Some 0, al)
               | SplitDone slots start toks al \<Rightarrow> do {
                   (ts, al) \<leftarrow> put_token s start (nat len - start) slots toks al;
                   Some (case ts of None \<Rightarrow> (None, Some 0, al)
                         | Some toks \<Rightarrow> (Some toks, Some (length toks), al))
                 })
            })"

section \<open>Quoting\<close>

definition repr_char :: "sds \<Rightarrow> char \<Rightarrow> allocs \<Rightarrow> (sds \<times> allocs) option" where
  "repr_char s c al =
     (if c = BACKSLASH \<or> c = DQUOTE then sdscatprintf s (BACKSLASH # ''%c'') [BACKSLASH, c] al
      else if c = LF then sdscatlen s [BACKSLASH, CHR ''n'', NUL] 2 al
      else if c = CR then sdscatlen s [BACKSLASH, CHR ''r'', NUL] 2 al
      else if c = TAB then sdscatlen s [BACKSLASH, CHR ''t'', NUL] 2 al
      else if c = BEL then sdscatlen s [BACKSLASH, CHR ''a'', NUL] 2 al
      else if c = BS then sdscatlen s [BACKSLASH, CHR ''b'', NUL] 2 al
      else if isprint_c c then sdscatprintf s ''%c'' [c] al
      else sdscatprintf s (BACKSLASH # ''x%02x'')
             [BACKSLASH, CHR ''x'', hex_char (code c div 16), hex_char (code c mod 16)] al)"

fun repr_loop :: "sds \<Rightarrow> char list \<Rightarrow> nat \<Rightarrow> allocs \<Rightarrow> (sds \<times> allocs) option" where
  "repr_loop s p 0 al = Some (s, al)"
| "repr_loop s p (Suc len) al = do {
     c \<leftarrow> rd p 0;
     (s, al) \<leftarrow> repr_char s c al;
     repr_loop s (drop 1 p) len al
   }"

definition sdscatrepr :: "sds \<Rightarrow> char list \<Rightarrow> nat \<Rightarrow> allocs \<Rightarrow> (sds \<times> allocs) option" where
  "sdscatrepr s p len al = do {
     (s, al) \<leftarrow> sdscatlen s [DQUOTE, NUL] 1 al;
     (s, al) \<leftarrow> repr_loop s p len al;
     sdscatlen s [DQUOTE, NUL] 1 al
   }"

section \<open>Splitting a line into arguments\<close>

definition is_hex_digit :: "char \<Rightarrow> bool" where
  "is_hex_digit c \<longleftrightarrow> (code c \<ge> code (CHR ''0'') \<and> code c \<le> code (CHR ''9''))
     \<or> (code c \<ge> code (CHR ''a'') \<and> code c \<le> code (CHR ''f''))
     \<or> (code c \<ge> code (CHR ''A'') \<and> code c \<le> code (CHR ''F''))"

definition hex_digit_to_int :: "char \<Rightarrow> nat" where
  \<comment> \<open>the labels of the \<open>switch\<close> with their values; \<open>default\<close> gives 0\<close>
  "hex_digit_to_int c =
     (case map_of (zip ''0123456789abcdefABCDEF'' ([0..<16] @ [10..<16])) c of
        Some d \<Rightarrow> d | None \<Rightarrow> 0)"

definition hex_escape :: "char list \<Rightarrow> bool option" where
  \<comment> \<open>\<open>*p == '\\' && *(p+1) == 'x' && is_hex_digit(*(p+2)) && is_hex_digit(*(p+3))\<close>\<close>
  "hex_escape p = do {
     c0 \<leftarrow> rd p 0;
     if c0 \<noteq> BACKSLASH then Some False else do {
     c1 \<leftarrow> rd p 1;
     if c1 \<noteq> CHR ''x'' then Some False else do {
     c2 \<leftarrow> rd p 2;
     if \<not> is_hex_digit c2 then Some False else do {
     c3 \<leftarrow> rd p 3;
     Some (is_hex_digit c3) }}}
   }"

definition unescape :: "char \<Rightarrow> char" where
  "unescape c = (if c = CHR ''n'' then LF else if c = CHR ''r'' then CR else if c = CHR ''t'' then TAB
     else if c = CHR ''b'' then BS else if c = CHR ''a'' then BEL else c)"

definition add_char :: "sds \<Rightarrow> char \<Rightarrow> allocs \<Rightarrow> (sds \<times> allocs) option" where
  \<comment> \<open>\<open>current = sdscatlen(current,&c,1)\<close>\<close>
  "add_char current c al = sdscatlen current [c] 1 al"

datatype quotes = Unquoted | InQ | InSq
  \<comment> \<open>the flags \<open>inq\<close> and \<open>insq\<close>, of which at most one is set\<close>

datatype arg_step =
    ArgErr sds allocs                              \<comment> \<open>\<open>goto err\<close>\<close>
  | ArgDone "char list" sds allocs                 \<comment> \<open>\<open>done = 1\<close>\<close>
  | ArgMore quotes "char list" sds allocs          \<comment> \<open>the next round of \<open>while(!done)\<close>\<close>

definition closing_quote :: "char list \<Rightarrow> sds \<Rightarrow> allocs \<Rightarrow> arg_step option" where
  \<comment> \<open>a closing quote must be followed by a space or nothing at all\<close>
  "closing_quote p cur al = do {
     c1 \<leftarrow> rd p 1;
     Some (if c1 \<noteq> NUL \<and> \<not> isspace_c c1 then ArgErr cur al else ArgDone (drop 1 p) cur al)
   }"

definition arg_inq :: "char list \<Rightarrow> sds \<Rightarrow> allocs \<Rightarrow> arg_step option" where
  "arg_inq p cur al = do {
     c \<leftarrow> rd p 0;
     hex \<leftarrow> hex_escape p;
     if hex then do {
       h1 \<leftarrow> rd p 2;
       h2 \<leftarrow> rd p 3;
       (cur, al) \<leftarrow> add_char cur (char_of (hex_digit_to_int h1 * 16 + hex_digit_to_int h2)) al;
       Some (ArgMore InQ (drop 1 (drop 3 p)) cur al)
     } else do {
       esc \<leftarrow> (if c = BACKSLASH then map_option (\<lambda>c1. c1 \<noteq> NUL) (rd p 1) else Some False);
       if esc then do {
         e \<leftarrow> rd p 1;
         (cur, al) \<leftarrow> add_char cur (unescape e) al;
         Some (ArgMore InQ (drop 1 (drop 1 p)) cur al)
       } else if c = DQUOTE then closing_quote p cur al
       else if c = NUL then Some (ArgErr cur al)
       else do {
         (cur, al) \<leftarrow> add_char cur c al;
         Some (ArgMore InQ (drop 1 p) cur al)
       }
     }
   }"

definition arg_insq :: "char list \<Rightarrow> sds \<Rightarrow> allocs \<Rightarrow> arg_step option" where
  "arg_insq p cur al = do {
     c \<leftarrow> rd p 0;
     esc \<leftarrow> (if c = BACKSLASH then map_option (\<lambda>c1. c1 = SQUOTE) (rd p 1) else Some False);
     if esc then do {
       (cur, al) \<leftarrow> add_char cur SQUOTE al;
       Some (ArgMore InSq (drop 1 (drop 1 p)) cur al)
     } else if c = SQUOTE then closing_quote p cur al
     else if c = NUL then Some (ArgErr cur al)
     else do {
       (cur, al) \<leftarrow> add_char cur c al;
       Some (ArgMore InSq (drop 1 p) cur al)
     }
   }"

definition arg_plain :: "char list \<Rightarrow> sds \<Rightarrow> allocs \<Rightarrow> arg_step option" where
  "arg_plain p cur al = do {
     c \<leftarrow> rd p 0;
     if c = CHR '' '' \<or> c = LF \<or> c = CR \<or> c = TAB then Some (ArgDone (drop 1 p) cur al)
     else if c = NUL then Some (ArgDone p cur al)
     else if c = DQUOTE then Some (ArgMore InQ (drop 1 p) cur al)
     else if c = SQUOTE then Some (ArgMore InSq (drop 1 p) cur al)
     else do {
       (cur, al) \<leftarrow> add_char cur c al;
       Some (ArgMore Unquoted (drop 1 p) cur al)
     }
   }"

definition arg_round :: "quotes \<Rightarrow> char list \<Rightarrow> sds \<Rightarrow> allocs \<Rightarrow> arg_step option" where
  "arg_round q p cur al =
     (case q of InQ \<Rightarrow> arg_inq p cur al | InSq \<Rightarrow> arg_insq p cur al | Unquoted \<Rightarrow> arg_plain p cur al)"

lemma rd_0_conv: "rd p 0 = Some c \<longleftrightarrow> (\<exists>r. p = c # r)"
  by (cases p) (auto simp: rd_def)

lemma rd_length: "rd p k = Some c \<Longrightarrow> k < length p"
  by (auto simp: rd_def split: if_splits)

lemma arg_round_less: "arg_round q p cur al = Some (ArgMore q' p' cur' al') \<Longrightarrow> length p' < length p"
  by (auto simp: arg_round_def arg_inq_def arg_insq_def arg_plain_def closing_quote_def
      split: quotes.splits bind_splits if_splits option.splits prod.splits dest!: rd_length)

lemma arg_round_le: "arg_round q p cur al = Some (ArgDone p' cur' al') \<Longrightarrow> length p' \<le> length p"
  by (auto simp: arg_round_def arg_inq_def arg_insq_def arg_plain_def closing_quote_def
      split: quotes.splits bind_splits if_splits option.splits prod.splits dest!: rd_length)

function arg_loop :: "quotes \<Rightarrow> char list \<Rightarrow> sds \<Rightarrow> allocs \<Rightarrow> arg_step option" where
  "arg_loop q p cur al =
     (case arg_round q p cur al of
        Some (ArgMore q' p' cur' al') \<Rightarrow> arg_loop q' p' cur' al'
      | r \<Rightarrow> r)"
  by pat_completeness auto
termination
  by (relation "measure (\<lambda>(q, p, cur, al). length p)") (auto dest: arg_round_less)

declare arg_loop.simps [simp del]

lemma arg_loop_le: "arg_loop q p cur al = Some (ArgDone p' cur' al') \<Longrightarrow> length p' \<le> length p"
proof (induction q p cur al rule: arg_loop.induct)
  case (1 q p cur al)
  then show ?case
    by (subst (asm) (2) arg_loop.simps)
       (fastforce split: option.splits arg_step.splits dest: arg_round_le arg_round_less)
qed

lemma arg_loop_less:
  assumes "arg_loop Unquoted p cur al = Some (ArgDone p' cur' al')"
    and c: "rd p 0 = Some c" "c \<noteq> NUL" "\<not> isspace_c c"
  shows "length p' < length p"
proof -
  have "c \<noteq> CHR '' ''" "c \<noteq> LF" "c \<noteq> CR" "c \<noteq> TAB"
    using c(3) by (auto simp: isspace_c_def code_def)
  moreover obtain r where "p = c # r" using c(1) by (auto simp: rd_0_conv)
  ultimately show ?thesis
    using assms
    by (subst (asm) arg_loop.simps)
       (auto simp: arg_round_def arg_plain_def split: option.splits arg_step.splits if_splits bind_splits prod.splits
          dest!: arg_loop_le)
qed

function skip_blanks :: "char list \<Rightarrow> char list option" where
  "skip_blanks p =
     (case p of [] \<Rightarrow> None | c # p' \<Rightarrow> if c \<noteq> NUL \<and> isspace_c c then skip_blanks p' else Some p)"
  by pat_completeness auto
termination
  by (relation "measure length") auto

declare skip_blanks.simps [simp del]

lemma skip_blanks_Some:
  "skip_blanks p = Some p' \<Longrightarrow> length p' \<le> length p \<and> (\<exists>c r. p' = c # r \<and> (c = NUL \<or> \<not> isspace_c c))"
  by (induction p rule: skip_blanks.induct, subst (asm) (2) skip_blanks.simps)
     (fastforce split: list.splits if_splits)

function splitargs_loop ::
  "char list \<Rightarrow> sds list option \<Rightarrow> allocs \<Rightarrow> (sds list option \<times> nat \<times> allocs) option" where
  \<comment> \<open>the \<open>while(1)\<close>: \<open>current\<close> is NULL at its start, \<open>*argc\<close> the length of the vector\<close>
  "splitargs_loop p vector al =
     (case skip_blanks p of None \<Rightarrow> None
      | Some p \<Rightarrow> (case rd p 0 of None \<Rightarrow> None
      | Some c \<Rightarrow>
         if c \<noteq> NUL then
           (case sdsempty al of None \<Rightarrow> None
            | Some (cur, al) \<Rightarrow>
              (case arg_loop Unquoted p cur al of
                 Some (ArgDone p' cur al) \<Rightarrow>
                   (case alloc_next al of
                      (None, _) \<Rightarrow> None   \<comment> \<open>the result of \<open>zrealloc\<close> is written through\<close>
                    | (Some _, al) \<Rightarrow> splitargs_loop p' (Some (case vector of None \<Rightarrow> [cur] | Some v \<Rightarrow> v @ [cur])) al)
               | Some (ArgErr cur al) \<Rightarrow> Some (None, 0, al)
               | _ \<Rightarrow> None))
         else (case vector of
             Some v \<Rightarrow> Some (Some v, length v, al)
           | None \<Rightarrow> (case alloc_next al of
                 (None, al) \<Rightarrow> Some (None, 0, al) | (Some _, al) \<Rightarrow> Some (Some [], 0, al)))))"
  by pat_completeness auto
termination
  by (relation "measure (\<lambda>(p, vector, al). length p)")
     (auto dest!: skip_blanks_Some arg_loop_less simp: rd_0_conv)

declare splitargs_loop.simps [simp del]

definition sdssplitargs :: "string \<Rightarrow> allocs \<Rightarrow> (sds list option \<times> nat \<times> allocs) option" where
  "sdssplitargs line al = splitargs_loop (line @ [NUL]) None al"

section \<open>Joining\<close>

fun join_loop :: "sds \<Rightarrow> string list \<Rightarrow> string \<Rightarrow> allocs \<Rightarrow> (sds \<times> allocs) option" where
  \<comment> \<open>from entry \<open>j\<close> on; \<open>j != argc-1\<close> says that another one follows\<close>
  "join_loop join [] sep al = Some (join, al)"
| "join_loop join (a # argv) sep al = do {
     (join, al) \<leftarrow> sdscat join a al;
     (join, al) \<leftarrow> (if argv \<noteq> [] then sdscat join sep al else Some (join, al));
     join_loop join argv sep al
   }"

definition sdsjoin :: "string list \<Rightarrow> string \<Rightarrow> allocs \<Rightarrow> (sds \<times> allocs) option" where
  "sdsjoin argv sep al = do {
     (join, al) \<leftarrow> sdsempty al;
     join_loop join argv sep al
   }"

section \<open>Numbers are written in decimal\<close>

lemma length_dec_nat: "n < 10 ^ k \<Longrightarrow> 0 < k \<Longrightarrow> length (dec_nat n) \<le> k"
proof (induction n arbitrary: k rule: dec_nat_induct)
  case (small n)
  then show ?case by (simp add: dec_nat_small)
next
  case (large n)
  then obtain k' where k: "k = Suc k'" "0 < k'"
    by (cases k; cases "k - 1") auto
  then have "n div 10 < 10 ^ k'" using large.prems(1) by (simp add: less_mult_imp_div_less mult.commute)
  then show ?case using large k by (simp add: dec_nat_large)
qed

lemma put_digits_eq:
  "unat v = n \<Longrightarrow> p + length (dec_nat n) \<le> length m \<Longrightarrow>
     put_digits m p v = Some (take p m @ rev (dec_nat n) @ drop (p + length (dec_nat n)) m,
                              p + length (dec_nat n))"
proof (induction n arbitrary: m p v rule: dec_nat_induct)
  case (small n)
  then have "unat (v div 10) = 0" by (simp add: unat_div)
  then have "v div 10 = 0" by (simp add: unat_eq_zero)
  moreover have "unat (v mod 10) = n" using small by (simp add: unat_mod)
  ultimately show ?case using small
    by (subst put_digits.simps) (simp add: poke_def dec_nat_small upd_conv_take_nth_drop)
next
  case (large n)
  have "unat (v div 10) = n div 10" using large.prems by (simp add: unat_div)
  moreover then have "v div 10 \<noteq> 0" using large.hyps by (auto simp: unat_eq_zero)
  moreover have "unat (v mod 10) = n mod 10" using large.prems by (simp add: unat_mod)
  ultimately show ?case using large.prems large.IH [of "v div 10" "p + 1" "m[p := digit_char (n mod 10)]"] large.hyps
    by (subst put_digits.simps) (simp add: poke_def dec_nat_large take_Suc_conv_app_nth)
qed

lemma swap_loop_eq:
  "swap_loop (length a) (length a + (length x - 1)) (a @ x @ c) = Some (a @ rev x @ c)"
proof (induction "length x" arbitrary: a x c rule: less_induct)
  case less
  show ?case
  proof (cases "length x < 2")
    case True
    then have "rev x = x" by (cases x; cases "tl x") auto
    with True show ?thesis by (subst swap_loop.simps) simp
  next
    case False
    then obtain u y v where x: "x = u # y @ [v]"
      by (metis One_nat_def Suc_1 append_butlast_last_id length_Cons lessI less_Suc_eq list.exhaust list.size(3) zero_less_Suc)
    have "swap_loop (length a) (length a + (length x - 1)) (a @ x @ c)
        = swap_loop (length (a @ [v])) (length (a @ [v]) + (length y - 1)) ((a @ [v]) @ y @ (u # c))"
    proof -
      have m: "a @ x @ c = a @ u # y @ v # c" and k: "length a + (length x - 1) = length (a @ u # y)"
        by (simp_all add: x)
      have s: "length a < length (a @ u # y)" by simp
      have e: "(a @ u # y @ v # c)[length a := v] = (a @ v # y) @ v # c" by simp
      have l: "length (a @ u # y) = length (a @ v # y)" by simp
      have r: "rd (a @ u # y @ v # c) (length a) = Some u" "rd (a @ u # y @ v # c) (length (a @ u # y)) = Some v"
        using nth_append_length [of "a @ u # y" v c] by (simp_all add: rd_def)
      have p: "poke (length a) v (a @ u # y @ v # c) = Some ((a @ v # y) @ v # c)"
        "poke (length (a @ u # y)) u ((a @ v # y) @ v # c) = Some ((a @ v # y) @ u # c)"
        using list_update_length [of "a @ v # y" v c u] by (simp_all add: poke_def)
      show ?thesis unfolding m k
        by (subst swap_loop.simps, simp only: s if_True r p option.case, cases y) (simp_all add: swap_loop.simps)
    qed
    then show ?thesis using less [of y "a @ [v]" "u # c"] x by simp
  qed
qed

lemma digits_swap:
  assumes "length x < length m" "x \<noteq> []"
  shows "swap_loop 0 (length x - 1) ((rev x @ drop (length x) m)[length x := NUL])
    = Some (x @ NUL # drop (Suc (length x)) m)"
proof -
  have "(rev x @ drop (length x) m)[length x := NUL] = [] @ rev x @ NUL # drop (Suc (length x)) m"
    using assms(1) by (simp add: list_update_append Cons_nth_drop_Suc [symmetric])
  then show ?thesis using swap_loop_eq [of "[]" "rev x" "NUL # drop (Suc (length x)) m"] by simp
qed

lemma sdsull2str_eq:
  assumes "length (dec_nat (unat v)) < length m"
  shows "sdsull2str m v = Some (dec_nat (unat v) @ NUL # drop (Suc (length (dec_nat (unat v)))) m,
      length (dec_nat (unat v)))"
proof -
  let ?d = "dec_nat (unat v)"
  have "put_digits m 0 v = Some (rev ?d @ drop (length ?d) m, length ?d)"
    using put_digits_eq [of v "unat v" 0 m] assms by simp
  then show ?thesis
    using digits_swap [of ?d m] assms by (simp add: sdsull2str_def Let_def poke_def)
qed

lemma sdsll2str_eq:
  assumes "length (dec_int (sint v)) < length m"
  shows "sdsll2str m v = Some (dec_int (sint v) @ NUL # drop (Suc (length (dec_int (sint v)))) m,
      length (dec_int (sint v)))"
proof (cases "v <s 0")
  case True
  let ?d = "dec_nat (unat (- v))"
  have "sint v < 0" using True by (simp add: word_sless_alt)
  moreover have "nat (- sint v) = unat (- v)"
  proof -
    have "- v = word_of_int (- sint v)" by simp
    then have "uint (- v) = (- sint v) mod 2 ^ LENGTH(64)" by (metis uint_word_of_int)
    then have "uint (- v) = (- sint v) mod 2 ^ 64" by simp
    moreover have "- sint v \<le> 2 ^ 63" using sint_greater_eq [of v] by simp
    ultimately show ?thesis using \<open>sint v < 0\<close> by (simp add: nat_uint_eq [symmetric])
  qed
  ultimately have d: "dec_int (sint v) = CHR ''-'' # ?d" by (simp add: dec_int_def)
  have "put_digits m 0 (- v) = Some (rev ?d @ drop (length ?d) m, length ?d)"
    using put_digits_eq [of "- v" "unat (- v)" 0 m] assms d by simp
  moreover have "(rev ?d @ drop (length ?d) m)[length ?d := CHR ''-'']
      = rev (CHR ''-'' # ?d) @ drop (length (CHR ''-'' # ?d)) m"
    using assms d by (simp add: list_update_append Cons_nth_drop_Suc [symmetric])
  ultimately show ?thesis using digits_swap [of "CHR ''-'' # ?d" m] assms True unfolding d
    by (simp add: sdsll2str_def Let_def poke_def)
next
  case False
  let ?d = "dec_nat (unat v)"
  have n: "0 \<le> sint v" using False by (simp add: word_sless_alt)
  then have "nat (sint v) = unat v" using uint_sint_pos [OF n] by (simp add: nat_uint_eq [symmetric])
  then have d: "dec_int (sint v) = ?d" using n by (simp add: dec_int_def)
  have "put_digits m 0 v = Some (rev ?d @ drop (length ?d) m, length ?d)"
    using put_digits_eq [of v "unat v" 0 m] assms d by simp
  then show ?thesis using digits_swap [of ?d m] assms False unfolding d
    by (simp add: sdsll2str_def Let_def poke_def)
qed

lemma length_dec_word64: "length (dec_nat (unat (v :: 64 word))) \<le> 20"
  using unsigned_less [of v, where ?'a = nat] by (intro length_dec_nat) auto

lemma length_dec_sint64: "length (dec_int (sint (v :: 64 word))) \<le> 20"
proof -
  have "- (2 ^ 63) \<le> sint v" "sint v < 2 ^ 63" using sint_greater_eq [of v] sint_less [of v] by simp_all
  then have "nat (- sint v) < 10 ^ 19" "nat (sint v) < 10 ^ 19" by auto
  then show ?thesis using length_dec_nat [of "nat (- sint v)" 19] length_dec_nat [of "nat (sint v)" 19]
    by (auto simp: dec_int_def)
qed

lemma dec_int_no_nul: "NUL \<notin> set (dec_int i)"
  using dec_nat_no_special by (auto simp: dec_int_def)

lemma llstr:
  "\<exists>junk. sdsll2str llstr_buf v = Some (dec_int (sint v) @ junk, length (dec_int (sint v)))"
  "\<exists>junk. sdsull2str llstr_buf v = Some (dec_nat (unat v) @ junk, length (dec_nat (unat v)))"
  using sdsll2str_eq [of v llstr_buf] sdsull2str_eq [of v llstr_buf] length_dec_sint64 [of v] length_dec_word64 [of v]
  by (auto simp: llstr_buf_def SDS_LLSTR_SIZE_def)

lemma sdsfromlonglong_yields: "yields al (sdsfromlonglong v al) (dec_int (sint v))"
proof -
  obtain junk where "sdsll2str llstr_buf v = Some (dec_int (sint v) @ junk, length (dec_int (sint v)))"
    using llstr by blast
  then show ?thesis
    using sdsnewlen_yields [of "length (dec_int (sint v))" "dec_int (sint v) @ junk" al] length_dec_sint64 [of v]
    by (simp add: sdsfromlonglong_def)
qed

section \<open>Joining\<close>

definition nul_cut :: "string \<Rightarrow> string" where
  \<comment> \<open>what a C function sees of a string argument\<close>
  "nul_cut s = takeWhile (\<lambda>c. c \<noteq> NUL) s"

fun joined :: "string \<Rightarrow> string list \<Rightarrow> string" where
  "joined sep [] = []"
| "joined sep [a] = a"
| "joined sep (a # b # as) = a @ sep @ joined sep (b # as)"

fun join_pieces :: "string \<Rightarrow> string list \<Rightarrow> string list" where
  "join_pieces sep [] = []"
| "join_pieces sep [a] = [a]"
| "join_pieces sep (a # b # as) = a # sep # join_pieces sep (b # as)"

lemma concat_join_pieces: "concat (join_pieces sep as) = joined sep as"
  by (induction sep as rule: join_pieces.induct) auto

lemma join_loop_app_all:
  "join_loop s argv sep al = sb.app_all s (join_pieces (nul_cut sep) (map nul_cut argv)) al"
proof (induction argv arbitrary: s al)
  case Nil
  then show ?case by simp
next
  case (Cons a argv)
  show ?case
  proof (cases s)
    case None
    then show ?thesis by (cases argv) simp_all
  next
    case s: (Some h)
    show ?thesis
    proof (cases argv)
      case Nil
      then show ?thesis by (simp add: s sdscat_app nul_cut_def split: option.splits prod.splits bind_splits)
    next
      case (Cons b bs)
      have step: "sdscat r sep al = (case r of None \<Rightarrow> None | Some h \<Rightarrow> sds_app h (nul_cut sep) al)" for r al
        by (cases r) (simp_all add: sdscat_app nul_cut_def)
      show ?thesis using Cons.IH
        by (simp add: s Cons sdscat_app nul_cut_def [symmetric] step split: option.splits prod.splits bind_splits)
    qed
  qed
qed

lemma sdsjoin_ok:
  assumes "length (joined (nul_cut sep) (map nul_cut argv)) < 2 ^ 31" "None \<notin> set al"
  shows "\<exists>h al'. sdsjoin argv sep al = Some (Some h, al') \<and> sds_ok h
      \<and> sds_str h = joined (nul_cut sep) (map nul_cut argv)"
proof -
  obtain e al1 where 1: "sdsempty al = Some (Some e, al1)" "sds_ok e" "sds_str e = []" "None \<notin> set al1"
    using yields_ok [OF sdsempty_yields assms(2)] .
  obtain h al2 where "sb.app_all (Some e) (join_pieces (nul_cut sep) (map nul_cut argv)) al1 = Some (Some h, al2)"
      "sds_ok h" "sds_str h = sds_str e @ concat (join_pieces (nul_cut sep) (map nul_cut argv))"
    by (rule sb.app_all_ok [of e "join_pieces (nul_cut sep) (map nul_cut argv)" al1])
       (use 1 assms(1) in \<open>simp_all add: concat_join_pieces\<close>)
  then show ?thesis using 1 by (simp add: sdsjoin_def join_loop_app_all concat_join_pieces)
qed

section \<open>Formatting into a buffer\<close>

lemma vprintf_loop_short:
  assumes "length buf = n" "4 \<le> n" "n < 2 ^ 62" "length out + 2 \<le> n" "NUL \<notin> set out"
  shows "vprintf_loop buf n out al = Some (Some (out @ NUL # (drop (Suc (length out)) (buf[n - 2 := NUL]))), al)"
proof -
  have "vsnprintf (buf[n - 2 := NUL]) n out = Some (out @ NUL # drop (Suc (length out)) (buf[n - 2 := NUL]))"
    using assms by (simp add: vsnprintf_def write_at_def)
  moreover have "(out @ NUL # drop (Suc (length out)) (buf[n - 2 := NUL])) ! (n - 2) = NUL"
  proof (cases "n - 2 = length out")
    case True
    then show ?thesis by (simp only: nth_append_length)
  next
    case False
    then obtain k where k: "n - 2 = length (out @ [NUL]) + k" using assms(4) by (intro that [of "n - 2 - Suc (length out)"]) simp
    then have "(out @ NUL # drop (Suc (length out)) (buf[n - 2 := NUL])) ! (n - 2)
        = (buf[n - 2 := NUL]) ! (n - 2)"
      using assms by (simp add: nth_append)
    then show ?thesis using assms by simp
  qed
  moreover have "n - 2 < length (out @ NUL # drop (Suc (length out)) (buf[n - 2 := NUL]))" using assms by simp
  ultimately show ?thesis
    using assms by (subst vprintf_loop.simps) (simp add: poke_def rd_def)
qed

lemma sdscatprintf_short:
  assumes "cstrlen fmt \<le> 512" "length out \<le> 1022" "NUL \<notin> set out"
  shows "sdscatprintf s fmt out al = (case s of None \<Rightarrow> None | Some h \<Rightarrow> sds_app h out al)"
proof -
  have tw: "takeWhile (\<lambda>c. c \<noteq> NUL) (out @ NUL # r) = out" for r
  proof -
    have "\<forall>x \<in> set out. x \<noteq> NUL" using assms(3) by blast
    then show ?thesis using takeWhile_neq_Cons [of NUL out r] by (simp only: takeWhile_eq_all_conv [THEN iffD2])
  qed
  have tw': "takeWhile (\<lambda>c. c \<noteq> NUL) out = out"
    using tw [of "[]"] takeWhile_neq_Cons [of NUL out "[]"] by simp
  define blk where "blk = replicate 1024 (CHR 0xCC)"
  have "length blk = 1024" by (simp add: blk_def)
  then have "vprintf_loop blk 1024 out al = Some (Some (out @ NUL # (drop (Suc (length out)) (blk[1024 - 2 := NUL]))), al)"
    using assms by (intro vprintf_loop_short) auto
  then show ?thesis using assms(1) unfolding sdscatprintf_def sdscatvprintf_def blk_def [symmetric]
    by (cases s) (simp_all add: Let_def tw tw' sdscat_app)
qed

section \<open>Quoting and reading back\<close>

definition hex2 :: "char \<Rightarrow> string" where
  "hex2 c = [hex_char (code c div 16), hex_char (code c mod 16)]"

definition esc :: "char \<Rightarrow> string" where
  "esc c = (if c = BACKSLASH \<or> c = DQUOTE then [BACKSLASH, c]
     else if c = LF then [BACKSLASH, CHR ''n''] else if c = CR then [BACKSLASH, CHR ''r'']
     else if c = TAB then [BACKSLASH, CHR ''t''] else if c = BEL then [BACKSLASH, CHR ''a'']
     else if c = BS then [BACKSLASH, CHR ''b'']
     else if isprint_c c then [c] else [BACKSLASH, CHR ''x''] @ hex2 c)"

definition quoted :: "string \<Rightarrow> string" where
  "quoted s = DQUOTE # concat (map esc s) @ [DQUOTE]"

lemma hex_char_facts:
  assumes "d < 16"
  shows "hex_char d \<noteq> NUL" "is_hex_digit (hex_char d)" "hex_digit_to_int (hex_char d) = d"
proof -
  have "\<forall>d \<in> set [0..<16]. hex_char d \<noteq> NUL \<and> is_hex_digit (hex_char d) \<and> hex_digit_to_int (hex_char d) = d"
    by code_simp
  moreover have "d \<in> set [0..<16]" using assms by simp
  ultimately show "hex_char d \<noteq> NUL" "is_hex_digit (hex_char d)" "hex_digit_to_int (hex_char d) = d"
    by blast+
qed

lemma repr_char_app: "repr_char s c al = (case s of None \<Rightarrow> None | Some h \<Rightarrow> sds_app h (esc c) al)"
proof -
  define A where "A x = (case s of None \<Rightarrow> None | Some h \<Rightarrow> sds_app h x al)" for x
  have cat: "sdscatlen s [BACKSLASH, x, NUL] 2 al = A [BACKSLASH, x]" for x
    using sdscatlen_take [of 2 "[BACKSLASH, x, NUL]"] by (cases s) (simp_all add: A_def numeral_2_eq_2)
  have c16: "code c div 16 < 16" "code c mod 16 < 16" using code_less [of c] by (simp_all add: less_mult_imp_div_less)
  consider (e) "c = BACKSLASH \<or> c = DQUOTE" | (l) "c = LF \<or> c = CR \<or> c = TAB \<or> c = BEL \<or> c = BS"
    | (p) "isprint_c c" "\<not> (c = BACKSLASH \<or> c = DQUOTE)" "\<not> (c = LF \<or> c = CR \<or> c = TAB \<or> c = BEL \<or> c = BS)"
    | (x) "\<not> isprint_c c" "\<not> (c = BACKSLASH \<or> c = DQUOTE)" "\<not> (c = LF \<or> c = CR \<or> c = TAB \<or> c = BEL \<or> c = BS)"
    by blast
  then have "repr_char s c al = A (esc c)"
  proof cases
    case e
    then have "NUL \<notin> set [BACKSLASH, c]" by auto
    then have p: "sdscatprintf s (BACKSLASH # ''%c'') [BACKSLASH, c] al
        = A [BACKSLASH, c]"
      unfolding A_def by (intro sdscatprintf_short) (simp_all add: cstrlen_def)
    have x: "esc c = [BACKSLASH, c]" using e by (auto simp: esc_def)
    have "repr_char s c al = sdscatprintf s (BACKSLASH # ''%c'') [BACKSLASH, c] al"
      using e by (simp only: repr_char_def if_True)
    then show ?thesis by (simp only: x p)
  next
    case l
    then show ?thesis by (auto simp add: repr_char_def esc_def cat)
  next
    case p
    then have "NUL \<notin> set [c]" by (auto simp: isprint_c_def code_def)
    then have "sdscatprintf s ''%c'' [c] al = A [c]"
      unfolding A_def by (intro sdscatprintf_short) (simp_all add: cstrlen_def)
    with p show ?thesis by (simp add: repr_char_def esc_def)
  next
    case x
    have "NUL \<notin> set ([BACKSLASH, CHR ''x''] @ hex2 c)" using hex_char_facts(1) [OF c16(1)] hex_char_facts(1) [OF c16(2)]
      by (auto simp: hex2_def)
    then have "sdscatprintf s (BACKSLASH # ''x%02x'') ([BACKSLASH, CHR ''x''] @ hex2 c) al
        = A ([BACKSLASH, CHR ''x''] @ hex2 c)"
      unfolding A_def by (intro sdscatprintf_short) (simp_all add: cstrlen_def hex2_def)
    with x show ?thesis by (simp add: repr_char_def esc_def hex2_def)
  qed
  then show ?thesis by (simp add: A_def)
qed

lemma repr_loop_app_all:
  "n \<le> length p \<Longrightarrow> repr_loop s p n al = sb.app_all s (map esc (take n p)) al"
proof (induction n arbitrary: s p al)
  case 0
  then show ?case by simp
next
  case (Suc n)
  then obtain c r where p: "p = c # r" by (cases p) auto
  with Suc show ?case
    by (cases s) (auto simp: rd_def repr_char_app split: option.splits prod.splits bind_splits)
qed

lemma sdscatrepr_app_all:
  assumes "n \<le> length p"
  shows "sdscatrepr s p n al = sb.app_all s ([[DQUOTE]] @ map esc (take n p) @ [[DQUOTE]]) al"
proof -
  have cat: "sdscatlen s [DQUOTE, NUL] 1 al = sb.app_all s [[DQUOTE]] al" for s al
    using sdscatlen_take [of 1 "[DQUOTE, NUL]"] by (cases s) (auto split: option.splits)
  show ?thesis
    unfolding sdscatrepr_def sb.app_all_append cat
    by (auto simp: repr_loop_app_all assms split: option.splits bind_splits)
qed

lemma sdscatrepr_ok:
  assumes "sds_ok s" "n \<le> length p" "length (sds_str s) + length (quoted (take n p)) < 2 ^ 31" "None \<notin> set al"
  shows "\<exists>h al'. sdscatrepr (Some s) p n al = Some (Some h, al') \<and> sds_ok h
      \<and> sds_str h = sds_str s @ quoted (take n p) \<and> None \<notin> set al'"
proof -
  let ?xs = "[[DQUOTE]] @ map esc (take n p) @ [[DQUOTE]]"
  have q: "concat ?xs = quoted (take n p)" by (simp add: quoted_def)
  obtain h al' where "sb.app_all (Some s) ?xs al = Some (Some h, al')" "sds_ok h" "sds_str h = sds_str s @ concat ?xs" "None \<notin> set al'"
    by (rule sb.app_all_ok [of s ?xs al]) (use assms q in simp_all)
  then show ?thesis using assms q by (simp add: sdscatrepr_app_all)
qed

text \<open>One round of the tokenizer undoes one escape.\<close>

lemma add_char_app: "add_char (Some h) c al = sds_app h [c] al"
  by (simp add: add_char_def)

lemma hex_escape_no: "c \<noteq> BACKSLASH \<Longrightarrow> hex_escape (c # r) = Some False"
  by (simp add: hex_escape_def rd_def)

lemma hex_escape_not_x: "c \<noteq> CHR ''x'' \<Longrightarrow> hex_escape (BACKSLASH # c # r) = Some False"
  by (simp add: hex_escape_def rd_def)

lemma arg_inq_esc:
  assumes "sds_app h [c] al = Some (Some h', al')"
  shows "arg_inq (esc c @ r) (Some h) al = Some (ArgMore InQ r (Some h') al')"
proof -
  have c16: "code c div 16 < 16" "code c mod 16 < 16" using code_less [of c] by (simp_all add: less_mult_imp_div_less)
  consider (e) "c = BACKSLASH \<or> c = DQUOTE" | (l) "c = LF \<or> c = CR \<or> c = TAB \<or> c = BEL \<or> c = BS"
    | (p) "isprint_c c" "c \<noteq> BACKSLASH" "c \<noteq> DQUOTE" "\<not> (c = LF \<or> c = CR \<or> c = TAB \<or> c = BEL \<or> c = BS)"
    | (x) "\<not> isprint_c c" "\<not> (c = BACKSLASH \<or> c = DQUOTE)" "\<not> (c = LF \<or> c = CR \<or> c = TAB \<or> c = BEL \<or> c = BS)"
    by blast
  then show ?thesis
  proof cases
    case e
    then show ?thesis using assms
      by (elim disjE) (simp_all add: esc_def arg_inq_def hex_escape_not_x rd_def add_char_app unescape_def)
  next
    case l
    then show ?thesis using assms
      by (elim disjE) (simp_all add: esc_def arg_inq_def hex_escape_not_x rd_def add_char_app unescape_def)
  next
    case p
    then have "c \<noteq> NUL" by (auto simp: isprint_c_def code_def)
    moreover have "esc c = [c]" using p by (simp add: esc_def)
    ultimately show ?thesis using assms p(2,3) by (simp add: arg_inq_def hex_escape_no rd_def add_char_app)
  next
    case x
    then have e: "esc c = BACKSLASH # CHR ''x'' # hex2 c" by (simp add: esc_def)
    have "char_of (code c div 16 * 16 + code c mod 16) = c" by (simp add: div_mult_mod_eq)
    then show ?thesis using assms hex_char_facts [OF c16(1)] hex_char_facts [OF c16(2)]
      by (simp add: e hex2_def arg_inq_def hex_escape_def rd_def add_char_app)
  qed
qed

lemma arg_loop_quoted:
  assumes "sds_ok h" "length (sds_str h) + length s < 2 ^ 31" "None \<notin> set al"
    and stop: "z = NUL \<or> isspace_c z"
  shows "\<exists>h' al'. arg_loop InQ (concat (map esc s) @ DQUOTE # z # r) (Some h) al
      = Some (ArgDone (z # r) (Some h') al') \<and> sds_ok h' \<and> sds_str h' = sds_str h @ s \<and> None \<notin> set al'"
  using assms(1-3)
proof (induction s arbitrary: h al)
  case Nil
  have "arg_inq (DQUOTE # z # r) (Some h) al = Some (ArgDone (z # r) (Some h) al)"
    using stop by (simp add: arg_inq_def closing_quote_def hex_escape_no rd_def)
  then show ?case using Nil by (subst arg_loop.simps) (simp add: arg_round_def)
next
  case (Cons c s)
  obtain h1 al1 where 1: "sds_app h [c] al = Some (Some h1, al1)" "sds_ok h1" "sds_str h1 = sds_str h @ [c]" "None \<notin> set al1"
    by (rule sb.app_ok [of h "[c]" al]) (use Cons.prems in simp_all)
  have "arg_loop InQ (concat (map esc (c # s)) @ DQUOTE # z # r) (Some h) al
      = arg_loop InQ (concat (map esc s) @ DQUOTE # z # r) (Some h1) al1"
    using arg_inq_esc [OF 1(1)] by (subst arg_loop.simps) (simp add: arg_round_def)
  then show ?case using Cons.IH [of h1 al1] 1 Cons.prems by simp
qed

lemma splitargs_quoted:
  assumes "length s < 2 ^ 31" "None \<notin> set al"
  shows "\<exists>h al'. sdssplitargs (quoted s) al = Some (Some [Some h], 1, al') \<and> sds_ok h \<and> sds_str h = s"
proof -
  obtain e al1 where 1: "sdsempty al = Some (Some e, al1)" "sds_ok e" "sds_str e = []" "None \<notin> set al1"
    using yields_ok [OF sdsempty_yields assms(2)] .
  obtain h al2 where 2: "arg_loop InQ (concat (map esc s) @ [DQUOTE, NUL]) (Some e) al1
      = Some (ArgDone [NUL] (Some h) al2)" "sds_ok h" "sds_str h = s" "None \<notin> set al2"
    using arg_loop_quoted [of e s al1 NUL "[]"] 1 assms(1) by auto
  obtain f al3 where 3: "alloc_next al2 = (Some f, al3)"
    using alloc_next_None 2(4) by (metis old.prod.exhaust option.exhaust)
  let ?p = "quoted s @ [NUL]"
  have p: "?p = DQUOTE # concat (map esc s) @ [DQUOTE, NUL]" by (simp add: quoted_def)
  have "arg_plain ?p (Some e) al1 = Some (ArgMore InQ (concat (map esc s) @ [DQUOTE, NUL]) (Some e) al1)"
    by (simp add: p arg_plain_def rd_def)
  then have a: "arg_loop Unquoted ?p (Some e) al1 = Some (ArgDone [NUL] (Some h) al2)"
    using 2 by (subst arg_loop.simps) (simp add: arg_round_def)
  have "skip_blanks ?p = Some ?p" by (subst skip_blanks.simps) (simp add: p isspace_c_def code_def)
  moreover have "rd ?p 0 = Some DQUOTE" by (simp add: p rd_def)
  moreover have "splitargs_loop [NUL] (Some [Some h]) al3 = Some (Some [Some h], 1, al3)"
    by (subst splitargs_loop.simps) (simp add: skip_blanks.simps rd_def)
  ultimately have "splitargs_loop ?p None al = Some (Some [Some h], 1, al3)"
    by (subst splitargs_loop.simps) (simp add: 1 3 a)
  then show ?thesis using 2 unfolding sdssplitargs_def by blast
qed

section \<open>Splitting at a separator\<close>

function split_on :: "'a list \<Rightarrow> 'a list \<Rightarrow> 'a list \<Rightarrow> 'a list list" where
  \<comment> \<open>\<open>cur\<close> is the token so far, \<open>xs\<close> what is left: cut at the leftmost separators\<close>
  "split_on sep cur xs =
     (if sep = [] \<or> length xs < length sep then [cur @ xs]
      else if take (length sep) xs = sep then cur # split_on sep [] (drop (length sep) xs)
      else split_on sep (cur @ [hd xs]) (tl xs))"
  by pat_completeness auto
termination
proof (relation "measure (\<lambda>(sep, cur, xs). length xs)", goal_cases)
  case (2 sep cur xs)
  then show ?case by (cases sep) auto
next
  case (3 sep cur xs)
  then show ?case by (cases xs) auto
qed simp

declare split_on.simps [simp del]

lemma split_on_stop: "sep = [] \<or> length xs < length sep \<Longrightarrow> split_on sep cur xs = [cur @ xs]"
  by (subst split_on.simps) simp

lemma split_on_hit:
  "sep \<noteq> [] \<Longrightarrow> take (length sep) xs = sep \<Longrightarrow> split_on sep cur xs = cur # split_on sep [] (drop (length sep) xs)"
  by (subst split_on.simps) (auto simp: min_def dest: arg_cong [of _ _ length] split: if_splits)

lemma split_on_miss:
  "sep \<noteq> [] \<Longrightarrow> length sep \<le> length xs \<Longrightarrow> take (length sep) xs \<noteq> sep \<Longrightarrow>
     split_on sep cur xs = split_on sep (cur @ [hd xs]) (tl xs)"
  by (subst split_on.simps) simp

lemma split_on_nonempty: "split_on sep cur xs \<noteq> []"
  by (induction sep cur xs rule: split_on.induct) (subst split_on.simps, simp)

lemma joined_Cons: "as \<noteq> [] \<Longrightarrow> joined sep (a # as) = a @ sep @ joined sep as"
  by (cases as) auto

lemma joined_split_on: "joined sep (split_on sep cur xs) = cur @ xs"
proof (induction sep cur xs rule: split_on.induct)
  case (1 sep cur xs)
  consider "sep = [] \<or> length xs < length sep" | "sep \<noteq> []" "take (length sep) xs = sep"
    | "sep \<noteq> []" "\<not> length xs < length sep" "take (length sep) xs \<noteq> sep" by blast
  then show ?case
  proof cases
    case 1
    then show ?thesis by (simp add: split_on_stop)
  next
    case 2
    then have "\<not> length xs < length sep" by (auto dest: arg_cong [of _ _ length])
    with 2 have "joined sep (split_on sep [] (drop (length sep) xs)) = drop (length sep) xs" using 1(1) by simp
    then show ?thesis using 2
      by (simp add: split_on_hit joined_Cons split_on_nonempty) (metis append_take_drop_id)
  next
    case 3
    then have "xs \<noteq> []" by auto
    then show ?thesis using 3 1(2) by (simp add: split_on_miss)
  qed
qed

lemma sublist_drop_take: "sublist p t \<longleftrightarrow> (\<exists>i. i + length p \<le> length t \<and> take (length p) (drop i t) = p)"
proof
  assume "sublist p t"
  then obtain a b where "t = a @ p @ b" by (auto simp: sublist_def)
  then show "\<exists>i. i + length p \<le> length t \<and> take (length p) (drop i t) = p" by (intro exI [of _ "length a"]) simp
next
  assume "\<exists>i. i + length p \<le> length t \<and> take (length p) (drop i t) = p"
  then obtain i where i: "take (length p) (drop i t) = p" by blast
  have "t = take i t @ take (length p) (drop i t) @ drop (length p) (drop i t)"
    by (simp only: append_take_drop_id)
  then show "sublist p t" unfolding i by (auto simp: sublist_def)
qed

lemma split_on_free:
  assumes "sep \<noteq> []" and "\<And>i. i < length cur \<Longrightarrow> take (length sep) (drop i (cur @ xs)) \<noteq> sep"
  shows "\<forall>t \<in> set (split_on sep cur xs). \<not> sublist sep t"
  using assms
proof (induction sep cur xs rule: split_on.induct)
  case (1 sep cur xs)
  have cur: "\<not> sublist sep cur"
  proof
    assume "sublist sep cur"
    then obtain i where i: "i + length sep \<le> length cur" "take (length sep) (drop i cur) = sep"
      by (auto simp: sublist_drop_take)
    then have "take (length sep) (drop i (cur @ xs)) = sep" by simp
    moreover have "i < length cur" using i(1) 1(3) by (cases sep) auto
    ultimately show False using 1(4) by blast
  qed
  consider (stop) "length xs < length sep" | (hit) "take (length sep) xs = sep"
    | (miss) "\<not> length xs < length sep" "take (length sep) xs \<noteq> sep" by blast
  then show ?case
  proof cases
    case stop
    have "\<not> sublist sep (cur @ xs)"
    proof
      assume "sublist sep (cur @ xs)"
      then obtain i where i: "i + length sep \<le> length (cur @ xs)" "take (length sep) (drop i (cur @ xs)) = sep"
        unfolding sublist_drop_take by blast
      then have "i < length cur" using stop by simp
      then show False using 1(4) i(2) by blast
    qed
    then show ?thesis using stop by (simp add: split_on_stop)
  next
    case hit
    then have "\<not> length xs < length sep" by (auto dest: arg_cong [of _ _ length])
    with hit have "\<forall>t \<in> set (split_on sep [] (drop (length sep) xs)). \<not> sublist sep t"
      using 1(1) 1(3) by simp
    then show ?thesis using hit cur 1(3) by (simp add: split_on_hit)
  next
    case miss
    then have xs: "xs \<noteq> []" by auto
    have "take (length sep) (drop i ((cur @ [hd xs]) @ tl xs)) \<noteq> sep" if "i < length (cur @ [hd xs])" for i
    proof (cases "i = length cur")
      case True
      then show ?thesis using miss xs by simp
    next
      case False
      then show ?thesis using 1(4) [of i] that xs by simp
    qed
    then have "\<forall>t \<in> set (split_on sep (cur @ [hd xs]) (tl xs)). \<not> sublist sep t"
      using 1(2) 1(3) miss by blast
    then show ?thesis using miss 1(3) by (simp add: split_on_miss)
  qed
qed

subsection \<open>The loop computes the split\<close>

lemma memcmp_0:
  "n \<le> length a \<Longrightarrow> n \<le> length b \<Longrightarrow> \<exists>r. memcmp a b n = Some r \<and> (r = 0 \<longleftrightarrow> take n a = take n b)"
proof (induction a b n rule: memcmp.induct)
  case (2 x a y b n)
  then show ?case using code_inj [of x y] by (cases "x = y") auto
qed auto

lemma sep_at_eq:
  assumes "1 \<le> n" "j + n \<le> length s" "n \<le> length sep"
  shows "sep_at s j sep n = Some (take n (drop j s) = take n sep)"
proof -
  obtain r where r: "memcmp (drop j s) sep n = Some r" "r = 0 \<longleftrightarrow> take n (drop j s) = take n sep"
  proof -
    have "n \<le> length (drop j s)" using assms by simp
    then show ?thesis using memcmp_0 [of n "drop j s" sep] assms(3) that by blast
  qed
  show ?thesis
  proof (cases "n = 1 \<and> s ! j = sep ! 0")
    case True
    then have "take n (drop j s) = take n sep" using assms
      by (cases sep) (auto simp: take_Suc hd_drop_conv_nth)
    then show ?thesis using True assms by (auto simp: sep_at_def rd_def)
  next
    case False
    then show ?thesis using r assms by (auto simp: sep_at_def rd_def)
  qed
qed

lemma put_token_yields:
  assumes "length toks < slots" "n < 2 ^ 31" "start + n \<le> length s"
  shows "\<exists>al'. set al' \<subseteq> set al \<and> ((put_token s start n slots toks al = Some (None, al') \<and> None \<in> set al)
     \<or> (\<exists>h. put_token s start n slots toks al = Some (Some (toks @ [h]), al') \<and> sds_ok h
            \<and> sds_str h = take n (drop start s)))"
proof -
  have "yields al (sdsnewlen (Some (drop start s)) n al) (take n (drop start s))"
    using assms by (intro sdsnewlen_yields) auto
  then show ?thesis using assms(1)
    by (cases rule: yieldsE) (auto simp: put_token_def)
qed

lemma grow_slots_ok:
  assumes "length toks < slots"
  shows "\<exists>al'. set al' \<subseteq> set al \<and> ((grow_slots slots (length toks) al = (None, al') \<and> None \<in> set al)
     \<or> (\<exists>slots'. grow_slots slots (length toks) al = (Some slots', al') \<and> length toks + 2 \<le> slots'))"
  using assms alloc_next_set [of al] alloc_next_None [of al]
  by (cases "alloc_next al"; cases "fst (alloc_next al)") (auto simp: grow_slots_def)

definition seg :: "nat \<Rightarrow> nat \<Rightarrow> 'a list \<Rightarrow> 'a list" where
  "seg i j xs = take (j - i) (drop i xs)"

lemma seg_snoc: "i \<le> j \<Longrightarrow> j < length xs \<Longrightarrow> seg i j xs @ [xs ! j] = seg i (Suc j) xs"
  by (simp add: seg_def Suc_diff_le take_Suc_conv_app_nth)

lemma seg_hd_tl: "j < k \<Longrightarrow> k \<le> length xs \<Longrightarrow> seg j k xs = xs ! j # seg (Suc j) k xs"
  by (simp add: seg_def Cons_nth_drop_Suc [symmetric] take_Cons' diff_Suc split: nat.split)

lemma seg_append: "i \<le> j \<Longrightarrow> j \<le> k \<Longrightarrow> k \<le> length xs \<Longrightarrow> seg i j xs @ seg j k xs = seg i k xs"
  using take_add [of "j - i" "k - j" "drop i xs"] by (simp add: seg_def)

definition split_inv :: "allocs \<Rightarrow> char list \<Rightarrow> nat \<Rightarrow> string list \<Rightarrow> split_state option \<Rightarrow> bool" where
  "split_inv al s len ts r \<longleftrightarrow>
     (case r of None \<Rightarrow> False
      | Some (SplitCleanup al') \<Rightarrow> None \<in> set al
      | Some (SplitDone slots start toks al') \<Rightarrow> set al' \<subseteq> set al \<and> length toks < slots \<and> start \<le> len
          \<and> (\<forall>t \<in> set toks. sds_ok t) \<and> map sds_str toks @ [seg start len s] = ts)"

lemma split_inv_mono: "split_inv al' s len ts r \<Longrightarrow> set al' \<subseteq> set al \<Longrightarrow> split_inv al s len ts r"
  by (auto simp: split_inv_def split: option.splits split_state.splits)

lemma split_loop_inv:
  assumes "sep \<noteq> []" "len \<le> length s" "len < 2 ^ 31"
  shows "start \<le> j \<Longrightarrow> j \<le> len \<Longrightarrow> length toks < slots \<Longrightarrow> \<forall>t \<in> set toks. sds_ok t \<Longrightarrow>
     split_inv al s len (map sds_str toks @ split_on sep (seg start j s) (seg j len s))
       (split_loop s len sep (length sep) j slots start toks al)"
proof (induction "len - j" arbitrary: j slots start toks al rule: less_induct)
  case less
  let ?n = "length sep"
  have ll: "length (seg j len s) = len - j" using assms(2) less.prems by (simp add: seg_def)
  show ?case
  proof (cases "int j < int len - (int ?n - 1)")
    case False
    then have "length (seg j len s) < ?n" using ll assms(1) by (cases sep) auto
    then have "split_on sep (seg start j s) (seg j len s) = [seg start len s]"
      using less.prems assms(2) by (simp add: split_on_stop seg_append)
    then show ?thesis using False less.prems assms(1) by (subst split_loop.simps) (auto simp: split_inv_def)
  next
    case True
    then have jn: "j + ?n \<le> len" by simp
    obtain al1 where al1: "set al1 \<subseteq> set al"
      and g: "(grow_slots slots (length toks) al = (None, al1) \<and> None \<in> set al)
       \<or> (\<exists>slots'. grow_slots slots (length toks) al = (Some slots', al1) \<and> length toks + 2 \<le> slots')"
      using grow_slots_ok [OF less.prems(3), of al] by blast
    from g show ?thesis
    proof (elim disjE exE conjE)
      assume "grow_slots slots (length toks) al = (None, al1)" "None \<in> set al"
      then show ?thesis using True assms(1) by (subst split_loop.simps) (simp add: split_inv_def)
    next
      fix slots' assume g: "grow_slots slots (length toks) al = (Some slots', al1)" "length toks + 2 \<le> slots'"
      have n1: "1 \<le> ?n" using assms(1) by (cases sep) auto
      have sep: "sep_at s j sep ?n = Some (take ?n (drop j s) = sep)"
        using n1 jn assms(2) by (simp add: sep_at_eq)
      have take: "take ?n (seg j len s) = take ?n (drop j s)" using jn by (simp add: seg_def min_def)
      show ?thesis
      proof (cases "take ?n (drop j s) = sep")
        case hit: True
        have d: "drop ?n (seg j len s) = seg (j + ?n) len s" by (simp add: seg_def drop_take add.commute)
        have so: "split_on sep (seg start j s) (seg j len s)
            = seg start j s # split_on sep (seg (j + ?n) (j + ?n) s) (seg (j + ?n) len s)"
          using hit assms(1) take by (simp add: split_on_hit d) (simp add: seg_def)
        obtain al2 where al2: "set al2 \<subseteq> set al1"
          and p: "(put_token s start (j - start) slots' toks al1 = Some (None, al2) \<and> None \<in> set al1)
           \<or> (\<exists>h. put_token s start (j - start) slots' toks al1 = Some (Some (toks @ [h]), al2) \<and> sds_ok h
              \<and> sds_str h = seg start j s)"
        proof -
          have "length toks < slots'" "j - start < 2 ^ 31" "start + (j - start) \<le> length s"
            using g(2) less.prems assms by auto
          then show ?thesis using put_token_yields [of toks slots' "j - start" start s al1] that
            unfolding seg_def by blast
        qed
        from p show ?thesis
        proof (elim disjE exE conjE)
          assume "put_token s start (j - start) slots' toks al1 = Some (None, al2)" "None \<in> set al1"
          then show ?thesis using True assms(1) g sep hit al1
            by (subst split_loop.simps) (auto simp: split_inv_def)
        next
          fix h assume h: "put_token s start (j - start) slots' toks al1 = Some (Some (toks @ [h]), al2)"
            "sds_ok h" "sds_str h = seg start j s"
          have "split_loop s len sep ?n j slots start toks al
              = split_loop s len sep ?n (j + ?n) slots' (j + ?n) (toks @ [h]) al2"
            using True assms(1) g sep hit h n1 by (subst split_loop.simps) simp
          moreover have "len - (j + ?n) < len - j" using jn n1 by linarith
          ultimately show ?thesis
            using less.hyps [of "j + ?n" "j + ?n" "toks @ [h]" slots' al2] jn n1 g(2) less.prems(4) h so al1 al2
            by (auto intro: split_inv_mono)
        qed
      next
        case miss: False
        have "split_loop s len sep ?n j slots start toks al = split_loop s len sep ?n (Suc j) slots' start toks al1"
          using True assms(1) g sep miss by (subst split_loop.simps) simp
        moreover have "split_on sep (seg start j s) (seg j len s)
            = split_on sep (seg start (Suc j) s) (seg (Suc j) len s)"
          using miss assms jn n1 less.prems take ll
          by (subst split_on_miss) (auto simp: seg_hd_tl seg_snoc)
        moreover have "len - Suc j < len - j" using jn n1 by linarith
        ultimately show ?thesis
          using less.hyps [of "Suc j" start toks slots' al1] jn n1 g(2) less.prems al1
          by (auto intro: split_inv_mono)
      qed
    qed
  qed
qed

lemma sdssplitlen_ok:
  assumes "sep \<noteq> []" "length sep < 2 ^ 31" "xs \<noteq> []" "length xs < 2 ^ 31" "None \<notin> set al"
  shows "\<exists>toks al'. sdssplitlen xs (int (length xs)) sep (int (length sep)) al
      = Some (Some toks, Some (length toks), al') \<and> (\<forall>t \<in> set toks. sds_ok t)
      \<and> map sds_str toks = split_on sep [] xs"
proof -
  obtain f al1 where al1: "alloc_next al = (Some f, al1)" "None \<notin> set al1"
    using assms(5) alloc_next_set [of al] alloc_next_None [of al] by (cases "alloc_next al"; cases "fst (alloc_next al)") auto
  let ?r = "split_loop xs (length xs) sep (length sep) 0 5 0 [] al1"
  have "split_inv al1 xs (length xs) (split_on sep [] xs) ?r"
    using split_loop_inv [OF assms(1) order_refl assms(4), of 0 0 "[]" 5 al1] by (simp add: seg_def)
  then obtain slots start toks al2 where r: "?r = Some (SplitDone slots start toks al2)"
    and 2: "set al2 \<subseteq> set al1" "length toks < slots" "start \<le> length xs" "\<forall>t \<in> set toks. sds_ok t"
      "map sds_str toks @ [seg start (length xs) xs] = split_on sep [] xs"
    using al1(2) by (auto simp: split_inv_def split: option.splits split_state.splits)
  have "length xs - start < 2 ^ 31" "start + (length xs - start) \<le> length xs" using 2 assms(4) by auto
  then obtain h al3 where h: "put_token xs start (length xs - start) slots toks al2 = Some (Some (toks @ [h]), al3)"
      "sds_ok h" "sds_str h = seg start (length xs) xs"
    using put_token_yields [OF 2(2), of "length xs - start" start xs al2] 2(1) al1(2) unfolding seg_def by blast
  have n: "\<not> (int (length sep) < 1 \<or> int (length xs) < 0)" "int (length xs) \<noteq> 0" using assms(1,3) by (auto simp: Suc_le_eq)
  have "sdssplitlen xs (int (length xs)) sep (int (length sep)) al = Some (Some (toks @ [h]), Some (length (toks @ [h])), al3)"
    unfolding sdssplitlen_def using n by (simp add: al1 r h)
  moreover have "\<forall>t \<in> set (toks @ [h]). sds_ok t" "map sds_str (toks @ [h]) = split_on sep [] xs" using 2 h by auto
  ultimately show ?thesis by blast
qed

section \<open>The fast formatter\<close>

definition conv_text :: "char \<Rightarrow> fmt_arg list \<Rightarrow> (string \<times> fmt_arg list) option" where
  \<comment> \<open>the text of one conversion of the table before \<open>sdscatfmt\<close>, and the arguments left\<close>
  "conv_text d args =
     (if d = CHR ''s'' then (case args of FStr t # r \<Rightarrow> Some (nul_cut t, r) | _ \<Rightarrow> None)
      else if d = CHR ''S'' then (case args of FSds t # r \<Rightarrow> if sds_ok t then Some (sds_str t, r) else None | _ \<Rightarrow> None)
      else if d = CHR ''i'' then (case args of FInt w # r \<Rightarrow> Some (dec_int (sint w), r) | _ \<Rightarrow> None)
      else if d = CHR ''I'' then (case args of FLong w # r \<Rightarrow> Some (dec_int (sint w), r) | _ \<Rightarrow> None)
      else if d = CHR ''u'' then (case args of FInt w # r \<Rightarrow> Some (dec_nat (unat w), r) | _ \<Rightarrow> None)
      else if d = CHR ''U'' then (case args of FLong w # r \<Rightarrow> Some (dec_nat (unat w), r) | _ \<Rightarrow> None)
      else Some ([d], args))"

fun fmt_text :: "string \<Rightarrow> fmt_arg list \<Rightarrow> string option" where
  "fmt_text [] args = Some []"
| "fmt_text [c] args = (if c = CHR ''%'' then None else Some [c])"
| "fmt_text (c # d # f) args =
     (if c = CHR ''%'' then
        (case conv_text d args of None \<Rightarrow> None
         | Some (x, r) \<Rightarrow> map_option (append x) (fmt_text f r))
      else map_option (Cons c) (fmt_text (d # f) args))"

definition wrote :: "sdshdr \<Rightarrow> string \<Rightarrow> sdshdr \<Rightarrow> int \<Rightarrow> allocs \<Rightarrow> bool" where
  \<comment> \<open>\<open>x\<close> was appended and \<open>i\<close> is the next position\<close>
  "wrote s x s' i al \<longleftrightarrow> sds_fit s' \<and> sds_str s' = sds_str s @ x \<and> sds_len s' = sds_len s + length x
     \<and> i = int (sds_len s') \<and> None \<notin> set al"

lemma wrote_trans:
  "wrote s x s1 i1 al1 \<Longrightarrow> wrote s1 y s2 i2 al2 \<Longrightarrow> wrote s (x @ y) s2 i2 al2"
  by (simp add: wrote_def)

lemma catfmt_room_ok:
  assumes "sds_fit s" "sds_len s + l < 2 ^ 31" "None \<notin> set al"
  shows "\<exists>s' al'. catfmt_room s l al = Some (s', al') \<and> sds_fit s' \<and> sds_len s' = sds_len s
     \<and> sds_str s' = sds_str s \<and> l \<le> sds_free s' \<and> None \<notin> set al'"
  using assms(1,2)
proof (cases rule: sdsMakeRoomFor_fit [where al = al])
  case (null al')
  then show ?thesis using assms(3) by simp
next
  case (room s' al')
  have "sds_str s' = take (sds_len s) (take (sds_len s + 1) (sds_buf s'))" using room(3) by (simp add: sds_str_def)
  then have "sds_str s' = sds_str s" unfolding room(4) by (simp add: sds_str_def)
  then show ?thesis using room assms(3) by (auto simp: catfmt_room_def)
qed

lemma catfmt_bytes_ok:
  assumes "sds_fit s" "sds_len s + l < 2 ^ 31" "l \<le> length str" "None \<notin> set al"
  shows "\<exists>s' i' al'. catfmt_bytes s (int (sds_len s)) str l al = Some (s', i', al') \<and> wrote s (take l str) s' i' al'"
proof -
  obtain s1 al1 where 1: "(if sds_free s < l then catfmt_room s l al else Some (s, al)) = Some (s1, al1)"
    "sds_fit s1" "sds_len s1 = sds_len s" "sds_str s1 = sds_str s" "l \<le> sds_free s1" "None \<notin> set al1"
  proof (cases "sds_free s < l")
    case True
    then show ?thesis using catfmt_room_ok [OF assms(1,2,4)] that by auto
  next
    case False
    then show ?thesis using assms that [of s al] by simp
  qed
  let ?b = "take (sds_len s) (sds_buf s1) @ take l str @ drop (sds_len s + l) (sds_buf s1)"
  let ?s = "\<lparr>sds_len = sds_len s + l, sds_free = sds_free s1 - l, sds_buf = ?b\<rparr>"
  have f: "length (sds_buf s1) = sds_len s + sds_free s1 + 1" "sds_len s + sds_free s1 < 2 ^ 32"
    using 1(2,3) by (auto simp: sds_fit_def)
  have "catfmt_bytes s (int (sds_len s)) str l al = Some (?s, int (sds_len s + l), al1)"
    using assms f 1 by (simp add: catfmt_bytes_def idx_def mem_simps min_absorb2 u32_sub_eq s32_id)
  moreover have "wrote s (take l str) ?s (int (sds_len s + l)) al1"
    using f 1 assms(1,3) by (simp add: wrote_def sds_fit_def sds_str_def min_absorb2)
  ultimately show ?thesis by blast
qed

lemma catfmt_char_ok:
  assumes "sds_fit s" "sds_len s + 1 < 2 ^ 31" "0 < sds_free s" "None \<notin> set al"
  shows "\<exists>s' i'. catfmt_char s (int (sds_len s)) c = Some (s', i') \<and> wrote s [c] s' i' al"
proof -
  let ?b = "(sds_buf s)[sds_len s := c]"
  let ?s = "\<lparr>sds_len = sds_len s + 1, sds_free = sds_free s - 1, sds_buf = ?b\<rparr>"
  have "catfmt_char s (int (sds_len s)) c = Some (?s, int (sds_len s + 1))"
    using assms by (simp add: catfmt_char_def idx_def poke_def sds_fit_def u32_sub_eq s32_id)
  moreover have "wrote s [c] ?s (int (sds_len s + 1)) al"
    using assms by (simp add: wrote_def sds_fit_def sds_str_def take_Suc_conv_app_nth)
  ultimately show ?thesis by blast
qed

lemma catfmt_spec_ok:
  assumes "sds_fit s" "conv_text d args = Some (x, r)" "sds_len s + length x < 2 ^ 31" "0 < sds_free s" "None \<notin> set al"
    "d \<noteq> NUL"
  shows "\<exists>s' i' al'. catfmt_spec s (int (sds_len s)) d args al = Some (s', i', r, al') \<and> wrote s x s' i' al'"
proof -
  have num: "\<exists>s' i' al'. (do { (buf, l) \<leftarrow> sdsll2str llstr_buf v; (s, i, al) \<leftarrow> catfmt_bytes s (int (sds_len s)) buf l al;
      Some (s, i, r, al) }) = Some (s', i', r, al') \<and> wrote s x s' i' al'"
    if e: "x = dec_int (sint v)" for v :: "64 word"
  proof -
    obtain junk where "sdsll2str llstr_buf v = Some (x @ junk, length x)" using llstr(1) [of v] unfolding e by blast
    then show ?thesis using catfmt_bytes_ok [OF assms(1,3), of "x @ junk" al] assms(5) by auto
  qed
  have unum: "\<exists>s' i' al'. (do { (buf, l) \<leftarrow> sdsull2str llstr_buf v; (s, i, al) \<leftarrow> catfmt_bytes s (int (sds_len s)) buf l al;
      Some (s, i, r, al) }) = Some (s', i', r, al') \<and> wrote s x s' i' al'"
    if e: "x = dec_nat (unat v)" for v :: "64 word"
  proof -
    obtain junk where "sdsull2str llstr_buf v = Some (x @ junk, length x)" using llstr(2) [of v] unfolding e by blast
    then show ?thesis using catfmt_bytes_ok [OF assms(1,3), of "x @ junk" al] assms(5) by auto
  qed
  consider (s) t where "d = CHR ''s''" "args = FStr t # r" "x = nul_cut t"
    | (S) t where "d = CHR ''S''" "args = FSds t # r" "x = sds_str t" "sds_ok t"
    | (i) w where "d = CHR ''i''" "args = FInt w # r" "x = dec_int (sint w)"
    | (I) w where "d = CHR ''I''" "args = FLong w # r" "x = dec_int (sint w)"
    | (u) w where "d = CHR ''u''" "args = FInt w # r" "x = dec_nat (unat w)"
    | (U) w where "d = CHR ''U''" "args = FLong w # r" "x = dec_nat (unat w)"
    | (other) "d \<noteq> CHR ''s''" "d \<noteq> CHR ''S''" "d \<noteq> CHR ''i''" "d \<noteq> CHR ''I''" "d \<noteq> CHR ''u''" "d \<noteq> CHR ''U''"
        "x = [d]" "args = r"
    using assms(2) by (auto simp: conv_text_def split: if_splits list.splits fmt_arg.splits)
  then show ?thesis
  proof cases
    case s
    have n: "cstrlen t = length x" "take (cstrlen t) (t @ [NUL]) = x" "cstrlen t \<le> length (t @ [NUL])"
      using cstrlen_le [of t] take_cstrlen [of t] by (simp_all add: s nul_cut_def cstrlen_def)
    then show ?thesis using catfmt_bytes_ok [OF assms(1,3), of "t @ [NUL]" al] assms(3,5) s
      by (auto simp: catfmt_spec_def)
  next
    case S
    then have n: "sds_len t = length x" "take (sds_len t) (sds_buf t) = x" "sds_len t \<le> length (sds_buf t)"
      by (auto simp: sds_str_def sds_ok_def)
    then show ?thesis using catfmt_bytes_ok [OF assms(1,3), of "sds_buf t" al] assms(3,5) S(1,2)
      by (auto simp: catfmt_spec_def sdslen_def)
  next
    case i
    have "sint (scast w :: 64 word) = sint w" by (rule sint_up_scast) (simp add: is_up)
    with i show ?thesis using num [of "scast w"] by (auto simp: catfmt_spec_def)
  next
    case I
    then show ?thesis using num [of w] by (auto simp: catfmt_spec_def)
  next
    case u
    have "uint (ucast w :: 64 word) = uint w" by (rule uint_up_ucast) (simp add: is_up)
    then have "unat (ucast w :: 64 word) = unat w" by (simp only: nat_uint_eq [symmetric])
    with u show ?thesis using unum [of "ucast w"] by (auto simp: catfmt_spec_def)
  next
    case U
    then show ?thesis using unum [of w] by (auto simp: catfmt_spec_def)
  next
    case other
    then show ?thesis using catfmt_char_ok [OF assms(1) _ assms(4,5), of d] assms(3) by (auto simp: catfmt_spec_def)
  qed
qed

lemma catfmt_ensure:
  assumes "sds_fit s" "sds_len s < 2 ^ 31 - 1" "None \<notin> set al"
  obtains s1 al1 where "(if sds_free s = 0 then catfmt_room s 1 al else Some (s, al)) = Some (s1, al1)"
    "sds_fit s1" "sds_len s1 = sds_len s" "sds_str s1 = sds_str s" "None \<notin> set al1" "0 < sds_free s1"
proof (cases "sds_free s = 0")
  case True
  have "sds_len s + 1 < 2 ^ 31" using assms(2) by simp
  then obtain s1 al1 where "catfmt_room s 1 al = Some (s1, al1)" "sds_fit s1" "sds_len s1 = sds_len s"
    "sds_str s1 = sds_str s" "1 \<le> sds_free s1" "None \<notin> set al1"
    using catfmt_room_ok [OF assms(1) _ assms(3)] by blast
  then show ?thesis using True by (intro that [of s1 al1]) simp_all
next
  case False
  then show ?thesis using assms that [of s al] by simp
qed

lemma wrote_same: "wrote s1 x s2 i al \<Longrightarrow> sds_len s1 = sds_len s \<Longrightarrow> sds_str s1 = sds_str s \<Longrightarrow> wrote s x s2 i al"
  by (simp add: wrote_def)

lemma catfmt_loop_char:
  assumes "c \<noteq> CHR ''%''" "c \<noteq> NUL" "sds_fit s" "sds_len s < 2 ^ 31 - 1" "None \<notin> set al"
  shows "\<exists>s' al'. catfmt_loop (c # f) s (int (sds_len s)) args al = catfmt_loop f s' (int (sds_len s')) args al'
     \<and> wrote s [c] s' (int (sds_len s')) al'"
proof -
  obtain s1 al1 where 1: "(if sds_free s = 0 then catfmt_room s 1 al else Some (s, al)) = Some (s1, al1)"
    "sds_fit s1" "sds_len s1 = sds_len s" "sds_str s1 = sds_str s" "None \<notin> set al1" "0 < sds_free s1"
    by (rule catfmt_ensure [OF assms(3-5)])
  obtain s2 i2 where 2: "catfmt_char s1 (int (sds_len s1)) c = Some (s2, i2)" "wrote s1 [c] s2 i2 al1"
  proof -
    have "sds_len s1 + 1 < 2 ^ 31" using 1(3) assms(4) by simp
    then show ?thesis using catfmt_char_ok [OF 1(2) _ 1(6,5)] that by blast
  qed
  have i: "i2 = int (sds_len s2)" "sds_len s1 = sds_len s" using 1(3) 2(2) by (simp_all add: wrote_def)
  have "catfmt_loop (c # f) s (int (sds_len s)) args al = catfmt_loop f s2 (int (sds_len s2)) args al1"
    by (subst catfmt_loop.simps, simp only: list.case assms(1,2) if_False, simp only: 1(1) option.case prod.case,
        simp only: 2(1) [unfolded i] option.case prod.case)
  moreover have "wrote s [c] s2 (int (sds_len s2)) al1" using wrote_same [OF 2(2) 1(3,4)] unfolding i .
  ultimately show ?thesis by blast
qed

lemma catfmt_loop_conv:
  assumes "conv_text d args = Some (x, r)" "d \<noteq> NUL" "sds_fit s" "sds_len s + length x < 2 ^ 31 - 1" "None \<notin> set al"
  shows "\<exists>s' al'. catfmt_loop (CHR ''%'' # d # f) s (int (sds_len s)) args al = catfmt_loop f s' (int (sds_len s')) r al'
     \<and> wrote s x s' (int (sds_len s')) al'"
proof -
  have "sds_len s < 2 ^ 31 - 1" using assms(4) by simp
  then obtain s1 al1 where 1: "(if sds_free s = 0 then catfmt_room s 1 al else Some (s, al)) = Some (s1, al1)"
    "sds_fit s1" "sds_len s1 = sds_len s" "sds_str s1 = sds_str s" "None \<notin> set al1" "0 < sds_free s1"
    by (rule catfmt_ensure [OF assms(3) _ assms(5)])
  obtain s2 i2 al2 where 2: "catfmt_spec s1 (int (sds_len s1)) d args al1 = Some (s2, i2, r, al2)" "wrote s1 x s2 i2 al2"
  proof -
    have "sds_len s1 + length x < 2 ^ 31" using 1(3) assms(4) by simp
    then show ?thesis using catfmt_spec_ok [OF 1(2) assms(1) _ 1(6,5) assms(2)] that by blast
  qed
  have i: "i2 = int (sds_len s2)" "sds_len s1 = sds_len s" using 1(3) 2(2) by (simp_all add: wrote_def)
  have "catfmt_loop (CHR ''%'' # d # f) s (int (sds_len s)) args al = catfmt_loop f s2 (int (sds_len s2)) r al2"
  proof -
    have "CHR ''%'' \<noteq> NUL" by simp
    then show ?thesis
      by (subst catfmt_loop.simps, simp only: list.case if_False if_True simp_thms, simp only: 1(1) option.case prod.case,
          simp only: 2(1) [unfolded i] option.case prod.case if_True simp_thms)
  qed
  moreover have "wrote s x s2 (int (sds_len s2)) al2" using wrote_same [OF 2(2) 1(3,4)] unfolding i .
  ultimately show ?thesis by blast
qed

lemma catfmt_loop_ok:
  assumes "fmt_text fmt args = Some x" "NUL \<notin> set fmt"
    "sds_fit s" "sds_len s + length x < 2 ^ 31 - 1" "None \<notin> set al"
  shows "\<exists>s' i' al'. catfmt_loop (fmt @ [NUL]) s (int (sds_len s)) args al = Some (s', i', al') \<and> wrote s x s' i' al'"
  using assms
proof (induction fmt args arbitrary: s x al rule: fmt_text.induct)
  case (1 args)
  then show ?case by (simp add: catfmt_loop.simps wrote_def)
next
  case (2 c args)
  then have c: "c \<noteq> CHR ''%''" "c \<noteq> NUL" "x = [c]" "sds_len s < 2 ^ 31 - 1" by (auto split: if_splits)
  obtain s' al' where "catfmt_loop [c, NUL] s (int (sds_len s)) args al = catfmt_loop [NUL] s' (int (sds_len s')) args al'"
    "wrote s [c] s' (int (sds_len s')) al'"
    using catfmt_loop_char [OF c(1,2) 2(3) c(4) 2(5), of "[NUL]" args] by blast
  then show ?case using c(3) by (simp add: catfmt_loop.simps [of "[NUL]"])
next
  case (3 c d f args)
  show ?case
  proof (cases "c = CHR ''%''")
    case True
    then obtain y r z where y: "conv_text d args = Some (y, r)" "fmt_text f r = Some z" "x = y @ z"
      using 3(3) by (auto split: option.splits)
    have d: "d \<noteq> NUL" "NUL \<notin> set f" using 3(4) by auto
    have n: "sds_len s + length y < 2 ^ 31 - 1" using 3(6) y(3) by simp
    obtain s1 al1 where 1: "catfmt_loop (CHR ''%'' # d # f @ [NUL]) s (int (sds_len s)) args al
        = catfmt_loop (f @ [NUL]) s1 (int (sds_len s1)) r al1" "wrote s y s1 (int (sds_len s1)) al1"
      using catfmt_loop_conv [OF y(1) d(1) 3(5) n 3(7), of "f @ [NUL]"] by blast
    have "sds_fit s1" "sds_len s1 + length z < 2 ^ 31 - 1" "None \<notin> set al1"
      using 1(2) 3(6) y(3) by (auto simp: wrote_def)
    then obtain s2 i2 al2 where "catfmt_loop (f @ [NUL]) s1 (int (sds_len s1)) r al1 = Some (s2, i2, al2)" "wrote s1 z s2 i2 al2"
      using 3(1) [OF True y(1) refl y(2) d(2), of s1 al1] by blast
    then show ?thesis using 1 True y(3) wrote_trans by auto
  next
    case False
    then obtain y where y: "fmt_text (d # f) args = Some y" "x = c # y" using 3(3) by auto
    have c: "c \<noteq> NUL" "NUL \<notin> set (d # f)" using 3(4) by auto
    have n: "sds_len s < 2 ^ 31 - 1" using 3(6) y(2) by simp
    obtain s1 al1 where 1: "catfmt_loop (c # (d # f) @ [NUL]) s (int (sds_len s)) args al
        = catfmt_loop ((d # f) @ [NUL]) s1 (int (sds_len s1)) args al1" "wrote s [c] s1 (int (sds_len s1)) al1"
      using catfmt_loop_char [OF False c(1) 3(5) n 3(7), of "(d # f) @ [NUL]"] by blast
    have "sds_fit s1" "sds_len s1 + length y < 2 ^ 31 - 1" "None \<notin> set al1"
      using 1(2) 3(6) y(2) by (auto simp: wrote_def)
    then obtain s2 i2 al2 where "catfmt_loop ((d # f) @ [NUL]) s1 (int (sds_len s1)) args al1 = Some (s2, i2, al2)" "wrote s1 y s2 i2 al2"
      using 3(2) [OF False y(1) c(2), of s1 al1] by blast
    then show ?thesis using 1 y(2) wrote_trans [OF 1(2)] by fastforce
  qed
qed

lemma sdscatfmt_ok:
  assumes "sds_ok s" "fmt_text fmt args = Some x" "NUL \<notin> set fmt" "sds_len s + length x < 2 ^ 31 - 1" "None \<notin> set al"
  shows "\<exists>s' al'. sdscatfmt s fmt args al = Some (s', al') \<and> sds_ok s' \<and> sds_str s' = sds_str s @ x"
proof -
  have "sds_fit s" using assms(1) by (simp add: sds_ok_fit)
  then obtain s1 i al1 where 1: "catfmt_loop (fmt @ [NUL]) s (int (sds_len s)) args al = Some (s1, i, al1)" "wrote s x s1 i al1"
    using catfmt_loop_ok [OF assms(2,3) _ assms(4,5)] by blast
  have n: "sds_len s < 2 ^ 31" using assms(4) by simp
  have "sdscatfmt s fmt args al = Some (s1\<lparr>sds_buf := (sds_buf s1)[sds_len s1 := NUL]\<rparr>, al1)"
  proof -
    have i: "idx i = Some (sds_len s1)" using 1(2) by (simp add: wrote_def idx_def)
    have "poke (sds_len s1) NUL (sds_buf s1) = Some ((sds_buf s1)[sds_len s1 := NUL])"
      using 1(2) by (simp add: wrote_def sds_fit_def poke_def)
    then show ?thesis using n by (simp add: sdscatfmt_def sdslen_def 1(1) i)
  qed
  then show ?thesis using 1(2) by (auto simp: wrote_def sds_ok_def sds_fit_def sds_str_def)
qed

lemma split_on_set: "t \<in> set (split_on sep cur xs) \<Longrightarrow> set t \<subseteq> set cur \<union> set xs"
proof (induction sep cur xs rule: split_on.induct)
  case (1 sep cur xs)
  consider "sep = [] \<or> length xs < length sep" | "sep \<noteq> []" "\<not> length xs < length sep" "take (length sep) xs = sep"
    | "sep \<noteq> []" "\<not> length xs < length sep" "take (length sep) xs \<noteq> sep" by blast
  then show ?case
  proof cases
    case 1
    with "1.prems" show ?thesis by (simp add: split_on_stop)
  next
    case 2
    then have "t = cur \<or> t \<in> set (split_on sep [] (drop (length sep) xs))" using "1.prems" by (simp add: split_on_hit)
    then show ?thesis using 2 "1.IH"(1) set_drop_subset [of "length sep" xs] by auto
  next
    case 3
    then have "xs \<noteq> []" by auto
    then have s: "set (cur @ [hd xs]) \<union> set (tl xs) = set cur \<union> set xs" by (cases xs) auto
    have "t \<in> set (split_on sep (cur @ [hd xs]) (tl xs))" using "1.prems" 3 by (simp add: split_on_miss)
    then have "set t \<subseteq> set (cur @ [hd xs]) \<union> set (tl xs)" using "1.IH"(2) 3 by blast
    then show ?thesis unfolding s .
  qed
qed

lemma nul_cut_id: "NUL \<notin> set s \<Longrightarrow> nul_cut s = s"
proof -
  assume "NUL \<notin> set s"
  then have "\<forall>x \<in> set s. x \<noteq> NUL" by blast
  then show ?thesis unfolding nul_cut_def by (simp only: takeWhile_eq_all_conv)
qed

lemma length_quoted: "length s \<le> length (quoted s)"
proof -
  have "1 \<le> length (esc c)" for c by (simp add: esc_def)
  then have "length (c # s) \<le> length (esc c) + length s" for c s by simp
  then have "length s \<le> length (concat (map esc s))" by (induction s) (auto intro: order_trans)
  then show ?thesis by (simp add: quoted_def)
qed

section \<open>Properties\<close>

text \<open>
  C10: \<open>sdsll2str\<close> writes the decimal text of every 64-bit value and its terminator, the smallest
  value included, into a buffer of \<open>SDS_LLSTR_SIZE\<close> bytes and returns the length of the text.
\<close>
theorem sdsll2str_decimal:
  assumes "length buf = SDS_LLSTR_SIZE"
  shows "\<exists>rest. sdsll2str buf v = Some (dec_int (sint v) @ NUL # rest, length (dec_int (sint v)))
     \<and> length (dec_int (sint v)) + 1 + length rest = SDS_LLSTR_SIZE"
  using sdsll2str_eq [of v buf] length_dec_sint64 [of v] assms by (simp add: SDS_LLSTR_SIZE_def)

theorem sdsll2str_decimal_witness:
  "\<exists>rest. sdsll2str (replicate 21 (CHR ''?'')) (- 42) = Some (''-42'' @ NUL # rest, 3)"
proof -
  have "dec_int (sint (- 42 :: 64 word)) = ''-42''" by code_simp
  then show ?thesis using sdsll2str_decimal [of "replicate 21 (CHR ''?'')" "- 42"]
    unfolding SDS_LLSTR_SIZE_def by auto
qed

lemma length_nul_cut: "length (nul_cut s) \<le> length s"
  by (simp add: nul_cut_def length_takeWhile_le)

lemma length_joined_nul_cut: "length (joined (nul_cut sep) (map nul_cut ts)) \<le> length (joined sep ts)"
proof (induction ts rule: induct_list012)
  case (3 t u ts)
  then show ?case using length_nul_cut [of sep] length_nul_cut [of t] by simp
qed (simp_all add: length_nul_cut)

text \<open>
  C11: splitting at a separator and joining.  The tokens of \<open>sdssplitlen\<close>, which is binary safe, do not
  contain the separator, with the separator between them they are the input, byte for byte, and the
  array of tokens never overflows.  \<open>sdsjoin\<close> appends with \<open>sdscat\<close>, which stops at the first NUL: it
  gives the tokens and the separator up to their first NUL, and so gives the input back when neither
  the input nor the separator has one.  (No allocation fails; the lengths fit in an \<open>int\<close>.)
\<close>
theorem split_then_join:
  assumes "sep \<noteq> []" "length sep < 2 ^ 31" "xs \<noteq> []" "length xs < 2 ^ 31" "None \<notin> set al"
  shows "\<exists>toks h al1 al2. sdssplitlen xs (int (length xs)) sep (int (length sep)) al = Some (Some toks, Some (length toks), al1)
     \<and> (\<forall>t \<in> set toks. \<not> sublist sep (sds_str t)) \<and> joined sep (map sds_str toks) = xs
     \<and> sdsjoin (map sds_str toks) sep al = Some (Some h, al2)
     \<and> sds_str h = joined (nul_cut sep) (map (nul_cut \<circ> sds_str) toks)
     \<and> (NUL \<notin> set xs \<and> NUL \<notin> set sep \<longrightarrow> sds_str h = xs)"
proof -
  obtain toks al1 where 1: "sdssplitlen xs (int (length xs)) sep (int (length sep)) al = Some (Some toks, Some (length toks), al1)"
    "map sds_str toks = split_on sep [] xs"
    using sdssplitlen_ok [OF assms] by blast
  have j: "joined sep (map sds_str toks) = xs" by (simp add: 1(2) joined_split_on)
  have "length (joined (nul_cut sep) (map nul_cut (map sds_str toks))) < 2 ^ 31"
    using length_joined_nul_cut [of sep "map sds_str toks"] assms(4) unfolding j by linarith
  then obtain h al2 where 2: "sdsjoin (map sds_str toks) sep al = Some (Some h, al2)"
    "sds_str h = joined (nul_cut sep) (map (nul_cut \<circ> sds_str) toks)"
    using sdsjoin_ok [of sep "map sds_str toks" al] assms(5) by (auto simp: comp_def)
  have "sds_str h = xs" if "NUL \<notin> set xs" "NUL \<notin> set sep"
  proof -
    have "map nul_cut (map sds_str toks) = map sds_str toks" "nul_cut sep = sep"
      using that split_on_set [where sep = sep and cur = "[]" and xs = xs]
      unfolding 1(2) by (auto simp: nul_cut_id intro!: map_idI nul_cut_id)
    then show ?thesis using 2(2) j by (simp flip: map_map)
  qed
  moreover have "\<forall>t \<in> set toks. \<not> sublist sep (sds_str t)"
    using split_on_free [OF assms(1), of "[]" xs] by (simp add: 1(2) [symmetric])
  ultimately show ?thesis using 1(1) 2 j by blast
qed

theorem split_then_join_witness:
  "\<exists>toks h al1 al2. sdssplitlen ''foo_-_bar'' 9 ''_-_'' 3 [] = Some (Some toks, Some (length toks), al1)
     \<and> sdsjoin (map sds_str toks) ''_-_'' [] = Some (Some h, al2) \<and> sds_str h = ''foo_-_bar''"
  using split_then_join [of "''_-_''" "''foo_-_bar''" "[]"] by auto

lemma sdsjoin_stops_at_NUL: "map_option (map_option sds_str \<circ> fst) (sdsjoin [''a'' @ NUL # ''b'', ''c''] '','' []) = Some (Some ''a,c'')"
  using sdsjoin_ok [of "'',''" "[''a'' @ NUL # ''b'', ''c'']" "[]"] by (auto simp: nul_cut_def)

text \<open>
  C12: quoting is undone by the argument parser: what \<open>sdscatrepr\<close> appends for any byte string,
  read by \<open>sdssplitargs\<close>, is one argument, equal to that string.
\<close>
theorem repr_then_splitargs:
  assumes "length (quoted (take n p)) < 2 ^ 31" "n \<le> length p" "None \<notin> set al"
  shows "\<exists>e q t al1 al2 al3. sdsempty al = Some (Some e, al1) \<and> sdscatrepr (Some e) p n al1 = Some (Some q, al2)
     \<and> sdssplitargs (sds_str q) al2 = Some (Some [Some t], 1, al3) \<and> sds_str t = take n p"
proof -
  obtain e al1 where 1: "sdsempty al = Some (Some e, al1)" "sds_ok e" "sds_str e = []" "None \<notin> set al1"
    using yields_ok [OF sdsempty_yields assms(3)] .
  obtain q al2 where 2: "sdscatrepr (Some e) p n al1 = Some (Some q, al2)" "sds_str q = quoted (take n p)" "None \<notin> set al2"
    using sdscatrepr_ok [OF 1(2) assms(2) _ 1(4)] 1(3) assms(1) by auto
  have "length (take n p) < 2 ^ 31" using length_quoted [of "take n p"] assms(1) by linarith
  then show ?thesis using splitargs_quoted [of "take n p" al2] 1(1) 2 by auto
qed

theorem repr_then_splitargs_witness:
  "\<exists>e q t al1 al2 al3. sdsempty [] = Some (Some e, al1) \<and> sdscatrepr (Some e) [DQUOTE, NUL, CHR 0xFF, LF] 4 al1 = Some (Some q, al2)
     \<and> sdssplitargs (sds_str q) al2 = Some (Some [Some t], 1, al3) \<and> sds_str t = [DQUOTE, NUL, CHR 0xFF, LF]"
  using repr_then_splitargs [of 4 "[DQUOTE, NUL, CHR 0xFF, LF]" "[]"]
  by (simp add: quoted_def esc_def hex2_def isprint_c_def code_def)

text \<open>
  C13: \<open>sdscatfmt\<close> appends the text that the table of its comment gives for the format and the
  arguments, the numbers in decimal at their width, and leaves a well-formed string.
\<close>
theorem sdscatfmt_appends:
  assumes "sds_ok s" "fmt_text fmt args = Some x" "NUL \<notin> set fmt" "sds_len s + length x < 2 ^ 31 - 1" "None \<notin> set al"
  shows "\<exists>s' al'. sdscatfmt s fmt args al = Some (s', al') \<and> sds_ok s' \<and> sds_str s' = sds_str s @ x"
  using assms by (rule sdscatfmt_ok)

theorem sdscatfmt_appends_witness:
  "\<exists>s' al'. sdscatfmt \<lparr>sds_len = 0, sds_free = 0, sds_buf = [NUL]\<rparr> ''*%i%%%s'' [FInt 7, FStr ''ab''] [] = Some (s', al')
     \<and> sds_ok s' \<and> sds_str s' = ''*7%ab''"
proof -
  have "fmt_text ''*%i%%%s'' [FInt 7, FStr ''ab''] = Some ''*7%ab''" by code_simp
  then show ?thesis
    using sdscatfmt_appends [of "\<lparr>sds_len = 0, sds_free = 0, sds_buf = [NUL]\<rparr>" "''*%i%%%s''" "[FInt 7, FStr ''ab'']" "''*7%ab''" "[]"]
    by (simp add: sds_ok_def sds_str_def)
qed

end
