(* ===== verification/Format.thy ===== *)
theory Format
  imports SdsText
begin

text \<open>
  The command formatter of \<open>hiredis.c\<close> (lines 674-978): \<open>redisvFormatCommand\<close>, which splits a
  format into arguments and interpolates into them, and \<open>redisFormatCommandArgv\<close>. Variadic
  arguments are a list of typed values, and fetching one of another type is a fault. The text of an
  integer conversion is written out; a \<open>double\<close> comes with the text that \<open>printf\<close> gives it under
  each conversion.
\<close>

section \<open>Lengths\<close>

definition tdiv :: "int \<Rightarrow> int \<Rightarrow> int" where
  \<comment> \<open>the division of C, towards zero\<close>
  "tdiv a b = sgn a * sgn b * (\<bar>a\<bar> div \<bar>b\<bar>)"

function intlen_loop :: "int \<Rightarrow> int \<Rightarrow> int" where
  \<comment> \<open>\<open>do { len++; i /= 10; } while(i)\<close>\<close>
  "intlen_loop i len = (if tdiv i 10 \<noteq> 0 then intlen_loop (tdiv i 10) (len + 1) else len + 1)"
  by pat_completeness auto
termination
  by (relation "measure (\<lambda>(i, len). nat \<bar>i\<bar>)") (auto simp: tdiv_def abs_mult sgn_if split: if_splits)

declare intlen_loop.simps [simp del]

definition intlen :: "int \<Rightarrow> int" where
  "intlen i = (if i < 0 then intlen_loop (s32 (- i)) 1 else intlen_loop i 0)"

definition bulklen :: "nat \<Rightarrow> nat" where
  \<comment> \<open>the sum is one of \<open>int\<close>, converted to \<open>size_t\<close>\<close>
  "bulklen len = nat (s32 (1 + intlen (s32 (int len)) + 2 + s32 (int len) + 2) mod 2 ^ 64)"

section \<open>Variadic arguments\<close>

datatype va =
    VPtr "char list"      \<comment> \<open>\<open>char *\<close>, the block from there on\<close>
  | VSize nat             \<comment> \<open>\<open>size_t\<close>\<close>
  | VInt "32 word"
  | VLong "64 word"       \<comment> \<open>\<open>PORT_LONG\<close>\<close>
  | VLongLong "64 word"
  | VDouble "string \<Rightarrow> string"

datatype va_kind = KInt | KLong | KLongLong | KDouble

definition va_ptr :: "va list \<Rightarrow> (char list \<times> va list) option" where
  "va_ptr ap = (case ap of VPtr p # ap \<Rightarrow> Some (p, ap) | _ \<Rightarrow> None)"

definition va_size :: "va list \<Rightarrow> (nat \<times> va list) option" where
  "va_size ap = (case ap of VSize n # ap \<Rightarrow> Some (n, ap) | _ \<Rightarrow> None)"

fun va_of_kind :: "va_kind \<Rightarrow> va list \<Rightarrow> (va \<times> va list) option" where
  "va_of_kind KInt (VInt w # ap) = Some (VInt w, ap)"
| "va_of_kind KLong (VLong w # ap) = Some (VLong w, ap)"
| "va_of_kind KLongLong (VLongLong w # ap) = Some (VLongLong w, ap)"
| "va_of_kind KDouble (VDouble f # ap) = Some (VDouble f, ap)"
| "va_of_kind k ap = None"

section \<open>The text of a conversion\<close>

fun base_nat :: "nat \<Rightarrow> bool \<Rightarrow> nat \<Rightarrow> string" where
  \<comment> \<open>\<open>n\<close> in base \<open>b\<close>, in capital letters if \<open>up\<close>\<close>
  "base_nat b up n =
     (let d = (if up then toupper_c (hex_char (n mod b)) else hex_char (n mod b)) in
      if b < 2 \<or> n < b then [d] else base_nat b up (n div b) @ [d])"

declare base_nat.simps [simp del]

definition skip_char :: "char \<Rightarrow> char list \<Rightarrow> char list" where
  \<comment> \<open>\<open>if (*_p != '\0' && *_p == c) _p++\<close>\<close>
  "skip_char c p = (case p of x # r \<Rightarrow> if x = c then r else p | [] \<Rightarrow> [])"

definition render_int :: "string \<Rightarrow> char \<Rightarrow> int \<Rightarrow> nat \<Rightarrow> string" where
  \<comment> \<open>the conversion \<open>d\<close> (without its size and its last character \<open>cv\<close>) of a value with a signed
     reading \<open>v\<close> and an unsigned one \<open>u\<close>\<close>
  "render_int d cv v u =
     (let p1 = skip_char (CHR ''#'') (drop 1 d); alt = (p1 \<noteq> drop 1 d);
          p2 = skip_char (CHR ''0'') p1; zero = (p2 \<noteq> p1);
          p3 = skip_char (CHR ''-'') p2; left = (p3 \<noteq> p2);
          p4 = skip_char (CHR '' '') p3; blank = (p4 \<noteq> p3);
          p5 = skip_char (CHR ''+'') p4; plus = (p5 \<noteq> p4);
          num = (\<lambda>s. foldl (\<lambda>n c. n * 10 + (code c - 48)) 0 (takeWhile isdigit_c s));
          width = num p5;
          p6 = dropWhile isdigit_c p5;
          prec = (case p6 of [] \<Rightarrow> None | c # r \<Rightarrow> if c = CHR ''.'' then Some (num r) else None);
          is_signed = (cv = CHR ''d'' \<or> cv = CHR ''i'');
          mag = (if is_signed then nat \<bar>v\<bar> else u);
          raw = (if cv = CHR ''o'' then base_nat 8 False mag
                 else if cv = CHR ''x'' then base_nat 16 False mag
                 else if cv = CHR ''X'' then base_nat 16 True mag
                 else dec_nat mag);
          digs = (case prec of None \<Rightarrow> raw
                  | Some n \<Rightarrow> if n = 0 \<and> mag = 0 then [] else replicate (n - length raw) (CHR ''0'') @ raw);
          digs = (if alt \<and> cv = CHR ''o'' \<and> (digs = [] \<or> hd digs \<noteq> CHR ''0'') then CHR ''0'' # digs else digs);
          prefix = (if is_signed then
                      (if v < 0 then ''-'' else if plus then ''+'' else if blank then '' '' else [])
                    else if alt \<and> mag \<noteq> 0 \<and> cv = CHR ''x'' then ''0x''
                    else if alt \<and> mag \<noteq> 0 \<and> cv = CHR ''X'' then ''0X'' else []);
          pad = width - (length prefix + length digs)
      in if left then prefix @ digs @ replicate pad (CHR '' '')
         else if zero \<and> prec = None then prefix @ replicate pad (CHR ''0'') @ digs
         else replicate pad (CHR '' '') @ prefix @ digs)"

definition printf_text :: "string \<Rightarrow> va \<Rightarrow> string option" where
  \<comment> \<open>what \<open>vsnprintf\<close> writes for one whole conversion; \<open>l\<close> is a \<open>long\<close> of 32 bits, and a
     conversion that ends before its last character is undefined\<close>
  "printf_text d a =
     (if d = [] \<or> last d = NUL then None
      else let cv = last d;
               b = butlast d;
               ls = length (takeWhile (\<lambda>c. c = CHR ''h'') (rev b));
               spec = filter (\<lambda>c. c \<noteq> CHR ''h'' \<and> c \<noteq> CHR ''l'') b
           in (case a of
                 VInt w \<Rightarrow>
                   Some (if ls = 2 then render_int spec cv (sint (ucast w :: 8 word)) (unat (ucast w :: 8 word))
                         else if ls = 1 then render_int spec cv (sint (ucast w :: 16 word)) (unat (ucast w :: 16 word))
                         else render_int spec cv (sint w) (unat w))
               | VLong w \<Rightarrow> Some (render_int spec cv (sint (ucast w :: 32 word)) (unat (ucast w :: 32 word)))
               | VLongLong w \<Rightarrow> Some (render_int spec cv (sint w) (unat w))
               | VDouble f \<Rightarrow> Some (f d)
               | _ \<Rightarrow> None))"

section \<open>One conversion of the format\<close>

definition intfmts :: string where
  "intfmts = ''diouxX''"

definition fmt_spec :: "char list \<Rightarrow> char list" where
  \<comment> \<open>flags, field width and precision\<close>
  "fmt_spec p =
     (let p = skip_char (CHR ''#'') p;
          p = skip_char (CHR ''0'') p;
          p = skip_char (CHR ''-'') p;
          p = skip_char (CHR '' '') p;
          p = skip_char (CHR ''+'') p;
          p = dropWhile isdigit_c p
      in case p of [] \<Rightarrow> []
         | c # r \<Rightarrow> if c = CHR ''.'' then dropWhile isdigit_c r else p)"

definition fmt_sized :: "va_kind \<Rightarrow> char list \<Rightarrow> (va_kind \<times> char list) option option" where
  \<comment> \<open>the character after a size; the inner \<open>None\<close> is \<open>goto fmt_invalid\<close>\<close>
  "fmt_sized k p =
     (case p of [] \<Rightarrow> None
      | c # _ \<Rightarrow> Some (if c \<noteq> NUL \<and> strchr_has intfmts c then Some (k, p) else None))"

definition fmt_conv :: "char list \<Rightarrow> (va_kind \<times> char list) option option" where
  \<comment> \<open>the argument to take and the position of the last character of the conversion\<close>
  "fmt_conv p =
     (case p of [] \<Rightarrow> None
      | c # r \<Rightarrow>
          if strchr_has intfmts c then Some (Some (KInt, p))
          else if strchr_has ''eEfFgGaA'' c then Some (Some (KDouble, p))
          else (case r of [] \<Rightarrow> None
                | d # r' \<Rightarrow>
                    if c = CHR ''h'' \<and> d = CHR ''h'' then fmt_sized KInt r'
                    else if c = CHR ''h'' then fmt_sized KInt r
                    else if c = CHR ''l'' \<and> d = CHR ''l'' then fmt_sized KLongLong r'
                    else if c = CHR ''l'' then fmt_sized KLong r
                    else Some None))"

record fmt_state =
  fs_cur :: sds              \<comment> \<open>\<open>curarg\<close>\<close>
  fs_touched :: bool
  fs_argv :: "sdshdr list"   \<comment> \<open>\<open>curargv\<close>, of length \<open>argc\<close>\<close>
  fs_totlen :: int
  fs_ap :: "va list"
  fs_al :: allocs

definition set_newarg :: "sds \<times> allocs \<Rightarrow> fmt_state \<Rightarrow> bool \<times> fmt_state" where
  \<comment> \<open>\<open>if (newarg == NULL) goto err; curarg = newarg; touched = 1\<close>, \<open>False\<close> for the jump\<close>
  "set_newarg = (\<lambda>(newarg, al) st.
     (case newarg of
        None \<Rightarrow> (False, st\<lparr>fs_al := al\<rparr>)
      | Some _ \<Rightarrow> (True, st\<lparr>fs_cur := newarg, fs_touched := True, fs_al := al\<rparr>)))"

definition fmt_printf :: "char list \<Rightarrow> fmt_state \<Rightarrow> (bool \<times> char list \<times> fmt_state) option" where
  \<comment> \<open>the default case of the \<open>switch\<close>; a conversion of 14 characters or more is not copied\<close>
  "fmt_printf c st = do {
     k \<leftarrow> fmt_conv (fmt_spec (drop 1 c));
     (case k of
        None \<Rightarrow> Some (False, c, st)
      | Some (k, p) \<Rightarrow> do {
          (a, ap) \<leftarrow> va_of_kind k (fs_ap st);
          let st = st\<lparr>fs_ap := ap\<rparr>;
          let l = length c - length p + 1;
          if l < 16 - 2 then do {
            out \<leftarrow> printf_text (take l c) a;
            r \<leftarrow> sdscatvprintf (fs_cur st) (take l c) out (fs_al st);
            (case set_newarg r st of (ok, st) \<Rightarrow> Some (ok, drop (l - 2) c, st))
          } else (case set_newarg (fs_cur st, fs_al st) st of (ok, st) \<Rightarrow> Some (ok, c, st))
        })
   }"

definition fmt_percent :: "char list \<Rightarrow> fmt_state \<Rightarrow> (bool \<times> char list \<times> fmt_state) option" where
  \<comment> \<open>\<open>c\<close> stands at a \<open>%\<close> that is not the last character; the result is the \<open>c\<close> of the end of the
     \<open>switch\<close>, before its two increments\<close>
  "fmt_percent c st =
     (case c of
        pc # x # r \<Rightarrow>
          if x = CHR ''s'' then do {
            (arg, ap) \<leftarrow> va_ptr (fs_ap st);
            n \<leftarrow> strlen_block arg;
            r \<leftarrow> (if n > 0 then sdscatlen (fs_cur st) arg n (fs_al st) else Some (fs_cur st, fs_al st));
            (case set_newarg r (st\<lparr>fs_ap := ap\<rparr>) of (ok, st) \<Rightarrow> Some (ok, c, st))
          }
          else if x = CHR ''b'' then do {
            (arg, ap) \<leftarrow> va_ptr (fs_ap st);
            (n, ap) \<leftarrow> va_size ap;
            r \<leftarrow> (if n > 0 then sdscatlen (fs_cur st) arg n (fs_al st) else Some (fs_cur st, fs_al st));
            (case set_newarg r (st\<lparr>fs_ap := ap\<rparr>) of (ok, st) \<Rightarrow> Some (ok, c, st))
          }
          else if x = CHR ''%'' then do {
            r \<leftarrow> sdscat (fs_cur st) ''%'' (fs_al st);
            (case set_newarg r st of (ok, st) \<Rightarrow> Some (ok, c, st))
          }
          else fmt_printf c st
      | _ \<Rightarrow> None)"

lemma fmt_printf_length: "fmt_printf c st = Some (ok, c', st') \<Longrightarrow> length c' \<le> length c"
  by (auto simp: fmt_printf_def Let_def split: bind_splits option.splits if_splits prod.splits)

lemma fmt_percent_length: "fmt_percent c st = Some (ok, c', st') \<Longrightarrow> length c' \<le> length c"
  by (auto simp: fmt_percent_def Let_def split: bind_splits list.splits if_splits prod.splits dest: fmt_printf_length)

definition fmt_flush :: "fmt_state \<Rightarrow> (bool \<times> fmt_state) option" where
  \<comment> \<open>\<open>newargv = realloc(...); ... curargv[argc++] = curarg; totlen += (int)bulklen(sdslen(curarg))\<close>\<close>
  "fmt_flush st =
     (case alloc_next (fs_al st) of
        (None, al) \<Rightarrow> Some (False, st\<lparr>fs_al := al\<rparr>)
      | (Some _, al) \<Rightarrow> do {
          s \<leftarrow> fs_cur st;
          Some (True, st\<lparr>fs_al := al, fs_argv := fs_argv st @ [s],
                         fs_totlen := s32 (fs_totlen st + s32 (int (bulklen (sdslen s))))\<rparr>)
        })"

definition fmt_space :: "fmt_state \<Rightarrow> (bool \<times> fmt_state) option" where
  "fmt_space st =
     (if fs_touched st then do {
        (ok, st) \<leftarrow> fmt_flush st;
        if \<not> ok then Some (False, st)
        else do {
          (cur, al) \<leftarrow> sdsempty (fs_al st);
          Some (cur \<noteq> None, st\<lparr>fs_cur := cur, fs_al := al, fs_touched := False\<rparr>)
        }
      } else Some (True, st))"

definition fmt_literal :: "char list \<Rightarrow> fmt_state \<Rightarrow> (bool \<times> fmt_state) option" where
  "fmt_literal c st = do {
     r \<leftarrow> sdscatlen (fs_cur st) c 1 (fs_al st);
     Some (set_newarg r st)
   }"

function fmt_loop :: "char list \<Rightarrow> fmt_state \<Rightarrow> (bool \<times> fmt_state) option" where
  \<comment> \<open>\<open>c\<close> is what is left of the block of the format; \<open>False\<close> is \<open>goto err\<close>\<close>
  "fmt_loop c st =
     (case c of
        [] \<Rightarrow> None
      | x # r \<Rightarrow>
          if x = NUL then Some (True, st)
          else if r = [] then None
          else if x \<noteq> CHR ''%'' \<or> hd r = NUL then
            (case (if x = CHR '' '' then fmt_space st else fmt_literal c st) of
               None \<Rightarrow> None
             | Some (ok, st) \<Rightarrow> if ok then fmt_loop r st else Some (False, st))
          else
            (case fmt_percent c st of
               None \<Rightarrow> None
             | Some (ok, c', st) \<Rightarrow> if ok then fmt_loop (drop 2 c') st else Some (False, st)))"
  by pat_completeness auto
termination
  by (relation "measure (\<lambda>(c, st). length c)") (auto dest: fmt_percent_length)

declare fmt_loop.simps [simp del]

section \<open>The command at protocol level\<close>

definition write_pos :: "int \<Rightarrow> char list \<Rightarrow> char list \<Rightarrow> char list option" where
  \<comment> \<open>a write to \<open>cmd+pos\<close>\<close>
  "write_pos pos bs cmd = (if pos < 0 then None else write_at (nat pos) bs cmd)"

fun put_args :: "(char list \<times> nat) list \<Rightarrow> int \<Rightarrow> char list \<Rightarrow> (int \<times> char list) option" where
  "put_args [] pos cmd = Some (pos, cmd)"
| "put_args ((src, len) # args) pos cmd = do {
     let t = CHR ''$'' # dec_nat len @ CRLF;
     cmd \<leftarrow> write_pos pos (t @ [NUL]) cmd;
     let pos = s32 (pos + int (length t));
     bs \<leftarrow> read_at 0 len src;
     cmd \<leftarrow> write_pos pos bs cmd;
     let pos = s32 (pos + s32 (int len));
     cmd \<leftarrow> write_pos pos [CR] cmd;
     cmd \<leftarrow> write_pos (s32 (pos + 1)) [LF] cmd;
     put_args args (s32 (pos + 2)) cmd
   }"

definition put_command :: "int \<Rightarrow> (char list \<times> nat) list \<Rightarrow> int \<Rightarrow> char list \<Rightarrow> char list option" where
  \<comment> \<open>the block \<open>cmd\<close> filled, with its terminator\<close>
  "put_command argc args totlen cmd = do {
     let t = CHR ''*'' # dec_int argc @ CRLF;
     cmd \<leftarrow> write_pos 0 (t @ [NUL]) cmd;
     (pos, cmd) \<leftarrow> put_args args (int (length t)) cmd;
     require (pos = totlen);
     write_pos pos [NUL] cmd
   }"

definition fmt_finish :: "fmt_state \<Rightarrow> (int \<times> char list option \<times> allocs) option" where
  \<comment> \<open>from \<open>Add bytes needed to hold multi bulk count\<close> on\<close>
  "fmt_finish st = do {
     let argc = s32 (int (length (fs_argv st)));
     let totlen = s32 (fs_totlen st + 1 + intlen argc + 2);
     (case malloc_bytes (nat (s32 (totlen + 1) mod 2 ^ 64)) (fs_al st) of
        (None, al) \<Rightarrow> Some (-1, None, al)
      | (Some cmd, al) \<Rightarrow> do {
          cmd \<leftarrow> put_command argc (map (\<lambda>s. (sds_buf s, sdslen s)) (fs_argv st)) totlen cmd;
          Some (totlen, Some cmd, al)
        })
   }"

definition redisvFormatCommand :: "string \<Rightarrow> va list \<Rightarrow> allocs \<Rightarrow> (int \<times> char list option \<times> allocs) option" where
  \<comment> \<open>the length and the block stored to \<open>*target\<close>, which is not NULL\<close>
  "redisvFormatCommand format ap al = do {
     (curarg, al) \<leftarrow> sdsempty al;
     (case curarg of
        None \<Rightarrow> Some (-1, None, al)
      | Some _ \<Rightarrow> do {
          (ok, st) \<leftarrow> fmt_loop (format @ [NUL])
             \<lparr>fs_cur = curarg, fs_touched = False, fs_argv = [], fs_totlen = 0, fs_ap = ap, fs_al = al\<rparr>;
          if \<not> ok then Some (-1, None, fs_al st)
          else do {
            (ok, st) \<leftarrow> (if fs_touched st then fmt_flush st else Some (True, st));
            if \<not> ok then Some (-1, None, fs_al st) else fmt_finish st
          }
        })
   }"

definition redisFormatCommand :: "string \<Rightarrow> va list \<Rightarrow> allocs \<Rightarrow> (int \<times> char list option \<times> allocs) option" where
  "redisFormatCommand format args al = redisvFormatCommand format args al"

definition arg_length :: "char list list \<Rightarrow> nat list option \<Rightarrow> nat \<Rightarrow> nat option" where
  \<comment> \<open>\<open>argvlen ? argvlen[j] : strlen(argv[j])\<close>\<close>
  "arg_length argv argvlen j =
     (if j < length argv then
        (case argvlen of
           Some ls \<Rightarrow> if j < length ls then Some (ls ! j) else None
         | None \<Rightarrow> strlen_block (argv ! j))
      else None)"

fun arg_lengths :: "char list list \<Rightarrow> nat list option \<Rightarrow> nat list \<Rightarrow> int \<Rightarrow> (int \<times> (char list \<times> nat) list) option" where
  \<comment> \<open>the first loop: \<open>totlen\<close>, and the arguments with the lengths that the second loop finds again\<close>
  "arg_lengths argv argvlen [] totlen = Some (totlen, [])"
| "arg_lengths argv argvlen (j # js) totlen = do {
     len \<leftarrow> arg_length argv argvlen j;
     (totlen, args) \<leftarrow> arg_lengths argv argvlen js (s32 (totlen + s32 (int (bulklen len))));
     Some (totlen, (argv ! j, len) # args)
   }"

definition redisFormatCommandArgv ::
  "int \<Rightarrow> char list list \<Rightarrow> nat list option \<Rightarrow> allocs \<Rightarrow> (int \<times> char list option \<times> allocs) option" where
  "redisFormatCommandArgv argc argv argvlen al = do {
     (totlen, args) \<leftarrow> arg_lengths argv argvlen [0..<nat argc] (s32 (1 + intlen argc + 2));
     (case malloc_bytes (nat (s32 (totlen + 1) mod 2 ^ 64)) al of
        (None, al) \<Rightarrow> Some (-1, None, al)
      | (Some cmd, al) \<Rightarrow> do {
          cmd \<leftarrow> put_command argc args totlen cmd;
          Some (totlen, Some cmd, al)
        })
   }"

end
