(* ===== verification/Reader.thy ===== *)
theory Reader
  imports Sds
begin

text \<open>
  The reply parser of \<open>hiredis.c\<close> (lines 50-671): reply objects on a heap, the default functions
  that build them, the parser's state \<open>redisReader\<close> with its stack of read tasks, and one
  definition per function. Object functions are a table of optional functions over a state of
  their own, as in \<open>redisReplyObjectFunctions\<close>; the default table works on the heap below.
\<close>

section \<open>Constants\<close>

abbreviation (input) REDIS_OK :: int where "REDIS_OK \<equiv> 0"
abbreviation (input) REDIS_ERR :: int where "REDIS_ERR \<equiv> -1"
abbreviation (input) REDIS_ERR_IO :: int where "REDIS_ERR_IO \<equiv> 1"
abbreviation (input) REDIS_ERR_OTHER :: int where "REDIS_ERR_OTHER \<equiv> 2"
abbreviation (input) REDIS_ERR_EOF :: int where "REDIS_ERR_EOF \<equiv> 3"
abbreviation (input) REDIS_ERR_PROTOCOL :: int where "REDIS_ERR_PROTOCOL \<equiv> 4"
abbreviation (input) REDIS_ERR_OOM :: int where "REDIS_ERR_OOM \<equiv> 5"

abbreviation (input) REDIS_REPLY_STRING :: int where "REDIS_REPLY_STRING \<equiv> 1"
abbreviation (input) REDIS_REPLY_ARRAY :: int where "REDIS_REPLY_ARRAY \<equiv> 2"
abbreviation (input) REDIS_REPLY_INTEGER :: int where "REDIS_REPLY_INTEGER \<equiv> 3"
abbreviation (input) REDIS_REPLY_NIL :: int where "REDIS_REPLY_NIL \<equiv> 4"
abbreviation (input) REDIS_REPLY_STATUS :: int where "REDIS_REPLY_STATUS \<equiv> 5"
abbreviation (input) REDIS_REPLY_ERROR :: int where "REDIS_REPLY_ERROR \<equiv> 6"

definition REDIS_READER_MAX_BUF :: nat where
  "REDIS_READER_MAX_BUF = 1024 * 16"

section \<open>Reply objects on the heap\<close>

datatype obj =
    Obj nat   \<comment> \<open>the address of a reply object\<close>
  | Tag int   \<comment> \<open>a type number cast to a pointer, the object when there are no functions\<close>

record redisReply =
  rp_type :: int
  rp_integer :: "64 word"
  rp_len :: int
  rp_str :: "char list option"
  rp_elements :: nat
  rp_element :: "nat option list option"

record mem =
  m_al :: allocs
  m_cells :: "nat \<Rightarrow> redisReply option"
  m_next :: nat

record redisReadTask =
  tk_type :: int
  tk_elements :: int
  tk_idx :: int
  tk_obj :: "obj option"
  tk_parent :: "nat option"   \<comment> \<open>an index of the task stack\<close>
  tk_privdata :: nat

definition zero_reply :: redisReply where
  "zero_reply = \<lparr>rp_type = 0, rp_integer = 0, rp_len = 0, rp_str = None, rp_elements = 0, rp_element = None\<rparr>"

definition createReplyObject :: "int \<Rightarrow> mem \<Rightarrow> nat option \<times> mem" where
  "createReplyObject ty m =
     (case alloc_next (m_al m) of
        (None, al) \<Rightarrow> (None, m\<lparr>m_al := al\<rparr>)
      | (Some _, al) \<Rightarrow>
          (Some (m_next m),
           m\<lparr>m_al := al, m_cells := (m_cells m)(m_next m \<mapsto> zero_reply\<lparr>rp_type := ty\<rparr>), m_next := m_next m + 1\<rparr>))"

fun free_elements ::
  "(nat \<Rightarrow> (nat \<Rightarrow> redisReply option) \<Rightarrow> (nat \<Rightarrow> redisReply option) option) \<Rightarrow> nat option list
     \<Rightarrow> (nat \<Rightarrow> redisReply option) \<Rightarrow> (nat \<Rightarrow> redisReply option) option" where
  \<comment> \<open>\<open>for (j = 0; j < r->elements; j++) if (r->element[j] != NULL) freeReplyObject(r->element[j])\<close>\<close>
  "free_elements free [] cells = Some cells"
| "free_elements free (e # es) cells =
     (case e of
        None \<Rightarrow> free_elements free es cells
      | Some p \<Rightarrow> (case free p cells of None \<Rightarrow> None | Some cells' \<Rightarrow> free_elements free es cells'))"

primrec free_reply ::
  "nat \<Rightarrow> nat \<Rightarrow> (nat \<Rightarrow> redisReply option) \<Rightarrow> (nat \<Rightarrow> redisReply option) option" where
  \<comment> \<open>the fuel bounds the depth of the recursion; a freed or foreign address is a fault\<close>
  "free_reply 0 p cells = None"
| "free_reply (Suc fuel) p cells =
     (case cells p of
        None \<Rightarrow> None
      | Some r \<Rightarrow>
          (case (if rp_type r = REDIS_REPLY_ARRAY then
                   (case rp_element r of
                      None \<Rightarrow> Some cells
                    | Some es \<Rightarrow>
                        if rp_elements r \<le> length es
                        then free_elements (free_reply fuel) (take (rp_elements r) es) cells else None)
                 else Some cells) of
             None \<Rightarrow> None
           | Some cells' \<Rightarrow> Some (cells'(p := None))))"

definition freeReplyObject :: "obj \<Rightarrow> mem \<Rightarrow> mem option" where
  \<comment> \<open>no chain of objects is longer than the number of objects ever made\<close>
  "freeReplyObject ob m =
     (case ob of
        Tag _ \<Rightarrow> None
      | Obj p \<Rightarrow> (case free_reply (Suc (m_next m)) p (m_cells m) of
                   None \<Rightarrow> None | Some cells \<Rightarrow> Some (m\<lparr>m_cells := cells\<rparr>)))"

definition upd_cell :: "nat \<Rightarrow> (redisReply \<Rightarrow> redisReply) \<Rightarrow> mem \<Rightarrow> mem option" where
  \<comment> \<open>a write to a field of the object at an address\<close>
  "upd_cell p f m =
     (case m_cells m p of None \<Rightarrow> None | Some r \<Rightarrow> Some (m\<lparr>m_cells := (m_cells m)(p \<mapsto> f r)\<rparr>))"

definition set_element :: "redisReadTask list \<Rightarrow> nat \<Rightarrow> nat \<Rightarrow> mem \<Rightarrow> mem option" where
  \<comment> \<open>\<open>if (task->parent) { parent = task->parent->obj; assert(...); parent->element[task->idx] = r; }\<close>\<close>
  "set_element stack cur r m = do {
     require (cur < length stack);
     (case tk_parent (stack ! cur) of
        None \<Rightarrow> Some m
      | Some i \<Rightarrow> do {
          require (i < length stack);
          (case tk_obj (stack ! i) of
             Some (Obj p) \<Rightarrow> do {
               parent \<leftarrow> m_cells m p;
               require (rp_type parent = REDIS_REPLY_ARRAY);
               es \<leftarrow> rp_element parent;
               let k = tk_idx (stack ! cur);
               require (0 \<le> k \<and> nat k < length es);
               upd_cell p (\<lambda>c. c\<lparr>rp_element := Some (es[nat k := Some r])\<rparr>) m
             }
           | _ \<Rightarrow> None)
        })
   }"

definition createStringObject ::
  "redisReadTask list \<Rightarrow> nat \<Rightarrow> char list \<Rightarrow> nat \<Rightarrow> mem \<Rightarrow> (obj option \<times> mem) option" where
  "createStringObject stack cur str len m = do {
     require (cur < length stack);
     let ty = tk_type (stack ! cur);
     (case createReplyObject ty m of
        (None, m) \<Rightarrow> Some (None, m)
      | (Some r, m) \<Rightarrow>
          (case malloc_bytes (u64 (len + 1)) (m_al m) of
             (None, al) \<Rightarrow> do { m \<leftarrow> freeReplyObject (Obj r) (m\<lparr>m_al := al\<rparr>); Some (None, m) }
           | (Some buf, al) \<Rightarrow> do {
               require (ty = REDIS_REPLY_ERROR \<or> ty = REDIS_REPLY_STATUS \<or> ty = REDIS_REPLY_STRING);
               bs \<leftarrow> read_at 0 len str;
               buf \<leftarrow> write_at 0 bs buf;
               buf \<leftarrow> poke len NUL buf;
               m \<leftarrow> upd_cell r (\<lambda>c. c\<lparr>rp_str := Some buf, rp_len := s32 (int len)\<rparr>) (m\<lparr>m_al := al\<rparr>);
               m \<leftarrow> set_element stack cur r m;
               Some (Some (Obj r), m)
             }))
   }"

definition createArrayObject ::
  "redisReadTask list \<Rightarrow> nat \<Rightarrow> int \<Rightarrow> mem \<Rightarrow> (obj option \<times> mem) option" where
  "createArrayObject stack cur elements m =
     (case createReplyObject REDIS_REPLY_ARRAY m of
        (None, m) \<Rightarrow> Some (None, m)
      | (Some r, m) \<Rightarrow>
          (case (if elements > 0 then
                   (case alloc_next (m_al m) of
                      (None, al) \<Rightarrow> (None, m\<lparr>m_al := al\<rparr>)
                    | (Some _, al) \<Rightarrow> (Some (Some (replicate (nat elements) None)), m\<lparr>m_al := al\<rparr>))
                 else (Some None, m)) of
             (None, m) \<Rightarrow> do { m \<leftarrow> freeReplyObject (Obj r) m; Some (None, m) }
           | (Some element, m) \<Rightarrow> do {
               m \<leftarrow> upd_cell r (\<lambda>c. c\<lparr>rp_element := element, rp_elements := nat (elements mod 2 ^ 64)\<rparr>) m;
               m \<leftarrow> set_element stack cur r m;
               Some (Some (Obj r), m)
             }))"

definition createIntegerObject ::
  "redisReadTask list \<Rightarrow> nat \<Rightarrow> 64 word \<Rightarrow> mem \<Rightarrow> (obj option \<times> mem) option" where
  "createIntegerObject stack cur value m =
     (case createReplyObject REDIS_REPLY_INTEGER m of
        (None, m) \<Rightarrow> Some (None, m)
      | (Some r, m) \<Rightarrow> do {
          m \<leftarrow> upd_cell r (\<lambda>c. c\<lparr>rp_integer := value\<rparr>) m;
          m \<leftarrow> set_element stack cur r m;
          Some (Some (Obj r), m)
        })"

definition createNilObject :: "redisReadTask list \<Rightarrow> nat \<Rightarrow> mem \<Rightarrow> (obj option \<times> mem) option" where
  "createNilObject stack cur m =
     (case createReplyObject REDIS_REPLY_NIL m of
        (None, m) \<Rightarrow> Some (None, m)
      | (Some r, m) \<Rightarrow> do { m \<leftarrow> set_element stack cur r m; Some (Some (Obj r), m) })"

text \<open>The table of functions; a task is passed as the stack and its place in it.\<close>

record 'm redisReplyObjectFunctions =
  createString :: "(redisReadTask list \<Rightarrow> nat \<Rightarrow> char list \<Rightarrow> nat \<Rightarrow> 'm \<Rightarrow> (obj option \<times> 'm) option) option"
  createArray :: "(redisReadTask list \<Rightarrow> nat \<Rightarrow> int \<Rightarrow> 'm \<Rightarrow> (obj option \<times> 'm) option) option"
  createInteger :: "(redisReadTask list \<Rightarrow> nat \<Rightarrow> 64 word \<Rightarrow> 'm \<Rightarrow> (obj option \<times> 'm) option) option"
  createNil :: "(redisReadTask list \<Rightarrow> nat \<Rightarrow> 'm \<Rightarrow> (obj option \<times> 'm) option) option"
  freeObject :: "(obj \<Rightarrow> 'm \<Rightarrow> 'm option) option"

definition defaultFunctions :: "mem redisReplyObjectFunctions" where
  "defaultFunctions =
     \<lparr>createString = Some createStringObject, createArray = Some createArrayObject,
      createInteger = Some createIntegerObject, createNil = Some createNilObject,
      freeObject = Some freeReplyObject\<rparr>"

section \<open>The reader\<close>

record 'm redisReader =
  rr_err :: int
  rr_errstr :: string
  rr_buf :: sds
  rr_pos :: nat
  rr_len :: nat
  rr_maxbuf :: nat
  rr_rstack :: "redisReadTask list"
  rr_ridx :: int
  rr_reply :: "obj option"
  rr_fn :: "'m redisReplyObjectFunctions option"
  rr_privdata :: nat

definition redisReaderSetError :: "'m redisReader \<Rightarrow> int \<Rightarrow> string \<Rightarrow> 'm \<Rightarrow> ('m redisReader \<times> 'm) option" where
  \<comment> \<open>\<open>__redisReaderSetError\<close>; \<open>errstr\<close> has 128 bytes\<close>
  "redisReaderSetError r ty str m = do {
     (r, m) \<leftarrow> (case (rr_reply r, rr_fn r) of
         (Some ob, Some fn) \<Rightarrow> (case freeObject fn of
             Some free \<Rightarrow> do { m \<leftarrow> free ob m; Some (r\<lparr>rr_reply := None\<rparr>, m) }
           | None \<Rightarrow> Some (r, m))
       | _ \<Rightarrow> Some (r, m));
     let r = (case rr_buf r of None \<Rightarrow> r | Some _ \<Rightarrow> r\<lparr>rr_buf := None, rr_pos := 0, rr_len := 0\<rparr>);
     Some (r\<lparr>rr_ridx := -1, rr_err := ty, rr_errstr := take 127 str\<rparr>, m)
   }"

definition chrtos :: "char \<Rightarrow> string" where
  \<comment> \<open>the text written to the buffer of 8 bytes, which it always fits\<close>
  "chrtos byte = DQUOTE #
     (if byte = BACKSLASH \<or> byte = DQUOTE then [BACKSLASH, byte]
      else if byte = LF then [BACKSLASH, CHR ''n'']
      else if byte = CR then [BACKSLASH, CHR ''r'']
      else if byte = TAB then [BACKSLASH, CHR ''t'']
      else if byte = BEL then [BACKSLASH, CHR ''a'']
      else if byte = BS then [BACKSLASH, CHR ''b'']
      else if isprint_c byte then [byte]
      else [BACKSLASH, CHR ''x'', hex_char (code byte div 16), hex_char (code byte mod 16)]) @ [DQUOTE]"

definition redisReaderSetErrorProtocolByte :: "'m redisReader \<Rightarrow> char \<Rightarrow> 'm \<Rightarrow> ('m redisReader \<times> 'm) option" where
  "redisReaderSetErrorProtocolByte r byte m =
     redisReaderSetError r REDIS_ERR_PROTOCOL
       (take 127 (''Protocol error, got '' @ take 7 (chrtos byte) @ '' as reply type byte'')) m"

definition redisReaderSetErrorOOM :: "'m redisReader \<Rightarrow> 'm \<Rightarrow> ('m redisReader \<times> 'm) option" where
  "redisReaderSetErrorOOM r m = redisReaderSetError r REDIS_ERR_OOM ''Out of memory'' m"

definition at_pos :: "'m redisReader \<Rightarrow> char list option" where
  \<comment> \<open>\<open>r->buf+r->pos\<close>\<close>
  "at_pos r = (case rr_buf r of None \<Rightarrow> None
     | Some b \<Rightarrow> if rr_pos r \<le> length (sds_buf b) then Some (drop (rr_pos r) (sds_buf b)) else None)"

definition readBytes :: "'m redisReader \<Rightarrow> nat \<Rightarrow> (char list option \<times> 'm redisReader) option" where
  "readBytes r bytes =
     (if sz_sub (rr_len r) (rr_pos r) \<ge> bytes
      then do { p \<leftarrow> at_pos r; Some (Some p, r\<lparr>rr_pos := u64 (rr_pos r + bytes)\<rparr>) }
      else Some (None, r))"

function scan_cr :: "char list \<Rightarrow> nat \<Rightarrow> int \<Rightarrow> nat option" where
  \<comment> \<open>\<open>while (pos < _len && s[pos] != '\r') pos++\<close>\<close>
  "scan_cr s pos len =
     (if int pos < len
      then (case rd s pos of None \<Rightarrow> None
            | Some c \<Rightarrow> if c \<noteq> CR then scan_cr s (pos + 1) len else Some pos)
      else Some pos)"
  by pat_completeness auto
termination
  by (relation "measure (\<lambda>(s, pos, len). nat (len - int pos))") auto

declare scan_cr.simps [simp del]

lemma scan_cr_ge: "scan_cr s pos len = Some k \<Longrightarrow> pos \<le> k"
  by (induction s pos len rule: scan_cr.induct, subst (asm) (2) scan_cr.simps)
     (fastforce split: if_splits option.splits)

function seek_loop :: "char list \<Rightarrow> nat \<Rightarrow> int \<Rightarrow> nat option option" where
  "seek_loop s pos len =
     (if int pos < len then
        (case scan_cr s pos len of None \<Rightarrow> None
         | Some pos \<Rightarrow>
             (case rd s pos of None \<Rightarrow> None
              | Some c \<Rightarrow>
                  if c \<noteq> CR then Some None
                  else (case rd s (pos + 1) of None \<Rightarrow> None
                        | Some d \<Rightarrow> if d = LF then Some (Some pos) else seek_loop s (pos + 1) len)))
      else Some None)"
  by pat_completeness auto
termination
  by (relation "measure (\<lambda>(s, pos, len). nat (len - int pos))") (auto dest!: scan_cr_ge)

declare seek_loop.simps [simp del]

definition seekNewline :: "char list \<Rightarrow> nat \<Rightarrow> nat option option" where
  \<comment> \<open>the offset of the newline from \<open>s\<close>, \<open>None\<close> for NULL\<close>
  "seekNewline s len = seek_loop s 0 (s32 (int (sz_sub len 1)))"

fun digits_loop :: "char list \<Rightarrow> 64 word \<Rightarrow> 64 word option option" where
  \<comment> \<open>the inner \<open>None\<close> is the early \<open>return -1\<close>; the arithmetic wraps around\<close>
  "digits_loop [] v = None"
| "digits_loop (c # s) v =
     (if c = CR then Some (Some v)
      else let dec = schar c - 48 in
        if 0 \<le> dec \<and> dec < 10 then digits_loop s (v * 10 + word_of_int dec) else Some None)"

definition readLongLong :: "char list \<Rightarrow> 64 word option" where
  "readLongLong s = do {
     c \<leftarrow> rd s 0;
     let (mult, s) = (if c = CHR ''-'' then (- 1, drop 1 s) else if c = CHR ''+'' then (1, drop 1 s) else (1, s));
     v \<leftarrow> digits_loop s 0;
     Some (case v of None \<Rightarrow> - 1 | Some v \<Rightarrow> mult * v)
   }"

definition readLine :: "'m redisReader \<Rightarrow> ((char list \<times> int) option \<times> 'm redisReader) option" where
  "readLine r = do {
     p \<leftarrow> at_pos r;
     s \<leftarrow> seekNewline p (sz_sub (rr_len r) (rr_pos r));
     (case s of
        None \<Rightarrow> Some (None, r)
      | Some off \<Rightarrow>
          let len = s32 (int off) in
          Some (Some (p, len), r\<lparr>rr_pos := nat ((int (rr_pos r) + s32 (len + 2)) mod 2 ^ 64)\<rparr>))
   }"

function moveToNextTask :: "'m redisReader \<Rightarrow> 'm redisReader option" where
  "moveToNextTask r =
     (if rr_ridx r \<ge> 0 then
        (if rr_ridx r = 0 then Some (r\<lparr>rr_ridx := -1\<rparr>)
         else
           let k = nat (rr_ridx r);
               cur = rr_rstack r ! k;
               prv = rr_rstack r ! (k - 1)
           in if \<not> (k < length (rr_rstack r) \<and> tk_type prv = REDIS_REPLY_ARRAY) then None
              else if tk_idx cur = s32 (tk_elements prv - 1) then moveToNextTask (r\<lparr>rr_ridx := rr_ridx r - 1\<rparr>)
              else if \<not> tk_idx cur < tk_elements prv then None
              else Some (r\<lparr>rr_rstack := (rr_rstack r)
                     [k := cur\<lparr>tk_type := -1, tk_elements := -1, tk_idx := tk_idx cur + 1\<rparr>]\<rparr>))
      else Some r)"
  by pat_completeness auto
termination
  by (relation "measure (\<lambda>r. nat (rr_ridx r + 1))") auto

declare moveToNextTask.simps [simp del]

definition set_root :: "obj option \<Rightarrow> 'm redisReader \<Rightarrow> 'm redisReader" where
  \<comment> \<open>\<open>if (r->ridx == 0) r->reply = obj\<close>\<close>
  "set_root ob r = (if rr_ridx r = 0 then r\<lparr>rr_reply := ob\<rparr> else r)"

definition processLineItem :: "'m redisReader \<Rightarrow> 'm \<Rightarrow> (int \<times> 'm redisReader \<times> 'm) option" where
  "processLineItem r m = do {
     let k = nat (rr_ridx r);
     require (k < length (rr_rstack r));
     let cur = rr_rstack r ! k;
     (line, r) \<leftarrow> readLine r;
     (case line of
        None \<Rightarrow> Some (REDIS_ERR, r, m)
      | Some (p, len) \<Rightarrow> do {
          (ob, m) \<leftarrow>
            (if tk_type cur = REDIS_REPLY_INTEGER then
               (case Option.bind (rr_fn r) createInteger of
                  Some f \<Rightarrow> do { v \<leftarrow> readLongLong p; f (rr_rstack r) k v m }
                | None \<Rightarrow> Some (Some (Tag REDIS_REPLY_INTEGER), m))
             else
               (case Option.bind (rr_fn r) createString of
                  Some f \<Rightarrow> f (rr_rstack r) k p (nat (len mod 2 ^ 64)) m
                | None \<Rightarrow> Some (Some (Tag (tk_type cur)), m)));
          (case ob of
             None \<Rightarrow> do { (r, m) \<leftarrow> redisReaderSetErrorOOM r m; Some (REDIS_ERR, r, m) }
           | Some _ \<Rightarrow> do { r \<leftarrow> moveToNextTask (set_root ob r); Some (REDIS_OK, r, m) })
        })
   }"

definition processBulkItem :: "'m redisReader \<Rightarrow> 'm \<Rightarrow> (int \<times> 'm redisReader \<times> 'm) option" where
  "processBulkItem r m = do {
     let k = nat (rr_ridx r);
     require (k < length (rr_rstack r));
     p \<leftarrow> at_pos r;
     s \<leftarrow> seekNewline p (sz_sub (rr_len r) (rr_pos r));
     (case s of
        None \<Rightarrow> Some (REDIS_ERR, r, m)
      | Some off \<Rightarrow> do {
          let bytelen = nat (s32 (int off + 2) mod 2 ^ 64);
          len \<leftarrow> readLongLong p;
          let bytelen2 = u64 (bytelen + unat len + 2);
          (res, bytelen) \<leftarrow>
            (if len <s 0 then
               (case Option.bind (rr_fn r) createNil of
                  Some f \<Rightarrow> do { x \<leftarrow> f (rr_rstack r) k m; Some (Some x, bytelen) }
                | None \<Rightarrow> Some (Some (Some (Tag REDIS_REPLY_NIL), m), bytelen))
             else if u64 (rr_pos r + bytelen2) \<le> rr_len r then
               (case Option.bind (rr_fn r) createString of
                  Some f \<Rightarrow> do { x \<leftarrow> f (rr_rstack r) k (drop (off + 2) p) (unat len) m; Some (Some x, bytelen2) }
                | None \<Rightarrow> Some (Some (Some (Tag REDIS_REPLY_STRING), m), bytelen2))
             else Some (None, bytelen2));
          (case res of
             None \<Rightarrow> Some (REDIS_ERR, r, m)
           | Some (ob, m) \<Rightarrow>
               (case ob of
                  None \<Rightarrow> do { (r, m) \<leftarrow> redisReaderSetErrorOOM r m; Some (REDIS_ERR, r, m) }
                | Some _ \<Rightarrow> do {
                    r \<leftarrow> moveToNextTask (set_root ob (r\<lparr>rr_pos := u64 (rr_pos r + bytelen)\<rparr>));
                    Some (REDIS_OK, r, m)
                  }))
        })
   }"

definition push_task :: "'m redisReader \<Rightarrow> nat \<Rightarrow> int \<Rightarrow> obj option \<Rightarrow> 'm redisReader option" where
  \<comment> \<open>\<open>cur->elements = ...; cur->obj = obj; r->ridx++; r->rstack[r->ridx] = ...\<close>\<close>
  "push_task r k elements ob = do {
     require (k + 1 < length (rr_rstack r));
     let stack = (rr_rstack r)[k := (rr_rstack r ! k)\<lparr>tk_elements := elements, tk_obj := ob\<rparr>];
     Some (r\<lparr>rr_ridx := rr_ridx r + 1,
             rr_rstack := stack[k + 1 := \<lparr>tk_type = -1, tk_elements = -1, tk_idx = 0, tk_obj = None,
                                          tk_parent = Some k, tk_privdata = rr_privdata r\<rparr>]\<rparr>)
   }"

definition processMultiBulkItem :: "'m redisReader \<Rightarrow> 'm \<Rightarrow> (int \<times> 'm redisReader \<times> 'm) option" where
  "processMultiBulkItem r m =
     (if rr_ridx r = 8 then do {
        (r, m) \<leftarrow> redisReaderSetError r REDIS_ERR_PROTOCOL ''No support for nested multi bulk replies with depth > 7'' m;
        Some (REDIS_ERR, r, m)
      }
      else do {
        let k = nat (rr_ridx r);
        require (k < length (rr_rstack r));
        (line, r) \<leftarrow> readLine r;
        (case line of
           None \<Rightarrow> Some (REDIS_ERR, r, m)
         | Some (p, _) \<Rightarrow> do {
             elements \<leftarrow> readLongLong p;
             let root = (rr_ridx r = 0);
             (ob, m) \<leftarrow>
               (if elements = - 1 then
                  (case Option.bind (rr_fn r) createNil of
                     Some f \<Rightarrow> f (rr_rstack r) k m
                   | None \<Rightarrow> Some (Some (Tag REDIS_REPLY_NIL), m))
                else
                  (case Option.bind (rr_fn r) createArray of
                     Some f \<Rightarrow> f (rr_rstack r) k (s32 (sint elements)) m
                   | None \<Rightarrow> Some (Some (Tag REDIS_REPLY_ARRAY), m)));
             (case ob of
                None \<Rightarrow> do { (r, m) \<leftarrow> redisReaderSetErrorOOM r m; Some (REDIS_ERR, r, m) }
              | Some _ \<Rightarrow> do {
                  r \<leftarrow> (if elements \<noteq> - 1 \<and> 0 <s elements
                       then push_task r k (s32 (sint elements)) ob
                       else moveToNextTask r);
                  Some (REDIS_OK, if root then r\<lparr>rr_reply := ob\<rparr> else r, m)
                })
           })
      })"

definition set_cur_type :: "'m redisReader \<Rightarrow> nat \<Rightarrow> int \<Rightarrow> 'm redisReader" where
  "set_cur_type r k ty = r\<lparr>rr_rstack := (rr_rstack r)[k := (rr_rstack r ! k)\<lparr>tk_type := ty\<rparr>]\<rparr>"

definition type_of_byte :: "char \<Rightarrow> int option" where
  "type_of_byte c =
     (if c = CHR ''-'' then Some REDIS_REPLY_ERROR
      else if c = CHR ''+'' then Some REDIS_REPLY_STATUS
      else if c = CHR '':'' then Some REDIS_REPLY_INTEGER
      else if c = CHR ''$'' then Some REDIS_REPLY_STRING
      else if c = CHR ''*'' then Some REDIS_REPLY_ARRAY
      else None)"

definition processTyped :: "'m redisReader \<Rightarrow> 'm \<Rightarrow> (int \<times> 'm redisReader \<times> 'm) option" where
  \<comment> \<open>the second \<open>switch\<close> of \<open>processItem\<close>\<close>
  "processTyped r m =
     (let ty = tk_type (rr_rstack r ! nat (rr_ridx r)) in
      if ty = REDIS_REPLY_ERROR \<or> ty = REDIS_REPLY_STATUS \<or> ty = REDIS_REPLY_INTEGER then processLineItem r m
      else if ty = REDIS_REPLY_STRING then processBulkItem r m
      else if ty = REDIS_REPLY_ARRAY then processMultiBulkItem r m
      else None)"

definition processItem :: "'m redisReader \<Rightarrow> 'm \<Rightarrow> (int \<times> 'm redisReader \<times> 'm) option" where
  "processItem r m = do {
     let k = nat (rr_ridx r);
     require (k < length (rr_rstack r));
     if tk_type (rr_rstack r ! k) < 0 then do {
       (p, r) \<leftarrow> readBytes r 1;
       (case p of
          None \<Rightarrow> Some (REDIS_ERR, r, m)
        | Some p \<Rightarrow> do {
            c \<leftarrow> rd p 0;
            (case type_of_byte c of
               Some ty \<Rightarrow> processTyped (set_cur_type r k ty) m
             | None \<Rightarrow> do { (r, m) \<leftarrow> redisReaderSetErrorProtocolByte r c m; Some (REDIS_ERR, r, m) })
          })
     } else processTyped r m
   }"

definition null_task :: redisReadTask where
  \<comment> \<open>a task of zero bytes\<close>
  "null_task = \<lparr>tk_type = 0, tk_elements = 0, tk_idx = 0, tk_obj = None, tk_parent = None, tk_privdata = 0\<rparr>"

definition redisReaderCreate :: "allocs \<Rightarrow> (mem redisReader option \<times> allocs) option" where
  "redisReaderCreate al =
     (case alloc_next al of
        (None, al) \<Rightarrow> Some (None, al)
      | (Some _, al) \<Rightarrow> do {
          (buf, al) \<leftarrow> sdsempty al;
          Some (case buf of
             None \<Rightarrow> None
           | Some _ \<Rightarrow> Some \<lparr>rr_err = 0, rr_errstr = [], rr_buf = buf, rr_pos = 0, rr_len = 0,
               rr_maxbuf = REDIS_READER_MAX_BUF, rr_rstack = replicate 9 null_task, rr_ridx = -1,
               rr_reply = None, rr_fn = Some defaultFunctions, rr_privdata = 0\<rparr>, al)
        })"

definition redisReaderFree :: "'m redisReader \<Rightarrow> 'm \<Rightarrow> 'm option" where
  "redisReaderFree r m =
     (case (rr_reply r, Option.bind (rr_fn r) freeObject) of
        (Some ob, Some free) \<Rightarrow> free ob m
      | _ \<Rightarrow> Some m)"

definition redisReaderFeed ::
  "'m redisReader \<Rightarrow> char list option \<Rightarrow> nat \<Rightarrow> 'm \<Rightarrow> allocs \<Rightarrow> (int \<times> 'm redisReader \<times> 'm \<times> allocs) option" where
  "redisReaderFeed r buf len m al =
     (if rr_err r \<noteq> 0 then Some (REDIS_ERR, r, m, al)
      else (case buf of
          None \<Rightarrow> Some (REDIS_OK, r, m, al)
        | Some bytes \<Rightarrow>
            if \<not> len \<ge> 1 then Some (REDIS_OK, r, m, al)
            else do {
              (r, al) \<leftarrow>
                (if rr_len r = 0 \<and> rr_maxbuf r \<noteq> 0 then do {
                   b \<leftarrow> rr_buf r;
                   if sdsavail b > rr_maxbuf r then do {
                     (nb, al) \<leftarrow> sdsempty al;
                     require (nb \<noteq> None);
                     Some (r\<lparr>rr_buf := nb, rr_pos := 0\<rparr>, al)
                   } else Some (r, al)
                 } else Some (r, al));
              (newbuf, al) \<leftarrow> sdscatlen (rr_buf r) bytes len al;
              (case newbuf of
                 None \<Rightarrow> do { (r, m) \<leftarrow> redisReaderSetErrorOOM r m; Some (REDIS_ERR, r, m, al) }
               | Some b \<Rightarrow> Some (REDIS_OK, r\<lparr>rr_buf := newbuf, rr_len := sdslen b\<rparr>, m, al))
            }))"

partial_function (option) process_loop :: "'m redisReader \<Rightarrow> 'm \<Rightarrow> ('m redisReader \<times> 'm) option" where
  \<comment> \<open>\<open>while (r->ridx >= 0) if (processItem(r) != REDIS_OK) break;\<close>\<close>
  "process_loop r m =
     (if rr_ridx r \<ge> 0 then
        (case processItem r m of
           None \<Rightarrow> None
         | Some (res, r, m) \<Rightarrow> if res \<noteq> REDIS_OK then Some (r, m) else process_loop r m)
      else Some (r, m))"

definition first_task :: "'m redisReader \<Rightarrow> 'm redisReader" where
  \<comment> \<open>\<open>Set first item to process when the stack is empty\<close>\<close>
  "first_task r =
     (if rr_ridx r = -1
      then r\<lparr>rr_rstack := (rr_rstack r)[0 := \<lparr>tk_type = -1, tk_elements = -1, tk_idx = -1, tk_obj = None,
                                                tk_parent = None, tk_privdata = rr_privdata r\<rparr>],
             rr_ridx := 0\<rparr>
      else r)"

definition discard_read :: "'m redisReader \<Rightarrow> 'm redisReader option" where
  "discard_read r =
     (if rr_pos r \<ge> 1024 then do {
        b \<leftarrow> rr_buf r;
        b \<leftarrow> sdsrange b (s32 (int (rr_pos r))) (-1);
        Some (r\<lparr>rr_buf := Some b, rr_pos := 0, rr_len := sdslen b\<rparr>)
      } else Some r)"

definition redisReaderGetReply ::
  "'m redisReader \<Rightarrow> 'm \<Rightarrow> (int \<times> obj option \<times> 'm redisReader \<times> 'm) option" where
  \<comment> \<open>the status and the value stored to \<open>*reply\<close>\<close>
  "redisReaderGetReply r m =
     (if rr_err r \<noteq> 0 then Some (REDIS_ERR, None, r, m)
      else if rr_len r = 0 then Some (REDIS_OK, None, r, m)
      else do {
        (r, m) \<leftarrow> process_loop (first_task r) m;
        if rr_err r \<noteq> 0 then Some (REDIS_ERR, None, r, m)
        else do {
          r \<leftarrow> discard_read r;
          if rr_ridx r = -1 then Some (REDIS_OK, rr_reply r, r\<lparr>rr_reply := None\<rparr>, m)
          else Some (REDIS_OK, None, r, m)
        }
      })"

end
