(* ===== verification/Context.thy ===== *)
theory Context
  imports Format Reader
begin

text \<open>
  The synchronous client context of \<open>hiredis.c\<close> (lines 978-1419): its state \<open>redisContext\<close>, the
  operating system it talks to, and the operations that buffer, send and receive. The operations
  that connect are in \<open>Net\<close>.

  The operating system is a record of state: the outcomes of the reads and writes to come on each
  descriptor, in order (a script, which a theorem quantifies over), the bytes each descriptor has
  accepted, \<open>errno\<close>, the calls made so far, and functions that answer the remaining calls from the
  calls made before. A read past the end of its script is the end of the stream, a write past the
  end accepts everything.
\<close>

section \<open>The operating system\<close>

datatype sock_read =
    RData string    \<comment> \<open>bytes that have arrived together; none is the end of the stream\<close>
  | RFail int       \<comment> \<open>-1 with this \<open>errno\<close>\<close>

datatype sock_write =
    WAccept nat     \<comment> \<open>at most that many bytes are taken\<close>
  | WFail int

record addrinfo =
  ai_family :: int
  ai_socktype :: int
  ai_protocol :: int
  ai_addr :: string
  ai_addrlen :: nat

datatype call =
    CSocket int int int
  | CSetsockopt int int int "int list"      \<comment> \<open>descriptor, level, option, value\<close>
  | CGetsockopt int int int
  | CGetfl int
  | CSetfl int "32 word"
  | CIoctl int int "int list"
  | CPoll int int
  | CConnect int string nat
  | CBind int string nat
  | CResolve "string option" "string option" int   \<comment> \<open>\<open>getaddrinfo\<close>: host, service, family\<close>
  | CFreeaddrinfo
  | CClose int

record os_functions =
  os_ret :: "call list \<Rightarrow> call \<Rightarrow> int \<times> int"     \<comment> \<open>the value returned and, with -1, \<open>errno\<close>\<close>
  os_soerror :: "call list \<Rightarrow> int"              \<comment> \<open>the value stored by \<open>getsockopt(SO_ERROR)\<close>\<close>
  os_resolve :: "call list \<Rightarrow> call \<Rightarrow> int + addrinfo list"
  os_strerror_r :: "int \<Rightarrow> nat \<Rightarrow> string"     \<comment> \<open>the text stored in a buffer of that size\<close>
  os_strerror :: "int \<Rightarrow> string"
  os_gai_strerror :: "int \<Rightarrow> string"

record sys =
  y_al :: allocs
  y_mem :: mem
  y_errno :: int
  y_reads :: "int \<Rightarrow> sock_read list"
  y_writes :: "int \<Rightarrow> sock_write list"
  y_sent :: "int \<Rightarrow> string"
  y_calls :: "call list"      \<comment> \<open>the last one first\<close>
  y_os :: os_functions

abbreviation (input) EINTR :: int where "EINTR \<equiv> 4"
abbreviation (input) EAGAIN :: int where "EAGAIN \<equiv> 11"
abbreviation (input) EHOSTUNREACH :: int where "EHOSTUNREACH \<equiv> 110"
abbreviation (input) EINPROGRESS :: int where "EINPROGRESS \<equiv> 112"
abbreviation (input) ETIMEDOUT :: int where "ETIMEDOUT \<equiv> 138"

definition sock_read :: "int \<Rightarrow> nat \<Rightarrow> sys \<Rightarrow> int \<times> string \<times> sys" where
  \<comment> \<open>\<open>read(fd,buf,n)\<close>: the value returned and the bytes stored\<close>
  "sock_read fd n y =
     (case y_reads y fd of
        [] \<Rightarrow> (0, [], y)
      | RFail e # rs \<Rightarrow> (-1, [], y\<lparr>y_errno := e, y_reads := (y_reads y)(fd := rs)\<rparr>)
      | RData s # rs \<Rightarrow>
          (int (length (take n s)), take n s,
           y\<lparr>y_reads := (y_reads y)(fd := (if length s \<le> n then rs else RData (drop n s) # rs))\<rparr>))"

definition sock_write :: "int \<Rightarrow> string \<Rightarrow> sys \<Rightarrow> int \<times> sys" where
  \<comment> \<open>\<open>write(fd,bs,length bs)\<close>\<close>
  "sock_write fd bs y =
     (case y_writes y fd of
        [] \<Rightarrow> (int (length bs), y\<lparr>y_sent := (y_sent y)(fd := y_sent y fd @ bs)\<rparr>)
      | WFail e # ws \<Rightarrow> (-1, y\<lparr>y_errno := e, y_writes := (y_writes y)(fd := ws)\<rparr>)
      | WAccept k # ws \<Rightarrow>
          (int (length (take k bs)),
           y\<lparr>y_writes := (y_writes y)(fd := ws), y_sent := (y_sent y)(fd := y_sent y fd @ take k bs)\<rparr>))"

definition sys_call :: "call \<Rightarrow> sys \<Rightarrow> int \<times> sys" where
  "sys_call k y =
     (case os_ret (y_os y) (y_calls y) k of
        (v, e) \<Rightarrow> (v, y\<lparr>y_calls := k # y_calls y, y_errno := (if v = -1 then e else y_errno y)\<rparr>))"

definition sys_close :: "int \<Rightarrow> sys \<Rightarrow> sys" where
  "sys_close fd y = y\<lparr>y_calls := CClose fd # y_calls y\<rparr>"

definition strerror_r :: "nat \<Rightarrow> sys \<Rightarrow> string" where
  \<comment> \<open>\<open>strerror_r(errno,buf,n)\<close>\<close>
  "strerror_r n y = take (n - 1) (os_strerror_r (y_os y) (y_errno y) n)"

section \<open>The context\<close>

record redisContext =
  rc_err :: int
  rc_errstr :: string
  rc_fd :: int
  rc_flags :: "32 word"
  rc_obuf :: sds
  rc_reader :: "mem redisReader option"

definition REDIS_BLOCK :: "32 word" where "REDIS_BLOCK = 0x1"
definition REDIS_CONNECTED :: "32 word" where "REDIS_CONNECTED = 0x2"
definition REDIS_DISCONNECTING :: "32 word" where "REDIS_DISCONNECTING = 0x4"
definition REDIS_FREEING :: "32 word" where "REDIS_FREEING = 0x8"
definition REDIS_IN_CALLBACK :: "32 word" where "REDIS_IN_CALLBACK = 0x10"
definition REDIS_SUBSCRIBED :: "32 word" where "REDIS_SUBSCRIBED = 0x20"
definition REDIS_MONITORING :: "32 word" where "REDIS_MONITORING = 0x40"

unbundle bit_operations_syntax

definition has_flag :: "redisContext \<Rightarrow> 32 word \<Rightarrow> bool" where
  \<comment> \<open>\<open>c->flags & flag\<close> as a condition\<close>
  "has_flag c fl \<longleftrightarrow> (rc_flags c AND fl) \<noteq> 0"

definition set_flag :: "redisContext \<Rightarrow> 32 word \<Rightarrow> redisContext" where
  \<comment> \<open>\<open>c->flags |= flag\<close>\<close>
  "set_flag c fl = c\<lparr>rc_flags := rc_flags c OR fl\<rparr>"

definition clear_flag :: "redisContext \<Rightarrow> 32 word \<Rightarrow> redisContext" where
  \<comment> \<open>\<open>c->flags &= ~flag\<close>\<close>
  "clear_flag c fl = c\<lparr>rc_flags := rc_flags c AND NOT fl\<rparr>"

definition redisSetError :: "redisContext \<Rightarrow> int \<Rightarrow> string option \<Rightarrow> sys \<Rightarrow> redisContext option" where
  \<comment> \<open>\<open>__redisSetError\<close>; \<open>errstr\<close> has 128 bytes\<close>
  "redisSetError c ty str y =
     (case str of
        Some s \<Rightarrow> Some (c\<lparr>rc_err := ty, rc_errstr := take 127 (takeWhile (\<lambda>c. c \<noteq> NUL) s)\<rparr>)
      | None \<Rightarrow> do {
          require (ty = REDIS_ERR_IO);
          Some (c\<lparr>rc_err := ty, rc_errstr := strerror_r 128 y\<rparr>)
        })"

definition redisContextInit :: "sys \<Rightarrow> (redisContext option \<times> sys) option" where
  \<comment> \<open>the buffer and the reader stay NULL when they cannot be allocated\<close>
  "redisContextInit y =
     (case alloc_next (y_al y) of
        (None, al) \<Rightarrow> Some (None, y\<lparr>y_al := al\<rparr>)
      | (Some _, al) \<Rightarrow> do {
          (obuf, al) \<leftarrow> sdsempty al;
          (reader, al) \<leftarrow> redisReaderCreate al;
          Some (Some \<lparr>rc_err = 0, rc_errstr = [], rc_fd = 0, rc_flags = 0, rc_obuf = obuf, rc_reader = reader\<rparr>,
                y\<lparr>y_al := al\<rparr>)
        })"

definition redisFree :: "redisContext \<Rightarrow> sys \<Rightarrow> sys option" where
  "redisFree c y = do {
     let y = (if rc_fd c > 0 then sys_close (rc_fd c) y else y);
     (case rc_reader c of
        None \<Rightarrow> Some y
      | Some r \<Rightarrow> do { m \<leftarrow> redisReaderFree r (y_mem y); Some (y\<lparr>y_mem := m\<rparr>) })
   }"

definition redisFreeKeepFd :: "redisContext \<Rightarrow> sys \<Rightarrow> (int \<times> sys) option" where
  "redisFreeKeepFd c y = do {
     let fd = rc_fd c;
     y \<leftarrow> redisFree (c\<lparr>rc_fd := -1\<rparr>) y;
     Some (fd, y)
   }"

section \<open>Reading\<close>

type_synonym ctx_result = "(int \<times> redisContext \<times> sys) option"

definition feed_context :: "redisContext \<Rightarrow> string \<Rightarrow> nat \<Rightarrow> sys \<Rightarrow> ctx_result" where
  \<comment> \<open>\<open>redisReaderFeed(c->reader,buf,nread)\<close> and the error of the reader copied\<close>
  "feed_context c buf n y = do {
     r \<leftarrow> rc_reader c;
     (st, r, m, al) \<leftarrow> redisReaderFeed r (Some buf) n (y_mem y) (y_al y);
     let c = c\<lparr>rc_reader := Some r\<rparr>;
     let y = y\<lparr>y_mem := m, y_al := al\<rparr>;
     if st \<noteq> REDIS_OK then do {
       c \<leftarrow> redisSetError c (rr_err r) (Some (rr_errstr r)) y;
       Some (REDIS_ERR, c, y)
     } else Some (REDIS_OK, c, y)
   }"

definition redisBufferRead :: "redisContext \<Rightarrow> sys \<Rightarrow> ctx_result" where
  "redisBufferRead c y =
     (if rc_err c \<noteq> 0 then Some (REDIS_ERR, c, y)
      else case sock_read (rc_fd c) (1024 * 16) y of
        (nread, buf, y) \<Rightarrow>
          let nread = s32 nread in
          if nread = -1 then
            (if y_errno y = EAGAIN \<and> \<not> has_flag c REDIS_BLOCK \<or> y_errno y = EINTR then Some (REDIS_OK, c, y)
             else do { c \<leftarrow> redisSetError c REDIS_ERR_IO None y; Some (REDIS_ERR, c, y) })
          else if nread = 0 then do {
            c \<leftarrow> redisSetError c REDIS_ERR_EOF (Some ''Server closed the connection'') y;
            Some (REDIS_ERR, c, y)
          }
          else feed_context c buf (nat (nread mod 2 ^ 64)) y)"

definition redisBufferReadDone :: "redisContext \<Rightarrow> string \<Rightarrow> int \<Rightarrow> sys \<Rightarrow> ctx_result" where
  "redisBufferReadDone c buf nread y =
     (if nread = -1 then
        (if y_errno y = EAGAIN \<and> \<not> has_flag c REDIS_BLOCK then Some (REDIS_OK, c, y)
         else do { c \<leftarrow> redisSetError c REDIS_ERR_IO None y; Some (REDIS_ERR, c, y) })
      else if nread = 0 then do {
        (s, al) \<leftarrow> sdsnew (Some ''Server closed the connection'') (y_al y);
        let y = y\<lparr>y_al := al\<rparr>;
        c \<leftarrow> redisSetError c REDIS_ERR_EOF (map_option sds_buf s) y;
        Some (REDIS_ERR, c, y)
      }
      else feed_context c buf (nat (nread mod 2 ^ 64)) y)"

section \<open>Writing\<close>

definition written :: "redisContext \<Rightarrow> int \<Rightarrow> sys \<Rightarrow> (redisContext \<times> sys) option" where
  \<comment> \<open>\<open>if (nwritten > 0) ...\<close>: what was sent leaves the buffer\<close>
  "written c n y =
     (if n > 0 then do {
        b \<leftarrow> rc_obuf c;
        if n = s32 (int (sdslen b)) then do {
          (b, al) \<leftarrow> sdsempty (y_al y);
          Some (c\<lparr>rc_obuf := b\<rparr>, y\<lparr>y_al := al\<rparr>)
        } else do {
          b \<leftarrow> sdsrange b n (-1);
          Some (c\<lparr>rc_obuf := Some b\<rparr>, y)
        }
      } else Some (c, y))"

definition obuf_done :: "redisContext \<Rightarrow> bool option" where
  \<comment> \<open>\<open>*done = (sdslen(c->obuf) == 0)\<close>\<close>
  "obuf_done c = do { b \<leftarrow> rc_obuf c; Some (sdslen b = 0) }"

definition redisBufferWrite :: "redisContext \<Rightarrow> sys \<Rightarrow> (int \<times> bool option \<times> redisContext \<times> sys) option" where
  \<comment> \<open>the second component is what is stored to \<open>*done\<close>, if anything\<close>
  "redisBufferWrite c y =
     (if rc_err c \<noteq> 0 then Some (REDIS_ERR, None, c, y)
      else do {
        b \<leftarrow> rc_obuf c;
        (st, c, y) \<leftarrow>
          (if sdslen b > 0 then do {
             bs \<leftarrow> read_at 0 (sdslen b) (sds_buf b);
             (case sock_write (rc_fd c) bs y of
                (n, y) \<Rightarrow>
                  let n = s32 n in
                  if n = -1 then
                    (if y_errno y = EAGAIN \<and> \<not> has_flag c REDIS_BLOCK \<or> y_errno y = EINTR then Some (REDIS_OK, c, y)
                     else do { c \<leftarrow> redisSetError c REDIS_ERR_IO None y; Some (REDIS_ERR, c, y) })
                  else do { (c, y) \<leftarrow> written c n y; Some (REDIS_OK, c, y) })
           } else Some (REDIS_OK, c, y));
        if st = REDIS_ERR then Some (REDIS_ERR, None, c, y)
        else do { d \<leftarrow> obuf_done c; Some (REDIS_OK, Some d, c, y) }
      })"

definition redisBufferWriteDone ::
  "redisContext \<Rightarrow> int \<Rightarrow> sys \<Rightarrow> (int \<times> bool \<times> redisContext \<times> sys) option" where
  "redisBufferWriteDone c nwritten y = do {
     (c, y) \<leftarrow> written c nwritten y;
     d \<leftarrow> obuf_done c;
     Some (REDIS_OK, d, c, y)
   }"

section \<open>Replies\<close>

definition redisGetReplyFromReader :: "redisContext \<Rightarrow> sys \<Rightarrow> (int \<times> obj option \<times> redisContext \<times> sys) option" where
  "redisGetReplyFromReader c y = do {
     r \<leftarrow> rc_reader c;
     (st, ob, r, m) \<leftarrow> redisReaderGetReply r (y_mem y);
     let c = c\<lparr>rc_reader := Some r\<rparr>;
     let y = y\<lparr>y_mem := m\<rparr>;
     if st = REDIS_ERR then do {
       c \<leftarrow> redisSetError c (rr_err r) (Some (rr_errstr r)) y;
       Some (REDIS_ERR, None, c, y)
     } else Some (REDIS_OK, ob, c, y)
   }"

partial_function (option) write_all :: "redisContext \<Rightarrow> sys \<Rightarrow> ctx_result" where
  \<comment> \<open>\<open>do { if (redisBufferWrite(c,&wdone) == REDIS_ERR) return REDIS_ERR; } while (!wdone);\<close>\<close>
  "write_all c y =
     (case redisBufferWrite c y of
        None \<Rightarrow> None
      | Some (st, wdone, c, y) \<Rightarrow>
          if st = REDIS_ERR then Some (REDIS_ERR, c, y)
          else if wdone = Some True then Some (REDIS_OK, c, y)
          else write_all c y)"

partial_function (option) read_reply :: "redisContext \<Rightarrow> sys \<Rightarrow> (int \<times> obj option \<times> redisContext \<times> sys) option" where
  \<comment> \<open>\<open>Read until there is a reply\<close>\<close>
  "read_reply c y =
     (case redisBufferRead c y of
        None \<Rightarrow> None
      | Some (st, c, y) \<Rightarrow>
          if st = REDIS_ERR then Some (REDIS_ERR, None, c, y)
          else (case redisGetReplyFromReader c y of
                  None \<Rightarrow> None
                | Some (st, aux, c, y) \<Rightarrow>
                    if st = REDIS_ERR then Some (REDIS_ERR, None, c, y)
                    else if aux = None then read_reply c y
                    else Some (REDIS_OK, aux, c, y)))"

definition redisGetReply :: "redisContext \<Rightarrow> sys \<Rightarrow> (int \<times> obj option \<times> redisContext \<times> sys) option" where
  \<comment> \<open>the status and the reply stored on success\<close>
  "redisGetReply c y = do {
     (st, aux, c, y) \<leftarrow> redisGetReplyFromReader c y;
     if st = REDIS_ERR then Some (REDIS_ERR, None, c, y)
     else if aux = None \<and> has_flag c REDIS_BLOCK then do {
       (st, c, y) \<leftarrow> write_all c y;
       if st = REDIS_ERR then Some (REDIS_ERR, None, c, y) else read_reply c y
     }
     else Some (REDIS_OK, aux, c, y)
   }"

section \<open>Commands\<close>

definition redisAppend :: "redisContext \<Rightarrow> string \<Rightarrow> nat \<Rightarrow> sys \<Rightarrow> ctx_result" where
  \<comment> \<open>\<open>__redisAppendCommand\<close>\<close>
  "redisAppend c cmd len y = do {
     (newbuf, al) \<leftarrow> sdscatlen (rc_obuf c) cmd len (y_al y);
     let y = y\<lparr>y_al := al\<rparr>;
     (case newbuf of
        None \<Rightarrow> do { c \<leftarrow> redisSetError c REDIS_ERR_OOM (Some ''Out of memory'') y; Some (REDIS_ERR, c, y) }
      | Some _ \<Rightarrow> Some (REDIS_OK, c\<lparr>rc_obuf := newbuf\<rparr>, y))
   }"

definition redisAppendFormattedCommand :: "redisContext \<Rightarrow> string \<Rightarrow> nat \<Rightarrow> sys \<Rightarrow> ctx_result" where
  "redisAppendFormattedCommand c cmd len y = do {
     (st, c, y) \<leftarrow> redisAppend c cmd len y;
     Some (if st \<noteq> REDIS_OK then REDIS_ERR else REDIS_OK, c, y)
   }"

definition append_formatted ::
  "redisContext \<Rightarrow> (int \<times> char list option \<times> allocs) option \<Rightarrow> sys \<Rightarrow> ctx_result" where
  \<comment> \<open>what both functions below do with the command they have formatted; a command that was not
     stored cannot be read\<close>
  "append_formatted c formatted y = do {
     (len, cmd, al) \<leftarrow> formatted;
     let y = y\<lparr>y_al := al\<rparr>;
     if len = -1 then do {
       c \<leftarrow> redisSetError c REDIS_ERR_OOM (Some ''Out of memory'') y;
       Some (REDIS_ERR, c, y)
     } else do {
       cmd \<leftarrow> cmd;
       (st, c, y) \<leftarrow> redisAppend c cmd (nat (len mod 2 ^ 64)) y;
       Some (if st \<noteq> REDIS_OK then REDIS_ERR else REDIS_OK, c, y)
     }
   }"

definition redisvAppendCommand :: "redisContext \<Rightarrow> string \<Rightarrow> va list \<Rightarrow> sys \<Rightarrow> ctx_result" where
  "redisvAppendCommand c format ap y = append_formatted c (redisvFormatCommand format ap (y_al y)) y"

definition redisAppendCommand :: "redisContext \<Rightarrow> string \<Rightarrow> va list \<Rightarrow> sys \<Rightarrow> ctx_result" where
  "redisAppendCommand c format args y = redisvAppendCommand c format args y"

definition redisAppendCommandArgv ::
  "redisContext \<Rightarrow> int \<Rightarrow> char list list \<Rightarrow> nat list option \<Rightarrow> sys \<Rightarrow> ctx_result" where
  "redisAppendCommandArgv c argc argv argvlen y =
     append_formatted c (redisFormatCommandArgv argc argv argvlen (y_al y)) y"

definition redisBlockForReply :: "redisContext \<Rightarrow> sys \<Rightarrow> (obj option \<times> redisContext \<times> sys) option" where
  \<comment> \<open>\<open>__redisBlockForReply\<close>\<close>
  "redisBlockForReply c y =
     (if has_flag c REDIS_BLOCK then do {
        (st, reply, c, y) \<leftarrow> redisGetReply c y;
        Some (if st \<noteq> REDIS_OK then None else reply, c, y)
      } else Some (None, c, y))"

definition redisvCommand :: "redisContext \<Rightarrow> string \<Rightarrow> va list \<Rightarrow> sys \<Rightarrow> (obj option \<times> redisContext \<times> sys) option" where
  "redisvCommand c format ap y = do {
     (st, c, y) \<leftarrow> redisvAppendCommand c format ap y;
     if st \<noteq> REDIS_OK then Some (None, c, y) else redisBlockForReply c y
   }"

definition redisCommand :: "redisContext \<Rightarrow> string \<Rightarrow> va list \<Rightarrow> sys \<Rightarrow> (obj option \<times> redisContext \<times> sys) option" where
  "redisCommand c format args y = redisvCommand c format args y"

definition redisCommandArgv ::
  "redisContext \<Rightarrow> int \<Rightarrow> char list list \<Rightarrow> nat list option \<Rightarrow> sys \<Rightarrow> (obj option \<times> redisContext \<times> sys) option" where
  "redisCommandArgv c argc argv argvlen y = do {
     (st, c, y) \<leftarrow> redisAppendCommandArgv c argc argv argvlen y;
     if st \<noteq> REDIS_OK then Some (None, c, y) else redisBlockForReply c y
   }"

end
