(* ===== verification/Net.thy ===== *)
theory Net
  imports Context "HOL-Library.Signed_Division"
begin

text \<open>
  Connections: \<open>net.c\<close> as it is compiled for Windows and the functions \<open>redisConnect*\<close> of
  \<open>hiredis.c\<close>. Every call to the socket layer is recorded in \<open>y_calls\<close>, so that a theorem can say
  what was opened, bound, connected and closed, and in which order.
\<close>

abbreviation (input) AF_UNSPEC :: int where "AF_UNSPEC \<equiv> 0"
abbreviation (input) AF_INET :: int where "AF_INET \<equiv> 2"
abbreviation (input) AF_INET6 :: int where "AF_INET6 \<equiv> 23"
abbreviation (input) SOCK_STREAM :: int where "SOCK_STREAM \<equiv> 1"
abbreviation (input) SOL_SOCKET :: int where "SOL_SOCKET \<equiv> 0xFFFF"
abbreviation (input) SO_REUSEADDR :: int where "SO_REUSEADDR \<equiv> 0x0004"
abbreviation (input) SO_KEEPALIVE :: int where "SO_KEEPALIVE \<equiv> 0x0008"
abbreviation (input) SO_SNDTIMEO :: int where "SO_SNDTIMEO \<equiv> 0x1005"
abbreviation (input) SO_RCVTIMEO :: int where "SO_RCVTIMEO \<equiv> 0x1006"
abbreviation (input) SO_ERROR :: int where "SO_ERROR \<equiv> 0x1007"
abbreviation (input) IPPROTO_TCP :: int where "IPPROTO_TCP \<equiv> 6"
abbreviation (input) TCP_NODELAY :: int where "TCP_NODELAY \<equiv> 1"
abbreviation (input) SIO_KEEPALIVE_VALS :: int where "SIO_KEEPALIVE_VALS \<equiv> 0x98000004"

definition O_NONBLOCK :: "32 word" where "O_NONBLOCK = 0x0004"

definition REDIS_KEEPALIVE_INTERVAL :: int where
  "REDIS_KEEPALIVE_INTERVAL = 15"

record timeval =
  tv_sec :: int
  tv_usec :: int

definition c_snprintf :: "nat \<Rightarrow> string \<Rightarrow> string option" where
  \<comment> \<open>\<open>snprintf\<close> is \<open>_snprintf\<close> here, which leaves no terminator when the text fills the buffer\<close>
  "c_snprintf n text = (if length text < n then Some text else None)"

section \<open>Errors and the descriptor\<close>

definition redisContextCloseFd :: "redisContext \<Rightarrow> sys \<Rightarrow> redisContext \<times> sys" where
  "redisContextCloseFd c y =
     (if rc_fd c \<ge> 0 then (c\<lparr>rc_fd := -1\<rparr>, sys_close (rc_fd c) y) else (c, y))"

definition redisSetErrorFromErrno :: "redisContext \<Rightarrow> int \<Rightarrow> string option \<Rightarrow> sys \<Rightarrow> redisContext option" where
  "redisSetErrorFromErrno c ty pfx y =
     (let pre = (case pfx of None \<Rightarrow> [] | Some p \<Rightarrow> p @ '': '')
      in redisSetError c ty (Some (pre @ strerror_r (128 - length pre) y)) y)"

definition fail_errno :: "redisContext \<Rightarrow> string option \<Rightarrow> sys \<Rightarrow> ctx_result" where
  \<comment> \<open>\<open>__redisSetErrorFromErrno(c,REDIS_ERR_IO,pfx); redisContextCloseFd(c); return REDIS_ERR\<close>\<close>
  "fail_errno c pfx y = do {
     c \<leftarrow> redisSetErrorFromErrno c REDIS_ERR_IO pfx y;
     (case redisContextCloseFd c y of (c, y) \<Rightarrow> Some (REDIS_ERR, c, y))
   }"

definition fail_other :: "redisContext \<Rightarrow> string \<Rightarrow> sys \<Rightarrow> ctx_result" where
  \<comment> \<open>\<open>char buf[128]; snprintf(buf,sizeof(buf),...); __redisSetError(c,REDIS_ERR_OTHER,buf); goto error\<close>\<close>
  "fail_other c text y = do {
     buf \<leftarrow> c_snprintf 128 text;
     c \<leftarrow> redisSetError c REDIS_ERR_OTHER (Some buf) y;
     Some (REDIS_ERR, c, y)
   }"

definition redisSetReuseAddr :: "redisContext \<Rightarrow> sys \<Rightarrow> ctx_result" where
  "redisSetReuseAddr c y =
     (case sys_call (CSetsockopt (rc_fd c) SOL_SOCKET SO_REUSEADDR [1]) y of
        (v, y) \<Rightarrow> if v = -1 then fail_errno c None y else Some (REDIS_OK, c, y))"

definition redisCreateSocket :: "redisContext \<Rightarrow> int \<Rightarrow> sys \<Rightarrow> ctx_result" where
  "redisCreateSocket c ty y =
     (case sys_call (CSocket ty SOCK_STREAM 0) y of
        (s, y) \<Rightarrow>
          if s = -1 then do { c \<leftarrow> redisSetErrorFromErrno c REDIS_ERR_IO None y; Some (REDIS_ERR, c, y) }
          else if ty = AF_INET then do {
            (st, c, y) \<leftarrow> redisSetReuseAddr (c\<lparr>rc_fd := s\<rparr>) y;
            Some (if st = REDIS_ERR then REDIS_ERR else REDIS_OK, c, y)
          }
          else Some (REDIS_OK, c\<lparr>rc_fd := s\<rparr>, y))"

definition redisSetBlocking :: "redisContext \<Rightarrow> bool \<Rightarrow> sys \<Rightarrow> ctx_result" where
  "redisSetBlocking c blocking y =
     (case sys_call (CGetfl (rc_fd c)) y of
        (flags, y) \<Rightarrow>
          if flags = -1 then fail_errno c (Some ''fcntl(F_GETFL)'') y
          else
            let w = (word_of_int flags :: 32 word);
                w = (if blocking then w AND NOT O_NONBLOCK else w OR O_NONBLOCK)
            in case sys_call (CSetfl (rc_fd c) w) y of
                 (v, y) \<Rightarrow> if v = -1 then fail_errno c (Some ''fcntl(F_SETFL)'') y else Some (REDIS_OK, c, y))"

definition redisKeepAlive :: "redisContext \<Rightarrow> int \<Rightarrow> sys \<Rightarrow> ctx_result" where
  \<comment> \<open>the outcome of the \<open>ioctl\<close> is not looked at\<close>
  "redisKeepAlive c interval y =
     (case sys_call (CSetsockopt (rc_fd c) SOL_SOCKET SO_KEEPALIVE [1]) y of
        (v, y) \<Rightarrow>
          if v = -1 then do {
            c \<leftarrow> redisSetError c REDIS_ERR_OTHER (Some (os_strerror (y_os y) (y_errno y))) y;
            Some (REDIS_ERR, c, y)
          }
          else case sys_call (CIoctl (rc_fd c) SIO_KEEPALIVE_VALS
                   [1, (s32 (interval * 1000)) mod 2 ^ 32, (s32 (interval * 1000) sdiv 3) mod 2 ^ 32]) y of
                 (_, y) \<Rightarrow> Some (REDIS_OK, c, y))"

definition redisSetTcpNoDelay :: "redisContext \<Rightarrow> sys \<Rightarrow> ctx_result" where
  "redisSetTcpNoDelay c y =
     (case sys_call (CSetsockopt (rc_fd c) IPPROTO_TCP TCP_NODELAY [1]) y of
        (v, y) \<Rightarrow> if v = -1 then fail_errno c (Some ''setsockopt(TCP_NODELAY)'') y else Some (REDIS_OK, c, y))"

definition redisCheckSocketError :: "redisContext \<Rightarrow> sys \<Rightarrow> ctx_result" where
  "redisCheckSocketError c y =
     (let err = os_soerror (y_os y) (y_calls y) in
      case sys_call (CGetsockopt (rc_fd c) SOL_SOCKET SO_ERROR) y of
        (v, y) \<Rightarrow>
          if v = -1 then do {
            c \<leftarrow> redisSetErrorFromErrno c REDIS_ERR_IO (Some ''getsockopt(SO_ERROR)'') y;
            Some (REDIS_ERR, c, y)
          }
          else if err \<noteq> 0 then do {
            let y = y\<lparr>y_errno := err\<rparr>;
            c \<leftarrow> redisSetErrorFromErrno c REDIS_ERR_IO None y;
            Some (REDIS_ERR, c, y)
          }
          else Some (REDIS_OK, c, y))"

definition MAX_MSEC :: int where
  \<comment> \<open>\<open>LONG_MAX\<close> is that of a \<open>long\<close> of 32 bits\<close>
  "MAX_MSEC = (2 ^ 31 - 1 - 999) div 1000"

definition wait_msec :: "timeval \<Rightarrow> int option" where
  \<comment> \<open>the computation in \<open>long\<close>, whose overflow is undefined, and the cut to \<open>INT_MAX\<close>\<close>
  "wait_msec tv = do {
     let a = tv_sec tv * 1000;
     let b = (tv_usec tv + 999) sdiv 1000;
     require (- (2 ^ 31) \<le> a \<and> a < 2 ^ 31 \<and> - (2 ^ 31) \<le> a + b \<and> a + b < 2 ^ 31);
     Some (if a + b < 0 then 2 ^ 31 - 1 else a + b)
   }"

definition redisContextWaitReady :: "redisContext \<Rightarrow> timeval option \<Rightarrow> sys \<Rightarrow> ctx_result" where
  "redisContextWaitReady c timeout y =
     (if (case timeout of None \<Rightarrow> False | Some tv \<Rightarrow> tv_usec tv > 1000000 \<or> tv_sec tv > MAX_MSEC)
      then fail_errno c None y
      else do {
        msec \<leftarrow> (case timeout of None \<Rightarrow> Some (-1) | Some tv \<Rightarrow> wait_msec tv);
        if y_errno y = EINPROGRESS then
          (case sys_call (CPoll (rc_fd c) msec) y of
             (res, y) \<Rightarrow>
               if res = -1 then fail_errno c (Some ''poll(2)'') y
               else if res = 0 then fail_errno c None (y\<lparr>y_errno := ETIMEDOUT\<rparr>)
               else do {
                 (st, c, y) \<leftarrow> redisCheckSocketError c y;
                 Some (if st \<noteq> REDIS_OK then REDIS_ERR else REDIS_OK, c, y)
               })
        else fail_errno c None y
      })"

definition redisContextSetTimeout :: "redisContext \<Rightarrow> timeval \<Rightarrow> sys \<Rightarrow> ctx_result" where
  "redisContextSetTimeout c tv y =
     (case sys_call (CSetsockopt (rc_fd c) SOL_SOCKET SO_RCVTIMEO [tv_sec tv, tv_usec tv]) y of
        (v, y) \<Rightarrow>
          if v = -1 then do {
            c \<leftarrow> redisSetErrorFromErrno c REDIS_ERR_IO (Some ''setsockopt(SO_RCVTIMEO)'') y;
            Some (REDIS_ERR, c, y)
          }
          else case sys_call (CSetsockopt (rc_fd c) SOL_SOCKET SO_SNDTIMEO [tv_sec tv, tv_usec tv]) y of
                 (v, y) \<Rightarrow>
                   if v = -1 then do {
                     c \<leftarrow> redisSetErrorFromErrno c REDIS_ERR_IO (Some ''setsockopt(SO_SNDTIMEO)'') y;
                     Some (REDIS_ERR, c, y)
                   }
                   else Some (REDIS_OK, c, y))"

section \<open>Connecting\<close>

definition getaddrinfo :: "string option \<Rightarrow> string option \<Rightarrow> int \<Rightarrow> sys \<Rightarrow> (int + addrinfo list) \<times> sys" where
  "getaddrinfo host service family y =
     (let k = CResolve host service family
      in (os_resolve (y_os y) (y_calls y) k, y\<lparr>y_calls := k # y_calls y\<rparr>))"

definition freeaddrinfo :: "sys \<Rightarrow> sys" where
  "freeaddrinfo y = y\<lparr>y_calls := CFreeaddrinfo # y_calls y\<rparr>"

definition ParseStorageAddress :: "string \<Rightarrow> int \<Rightarrow> sys \<Rightarrow> (addrinfo option \<times> sys) option" where
  \<comment> \<open>the first address found, \<open>None\<close> for \<open>FALSE\<close>; the port is printed as an \<open>unsigned short\<close>\<close>
  "ParseStorageAddress ip port y =
     (case getaddrinfo (Some ip) (Some (dec_nat (nat (port mod 2 ^ 16)))) AF_UNSPEC y of
        (Inl _, y) \<Rightarrow> Some (None, y)
      | (Inr [], y) \<Rightarrow> None
      | (Inr (a # _), y) \<Rightarrow> Some (Some a, freeaddrinfo y))"

definition redisContextPreConnectTcp ::
  "redisContext \<Rightarrow> string \<Rightarrow> int \<Rightarrow> sys \<Rightarrow> (int \<times> addrinfo option \<times> redisContext \<times> sys) option" where
  \<comment> \<open>with the address stored to \<open>*ss\<close>, if any\<close>
  "redisContextPreConnectTcp c addr port y = do {
     let blocking = has_flag c REDIS_BLOCK;
     (ss, y) \<leftarrow> ParseStorageAddress addr port y;
     (case ss of
        None \<Rightarrow> Some (REDIS_ERR, None, c, y)
      | Some a \<Rightarrow> do {
          (st, c, y) \<leftarrow> redisCreateSocket c (ai_family a) y;
          if st \<noteq> REDIS_OK then Some (REDIS_ERR, ss, c, y)
          else do {
            (st, c, y) \<leftarrow> redisSetTcpNoDelay c y;
            if st \<noteq> REDIS_OK then Some (REDIS_ERR, ss, c, y)
            else if \<not> blocking then do {
              (st, c, y) \<leftarrow> redisSetBlocking c False y;
              Some (if st \<noteq> REDIS_OK then REDIS_ERR else REDIS_OK, ss, c, y)
            }
            else Some (REDIS_OK, ss, c, y)
          }
        })
   }"

fun bind_first :: "int \<Rightarrow> addrinfo list \<Rightarrow> sys \<Rightarrow> bool \<times> sys" where
  \<comment> \<open>the loop over \<open>bservinfo\<close>: whether one address could be bound\<close>
  "bind_first s [] y = (False, y)"
| "bind_first s (b # bs) y =
     (case sys_call (CBind s (ai_addr b) (ai_addrlen b)) y of
        (v, y) \<Rightarrow> if v \<noteq> -1 then (True, y) else bind_first s bs y)"

definition bind_source :: "redisContext \<Rightarrow> int \<Rightarrow> int \<Rightarrow> string option \<Rightarrow> sys \<Rightarrow> ctx_result" where
  \<comment> \<open>the block \<open>if (source_addr)\<close>; \<open>REDIS_ERR\<close> for the jump to \<open>error\<close>\<close>
  "bind_source c s family source_addr y =
     (case source_addr of
        None \<Rightarrow> Some (REDIS_OK, c, y)
      | Some _ \<Rightarrow>
          (case getaddrinfo source_addr None family y of
             (Inl rv, y) \<Rightarrow>
               fail_other c (''Can'' @ [SQUOTE] @ ''t get addr: '' @ os_gai_strerror (y_os y) rv) y
           | (Inr bservinfo, y) \<Rightarrow>
               (case bind_first s bservinfo y of
                  (bound, y) \<Rightarrow>
                    let y = freeaddrinfo y in
                    if \<not> bound then
                      fail_other c (''Can'' @ [SQUOTE] @ ''t bind socket: '' @ os_strerror (y_os y) (y_errno y)) y else Some (REDIS_OK, c, y))))"

definition finish_connect :: "redisContext \<Rightarrow> bool \<Rightarrow> sys \<Rightarrow> ctx_result" where
  \<comment> \<open>after a successful \<open>connect\<close>\<close>
  "finish_connect c blocking y = do {
     (st, c, y) \<leftarrow> (if blocking then redisSetBlocking c True y else Some (REDIS_OK, c, y));
     if st \<noteq> REDIS_OK then Some (REDIS_ERR, c, y)
     else do {
       (st, c, y) \<leftarrow> redisSetTcpNoDelay c y;
       if st \<noteq> REDIS_OK then Some (REDIS_ERR, c, y)
       else Some (REDIS_OK, set_flag c REDIS_CONNECTED, y)
     }
   }"

fun connect_loop ::
  "bool \<Rightarrow> timeval option \<Rightarrow> string option \<Rightarrow> int \<Rightarrow> addrinfo list \<Rightarrow> redisContext \<Rightarrow> sys \<Rightarrow> ctx_result" where
  \<comment> \<open>the loop over \<open>servinfo\<close> and the case in which it ran out of addresses\<close>
  "connect_loop blocking timeout source_addr family [] c y =
     fail_other c (''Can'' @ [SQUOTE] @ ''t create socket: '' @ os_strerror (y_os y) (y_errno y)) y"
| "connect_loop blocking timeout source_addr family (p # ps) c y =
     (case sys_call (CSocket (ai_family p) (ai_socktype p) (ai_protocol p)) y of
        (s, y) \<Rightarrow>
          if s = -1 then connect_loop blocking timeout source_addr family ps c y
          else do {
            (st, c, y) \<leftarrow> redisSetBlocking (c\<lparr>rc_fd := s\<rparr>) False y;
            if st \<noteq> REDIS_OK then Some (REDIS_ERR, c, y)
            else do {
              (st, c, y) \<leftarrow> bind_source c s family source_addr y;
              if st \<noteq> REDIS_OK then Some (REDIS_ERR, c, y)
              else (case sys_call (CConnect s (ai_addr p) (ai_addrlen p)) y of
                  (v, y) \<Rightarrow>
                    if v = -1 \<and> y_errno y = EHOSTUNREACH then
                      (case redisContextCloseFd c y of
                         (c, y) \<Rightarrow> connect_loop blocking timeout source_addr family ps c y)
                    else do {
                      (st, c, y) \<leftarrow>
                        (if v = -1 \<and> \<not> (y_errno y = EINPROGRESS \<and> \<not> blocking)
                         then redisContextWaitReady c timeout y else Some (REDIS_OK, c, y));
                      if st \<noteq> REDIS_OK then Some (REDIS_ERR, c, y)
                      else finish_connect c blocking y
                    })
            }
          })"

definition resolve_tcp :: "string \<Rightarrow> string \<Rightarrow> sys \<Rightarrow> (int + addrinfo list) \<times> int \<times> sys" where
  \<comment> \<open>IPv4 first, then IPv6; the family is the one left in \<open>hints\<close>\<close>
  "resolve_tcp host port y =
     (case getaddrinfo (Some host) (Some port) AF_INET y of
        (Inr l, y) \<Rightarrow> (Inr l, AF_INET, y)
      | (Inl _, y) \<Rightarrow>
          (case getaddrinfo (Some host) (Some port) AF_INET6 y of (res, y) \<Rightarrow> (res, AF_INET6, y)))"

definition connect_tcp ::
  "redisContext \<Rightarrow> string \<Rightarrow> int \<Rightarrow> timeval option \<Rightarrow> string option \<Rightarrow> sys \<Rightarrow> ctx_result" where
  \<comment> \<open>\<open>_redisContextConnectTcp\<close>; the port must fit into a buffer of 6 bytes\<close>
  "connect_tcp c addr port timeout source_addr y = do {
     let blocking = has_flag c REDIS_BLOCK;
     port \<leftarrow> c_snprintf 6 (dec_int port);
     let (res, family, y) = resolve_tcp addr port y;
     (case res of
        Inl rv \<Rightarrow> do {
          c \<leftarrow> redisSetError c REDIS_ERR_OTHER (Some (os_gai_strerror (y_os y) rv)) y;
          Some (REDIS_ERR, c, y)
        }
      | Inr servinfo \<Rightarrow> do {
          (st, c, y) \<leftarrow> connect_loop blocking timeout source_addr family servinfo c y;
          Some (st, c, freeaddrinfo y)
        })
   }"

definition redisContextConnectTcp :: "redisContext \<Rightarrow> string \<Rightarrow> int \<Rightarrow> timeval option \<Rightarrow> sys \<Rightarrow> ctx_result" where
  "redisContextConnectTcp c addr port timeout y = connect_tcp c addr port timeout None y"

definition redisContextConnectBindTcp ::
  "redisContext \<Rightarrow> string \<Rightarrow> int \<Rightarrow> timeval option \<Rightarrow> string option \<Rightarrow> sys \<Rightarrow> ctx_result" where
  "redisContextConnectBindTcp c addr port timeout source_addr y = connect_tcp c addr port timeout source_addr y"

definition redisContextConnectUnix :: "redisContext \<Rightarrow> string \<Rightarrow> timeval option \<Rightarrow> sys \<Rightarrow> ctx_result" where
  \<comment> \<open>an \<open>sds\<close> that could not be made is the NULL of \<open>__redisSetError\<close>\<close>
  "redisContextConnectUnix c path timeout y = do {
     (s, al) \<leftarrow> sdsempty (y_al y);
     (s, al) \<leftarrow> sdscatprintf s (''Unix sockets are not suported on Windows platform. (%s)'' @ [LF])
       (''Unix sockets are not suported on Windows platform. ('' @ path @ '')'' @ [LF]) al;
     let y = y\<lparr>y_al := al\<rparr>;
     c \<leftarrow> redisSetError c REDIS_ERR_IO (map_option sds_buf s) y;
     Some (REDIS_ERR, c, y)
   }"

section \<open>Making a context\<close>

definition with_context ::
  "(redisContext \<Rightarrow> sys \<Rightarrow> ctx_result) \<Rightarrow> sys \<Rightarrow> (redisContext option \<times> sys) option" where
  \<comment> \<open>\<open>c = redisContextInit(); if (c == NULL) return NULL; ...; return c\<close>\<close>
  "with_context f y = do {
     (c, y) \<leftarrow> redisContextInit y;
     (case c of
        None \<Rightarrow> Some (None, y)
      | Some c \<Rightarrow> do { (_, c, y) \<leftarrow> f c y; Some (Some c, y) })
   }"

definition redisConnect :: "string \<Rightarrow> int \<Rightarrow> sys \<Rightarrow> (redisContext option \<times> sys) option" where
  "redisConnect ip port = with_context (\<lambda>c. redisContextConnectTcp (set_flag c REDIS_BLOCK) ip port None)"

definition redisConnectWithTimeout :: "string \<Rightarrow> int \<Rightarrow> timeval \<Rightarrow> sys \<Rightarrow> (redisContext option \<times> sys) option" where
  "redisConnectWithTimeout ip port tv =
     with_context (\<lambda>c. redisContextConnectTcp (set_flag c REDIS_BLOCK) ip port (Some tv))"

definition redisConnectNonBlock :: "string \<Rightarrow> int \<Rightarrow> sys \<Rightarrow> (redisContext option \<times> sys) option" where
  "redisConnectNonBlock ip port =
     with_context (\<lambda>c. redisContextConnectTcp (clear_flag c REDIS_BLOCK) ip port None)"

definition redisConnectBindNonBlock :: "string \<Rightarrow> int \<Rightarrow> string option \<Rightarrow> sys \<Rightarrow> (redisContext \<times> sys) option" where
  \<comment> \<open>a context that could not be allocated is used all the same\<close>
  "redisConnectBindNonBlock ip port source_addr y = do {
     (c, y) \<leftarrow> redisContextInit y;
     c \<leftarrow> c;
     (_, c, y) \<leftarrow> redisContextConnectBindTcp (clear_flag c REDIS_BLOCK) ip port None source_addr y;
     Some (c, y)
   }"

definition redisConnectUnix :: "string \<Rightarrow> sys \<Rightarrow> (redisContext option \<times> sys) option" where
  "redisConnectUnix path = with_context (\<lambda>c. redisContextConnectUnix (set_flag c REDIS_BLOCK) path None)"

definition redisConnectUnixWithTimeout :: "string \<Rightarrow> timeval \<Rightarrow> sys \<Rightarrow> (redisContext option \<times> sys) option" where
  "redisConnectUnixWithTimeout path tv =
     with_context (\<lambda>c. redisContextConnectUnix (set_flag c REDIS_BLOCK) path (Some tv))"

definition redisConnectUnixNonBlock :: "string \<Rightarrow> sys \<Rightarrow> (redisContext option \<times> sys) option" where
  "redisConnectUnixNonBlock path = with_context (\<lambda>c. redisContextConnectUnix (clear_flag c REDIS_BLOCK) path None)"

definition redisConnectFd :: "int \<Rightarrow> sys \<Rightarrow> (redisContext option \<times> sys) option" where
  "redisConnectFd fd =
     with_context (\<lambda>c y. Some (REDIS_OK, set_flag (c\<lparr>rc_fd := fd\<rparr>) (REDIS_BLOCK OR REDIS_CONNECTED), y))"

definition redisPreConnectNonBlock :: "string \<Rightarrow> int \<Rightarrow> sys \<Rightarrow> (addrinfo option \<times> redisContext \<times> sys) option" where
  \<comment> \<open>a context that could not be allocated is used all the same\<close>
  "redisPreConnectNonBlock ip port y = do {
     (c, y) \<leftarrow> redisContextInit y;
     c \<leftarrow> c;
     (_, ss, c, y) \<leftarrow> redisContextPreConnectTcp (clear_flag (c\<lparr>rc_fd := -1\<rparr>) REDIS_BLOCK) ip port y;
     Some (ss, c, y)
   }"

definition redisSetTimeout :: "redisContext \<Rightarrow> timeval \<Rightarrow> sys \<Rightarrow> ctx_result" where
  "redisSetTimeout c tv y =
     (if has_flag c REDIS_BLOCK then redisContextSetTimeout c tv y else Some (REDIS_ERR, c, y))"

definition redisEnableKeepAlive :: "redisContext \<Rightarrow> sys \<Rightarrow> ctx_result" where
  "redisEnableKeepAlive c y = do {
     (st, c, y) \<leftarrow> redisKeepAlive c REDIS_KEEPALIVE_INTERVAL y;
     Some (if st \<noteq> REDIS_OK then REDIS_ERR else REDIS_OK, c, y)
   }"

end
