(* ===== verification/Async.thy ===== *)
theory Async
  imports Callbacks Net
begin

text \<open>
  The asynchronous client context of \<open>async.c\<close>, as it is compiled for Windows: callbacks for replies,
  for subscriptions and for commands sent while subscribed, the functions the event loop calls, and
  the functions users and their callbacks call.

  What a callback does is a program \<open>prog\<close>: calls of the functions of this file, each next one
  chosen from the status of the one before. Which program a callback is, is a parameter of the
  world, from the function, the reply, the data, the memory and everything that has happened so far.
  The functions for the connection's start and end take a \<open>const\<close> context and only leave an event,
  as do the hooks of the event library. A context that has been freed is \<open>None\<close>.
\<close>

section \<open>State\<close>

datatype hook = AddRead | ForceAddRead | DelRead | AddWrite | DelWrite | Cleanup

datatype event =
    EvReply nat "(obj \<times> mem) option" nat    \<comment> \<open>a callback, its reply with the memory it sees, and its data\<close>
  | EvConnect nat int
  | EvDisconnect nat int
  | EvHook hook

datatype api =
    ACommand "nat option" nat string "va list"
  | ACommandArgv "nat option" nat int "char list list" "nat list option"
  | ADisconnect
  | AFree
  | AOnConnect "nat option"
  | AOnDisconnect "nat option"

datatype prog = Return | Call api "int \<Rightarrow> prog"

record world =
  w_sys :: sys
  w_cm :: cbmem
  w_log :: "event list"
  w_user :: "nat \<Rightarrow> obj option \<Rightarrow> nat \<Rightarrow> mem \<Rightarrow> event list \<Rightarrow> prog"
  w_connect :: "int \<Rightarrow> addrinfo option \<Rightarrow> string option \<Rightarrow> sys \<Rightarrow> int \<times> sys"
    \<comment> \<open>\<open>WSIOCP_SocketConnect\<close> and, with a source address, \<open>WSIOCP_SocketConnectBind\<close>\<close>

record redisAsyncContext =
  ac_c :: redisContext
  ac_err :: int
  ac_errstr :: bool     \<comment> \<open>NULL or the address of \<open>c.errstr\<close>\<close>
  ac_data :: "nat option"
  ac_ev :: "hook \<Rightarrow> bool"    \<comment> \<open>the hooks that are not NULL\<close>
  ac_onDisconnect :: "nat option"
  ac_onConnect :: "nat option"
  ac_replies :: redisCallbackList
  ac_invalid :: redisCallbackList
  ac_channels :: "(string, redisCallback, cbmem) dict"
  ac_patterns :: "(string, redisCallback, cbmem) dict"

type_synonym ac_result = "(int \<times> redisAsyncContext \<times> world) option"
type_synonym ac_rest = "(redisAsyncContext option \<times> world) option"

definition log :: "event \<Rightarrow> world \<Rightarrow> world" where
  "log e w = w\<lparr>w_log := w_log w @ [e]\<rparr>"

definition set_al :: "allocs \<Rightarrow> world \<Rightarrow> world" where
  "set_al al w = w\<lparr>w_sys := (w_sys w)\<lparr>y_al := al\<rparr>\<rparr>"

definition flag_on :: "32 word \<Rightarrow> redisAsyncContext \<Rightarrow> redisAsyncContext" where
  "flag_on fl ac = ac\<lparr>ac_c := set_flag (ac_c ac) fl\<rparr>"

definition flag_off :: "32 word \<Rightarrow> redisAsyncContext \<Rightarrow> redisAsyncContext" where
  "flag_off fl ac = ac\<lparr>ac_c := clear_flag (ac_c ac) fl\<rparr>"

definition flagged :: "redisAsyncContext \<Rightarrow> 32 word \<Rightarrow> bool" where
  "flagged ac fl = has_flag (ac_c ac) fl"

definition el :: "hook \<Rightarrow> redisAsyncContext \<Rightarrow> world \<Rightarrow> world" where
  \<comment> \<open>the macros \<open>_EL_ADD_READ\<close> and so on\<close>
  "el h ac w = (if ac_ev ac h then log (EvHook h) w else w)"

definition redisAsyncInitialize :: "redisContext \<Rightarrow> world \<Rightarrow> ac_rest" where
  "redisAsyncInitialize c w =
     (case alloc_next (y_al (w_sys w)) of
        (None, al) \<Rightarrow> Some (None, set_al al w)
      | (Some _, al) \<Rightarrow> do {
          (channels, al) \<leftarrow> dictCreate callbackDict 0 al;
          (patterns, al) \<leftarrow> dictCreate callbackDict 0 al;
          Some (Some \<lparr>ac_c = clear_flag c REDIS_CONNECTED, ac_err = 0, ac_errstr = False, ac_data = None,
                  ac_ev = (\<lambda>_. False), ac_onDisconnect = None, ac_onConnect = None, ac_replies = empty_list,
                  ac_invalid = empty_list, ac_channels = channels, ac_patterns = patterns\<rparr>, set_al al w)
        })"

definition redisAsyncCopyError :: "redisAsyncContext \<Rightarrow> redisAsyncContext" where
  "redisAsyncCopyError ac = ac\<lparr>ac_err := rc_err (ac_c ac), ac_errstr := True\<rparr>"

definition async_connect_with ::
  "string option \<Rightarrow> string \<Rightarrow> int \<Rightarrow> world \<Rightarrow> (redisAsyncContext \<times> world) option" where
  \<comment> \<open>the body that the two functions below share; no result is tested against NULL\<close>
  "async_connect_with source_addr ip port w = do {
     (ss, c, y) \<leftarrow> redisPreConnectNonBlock ip port (w_sys w);
     (ac, w) \<leftarrow> redisAsyncInitialize c (w\<lparr>w_sys := y\<rparr>);
     ac \<leftarrow> ac;
     (case w_connect w (rc_fd (ac_c ac)) ss source_addr (w_sys w) of
        (v, y) \<Rightarrow>
          let w = w\<lparr>w_sys := y\<rparr>;
              ac = (if v \<noteq> 0 then ac\<lparr>ac_c := (ac_c ac)\<lparr>rc_err := y_errno y, rc_errstr := strerror_r 128 y\<rparr>\<rparr> else ac)
          in Some (redisAsyncCopyError ac, w))
   }"

definition redisAsyncConnect :: "string \<Rightarrow> int \<Rightarrow> world \<Rightarrow> (redisAsyncContext \<times> world) option" where
  "redisAsyncConnect ip port w = async_connect_with None ip port w"

definition redisAsyncConnectBind ::
  "string \<Rightarrow> int \<Rightarrow> string \<Rightarrow> world \<Rightarrow> (redisAsyncContext \<times> world) option" where
  "redisAsyncConnectBind ip port source_addr w = async_connect_with (Some source_addr) ip port w"

definition redisAsyncConnectUnix :: "string \<Rightarrow> world \<Rightarrow> ac_rest" where
  "redisAsyncConnectUnix path w = do {
     (c, y) \<leftarrow> redisConnectUnixNonBlock path (w_sys w);
     let w = w\<lparr>w_sys := y\<rparr>;
     (case c of
        None \<Rightarrow> Some (None, w)
      | Some c \<Rightarrow> do {
          (ac, w) \<leftarrow> redisAsyncInitialize c w;
          (case ac of
             None \<Rightarrow> do { y \<leftarrow> redisFree c (w_sys w); Some (None, w\<lparr>w_sys := y\<rparr>) }
           | Some ac \<Rightarrow> Some (Some (redisAsyncCopyError ac), w))
        })
   }"

definition redisAsyncSetConnectCallback :: "redisAsyncContext \<Rightarrow> nat option \<Rightarrow> world \<Rightarrow> int \<times> redisAsyncContext \<times> world" where
  "redisAsyncSetConnectCallback ac fn w =
     (if ac_onConnect ac = None then (REDIS_OK, ac\<lparr>ac_onConnect := fn\<rparr>, el AddWrite ac w) else (REDIS_ERR, ac, w))"

definition redisAsyncSetDisconnectCallback :: "redisAsyncContext \<Rightarrow> nat option \<Rightarrow> int \<times> redisAsyncContext" where
  "redisAsyncSetDisconnectCallback ac fn =
     (if ac_onDisconnect ac = None then (REDIS_OK, ac\<lparr>ac_onDisconnect := fn\<rparr>) else (REDIS_ERR, ac))"

section \<open>The arguments of a formatted command\<close>

definition strchr_at :: "char list \<Rightarrow> nat \<Rightarrow> char \<Rightarrow> nat option option" where
  \<comment> \<open>\<open>strchr(m+i,c)\<close> in a block: a fault, NULL or the position\<close>
  "strchr_at m i c =
     (let k = i + length (takeWhile (\<lambda>x. x \<noteq> c \<and> x \<noteq> NUL) (drop i m))
      in if k < length m then Some (if m ! k = c then Some k else None) else None)"

definition c_strtol :: "char list \<Rightarrow> int option" where
  \<comment> \<open>\<open>strtol(m,NULL,10)\<close> with a \<open>long\<close> of 32 bits\<close>
  "c_strtol m =
     (let m = dropWhile isspace_c m;
          neg = (m \<noteq> [] \<and> hd m = CHR ''-'');
          m = (if m \<noteq> [] \<and> (hd m = CHR ''-'' \<or> hd m = CHR ''+'') then tl m else m);
          ds = takeWhile isdigit_c m;
          v = foldl (\<lambda>v d. v * 10 + int (code d - 48)) 0 ds
      in if length ds < length m then Some (max (- (2 ^ 31)) (min (2 ^ 31 - 1) (if neg then - v else v))) else None)"

definition nextArgument :: "char list \<Rightarrow> nat \<Rightarrow> (nat \<times> nat \<times> nat) option option" where
  \<comment> \<open>\<open>*str\<close>, \<open>*len\<close> and the pointer returned, as offsets into the command\<close>
  "nextArgument m start = do {
     c \<leftarrow> rd m start;
     p \<leftarrow> (if c \<noteq> CHR ''$'' then strchr_at m start (CHR ''$'') else Some (Some start));
     (case p of
        None \<Rightarrow> Some None
      | Some p \<Rightarrow> do {
          v \<leftarrow> c_strtol (drop (p + 1) m);
          let len = nat (v mod 2 ^ 64);
          cr \<leftarrow> strchr_at m p CR;
          p \<leftarrow> cr;
          Some (Some (p + 2, len, u64 (p + 2 + len + 2)))
        })
   }"

fun strnicmp_eq :: "char list \<Rightarrow> string \<Rightarrow> nat \<Rightarrow> bool option" where
  \<comment> \<open>\<open>strncasecmp(m,s,n) == 0\<close>\<close>
  "strnicmp_eq m s 0 = Some True"
| "strnicmp_eq [] s (Suc n) = None"
| "strnicmp_eq (c # m) [] (Suc n) = Some (c = NUL)"
| "strnicmp_eq (c # m) (d # s) (Suc n) =
     (if tolower_c c \<noteq> tolower_c d then Some False else if c = NUL then Some True else strnicmp_eq m s n)"

definition stricmp_eq :: "char list \<Rightarrow> string \<Rightarrow> bool option" where
  \<comment> \<open>\<open>strcasecmp(m,s) == 0\<close>, for an \<open>s\<close> without NUL\<close>
  "stricmp_eq m s = strnicmp_eq m s (length s + 1)"

definition is_p :: "char \<Rightarrow> bool" where
  \<comment> \<open>\<open>(tolower(c) == 'p') ? 1 : 0\<close>\<close>
  "is_p c \<longleftrightarrow> tolower_c c = CHR ''p''"

section \<open>Issuing commands\<close>

definition push_reply :: "redisCallback \<Rightarrow> redisAsyncContext \<Rightarrow> world \<Rightarrow> (redisAsyncContext \<times> world) option" where
  \<comment> \<open>\<open>__redisPushCallback(&ac->replies,&cb)\<close>, its status ignored\<close>
  "push_reply cb ac w = do {
     (_, q, al) \<leftarrow> redisPushCallback (ac_replies ac) cb (y_al (w_sys w));
     Some (ac\<lparr>ac_replies := q\<rparr>, set_al al w)
   }"

definition push_invalid :: "redisCallback \<Rightarrow> redisAsyncContext \<Rightarrow> world \<Rightarrow> (redisAsyncContext \<times> world) option" where
  "push_invalid cb ac w = do {
     (_, q, al) \<leftarrow> redisPushCallback (ac_invalid ac) cb (y_al (w_sys w));
     Some (ac\<lparr>ac_invalid := q\<rparr>, set_al al w)
   }"

definition add_channel ::
  "bool \<Rightarrow> redisCallback \<Rightarrow> char list \<Rightarrow> nat \<Rightarrow> nat \<Rightarrow> redisAsyncContext \<Rightarrow> world \<Rightarrow> (redisAsyncContext \<times> world) option" where
  \<comment> \<open>one round of the loop; a name that could not be made is hashed all the same\<close>
  "add_channel pvariant cb cmd astr alen ac w = do {
     (sname, al) \<leftarrow> sdsnewlen (Some (drop astr cmd)) alen (y_al (w_sys w));
     sname \<leftarrow> sname;
     let cm = (w_cm w)\<lparr>cm_keys := add_mset (sds_str sname) (cm_keys (w_cm w))\<rparr>;
     if pvariant then do {
       (_, d, cm, al) \<leftarrow> dictReplace (ac_patterns ac) (sds_str sname) cb cm al;
       Some (ac\<lparr>ac_patterns := d\<rparr>, (set_al al w)\<lparr>w_cm := cm\<rparr>)
     } else do {
       (_, d, cm, al) \<leftarrow> dictReplace (ac_channels ac) (sds_str sname) cb cm al;
       Some (ac\<lparr>ac_channels := d\<rparr>, (set_al al w)\<lparr>w_cm := cm\<rparr>)
     }
   }"

partial_function (option) add_channels ::
  "bool \<Rightarrow> redisCallback \<Rightarrow> char list \<Rightarrow> nat \<Rightarrow> redisAsyncContext \<Rightarrow> world \<Rightarrow> (redisAsyncContext \<times> world) option" where
  \<comment> \<open>\<open>while ((p = nextArgument(p,&astr,&alen)) != NULL)\<close>\<close>
  "add_channels pvariant cb cmd p ac w =
     (case nextArgument cmd p of
        None \<Rightarrow> None
      | Some None \<Rightarrow> Some (ac, w)
      | Some (Some (astr, alen, p)) \<Rightarrow>
          (case add_channel pvariant cb cmd astr alen ac w of
             None \<Rightarrow> None
           | Some (ac, w) \<Rightarrow> add_channels pvariant cb cmd p ac w))"

definition send_command :: "char list \<Rightarrow> nat \<Rightarrow> redisAsyncContext \<Rightarrow> world \<Rightarrow> ac_result" where
  \<comment> \<open>the end of \<open>__redisAsyncCommand\<close>; the status of the append is ignored\<close>
  "send_command cmd len ac w = do {
     (_, c, y) \<leftarrow> redisAppend (ac_c ac) cmd len (w_sys w);
     let ac = ac\<lparr>ac_c := c\<rparr>;
     Some (REDIS_OK, ac, el AddWrite ac (w\<lparr>w_sys := y\<rparr>))
   }"

definition async_command ::
  "nat option \<Rightarrow> nat \<Rightarrow> char list \<Rightarrow> nat \<Rightarrow> redisAsyncContext \<Rightarrow> world \<Rightarrow> ac_result" where
  \<comment> \<open>\<open>__redisAsyncCommand\<close>; \<open>cb.next\<close> is indeterminate and never used\<close>
  "async_command fn privdata cmd len ac w =
     (if flagged ac (REDIS_DISCONNECTING OR REDIS_FREEING) then Some (REDIS_ERR, ac, w)
      else do {
        let cb = \<lparr>cb_next = None, cb_fn = fn, cb_privdata = privdata\<rparr>;
        arg \<leftarrow> nextArgument cmd 0;
        (cstr, clen, p) \<leftarrow> arg;
        c0 \<leftarrow> rd cmd p;
        c1 \<leftarrow> rd cmd cstr;
        let cstr = (if is_p c1 then cstr + 1 else cstr);
        sub \<leftarrow> (if c0 = CHR ''$'' then strnicmp_eq (drop cstr cmd) (''subscribe'' @ CRLF) 11 else Some False);
        if sub then do {
          (ac, w) \<leftarrow> add_channels (is_p c1) cb cmd p (flag_on REDIS_SUBSCRIBED ac) w;
          send_command cmd len ac w
        } else do {
          unsub \<leftarrow> strnicmp_eq (drop cstr cmd) (''unsubscribe'' @ CRLF) 13;
          if unsub then
            (if \<not> flagged ac REDIS_SUBSCRIBED then Some (REDIS_ERR, ac, w) else send_command cmd len ac w)
          else do {
            mon \<leftarrow> strnicmp_eq (drop cstr cmd) (''monitor'' @ CRLF) 9;
            (ac, w) \<leftarrow>
              (if mon then push_reply cb (flag_on REDIS_MONITORING ac) w
               else if flagged ac REDIS_SUBSCRIBED then push_invalid cb ac w
               else push_reply cb ac w);
            send_command cmd len ac w
          }
        }
      })"

definition redisvAsyncCommand ::
  "redisAsyncContext \<Rightarrow> nat option \<Rightarrow> nat \<Rightarrow> string \<Rightarrow> va list \<Rightarrow> world \<Rightarrow> ac_result" where
  \<comment> \<open>the length is not tested: a command that was not made is a pointer never set\<close>
  "redisvAsyncCommand ac fn privdata format ap w = do {
     (len, cmd, al) \<leftarrow> redisvFormatCommand format ap (y_al (w_sys w));
     cmd \<leftarrow> cmd;
     async_command fn privdata cmd (nat (len mod 2 ^ 64)) ac (set_al al w)
   }"

definition redisAsyncCommand ::
  "redisAsyncContext \<Rightarrow> nat option \<Rightarrow> nat \<Rightarrow> string \<Rightarrow> va list \<Rightarrow> world \<Rightarrow> ac_result" where
  "redisAsyncCommand ac fn privdata format args w = redisvAsyncCommand ac fn privdata format args w"

definition redisAsyncCommandArgv ::
  "redisAsyncContext \<Rightarrow> nat option \<Rightarrow> nat \<Rightarrow> int \<Rightarrow> char list list \<Rightarrow> nat list option \<Rightarrow> world \<Rightarrow> ac_result" where
  "redisAsyncCommandArgv ac fn privdata argc argv argvlen w = do {
     (len, cmd, al) \<leftarrow> redisFormatCommandArgv argc argv argvlen (y_al (w_sys w));
     cmd \<leftarrow> cmd;
     async_command fn privdata cmd (nat (len mod 2 ^ 64)) ac (set_al al w)
   }"

section \<open>Running callbacks\<close>

fun act :: "api \<Rightarrow> redisAsyncContext \<Rightarrow> world \<Rightarrow> ac_result" where
  \<comment> \<open>a call from a callback: \<open>redisAsyncFree\<close> and \<open>redisAsyncDisconnect\<close> see \<open>REDIS_IN_CALLBACK\<close> and
     only set their flag\<close>
  "act (ACommand fn pd format args) ac w = redisAsyncCommand ac fn pd format args w"
| "act (ACommandArgv fn pd argc argv lens) ac w = redisAsyncCommandArgv ac fn pd argc argv lens w"
| "act ADisconnect ac w = do { require (flagged ac REDIS_IN_CALLBACK); Some (0, flag_on REDIS_DISCONNECTING ac, w) }"
| "act AFree ac w = do { require (flagged ac REDIS_IN_CALLBACK); Some (0, flag_on REDIS_FREEING ac, w) }"
| "act (AOnConnect fn) ac w = Some (redisAsyncSetConnectCallback ac fn w)"
| "act (AOnDisconnect fn) ac w = (case redisAsyncSetDisconnectCallback ac fn of (st, ac) \<Rightarrow> Some (st, ac, w))"

primrec run_prog :: "prog \<Rightarrow> redisAsyncContext \<Rightarrow> world \<Rightarrow> (redisAsyncContext \<times> world) option" where
  "run_prog Return ac w = Some (ac, w)"
| "run_prog (Call a k) ac w = (case act a ac w of None \<Rightarrow> None | Some (st, ac, w) \<Rightarrow> run_prog (k st) ac w)"

definition redisRunCallback ::
  "redisAsyncContext \<Rightarrow> redisCallback \<Rightarrow> obj option \<Rightarrow> world \<Rightarrow> (redisAsyncContext \<times> world) option" where
  "redisRunCallback ac cb reply w =
     (case cb_fn cb of
        None \<Rightarrow> Some (ac, w)
      | Some fn \<Rightarrow> do {
          let p = w_user w fn reply (cb_privdata cb) (y_mem (w_sys w)) (w_log w);
          (ac, w) \<leftarrow> run_prog p (flag_on REDIS_IN_CALLBACK ac) (log (EvReply fn (map_option (\<lambda>ob. (ob, y_mem (w_sys w))) reply) (cb_privdata cb)) w);
          Some (flag_off REDIS_IN_CALLBACK ac, w)
        })"

section \<open>Ending a context\<close>

partial_function (option) run_replies :: "redisAsyncContext \<Rightarrow> world \<Rightarrow> (redisAsyncContext \<times> world) option" where
  \<comment> \<open>\<open>while (__redisShiftCallback(&ac->replies,&cb) == REDIS_OK) __redisRunCallback(ac,&cb,NULL);\<close>\<close>
  "run_replies ac w =
     (case redisShiftCallback (ac_replies ac) of
        None \<Rightarrow> None
      | Some (st, None, q) \<Rightarrow> Some (ac\<lparr>ac_replies := q\<rparr>, w)
      | Some (st, Some cb, q) \<Rightarrow>
          (case redisRunCallback (ac\<lparr>ac_replies := q\<rparr>) cb None w of
             None \<Rightarrow> None
           | Some (ac, w) \<Rightarrow> run_replies ac w))"

partial_function (option) run_invalid :: "redisAsyncContext \<Rightarrow> world \<Rightarrow> (redisAsyncContext \<times> world) option" where
  "run_invalid ac w =
     (case redisShiftCallback (ac_invalid ac) of
        None \<Rightarrow> None
      | Some (st, None, q) \<Rightarrow> Some (ac\<lparr>ac_invalid := q\<rparr>, w)
      | Some (st, Some cb, q) \<Rightarrow>
          (case redisRunCallback (ac\<lparr>ac_invalid := q\<rparr>) cb None w of
             None \<Rightarrow> None
           | Some (ac, w) \<Rightarrow> run_invalid ac w))"

definition table_of :: "bool \<Rightarrow> redisAsyncContext \<Rightarrow> (string, redisCallback, cbmem) dict" where
  "table_of pvariant ac = (if pvariant then ac_patterns ac else ac_channels ac)"

partial_function (option) run_table ::
  "bool \<Rightarrow> (string, redisCallback) dictIterator \<Rightarrow> redisAsyncContext \<Rightarrow> world \<Rightarrow> (redisAsyncContext \<times> world) option" where
  \<comment> \<open>\<open>while ((de = dictNext(it)) != NULL) __redisRunCallback(ac,dictGetEntryVal(de),NULL);\<close>\<close>
  "run_table pvariant it ac w =
     (case dictNext (table_of pvariant ac) it of
        None \<Rightarrow> None
      | Some (None, it) \<Rightarrow> Some (ac, w)
      | Some (Some de, it) \<Rightarrow>
          (case redisRunCallback ac (de_val de) None w of
             None \<Rightarrow> None
           | Some (ac, w) \<Rightarrow> run_table pvariant it ac w))"

definition end_table :: "bool \<Rightarrow> redisAsyncContext \<Rightarrow> world \<Rightarrow> (redisAsyncContext \<times> world) option" where
  \<comment> \<open>its callbacks, and the table back\<close>
  "end_table pvariant ac w = do {
     (it, al) \<leftarrow> dictGetIterator (y_al (w_sys w));
     (ac, w) \<leftarrow> run_table pvariant it ac (set_al al w);
     cm \<leftarrow> dictRelease (table_of pvariant ac) (w_cm w);
     Some (ac, w\<lparr>w_cm := cm\<rparr>)
   }"

definition async_free :: "redisAsyncContext \<Rightarrow> world \<Rightarrow> world option" where
  \<comment> \<open>\<open>__redisAsyncFree\<close>\<close>
  "async_free ac w = do {
     (ac, w) \<leftarrow> run_replies ac w;
     (ac, w) \<leftarrow> run_invalid ac w;
     (ac, w) \<leftarrow> end_table False ac w;
     (ac, w) \<leftarrow> end_table True ac w;
     let w = el Cleanup ac w;
     let w = (case ac_onDisconnect ac of
                None \<Rightarrow> w
              | Some fn \<Rightarrow>
                  if flagged ac REDIS_CONNECTED then
                    (if flagged ac REDIS_FREEING then log (EvDisconnect fn REDIS_OK) w
                     else log (EvDisconnect fn (if ac_err ac = 0 then REDIS_OK else REDIS_ERR)) w)
                  else w);
     y \<leftarrow> redisFree (ac_c ac) (w_sys w);
     Some (w\<lparr>w_sys := y\<rparr>)
   }"

definition redisAsyncFree :: "redisAsyncContext \<Rightarrow> world \<Rightarrow> ac_rest" where
  "redisAsyncFree ac w =
     (let ac = flag_on REDIS_FREEING ac in
      if \<not> flagged ac REDIS_IN_CALLBACK then do { w \<leftarrow> async_free ac w; Some (None, w) }
      else Some (Some ac, w))"

definition async_disconnect :: "redisAsyncContext \<Rightarrow> world \<Rightarrow> world option" where
  \<comment> \<open>\<open>__redisAsyncDisconnect\<close>\<close>
  "async_disconnect ac w =
     (let ac = redisAsyncCopyError ac in
      if ac_err ac = 0 then do {
        (st, _, q) \<leftarrow> redisShiftCallback (ac_replies ac);
        require (st = REDIS_ERR);
        async_free (ac\<lparr>ac_replies := q\<rparr>) w
      }
      else async_free (flag_on REDIS_DISCONNECTING ac) w)"

definition redisAsyncDisconnect :: "redisAsyncContext \<Rightarrow> world \<Rightarrow> ac_rest" where
  "redisAsyncDisconnect ac w =
     (let ac = flag_on REDIS_DISCONNECTING ac in
      if \<not> flagged ac REDIS_IN_CALLBACK \<and> cl_head (ac_replies ac) = None
      then do { w \<leftarrow> async_disconnect ac w; Some (None, w) }
      else Some (Some ac, w))"

section \<open>Replies\<close>

definition the_reply :: "obj \<Rightarrow> world \<Rightarrow> redisReply option" where
  "the_reply ob w = (case ob of Obj p \<Rightarrow> m_cells (y_mem (w_sys w)) p | Tag _ \<Rightarrow> None)"

definition element :: "redisReply \<Rightarrow> nat \<Rightarrow> world \<Rightarrow> redisReply option" where
  \<comment> \<open>\<open>*reply->element[i]\<close>\<close>
  "element r i w = do {
     es \<leftarrow> rp_element r;
     require (i < length es);
     p \<leftarrow> es ! i;
     m_cells (y_mem (w_sys w)) p
   }"

definition set_table ::
  "bool \<Rightarrow> (string, redisCallback, cbmem) dict \<Rightarrow> redisAsyncContext \<Rightarrow> redisAsyncContext" where
  "set_table pvariant d ac = (if pvariant then ac\<lparr>ac_patterns := d\<rparr> else ac\<lparr>ac_channels := d\<rparr>)"

definition redisGetSubscribeCallback ::
  "redisAsyncContext \<Rightarrow> obj \<Rightarrow> redisCallback \<Rightarrow> world \<Rightarrow> (redisCallback \<times> redisAsyncContext \<times> world) option" where
  \<comment> \<open>\<open>*dstcb\<close> afterwards; a name that could not be made is only looked at when the table is not empty\<close>
  "redisGetSubscribeCallback ac reply dstcb w = do {
     r \<leftarrow> the_reply reply w;
     if rp_type r = REDIS_REPLY_ARRAY then do {
       require (rp_elements r \<ge> 2);
       e0 \<leftarrow> element r 0 w;
       require (rp_type e0 = REDIS_REPLY_STRING);
       stype \<leftarrow> rp_str e0;
       c \<leftarrow> rd stype 0;
       let pvariant = is_p c;
       e1 \<leftarrow> element r 1 w;
       require (rp_type e1 = REDIS_REPLY_STRING);
       (sname, al) \<leftarrow> sdsnewlen (rp_str e1) (nat (rp_len e1 mod 2 ^ 64)) (y_al (w_sys w));
       let w = set_al al w;
       let d = table_of pvariant ac;
       (case sname of
          None \<Rightarrow> do { require (dt_size d = 0); Some (dstcb, ac, w) }
        | Some sname \<Rightarrow> do {
            let w = w\<lparr>w_cm := (w_cm w)\<lparr>cm_keys := add_mset (sds_str sname) (cm_keys (w_cm w))\<rparr>\<rparr>;
            de \<leftarrow> dictFind d (sds_str sname);
            (dstcb, ac, w) \<leftarrow>
              (case de of
                 [] \<Rightarrow> Some (dstcb, ac, w)
               | e # _ \<Rightarrow> do {
                   unsub \<leftarrow> stricmp_eq (drop (if pvariant then 1 else 0) stype) ''unsubscribe'';
                   if unsub then do {
                     (_, d, cm) \<leftarrow> dictDelete d (sds_str sname) (w_cm w);
                     let ac = set_table pvariant d ac;
                     e2 \<leftarrow> element r 2 w;
                     require (rp_type e2 = REDIS_REPLY_INTEGER);
                     Some (de_val e, (if rp_integer e2 = 0 then flag_off REDIS_SUBSCRIBED ac else ac), w\<lparr>w_cm := cm\<rparr>)
                   } else Some (de_val e, ac, w)
                 });
            cm \<leftarrow> callbackKeyDestructor 0 (sds_str sname) (w_cm w);
            Some (dstcb, ac, w\<lparr>w_cm := cm\<rparr>)
          })
     } else do {
       (_, cb, q) \<leftarrow> redisShiftCallback (ac_invalid ac);
       Some (case cb of None \<Rightarrow> dstcb | Some cb \<Rightarrow> cb, ac\<lparr>ac_invalid := q\<rparr>, w)
     }
   }"

definition free_object :: "redisAsyncContext \<Rightarrow> obj \<Rightarrow> world \<Rightarrow> world option" where
  \<comment> \<open>\<open>c->reader->fn->freeObject(reply)\<close>\<close>
  "free_object ac ob w = do {
     r \<leftarrow> rc_reader (ac_c ac);
     fn \<leftarrow> rr_fn r;
     f \<leftarrow> freeObject fn;
     m \<leftarrow> f ob (y_mem (w_sys w));
     Some (w\<lparr>w_sys := (w_sys w)\<lparr>y_mem := m\<rparr>\<rparr>)
   }"

definition deliver ::
  "obj \<Rightarrow> redisCallback \<Rightarrow> redisAsyncContext \<Rightarrow> world \<Rightarrow> (world + redisAsyncContext \<times> world) option" where
  \<comment> \<open>\<open>if (cb.fn != NULL) ... else ...\<close>; \<open>Inl\<close> when the context was freed\<close>
  "deliver reply cb ac w =
     (if cb_fn cb \<noteq> None then do {
        (ac, w) \<leftarrow> redisRunCallback ac cb (Some reply) w;
        w \<leftarrow> free_object ac reply w;
        if flagged ac REDIS_FREEING then do { w \<leftarrow> async_free ac w; Some (Inl w) } else Some (Inr (ac, w))
      } else do {
        w \<leftarrow> free_object ac reply w;
        Some (Inr (ac, w))
      })"

definition refused :: "obj \<Rightarrow> redisReply \<Rightarrow> redisAsyncContext \<Rightarrow> world \<Rightarrow> world option" where
  \<comment> \<open>an error reply nobody waits for: the text becomes the error of the context\<close>
  "refused reply r ac w = do {
     s \<leftarrow> rp_str r;
     text \<leftarrow> c_snprintf 128 (takeWhile (\<lambda>c. c \<noteq> NUL) s);
     let ac = ac\<lparr>ac_c := (ac_c ac)\<lparr>rc_err := REDIS_ERR_OTHER, rc_errstr := text\<rparr>\<rparr>;
     w \<leftarrow> free_object ac reply w;
     async_disconnect ac w
   }"

definition delivered ::
  "obj \<Rightarrow> (redisCallback \<times> redisAsyncContext \<times> world) option
     \<Rightarrow> (world + redisCallback \<times> redisAsyncContext \<times> world) option" where
  \<comment> \<open>the reply to the callback found\<close>
  "delivered reply found = do {
     (cb, ac, w) \<leftarrow> found;
     out \<leftarrow> deliver reply cb ac w;
     Some (case out of Inl w \<Rightarrow> Inl w | Inr (ac, w) \<Rightarrow> Inr (cb, ac, w))
   }"

definition handle_reply ::
  "obj \<Rightarrow> redisCallback \<Rightarrow> redisAsyncContext \<Rightarrow> world \<Rightarrow> (world + redisCallback \<times> redisAsyncContext \<times> world) option" where
  \<comment> \<open>the loop body for a reply that is not NULL\<close>
  "handle_reply reply cb ac w = do {
     (_, tgt, q) \<leftarrow> redisShiftCallback (ac_replies ac);
     let ac = ac\<lparr>ac_replies := q\<rparr>;
     (case tgt of
        Some cb \<Rightarrow> delivered reply (Some (cb, ac, w))
      | None \<Rightarrow> do {
          r \<leftarrow> the_reply reply w;
          if rp_type r = REDIS_REPLY_ERROR then do { w \<leftarrow> refused reply r ac w; Some (Inl w) }
          else do {
            require (flagged ac REDIS_SUBSCRIBED \<or> flagged ac REDIS_MONITORING);
            delivered reply
              (if flagged ac REDIS_SUBSCRIBED then redisGetSubscribeCallback ac reply cb w else Some (cb, ac, w))
          }
        })
   }"

definition no_reply :: "redisCallback \<Rightarrow> redisAsyncContext \<Rightarrow> world \<Rightarrow> ac_rest" where
  \<comment> \<open>\<open>if (reply == NULL)\<close>\<close>
  "no_reply cb ac w = do {
     drained \<leftarrow> (if flagged ac REDIS_DISCONNECTING then obuf_done (ac_c ac) else Some False);
     if drained then do { w \<leftarrow> async_disconnect ac w; Some (None, w) }
     else do {
       (ac, w) \<leftarrow> (if flagged ac REDIS_MONITORING then push_reply cb ac w else Some (ac, w));
       Some (Some ac, w)
     }
   }"

partial_function (option) process_replies :: "redisCallback \<Rightarrow> redisAsyncContext \<Rightarrow> world \<Rightarrow> ac_rest" where
  \<comment> \<open>\<open>while((status = redisGetReply(c,&reply)) == REDIS_OK)\<close> and what follows\<close>
  "process_replies cb ac w =
     (case redisGetReply (ac_c ac) (w_sys w) of
        None \<Rightarrow> None
      | Some (st, reply, c, y) \<Rightarrow>
          (if st \<noteq> REDIS_OK then
             (case async_disconnect (ac\<lparr>ac_c := c\<rparr>) (w\<lparr>w_sys := y\<rparr>) of None \<Rightarrow> None | Some w \<Rightarrow> Some (None, w))
           else case reply of
             None \<Rightarrow> no_reply cb (ac\<lparr>ac_c := c\<rparr>) (w\<lparr>w_sys := y\<rparr>)
           | Some ob \<Rightarrow>
               (case handle_reply ob cb (ac\<lparr>ac_c := c\<rparr>) (w\<lparr>w_sys := y\<rparr>) of
                  None \<Rightarrow> None
                | Some (Inl w) \<Rightarrow> Some (None, w)
                | Some (Inr (cb, ac, w)) \<Rightarrow> process_replies cb ac w)))"

definition redisProcessCallbacks :: "redisAsyncContext \<Rightarrow> world \<Rightarrow> ac_rest" where
  "redisProcessCallbacks ac w = process_replies \<lparr>cb_next = None, cb_fn = None, cb_privdata = 0\<rparr> ac w"

section \<open>Events of the loop\<close>

definition async_handle_connect :: "redisAsyncContext \<Rightarrow> world \<Rightarrow> (int \<times> redisAsyncContext option \<times> world) option" where
  \<comment> \<open>\<open>__redisAsyncHandleConnect\<close>\<close>
  "async_handle_connect ac w = do {
     (st, c, y) \<leftarrow> redisCheckSocketError (ac_c ac) (w_sys w);
     let ac = ac\<lparr>ac_c := c\<rparr>;
     let w = w\<lparr>w_sys := y\<rparr>;
     if st = REDIS_ERR then
       (if y_errno y = EINPROGRESS then Some (REDIS_OK, Some ac, w)
        else do {
          let w = (case ac_onConnect ac of None \<Rightarrow> w | Some fn \<Rightarrow> log (EvConnect fn REDIS_ERR) w);
          w \<leftarrow> async_disconnect ac w;
          Some (REDIS_ERR, None, w)
        })
     else do {
       let ac = flag_on REDIS_CONNECTED ac;
       let w = (case ac_onConnect ac of None \<Rightarrow> w | Some fn \<Rightarrow> log (EvConnect fn REDIS_OK) w);
       Some (REDIS_OK, Some ac, w)
     }
   }"

definition when_connected ::
  "(redisAsyncContext \<Rightarrow> world \<Rightarrow> ac_rest) \<Rightarrow> redisAsyncContext \<Rightarrow> world \<Rightarrow> (int \<times> redisAsyncContext option \<times> world) option" where
  \<comment> \<open>the test all handlers start with; the status is \<open>REDIS_ERR\<close> when they return there\<close>
  "when_connected f ac w =
     (if flagged ac REDIS_CONNECTED then map_option (\<lambda>(ac, w). (REDIS_OK, ac, w)) (f ac w)
      else do {
        (st, ac, w) \<leftarrow> async_handle_connect ac w;
        (case ac of
           None \<Rightarrow> Some (REDIS_ERR, None, w)
         | Some ac \<Rightarrow>
             if st \<noteq> REDIS_OK \<or> \<not> flagged ac REDIS_CONNECTED then Some (REDIS_ERR, Some ac, w)
             else map_option (\<lambda>(ac, w). (REDIS_OK, ac, w)) (f ac w))
      })"

definition do_read :: "redisAsyncContext \<Rightarrow> world \<Rightarrow> ac_rest" where
  "do_read ac w = do {
     (st, c, y) \<leftarrow> redisBufferRead (ac_c ac) (w_sys w);
     let ac = ac\<lparr>ac_c := c\<rparr>;
     let w = w\<lparr>w_sys := y\<rparr>;
     if st = REDIS_ERR then do { w \<leftarrow> async_disconnect ac w; Some (None, w) }
     else redisProcessCallbacks ac (el ForceAddRead ac w)
   }"

definition redisAsyncHandleRead :: "redisAsyncContext \<Rightarrow> world \<Rightarrow> ac_rest" where
  "redisAsyncHandleRead ac w = map_option snd (when_connected do_read ac w)"

definition after_write :: "bool \<Rightarrow> redisAsyncContext \<Rightarrow> world \<Rightarrow> world" where
  "after_write finished ac w = el AddRead ac (el (if \<not> finished then AddWrite else DelWrite) ac w)"

definition do_write :: "redisAsyncContext \<Rightarrow> world \<Rightarrow> ac_rest" where
  "do_write ac w = do {
     (st, d, c, y) \<leftarrow> redisBufferWrite (ac_c ac) (w_sys w);
     let ac = ac\<lparr>ac_c := c\<rparr>;
     let w = w\<lparr>w_sys := y\<rparr>;
     if st = REDIS_ERR then do { w \<leftarrow> async_disconnect ac w; Some (None, w) }
     else Some (Some ac, after_write (d = Some True) ac w)
   }"

definition redisAsyncHandleWrite :: "redisAsyncContext \<Rightarrow> world \<Rightarrow> ac_rest" where
  "redisAsyncHandleWrite ac w = map_option snd (when_connected do_write ac w)"

definition redisAsyncHandleWritePrep :: "redisAsyncContext \<Rightarrow> world \<Rightarrow> (int \<times> redisAsyncContext option \<times> world) option" where
  "redisAsyncHandleWritePrep ac w = when_connected (\<lambda>ac w. Some (Some ac, w)) ac w"

definition redisAsyncHandleWriteComplete ::
  "redisAsyncContext \<Rightarrow> int \<Rightarrow> world \<Rightarrow> (int \<times> redisAsyncContext option \<times> world) option" where
  "redisAsyncHandleWriteComplete ac nwritten w = do {
     (rc, d, c, y) \<leftarrow> redisBufferWriteDone (ac_c ac) nwritten (w_sys w);
     let ac = ac\<lparr>ac_c := c\<rparr>;
     let w = w\<lparr>w_sys := y\<rparr>;
     if rc = REDIS_ERR then do { w \<leftarrow> async_disconnect ac w; Some (REDIS_OK, None, w) }
     else Some (REDIS_OK, Some ac, after_write d ac w)
   }"

end
