(* ===== verification/ReaderProof.thy ===== *)
theory ReaderProof
  imports Reader "HOL-Library.Multiset"
begin

text \<open>
  The reply parser implements a parser on lists. A state of \<open>redisReader\<close> with its heap stands for
  a stack of open arrays (frames), the type of the item being read and the input not yet consumed;
  each step of the code is a step of that machine. What follows from it: no step faults, replies are
  built as encoded, the way the input is cut into chunks does not matter, nothing leaks.
\<close>


section \<open>Lines\<close>

fun find_crlf :: "string \<Rightarrow> nat option" where
  \<comment> \<open>the first place where CR and LF follow each other\<close>
  "find_crlf (c # d # s) = (if c = CR \<and> d = LF then Some 0 else map_option Suc (find_crlf (d # s)))"
| "find_crlf _ = None"

lemma find_crlf_Some: "find_crlf s = Some i \<Longrightarrow> i + 2 \<le> length s \<and> drop i s = CR # LF # drop (i + 2) s"
  by (induction s arbitrary: i rule: find_crlf.induct) (auto split: if_splits)

lemma find_crlf_append: "find_crlf s = Some i \<Longrightarrow> find_crlf (s @ x) = Some i"
  by (induction s arbitrary: i rule: find_crlf.induct) (auto split: if_splits)

lemma find_crlf_line: "find_crlf s = None \<Longrightarrow> find_crlf (s @ CR # LF # x) = Some (length s)"
proof (induction s rule: find_crlf.induct)
  case (1 c d s)
  then show ?case by (auto split: if_splits)
qed auto

lemma seek_loop_end: "L \<le> int pos \<Longrightarrow> seek_loop s pos L = Some None"
  by (subst seek_loop.simps) simp

lemma seek_loop_CR:
  assumes "int pos < L" "pos + 1 < length s" "s ! pos = CR"
  shows "seek_loop s pos L = (if s ! (pos + 1) = LF then Some (Some pos) else seek_loop s (pos + 1) L)"
proof -
  have "scan_cr s pos L = Some pos" using assms by (subst scan_cr.simps) (simp add: rd_def)
  then show ?thesis using assms by (subst seek_loop.simps) (simp add: rd_def)
qed

lemma seek_loop_other:
  assumes "int pos < L" "nat L + 1 < length s" "s ! pos \<noteq> CR" "s ! (nat L + 1) \<noteq> LF"
  shows "seek_loop s pos L = seek_loop s (pos + 1) L"
proof -
  have "pos < length s" using assms(1,2) by linarith
  then have sc: "scan_cr s pos L = scan_cr s (pos + 1) L" using assms by (subst scan_cr.simps) (simp add: rd_def)
  show ?thesis
  proof (cases "int (pos + 1) < L")
    case True
    then show ?thesis using assms(1) sc seek_loop.simps [of s pos L] seek_loop.simps [of s "pos + 1" L] by simp
  next
    case False
    then have L: "L = int (pos + 1)" using assms(1) by simp
    have "scan_cr s (pos + 1) L = Some (pos + 1)" using L by (subst scan_cr.simps) simp
    moreover have "nat L + 1 = pos + 2" using L by simp
    ultimately show ?thesis using assms sc L
      by (subst seek_loop.simps) (simp add: rd_def seek_loop_end)
  qed
qed

lemma find_crlf_drop:
  assumes "pos + 1 < length s"
  shows "find_crlf (drop pos s) = (if s ! pos = CR \<and> s ! (pos + 1) = LF then Some 0
     else map_option Suc (find_crlf (drop (pos + 1) s)))"
proof -
  have "drop pos s = s ! pos # s ! (pos + 1) # drop (pos + 2) s" "drop (pos + 1) s = s ! (pos + 1) # drop (pos + 2) s"
    using assms by (simp_all add: Cons_nth_drop_Suc)
  then show ?thesis by simp
qed

lemma seek_loop_eq:
  assumes "s = rest @ NUL # junk" "length rest = n" "n \<noteq> 0"
  shows "pos \<le> n \<Longrightarrow> seek_loop s pos (int n - 1) = Some (map_option ((+) pos) (find_crlf (drop pos rest)))"
proof (induction "n - pos" arbitrary: pos)
  case 0
  then show ?case using assms by (simp add: seek_loop_end)
next
  case (Suc k)
  show ?case
  proof (cases "pos + 1 < n")
    case False
    then have "pos = n - 1" using Suc by simp
    then have "length (drop pos rest) = 1" using assms by simp
    then obtain c where "drop pos rest = [c]" by (cases "drop pos rest") auto
    then show ?thesis using False by (simp add: seek_loop_end)
  next
    case True
    have nths: "s ! pos = rest ! pos" "s ! (pos + 1) = rest ! (pos + 1)" "s ! n = NUL"
      using True assms by (simp_all add: nth_append)
    have IH: "seek_loop s (pos + 1) (int n - 1) = Some (map_option ((+) (pos + 1)) (find_crlf (drop (pos + 1) rest)))"
      using Suc True by simp
    have step: "map_option ((+) pos) (map_option Suc x) = map_option ((+) (pos + 1)) x" for x
      by (cases x) auto
    have fd: "find_crlf (drop pos rest) = (if rest ! pos = CR \<and> rest ! (pos + 1) = LF then Some 0
        else map_option Suc (find_crlf (drop (pos + 1) rest)))"
      using True assms by (intro find_crlf_drop) simp
    show ?thesis
    proof (cases "rest ! pos = CR")
      case cr: True
      have "seek_loop s pos (int n - 1) = (if s ! (pos + 1) = LF then Some (Some pos) else seek_loop s (pos + 1) (int n - 1))"
        using True assms nths cr by (intro seek_loop_CR) auto
      then show ?thesis unfolding fd IH using cr nths step by auto
    next
      case other: False
      have "seek_loop s pos (int n - 1) = seek_loop s (pos + 1) (int n - 1)"
      proof (rule seek_loop_other)
        have "nat (int n - 1) + 1 = n" using True by linarith
        then show "nat (int n - 1) + 1 < length s" "s ! (nat (int n - 1) + 1) \<noteq> LF" using assms nths by simp_all
      qed (use True nths other in simp_all)
      then show ?thesis unfolding fd IH using other step by simp
    qed
  qed
qed

lemma seekNewline_eq:
  assumes "length rest < 2 ^ 31"
  shows "seekNewline (rest @ NUL # junk) (length rest) = Some (find_crlf rest)"
proof (cases "rest = []")
  case True
  have "s32 (int (sz_sub 0 1)) = -1" by (simp add: sz_sub_def u64_def s32_def)
  then show ?thesis using True by (simp add: seekNewline_def seek_loop_end)
next
  case False
  then have "sz_sub (length rest) 1 = length rest - 1" using assms by (intro sz_sub_eq) (auto simp: Suc_le_eq)
  then have "s32 (int (sz_sub (length rest) 1)) = int (length rest) - 1"
    using False assms by (simp add: s32_id of_nat_diff Suc_le_eq)
  then show ?thesis using seek_loop_eq [of "rest @ NUL # junk" rest junk "length rest" 0] False
    by (simp add: seekNewline_def option.map_ident_strong)
qed

section \<open>Numbers\<close>

lemma digits_loop_CR: "digits_loop (s @ CR # x) v = digits_loop (s @ [CR]) v \<and> digits_loop (s @ [CR]) v \<noteq> None"
  by (induction s arbitrary: v) (auto simp: Let_def)

definition line_value :: "string \<Rightarrow> 64 word" where
  "line_value s = the (readLongLong (s @ [CR]))"

lemma readLongLong_line: "readLongLong (s @ CR # x) = Some (line_value s)"
proof -
  have d: "digits_loop (s @ CR # x) v = digits_loop (s @ [CR]) v" "\<exists>w. digits_loop (s @ [CR]) v = Some w" for s v
    using digits_loop_CR [of s x v] by auto
  have "\<exists>w. readLongLong (s @ [CR]) = Some w \<and> readLongLong (s @ CR # x) = Some w"
  proof (cases s)
    case Nil
    then show ?thesis by (simp add: readLongLong_def rd_def)
  next
    case (Cons c t)
    then show ?thesis using d(1) [of t 0] d(1) [of s 0] d(2) [of t 0] d(2) [of s 0]
      by (auto simp: readLongLong_def rd_def)
  qed
  then show ?thesis by (auto simp: line_value_def)
qed

lemma schar_digit: "d < 10 \<Longrightarrow> schar (digit_char d) = 48 + int d"
  by (simp add: schar_def code_digit_char)

lemma digit_char_neq: "d < 10 \<Longrightarrow> digit_char d \<noteq> CR \<and> digit_char d \<noteq> CHR ''-'' \<and> digit_char d \<noteq> CHR ''+''"
  using code_digit_char [of d] by (auto simp: code_def)

lemma digits_loop_dec: "digits_loop (dec_nat n @ s) v = digits_loop s (v * 10 ^ length (dec_nat n) + of_nat n)"
proof (induction n arbitrary: v s rule: dec_nat_induct)
  case (small n)
  then show ?case using digit_char_neq [of n] by (simp add: dec_nat_small schar_digit Let_def)
next
  case (large n)
  have d: "n mod 10 < 10" by simp
  have "of_nat n = (of_nat (n div 10) * 10 + of_nat (n mod 10) :: 64 word)"
    by (metis div_mult_mod_eq of_nat_add of_nat_mult of_nat_numeral)
  then show ?case using large d digit_char_neq [OF d] schar_digit [OF d]
    by (simp add: dec_nat_large Let_def algebra_simps)
qed

lemma dec_nat_hd: "\<exists>c r. dec_nat n = c # r \<and> c \<noteq> CHR ''-'' \<and> c \<noteq> CHR ''+''"
proof -
  obtain c r where c: "dec_nat n = c # r" by (cases "dec_nat n") auto
  then have "isdigit_c c" using dec_nat_digits [of c n] by simp
  then show ?thesis using c by (auto simp: isdigit_c_def code_def)
qed

lemma line_value_dec: "line_value (dec_int i) = word_of_int i"
proof (cases "i < 0")
  case True
  then have "dec_int i = CHR ''-'' # dec_nat (nat (- i))" by (simp add: dec_int_def)
  then have "readLongLong (dec_int i @ [CR]) = Some (- 1 * of_nat (nat (- i)))"
    by (simp add: readLongLong_def rd_def digits_loop_dec)
  then show ?thesis using True by (simp add: line_value_def)
next
  case False
  then have d: "dec_int i = dec_nat (nat i)" by (simp add: dec_int_def)
  obtain c r where c: "dec_nat (nat i) = c # r" "c \<noteq> CHR ''-''" "c \<noteq> CHR ''+''" using dec_nat_hd by blast
  have "readLongLong (dec_nat (nat i) @ [CR]) = Some (of_nat (nat i))"
    using digits_loop_dec [of "nat i" "[CR]" 0] c by (simp add: readLongLong_def rd_def)
  then show ?thesis using False d by (simp add: line_value_def)
qed

section \<open>Trees of reply objects\<close>

datatype atree =
    ALeaf nat redisReply
  | AArr nat "atree option list"   \<comment> \<open>\<open>None\<close>: the element is still NULL\<close>

fun addr :: "atree \<Rightarrow> nat" where
  "addr (ALeaf p c) = p"
| "addr (AArr p ts) = p"

definition arr_cell :: "nat option list \<Rightarrow> redisReply" where
  "arr_cell es = zero_reply\<lparr>rp_type := REDIS_REPLY_ARRAY, rp_elements := length es, rp_element := Some es\<rparr>"

type_synonym cells = "(nat \<times> redisReply) list"

fun cells_of :: "atree \<Rightarrow> cells" where
  "cells_of (ALeaf p c) = [(p, c)]"
| "cells_of (AArr p ts) = (p, arr_cell (map (map_option addr) ts))
     # concat (map (case_option [] cells_of) ts)"

datatype frame = Frame (fr_addr: nat) (fr_done: "atree list") (fr_total: nat)

definition pad :: "nat \<Rightarrow> 'a option list \<Rightarrow> 'a option list" where
  "pad n es = es @ replicate (n - length es) None"

definition frame_cells :: "nat option \<Rightarrow> frame \<Rightarrow> cells" where
  \<comment> \<open>an open array whose next element, if begun, is at \<open>child\<close>\<close>
  "frame_cells child f =
     (fr_addr f, arr_cell (pad (fr_total f) (map (\<lambda>t. Some (addr t)) (fr_done f) @ (case child of None \<Rightarrow> [] | Some p \<Rightarrow> [Some p]))))
     # concat (map cells_of (fr_done f))"

fun stack_cells :: "nat option \<Rightarrow> frame list \<Rightarrow> cells" where
  \<comment> \<open>the innermost array first\<close>
  "stack_cells child [] = []"
| "stack_cells child (f # fs) = frame_cells child f @ stack_cells (Some (fr_addr f)) fs"

datatype pstate = Done atree | More "frame list"

fun plug :: "atree \<Rightarrow> frame list \<Rightarrow> pstate" where
  \<comment> \<open>a finished item: close the arrays that it completes\<close>
  "plug t [] = Done t"
| "plug t (Frame a done n # fs) =
     (if Suc (length done) = n then plug (AArr a (map Some (done @ [t]))) fs else More (Frame a (done @ [t]) n # fs))"

definition root_addr :: "nat \<Rightarrow> frame list \<Rightarrow> nat" where
  "root_addr p fs = (if fs = [] then p else fr_addr (last fs))"

fun pcells :: "pstate \<Rightarrow> cells" where
  "pcells (Done t) = cells_of t"
| "pcells (More fs) = stack_cells None fs"

definition wf_frames :: "frame list \<Rightarrow> bool" where
  "wf_frames fs \<longleftrightarrow> (\<forall>f \<in> set fs. length (fr_done f) < fr_total f \<and> fr_total f < 2 ^ 31)"

lemma plug_cells: "wf_frames fs \<Longrightarrow> mset (pcells (plug t fs)) = mset (cells_of t) + mset (stack_cells (Some (addr t)) fs)"
proof (induction t fs rule: plug.induct)
  case (2 t a done' n fs)
  have w: "wf_frames fs" using 2(2) by (simp add: wf_frames_def)
  show ?case
  proof (cases "Suc (length done') = n")
    case True
    then show ?thesis using 2(1) [OF True w] by (simp add: frame_cells_def pad_def comp_def)
  next
    case False
    then show ?thesis by (simp add: frame_cells_def)
  qed
qed simp

lemma plug_wf: "wf_frames fs \<Longrightarrow> plug t fs = More gs \<Longrightarrow> wf_frames gs \<and> gs \<noteq> [] \<and> length gs \<le> length fs"
  by (induction t fs rule: plug.induct) (auto simp: wf_frames_def split: if_splits)

lemma plug_root: "case plug t fs of Done u \<Rightarrow> addr u = root_addr (addr t) fs
    | More gs \<Rightarrow> gs \<noteq> [] \<and> root_addr 0 gs = root_addr (addr t) fs"
  by (induction t fs rule: plug.induct) (auto simp: root_addr_def split: pstate.splits)

section \<open>The heap\<close>

type_synonym heap = "nat \<Rightarrow> redisReply option"

definition heap_is :: "heap \<Rightarrow> heap \<Rightarrow> cells \<Rightarrow> bool" where
  \<comment> \<open>the objects of the list beside those of \<open>base\<close>, at distinct addresses\<close>
  "heap_is h base L \<longleftrightarrow> distinct (map fst L) \<and> fst ` set L \<inter> dom base = {} \<and> h = base ++ map_of L"

lemma heap_is_perm: "mset L = mset L' \<Longrightarrow> heap_is h base L \<longleftrightarrow> heap_is h base L'"
proof -
  assume m: "mset L = mset L'"
  have s: "set L = set L'" using mset_eq_setD [OF m] .
  have d: "distinct (map fst L) \<longleftrightarrow> distinct (map fst L')"
    by (metis m mset_eq_imp_distinct_iff mset_map)
  have "map_of L = map_of L'" if "distinct (map fst L)"
    using that d s by (intro map_of_inject_set [THEN iffD2]) auto
  then show ?thesis using s d unfolding heap_is_def by auto
qed

lemma heap_is_lookup: "heap_is h base L \<Longrightarrow> (p, c) \<in> set L \<Longrightarrow> h p = Some c"
  unfolding heap_is_def by (auto simp: map_add_def)

lemma heap_is_base: "heap_is h base L \<Longrightarrow> p \<notin> fst ` set L \<Longrightarrow> h p = base p"
proof -
  assume h: "heap_is h base L" and p: "p \<notin> fst ` set L"
  have "map_of L p = None" using p by (simp only: map_of_eq_None_iff not_False_eq_True)
  then show ?thesis using h by (simp add: heap_is_def map_add_def)
qed

lemma heap_is_fresh: "heap_is h base L \<Longrightarrow> h p = None \<Longrightarrow> p \<notin> fst ` set L \<and> p \<notin> dom base"
proof -
  assume h: "heap_is h base L" and p: "h p = None"
  have "p \<notin> fst ` set L"
  proof
    assume "p \<in> fst ` set L"
    then obtain c where "(p, c) \<in> set L" by force
    then show False using heap_is_lookup [OF h] p by simp
  qed
  then show ?thesis using heap_is_base [OF h] p by (simp add: domIff)
qed

lemma heap_is_Cons: "heap_is h base L \<Longrightarrow> h p = None \<Longrightarrow> heap_is (h(p \<mapsto> c)) base ((p, c) # L)"
  using heap_is_fresh [of h base L p] unfolding heap_is_def by auto

lemma heap_is_update:
  "heap_is h base ((p, c) # L) \<Longrightarrow> heap_is (h(p \<mapsto> d)) base ((p, d) # L)"
  unfolding heap_is_def by auto

lemma heap_is_remove: "heap_is h base ((p, c) # L) \<Longrightarrow> heap_is (h(p := None)) base L"
proof -
  assume h: "heap_is h base ((p, c) # L)"
  then have p: "p \<notin> fst ` set L" "base p = None" unfolding heap_is_def by auto
  then have "map_of L p = None" by (simp only: map_of_eq_None_iff not_False_eq_True)
  then have "(base ++ (map_of L)(p \<mapsto> c))(p := None) = base ++ map_of L"
    using p(2) by (intro ext) (simp add: map_add_def)
  then show ?thesis using h unfolding heap_is_def by auto
qed

lemma heap_is_Nil: "heap_is h base [] \<longleftrightarrow> h = base"
  by (simp add: heap_is_def)

section \<open>Freeing a reply\<close>

fun depth :: "atree \<Rightarrow> nat" where
  "depth (ALeaf p c) = 0"
| "depth (AArr p ts) = Suc (foldr (\<lambda>t. max (case_option 0 depth t)) ts 0)"

definition leaf_ok :: "redisReply \<Rightarrow> bool" where
  \<comment> \<open>nothing hangs off the object\<close>
  "leaf_ok c \<longleftrightarrow> rp_type c = REDIS_REPLY_ARRAY \<longrightarrow>
     (case rp_element c of None \<Rightarrow> True | Some es \<Rightarrow> set es \<subseteq> {None} \<and> rp_elements c \<le> length es)"

fun tree_ok :: "atree \<Rightarrow> bool" where
  "tree_ok (ALeaf p c) = leaf_ok c"
| "tree_ok (AArr p ts) = list_all (case_option True tree_ok) ts"

lemma free_elements_None: "set es \<subseteq> {None} \<Longrightarrow> free_elements f es h = Some h"
  by (induction es) auto

lemma free_elements_trees:
  assumes "\<And>t h L. Some t \<in> set ts \<Longrightarrow> heap_is h base (cells_of t @ L) \<Longrightarrow>
      \<exists>h'. free (addr t) h = Some h' \<and> heap_is h' base L"
    and "heap_is h base (concat (map (case_option [] cells_of) ts) @ L)"
  shows "\<exists>h'. free_elements free (map (map_option addr) ts) h = Some h' \<and> heap_is h' base L"
  using assms
proof (induction ts arbitrary: h)
  case Nil
  then show ?case by simp
next
  case (Cons t ts)
  show ?case
  proof (cases t)
    case None
    then show ?thesis using Cons by simp
  next
    case (Some u)
    then obtain h1 where "free (addr u) h = Some h1" "heap_is h1 base (concat (map (case_option [] cells_of) ts) @ L)"
      using Cons.prems(1) [of u h "concat (map (case_option [] cells_of) ts) @ L"] Cons.prems(2) by auto
    then show ?thesis using Cons.IH [of h1] Cons.prems(1) Some by auto
  qed
qed

lemma depth_elem: "Some t \<in> set ts \<Longrightarrow> depth t \<le> foldr (\<lambda>t. max (case_option 0 depth t)) ts 0"
  by (induction ts) auto

lemma free_reply_tree:
  "depth t < fuel \<Longrightarrow> tree_ok t \<Longrightarrow> heap_is h base (cells_of t @ L) \<Longrightarrow>
     \<exists>h'. free_reply fuel (addr t) h = Some h' \<and> heap_is h' base L"
proof (induction fuel arbitrary: t h L)
  case 0
  then show ?case by simp
next
  case (Suc fuel)
  show ?case
  proof (cases t)
    case (ALeaf p c)
    have c: "h p = Some c" using Suc.prems(3) ALeaf by (auto intro: heap_is_lookup)
    have "heap_is (h(p := None)) base L" using Suc.prems(3) ALeaf by (auto intro: heap_is_remove)
    moreover have "(if rp_type c = REDIS_REPLY_ARRAY then
                   (case rp_element c of
                      None \<Rightarrow> Some h
                    | Some es \<Rightarrow>
                        if rp_elements c \<le> length es
                        then free_elements (free_reply fuel) (take (rp_elements c) es) h else None)
                 else Some h) = Some h"
      using Suc.prems(2) ALeaf
      by (auto simp: leaf_ok_def split: option.splits intro!: free_elements_None dest: in_set_takeD)
    ultimately show ?thesis using ALeaf c by simp
  next
    case (AArr p ts)
    let ?c = "arr_cell (map (map_option addr) ts)"
    have c: "h p = Some ?c" using Suc.prems(3) AArr by (auto intro: heap_is_lookup)
    have sub: "\<exists>h'. free_reply fuel (addr u) h = Some h' \<and> heap_is h' base L"
      if "Some u \<in> set ts" "heap_is h base (cells_of u @ L)" for u h L
    proof (rule Suc.IH)
      show "depth u < fuel" using depth_elem [OF that(1)] Suc.prems(1) AArr by simp
      show "tree_ok u" using Suc.prems(2) AArr that(1) by (auto simp: list_all_iff)
    qed (rule that(2))
    have "mset (cells_of t @ L) = mset (concat (map (case_option [] cells_of) ts) @ (p, ?c) # L)" using AArr by simp
    then have "heap_is h base (concat (map (case_option [] cells_of) ts) @ (p, ?c) # L)"
      using Suc.prems(3) heap_is_perm by blast
    then obtain h1 where h1: "free_elements (free_reply fuel) (map (map_option addr) ts) h = Some h1" "heap_is h1 base ((p, ?c) # L)"
      using free_elements_trees [of ts base "free_reply fuel" h "(p, ?c) # L"] sub by blast
    then have "heap_is (h1(p := None)) base L" by (blast intro: heap_is_remove)
    then show ?thesis using h1(1) c AArr by (simp add: arr_cell_def zero_reply_def)
  qed
qed

section \<open>The open arrays as one tree\<close>

fun close_stack :: "atree option \<Rightarrow> frame list \<Rightarrow> atree option" where
  "close_stack t [] = t"
| "close_stack t (Frame a done n # fs) =
     close_stack (Some (AArr a (pad n (map Some done @ (case t of None \<Rightarrow> [] | Some u \<Rightarrow> [Some u]))))) fs"

lemma concat_cells_pad: "concat (map (case_option [] cells_of) (pad n ts)) = concat (map (case_option [] cells_of) ts)"
proof -
  have "concat (map (case_option [] cells_of) (replicate k None)) = []" for k by (induction k) auto
  then show ?thesis by (simp add: pad_def)
qed

lemma map_pad: "map (map_option f) (pad n ts) = pad n (map (map_option f) ts)"
  by (simp add: pad_def)

lemma close_stack_cells:
  "mset (case_option [] cells_of (close_stack t fs))
     = mset (case_option [] cells_of t) + mset (stack_cells (map_option addr t) fs)"
proof (induction t fs rule: close_stack.induct)
  case (2 t a done' n fs)
  then show ?case
    by (cases t) (simp_all add: frame_cells_def concat_cells_pad map_pad comp_def)
qed simp

lemma close_stack_root: "fs \<noteq> [] \<Longrightarrow> map_option addr (close_stack t fs) = Some (root_addr 0 fs)"
proof (induction t fs rule: close_stack.induct)
  case (2 t a done' n fs)
  then show ?case by (cases fs) (simp_all add: root_addr_def)
qed simp

definition frames_ok :: "frame list \<Rightarrow> bool" where
  "frames_ok fs \<longleftrightarrow> wf_frames fs \<and> (\<forall>f \<in> set fs. \<forall>t \<in> set (fr_done f). tree_ok t)"

lemma close_stack_ok:
  "frames_ok fs \<Longrightarrow> case_option True tree_ok t \<Longrightarrow> case_option True tree_ok (close_stack t fs)"
proof (induction t fs rule: close_stack.induct)
  case (2 t a done' n fs)
  have f: "frames_ok fs" "\<forall>u \<in> set done'. tree_ok u" using 2(2) by (auto simp: frames_ok_def wf_frames_def)
  have "case_option True tree_ok (Some (AArr a (pad n (map Some done' @ (case t of None \<Rightarrow> [] | Some u \<Rightarrow> [Some u])))))"
    using f(2) 2(3) by (cases t) (auto simp: list_all_iff pad_def)
  then show ?case using 2(1) [OF f(1)] by simp
qed simp

text \<open>The depth of a tree is below any bound on its addresses: they are distinct.\<close>

lemma depth_length: "depth t \<le> length (cells_of t)"
proof (induction t rule: cells_of.induct)
  case (2 p ts)
  have "foldr (\<lambda>t. max (case_option 0 depth t)) ts 0 \<le> length (concat (map (case_option [] cells_of) ts))"
    using 2
  proof (induction ts)
    case (Cons t ts)
    then show ?case by (cases t) (fastforce intro: order_trans)+
  qed simp
  then show ?case by simp
qed simp

lemma heap_is_bound:
  assumes "heap_is h base L" "dom h \<subseteq> {..<n}"
  shows "length L \<le> n"
proof -
  have "p < n" if "(p, c) \<in> set L" for p c
  proof -
    have "p \<in> dom h" using heap_is_lookup [OF assms(1) that] by (simp only: domIff) simp
    then show ?thesis using assms(2) by (simp only: subset_iff lessThan_iff)
  qed
  then have "set (map fst L) \<subseteq> {..<n}" by auto
  then have "card (set (map fst L)) \<le> n" using card_mono [of "{..<n}" "set (map fst L)"] by simp
  moreover have "card (set (map fst L)) = length L"
    using assms(1) distinct_card [of "map fst L"] unfolding heap_is_def by simp
  ultimately show ?thesis by simp
qed

definition mem_is :: "mem \<Rightarrow> heap \<Rightarrow> cells \<Rightarrow> bool" where
  "mem_is m base L \<longleftrightarrow> heap_is (m_cells m) base L \<and> dom (m_cells m) \<subseteq> {..<m_next m}"

lemma mem_is_perm: "mset L = mset L' \<Longrightarrow> mem_is m base L \<longleftrightarrow> mem_is m base L'"
  using heap_is_perm [of L L'] unfolding mem_is_def by blast

lemma freeReplyObject_tree:
  assumes "mem_is m base (cells_of t @ L)" "tree_ok t"
  shows "\<exists>m'. freeReplyObject (Obj (addr t)) m = Some m' \<and> mem_is m' base L \<and> m_al m' = m_al m \<and> m_next m' = m_next m"
proof -
  have h: "heap_is (m_cells m) base (cells_of t @ L)" "dom (m_cells m) \<subseteq> {..<m_next m}" using assms(1) by (simp_all add: mem_is_def)
  have "length (cells_of t @ L) \<le> m_next m" using heap_is_bound [OF h] .
  then have "depth t < Suc (m_next m)" using depth_length [of t] by simp
  then obtain h' where h': "free_reply (Suc (m_next m)) (addr t) (m_cells m) = Some h'" "heap_is h' base L"
    using free_reply_tree [OF _ assms(2) h(1)] by blast
  have "set L \<subseteq> set (cells_of t @ L)" by simp
  have "dom h' \<subseteq> dom (m_cells m)"
    using h(1) h'(2) by (auto simp: heap_is_def dom_map_of_conv_image_fst)
  then show ?thesis using h h' unfolding freeReplyObject_def mem_is_def
    by (auto simp del: free_reply.simps)
qed

section \<open>The task stack\<close>

fun idx_of :: "frame list \<Rightarrow> int" where
  \<comment> \<open>the place of the item being read in its array\<close>
  "idx_of [] = -1"
| "idx_of (f # fs) = int (length (fr_done f))"

definition par_of :: "frame list \<Rightarrow> nat option" where
  "par_of fs = (if fs = [] then None else Some (length fs - 1))"

fun tasks :: "redisReadTask list \<Rightarrow> frame list \<Rightarrow> bool" where
  \<comment> \<open>the tasks below the current one stand for the open arrays\<close>
  "tasks st [] \<longleftrightarrow> True"
| "tasks st (f # fs) \<longleftrightarrow>
     (let t = st ! length fs in
        tk_type t = REDIS_REPLY_ARRAY \<and> tk_elements t = int (fr_total f) \<and> tk_obj t = Some (Obj (fr_addr f))
          \<and> tk_idx t = idx_of fs \<and> tk_parent t = par_of fs) \<and> tasks st fs"

definition cur_ok :: "redisReadTask list \<Rightarrow> frame list \<Rightarrow> int \<Rightarrow> bool" where
  "cur_ok st fs ty \<longleftrightarrow>
     (let t = st ! length fs in tk_type t = ty \<and> tk_idx t = idx_of fs \<and> tk_parent t = par_of fs)"

lemma tasks_upd: "length fs \<le> k \<Longrightarrow> tasks (st[k := t]) fs \<longleftrightarrow> tasks st fs"
  by (induction fs) (auto simp: Let_def)

lemma tasks_cur: "tasks st (f # fs) \<Longrightarrow> cur_ok st fs REDIS_REPLY_ARRAY"
  by (simp add: cur_ok_def Let_def)

lemma wf_tl: "wf_frames (f # fs) \<Longrightarrow> wf_frames fs"
  by (simp add: wf_frames_def)

definition after_move :: "'m redisReader \<Rightarrow> pstate \<Rightarrow> 'm redisReader \<Rightarrow> bool" where
  \<comment> \<open>what \<open>moveToNextTask\<close> leaves of the stack\<close>
  "after_move r st r' \<longleftrightarrow> (\<exists>stack i. r' = r\<lparr>rr_rstack := stack, rr_ridx := i\<rparr> \<and> length stack = length (rr_rstack r)
     \<and> (case st of Done _ \<Rightarrow> i = -1
        | More gs \<Rightarrow> i = int (length gs) \<and> tasks stack gs \<and> cur_ok stack gs (-1)))"

lemma moveToNextTask_plug:
  assumes "rr_ridx r = int (length fs)" "length fs < length (rr_rstack r)" "wf_frames fs"
    "tasks (rr_rstack r) fs" "tk_idx (rr_rstack r ! length fs) = idx_of fs" "tk_parent (rr_rstack r ! length fs) = par_of fs"
  shows "\<exists>r'. moveToNextTask r = Some r' \<and> after_move r (plug t fs) r'"
  using assms
proof (induction t fs arbitrary: r rule: plug.induct)
  case (1 t)
  then show ?case
    by (subst moveToNextTask.simps) (auto simp: after_move_def intro!: exI [of _ "rr_rstack r"])
next
  case (2 t a d n fs)
  have r: "rr_ridx r = int (length fs) + 1" "nat (rr_ridx r) = Suc (length fs)" using 2(2) by simp_all
  have n: "length d < n" "n < 2 ^ 31" using 2(4) by (auto simp: wf_frames_def)
  have p: "tk_type (rr_rstack r ! length fs) = REDIS_REPLY_ARRAY" "tk_elements (rr_rstack r ! length fs) = int n"
    "tk_obj (rr_rstack r ! length fs) = Some (Obj a)"
    "tasks (rr_rstack r) fs" "tk_idx (rr_rstack r ! length fs) = idx_of fs" "tk_parent (rr_rstack r ! length fs) = par_of fs"
    using 2(5) by (auto simp: Let_def)
  have c: "tk_idx (rr_rstack r ! Suc (length fs)) = int (length d)" "tk_parent (rr_rstack r ! Suc (length fs)) = Some (length fs)"
    using 2(6,7) by (simp_all add: par_of_def)
  have s: "s32 (int n - 1) = int n - 1" using n by (simp add: s32_id)
  have len: "Suc (length fs) < length (rr_rstack r)" using 2(3) by simp
  show ?case
  proof (cases "Suc (length d) = n")
    case True
    have "moveToNextTask r = moveToNextTask (r\<lparr>rr_ridx := int (length fs)\<rparr>)"
      using r p(1,2) c(1) s True len by (subst moveToNextTask.simps) (simp add: Let_def)
    moreover obtain r' where "moveToNextTask (r\<lparr>rr_ridx := int (length fs)\<rparr>) = Some r'"
      "after_move (r\<lparr>rr_ridx := int (length fs)\<rparr>) (plug (AArr a (map Some (d @ [t]))) fs) r'"
      using 2(1) [OF True, of "r\<lparr>rr_ridx := int (length fs)\<rparr>"] p 2(4) len wf_tl by auto
    ultimately show ?thesis using True by (auto simp: after_move_def)
  next
    case False
    let ?st = "(rr_rstack r)[Suc (length fs) := (rr_rstack r ! Suc (length fs))
        \<lparr>tk_type := -1, tk_elements := -1, tk_idx := int (length d) + 1\<rparr>]"
    have "moveToNextTask r = Some (r\<lparr>rr_rstack := ?st\<rparr>)"
      using r p(1,2) c(1) s False len n by (subst moveToNextTask.simps) (simp add: Let_def)
    moreover have "after_move r (plug t (Frame a d n # fs)) (r\<lparr>rr_rstack := ?st\<rparr>)"
      unfolding after_move_def
      by (rule exI [of _ ?st], rule exI [of _ "rr_ridx r"])
         (use False len p c r in \<open>simp add: tasks_upd cur_ok_def Let_def par_of_def\<close>)
    ultimately show ?thesis by blast
  qed
qed

section \<open>Making an object\<close>

lemma createReplyObject_mem:
  assumes "mem_is m base L"
  shows "(\<exists>m'. createReplyObject ty m = (None, m') \<and> mem_is m' base L \<and> None \<in> set (m_al m) \<and> set (m_al m') \<subseteq> set (m_al m))
    \<or> (\<exists>m'. createReplyObject ty m = (Some (m_next m), m') \<and> mem_is m' base ((m_next m, zero_reply\<lparr>rp_type := ty\<rparr>) # L)
        \<and> set (m_al m') \<subseteq> set (m_al m))"
proof (cases "alloc_next (m_al m)")
  case (Pair a al)
  then have sub: "set al \<subseteq> set (m_al m)" by (rule alloc_next_set)
  show ?thesis
  proof (cases a)
    case None
    then show ?thesis using Pair sub assms alloc_next_None [of "m_al m" al]
      by (simp add: createReplyObject_def mem_is_def)
  next
    case (Some f)
    let ?h = "(m_cells m)(m_next m \<mapsto> zero_reply\<lparr>rp_type := ty\<rparr>)"
    have "m_cells m (m_next m) = None" using assms by (auto simp: mem_is_def)
    then have "heap_is ?h base ((m_next m, zero_reply\<lparr>rp_type := ty\<rparr>) # L)"
      using assms heap_is_Cons by (simp add: mem_is_def)
    then show ?thesis using Pair Some sub assms
      by (auto simp: createReplyObject_def mem_is_def)
  qed
qed

lemma upd_cell_mem:
  assumes "mem_is m base ((p, c) # L)"
  shows "\<exists>m'. upd_cell p f m = Some m' \<and> mem_is m' base ((p, f c) # L) \<and> m_al m' = m_al m \<and> m_next m' = m_next m"
proof -
  have c: "m_cells m p = Some c" using assms heap_is_lookup by (fastforce simp: mem_is_def)
  then have "p < m_next m" using assms by (auto simp: mem_is_def)
  moreover have "heap_is ((m_cells m)(p \<mapsto> f c)) base ((p, f c) # L)"
    using assms by (auto simp: mem_is_def intro: heap_is_update)
  ultimately show ?thesis using assms c by (simp add: upd_cell_def mem_is_def)
qed

lemma pad_update:
  assumes "length xs < n"
  shows "(pad n xs)[length xs := Some p] = pad n (xs @ [Some p])"
proof -
  obtain k where k: "n - length xs = Suc k" using assms by (cases "n - length xs") auto
  then have "n - length (xs @ [Some p]) = k" by simp
  then show ?thesis unfolding pad_def k by simp
qed

lemma length_pad: "length xs \<le> n \<Longrightarrow> length (pad n xs) = n"
  by (simp add: pad_def)

lemma set_element_attach:
  assumes "mem_is m base ((p, c) # stack_cells None fs)" "wf_frames fs" "tasks st fs" "cur_ok st fs ty" "length fs < length st"
  shows "\<exists>m'. set_element st (length fs) p m = Some m' \<and> mem_is m' base ((p, c) # stack_cells (Some p) fs)
    \<and> m_al m' = m_al m \<and> m_next m' = m_next m"
proof (cases fs)
  case Nil
  then show ?thesis using assms by (simp add: set_element_def cur_ok_def par_of_def Let_def)
next
  case (Cons f gs)
  let ?xs = "map (\<lambda>t. Some (addr t)) (fr_done f)"
  let ?old = "arr_cell (pad (fr_total f) ?xs)" and ?new = "arr_cell (pad (fr_total f) (?xs @ [Some p]))"
  let ?L = "(p, c) # concat (map cells_of (fr_done f)) @ stack_cells (Some (fr_addr f)) gs"
  have n: "length (fr_done f) < fr_total f" using assms(2) Cons by (simp add: wf_frames_def)
  have m1: "mem_is m base ((fr_addr f, ?old) # ?L)"
    using assms(1) Cons mem_is_perm [of "(p, c) # stack_cells None fs" "(fr_addr f, ?old) # ?L"] by (simp add: frame_cells_def)
  have old: "m_cells m (fr_addr f) = Some ?old" using m1 heap_is_lookup by (fastforce simp: mem_is_def)
  obtain m' where m': "upd_cell (fr_addr f) (\<lambda>c. c\<lparr>rp_element := Some ((pad (fr_total f) ?xs)[length (fr_done f) := Some p])\<rparr>) m = Some m'"
    "mem_is m' base ((fr_addr f, ?old\<lparr>rp_element := Some ((pad (fr_total f) ?xs)[length (fr_done f) := Some p])\<rparr>) # ?L)"
    "m_al m' = m_al m" "m_next m' = m_next m"
    using upd_cell_mem [OF m1] by blast
  have "(pad (fr_total f) ?xs)[length (fr_done f) := Some p] = pad (fr_total f) (?xs @ [Some p])"
    using pad_update [of ?xs "fr_total f" p] n by simp
  then have new: "?old\<lparr>rp_element := Some ((pad (fr_total f) ?xs)[length (fr_done f) := Some p])\<rparr> = ?new"
    using n by (simp add: arr_cell_def length_pad)
  have "mem_is m' base ((p, c) # stack_cells (Some p) fs)"
    using m'(2) mem_is_perm [of "(fr_addr f, ?new) # ?L" "(p, c) # stack_cells (Some p) fs" m' base]
    unfolding new by (simp add: Cons frame_cells_def)
  moreover have "set_element st (length fs) p m = Some m'"
  proof -
    have t: "tk_parent (st ! length fs) = Some (length gs)" "tk_idx (st ! length fs) = int (length (fr_done f))"
      "tk_obj (st ! length gs) = Some (Obj (fr_addr f))"
      using assms(3,4) Cons by (auto simp: cur_ok_def par_of_def Let_def)
    have "rp_type ?old = REDIS_REPLY_ARRAY" "rp_element ?old = Some (pad (fr_total f) ?xs)"
      "length (pad (fr_total f) ?xs) = fr_total f"
      using n by (simp_all add: arr_cell_def length_pad)
    then show ?thesis using t old n assms(5) m'(1) Cons by (simp add: set_element_def Let_def)
  qed
  ultimately show ?thesis using m'(3,4) by blast
qed

definition str_cell :: "int \<Rightarrow> string \<Rightarrow> redisReply" where
  "str_cell ty s = zero_reply\<lparr>rp_type := ty, rp_str := Some (s @ [NUL]), rp_len := int (length s)\<rparr>"

definition int_cell :: "64 word \<Rightarrow> redisReply" where
  "int_cell v = zero_reply\<lparr>rp_type := REDIS_REPLY_INTEGER, rp_integer := v\<rparr>"

definition nil_cell :: redisReply where
  "nil_cell = zero_reply\<lparr>rp_type := REDIS_REPLY_NIL\<rparr>"

definition count_cell :: "int \<Rightarrow> redisReply" where
  \<comment> \<open>a fresh array for a count given as an \<open>int\<close>\<close>
  "count_cell k = zero_reply\<lparr>rp_type := REDIS_REPLY_ARRAY,
     rp_element := (if k > 0 then Some (replicate (nat k) None) else None), rp_elements := nat (k mod 2 ^ 64)\<rparr>"

definition created :: "mem \<Rightarrow> heap \<Rightarrow> frame list \<Rightarrow> redisReply \<Rightarrow> (obj option \<times> mem) option \<Rightarrow> bool" where
  \<comment> \<open>a new object \<open>c\<close>, attached to the innermost open array, or nothing at all after a failed allocation\<close>
  "created m base fs c res \<longleftrightarrow> (\<exists>ob m'. res = Some (ob, m') \<and> set (m_al m') \<subseteq> set (m_al m)
     \<and> (case ob of
          None \<Rightarrow> None \<in> set (m_al m) \<and> mem_is m' base (stack_cells None fs)
        | Some x \<Rightarrow> \<exists>p. x = Obj p \<and> mem_is m' base ((p, c) # stack_cells (Some p) fs)))"

lemma created_fail:
  "None \<in> set (m_al m) \<Longrightarrow> mem_is m' base (stack_cells None fs) \<Longrightarrow> set (m_al m') \<subseteq> set (m_al m)
     \<Longrightarrow> created m base fs c (Some (None, m'))"
  by (simp add: created_def)

lemma created_attach:
  assumes "mem_is m1 base ((p, c) # stack_cells None fs)" "wf_frames fs" "tasks st fs" "cur_ok st fs ty" "length fs < length st"
    "set (m_al m1) \<subseteq> set (m_al m)"
  shows "created m base fs c (do { m2 \<leftarrow> set_element st (length fs) p m1; Some (Some (Obj p), m2) })"
proof -
  obtain m2 where "set_element st (length fs) p m1 = Some m2" "mem_is m2 base ((p, c) # stack_cells (Some p) fs)"
    "m_al m2 = m_al m1"
    using set_element_attach [OF assms(1-5)] by blast
  then show ?thesis using assms(6) by (auto simp: created_def)
qed

lemma tree_ok_fresh: "rp_element c = None \<Longrightarrow> tree_ok (ALeaf p c)"
  by (simp add: leaf_ok_def)

lemma zero_element: "rp_element (zero_reply\<lparr>rp_type := ty\<rparr>) = None"
  by (simp add: zero_reply_def)

lemma free_fresh:
  assumes "mem_is m base ((p, c) # L)" "rp_element c = None"
  shows "\<exists>m'. freeReplyObject (Obj p) m = Some m' \<and> mem_is m' base L \<and> m_al m' = m_al m"
  using freeReplyObject_tree [of m base "ALeaf p c" L] assms tree_ok_fresh [OF assms(2), of p] by auto

lemma mem_is_al [simp]: "mem_is (m\<lparr>m_al := al\<rparr>) base L \<longleftrightarrow> mem_is m base L"
  by (simp add: mem_is_def)

lemmas stack_facts = wf_frames_def tasks.simps cur_ok_def

lemma createString_created:
  assumes "mem_is m base (stack_cells None fs)" "wf_frames fs" "tasks st fs" "cur_ok st fs ty" "length fs < length st"
    and "ty \<in> {REDIS_REPLY_ERROR, REDIS_REPLY_STATUS, REDIS_REPLY_STRING}" "n \<le> length str" "n < 2 ^ 31"
  shows "created m base fs (str_cell ty (take n str)) (createStringObject st (length fs) str n m)"
proof -
  have ty: "tk_type (st ! length fs) = ty" using assms(4) by (simp add: cur_ok_def Let_def)
  from createReplyObject_mem [OF assms(1), of ty] show ?thesis
  proof (elim disjE exE conjE)
    fix m1 assume "createReplyObject ty m = (None, m1)" "mem_is m1 base (stack_cells None fs)"
      "None \<in> set (m_al m)" "set (m_al m1) \<subseteq> set (m_al m)"
    then show ?thesis using ty assms(5) by (simp add: createStringObject_def Let_def created_fail)
  next
    fix m1 assume c: "createReplyObject ty m = (Some (m_next m), m1)"
      and m1: "mem_is m1 base ((m_next m, zero_reply\<lparr>rp_type := ty\<rparr>) # stack_cells None fs)"
      and al1: "set (m_al m1) \<subseteq> set (m_al m)"
    obtain a al where an: "alloc_next (m_al m1) = (a, al)" by force
    have al: "set al \<subseteq> set (m_al m)" using alloc_next_set [OF an] al1 by blast
    show ?thesis
    proof (cases a)
      case None
      have "None \<in> set (m_al m)" using an None al1 alloc_next_None by blast
      moreover obtain m2 where "freeReplyObject (Obj (m_next m)) (m1\<lparr>m_al := al\<rparr>) = Some m2" "mem_is m2 base (stack_cells None fs)"
        "m_al m2 = al"
        using free_fresh [of "m1\<lparr>m_al := al\<rparr>" base "m_next m"] m1 zero_element by fastforce
      ultimately show ?thesis using c an None al assms(5) ty
        by (simp add: createStringObject_def Let_def malloc_bytes_def created_fail)
    next
      case (Some f)
      let ?buf = "map f [0..<u64 (n + 1)]"
      have n: "u64 (n + 1) = n + 1" using assms(8) by simp
      have w: "write_at 0 (take n str) ?buf = Some (take n str @ [f n])"
        using assms(7) n by (simp add: write_at_def min_absorb2)
      have p: "poke n NUL (take n str @ [f n]) = Some (take n str @ [NUL])"
        using assms(7) by (simp add: poke_def list_update_append min_absorb2)
      obtain m2 where m2: "upd_cell (m_next m) (\<lambda>c. c\<lparr>rp_str := Some (take n str @ [NUL]), rp_len := s32 (int n)\<rparr>) (m1\<lparr>m_al := al\<rparr>) = Some m2"
        "mem_is m2 base ((m_next m, str_cell ty (take n str)) # stack_cells None fs)" "m_al m2 = al"
        using upd_cell_mem [of "m1\<lparr>m_al := al\<rparr>" base "m_next m" "zero_reply\<lparr>rp_type := ty\<rparr>"] m1 assms(7,8)
        by (fastforce simp: str_cell_def zero_reply_def min_absorb2)
      have "createStringObject st (length fs) str n m = do { m3 \<leftarrow> set_element st (length fs) (m_next m) m2; Some (Some (Obj (m_next m)), m3) }"
        using c an Some w p m2(1) ty assms(5,6,7)
        by (auto simp: createStringObject_def Let_def malloc_bytes_def read_at_def)
      then show ?thesis using created_attach [OF m2(2) assms(2-5), of m] m2(3) al by simp
    qed
  qed
qed

lemma createInteger_created:
  assumes "mem_is m base (stack_cells None fs)" "wf_frames fs" "tasks st fs" "cur_ok st fs ty" "length fs < length st"
  shows "created m base fs (int_cell v) (createIntegerObject st (length fs) v m)"
  using createReplyObject_mem [OF assms(1), of REDIS_REPLY_INTEGER]
proof (elim disjE exE conjE)
  fix m1 assume "createReplyObject REDIS_REPLY_INTEGER m = (None, m1)" "mem_is m1 base (stack_cells None fs)"
    "None \<in> set (m_al m)" "set (m_al m1) \<subseteq> set (m_al m)"
  then show ?thesis by (simp add: createIntegerObject_def created_fail)
next
  fix m1 assume c: "createReplyObject REDIS_REPLY_INTEGER m = (Some (m_next m), m1)"
    and m1: "mem_is m1 base ((m_next m, zero_reply\<lparr>rp_type := REDIS_REPLY_INTEGER\<rparr>) # stack_cells None fs)"
    and al1: "set (m_al m1) \<subseteq> set (m_al m)"
  obtain m2 where m2: "upd_cell (m_next m) (\<lambda>c. c\<lparr>rp_integer := v\<rparr>) m1 = Some m2"
    "mem_is m2 base ((m_next m, int_cell v) # stack_cells None fs)" "m_al m2 = m_al m1"
    using upd_cell_mem [OF m1, of "\<lambda>c. c\<lparr>rp_integer := v\<rparr>"] by (auto simp: int_cell_def)
  show ?thesis using created_attach [OF m2(2) assms(2-5), of m] m2(1,3) al1 c
    by (simp add: createIntegerObject_def)
qed

lemma createNil_created:
  assumes "mem_is m base (stack_cells None fs)" "wf_frames fs" "tasks st fs" "cur_ok st fs ty" "length fs < length st"
  shows "created m base fs nil_cell (createNilObject st (length fs) m)"
  using createReplyObject_mem [OF assms(1), of REDIS_REPLY_NIL]
proof (elim disjE exE conjE)
  fix m1 assume "createReplyObject REDIS_REPLY_NIL m = (None, m1)" "mem_is m1 base (stack_cells None fs)"
    "None \<in> set (m_al m)" "set (m_al m1) \<subseteq> set (m_al m)"
  then show ?thesis by (simp add: createNilObject_def created_fail)
next
  fix m1 assume c: "createReplyObject REDIS_REPLY_NIL m = (Some (m_next m), m1)"
    and m1: "mem_is m1 base ((m_next m, zero_reply\<lparr>rp_type := REDIS_REPLY_NIL\<rparr>) # stack_cells None fs)"
    and al1: "set (m_al m1) \<subseteq> set (m_al m)"
  show ?thesis using created_attach [OF m1 assms(2-5) al1] c by (simp add: createNilObject_def nil_cell_def)
qed

lemma createArray_created:
  assumes "mem_is m base (stack_cells None fs)" "wf_frames fs" "tasks st fs" "cur_ok st fs ty" "length fs < length st"
  shows "created m base fs (count_cell k) (createArrayObject st (length fs) k m)"
  using createReplyObject_mem [OF assms(1), of REDIS_REPLY_ARRAY]
proof (elim disjE exE conjE)
  fix m1 assume "createReplyObject REDIS_REPLY_ARRAY m = (None, m1)" "mem_is m1 base (stack_cells None fs)"
    "None \<in> set (m_al m)" "set (m_al m1) \<subseteq> set (m_al m)"
  then show ?thesis by (simp add: createArrayObject_def created_fail)
next
  fix m1 assume c: "createReplyObject REDIS_REPLY_ARRAY m = (Some (m_next m), m1)"
    and m1: "mem_is m1 base ((m_next m, zero_reply\<lparr>rp_type := REDIS_REPLY_ARRAY\<rparr>) # stack_cells None fs)"
    and al1: "set (m_al m1) \<subseteq> set (m_al m)"
  have fin: "created m base fs (count_cell k) (do {
        m \<leftarrow> upd_cell (m_next m) (\<lambda>c. c\<lparr>rp_element := (if k > 0 then Some (replicate (nat k) None) else None),
            rp_elements := nat (k mod 2 ^ 64)\<rparr>) m2;
        m \<leftarrow> set_element st (length fs) (m_next mm) m;
        Some (Some (Obj (m_next mm)), m) })"
    if a: "mem_is m2 base ((m_next m, zero_reply\<lparr>rp_type := REDIS_REPLY_ARRAY\<rparr>) # stack_cells None fs)"
      "set (m_al m2) \<subseteq> set (m_al m)" "mm = m" for m2 mm
  proof -
    obtain m3 where m3: "upd_cell (m_next m) (\<lambda>c. c\<lparr>rp_element := (if k > 0 then Some (replicate (nat k) None) else None),
            rp_elements := nat (k mod 2 ^ 64)\<rparr>) m2 = Some m3"
      "mem_is m3 base ((m_next m, (zero_reply\<lparr>rp_type := REDIS_REPLY_ARRAY\<rparr>)
         \<lparr>rp_element := (if k > 0 then Some (replicate (nat k) None) else None), rp_elements := nat (k mod 2 ^ 64)\<rparr>)
         # stack_cells None fs)" "m_al m3 = m_al m2"
      using upd_cell_mem [OF a(1), of "\<lambda>c. c\<lparr>rp_element := (if k > 0 then Some (replicate (nat k) None) else None),
            rp_elements := nat (k mod 2 ^ 64)\<rparr>"] by blast
    have "mem_is m3 base ((m_next m, count_cell k) # stack_cells None fs)" using m3(2) by (simp add: count_cell_def)
    then show ?thesis using created_attach [OF _ assms(2-5), of m3 base "m_next m" "count_cell k" m] m3(1,3) a(2,3) by simp
  qed
  consider (no) "\<not> k > 0" | (oom) al where "k > 0" "alloc_next (m_al m1) = (None, al)"
    | (ok) f al where "k > 0" "alloc_next (m_al m1) = (Some f, al)"
    by (cases "alloc_next (m_al m1)"; cases "fst (alloc_next (m_al m1))") auto
  then show ?thesis
  proof cases
    case no
    then show ?thesis using fin [OF m1 al1 refl] c by (simp add: createArrayObject_def)
  next
    case oom
    have al: "None \<in> set (m_al m)" "set al \<subseteq> set (m_al m)"
      using alloc_next_None [OF oom(2)] alloc_next_set [OF oom(2)] al1 by auto
    obtain m2 where "freeReplyObject (Obj (m_next m)) (m1\<lparr>m_al := al\<rparr>) = Some m2" "mem_is m2 base (stack_cells None fs)"
        "m_al m2 = al"
      using free_fresh [of "m1\<lparr>m_al := al\<rparr>" base "m_next m"] m1 zero_element by fastforce
    then show ?thesis using c oom al by (simp add: createArrayObject_def created_fail)
  next
    case ok
    have al: "set al \<subseteq> set (m_al m)" using alloc_next_set [OF ok(2)] al1 by auto
    have "mem_is (m1\<lparr>m_al := al\<rparr>) base ((m_next m, zero_reply\<lparr>rp_type := REDIS_REPLY_ARRAY\<rparr>) # stack_cells None fs)"
      using m1 by simp
    then show ?thesis using fin [of "m1\<lparr>m_al := al\<rparr>" m] al c ok by (simp add: createArrayObject_def)
  qed
qed

section \<open>The input not yet consumed\<close>

definition input_is :: "'m redisReader \<Rightarrow> string \<Rightarrow> bool" where
  "input_is r rest \<longleftrightarrow> (\<exists>b. rr_buf r = Some b \<and> sds_ok b \<and> rr_len r = sds_len b \<and> rr_pos r \<le> sds_len b
     \<and> sds_len b < 2 ^ 31 \<and> rest = drop (rr_pos r) (sds_str b))"

lemma input_is_cong:
  "rr_buf r' = rr_buf r \<Longrightarrow> rr_len r' = rr_len r \<Longrightarrow> rr_pos r' = rr_pos r \<Longrightarrow> input_is r' rest \<longleftrightarrow> input_is r rest"
  by (simp add: input_is_def)

lemma input_facts:
  assumes "input_is r rest"
  obtains junk where "at_pos r = Some (rest @ NUL # junk)" "sz_sub (rr_len r) (rr_pos r) = length rest"
    "length rest < 2 ^ 31" "rr_pos r + length rest = rr_len r" "rr_len r < 2 ^ 31"
proof -
  obtain b where b: "rr_buf r = Some b" "sds_ok b" "rr_len r = sds_len b" "rr_pos r \<le> sds_len b" "sds_len b < 2 ^ 31"
      "rest = drop (rr_pos r) (sds_str b)"
    using assms by (auto simp: input_is_def)
  have lb: "sds_len b < length (sds_buf b)" "sds_buf b ! sds_len b = NUL" using b(2) by (auto simp: sds_ok_def)
  have "sds_buf b = sds_str b @ NUL # drop (Suc (sds_len b)) (sds_buf b)"
    using nth_take_drop_split [OF lb(1)] unfolding lb(2) sds_str_def .
  then have "drop (rr_pos r) (sds_buf b) = rest @ NUL # drop (Suc (sds_len b)) (sds_buf b)"
    using b by (metis drop_append drop_0 length_sds_str diff_is_0_eq)
  moreover have "length rest = sds_len b - rr_pos r" using b by simp
  ultimately show ?thesis
    using b lb by (intro that [of "drop (Suc (sds_len b)) (sds_buf b)"]) (auto simp: at_pos_def sz_sub_eq)
qed

lemma input_advance:
  "input_is r rest \<Longrightarrow> k \<le> length rest \<Longrightarrow> input_is (r\<lparr>rr_pos := rr_pos r + k\<rparr>) (drop k rest)"
  unfolding input_is_def by (auto simp: add.commute)

lemma readLine_eq:
  assumes "input_is r rest"
  obtains junk where "readLine r = Some (case find_crlf rest of None \<Rightarrow> (None, r)
      | Some i \<Rightarrow> (Some (rest @ NUL # junk, int i), r\<lparr>rr_pos := rr_pos r + (i + 2)\<rparr>))"
proof -
  obtain junk where j: "at_pos r = Some (rest @ NUL # junk)" "sz_sub (rr_len r) (rr_pos r) = length rest"
    "length rest < 2 ^ 31" "rr_pos r + length rest = rr_len r" "rr_len r < 2 ^ 31"
    using input_facts [OF assms] .
  have "s32 (int i) = int i" "s32 (int i + 2) = int i + 2" "nat ((int (rr_pos r) + (int i + 2)) mod 2 ^ 64) = rr_pos r + (i + 2)"
    if "find_crlf rest = Some i" for i
  proof -
    have "i + 2 \<le> length rest" using find_crlf_Some [OF that] by blast
    then show "s32 (int i) = int i" "s32 (int i + 2) = int i + 2" "nat ((int (rr_pos r) + (int i + 2)) mod 2 ^ 64) = rr_pos r + (i + 2)"
      using j(3-5) by (simp_all add: s32_id nat_add_distrib)
  qed
  then show ?thesis using j seekNewline_eq [OF j(3), of junk]
    by (intro that [of junk]) (simp add: readLine_def Let_def split: option.splits)
qed

section \<open>The parser as a machine on lists\<close>

definition root_ptr :: "frame list \<Rightarrow> obj option" where
  "root_ptr fs = (if fs = [] then None else Some (Obj (root_addr 0 fs)))"

definition reads :: "mem redisReader \<Rightarrow> mem \<Rightarrow> heap \<Rightarrow> frame list \<Rightarrow> int \<Rightarrow> string \<Rightarrow> bool" where
  \<comment> \<open>in the middle of a reply: open arrays, type of the item if its byte was read, input left\<close>
  "reads r m base fs ty rest \<longleftrightarrow> rr_err r = 0 \<and> rr_fn r = Some defaultFunctions \<and> input_is r rest
     \<and> length (rr_rstack r) = 9 \<and> rr_ridx r = int (length fs) \<and> length fs \<le> 8 \<and> frames_ok fs
     \<and> tasks (rr_rstack r) fs \<and> cur_ok (rr_rstack r) fs ty \<and> rr_reply r = root_ptr fs
     \<and> mem_is m base (stack_cells None fs)"

definition finished :: "mem redisReader \<Rightarrow> mem \<Rightarrow> heap \<Rightarrow> atree \<Rightarrow> string \<Rightarrow> bool" where
  "finished r m base t rest \<longleftrightarrow> rr_err r = 0 \<and> rr_fn r = Some defaultFunctions \<and> input_is r rest
     \<and> length (rr_rstack r) = 9 \<and> rr_ridx r = -1 \<and> rr_reply r = Some (Obj (addr t)) \<and> tree_ok t
     \<and> mem_is m base (cells_of t)"

definition failed :: "mem redisReader \<Rightarrow> mem \<Rightarrow> heap \<Rightarrow> int \<Rightarrow> bool" where
  \<comment> \<open>an error is set, the buffer is gone and no object is left\<close>
  "failed r m base e \<longleftrightarrow> rr_err r = e \<and> rr_buf r = None \<and> rr_pos r = 0 \<and> rr_len r = 0 \<and> rr_ridx r = -1 \<and> rr_reply r = None
     \<and> mem_is m base []"

definition holds :: "mem redisReader \<Rightarrow> mem \<Rightarrow> heap \<Rightarrow> pstate \<Rightarrow> string \<Rightarrow> bool" where
  "holds r m base st rest \<longleftrightarrow>
     (case st of Done t \<Rightarrow> finished r m base t rest | More fs \<Rightarrow> reads r m base fs (-1) rest)"

lemma root_ptr_plug_More: "plug t fs = More gs \<Longrightarrow> root_ptr gs = Some (Obj (root_addr (addr t) fs))"
  using plug_root [of t fs] by (simp add: root_ptr_def)

lemma plug_ok: "frames_ok fs \<Longrightarrow> tree_ok t \<Longrightarrow> (case plug t fs of Done u \<Rightarrow> tree_ok u | More gs \<Rightarrow> frames_ok gs)"
proof (induction t fs rule: plug.induct)
  case (2 t a d n fs)
  have "frames_ok fs" "\<forall>u \<in> set d. tree_ok u" using 2(2) by (auto simp: frames_ok_def wf_frames_def)
  then show ?case using 2 by (auto simp: list_all_iff frames_ok_def wf_frames_def)
qed simp

lemma after_move_holds:
  assumes "reads r m base fs ty rest" "mem_is m' base (cells_of t @ stack_cells (Some (addr t)) fs)" "tree_ok t"
    "after_move r2 (plug t fs) r'" "rr_err r2 = 0" "rr_fn r2 = Some defaultFunctions" "input_is r2 rest'"
    "length (rr_rstack r2) = 9" "rr_reply r2 = Some (Obj (root_addr (addr t) fs))"
  shows "holds r' m' base (plug t fs) rest'"
proof -
  have fs: "frames_ok fs" "wf_frames fs" "length fs \<le> 8" using assms(1) by (auto simp: reads_def frames_ok_def)
  have mem: "mem_is m' base (pcells (plug t fs))"
    using plug_cells [OF fs(2), of t] assms(2) mem_is_perm [of "pcells (plug t fs)" "cells_of t @ stack_cells (Some (addr t)) fs"]
    by simp
  obtain stack i where r': "r' = r2\<lparr>rr_rstack := stack, rr_ridx := i\<rparr>" "length stack = 9"
      "case plug t fs of Done _ \<Rightarrow> i = -1 | More gs \<Rightarrow> i = int (length gs) \<and> tasks stack gs \<and> cur_ok stack gs (-1)"
    using assms(4,8) by (auto simp: after_move_def)
  have inp: "input_is r' rest'" using assms(7) input_is_cong [of r' r2] by (simp add: r'(1))
  show ?thesis
  proof (cases "plug t fs")
    case (Done u)
    then show ?thesis using plug_root [of t fs] plug_ok [OF fs(1) assms(3)] mem r' inp assms(5,6,9)
      by (simp add: holds_def finished_def)
  next
    case (More gs)
    then show ?thesis
      using plug_ok [OF fs(1) assms(3)] mem r' inp assms(5,6,9) plug_wf [OF fs(2) More] fs(3) root_ptr_plug_More [OF More]
      by (simp add: holds_def reads_def)
  qed
qed

lemma set_root_simps [simp]:
  "rr_rstack (set_root ob r) = rr_rstack r" "rr_ridx (set_root ob r) = rr_ridx r" "rr_err (set_root ob r) = rr_err r"
  "rr_fn (set_root ob r) = rr_fn r" "rr_buf (set_root ob r) = rr_buf r" "rr_pos (set_root ob r) = rr_pos r"
  "rr_len (set_root ob r) = rr_len r" "rr_reply (set_root ob r) = (if rr_ridx r = 0 then ob else rr_reply r)"
  by (simp_all add: set_root_def)

lemma reads_move:
  assumes "reads r m base fs ty rest" "mem_is m' base (cells_of t @ stack_cells (Some (addr t)) fs)" "tree_ok t"
    "k \<le> length rest" "p = addr t"
  shows "\<exists>r'. moveToNextTask (set_root (Some (Obj p)) (r\<lparr>rr_pos := rr_pos r + k\<rparr>)) = Some r'
      \<and> holds r' m' base (plug t fs) (drop k rest)"
    and "\<exists>r'. moveToNextTask (r\<lparr>rr_pos := rr_pos r + k\<rparr>) = Some r'
      \<and> holds (if rr_ridx r = 0 then r'\<lparr>rr_reply := Some (Obj p)\<rparr> else r') m' base (plug t fs) (drop k rest)"
proof -
  let ?r1 = "r\<lparr>rr_pos := rr_pos r + k\<rparr>"
  let ?r2 = "set_root (Some (Obj p)) ?r1"
  have R: "rr_ridx r = int (length fs)" "length fs < 9" "length (rr_rstack r) = 9" "wf_frames fs" "tasks (rr_rstack r) fs"
    "tk_idx (rr_rstack r ! length fs) = idx_of fs" "tk_parent (rr_rstack r ! length fs) = par_of fs"
    "rr_err r = 0" "rr_fn r = Some defaultFunctions" "rr_reply r = root_ptr fs" "input_is r rest"
    using assms(1) by (auto simp: reads_def frames_ok_def cur_ok_def Let_def)
  have rep: "(if rr_ridx r = 0 then Some (Obj p) else rr_reply r) = Some (Obj (root_addr (addr t) fs))"
    using R(1,10) assms(5) by (auto simp: root_ptr_def root_addr_def)
  have inp: "input_is ?r1 (drop k rest)" using input_advance [OF R(11) assms(4)] .
  have inp2: "input_is ?r2 (drop k rest)" using inp input_is_cong [of ?r2 ?r1] by simp
  obtain r' where r': "moveToNextTask ?r2 = Some r'" "after_move ?r2 (plug t fs) r'"
    using moveToNextTask_plug [of ?r2 fs t] R by auto
  have "holds r' m' base (plug t fs) (drop k rest)"
    by (rule after_move_holds [OF assms(1-3) r'(2)]) (use R rep inp2 in auto)
  then show "\<exists>r'. moveToNextTask ?r2 = Some r' \<and> holds r' m' base (plug t fs) (drop k rest)" using r'(1) by blast
  obtain r3 where r3: "moveToNextTask ?r1 = Some r3" "after_move ?r1 (plug t fs) r3"
    using moveToNextTask_plug [of ?r1 fs t] R by auto
  let ?r4 = "if rr_ridx r = 0 then r3\<lparr>rr_reply := Some (Obj p)\<rparr> else r3"
  obtain stack i where "r3 = ?r1\<lparr>rr_rstack := stack, rr_ridx := i\<rparr>" "length stack = length (rr_rstack r)"
      "case plug t fs of Done _ \<Rightarrow> i = -1 | More gs \<Rightarrow> i = int (length gs) \<and> tasks stack gs \<and> cur_ok stack gs (-1)"
    using r3(2) by (auto simp: after_move_def)
  then have "after_move ?r2 (plug t fs) ?r4" unfolding after_move_def
    by (intro exI [of _ stack] exI [of _ i]) (simp add: set_root_def)
  then have "holds ?r4 m' base (plug t fs) (drop k rest)"
    by (rule after_move_holds [OF assms(1-3)]) (use R rep inp2 in auto)
  then show "\<exists>r'. moveToNextTask ?r1 = Some r' \<and> holds (if rr_ridx r = 0 then r'\<lparr>rr_reply := Some (Obj p)\<rparr> else r') m' base (plug t fs) (drop k rest)"
    using r3(1) by blast
qed

text \<open>The arrays that are still open are one tree, freed from its root.\<close>

lemma free_root:
  assumes "frames_ok fs" "mem_is m base (stack_cells None fs)"
  shows "\<exists>m'. (case root_ptr fs of None \<Rightarrow> Some m | Some ob \<Rightarrow> freeReplyObject ob m) = Some m' \<and> mem_is m' base [] \<and> m_al m' = m_al m"
proof (cases "fs = []")
  case True
  then show ?thesis using assms by (simp add: root_ptr_def)
next
  case False
  then obtain u where u: "close_stack None fs = Some u" "addr u = root_addr 0 fs"
    using close_stack_root [OF False, of None] by auto
  have "mset (cells_of u @ []) = mset (stack_cells None fs)" using close_stack_cells [of None fs] u by simp
  then have "mem_is m base (cells_of u @ [])" using assms(2) mem_is_perm by blast
  moreover have "tree_ok u" using close_stack_ok [OF assms(1), of None] u by simp
  ultimately obtain m' where "freeReplyObject (Obj (addr u)) m = Some m'" "mem_is m' base []" "m_al m' = m_al m"
    using freeReplyObject_tree by blast
  then show ?thesis using False u by (simp add: root_ptr_def)
qed

lemma set_error_failed:
  assumes "rr_fn r = Some defaultFunctions" "rr_reply r = root_ptr fs" "rr_buf r \<noteq> None" "frames_ok fs"
    "mem_is m base (stack_cells None fs)"
  shows "\<exists>r' m'. redisReaderSetError r ty str m = Some (r', m') \<and> failed r' m' base ty \<and> rr_errstr r' = take 127 str
     \<and> m_al m' = m_al m"
proof -
  obtain m' where m': "(case root_ptr fs of None \<Rightarrow> Some m | Some ob \<Rightarrow> freeReplyObject ob m) = Some m'"
    "mem_is m' base []" "m_al m' = m_al m" using free_root [OF assms(4,5)] by blast
  have e: "(case (rr_reply r, rr_fn r) of
         (Some ob, Some fn) \<Rightarrow> (case freeObject fn of
             Some free \<Rightarrow> do { m \<leftarrow> free ob m; Some (r\<lparr>rr_reply := None\<rparr>, m) }
           | None \<Rightarrow> Some (r, m))
       | _ \<Rightarrow> Some (r, m)) = Some (r\<lparr>rr_reply := None\<rparr>, m')"
    using m'(1) assms(1,2) by (cases "root_ptr fs") (auto simp: defaultFunctions_def)
  obtain b where "rr_buf r = Some b" using assms(3) by auto
  then show ?thesis using m'(2,3) unfolding redisReaderSetError_def e by (simp add: failed_def Let_def)
qed

lemma redisReaderFree_reads:
  assumes "reads r m base fs ty rest"
  shows "\<exists>m'. redisReaderFree r m = Some m' \<and> mem_is m' base [] \<and> m_al m' = m_al m"
proof -
  obtain m' where "(case root_ptr fs of None \<Rightarrow> Some m | Some ob \<Rightarrow> freeReplyObject ob m) = Some m'" "mem_is m' base []"
    "m_al m' = m_al m" using free_root [of fs m base] assms by (auto simp: reads_def)
  then show ?thesis using assms by (cases "root_ptr fs") (auto simp: redisReaderFree_def reads_def defaultFunctions_def)
qed

section \<open>One item\<close>

datatype token =
    Wait                       \<comment> \<open>more input is needed\<close>
  | Leaf redisReply nat        \<comment> \<open>an object and how much input it takes\<close>
  | Open int nat               \<comment> \<open>the header of an array with elements\<close>

definition tok :: "int \<Rightarrow> string \<Rightarrow> token" where
  "tok ty s = (case find_crlf s of None \<Rightarrow> Wait
     | Some i \<Rightarrow>
         let v = line_value (take i s) in
         if ty = REDIS_REPLY_INTEGER then Leaf (int_cell v) (i + 2)
         else if ty = REDIS_REPLY_STRING then
           (if sint v < 0 then Leaf nil_cell (i + 2)
            else if i + 2 + unat v + 2 \<le> length s
              then Leaf (str_cell ty (take (unat v) (drop (i + 2) s))) (i + 2 + unat v + 2)
            else Wait)
         else if ty = REDIS_REPLY_ARRAY then
           (if v = - 1 then Leaf nil_cell (i + 2)
            else if sint v \<le> 0 then Leaf (count_cell (s32 (sint v))) (i + 2)
            else Open (s32 (sint v)) (i + 2))
         else Leaf (str_cell ty (take i s)) (i + 2))"

definition stepped ::
  "mem \<Rightarrow> heap \<Rightarrow> (int \<times> mem redisReader \<times> mem) option \<Rightarrow> (mem redisReader \<Rightarrow> mem \<Rightarrow> bool) \<Rightarrow> bool" where
  \<comment> \<open>the step was made, or an allocation failed and everything was given back\<close>
  "stepped m base res P \<longleftrightarrow> (\<exists>st r' m'. res = Some (st, r', m') \<and> set (m_al m') \<subseteq> set (m_al m)
     \<and> (st = REDIS_OK \<and> P r' m' \<or> st = REDIS_ERR \<and> failed r' m' base REDIS_ERR_OOM \<and> None \<in> set (m_al m)))"

lemma steppedI: "P r' m' \<Longrightarrow> set (m_al m') \<subseteq> set (m_al m) \<Longrightarrow> stepped m base (Some (REDIS_OK, r', m')) P"
  by (simp add: stepped_def)

lemma stepped_oom:
  assumes "reads r m base fs ty rest" "mem_is m1 base (stack_cells None fs)" "None \<in> set (m_al m)" "set (m_al m1) \<subseteq> set (m_al m)"
  shows "stepped m base (do { (r, m) \<leftarrow> redisReaderSetErrorOOM (r\<lparr>rr_pos := q\<rparr>) m1; Some (REDIS_ERR, r, m) }) P"
proof -
  have "rr_fn (r\<lparr>rr_pos := q\<rparr>) = Some defaultFunctions" "rr_reply (r\<lparr>rr_pos := q\<rparr>) = root_ptr fs"
    "rr_buf (r\<lparr>rr_pos := q\<rparr>) \<noteq> None" "frames_ok fs"
    using assms(1) by (auto simp: reads_def input_is_def)
  then obtain r' m' where "redisReaderSetError (r\<lparr>rr_pos := q\<rparr>) REDIS_ERR_OOM ''Out of memory'' m1 = Some (r', m')"
    "failed r' m' base REDIS_ERR_OOM" "m_al m' = m_al m1"
    using set_error_failed [OF _ _ _ _ assms(2)] by metis
  then show ?thesis using assms(3,4) by (auto simp: redisReaderSetErrorOOM_def stepped_def)
qed

lemma reads_facts:
  assumes "reads r m base fs ty rest"
  shows "nat (rr_ridx r) = length fs" "length fs < length (rr_rstack r)" "tk_type (rr_rstack r ! length fs) = ty"
    "Option.bind (rr_fn r) createInteger = Some createIntegerObject"
    "Option.bind (rr_fn r) createString = Some createStringObject"
    "Option.bind (rr_fn r) createNil = Some createNilObject"
    "Option.bind (rr_fn r) createArray = Some createArrayObject"
    "input_is r rest" "mem_is m base (stack_cells None fs)" "wf_frames fs" "tasks (rr_rstack r) fs" "cur_ok (rr_rstack r) fs ty"
    "length (rr_rstack r) = 9" "rr_ridx r = 0 \<longleftrightarrow> fs = []"
  using assms by (auto simp: reads_def frames_ok_def cur_ok_def Let_def defaultFunctions_def)

lemma created_leaf:
  assumes "reads r m base fs ty rest" "created m base fs c res" "leaf_ok c" "k \<le> length rest"
  shows "stepped m base (do {
      (ob, m) \<leftarrow> res;
      (case ob of
         None \<Rightarrow> do { (r, m) \<leftarrow> redisReaderSetErrorOOM (r\<lparr>rr_pos := q\<rparr>) m; Some (REDIS_ERR, r, m) }
       | Some _ \<Rightarrow> do { r \<leftarrow> moveToNextTask (set_root ob (r\<lparr>rr_pos := rr_pos r + k\<rparr>)); Some (REDIS_OK, r, m) }) })
    (\<lambda>r' m'. \<exists>p. holds r' m' base (plug (ALeaf p c) fs) (drop k rest))"
    and "stepped m base (do {
      (ob, m) \<leftarrow> res;
      (case ob of
         None \<Rightarrow> do { (r, m) \<leftarrow> redisReaderSetErrorOOM (r\<lparr>rr_pos := q\<rparr>) m; Some (REDIS_ERR, r, m) }
       | Some _ \<Rightarrow> do { r' \<leftarrow> moveToNextTask (r\<lparr>rr_pos := rr_pos r + k\<rparr>);
            Some (REDIS_OK, if rr_ridx r = 0 then r'\<lparr>rr_reply := ob\<rparr> else r', m) }) })
    (\<lambda>r' m'. \<exists>p. holds r' m' base (plug (ALeaf p c) fs) (drop k rest))"
proof -
  obtain ob m1 where res: "res = Some (ob, m1)" "set (m_al m1) \<subseteq> set (m_al m)"
    and ob: "case ob of None \<Rightarrow> None \<in> set (m_al m) \<and> mem_is m1 base (stack_cells None fs)
        | Some x \<Rightarrow> \<exists>p. x = Obj p \<and> mem_is m1 base ((p, c) # stack_cells (Some p) fs)"
    using assms(2) by (auto simp: created_def)
  note oom = stepped_oom [OF assms(1) _ _ res(2)]
  have ok: "(\<exists>r'. moveToNextTask (set_root (Some (Obj p)) (r\<lparr>rr_pos := rr_pos r + k\<rparr>)) = Some r'
        \<and> holds r' m1 base (plug (ALeaf p c) fs) (drop k rest))
      \<and> (\<exists>r'. moveToNextTask (r\<lparr>rr_pos := rr_pos r + k\<rparr>) = Some r'
        \<and> holds (if rr_ridx r = 0 then r'\<lparr>rr_reply := Some (Obj p)\<rparr> else r') m1 base (plug (ALeaf p c) fs) (drop k rest))"
    if "mem_is m1 base ((p, c) # stack_cells (Some p) fs)" for p
    using reads_move [OF assms(1), of m1 "ALeaf p c" k p] that assms(3,4) by simp
  show "stepped m base (do {
      (ob, m) \<leftarrow> res;
      (case ob of
         None \<Rightarrow> do { (r, m) \<leftarrow> redisReaderSetErrorOOM (r\<lparr>rr_pos := q\<rparr>) m; Some (REDIS_ERR, r, m) }
       | Some _ \<Rightarrow> do { r \<leftarrow> moveToNextTask (set_root ob (r\<lparr>rr_pos := rr_pos r + k\<rparr>)); Some (REDIS_OK, r, m) }) })
    (\<lambda>r' m'. \<exists>p. holds r' m' base (plug (ALeaf p c) fs) (drop k rest))"
  proof (cases ob)
    case None
    then show ?thesis using ob oom by (simp add: res)
  next
    case (Some x)
    then obtain p where "x = Obj p" "mem_is m1 base ((p, c) # stack_cells (Some p) fs)" using ob by auto
    then show ?thesis using ok [of p] res(2) Some by (auto simp: res(1) intro!: steppedI)
  qed
  show "stepped m base (do {
      (ob, m) \<leftarrow> res;
      (case ob of
         None \<Rightarrow> do { (r, m) \<leftarrow> redisReaderSetErrorOOM (r\<lparr>rr_pos := q\<rparr>) m; Some (REDIS_ERR, r, m) }
       | Some _ \<Rightarrow> do { r' \<leftarrow> moveToNextTask (r\<lparr>rr_pos := rr_pos r + k\<rparr>);
            Some (REDIS_OK, if rr_ridx r = 0 then r'\<lparr>rr_reply := ob\<rparr> else r', m) }) })
    (\<lambda>r' m'. \<exists>p. holds r' m' base (plug (ALeaf p c) fs) (drop k rest))"
  proof (cases ob)
    case None
    then show ?thesis using ob oom by (simp add: res)
  next
    case (Some x)
    then obtain p where "x = Obj p" "mem_is m1 base ((p, c) # stack_cells (Some p) fs)" using ob by auto
    moreover then obtain r' where "moveToNextTask (r\<lparr>rr_pos := rr_pos r + k\<rparr>) = Some r'"
      "holds (if rr_ridx r = 0 then r'\<lparr>rr_reply := Some (Obj p)\<rparr> else r') m1 base (plug (ALeaf p c) fs) (drop k rest)"
      using ok by blast
    ultimately show ?thesis using res(2) Some by (auto simp: res(1) intro!: steppedI)
  qed
qed

lemma line_prefix:
  assumes "find_crlf rest = Some i"
  shows "rest @ x = take i rest @ CR # LF # drop (i + 2) rest @ x" "i + 2 \<le> length rest"
    "readLongLong (rest @ x) = Some (line_value (take i rest))"
proof -
  have d: "drop i rest = CR # LF # drop (i + 2) rest" "i + 2 \<le> length rest" using find_crlf_Some [OF assms] by auto
  then have "rest = take i rest @ CR # LF # drop (i + 2) rest" by (metis append_take_drop_id)
  then show e: "rest @ x = take i rest @ CR # LF # drop (i + 2) rest @ x" by (metis append_Cons append_assoc)
  show "readLongLong (rest @ x) = Some (line_value (take i rest))" unfolding e by (rule readLongLong_line)
  show "i + 2 \<le> length rest" by (rule d(2))
qed

lemma processLineItem_tok:
  assumes "reads r m base fs ty rest" "ty \<in> {REDIS_REPLY_INTEGER, REDIS_REPLY_STATUS, REDIS_REPLY_ERROR}"
  shows "case tok ty rest of
      Leaf c k \<Rightarrow> stepped m base (processLineItem r m) (\<lambda>r' m'. \<exists>p. holds r' m' base (plug (ALeaf p c) fs) (drop k rest))
    | _ \<Rightarrow> tok ty rest = Wait \<and> processLineItem r m = Some (REDIS_ERR, r, m)"
proof -
  note R = reads_facts [OF assms(1)]
  obtain junk where line: "readLine r = Some (case find_crlf rest of None \<Rightarrow> (None, r)
      | Some i \<Rightarrow> (Some (rest @ NUL # junk, int i), r\<lparr>rr_pos := rr_pos r + (i + 2)\<rparr>))"
    using readLine_eq [OF R(8)] .
  show ?thesis
  proof (cases "find_crlf rest")
    case None
    then show ?thesis using line R(1,2) by (simp add: tok_def processLineItem_def Let_def)
  next
    case (Some i)
    note lp = line_prefix [OF Some]
    have small: "length rest < 2 ^ 31" using input_facts [OF R(8)] by metis
    have n: "nat (int i mod 2 ^ 64) = i" using lp(2) small by (simp add: nat_mod_distrib)
    define k where "k = i + 2"
    have line': "readLine r = Some (Some (rest @ NUL # junk, int i), r\<lparr>rr_pos := rr_pos r + k\<rparr>)"
      using line Some by (simp add: k_def)
    have k: "k \<le> length rest" using lp(2) by (simp add: k_def)
    show ?thesis
    proof (cases "ty = REDIS_REPLY_INTEGER")
      case True
      let ?c = "int_cell (line_value (take i rest))"
      have "created m base fs ?c (createIntegerObject (rr_rstack r) (length fs) (line_value (take i rest)) m)"
        using createInteger_created [OF R(9-12,2)] .
      moreover have "leaf_ok ?c" by (simp add: leaf_ok_def int_cell_def)
      moreover have "tok ty rest = Leaf ?c k" using True Some by (simp add: tok_def Let_def k_def)
      moreover have "processLineItem r m = (do {
          (ob, m) \<leftarrow> createIntegerObject (rr_rstack r) (length fs) (line_value (take i rest)) m;
          (case ob of
             None \<Rightarrow> do { (r, m) \<leftarrow> redisReaderSetErrorOOM (r\<lparr>rr_pos := rr_pos r + k\<rparr>) m; Some (REDIS_ERR, r, m) }
           | Some _ \<Rightarrow> do { r \<leftarrow> moveToNextTask (set_root ob (r\<lparr>rr_pos := rr_pos r + k\<rparr>)); Some (REDIS_OK, r, m) }) })"
        unfolding processLineItem_def Let_def line' using R(1,2,3,4) lp(3) True by simp
      ultimately show ?thesis using created_leaf(1) [OF assms(1), where q = "rr_pos r + k"] k by simp
    next
      case False
      then have ty: "ty \<in> {REDIS_REPLY_ERROR, REDIS_REPLY_STATUS, REDIS_REPLY_STRING}" using assms(2) by auto
      let ?c = "str_cell ty (take i rest)"
      have "created m base fs (str_cell ty (take i (rest @ NUL # junk))) (createStringObject (rr_rstack r) (length fs) (rest @ NUL # junk) i m)"
        using lp(2) small by (intro createString_created [OF R(9-12,2) ty]) auto
      then have "created m base fs ?c (createStringObject (rr_rstack r) (length fs) (rest @ NUL # junk) i m)"
        using lp(2) by simp
      moreover have "leaf_ok ?c" using ty by (auto simp: leaf_ok_def str_cell_def zero_reply_def)
      moreover have "tok ty rest = Leaf ?c k" using False assms(2) Some by (auto simp: tok_def Let_def k_def)
      moreover have "processLineItem r m = (do {
          (ob, m) \<leftarrow> createStringObject (rr_rstack r) (length fs) (rest @ NUL # junk) i m;
          (case ob of
             None \<Rightarrow> do { (r, m) \<leftarrow> redisReaderSetErrorOOM (r\<lparr>rr_pos := rr_pos r + k\<rparr>) m; Some (REDIS_ERR, r, m) }
           | Some _ \<Rightarrow> do { r \<leftarrow> moveToNextTask (set_root ob (r\<lparr>rr_pos := rr_pos r + k\<rparr>)); Some (REDIS_OK, r, m) }) })"
        unfolding processLineItem_def Let_def line' using R(1,2,3,5) n False by simp
      ultimately show ?thesis using created_leaf(1) [OF assms(1), where q = "rr_pos r + k"] k by simp
    qed
  qed
qed

lemma leaf_ok_simple: "ty \<noteq> REDIS_REPLY_ARRAY \<Longrightarrow> leaf_ok (str_cell ty s)" "leaf_ok (int_cell v)" "leaf_ok nil_cell"
  by (simp_all add: leaf_ok_def str_cell_def int_cell_def nil_cell_def zero_reply_def)

lemma leaf_ok_count: "k < 2 ^ 31 \<Longrightarrow> leaf_ok (count_cell k)"
  by (auto simp: leaf_ok_def count_cell_def zero_reply_def)

lemma processBulkItem_tok:
  assumes "reads r m base fs REDIS_REPLY_STRING rest"
  shows "case tok REDIS_REPLY_STRING rest of
      Leaf c k \<Rightarrow> stepped m base (processBulkItem r m) (\<lambda>r' m'. \<exists>p. holds r' m' base (plug (ALeaf p c) fs) (drop k rest))
    | _ \<Rightarrow> tok REDIS_REPLY_STRING rest = Wait \<and> processBulkItem r m = Some (REDIS_ERR, r, m)"
proof -
  note R = reads_facts [OF assms(1)]
  obtain junk where j: "at_pos r = Some (rest @ NUL # junk)" "sz_sub (rr_len r) (rr_pos r) = length rest"
    "length rest < 2 ^ 31" "rr_pos r + length rest = rr_len r" "rr_len r < 2 ^ 31"
    using input_facts [OF R(8)] .
  have sk: "seekNewline (rest @ NUL # junk) (length rest) = Some (find_crlf rest)" using seekNewline_eq [OF j(3)] .
  show ?thesis
  proof (cases "find_crlf rest")
    case None
    then show ?thesis using j(1,2) sk R(1,2) by (simp add: tok_def processBulkItem_def Let_def)
  next
    case (Some i)
    note lp = line_prefix [OF Some]
    define v where "v = line_value (take i rest)"
    define k where "k = i + 2"
    have k: "k \<le> length rest" using lp(2) by (simp add: k_def)
    have b: "nat (s32 (int i + 2) mod 2 ^ 64) = k" using lp(2) j(3) by (simp add: k_def s32_id nat_mod_distrib nat_add_distrib)
    have pk: "u64 (rr_pos r + k) = rr_pos r + k" using k j(4,5) by simp
    have body: "processBulkItem r m = (do {
          (res, bytelen) \<leftarrow>
            (if v <s 0 then do { x \<leftarrow> createNilObject (rr_rstack r) (length fs) m; Some (Some x, k) }
             else if u64 (rr_pos r + u64 (k + unat v + 2)) \<le> rr_len r then
               do { x \<leftarrow> createStringObject (rr_rstack r) (length fs) (drop k (rest @ NUL # junk)) (unat v) m; Some (Some x, u64 (k + unat v + 2)) }
             else Some (None, u64 (k + unat v + 2)));
          (case res of
             None \<Rightarrow> Some (REDIS_ERR, r, m)
           | Some (ob, m) \<Rightarrow>
               (case ob of
                  None \<Rightarrow> do { (r, m) \<leftarrow> redisReaderSetErrorOOM r m; Some (REDIS_ERR, r, m) }
                | Some _ \<Rightarrow> do {
                    r \<leftarrow> moveToNextTask (set_root ob (r\<lparr>rr_pos := u64 (rr_pos r + bytelen)\<rparr>));
                    Some (REDIS_OK, r, m)
                  })) })"
      unfolding processBulkItem_def Let_def R(1) j(1,2) Option.bind.bind_lunit sk Some option.case lp(3) b v_def [symmetric]
        R(5,6) k_def [symmetric] using R(2) by simp
    show ?thesis
    proof (cases "sint v < 0")
      case True
      have "tok REDIS_REPLY_STRING rest = Leaf nil_cell k" using True Some by (simp add: tok_def Let_def k_def v_def)
      moreover have "processBulkItem r m = (do {
          (ob, m) \<leftarrow> createNilObject (rr_rstack r) (length fs) m;
          (case ob of
             None \<Rightarrow> do { (r, m) \<leftarrow> redisReaderSetErrorOOM (r\<lparr>rr_pos := rr_pos r\<rparr>) m; Some (REDIS_ERR, r, m) }
           | Some _ \<Rightarrow> do { r \<leftarrow> moveToNextTask (set_root ob (r\<lparr>rr_pos := rr_pos r + k\<rparr>)); Some (REDIS_OK, r, m) }) })"
        unfolding body using True pk by (simp add: word_sless_alt split: bind_split)
      ultimately show ?thesis
        using created_leaf(1) [OF assms createNil_created [OF R(9-12,2)] leaf_ok_simple(3) k, of "rr_pos r"] by simp
    next
      case False
      have v63: "unat v < 2 ^ 63" using unat_nonneg_less [OF False] .
      define q where "q = k + unat v + 2"
      have q: "u64 (k + unat v + 2) = q" "u64 (rr_pos r + q) = rr_pos r + q"
        using v63 k j(3-5) by (simp_all add: q_def)
      have fits: "rr_pos r + q \<le> rr_len r \<longleftrightarrow> q \<le> length rest" using j(4) by linarith
      show ?thesis
      proof (cases "q \<le> length rest")
        case wait: False
        have "tok REDIS_REPLY_STRING rest = Wait" using wait False Some by (simp add: tok_def Let_def k_def v_def q_def)
        moreover have "processBulkItem r m = Some (REDIS_ERR, r, m)"
          unfolding body q using False wait fits q by (simp add: word_sless_alt)
        ultimately show ?thesis by simp
      next
        case True
        let ?c = "str_cell REDIS_REPLY_STRING (take (unat v) (drop k rest))"
        have t: "tok REDIS_REPLY_STRING rest = Leaf ?c q" using True False Some by (simp add: tok_def Let_def k_def v_def q_def)
        have n: "unat v \<le> length (drop k (rest @ NUL # junk))" "unat v < 2 ^ 31" using True k j(3) by (simp_all add: q_def)
        have d: "take (unat v) (drop k (rest @ NUL # junk)) = take (unat v) (drop k rest)" using True k by (simp add: q_def)
        have "created m base fs ?c (createStringObject (rr_rstack r) (length fs) (drop k (rest @ NUL # junk)) (unat v) m)"
          using createString_created [OF R(9-12,2) _ n] unfolding d by simp
        moreover have "processBulkItem r m = (do {
          (ob, m) \<leftarrow> createStringObject (rr_rstack r) (length fs) (drop k (rest @ NUL # junk)) (unat v) m;
          (case ob of
             None \<Rightarrow> do { (r, m) \<leftarrow> redisReaderSetErrorOOM (r\<lparr>rr_pos := rr_pos r\<rparr>) m; Some (REDIS_ERR, r, m) }
           | Some _ \<Rightarrow> do { r \<leftarrow> moveToNextTask (set_root ob (r\<lparr>rr_pos := rr_pos r + q\<rparr>)); Some (REDIS_OK, r, m) }) })"
          unfolding body q(1) using False True fits q by (simp add: word_sless_alt split: bind_split)
        ultimately show ?thesis
          using created_leaf(1) [OF assms _ leaf_ok_simple(1) True, where q = "rr_pos r"] t by simp
      qed
    qed
  qed
qed

lemma push_reads:
  assumes "reads r m base fs REDIS_REPLY_ARRAY rest" "length fs < 8" "k \<le> length rest" "0 < n" "n < 2 ^ 31"
    "mem_is m1 base ((p, count_cell n) # stack_cells (Some p) fs)"
  shows "\<exists>r'. push_task (r\<lparr>rr_pos := rr_pos r + k\<rparr>) (length fs) n (Some (Obj p)) = Some r'
    \<and> reads (if rr_ridx r = 0 then r'\<lparr>rr_reply := Some (Obj p)\<rparr> else r') m1 base (Frame p [] (nat n) # fs) (-1) (drop k rest)"
proof -
  note R = reads_facts [OF assms(1)]
  have r: "rr_err r = 0" "rr_fn r = Some defaultFunctions" "rr_ridx r = int (length fs)" "frames_ok fs" "rr_reply r = root_ptr fs"
    using assms(1) by (auto simp: reads_def)
  let ?r1 = "r\<lparr>rr_pos := rr_pos r + k\<rparr>" and ?f = "Frame p [] (nat n)" and ?l = "length fs"
  let ?st1 = "(rr_rstack r)[?l := (rr_rstack r ! ?l)\<lparr>tk_elements := n, tk_obj := Some (Obj p)\<rparr>]"
  let ?st = "?st1[?l + 1 := \<lparr>tk_type = -1, tk_elements = -1, tk_idx = 0, tk_obj = None,
      tk_parent = Some ?l, tk_privdata = rr_privdata r\<rparr>]"
  let ?r' = "?r1\<lparr>rr_ridx := rr_ridx r + 1, rr_rstack := ?st\<rparr>"
  let ?r2 = "if rr_ridx r = 0 then ?r'\<lparr>rr_reply := Some (Obj p)\<rparr> else ?r'"
  have push: "push_task ?r1 ?l n (Some (Obj p)) = Some ?r'" using R(13) assms(2) by (simp add: push_task_def Let_def)
  have inp: "input_is ?r2 (drop k rest)" using input_advance [OF R(8) assms(3)] input_is_cong [of ?r2 ?r1] by simp
  have fok: "frames_ok (?f # fs)" using r(4) assms(4,5) by (auto simp: frames_ok_def wf_frames_def)
  have cell: "count_cell n = arr_cell (pad (nat n) [])" using assms(4,5)
    by (simp add: count_cell_def arr_cell_def pad_def zero_reply_def)
  have mem: "mem_is m1 base (stack_cells None (?f # fs))" using assms(6) by (simp add: frame_cells_def cell)
  have ts: "tasks ?st (?f # fs)" using R(2,3,11,12,13) assms(2,4) by (simp add: Let_def cur_ok_def tasks_upd)
  have cu: "cur_ok ?st (?f # fs) (-1)" using R(13) assms(2) by (simp add: cur_ok_def Let_def par_of_def)
  have rp: "rr_reply ?r2 = root_ptr (?f # fs)" using r(3,5) by (simp add: root_ptr_def root_addr_def)
  have "reads ?r2 m1 base (?f # fs) (-1) (drop k rest)"
    unfolding reads_def using inp fok mem ts cu rp r R(13) assms(2) by (cases "rr_ridx r = 0") simp_all
  then show ?thesis using push by blast
qed

lemma processMultiBulkItem_tok:
  assumes "reads r m base fs REDIS_REPLY_ARRAY rest" "length fs < 8"
  shows "case tok REDIS_REPLY_ARRAY rest of
      Wait \<Rightarrow> processMultiBulkItem r m = Some (REDIS_ERR, r, m)
    | Leaf c k \<Rightarrow> stepped m base (processMultiBulkItem r m) (\<lambda>r' m'. \<exists>p. holds r' m' base (plug (ALeaf p c) fs) (drop k rest))
    | Open n k \<Rightarrow> 0 < n \<longrightarrow> stepped m base (processMultiBulkItem r m)
        (\<lambda>r' m'. \<exists>p. reads r' m' base (Frame p [] (nat n) # fs) (-1) (drop k rest))"
proof -
  note R = reads_facts [OF assms(1)]
  have ridx: "rr_ridx r \<noteq> 8" using assms by (auto simp: reads_def)
  obtain junk where line: "readLine r = Some (case find_crlf rest of None \<Rightarrow> (None, r)
      | Some i \<Rightarrow> (Some (rest @ NUL # junk, int i), r\<lparr>rr_pos := rr_pos r + (i + 2)\<rparr>))"
    using readLine_eq [OF R(8)] .
  show ?thesis
  proof (cases "find_crlf rest")
    case None
    then show ?thesis using line R(1,2) ridx by (simp add: tok_def processMultiBulkItem_def Let_def)
  next
    case (Some i)
    note lp = line_prefix [OF Some]
    define k where "k = i + 2"
    define v where "v = line_value (take i rest)"
    have line': "readLine r = Some (Some (rest @ NUL # junk, int i), r\<lparr>rr_pos := rr_pos r + k\<rparr>)"
      using line Some by (simp add: k_def)
    have k: "k \<le> length rest" using lp(2) by (simp add: k_def)
    define n where "n = s32 (sint v)"
    have n31: "n < 2 ^ 31" using s32_range [of "sint v"] by (simp add: n_def)
    define mk where "mk = (if v = - 1 then createNilObject (rr_rstack r) (length fs) m
        else createArrayObject (rr_rstack r) (length fs) n m)"
    have body: "processMultiBulkItem r m = (do {
        (ob, m) \<leftarrow> mk;
        (case ob of
           None \<Rightarrow> do { (r, m) \<leftarrow> redisReaderSetErrorOOM (r\<lparr>rr_pos := rr_pos r + k\<rparr>) m; Some (REDIS_ERR, r, m) }
         | Some _ \<Rightarrow> do { r' \<leftarrow> (if v \<noteq> - 1 \<and> 0 <s v then push_task (r\<lparr>rr_pos := rr_pos r + k\<rparr>) (length fs) n ob
                else moveToNextTask (r\<lparr>rr_pos := rr_pos r + k\<rparr>));
              Some (REDIS_OK, if rr_ridx r = 0 then r'\<lparr>rr_reply := ob\<rparr> else r', m) }) })"
    proof -
      have sel: "rr_ridx (r\<lparr>rr_pos := q\<rparr>) = rr_ridx r" "rr_rstack (r\<lparr>rr_pos := q\<rparr>) = rr_rstack r" "rr_fn (r\<lparr>rr_pos := q\<rparr>) = rr_fn r" for q
        by simp_all
      have req: "require (length fs < length (rr_rstack r)) = Some ()" using R(2) by simp
      have nr: "(rr_ridx r = 8) = False" using ridx by simp
      show ?thesis
        unfolding processMultiBulkItem_def Let_def nr if_False R(1) req Option.bind.bind_lunit line' prod.case option.case
          lp(3) v_def [symmetric] n_def [symmetric] sel R(6,7) mk_def by (rule refl)
    qed
    have tok: "tok REDIS_REPLY_ARRAY rest = (if v = - 1 then Leaf nil_cell k
        else if sint v \<le> 0 then Leaf (count_cell n) k else Open n k)"
      using Some by (simp add: tok_def Let_def k_def v_def n_def)
    have s: "0 <s v \<longleftrightarrow> \<not> sint v \<le> 0" by (simp add: word_sless_alt not_le)
    consider (nil) "v = - 1" | (empty) "v \<noteq> - 1" "sint v \<le> 0" | (opn) "v \<noteq> - 1" "\<not> sint v \<le> 0" by blast
    then show ?thesis
    proof cases
      case nil
      have "created m base fs nil_cell mk" using createNil_created [OF R(9-12,2)] nil by (simp add: mk_def)
      moreover have c: "(v \<noteq> - 1 \<and> 0 <s v) = False" using nil by simp
      ultimately show ?thesis using created_leaf(2) [OF assms(1) _ leaf_ok_simple(3) k, where q = "rr_pos r + k"] nil
        unfolding tok body c if_False by simp
    next
      case empty
      have "created m base fs (count_cell n) mk" using createArray_created [OF R(9-12,2)] empty by (simp add: mk_def)
      moreover have c: "(v \<noteq> - 1 \<and> 0 <s v) = False" using empty s by simp
      ultimately show ?thesis using created_leaf(2) [OF assms(1) _ leaf_ok_count [OF n31] k, where q = "rr_pos r + k"] empty
        unfolding tok body c if_False by simp
    next
      case opn
      have "created m base fs (count_cell n) mk" using createArray_created [OF R(9-12,2)] opn by (simp add: mk_def)
      then obtain ob m1 where mk: "mk = Some (ob, m1)" "set (m_al m1) \<subseteq> set (m_al m)"
        and ob: "case ob of None \<Rightarrow> None \<in> set (m_al m) \<and> mem_is m1 base (stack_cells None fs)
        | Some x \<Rightarrow> \<exists>p. x = Obj p \<and> mem_is m1 base ((p, count_cell n) # stack_cells (Some p) fs)"
        by (auto simp: created_def)
      have "stepped m base (processMultiBulkItem r m)
        (\<lambda>r' m'. \<exists>p. reads r' m' base (Frame p [] (nat n) # fs) (-1) (drop k rest))" if "0 < n"
      proof (cases ob)
        case None
        then show ?thesis using stepped_oom [OF assms(1), of m1] ob mk by (simp add: body)
      next
        case (Some x)
        then obtain p where p: "ob = Some (Obj p)" "mem_is m1 base ((p, count_cell n) # stack_cells (Some p) fs)" using ob by auto
        then obtain r' where "push_task (r\<lparr>rr_pos := rr_pos r + k\<rparr>) (length fs) n (Some (Obj p)) = Some r'"
          "reads (if rr_ridx r = 0 then r'\<lparr>rr_reply := Some (Obj p)\<rparr> else r') m1 base (Frame p [] (nat n) # fs) (-1) (drop k rest)"
          using push_reads [OF assms k \<open>0 < n\<close> n31] by blast
        then show ?thesis using mk p(1) opn by (auto simp: body s intro!: steppedI)
      qed
      then show ?thesis using opn by (simp add: tok)
    qed
  qed
qed

lemma processMultiBulkItem_deep:
  assumes "reads r m base fs REDIS_REPLY_ARRAY rest" "length fs = 8"
  shows "\<exists>r' m'. processMultiBulkItem r m = Some (REDIS_ERR, r', m') \<and> failed r' m' base REDIS_ERR_PROTOCOL
    \<and> rr_errstr r' = ''No support for nested multi bulk replies with depth > 7'' \<and> m_al m' = m_al m"
proof -
  have "rr_fn r = Some defaultFunctions" "rr_reply r = root_ptr fs" "rr_buf r \<noteq> None" "frames_ok fs" "rr_ridx r = 8"
    "mem_is m base (stack_cells None fs)"
    using assms by (auto simp: reads_def input_is_def)
  then obtain r' m' where "redisReaderSetError r REDIS_ERR_PROTOCOL ''No support for nested multi bulk replies with depth > 7'' m = Some (r', m')"
    "failed r' m' base REDIS_ERR_PROTOCOL" "rr_errstr r' = take 127 ''No support for nested multi bulk replies with depth > 7''"
    "m_al m' = m_al m"
    using set_error_failed [of r fs m base REDIS_ERR_PROTOCOL] by blast
  then show ?thesis using \<open>rr_ridx r = 8\<close> by (simp add: processMultiBulkItem_def)
qed

datatype item =
    IWait int string           \<comment> \<open>the type of the item if its byte was read, the input left\<close>
  | ILeaf redisReply string
  | IOpen int string
  | IErr string

definition deep_msg :: string where
  "deep_msg = ''No support for nested multi bulk replies with depth > 7''"

definition byte_msg :: "char \<Rightarrow> string" where
  "byte_msg c = ''Protocol error, got '' @ chrtos c @ '' as reply type byte''"

definition typed :: "nat \<Rightarrow> int \<Rightarrow> string \<Rightarrow> item" where
  "typed d ty s =
     (if ty = REDIS_REPLY_ARRAY \<and> d = 8 then IErr deep_msg
      else (case tok ty s of Wait \<Rightarrow> IWait ty s | Leaf c k \<Rightarrow> ILeaf c (drop k s) | Open n k \<Rightarrow> IOpen n (drop k s)))"

definition item :: "nat \<Rightarrow> int \<Rightarrow> string \<Rightarrow> item" where
  \<comment> \<open>one item inside \<open>d\<close> open arrays\<close>
  "item d ty s =
     (if ty = -1 then
        (case s of [] \<Rightarrow> IWait (-1) []
         | c # s' \<Rightarrow> (case type_of_byte c of None \<Rightarrow> IErr (byte_msg c) | Some t \<Rightarrow> typed d t s'))
      else typed d ty s)"

definition item_types :: "int set" where
  "item_types = {REDIS_REPLY_STRING, REDIS_REPLY_ARRAY, REDIS_REPLY_INTEGER, REDIS_REPLY_STATUS, REDIS_REPLY_ERROR}"

definition item_done ::
  "mem \<Rightarrow> heap \<Rightarrow> frame list \<Rightarrow> item \<Rightarrow> (int \<times> mem redisReader \<times> mem) option \<Rightarrow> bool" where
  "item_done m base fs it res \<longleftrightarrow>
     (case it of
        IWait ty' rest' \<Rightarrow> \<exists>r'. res = Some (REDIS_ERR, r', m) \<and> reads r' m base fs ty' rest'
      | ILeaf c rest' \<Rightarrow> stepped m base res (\<lambda>r' m'. \<exists>p. holds r' m' base (plug (ALeaf p c) fs) rest')
      | IOpen n rest' \<Rightarrow> 0 < n \<longrightarrow> stepped m base res (\<lambda>r' m'. \<exists>p. reads r' m' base (Frame p [] (nat n) # fs) (-1) rest')
      | IErr e \<Rightarrow> \<exists>r' m'. res = Some (REDIS_ERR, r', m') \<and> failed r' m' base REDIS_ERR_PROTOCOL \<and> rr_errstr r' = e
          \<and> m_al m' = m_al m)"

lemma tok_not_Open: "ty \<noteq> REDIS_REPLY_ARRAY \<Longrightarrow> tok ty s \<noteq> Open n k"
  by (auto simp: tok_def Let_def split: option.splits if_splits)

lemma processTyped_typed:
  assumes "reads r m base fs ty rest" "ty \<in> item_types"
  shows "item_done m base fs (typed (length fs) ty rest) (processTyped r m)"
proof -
  note R = reads_facts [OF assms(1)]
  consider (line) "ty \<in> {REDIS_REPLY_INTEGER, REDIS_REPLY_STATUS, REDIS_REPLY_ERROR}" | (bulk) "ty = REDIS_REPLY_STRING"
    | (arr) "ty = REDIS_REPLY_ARRAY" "length fs < 8" | (deep) "ty = REDIS_REPLY_ARRAY" "length fs = 8"
    using assms by (fastforce simp: item_types_def reads_def)
  then show ?thesis
  proof cases
    case line
    then have "processTyped r m = processLineItem r m" using R(1,3) by (auto simp: processTyped_def Let_def)
    then show ?thesis using processLineItem_tok [OF assms(1) line] assms(1) line tok_not_Open [of ty rest]
      by (auto simp: item_done_def typed_def split: token.splits)
  next
    case bulk
    then have "processTyped r m = processBulkItem r m" using R(1,3) by (auto simp: processTyped_def Let_def)
    then show ?thesis using processBulkItem_tok [of r m base fs rest] assms(1) bulk tok_not_Open [of ty rest]
      by (auto simp: item_done_def typed_def split: token.splits)
  next
    case arr
    then have "processTyped r m = processMultiBulkItem r m" using R(1,3) by (auto simp: processTyped_def Let_def)
    then show ?thesis using processMultiBulkItem_tok [of r m base fs rest] assms(1) arr
      by (auto simp: item_done_def typed_def split: token.splits)
  next
    case deep
    then have "processTyped r m = processMultiBulkItem r m" using R(1,3) by (auto simp: processTyped_def Let_def)
    then show ?thesis using processMultiBulkItem_deep [of r m base fs rest] assms(1) deep
      by (auto simp: item_done_def typed_def deep_msg_def)
  qed
qed

lemma type_of_byte_item: "type_of_byte c = Some ty \<Longrightarrow> ty \<in> item_types"
  by (auto simp: type_of_byte_def item_types_def split: if_splits)

lemma length_chrtos: "length (chrtos c) \<le> 6"
  by (simp add: chrtos_def)

lemma processItem_item:
  assumes "reads r m base fs ty rest" "ty = -1 \<or> ty \<in> item_types"
  shows "item_done m base fs (item (length fs) ty rest) (processItem r m)"
proof (cases "ty = -1")
  case False
  then have ty: "ty \<in> item_types" using assms(2) by blast
  then have "\<not> ty < 0" by (auto simp: item_types_def)
  then have "processItem r m = processTyped r m" using reads_facts [OF assms(1)] by (simp add: processItem_def Let_def)
  then show ?thesis using processTyped_typed [OF assms(1) ty] False by (simp add: item_def)
next
  case True
  note R = reads_facts [OF assms(1)]
  have r: "rr_err r = 0" "rr_fn r = Some defaultFunctions" "rr_ridx r = int (length fs)" "frames_ok fs" "rr_reply r = root_ptr fs"
     "length fs \<le> 8"
    using assms(1) by (auto simp: reads_def)
  obtain junk where j: "at_pos r = Some (rest @ NUL # junk)" "sz_sub (rr_len r) (rr_pos r) = length rest"
    "length rest < 2 ^ 31" "rr_pos r + length rest = rr_len r" "rr_len r < 2 ^ 31"
    using input_facts [OF R(8)] .
  show ?thesis
  proof (cases rest)
    case Nil
    then have "processItem r m = Some (REDIS_ERR, r, m)"
      using R(1,2,3) True j by (simp add: processItem_def readBytes_def Let_def)
    then show ?thesis using True Nil assms(1) by (auto simp: item_def item_done_def)
  next
    case (Cons c s)
    define r1 where "r1 = r\<lparr>rr_pos := rr_pos r + 1\<rparr>"
    have rb: "readBytes r 1 = Some (Some (rest @ NUL # junk), r1)" using j Cons by (simp add: readBytes_def r1_def)
    have inp: "input_is r1 s" using input_advance [OF R(8), of 1] Cons by (simp add: r1_def)
    have pi: "processItem r m = (case type_of_byte c of
               Some ty \<Rightarrow> processTyped (set_cur_type r1 (length fs) ty) m
             | None \<Rightarrow> do { (r, m) \<leftarrow> redisReaderSetErrorProtocolByte r1 c m; Some (REDIS_ERR, r, m) })"
      using R(1,2,3) True rb [unfolded Cons One_nat_def] Cons by (simp add: processItem_def rd_def Let_def)
    show ?thesis
    proof (cases "type_of_byte c")
      case None
      have "take 127 (''Protocol error, got '' @ take 7 (chrtos c) @ '' as reply type byte'') = byte_msg c"
        using length_chrtos [of c] by (simp add: byte_msg_def)
      moreover have "take 127 (byte_msg c) = byte_msg c" using length_chrtos [of c] by (simp add: byte_msg_def)
      moreover have "rr_fn r1 = Some defaultFunctions" "rr_reply r1 = root_ptr fs" "rr_buf r1 \<noteq> None"
        using r R(8) by (auto simp: input_is_def r1_def)
      then obtain r' m' where "redisReaderSetError r1 REDIS_ERR_PROTOCOL (byte_msg c) m = Some (r', m')"
        "failed r' m' base REDIS_ERR_PROTOCOL" "rr_errstr r' = take 127 (byte_msg c)" "m_al m' = m_al m"
        using set_error_failed [OF _ _ _ r(4) R(9)] by metis
      ultimately show ?thesis using None True Cons
        by (simp add: pi item_def item_done_def redisReaderSetErrorProtocolByte_def)
    next
      case (Some t)
      let ?r2 = "set_cur_type r1 (length fs) t"
      have "reads ?r2 m base fs t s"
        using r inp R(2,9,10-13) input_is_cong [of ?r2 r1]
        by (simp add: r1_def reads_def set_cur_type_def tasks_upd cur_ok_def Let_def)
      then show ?thesis using processTyped_typed [of ?r2 m base fs t s] type_of_byte_item [OF Some] Some True Cons
        by (simp add: pi item_def)
    qed
  qed
qed

section \<open>More input does not change what was read\<close>

lemma take_crlf_append: "find_crlf s = Some i \<Longrightarrow> take i (s @ x) = take i s"
  using find_crlf_Some [of s i] by simp

lemma tok_append:
  "case tok ty s of Wait \<Rightarrow> True | t \<Rightarrow> tok ty (s @ x) = t"
proof (cases "find_crlf s")
  case None
  then show ?thesis by (simp add: tok_def)
next
  case (Some i)
  have "i + 2 \<le> length s" using find_crlf_Some [OF Some] by blast
  then show ?thesis using Some find_crlf_append [OF Some, of x] take_crlf_append [OF Some, of x]
    by (auto simp: tok_def Let_def)
qed

lemma tok_consumes:
  "case tok ty s of Wait \<Rightarrow> True | Leaf c k \<Rightarrow> 2 \<le> k \<and> k \<le> length s | Open n k \<Rightarrow> 2 \<le> k \<and> k \<le> length s"
  by (auto simp: tok_def Let_def dest: find_crlf_Some split: option.splits)

lemma typed_append:
  "case typed d ty s of
     IWait t r \<Rightarrow> t = ty \<and> r = s
   | ILeaf c r \<Rightarrow> typed d ty (s @ x) = ILeaf c (r @ x) \<and> length r < length s
   | IOpen n r \<Rightarrow> typed d ty (s @ x) = IOpen n (r @ x) \<and> length r < length s
   | IErr e \<Rightarrow> typed d ty (s @ x) = IErr e"
  using tok_append [where ty = ty and s = s and x = x] tok_consumes [where ty = ty and s = s]
  by (auto simp: typed_def split: token.splits)

lemma item_append:
  "case item d ty s of
     IWait t r \<Rightarrow> (ty = -1 \<or> ty \<in> item_types \<longrightarrow> t = -1 \<or> t \<in> item_types) \<and> item d ty (s @ x) = item d t (r @ x)
   | ILeaf c r \<Rightarrow> item d ty (s @ x) = ILeaf c (r @ x) \<and> length r < length s
   | IOpen n r \<Rightarrow> item d ty (s @ x) = IOpen n (r @ x) \<and> length r < length s
   | IErr e \<Rightarrow> item d ty (s @ x) = IErr e"
proof (cases "ty = -1")
  case False
  then show ?thesis using typed_append [where d = d and ty = ty and s = s and x = x] by (auto simp: item_def split: item.splits)
next
  case True
  show ?thesis
  proof (cases s)
    case Nil
    then show ?thesis using True by (simp add: item_def)
  next
    case (Cons c s')
    show ?thesis
    proof (cases "type_of_byte c")
      case None
      then show ?thesis using True Cons by (simp add: item_def)
    next
      case (Some t)
      have "t \<in> item_types" using type_of_byte_item [OF Some] .
      moreover then have "t \<noteq> -1" by (auto simp: item_types_def)
      ultimately show ?thesis using True Cons Some typed_append [where d = d and ty = t and s = s' and x = x]
        by (auto simp: item_def split: item.splits)
    qed
  qed
qed

section \<open>A whole reply\<close>

datatype reply =
    RLeaf redisReply
  | RArr "reply list"

fun erase :: "atree \<Rightarrow> reply" where
  \<comment> \<open>the content of a tree of objects, without addresses\<close>
  "erase (ALeaf p c) = RLeaf c"
| "erase (AArr p ts) = RArr (concat (map (case_option [] (\<lambda>u. [erase u])) ts))"

definition efr :: "frame \<Rightarrow> reply list \<times> nat" where
  "efr f = (map erase (fr_done f), fr_total f)"

datatype apst = ADone reply | AMore "(reply list \<times> nat) list"

fun aplug :: "reply \<Rightarrow> (reply list \<times> nat) list \<Rightarrow> apst" where
  "aplug t [] = ADone t"
| "aplug t ((d, n) # fs) =
     (if Suc (length d) = n then aplug (RArr (d @ [t])) fs else AMore ((d @ [t], n) # fs))"

definition epst :: "pstate \<Rightarrow> apst" where
  "epst st = (case st of Done t \<Rightarrow> ADone (erase t) | More fs \<Rightarrow> AMore (map efr fs))"

lemma concat_Some: "concat (map ((case_option [] (\<lambda>u. [f u])) \<circ> Some) ts) = map f ts"
  by (induction ts) auto

lemma epst_plug: "epst (plug t fs) = aplug (erase t) (map efr fs)"
proof (induction t fs rule: plug.induct)
  case (2 t a d n fs)
  have "erase (AArr a (map Some (d @ [t]))) = RArr (map erase d @ [erase t])"
    using concat_Some [of erase d] by simp
  then show ?case using 2 by (auto simp: efr_def epst_def)
qed (simp add: epst_def)

datatype outcome =
    OWait "(reply list \<times> nat) list" int string   \<comment> \<open>in the middle of a reply\<close>
  | ODone reply string                            \<comment> \<open>a reply and the input after it\<close>
  | OErr string                                   \<comment> \<open>a protocol error with its message\<close>
  | OBad                                          \<comment> \<open>an element count whose \<open>int\<close> is not positive\<close>

lemma item_less:
  "item d ty s = ILeaf c r \<Longrightarrow> length r < length s" "item d ty s = IOpen n r \<Longrightarrow> length r < length s"
  using item_append [where d = d and ty = ty and s = s and x = "[]"] by auto

function arun :: "(reply list \<times> nat) list \<Rightarrow> int \<Rightarrow> string \<Rightarrow> outcome" where
  "arun fs ty s =
     (case item (length fs) ty s of
        IWait t r \<Rightarrow> OWait fs t r
      | IErr e \<Rightarrow> OErr e
      | ILeaf c r \<Rightarrow> (case aplug (RLeaf c) fs of ADone t \<Rightarrow> ODone t r | AMore gs \<Rightarrow> arun gs (-1) r)
      | IOpen n r \<Rightarrow> if n \<le> 0 then OBad else arun (([], nat n) # fs) (-1) r)"
  by pat_completeness auto
termination
  by (relation "measure (\<lambda>(fs, ty, s). length s)") (auto dest: item_less)

declare arun.simps [simp del]

lemma arun_append:
  "arun fs ty (s @ x) =
     (case arun fs ty s of
        OWait gs t r \<Rightarrow> arun gs t (r @ x) | ODone u r \<Rightarrow> ODone u (r @ x) | OErr e \<Rightarrow> OErr e | OBad \<Rightarrow> OBad)"
proof (induction fs ty s rule: arun.induct)
  case (1 fs ty s)
  note ia = item_append [where d = "length fs" and ty = ty and s = s and x = x]
  show ?case
  proof (cases "item (length fs) ty s")
    case (IWait t r)
    then have i: "item (length fs) ty (s @ x) = item (length fs) t (r @ x)" using ia by simp
    have "arun fs ty (s @ x) = arun fs t (r @ x)"
      using arun.simps [of fs ty "s @ x"] arun.simps [of fs t "r @ x"] unfolding i by simp
    moreover have "arun fs ty s = OWait fs t r" using IWait by (subst arun.simps) simp
    ultimately show ?thesis by simp
  next
    case (IErr e)
    then have i: "item (length fs) ty (s @ x) = IErr e" using ia by simp
    have "arun fs ty (s @ x) = OErr e" "arun fs ty s = OErr e" using IErr i by (simp_all add: arun.simps [of fs ty])
    then show ?thesis by simp
  next
    case (ILeaf c r)
    then have i: "item (length fs) ty (s @ x) = ILeaf c (r @ x)" using ia by simp
    show ?thesis
    proof (cases "aplug (RLeaf c) fs")
      case (ADone t)
      have "arun fs ty (s @ x) = ODone t (r @ x)" "arun fs ty s = ODone t r"
        using ILeaf i ADone by (simp_all add: arun.simps [of fs ty])
      then show ?thesis by simp
    next
      case (AMore gs)
      have "arun fs ty (s @ x) = arun gs (-1) (r @ x)" "arun fs ty s = arun gs (-1) r"
        using ILeaf i AMore by (simp_all add: arun.simps [of fs ty])
      then show ?thesis using 1(1) [OF ILeaf AMore] by simp
    qed
  next
    case (IOpen n r)
    then have i: "item (length fs) ty (s @ x) = IOpen n (r @ x)" using ia by simp
    show ?thesis
    proof (cases "n \<le> 0")
      case True
      have "arun fs ty (s @ x) = OBad" "arun fs ty s = OBad" using IOpen i True by (simp_all add: arun.simps [of fs ty])
      then show ?thesis by simp
    next
      case False
      have "arun fs ty (s @ x) = arun (([], nat n) # fs) (-1) (r @ x)" "arun fs ty s = arun (([], nat n) # fs) (-1) r"
        using IOpen i False by (simp_all add: arun.simps [of fs ty])
      then show ?thesis using 1(2) [OF IOpen False] by simp
    qed
  qed
qed

section \<open>The loop of the code runs the machine\<close>

definition loop_done ::
  "mem \<Rightarrow> heap \<Rightarrow> outcome \<Rightarrow> (mem redisReader \<times> mem) option \<Rightarrow> bool" where
  "loop_done m base out res \<longleftrightarrow> (\<exists>r' m'. res = Some (r', m') \<and> set (m_al m') \<subseteq> set (m_al m)
     \<and> (failed r' m' base REDIS_ERR_OOM \<and> None \<in> set (m_al m)
        \<or> (case out of
             OWait afs t rest \<Rightarrow> \<exists>fs. map efr fs = afs \<and> (t = -1 \<or> t \<in> item_types) \<and> reads r' m' base fs t rest
           | ODone u rest \<Rightarrow> \<exists>t. erase t = u \<and> finished r' m' base t rest
           | OErr e \<Rightarrow> failed r' m' base REDIS_ERR_PROTOCOL \<and> rr_errstr r' = e
           | OBad \<Rightarrow> False)))"

lemma loop_done_mono: "loop_done m1 base out res \<Longrightarrow> set (m_al m1) \<subseteq> set (m_al m) \<Longrightarrow> loop_done m base out res"
  unfolding loop_done_def by blast

lemma loop_done_finished: "finished r m1 base t rest \<Longrightarrow> set (m_al m1) \<subseteq> set (m_al m) \<Longrightarrow>
    loop_done m base (ODone (erase t) rest) (process_loop r m1)"
  by (subst process_loop.simps) (auto simp: loop_done_def finished_def)

lemma process_loop_stop:
  "rr_ridx r \<ge> 0 \<Longrightarrow> processItem r m = Some (REDIS_ERR, r', m') \<Longrightarrow> process_loop r m = Some (r', m')"
  by (subst process_loop.simps) simp

lemma process_loop_step:
  "rr_ridx r \<ge> 0 \<Longrightarrow> processItem r m = Some (REDIS_OK, r', m') \<Longrightarrow> process_loop r m = process_loop r' m'"
  by (subst process_loop.simps) simp

lemma stepped_loop:
  assumes "rr_ridx r \<ge> 0" "stepped m base (processItem r m) P"
    and "\<And>r' m'. P r' m' \<Longrightarrow> set (m_al m') \<subseteq> set (m_al m) \<Longrightarrow> loop_done m base out (process_loop r' m')"
  shows "loop_done m base out (process_loop r m)"
proof -
  obtain st r' m' where s: "processItem r m = Some (st, r', m')" "set (m_al m') \<subseteq> set (m_al m)"
    "st = REDIS_OK \<and> P r' m' \<or> st = REDIS_ERR \<and> failed r' m' base REDIS_ERR_OOM \<and> None \<in> set (m_al m)"
    using assms(2) by (auto simp: stepped_def)
  from s(3) show ?thesis
  proof (elim disjE conjE)
    assume "st = REDIS_OK" "P r' m'"
    then show ?thesis using assms(3) [of r' m'] s(1,2) process_loop_step [OF assms(1)] by simp
  next
    assume "st = REDIS_ERR" "failed r' m' base REDIS_ERR_OOM" "None \<in> set (m_al m)"
    then show ?thesis using s(1,2) process_loop_stop [OF assms(1)] by (auto simp: loop_done_def)
  qed
qed

lemma process_loop_arun:
  assumes "reads r m base fs ty rest" "ty = -1 \<or> ty \<in> item_types" "arun (map efr fs) ty rest \<noteq> OBad"
  shows "loop_done m base (arun (map efr fs) ty rest) (process_loop r m)"
  using assms
proof (induction "length rest" arbitrary: r m fs ty rest rule: less_induct)
  case less
  have ridx: "rr_ridx r \<ge> 0" using less(2) by (simp add: reads_def)
  have it: "item_done m base fs (item (length fs) ty rest) (processItem r m)"
    using processItem_item [OF less(2,3)] .
  show ?case
  proof (cases "item (length fs) ty rest")
    case (IWait t r')
    have "t = -1 \<or> t \<in> item_types"
      using item_append [where d = "length fs" and ty = ty and s = rest and x = "[]"] IWait less(3) by simp
    moreover obtain r1 where "processItem r m = Some (REDIS_ERR, r1, m)" "reads r1 m base fs t r'"
      using it IWait by (auto simp: item_done_def)
    moreover have "arun (map efr fs) ty rest = OWait (map efr fs) t r'" using IWait by (subst arun.simps) simp
    ultimately show ?thesis using process_loop_stop [OF ridx] by (auto simp: loop_done_def)
  next
    case (IErr e)
    then obtain r1 m1 where "processItem r m = Some (REDIS_ERR, r1, m1)" "failed r1 m1 base REDIS_ERR_PROTOCOL"
      "rr_errstr r1 = e" "m_al m1 = m_al m"
      using it by (auto simp: item_done_def)
    moreover have "arun (map efr fs) ty rest = OErr e" using IErr by (subst arun.simps) simp
    ultimately show ?thesis using process_loop_stop [OF ridx] by (auto simp: loop_done_def)
  next
    case (ILeaf c r')
    have st: "stepped m base (processItem r m) (\<lambda>r1 m1. \<exists>p. holds r1 m1 base (plug (ALeaf p c) fs) r')"
      using it ILeaf by (simp add: item_done_def)
    show ?thesis
    proof (rule stepped_loop [OF ridx st])
      fix r1 m1 assume "\<exists>p. holds r1 m1 base (plug (ALeaf p c) fs) r'" and al: "set (m_al m1) \<subseteq> set (m_al m)"
      then obtain p where h: "holds r1 m1 base (plug (ALeaf p c) fs) r'" by blast
      have ep: "epst (plug (ALeaf p c) fs) = aplug (RLeaf c) (map efr fs)" by (simp add: epst_plug)
      show "loop_done m base (arun (map efr fs) ty rest) (process_loop r1 m1)"
      proof (cases "plug (ALeaf p c) fs")
        case (Done t)
        then have "arun (map efr fs) ty rest = ODone (erase t) r'"
          using ILeaf ep [symmetric] by (subst arun.simps) (simp add: epst_def)
        then show ?thesis using h Done loop_done_finished al by (simp add: holds_def)
      next
        case (More gs)
        then have a: "arun (map efr fs) ty rest = arun (map efr gs) (-1) r'"
          using ILeaf ep [symmetric] by (subst arun.simps) (simp add: epst_def)
        have "loop_done m1 base (arun (map efr gs) (-1) r') (process_loop r1 m1)"
          using less(1) [OF item_less(1) [OF ILeaf], of r1 m1 gs "-1"] h More less(4) a by (simp add: holds_def)
        then show ?thesis using a al loop_done_mono by simp
      qed
    qed
  next
    case (IOpen n r')
    have n: "0 < n" using less(4) IOpen by (subst (asm) arun.simps) (auto split: if_splits)
    have a: "arun (map efr fs) ty rest = arun (map efr (Frame p [] (nat n) # fs)) (-1) r'" for p
      using IOpen n by (subst arun.simps) (simp add: efr_def)
    have st: "stepped m base (processItem r m) (\<lambda>r1 m1. \<exists>p. reads r1 m1 base (Frame p [] (nat n) # fs) (-1) r')"
      using it IOpen n by (simp add: item_done_def)
    show ?thesis
    proof (rule stepped_loop [OF ridx st])
      fix r1 m1 assume "\<exists>p. reads r1 m1 base (Frame p [] (nat n) # fs) (-1) r'" and al: "set (m_al m1) \<subseteq> set (m_al m)"
      then obtain p where h: "reads r1 m1 base (Frame p [] (nat n) # fs) (-1) r'" by blast
      have "loop_done m1 base (arun (map efr (Frame p [] (nat n) # fs)) (-1) r') (process_loop r1 m1)"
        using less(1) [OF item_less(2) [OF IOpen] h] less(4) a [of p] by simp
      then show "loop_done m base (arun (map efr fs) ty rest) (process_loop r1 m1)"
        using a [of p] al loop_done_mono by simp
    qed
  qed
qed

section \<open>The protocol's encoding\<close>

datatype resp =
    RStatus string
  | RError string
  | RInt "64 word"
  | RBulk string
  | RNil
  | RArray "resp list"

fun enc :: "resp \<Rightarrow> string" where
  "enc (RStatus s) = CHR ''+'' # s @ CRLF"
| "enc (RError s) = CHR ''-'' # s @ CRLF"
| "enc (RInt w) = CHR '':'' # dec_int (sint w) @ CRLF"
| "enc (RBulk s) = CHR ''$'' # dec_nat (length s) @ CRLF @ s @ CRLF"
| "enc RNil = ''$-1'' @ CRLF"
| "enc (RArray ts) = CHR ''*'' # dec_nat (length ts) @ CRLF @ concat (map enc ts)"

fun val_of :: "resp \<Rightarrow> reply" where
  "val_of (RStatus s) = RLeaf (str_cell REDIS_REPLY_STATUS s)"
| "val_of (RError s) = RLeaf (str_cell REDIS_REPLY_ERROR s)"
| "val_of (RInt w) = RLeaf (int_cell w)"
| "val_of (RBulk s) = RLeaf (str_cell REDIS_REPLY_STRING s)"
| "val_of RNil = RLeaf nil_cell"
| "val_of (RArray ts) = (if ts = [] then RLeaf (count_cell 0) else RArr (map val_of ts))"

fun resp_ok :: "nat \<Rightarrow> resp \<Rightarrow> bool" where
  \<comment> \<open>what the parser takes inside \<open>d\<close> arrays\<close>
  "resp_ok d (RStatus s) \<longleftrightarrow> find_crlf s = None"
| "resp_ok d (RError s) \<longleftrightarrow> find_crlf s = None"
| "resp_ok d (RInt w) \<longleftrightarrow> True"
| "resp_ok d (RBulk s) \<longleftrightarrow> length s < 2 ^ 31"
| "resp_ok d RNil \<longleftrightarrow> True"
| "resp_ok d (RArray ts) \<longleftrightarrow> d < 8 \<and> length ts < 2 ^ 31 \<and> list_all (resp_ok (Suc d)) ts"

lemma find_crlf_no_CR: "CR \<notin> set s \<Longrightarrow> find_crlf s = None"
  by (induction s rule: find_crlf.induct) auto

lemma dec_int_no_CR: "CR \<notin> set (dec_int i)"
  using dec_nat_no_special by (auto simp: dec_int_def)

lemma find_crlf_dec: "find_crlf (dec_int i @ CR # LF # x) = Some (length (dec_int i))"
  by (rule find_crlf_line, rule find_crlf_no_CR, rule dec_int_no_CR)

lemma dec_nat_int: "dec_nat n = dec_int (int n)"
  by (simp add: dec_int_def)

lemma sint_small: "n < 2 ^ 31 \<Longrightarrow> sint (word_of_int (int n) :: 64 word) = int n"
  unfolding int_word_sint by simp

lemma unat_small: "n < 2 ^ 31 \<Longrightarrow> unat (word_of_int (int n) :: 64 word) = n"
  by (simp add: take_bit_nat_eq_self unat_of_nat)

lemma tok_line:
  assumes "find_crlf s = None" "ty \<in> {REDIS_REPLY_STATUS, REDIS_REPLY_ERROR}"
  shows "tok ty (s @ CR # LF # x) = Leaf (str_cell ty s) (length s + 2)"
  using assms find_crlf_line [OF assms(1), of x] by (auto simp: tok_def Let_def)

lemma tok_num:
  "tok ty (dec_int i @ CR # LF # x) =
     (let v = word_of_int i; k = length (dec_int i) + 2 in
      if ty = REDIS_REPLY_INTEGER then Leaf (int_cell v) k
      else if ty = REDIS_REPLY_STRING then
        (if sint v < 0 then Leaf nil_cell k
         else if unat v + 2 \<le> length x then Leaf (str_cell ty (take (unat v) x)) (k + unat v + 2) else Wait)
      else if ty = REDIS_REPLY_ARRAY then
        (if v = - 1 then Leaf nil_cell k
         else if sint v \<le> 0 then Leaf (count_cell (s32 (sint v))) k else Open (s32 (sint v)) k)
      else Leaf (str_cell ty (dec_int i)) k)"
  unfolding tok_def find_crlf_dec by (auto simp: Let_def line_value_dec)

lemma item_leaf:
  "find_crlf s = None \<Longrightarrow> item d (-1) (enc (RStatus s) @ x) = ILeaf (str_cell REDIS_REPLY_STATUS s) x"
  "find_crlf s = None \<Longrightarrow> item d (-1) (enc (RError s) @ x) = ILeaf (str_cell REDIS_REPLY_ERROR s) x"
  "item d (-1) (enc (RInt w) @ x) = ILeaf (int_cell w) x"
  "length s < 2 ^ 31 \<Longrightarrow> item d (-1) (enc (RBulk s) @ x) = ILeaf (str_cell REDIS_REPLY_STRING s) x"
  "item d (-1) (enc RNil @ x) = ILeaf nil_cell x"
proof -
  show "item d (-1) (enc (RStatus s) @ x) = ILeaf (str_cell REDIS_REPLY_STATUS s) x" if "find_crlf s = None"
    using tok_line [OF that, of REDIS_REPLY_STATUS x] by (simp add: item_def typed_def type_of_byte_def)
  show "item d (-1) (enc (RError s) @ x) = ILeaf (str_cell REDIS_REPLY_ERROR s) x" if "find_crlf s = None"
    using tok_line [OF that, of REDIS_REPLY_ERROR x] by (simp add: item_def typed_def type_of_byte_def)
  show "item d (-1) (enc (RInt w) @ x) = ILeaf (int_cell w) x"
    using tok_num [of REDIS_REPLY_INTEGER "sint w" x] by (simp add: item_def typed_def type_of_byte_def Let_def)
  show "item d (-1) (enc (RBulk s) @ x) = ILeaf (str_cell REDIS_REPLY_STRING s) x" if s: "length s < 2 ^ 31"
  proof -
    have "drop (4 + length s) (CR # LF # s @ CR # LF # x) = x"
      using drop_append [of "4 + length s" "CR # LF # s @ [CR, LF]" x] by simp
    then show ?thesis
      using tok_num [of REDIS_REPLY_STRING "int (length s)" "s @ CR # LF # x"] sint_small [OF s] unat_small [OF s]
      by (simp add: item_def typed_def type_of_byte_def Let_def dec_nat_int)
  qed
  have "dec_int (-1) = ''-1''" by code_simp
  then show "item d (-1) (enc RNil @ x) = ILeaf nil_cell x"
    using tok_num [of REDIS_REPLY_STRING "-1" x] by (simp add: item_def typed_def type_of_byte_def Let_def)
qed

lemma item_array:
  assumes "d < 8" "length ts < 2 ^ 31"
  shows "item d (-1) (enc (RArray ts) @ x) =
    (if ts = [] then ILeaf (count_cell 0) x else IOpen (int (length ts)) (concat (map enc ts) @ x))"
proof -
  have s: "s32 (int (length ts)) = int (length ts)" "s32 0 = 0" using assms(2) by (simp, simp add: s32_def)
  have "(word_of_int (int (length ts)) :: 64 word) \<noteq> - 1"
    using sint_small [OF assms(2)] by (metis of_nat_0_le_iff sint_n1 not_one_le_zero neg_0_le_iff_le le_minus_one_simps(3))
  then show ?thesis
    using tok_num [of REDIS_REPLY_ARRAY "int (length ts)" "concat (map enc ts) @ x"] sint_small [OF assms(2)] assms(1) s
    by (simp add: item_def typed_def type_of_byte_def Let_def dec_nat_int)
qed

lemma arun_leaf:
  assumes "item (length fs) ty s = ILeaf c x"
  shows "arun fs ty s = (case aplug (RLeaf c) fs of ADone u \<Rightarrow> ODone u x | AMore gs \<Rightarrow> arun gs (-1) x)"
  using assms by (subst arun.simps) simp

lemma arun_enc:
  "resp_ok (length fs) t \<Longrightarrow>
     arun fs (-1) (enc t @ x) = (case aplug (val_of t) fs of ADone u \<Rightarrow> ODone u x | AMore gs \<Rightarrow> arun gs (-1) x)"
proof (induction t arbitrary: fs x)
  case (RArray ts)
  show ?case
  proof (cases "ts = []")
    case True
    then show ?thesis using arun_leaf [OF item_array [of "length fs" "[]" x, simplified]] RArray.prems by simp
  next
    case False
    have elems: "arun ((d, n) # fs) (-1) (concat (map enc us) @ x)
        = (case aplug (RArr (d @ map val_of us)) fs of ADone u \<Rightarrow> ODone u x | AMore gs \<Rightarrow> arun gs (-1) x)"
      if "us \<noteq> []" "set us \<subseteq> set ts" "length d + length us = n" for us d n
      using that
    proof (induction us arbitrary: d)
      case (Cons u us)
      have u: "u \<in> set ts" "resp_ok (length ((d, n) # fs)) u" using Cons.prems(2) RArray.prems by (auto simp: list_all_iff)
      have e: "arun ((d, n) # fs) (-1) (concat (map enc (u # us)) @ x)
          = (case aplug (val_of u) ((d, n) # fs) of ADone v \<Rightarrow> ODone v (concat (map enc us) @ x)
             | AMore gs \<Rightarrow> arun gs (-1) (concat (map enc us) @ x))"
        using RArray.IH [OF u, of "concat (map enc us) @ x"] by simp
      show ?case
      proof (cases us)
        case Nil
        then show ?thesis using e Cons.prems(3) by (simp split: apst.split)
      next
        case (Cons a list)
        then show ?thesis using e Cons.prems(3) Cons.IH [of "d @ [val_of u]"] Cons.prems(2) by simp
      qed
    qed simp
    have "arun fs (-1) (enc (RArray ts) @ x) = arun (([], length ts) # fs) (-1) (concat (map enc ts) @ x)"
      using item_array [of "length fs" ts x] RArray.prems False by (subst arun.simps) simp
    then show ?thesis using elems [of ts "[]" "length ts"] False by simp
  qed
next
  case (RStatus s)
  then show ?case using arun_leaf [OF item_leaf(1)] by simp
next
  case (RError s)
  then show ?case using arun_leaf [OF item_leaf(2)] by simp
next
  case (RInt w)
  then show ?case using arun_leaf [OF item_leaf(3)] by simp
next
  case (RBulk s)
  then show ?case using arun_leaf [OF item_leaf(4)] by simp
next
  case RNil
  then show ?case using arun_leaf [OF item_leaf(5)] by simp
qed

section \<open>The reader between calls\<close>

definition ready :: "mem redisReader \<Rightarrow> mem \<Rightarrow> heap \<Rightarrow> string \<Rightarrow> bool" where
  \<comment> \<open>no reply is being read\<close>
  "ready r m base rest \<longleftrightarrow> rr_err r = 0 \<and> rr_fn r = Some defaultFunctions \<and> input_is r rest
     \<and> length (rr_rstack r) = 9 \<and> rr_ridx r = -1 \<and> rr_reply r = None \<and> mem_is m base []"

definition live :: "'a list \<Rightarrow> int \<Rightarrow> bool" where
  "live fs ty \<longleftrightarrow> (ty = -1 \<or> ty \<in> item_types) \<and> \<not> (ty = REDIS_REPLY_ARRAY \<and> length fs = 8)"

definition rstate :: "mem redisReader \<Rightarrow> mem \<Rightarrow> heap \<Rightarrow> (reply list \<times> nat) list \<Rightarrow> int \<Rightarrow> string \<Rightarrow> bool" where
  \<comment> \<open>the reader stands for open arrays, a type and the input left\<close>
  "rstate r m base afs ty rest \<longleftrightarrow> live afs ty \<and>
     (afs = [] \<and> ty = -1 \<and> ready r m base rest \<or> (\<exists>fs. map efr fs = afs \<and> reads r m base fs ty rest))"

lemma redisReaderFree_rstate:
  assumes "rstate r m base afs ty rest"
  shows "\<exists>m'. redisReaderFree r m = Some m' \<and> mem_is m' base [] \<and> m_al m' = m_al m"
proof -
  consider "ready r m base rest" | fs where "reads r m base fs ty rest" using assms by (auto simp: rstate_def)
  then show ?thesis
    by cases (auto simp: ready_def redisReaderFree_def dest: redisReaderFree_reads)
qed

lemma live_Nil: "live fs (-1)"
  by (simp add: live_def)

lemma typed_IWait: "typed d ty s = IWait t r \<Longrightarrow> t = ty \<and> \<not> (ty = REDIS_REPLY_ARRAY \<and> d = 8)"
  by (auto simp: typed_def split: if_splits token.splits)

lemma item_IWait: "item d ty s = IWait t r \<Longrightarrow> \<not> (t = REDIS_REPLY_ARRAY \<and> d = 8)"
  by (auto simp: item_def dest!: typed_IWait split: if_splits list.splits option.splits)

lemma arun_OWait: "arun fs ty s = OWait gs t r \<Longrightarrow> \<not> (t = REDIS_REPLY_ARRAY \<and> length gs = 8)"
proof (induction fs ty s rule: arun.induct)
  case (1 fs ty s)
  show ?case
  proof (cases "item (length fs) ty s")
    case (IWait t' r')
    then have "arun fs ty s = OWait fs t' r'" by (subst arun.simps) simp
    then show ?thesis using 1(3) item_IWait [OF IWait] by simp
  next
    case (IErr e)
    then have "arun fs ty s = OErr e" by (subst arun.simps) simp
    then show ?thesis using 1(3) by simp
  next
    case (ILeaf c r')
    show ?thesis
    proof (cases "aplug (RLeaf c) fs")
      case (ADone u)
      then have "arun fs ty s = ODone u r'" using ILeaf by (subst arun.simps) simp
      then show ?thesis using 1(3) by simp
    next
      case (AMore hs)
      then have "arun fs ty s = arun hs (-1) r'" using ILeaf by (subst arun.simps) simp
      then show ?thesis using 1(1) [OF ILeaf AMore] 1(3) by simp
    qed
  next
    case (IOpen n r')
    show ?thesis
    proof (cases "n \<le> 0")
      case True
      then have "arun fs ty s = OBad" using IOpen by (subst arun.simps) simp
      then show ?thesis using 1(3) by simp
    next
      case False
      then have "arun fs ty s = arun (([], nat n) # fs) (-1) r'" using IOpen by (subst arun.simps) simp
      then show ?thesis using 1(2) [OF IOpen False] 1(3) by simp
    qed
  qed
qed

lemma arun_Nil: "live fs ty \<Longrightarrow> arun fs ty [] = OWait fs ty []"
  by (subst arun.simps) (auto simp: live_def item_def typed_def tok_def)

lemma first_task_reads:
  assumes "rstate r m base afs ty rest"
  shows "\<exists>fs. map efr fs = afs \<and> reads (first_task r) m base fs ty rest"
proof -
  have "reads (first_task r) m base [] (-1) rest" if "ready r m base rest"
    using that input_is_cong [of "first_task r" r]
    by (simp add: ready_def reads_def first_task_def frames_ok_def wf_frames_def cur_ok_def Let_def par_of_def root_ptr_def)
  moreover have "first_task r = r" if "reads r m base fs ty rest" for fs
    using that by (simp add: reads_def first_task_def)
  ultimately show ?thesis using assms unfolding rstate_def by fastforce
qed

lemma discard_read_ok:
  assumes "input_is r rest"
  shows "\<exists>b p l. discard_read r = Some (r\<lparr>rr_buf := Some b, rr_pos := p, rr_len := l\<rparr>)
     \<and> input_is (r\<lparr>rr_buf := Some b, rr_pos := p, rr_len := l\<rparr>) rest"
proof -
  obtain b where b: "rr_buf r = Some b" "sds_ok b" "rr_len r = sds_len b" "rr_pos r \<le> sds_len b" "sds_len b < 2 ^ 31"
      "rest = drop (rr_pos r) (sds_str b)"
    using assms by (auto simp: input_is_def)
  show ?thesis
  proof (cases "rr_pos r \<ge> 1024")
    case False
    then show ?thesis using b assms
      by (intro exI [of _ b] exI [of _ "rr_pos r"] exI [of _ "rr_len r"]) (simp add: discard_read_def input_is_def)
  next
    case True
    have pos: "s32 (int (rr_pos r)) = int (rr_pos r)" using b by simp
    have len: "length (sds_str b) = sds_len b" using b(2) by simp
    have "c_slice (int (rr_pos r)) (-1) (sds_str b) = rest"
      using b(4,6) True len by (auto simp: c_slice_def Let_def)
    then obtain b' where b': "sdsrange b (int (rr_pos r)) (-1) = Some b'" "sds_ok b'" "sds_str b' = rest"
      using sdsrange_spec [OF b(2,5), of "int (rr_pos r)" "-1"] b(4,5) by auto
    have "sds_len b' = length rest" using b'(2,3) by (metis length_sds_str)
    then have "input_is (r\<lparr>rr_buf := Some b', rr_pos := 0, rr_len := sds_len b'\<rparr>) rest"
      using b' b(5,6) len by (simp add: input_is_def)
    then show ?thesis using True b(1) b'(1) pos by (auto simp: discard_read_def sdslen_def)
  qed
qed

definition reply_done ::
  "mem \<Rightarrow> heap \<Rightarrow> outcome \<Rightarrow> (int \<times> obj option \<times> mem redisReader \<times> mem) option \<Rightarrow> bool" where
  "reply_done m base out res \<longleftrightarrow> (\<exists>st ob r' m'. res = Some (st, ob, r', m') \<and> set (m_al m') \<subseteq> set (m_al m)
     \<and> (st = REDIS_ERR \<and> ob = None \<and> failed r' m' base REDIS_ERR_OOM \<and> None \<in> set (m_al m)
        \<or> (case out of
             OWait afs t rest \<Rightarrow> st = REDIS_OK \<and> ob = None \<and> rstate r' m' base afs t rest
           | ODone u rest \<Rightarrow> st = REDIS_OK \<and> (\<exists>t. erase t = u \<and> tree_ok t \<and> ob = Some (Obj (addr t))
               \<and> mem_is m' base (cells_of t) \<and> ready r' m' (m_cells m') rest)
           | OErr e \<Rightarrow> st = REDIS_ERR \<and> ob = None \<and> failed r' m' base REDIS_ERR_PROTOCOL \<and> rr_errstr r' = e
           | OBad \<Rightarrow> False)))"

lemma failed_err: "failed r m base e \<Longrightarrow> rr_err r = e"
  by (simp add: failed_def)

lemma mem_is_self: "mem_is m base L \<Longrightarrow> mem_is m (m_cells m) []"
  unfolding mem_is_def heap_is_Nil by blast

lemma redisReaderGetReply_arun:
  assumes "rstate r m base afs ty rest" "arun afs ty rest \<noteq> OBad"
  shows "reply_done m base (arun afs ty rest) (redisReaderGetReply r m)"
proof -
  have err: "rr_err r = 0" and inp: "input_is r rest" using assms(1) by (auto simp: rstate_def ready_def reads_def)
  show ?thesis
  proof (cases "rr_len r = 0")
    case True
    then have "rest = []" using input_facts [OF inp] by (metis add_is_0 length_0_conv)
    then have "arun afs ty rest = OWait afs ty rest" using assms(1) arun_Nil by (simp add: rstate_def)
    then show ?thesis using True err assms(1) by (simp add: redisReaderGetReply_def reply_done_def)
  next
    case len: False
    obtain fs where fs: "map efr fs = afs" "reads (first_task r) m base fs ty rest"
      using first_task_reads [OF assms(1)] by blast
    have ty: "ty = -1 \<or> ty \<in> item_types" using assms(1) by (auto simp: rstate_def live_def)
    obtain r1 m1 where l: "process_loop (first_task r) m = Some (r1, m1)" "set (m_al m1) \<subseteq> set (m_al m)"
      and out: "failed r1 m1 base REDIS_ERR_OOM \<and> None \<in> set (m_al m)
        \<or> (case arun afs ty rest of
             OWait afs t rest \<Rightarrow> \<exists>fs. map efr fs = afs \<and> (t = -1 \<or> t \<in> item_types) \<and> reads r1 m1 base fs t rest
           | ODone u rest \<Rightarrow> \<exists>t. erase t = u \<and> finished r1 m1 base t rest
           | OErr e \<Rightarrow> failed r1 m1 base REDIS_ERR_PROTOCOL \<and> rr_errstr r1 = e
           | OBad \<Rightarrow> False)"
      using process_loop_arun [OF fs(2) ty] assms(2) fs(1) by (auto simp: loop_done_def)
    have get: "redisReaderGetReply r m = (if rr_err r1 \<noteq> 0 then Some (REDIS_ERR, None, r1, m1)
        else do {
          r \<leftarrow> discard_read r1;
          if rr_ridx r = -1 then Some (REDIS_OK, rr_reply r, r\<lparr>rr_reply := None\<rparr>, m1)
          else Some (REDIS_OK, None, r, m1)
        })"
      using err len l(1) by (simp add: redisReaderGetReply_def)
    from out show ?thesis
    proof (elim disjE conjE)
      assume "failed r1 m1 base REDIS_ERR_OOM" "None \<in> set (m_al m)"
      then show ?thesis using l(2) failed_err [of r1 m1 base REDIS_ERR_OOM] by (simp add: reply_done_def get)
    next
      assume out: "case arun afs ty rest of
             OWait afs t rest \<Rightarrow> \<exists>fs. map efr fs = afs \<and> (t = -1 \<or> t \<in> item_types) \<and> reads r1 m1 base fs t rest
           | ODone u rest \<Rightarrow> \<exists>t. erase t = u \<and> finished r1 m1 base t rest
           | OErr e \<Rightarrow> failed r1 m1 base REDIS_ERR_PROTOCOL \<and> rr_errstr r1 = e
           | OBad \<Rightarrow> False"
      show ?thesis
      proof (cases "arun afs ty rest")
        case (OWait gs t x)
        then obtain hs where hs: "map efr hs = gs" "t = -1 \<or> t \<in> item_types" "reads r1 m1 base hs t x" using out by auto
        then have "input_is r1 x" "rr_err r1 = 0" "rr_ridx r1 \<noteq> -1" by (auto simp: reads_def)
        then obtain b p l' where d: "discard_read r1 = Some (r1\<lparr>rr_buf := Some b, rr_pos := p, rr_len := l'\<rparr>)"
          "input_is (r1\<lparr>rr_buf := Some b, rr_pos := p, rr_len := l'\<rparr>) x" using discard_read_ok by blast
        have "reads (r1\<lparr>rr_buf := Some b, rr_pos := p, rr_len := l'\<rparr>) m1 base hs t x"
          using hs(3) d(2) by (simp add: reads_def)
        moreover have "live gs t" using hs arun_OWait [OF OWait] by (auto simp: live_def)
        ultimately show ?thesis using l(2) OWait d(1) hs(1) \<open>rr_err r1 = 0\<close> \<open>rr_ridx r1 \<noteq> -1\<close>
          by (auto simp: reply_done_def get rstate_def)
      next
        case (ODone u x)
        then obtain t where t: "erase t = u" "finished r1 m1 base t x" using out by auto
        then have f: "input_is r1 x" "rr_err r1 = 0" "rr_ridx r1 = -1" "rr_reply r1 = Some (Obj (addr t))" "tree_ok t"
          "mem_is m1 base (cells_of t)" by (auto simp: finished_def)
        then obtain b p l' where d: "discard_read r1 = Some (r1\<lparr>rr_buf := Some b, rr_pos := p, rr_len := l'\<rparr>)"
          "input_is (r1\<lparr>rr_buf := Some b, rr_pos := p, rr_len := l'\<rparr>) x" using discard_read_ok by blast
        let ?r = "r1\<lparr>rr_buf := Some b, rr_pos := p, rr_len := l', rr_reply := None\<rparr>"
        have "input_is ?r x" using d(2) input_is_cong [of ?r "r1\<lparr>rr_buf := Some b, rr_pos := p, rr_len := l'\<rparr>"] by simp
        then have "ready ?r m1 (m_cells m1) x" using t(2) f(6) mem_is_self by (auto simp: ready_def finished_def)
        then show ?thesis using l(2) ODone d(1) f t(1) by (auto simp: reply_done_def get)
      next
        case (OErr e)
        then show ?thesis using out l(2) failed_err [of r1 m1 base REDIS_ERR_PROTOCOL] by (auto simp: reply_done_def get)
      next
        case OBad
        then show ?thesis using assms(2) by simp
      qed
    qed
  qed
qed

section \<open>Creating and feeding\<close>

lemma redisReaderCreate_ready:
  assumes "None \<notin> set al" "mem_is m base []"
  shows "\<exists>r al'. redisReaderCreate al = Some (Some r, al') \<and> ready r m base [] \<and> None \<notin> set al'"
proof -
  obtain f al1 where 1: "alloc_next al = (Some f, al1)" "None \<notin> set al1"
    using assms(1) alloc_next_set [of al] alloc_next_None [of al] by (cases "alloc_next al"; cases "fst (alloc_next al)") auto
  obtain e al2 where 2: "sdsempty al1 = Some (Some e, al2)" "sds_ok e" "sds_str e = []" "None \<notin> set al2"
    using yields_ok [OF sdsempty_yields 1(2)] .
  have "sds_len e = 0" using 2(2,3) by (metis length_sds_str list.size(3))
  then show ?thesis using 1 2 assms(2) by (simp add: redisReaderCreate_def ready_def input_is_def)
qed

lemma redisReaderCreate_null: "redisReaderCreate al = Some (None, al') \<Longrightarrow> None \<in> set al"
proof -
  assume c: "redisReaderCreate al = Some (None, al')"
  show ?thesis
  proof (rule ccontr)
    assume "None \<notin> set al"
    moreover have "mem_is \<lparr>m_al = [], m_cells = Map.empty, m_next = 0\<rparr> Map.empty []" by (simp add: mem_is_def heap_is_Nil)
    ultimately show False using redisReaderCreate_ready c by fastforce
  qed
qed

lemma rstate_cong:
  assumes "rstate r m base afs ty rest" "input_is r' rest'"
    "\<exists>b p l. r' = r\<lparr>rr_buf := b, rr_pos := p, rr_len := l\<rparr>"
  shows "rstate r' m base afs ty rest'"
  using assms by (auto simp: rstate_def ready_def reads_def)

lemma rstate_failed:
  assumes "rstate r m base afs ty rest" "rr_fn r' = rr_fn r" "rr_reply r' = rr_reply r" "rr_buf r' = rr_buf r"
  shows "\<exists>r1 m1. redisReaderSetErrorOOM r' m = Some (r1, m1) \<and> failed r1 m1 base REDIS_ERR_OOM \<and> m_al m1 = m_al m"
proof -
  obtain fs where fs: "frames_ok fs" "rr_reply r = root_ptr fs" "mem_is m base (stack_cells None fs)"
    "rr_fn r = Some defaultFunctions" "rr_buf r \<noteq> None"
  proof (cases "\<exists>fs. map efr fs = afs \<and> reads r m base fs ty rest")
    case True
    then show ?thesis using that by (auto simp: reads_def input_is_def)
  next
    case False
    then have "ready r m base rest" using assms(1) by (auto simp: rstate_def)
    then show ?thesis using that [of "[]"] by (auto simp: ready_def input_is_def frames_ok_def wf_frames_def root_ptr_def)
  qed
  then show ?thesis using set_error_failed [of r' fs m base REDIS_ERR_OOM "''Out of memory''"] assms(2-4)
    unfolding redisReaderSetErrorOOM_def by auto
qed

lemma redisReaderFeed_state:
  assumes "rstate r m base afs ty rest" "n \<le> length bytes" "rr_len r + n < 2 ^ 31"
    and "None \<in> set al \<longrightarrow> rr_len r \<noteq> 0"
  shows "\<exists>st r' m' al'. redisReaderFeed r (Some bytes) n m al = Some (st, r', m', al') \<and> set al' \<subseteq> set al \<and> m_al m' = m_al m
    \<and> (st = REDIS_OK \<and> m' = m \<and> rstate r' m base afs ty (rest @ take n bytes) \<and> rr_len r' \<le> rr_len r + n
       \<or> st = REDIS_ERR \<and> failed r' m' base REDIS_ERR_OOM \<and> None \<in> set al)"
proof -
  have err: "rr_err r = 0" and inp: "input_is r rest" using assms(1) by (auto simp: rstate_def ready_def reads_def)
  show ?thesis
  proof (cases "n \<ge> 1")
    case False
    then have "n = 0" by simp
    then show ?thesis using err assms(1) by (simp add: redisReaderFeed_def)
  next
    case n: True
    define prep where "prep = (if rr_len r = 0 \<and> rr_maxbuf r \<noteq> 0 then do {
                   b \<leftarrow> rr_buf r;
                   if sdsavail b > rr_maxbuf r then do {
                     (nb, al) \<leftarrow> sdsempty al;
                     require (nb \<noteq> None);
                     Some (r\<lparr>rr_buf := nb, rr_pos := 0\<rparr>, al)
                   } else Some (r, al)
                 } else Some (r, al))"
    obtain r1 al1 where r1: "prep = Some (r1, al1)" "set al1 \<subseteq> set al" "input_is r1 rest" "rr_len r1 = rr_len r"
      "\<exists>b p. r1 = r\<lparr>rr_buf := b, rr_pos := p\<rparr>"
    proof (cases "rr_len r = 0 \<and> rr_maxbuf r \<noteq> 0 \<and> (\<exists>b. rr_buf r = Some b \<and> sdsavail b > rr_maxbuf r)")
      case True
      then obtain b where b: "rr_buf r = Some b" "sdsavail b > rr_maxbuf r" by blast
      have "None \<notin> set al" using True assms(4) by blast
      with sdsempty_yields [of al] obtain e al2 where e: "sdsempty al = Some (Some e, al2)" "sds_ok e" "sds_str e = []" "set al2 \<subseteq> set al"
        by (cases rule: yieldsE) auto
      have "sds_len e = 0" using e(2,3) by (metis length_sds_str list.size(3))
      moreover have "rest = []" using True input_facts [OF inp] by (metis add_is_0 length_0_conv)
      ultimately show ?thesis using True b e
        by (intro that [of "r\<lparr>rr_buf := Some e, rr_pos := 0\<rparr>" al2]) (auto simp: prep_def input_is_def)
    next
      case False
      obtain b where "rr_buf r = Some b" using inp by (auto simp: input_is_def)
      then have "prep = Some (r, al)" using False by (auto simp: prep_def)
      moreover have "\<exists>b p. r = r\<lparr>rr_buf := b, rr_pos := p\<rparr>"
        by (intro exI [of _ "rr_buf r"] exI [of _ "rr_pos r"]) simp
      ultimately show ?thesis using inp by (intro that [of r al]) simp_all
    qed
    obtain b where b: "rr_buf r1 = Some b" "sds_ok b" "rr_len r1 = sds_len b" "rr_pos r1 \<le> sds_len b" "sds_len b < 2 ^ 31"
      "rest = drop (rr_pos r1) (sds_str b)"
      using r1(3) by (auto simp: input_is_def)
    have feed: "redisReaderFeed r (Some bytes) n m al = do {
              (newbuf, al) \<leftarrow> sdscatlen (rr_buf r1) bytes n al1;
              (case newbuf of
                 None \<Rightarrow> do { (r, m) \<leftarrow> redisReaderSetErrorOOM r1 m; Some (REDIS_ERR, r, m, al) }
               | Some b \<Rightarrow> Some (REDIS_OK, r1\<lparr>rr_buf := newbuf, rr_len := sdslen b\<rparr>, m, al)) }"
      unfolding redisReaderFeed_def prep_def [symmetric] using err n r1(1) by simp
    have lim: "sds_len b + n < 2 ^ 31" using assms(3) b(3) r1(4) by simp
    have st1: "rstate r1 m base afs ty rest"
      using rstate_cong [OF assms(1) r1(3)] r1(4,5) by (metis redisReader.surjective redisReader.update_convs(5) redisReader.select_convs(5))
    from sdscatlen_yields [OF b(2) lim assms(2), of al1] show ?thesis
    proof (cases rule: yieldsE)
      case (null al')
      obtain r2 m2 where "redisReaderSetErrorOOM r1 m = Some (r2, m2)" "failed r2 m2 base REDIS_ERR_OOM" "m_al m2 = m_al m"
        using rstate_failed [OF st1, of r1] by auto
      then show ?thesis using null r1(2) b(1) by (auto simp: feed)
    next
      case (str h al')
      have "sds_len h = sds_len b + n" using str(2,3) b(2) assms(2) by (metis length_append length_sds_str length_take min_absorb2)
      moreover have "input_is (r1\<lparr>rr_buf := Some h, rr_len := sdslen h\<rparr>) (rest @ take n bytes)"
        using str(2,3) b lim calculation by (simp add: input_is_def sdslen_def)
      moreover then have "rstate (r1\<lparr>rr_buf := Some h, rr_len := sdslen h\<rparr>) m base afs ty (rest @ take n bytes)"
        by (rule rstate_cong [OF st1], intro exI [of _ "Some h"] exI [of _ "rr_pos r1"] exI [of _ "sdslen h"]) simp
      ultimately show ?thesis using str r1(2,4) b(1,3) by (auto simp: feed sdslen_def)
    qed
  qed
qed

section \<open>Counts that fit\<close>

definition count_ok :: "string \<Rightarrow> bool" where
  \<comment> \<open>a positive count stays positive as an \<open>int\<close>\<close>
  "count_ok s = (case find_crlf s of None \<Rightarrow> True
     | Some j \<Rightarrow> let n = sint (line_value (take j s)) in 0 < n \<longrightarrow> 0 < s32 n)"

fun counts_fit :: "string \<Rightarrow> bool" where
  \<comment> \<open>after no \<open>*\<close> of the input stands a line with a count that the cast to \<open>int\<close> spoils\<close>
  "counts_fit [] \<longleftrightarrow> True"
| "counts_fit (c # s) \<longleftrightarrow> (c = CHR ''*'' \<longrightarrow> count_ok s) \<and> counts_fit s"

definition fits :: "int \<Rightarrow> string \<Rightarrow> bool" where
  "fits ty s \<longleftrightarrow> counts_fit s \<and> (ty = REDIS_REPLY_ARRAY \<longrightarrow> count_ok s)"

lemma counts_fit_drop: "counts_fit s \<Longrightarrow> counts_fit (drop k s)"
proof (induction s arbitrary: k)
  case (Cons c s)
  then show ?case by (cases k) auto
qed simp

lemma typed_fits:
  assumes "fits ty s"
  shows "case typed d ty s of IWait t r \<Rightarrow> True | IErr e \<Rightarrow> True
    | ILeaf c r \<Rightarrow> counts_fit r | IOpen n r \<Rightarrow> 0 < n \<and> counts_fit r"
proof -
  have "0 < n" if t: "tok ty s = Open n k" for n k
  proof -
    obtain i where i: "find_crlf s = Some i" using t by (auto simp: tok_def split: option.splits)
    have "ty = REDIS_REPLY_ARRAY" using t tok_not_Open by metis
    then have "count_ok s" using assms by (simp add: fits_def)
    then show ?thesis using t i by (auto simp: tok_def count_ok_def Let_def split: if_splits)
  qed
  then show ?thesis using assms counts_fit_drop by (auto simp: typed_def fits_def split: token.splits)
qed

lemma item_fits:
  assumes "fits ty s"
  shows "case item d ty s of IWait t r \<Rightarrow> True | IErr e \<Rightarrow> True
    | ILeaf c r \<Rightarrow> counts_fit r | IOpen n r \<Rightarrow> 0 < n \<and> counts_fit r"
proof (cases "ty = -1")
  case False
  then show ?thesis using typed_fits [OF assms] by (simp add: item_def)
next
  case True
  show ?thesis
  proof (cases s)
    case Nil
    then show ?thesis using True by (simp add: item_def)
  next
    case (Cons c s')
    have "fits t s'" if "type_of_byte c = Some t" for t
      using that assms Cons by (auto simp: fits_def type_of_byte_def split: if_splits)
    then show ?thesis using True Cons typed_fits [of _ s' d]
      by (auto simp: item_def split: option.splits)
  qed
qed

lemma arun_fits: "fits ty s \<Longrightarrow> arun fs ty s \<noteq> OBad"
proof (induction fs ty s rule: arun.induct)
  case (1 fs ty s)
  note i = item_fits [OF 1(3), of "length fs"]
  have f: "fits (-1) r" if "counts_fit r" for r using that by (simp add: fits_def)
  show ?case
  proof (cases "item (length fs) ty s")
    case (ILeaf c r)
    then show ?thesis using 1(1) [OF ILeaf] i f by (subst arun.simps) (simp split: apst.split)
  next
    case (IOpen n r)
    then show ?thesis using 1(2) [OF IOpen] i f by (subst arun.simps) simp
  qed (subst arun.simps, simp)+
qed

definition empty_mem :: mem where
  "empty_mem = \<lparr>m_al = [], m_cells = Map.empty, m_next = 0\<rparr>"

lemma empty_mem_is [simp]: "mem_is empty_mem Map.empty []" "m_al empty_mem = []" "m_cells empty_mem = Map.empty"
  by (simp_all add: empty_mem_def mem_is_def heap_is_Nil)

lemma ready_rstate: "ready r m base rest \<Longrightarrow> rstate r m base [] (-1) rest"
  by (simp add: rstate_def live_Nil)

lemma created_fed:
  assumes "length s < 2 ^ 31" "None \<notin> set al" "mem_is m base []"
  shows "\<exists>r al1 r1 al2. redisReaderCreate al = Some (Some r, al1)
    \<and> redisReaderFeed r (Some s) (length s) m al1 = Some (REDIS_OK, r1, m, al2) \<and> rstate r1 m base [] (-1) s"
proof -
  obtain r al1 where 1: "redisReaderCreate al = Some (Some r, al1)" "ready r m base []" "None \<notin> set al1"
    using redisReaderCreate_ready [OF assms(2,3)] by blast
  have "rr_len r = 0" using 1(1) by (auto simp: redisReaderCreate_def split: option.splits prod.splits bind_splits)
  then obtain st r1 m1 al2 where 2: "redisReaderFeed r (Some s) (length s) m al1 = Some (st, r1, m1, al2)"
    "st = REDIS_OK \<and> m1 = m \<and> rstate r1 m base [] (-1) ([] @ take (length s) s) \<and> rr_len r1 \<le> rr_len r + length s
       \<or> st = REDIS_ERR \<and> failed r1 m1 base REDIS_ERR_OOM \<and> None \<in> set al1"
    using redisReaderFeed_state [OF ready_rstate [OF 1(2)], of "length s" s al1] assms(1) 1(3) by auto
  then have "st = REDIS_OK" "m1 = m" "rstate r1 m base [] (-1) s" using 1(3) by auto
  then show ?thesis using 1 2(1) by blast
qed

section \<open>Properties\<close>

text \<open>
  C1: whatever bytes arrive, \<open>redisReaderGetReply\<close> returns, never leaves its buffers, its task
  stack or the objects it made, and ends in one of three ways: no reply yet and a state it can go on
  from; a reply, which is a tree of fresh objects, and an idle reader; or a protocol or memory
  error, after which every object it had made is freed. The only inputs set aside are those with an
  array count that the cast to \<open>int\<close> makes non-positive.
\<close>
theorem reader_never_faults:
  assumes "rstate r m base afs ty rest" "fits ty rest"
  shows "\<exists>st ob r' m'. redisReaderGetReply r m = Some (st, ob, r', m')
    \<and> (st = REDIS_OK \<and> ob = None \<and> (\<exists>gs t x. rstate r' m' base gs t x)
      \<or> st = REDIS_OK \<and> (\<exists>t x. ob = Some (Obj (addr t)) \<and> heap_is (m_cells m') base (cells_of t) \<and> ready r' m' (m_cells m') x)
      \<or> st = REDIS_ERR \<and> ob = None \<and> rr_err r' \<in> {REDIS_ERR_PROTOCOL, REDIS_ERR_OOM} \<and> rr_reply r' = None \<and> m_cells m' = base)"
proof -
  obtain st ob r' m' where g: "redisReaderGetReply r m = Some (st, ob, r', m')"
    and d: "st = REDIS_ERR \<and> ob = None \<and> failed r' m' base REDIS_ERR_OOM \<and> None \<in> set (m_al m)
        \<or> (case arun afs ty rest of
             OWait afs t rest \<Rightarrow> st = REDIS_OK \<and> ob = None \<and> rstate r' m' base afs t rest
           | ODone u rest \<Rightarrow> st = REDIS_OK \<and> (\<exists>t. erase t = u \<and> tree_ok t \<and> ob = Some (Obj (addr t))
               \<and> mem_is m' base (cells_of t) \<and> ready r' m' (m_cells m') rest)
           | OErr e \<Rightarrow> st = REDIS_ERR \<and> ob = None \<and> failed r' m' base REDIS_ERR_PROTOCOL \<and> rr_errstr r' = e
           | OBad \<Rightarrow> False)"
    using redisReaderGetReply_arun [OF assms(1) arun_fits [OF assms(2)]] by (auto simp: reply_done_def)
  show ?thesis
  proof (rule exI [of _ st], rule exI [of _ ob], rule exI [of _ r'], rule exI [of _ m'], intro conjI g)
    show "st = REDIS_OK \<and> ob = None \<and> (\<exists>gs t x. rstate r' m' base gs t x)
      \<or> st = REDIS_OK \<and> (\<exists>t x. ob = Some (Obj (addr t)) \<and> heap_is (m_cells m') base (cells_of t) \<and> ready r' m' (m_cells m') x)
      \<or> st = REDIS_ERR \<and> ob = None \<and> rr_err r' \<in> {REDIS_ERR_PROTOCOL, REDIS_ERR_OOM} \<and> rr_reply r' = None \<and> m_cells m' = base"
      using d by (cases "arun afs ty rest") (auto simp: failed_def mem_is_def heap_is_Nil)
  qed
qed

theorem reader_never_faults_witness:
  "\<exists>r r' m'. (\<exists>al1 al2 r0. redisReaderCreate [] = Some (Some r0, al1)
      \<and> redisReaderFeed r0 (Some (''*1'' @ CRLF @ ''?'')) 5 empty_mem al1 = Some (REDIS_OK, r, empty_mem, al2))
    \<and> (\<exists>st ob. redisReaderGetReply r empty_mem = Some (st, ob, r', m'))"
proof -
  define s where "s = ''*1'' @ CRLF @ ''?''"
  have l: "length s = 5" by (simp add: s_def)
  obtain r0 al1 r al2 where 1: "redisReaderCreate [] = Some (Some r0, al1)"
    "redisReaderFeed r0 (Some s) 5 empty_mem al1 = Some (REDIS_OK, r, empty_mem, al2)"
    "rstate r empty_mem Map.empty [] (-1) s"
    using created_fed [of s "[]" empty_mem Map.empty] l by auto
  have "dec_int 1 = ''1''" by code_simp
  then have "line_value ''1'' = 1" using line_value_dec [of 1] by simp
  then have "fits (-1) s" by (simp add: s_def fits_def count_ok_def s32_def Let_def)
  then show ?thesis using reader_never_faults [OF 1(3)] 1(1,2) unfolding s_def by blast
qed

lemma reader_decodes:
  assumes "resp_ok 0 t" "length (enc t @ x) < 2 ^ 31" "None \<notin> set al" "None \<notin> set (m_al m)" "mem_is m base []"
  shows "\<exists>r al1 r1 al2 u r2 m2 m3. redisReaderCreate al = Some (Some r, al1)
    \<and> redisReaderFeed r (Some (enc t @ x)) (length (enc t @ x)) m al1 = Some (REDIS_OK, r1, m, al2)
    \<and> redisReaderGetReply r1 m = Some (REDIS_OK, Some (Obj (addr u)), r2, m2)
    \<and> erase u = val_of t \<and> heap_is (m_cells m2) base (cells_of u) \<and> input_is r2 x
    \<and> freeReplyObject (Obj (addr u)) m2 = Some m3 \<and> m_cells m3 = base"
proof -
  obtain r al1 r1 al2 where 1: "redisReaderCreate al = Some (Some r, al1)"
    "redisReaderFeed r (Some (enc t @ x)) (length (enc t @ x)) m al1 = Some (REDIS_OK, r1, m, al2)"
    "rstate r1 m base [] (-1) (enc t @ x)"
    using created_fed [OF assms(2,3,5)] by blast
  have "arun [] (-1) (enc t @ x) = ODone (val_of t) x" using arun_enc [of "[]" t x] assms(1) by simp
  then have "reply_done m base (ODone (val_of t) x) (redisReaderGetReply r1 m)"
    using redisReaderGetReply_arun [OF 1(3)] by simp
  then obtain u r2 m2 where 2: "redisReaderGetReply r1 m = Some (REDIS_OK, Some (Obj (addr u)), r2, m2)"
    "erase u = val_of t" "tree_ok u" "mem_is m2 base (cells_of u)" "ready r2 m2 (m_cells m2) x"
    using assms(4) by (auto simp: reply_done_def)
  obtain m3 where "freeReplyObject (Obj (addr u)) m2 = Some m3" "mem_is m3 base []"
    using freeReplyObject_tree [of m2 base u "[]"] 2(3,4) by auto
  then show ?thesis using 1 2 by (auto simp: mem_is_def heap_is_Nil ready_def)
qed

text \<open>
  C2: parsing inverts encoding: a new reader that is given the encoding of any reply of the
  protocol, nested up to eight arrays deep, followed by any bytes, returns objects with exactly
  that content and leaves exactly those bytes unread; freeing the reply gives back every object.
\<close>
theorem reader_inverts_encoding:
  assumes "resp_ok 0 t" "length (enc t @ x) < 2 ^ 31" "None \<notin> set al" "None \<notin> set (m_al m)" "mem_is m base []"
  shows "\<exists>r al1 r1 al2 u r2 m2 m3. redisReaderCreate al = Some (Some r, al1)
    \<and> redisReaderFeed r (Some (enc t @ x)) (length (enc t @ x)) m al1 = Some (REDIS_OK, r1, m, al2)
    \<and> redisReaderGetReply r1 m = Some (REDIS_OK, Some (Obj (addr u)), r2, m2)
    \<and> erase u = val_of t \<and> heap_is (m_cells m2) base (cells_of u) \<and> input_is r2 x
    \<and> freeReplyObject (Obj (addr u)) m2 = Some m3 \<and> m_cells m3 = base"
  by (rule reader_decodes [OF assms])

theorem reader_inverts_encoding_witness:
  "\<exists>r r1 al1 al2 u r2 m2. redisReaderCreate [] = Some (Some r, al1)
    \<and> redisReaderFeed r (Some (enc (RArray [RBulk ''ab'', RInt 7, RArray [RNil]]) @ ''+'')) 26 empty_mem al1 = Some (REDIS_OK, r1, empty_mem, al2)
    \<and> redisReaderGetReply r1 empty_mem = Some (REDIS_OK, Some (Obj (addr u)), r2, m2)
    \<and> erase u = RArr [RLeaf (str_cell REDIS_REPLY_STRING ''ab''), RLeaf (int_cell 7), RArr [RLeaf nil_cell]] \<and> input_is r2 ''+''"
proof -
  have "length (enc (RArray [RBulk ''ab'', RInt 7, RArray [RNil]]) @ ''+'') = 26"
    by (simp add: dec_nat_small dec_int_def)
  then show ?thesis
    using reader_inverts_encoding [of "RArray [RBulk ''ab'', RInt 7, RArray [RNil]]" "''+''" "[]" empty_mem Map.empty]
    by simp blast
qed

lemma redisReaderGetReply_content:
  assumes "rstate r m base afs ty rest" "arun afs ty rest \<noteq> OBad" "None \<notin> set (m_al m)"
  shows "\<exists>st ob r' m'. redisReaderGetReply r m = Some (st, ob, r', m') \<and> None \<notin> set (m_al m')
     \<and> (case arun afs ty rest of
             OWait afs t rest \<Rightarrow> st = REDIS_OK \<and> ob = None \<and> rstate r' m' base afs t rest
           | ODone u rest \<Rightarrow> st = REDIS_OK \<and> (\<exists>t. erase t = u \<and> tree_ok t \<and> ob = Some (Obj (addr t))
               \<and> mem_is m' base (cells_of t) \<and> ready r' m' (m_cells m') rest)
           | OErr e \<Rightarrow> st = REDIS_ERR \<and> ob = None \<and> failed r' m' base REDIS_ERR_PROTOCOL \<and> rr_errstr r' = e
           | OBad \<Rightarrow> False)"
  using redisReaderGetReply_arun [OF assms(1,2)] assms(3) unfolding reply_done_def by blast

definition shows_reply :: "mem \<Rightarrow> obj option \<Rightarrow> reply option \<Rightarrow> bool" where
  \<comment> \<open>the pointer is NULL, or leads to objects with that content\<close>
  "shows_reply m ob v \<longleftrightarrow> (case v of None \<Rightarrow> ob = None
     | Some u \<Rightarrow> \<exists>t. ob = Some (Obj (addr t)) \<and> erase t = u \<and> (\<forall>(p, c) \<in> set (cells_of t). m_cells m p = Some c))"

lemma mem_is_cells: "mem_is m base L \<Longrightarrow> \<forall>(p, c) \<in> set L. m_cells m p = Some c"
  using heap_is_lookup by (auto simp: mem_is_def)

lemma getReply_observed:
  assumes "rstate r m base afs ty rest" "arun afs ty rest \<noteq> OBad" "None \<notin> set (m_al m)"
    "out = arun afs ty rest"
  shows "\<exists>ob r' m'. redisReaderGetReply r m = Some (case out of OErr e \<Rightarrow> REDIS_ERR | _ \<Rightarrow> REDIS_OK, ob, r', m')
     \<and> shows_reply m' ob (case out of ODone u x \<Rightarrow> Some u | _ \<Rightarrow> None)
     \<and> rr_err r' = (case out of OErr e \<Rightarrow> REDIS_ERR_PROTOCOL | _ \<Rightarrow> 0)
     \<and> (case out of OErr e \<Rightarrow> rr_errstr r' = e | OWait gs t x \<Rightarrow> input_is r' x | ODone u x \<Rightarrow> input_is r' x | OBad \<Rightarrow> True)"
proof -
  obtain st ob r' m' where g: "redisReaderGetReply r m = Some (st, ob, r', m')"
    and d: "case arun afs ty rest of
             OWait afs t rest \<Rightarrow> st = REDIS_OK \<and> ob = None \<and> rstate r' m' base afs t rest
           | ODone u rest \<Rightarrow> st = REDIS_OK \<and> (\<exists>t. erase t = u \<and> tree_ok t \<and> ob = Some (Obj (addr t))
               \<and> mem_is m' base (cells_of t) \<and> ready r' m' (m_cells m') rest)
           | OErr e \<Rightarrow> st = REDIS_ERR \<and> ob = None \<and> failed r' m' base REDIS_ERR_PROTOCOL \<and> rr_errstr r' = e
           | OBad \<Rightarrow> False"
    using redisReaderGetReply_content [OF assms(1-3)] by blast
  show ?thesis
  proof (cases "arun afs ty rest")
    case (OWait gs t x)
    then show ?thesis using d g assms(4)
      by (auto simp: shows_reply_def rstate_def ready_def reads_def)
  next
    case (ODone u x)
    then obtain t where t: "erase t = u" "ob = Some (Obj (addr t))" "mem_is m' base (cells_of t)" "ready r' m' (m_cells m') x" "st = REDIS_OK"
      using d by auto
    have "shows_reply m' ob (Some u)" using t mem_is_cells [OF t(3)] by (auto simp: shows_reply_def)
    then show ?thesis using t g assms(4) ODone by (auto simp: ready_def)
  next
    case (OErr e)
    then show ?thesis using d g assms(4) by (auto simp: shows_reply_def failed_def)
  next
    case OBad
    then show ?thesis using assms(2) by simp
  qed
qed

lemma chunks_observed:
  assumes "rstate r m base afs ty rest" "fits ty (rest @ a @ b)" "fits ty (rest @ a)"
    and "rr_len r + length a + length b < 2 ^ 31" "None \<notin> set al" "None \<notin> set (m_al m)"
    and "redisReaderFeed r (Some a) (length a) m al = Some (st1, r1, m1, al1)"
    and "redisReaderGetReply r1 m1 = Some (REDIS_OK, None, r2, m2)"
    and "redisReaderFeed r2 (Some b) (length b) m2 al1 = Some (st3, r3, m3, al3)"
    and "rr_len r2 + length b < 2 ^ 31"
    and "redisReaderFeed r (Some (a @ b)) (length (a @ b)) m al = Some (st4, r4, m4, al4)"
  shows "\<exists>st ob ob' r5 m5 r6 m6 v. redisReaderGetReply r3 m3 = Some (st, ob, r5, m5)
    \<and> redisReaderGetReply r4 m4 = Some (st, ob', r6, m6)
    \<and> shows_reply m5 ob v \<and> shows_reply m6 ob' v \<and> rr_err r5 = rr_err r6
    \<and> (rr_err r5 \<noteq> 0 \<longrightarrow> rr_errstr r5 = rr_errstr r6) \<and> (rr_err r5 = 0 \<longrightarrow> (\<exists>x. input_is r5 x \<and> input_is r6 x))"
proof -
  have 1: "m1 = m" "rstate r1 m base afs ty (rest @ a)" "None \<notin> set al1"
    using redisReaderFeed_state [OF assms(1), of "length a" a al] assms(4,5,7) by auto
  have n1: "arun afs ty (rest @ a) \<noteq> OBad" using arun_fits [OF assms(3)] .
  obtain gs t x where w: "arun afs ty (rest @ a) = OWait gs t x" "rstate r2 m2 base gs t x" "None \<notin> set (m_al m2)"
    using redisReaderGetReply_content [OF 1(2) n1 assms(6)] assms(8) 1(1) by (auto split: outcome.splits)
  have 3: "m3 = m2" "rstate r3 m2 base gs t (x @ b)"
    using redisReaderFeed_state [OF w(2), of "length b" b al1] assms(9,10) 1(3) by auto
  have 4: "m4 = m" "rstate r4 m base afs ty (rest @ a @ b)"
    using redisReaderFeed_state [OF assms(1), of "length (a @ b)" "a @ b" al] assms(4,5,11) by auto
  define out where "out = arun afs ty (rest @ a @ b)"
  have o1: "out = arun gs t (x @ b)" using arun_append [of afs ty "rest @ a" b] w(1) by (simp add: out_def)
  have bad: "out \<noteq> OBad" using arun_fits [OF assms(2)] by (simp add: out_def)
  obtain ob r5 m5 where 5: "redisReaderGetReply r3 m3 = Some (case out of OErr e \<Rightarrow> REDIS_ERR | _ \<Rightarrow> REDIS_OK, ob, r5, m5)"
     "shows_reply m5 ob (case out of ODone u x \<Rightarrow> Some u | _ \<Rightarrow> None)"
     "rr_err r5 = (case out of OErr e \<Rightarrow> REDIS_ERR_PROTOCOL | _ \<Rightarrow> 0)"
     "case out of OErr e \<Rightarrow> rr_errstr r5 = e | OWait gs t x \<Rightarrow> input_is r5 x | ODone u x \<Rightarrow> input_is r5 x | OBad \<Rightarrow> True"
    using getReply_observed [OF 3(2) _ w(3) o1] bad o1 3(1) by auto
  obtain ob' r6 m6 where 6: "redisReaderGetReply r4 m4 = Some (case out of OErr e \<Rightarrow> REDIS_ERR | _ \<Rightarrow> REDIS_OK, ob', r6, m6)"
     "shows_reply m6 ob' (case out of ODone u x \<Rightarrow> Some u | _ \<Rightarrow> None)"
     "rr_err r6 = (case out of OErr e \<Rightarrow> REDIS_ERR_PROTOCOL | _ \<Rightarrow> 0)"
     "case out of OErr e \<Rightarrow> rr_errstr r6 = e | OWait gs t x \<Rightarrow> input_is r6 x | ODone u x \<Rightarrow> input_is r6 x | OBad \<Rightarrow> True"
    using getReply_observed [OF 4(2) _ assms(6) out_def] bad out_def 4(1) by auto
  have "(rr_err r5 \<noteq> 0 \<longrightarrow> rr_errstr r5 = rr_errstr r6) \<and> (rr_err r5 = 0 \<longrightarrow> (\<exists>x. input_is r5 x \<and> input_is r6 x))"
    using 5(3,4) 6(3,4) bad by (cases out) auto
  then show ?thesis using 5 6 by fastforce
qed

lemma count_ok_prefix: "count_ok (s @ x) \<Longrightarrow> count_ok s"
proof (cases "find_crlf s")
  case (Some j)
  assume "count_ok (s @ x)"
  then show ?thesis unfolding count_ok_def find_crlf_append [OF Some, of x] Some option.case take_crlf_append [OF Some, of x] .
qed (simp add: count_ok_def)

lemma fits_prefix: "fits ty (s @ x) \<Longrightarrow> fits ty s"
proof -
  have "counts_fit (s @ x) \<Longrightarrow> counts_fit s" by (induction s) (auto intro: count_ok_prefix)
  then show "fits ty (s @ x) \<Longrightarrow> fits ty s" by (auto simp: fits_def intro: count_ok_prefix)
qed

lemma item_open:
  assumes "d < 8" "1 \<le> n" "n < 2 ^ 31"
  shows "item d (-1) (''*'' @ dec_nat n @ CRLF @ x) = IOpen (int n) x"
proof -
  have s: "s32 (int n) = int n" using assms(3) by simp
  have "(word_of_int (int n) :: 64 word) \<noteq> - 1"
    using sint_small [OF assms(3)] by (metis of_nat_0_le_iff sint_n1 not_one_le_zero neg_0_le_iff_le le_minus_one_simps(3))
  then show ?thesis using tok_num [of REDIS_REPLY_ARRAY "int n" x] sint_small [OF assms(3)] assms(1,2) s
    by (simp add: item_def typed_def type_of_byte_def Let_def dec_nat_int)
qed



lemma arun_elements:
  assumes "list_all (resp_ok (Suc (length fs))) es" "length d + length es < n"
  shows "arun ((d, n) # fs) (-1) (concat (map enc es) @ x) = arun ((d @ map val_of es, n) # fs) (-1) x"
  using assms
proof (induction es arbitrary: d)
  case (Cons e es)
  have "arun ((d, n) # fs) (-1) (enc e @ concat (map enc es) @ x) = arun ((d @ [val_of e], n) # fs) (-1) (concat (map enc es) @ x)"
    using Cons.prems arun_enc [of "(d, n) # fs" e "concat (map enc es) @ x"] by simp
  then show ?case using Cons.IH [of "d @ [val_of e]"] Cons.prems by simp
qed simp

fun deeper :: "(nat \<times> resp list) list \<Rightarrow> string" where
  \<comment> \<open>array headers, each followed by the first elements of its array\<close>
  "deeper [] = []"
| "deeper ((n, es) # ls) = ''*'' @ dec_nat n @ CRLF @ concat (map enc es) @ deeper ls"

fun opens :: "nat \<Rightarrow> (nat \<times> resp list) list \<Rightarrow> bool" where
  \<comment> \<open>at that depth: every array stays open after its first elements\<close>
  "opens d [] \<longleftrightarrow> True"
| "opens d ((n, es) # ls) \<longleftrightarrow> length es < n \<and> n < 2 ^ 31 \<and> list_all (resp_ok (Suc d)) es \<and> opens (Suc d) ls"

lemma arun_deeper:
  assumes "opens (length fs) ls" "length fs + length ls \<le> 8"
  shows "\<exists>gs. length gs = length fs + length ls \<and> arun fs (-1) (deeper ls @ x) = arun gs (-1) x"
  using assms
proof (induction ls arbitrary: fs rule: deeper.induct)
  case (2 n es ls)
  let ?r = "concat (map enc es) @ deeper ls @ x"
  have "item (length fs) (-1) (''*'' @ dec_nat n @ CRLF @ ?r) = IOpen (int n) ?r"
    using item_open [of "length fs" n ?r] 2(2,3) by simp
  then have "arun fs (-1) (''*'' @ dec_nat n @ CRLF @ ?r) = arun (([], n) # fs) (-1) ?r"
    using 2(2) by (subst arun.simps) simp
  then have "arun fs (-1) (deeper ((n, es) # ls) @ x) = arun ((map val_of es, n) # fs) (-1) (deeper ls @ x)"
    using arun_elements [of fs es "[]" n "deeper ls @ x"] 2(2) by simp
  then show ?case using 2(1) [of "(map val_of es, n) # fs"] 2(2,3) by simp
qed auto

lemma arun_too_deep: "length gs = 8 \<Longrightarrow> arun gs (-1) (''*'' @ x) = OErr deep_msg"
  by (subst arun.simps) (simp add: item_def type_of_byte_def typed_def)

text \<open>
  C4: more than eight levels of arrays are refused.  The reader is inside open arrays (\<open>afs\<close>), with
  whatever elements of them already built and wherever the input was cut; the input goes on with
  further elements (\<open>es\<close>) of the innermost one and with arrays that open up to the eighth level
  (\<open>ls\<close>), each with whatever first elements.  An array inside the eight, whatever its length and
  whatever follows, sets the protocol error with its message, frees all that was built, of this and
  of earlier calls, and drops the input.  (No allocation fails on the way; C1 says what happens when one does.)
\<close>
theorem nesting_limit:
  assumes "rstate r m base afs (-1) (concat (map enc es) @ deeper ls @ ''*'' @ x)"
    "length afs + length ls = 8" "opens (length afs) ls" "list_all (resp_ok (length afs)) es"
    "es \<noteq> [] \<Longrightarrow> afs \<noteq> [] \<and> length (fst (hd afs)) + length es < snd (hd afs)" "None \<notin> set (m_al m)"
  shows "\<exists>r' m'. redisReaderGetReply r m = Some (REDIS_ERR, None, r', m') \<and> rr_err r' = REDIS_ERR_PROTOCOL
    \<and> rr_errstr r' = ''No support for nested multi bulk replies with depth > 7'' \<and> rr_buf r' = None \<and> m_cells m' = base"
proof -
  obtain fs where fs: "length fs = length afs"
    "arun afs (-1) (concat (map enc es) @ deeper ls @ ''*'' @ x) = arun fs (-1) (deeper ls @ ''*'' @ x)"
  proof (cases "es = []")
    case False
    then obtain d n gs where "afs = (d, n) # gs" "length d + length es < n"
      using assms(5) by (cases afs) auto
    then show ?thesis
      using that [of "(d @ map val_of es, n) # gs"] arun_elements [of gs es d n "deeper ls @ ''*'' @ x"] assms(4) by simp
  qed (use that in simp)
  then have "arun afs (-1) (concat (map enc es) @ deeper ls @ ''*'' @ x) = OErr deep_msg"
    using arun_deeper [of fs ls "''*'' @ x"] assms(2,3) arun_too_deep by fastforce
  then show ?thesis using redisReaderGetReply_content [OF assms(1) _ assms(6)]
    by (auto simp: failed_def mem_is_def heap_is_Nil deep_msg_def)
qed

theorem nesting_limit_witness:
  "\<exists>r al1 r1 al2 r' m'. redisReaderCreate [] = Some (Some r, al1)
    \<and> redisReaderFeed r (Some (''*2'' @ CRLF @ ''$-1'' @ CRLF @ concat (replicate 7 (''*1'' @ CRLF)) @ ''*2'')) 39 empty_mem al1
        = Some (REDIS_OK, r1, empty_mem, al2)
    \<and> redisReaderGetReply r1 empty_mem = Some (REDIS_ERR, None, r', m') \<and> rr_err r' = REDIS_ERR_PROTOCOL"
proof -
  define ls :: "(nat \<times> resp list) list" where "ls = (2, [RNil]) # replicate 7 (1, [])"
  define s where "s = concat (map enc []) @ deeper ls @ ''*'' @ ''2''"
  have d: "dec_nat 1 = ''1''" "dec_nat 2 = ''2''" "dec_int (-1) = ''-1''" by code_simp+
  then have s: "''*2'' @ CRLF @ ''$-1'' @ CRLF @ concat (replicate 7 (''*1'' @ CRLF)) @ ''*2'' = s"
    by (simp add: s_def ls_def eval_nat_numeral)
  have l: "length s = 39" unfolding s [symmetric] by (simp add: eval_nat_numeral)
  obtain r al1 r1 al2 where "redisReaderCreate [] = Some (Some r, al1)"
    "redisReaderFeed r (Some s) 39 empty_mem al1 = Some (REDIS_OK, r1, empty_mem, al2)"
    "rstate r1 empty_mem Map.empty [] (-1) s"
    using created_fed [of s "[]" empty_mem Map.empty] l by auto
  moreover have "opens d (replicate k (1, []))" for d k by (induction k arbitrary: d) simp_all
  then have "length ls = 8" "opens 0 ls" by (simp_all add: ls_def)
  ultimately show ?thesis using nesting_limit [of r1 empty_mem Map.empty "[]" "[]" ls "''2''"]
    unfolding s s_def [symmetric] by auto
qed

text \<open>
  C5: at every place where an item may begin, a byte that is none of the five type bytes sets the
  protocol error, whose message quotes the byte (escaped if it does not print), frees all that was
  built and drops the input.
\<close>
theorem bad_type_byte:
  assumes "rstate r m base afs (-1) (c # x)" "c \<notin> set ''-+:$*''" "None \<notin> set (m_al m)"
  shows "\<exists>r' m'. redisReaderGetReply r m = Some (REDIS_ERR, None, r', m') \<and> rr_err r' = REDIS_ERR_PROTOCOL
    \<and> rr_errstr r' = ''Protocol error, got '' @ chrtos c @ '' as reply type byte'' \<and> rr_buf r' = None \<and> m_cells m' = base"
proof -
  have "type_of_byte c = None" using assms(2) by (auto simp: type_of_byte_def)
  then have "arun afs (-1) (c # x) = OErr (byte_msg c)" by (subst arun.simps) (simp add: item_def)
  then show ?thesis using redisReaderGetReply_content [OF assms(1) _ assms(3)]
    by (auto simp: failed_def mem_is_def heap_is_Nil byte_msg_def)
qed

theorem bad_type_byte_witness:
  "\<exists>r al1 r1 al2 r' m'. redisReaderCreate [] = Some (Some r, al1)
    \<and> redisReaderFeed r (Some ''@x'') 2 empty_mem al1 = Some (REDIS_OK, r1, empty_mem, al2)
    \<and> redisReaderGetReply r1 empty_mem = Some (REDIS_ERR, None, r', m')
    \<and> rr_errstr r' = ''Protocol error, got '' @ [DQUOTE, CHR ''@'', DQUOTE] @ '' as reply type byte''"
proof -
  define s where "s = CHR ''@'' # ''x''"
  have l: "length s = 2" by (simp add: s_def)
  obtain r al1 r1 al2 where "redisReaderCreate [] = Some (Some r, al1)"
    "redisReaderFeed r (Some s) 2 empty_mem al1 = Some (REDIS_OK, r1, empty_mem, al2)"
    "rstate r1 empty_mem Map.empty [] (-1) s"
    using created_fed [of s "[]" empty_mem Map.empty] l by auto
  moreover have "chrtos (CHR ''@'') = [DQUOTE, CHR ''@'', DQUOTE]" by (simp add: chrtos_def isprint_c_def code_def)
  ultimately show ?thesis using bad_type_byte [of r1 empty_mem Map.empty "[]" "CHR ''@''" "''x''"]
    unfolding s_def by fastforce
qed

end
