(* ===== verification/FormatProof.thy ===== *)
theory FormatProof
  imports Format ReaderProof
begin

text \<open>
  The formatter writes exactly the encoding of an array of bulk strings: lengths in advance equal
  the bytes written, the split of a format into words as a function on texts, and the words of a
  format made of literal characters and interpolated strings.
\<close>

section \<open>Lengths\<close>

lemma tdiv_nat: "tdiv (int n) 10 = int (n div 10)"
  by (auto simp: tdiv_def sgn_if zdiv_int)

lemma intlen_loop_nat: "intlen_loop (int n) l = l + int (length (dec_nat n))"
proof (induction n arbitrary: l rule: dec_nat_induct)
  case (small n)
  then show ?case by (subst intlen_loop.simps) (simp add: tdiv_nat dec_nat_small)
next
  case (large n)
  have "intlen_loop (int n) l = intlen_loop (int (n div 10)) (l + 1)"
    using large.hyps by (subst intlen_loop.simps) (auto simp add: tdiv_nat div_eq_0_iff simp del: of_nat_div of_nat_numeral)
  then show ?case using large.IH by (simp add: dec_nat_large [OF large.hyps])
qed

lemma intlen_nat: "intlen (int n) = int (length (dec_nat n))"
  by (simp add: intlen_def intlen_loop_nat)

lemma length_dec_nat_mono: "n \<le> m \<Longrightarrow> length (dec_nat n) \<le> length (dec_nat m)"
proof (induction m arbitrary: n rule: dec_nat_induct)
  case (small m)
  then show ?case by (simp add: dec_nat_small)
next
  case (large m)
  show ?case
  proof (cases "n < 10")
    case True
    then show ?thesis by (simp add: dec_nat_small Suc_leI)
  next
    case False
    then show ?thesis using large.IH [of "n div 10"] large.prems large.hyps by (simp add: dec_nat_large div_le_mono)
  qed
qed

definition bulk :: "string \<Rightarrow> string" where
  "bulk s = enc (RBulk s)"

definition wl :: "string list \<Rightarrow> nat" where
  "wl ws = length (concat (map bulk ws))"

lemma length_bulk: "length (bulk s) = length (dec_nat (length s)) + length s + 5"
  by (simp add: bulk_def)

lemma wl_simps [simp]: "wl [] = 0" "wl (w # ws) = length (bulk w) + wl ws" "wl (ws @ vs) = wl ws + wl vs"
  by (simp_all add: wl_def)

lemma bulk_mono: "length s \<le> length t \<Longrightarrow> length (bulk s) \<le> length (bulk t)"
  by (simp add: length_bulk length_dec_nat_mono add_mono)

lemma bulklen_bulk:
  assumes "length (bulk s) < 2 ^ 31"
  shows "bulklen (length s) = length (bulk s)"
proof -
  have "s32 (int (length s)) = int (length s)" using assms by (intro s32_of_nat) (simp add: length_bulk)
  then have "bulklen (length s) = nat (s32 (int (length (bulk s))) mod 2 ^ 64)"
    by (simp add: bulklen_def intlen_nat length_bulk ac_simps)
  also have "\<dots> = length (bulk s)" using assms by (simp add: nat_mod_as_int)
  finally show ?thesis .
qed

section \<open>Filling the block\<close>

lemma write_pos_append:
  "length bs \<le> length rest \<Longrightarrow> write_pos (int (length pre)) bs (pre @ rest) = Some (pre @ bs @ drop (length bs) rest)"
  by (simp add: write_pos_def write_at_Some)

lemma put_args_spec:
  assumes "list_all (\<lambda>(src, len). len \<le> length src) args" "ws = map (\<lambda>(src, len). take len src) args"
    "wl ws < length rest" "length pre + length rest < 2 ^ 31"
  shows "\<exists>rest'. put_args args (int (length pre)) (pre @ rest) = Some (int (length pre + wl ws), pre @ concat (map bulk ws) @ rest')
    \<and> length rest' = length rest - wl ws"
  using assms
proof (induction args arbitrary: ws pre rest)
  case (Cons a args)
  obtain src len where a: "a = (src, len)" by (cases a)
  define w where "w = take len src"
  define vs where "vs = map (\<lambda>(src, len). take len src) args"
  have len: "len \<le> length src" "length w = len" using Cons.prems(1) by (auto simp: a w_def)
  have ws: "ws = w # vs" using Cons.prems(2) by (simp add: a w_def vs_def)
  define t where "t = CHR ''$'' # dec_nat len @ CRLF"
  have b: "bulk w = t @ w @ CRLF" by (simp add: bulk_def t_def len(2))
  have lt: "length (bulk w) = length t + len + 2" by (simp add: b len(2))
  have room: "length t + len + 2 + wl vs < length rest" "length pre + length rest < 2 ^ 31"
    using Cons.prems(3,4) by (auto simp: ws lt)
  have lp: "length pre + length t + len + 2 < 2 ^ 31" using room by linarith
  define r1 where "r1 = NUL # drop (length t + 1) rest"
  define r2 where "r2 = drop len r1"
  define r3 where "r3 = drop 2 r2"
  have l1: "length r1 = length rest - length t" using room(1) by (simp add: r1_def)
  have l2: "length r2 = length rest - length t - len" by (simp add: r2_def l1)
  have l3: "length r3 = length rest - length (bulk w)" by (simp add: r3_def l2 lt)
  have e1: "write_pos (int (length pre)) (t @ [NUL]) (pre @ rest) = Some ((pre @ t) @ r1)"
    using write_pos_append [of "t @ [NUL]" rest pre] room(1) by (simp add: r1_def)
  have p1: "s32 (int (length pre) + int (length t)) = int (length (pre @ t))"
    using s32_of_nat [of "length (pre @ t)"] lp by simp
  have e2: "write_pos (int (length (pre @ t))) w ((pre @ t) @ r1) = Some ((pre @ t @ w) @ r2)"
    using write_pos_append [of w r1 "pre @ t"] room(1) l1 len(2) by (simp add: r2_def)
  have p2: "s32 (int (length (pre @ t)) + s32 (int len)) = int (length (pre @ t @ w))"
    using s32_of_nat [of "length (pre @ t @ w)"] s32_of_nat [of len] lp len(2) by (simp add: ac_simps)
  have e3: "write_pos (int (length (pre @ t @ w))) [CR] ((pre @ t @ w) @ r2) = Some ((pre @ t @ w @ [CR]) @ drop 1 r2)"
    using write_pos_append [of "[CR]" r2 "pre @ t @ w"] room(1) l2 by simp
  have p3: "s32 (int (length (pre @ t @ w)) + 1) = int (length (pre @ t @ w @ [CR]))"
    using s32_of_nat [of "length (pre @ t @ w @ [CR])"] lp len(2) by (simp add: ac_simps)
  have e4: "write_pos (int (length (pre @ t @ w @ [CR]))) [LF] ((pre @ t @ w @ [CR]) @ drop 1 r2) = Some ((pre @ bulk w) @ r3)"
    using write_pos_append [of "[LF]" "drop 1 r2" "pre @ t @ w @ [CR]"] room(1) l2 by (simp add: b r3_def numeral_2_eq_2)
  have p4: "s32 (int (length (pre @ t @ w)) + 2) = int (length (pre @ bulk w))"
    using s32_of_nat [of "length (pre @ bulk w)"] lp len(2) by (simp add: b ac_simps)
  have "read_at 0 len src = Some w" using len by (simp add: read_at_Some w_def)
  then have step: "put_args (a # args) (int (length pre)) (pre @ rest) = put_args args (int (length (pre @ bulk w))) ((pre @ bulk w) @ r3)"
    using e1 e2 e3 e4 p1 p2 p3 p4 by (simp only: a put_args.simps Let_def t_def [symmetric] Option.bind.bind_lunit)
  have "list_all (\<lambda>(src, len). len \<le> length src) args" using Cons.prems(1) by simp
  moreover have "wl vs < length r3" "length (pre @ bulk w) + length r3 < 2 ^ 31" using room l3 lt by auto
  ultimately obtain rest' where "put_args args (int (length (pre @ bulk w))) ((pre @ bulk w) @ r3)
      = Some (int (length (pre @ bulk w) + wl vs), (pre @ bulk w) @ concat (map bulk vs) @ rest')"
    "length rest' = length r3 - wl vs"
    using Cons.IH [OF _ vs_def, of r3 "pre @ bulk w"] by blast
  then show ?case unfolding step using l3 by (simp add: ws)
qed simp

lemma enc_array_bulk: "enc (RArray (map RBulk ws)) = CHR ''*'' # dec_nat (length ws) @ CRLF @ concat (map bulk ws)"
proof -
  have "map enc (map RBulk ws) = map bulk ws" by (induction ws) (simp_all add: bulk_def)
  then show ?thesis by (simp only: enc.simps length_map)
qed

lemma put_command_spec:
  assumes "list_all (\<lambda>(src, len). len \<le> length src) args" "ws = map (\<lambda>(src, len). take len src) args"
    "length cmd = length (enc (RArray (map RBulk ws))) + 1" "length cmd < 2 ^ 31"
  shows "put_command (int (length args)) args (int (length (enc (RArray (map RBulk ws))))) cmd
    = Some (enc (RArray (map RBulk ws)) @ [NUL])"
proof -
  define t where "t = CHR ''*'' # dec_nat (length args) @ CRLF"
  have e: "enc (RArray (map RBulk ws)) = t @ concat (map bulk ws)"
    unfolding enc_array_bulk t_def assms(2) by simp
  have l: "length cmd = length t + wl ws + 1" using assms(3) unfolding e by (simp add: wl_def)
  have t': "CHR ''*'' # dec_int (int (length args)) @ CRLF = t" by (simp add: t_def dec_int_def)
  define r1 where "r1 = NUL # drop (length t + 1) cmd"
  have w: "write_pos 0 (t @ [NUL]) cmd = Some (t @ r1)"
    using write_pos_append [of "t @ [NUL]" cmd "[]"] l by (simp add: r1_def)
  have "wl ws < length r1" "length t + length r1 < 2 ^ 31" using l assms(4) by (auto simp: r1_def)
  then obtain rest' where p: "put_args args (int (length t)) (t @ r1) = Some (int (length t + wl ws), t @ concat (map bulk ws) @ rest')"
    "length rest' = length r1 - wl ws"
    using put_args_spec [OF assms(1,2), of r1 t] by blast
  have "length rest' = 1" using p(2) l by (simp add: r1_def)
  then obtain z where z: "rest' = [z]" by (cases rest') auto
  have f: "write_pos (int (length t + wl ws)) [NUL] (t @ concat (map bulk ws) @ [z]) = Some (t @ concat (map bulk ws) @ [NUL])"
    using write_pos_append [of "[NUL]" "[z]" "t @ concat (map bulk ws)"] by (simp add: wl_def)
  have tl: "int (length t + wl ws) = int (length (enc (RArray (map RBulk ws))))" unfolding e by (simp add: wl_def)
  show ?thesis
    unfolding put_command_def t' Let_def w Option.bind.bind_lunit p(1) prod.case tl require_simps z
    using f unfolding tl e by simp
qed

lemma malloc_command:
  assumes "int n + 1 < 2 ^ 31"
  shows "nat (s32 (int n + 1) mod 2 ^ 64) = n + 1"
proof -
  have "s32 (int n + 1) = int (n + 1)" using s32_of_nat [of "n + 1"] assms by (simp add: add.commute)
  then show ?thesis using assms by (simp add: nat_mod_as_int)
qed

section \<open>The words of a format\<close>

datatype weffect = Cut | Add string

datatype wstep = WBad | WStop bool | WGo "char list" weffect "va list"

definition printf_step :: "char list \<Rightarrow> va list \<Rightarrow> wstep" where
  \<comment> \<open>a conversion other than \<open>%s\<close>, \<open>%b\<close>, \<open>%%\<close>: invalid, undefined or longer than one buffer, or its text\<close>
  "printf_step c ap =
     (case fmt_conv (fmt_spec (drop 1 c)) of
        None \<Rightarrow> WBad
      | Some None \<Rightarrow> WStop False
      | Some (Some (k, p)) \<Rightarrow>
          (case va_of_kind k ap of
             None \<Rightarrow> WBad
           | Some (a, ap) \<Rightarrow>
               let l = length c - length p + 1 in
               if l < 14 then
                 (case printf_text (take l c) a of
                    None \<Rightarrow> WBad
                  | Some out \<Rightarrow>
                      if length out \<le> 1022 \<and> NUL \<notin> set out then WGo (drop 2 (drop (l - 2) c)) (Add out) ap else WBad)
               else WGo (drop 2 c) (Add []) ap))"

definition percent_step :: "char list \<Rightarrow> va list \<Rightarrow> wstep" where
  "percent_step c ap =
     (if c ! 1 = CHR ''s'' then
        (case va_ptr ap of
           Some (arg, ap) \<Rightarrow> if NUL \<in> set arg then WGo (drop 2 c) (Add (takeWhile (\<lambda>c. c \<noteq> NUL) arg)) ap else WBad
         | None \<Rightarrow> WBad)
      else if c ! 1 = CHR ''b'' then
        (case va_ptr ap of
           Some (arg, ap) \<Rightarrow>
             (case va_size ap of
                Some (n, ap) \<Rightarrow> if n \<le> length arg then WGo (drop 2 c) (Add (take n arg)) ap else WBad
              | None \<Rightarrow> WBad)
         | None \<Rightarrow> WBad)
      else if c ! 1 = CHR ''%'' then WGo (drop 2 c) (Add ''%'') ap
      else printf_step c ap)"

definition word_step :: "char list \<Rightarrow> va list \<Rightarrow> wstep" where
  \<comment> \<open>what the next character or conversion of the format does to the words\<close>
  "word_step c ap =
     (case c of
        [] \<Rightarrow> WBad
      | x # r \<Rightarrow>
          if x = NUL then WStop True
          else if r = [] then WBad
          else if x \<noteq> CHR ''%'' \<or> hd r = NUL then WGo r (if x = CHR '' '' then Cut else Add [x]) ap
          else percent_step c ap)"

definition all_words :: "string \<Rightarrow> bool \<Rightarrow> string list \<Rightarrow> string list" where
  "all_words cur t ws = (if t then ws @ [cur] else ws)"

lemma word_step_length: "word_step c ap = WGo c' e ap' \<Longrightarrow> length c' < length c"
  by (auto simp: word_step_def percent_step_def printf_step_def Let_def less_Suc_eq_le split: list.splits if_splits option.splits)

function fmt_words :: "char list \<Rightarrow> string \<Rightarrow> bool \<Rightarrow> string list \<Rightarrow> va list \<Rightarrow> (bool \<times> string list) option" where
  \<comment> \<open>the word begun, whether it counts, and the words before; \<open>False\<close> comes with the words up to an invalid
     conversion\<close>
  "fmt_words c cur t ws ap =
     (case word_step c ap of
        WBad \<Rightarrow> None
      | WStop b \<Rightarrow> Some (b, all_words cur t ws)
      | WGo c' e ap' \<Rightarrow>
          (case e of
             Cut \<Rightarrow> fmt_words c' [] False (all_words cur t ws) ap'
           | Add x \<Rightarrow> fmt_words c' (cur @ x) True ws ap'))"
  by pat_completeness auto
termination
  by (relation "measure (\<lambda>(c, cur, t, ws, ap). length c)") (auto dest: word_step_length)

declare fmt_words.simps [simp del]

lemma wl_all_words_append: "wl (all_words cur t ws) \<le> wl (all_words (cur @ x) True ws)"
  using bulk_mono [of cur "cur @ x"] by (simp add: all_words_def)

lemma fmt_words_grow: "fmt_words c cur t ws ap = Some (b, ws') \<Longrightarrow> wl (all_words cur t ws) \<le> wl ws'"
proof (induction c cur t ws ap rule: fmt_words.induct)
  case (1 c cur t ws ap)
  show ?case
  proof (cases "word_step c ap")
    case (WGo c' e ap')
    show ?thesis
    proof (cases e)
      case Cut
      then show ?thesis using "1.IH"(1) [OF WGo Cut] "1.prems" WGo
        by (subst (asm) (2) fmt_words.simps) (simp add: all_words_def)
    next
      case (Add x)
      then have "wl (all_words (cur @ x) True ws) \<le> wl ws'"
        using "1.IH"(2) [OF WGo Add] "1.prems" WGo by (subst (asm) (2) fmt_words.simps) simp
      then show ?thesis using wl_all_words_append [of cur t ws x] by simp
    qed
  qed (use "1.prems" in \<open>subst (asm) fmt_words.simps, simp\<close>)+
qed

section \<open>The code follows the words\<close>

definition arg_is :: "sdshdr \<Rightarrow> string \<Rightarrow> bool" where
  "arg_is s w \<longleftrightarrow> sds_ok s \<and> sds_str s = w"

definition fmt_rel :: "fmt_state \<Rightarrow> string \<Rightarrow> bool \<Rightarrow> string list \<Rightarrow> va list \<Rightarrow> bool" where
  "fmt_rel st cur t ws ap \<longleftrightarrow> (\<exists>h. fs_cur st = Some h \<and> sds_ok h \<and> sds_str h = cur)
     \<and> fs_touched st = t \<and> list_all2 arg_is (fs_argv st) ws \<and> fs_totlen st = int (wl ws) \<and> fs_ap st = ap
     \<and> (t \<or> cur = [])"

definition goes :: "fmt_state \<Rightarrow> bool \<Rightarrow> fmt_state \<Rightarrow> string \<Rightarrow> bool \<Rightarrow> string list \<Rightarrow> va list \<Rightarrow> bool" where
  \<comment> \<open>a step either ran out of memory or goes on with these words\<close>
  "goes st ok st' cur t ws ap \<longleftrightarrow> set (fs_al st') \<subseteq> set (fs_al st)
     \<and> (if ok then fmt_rel st' cur t ws ap else None \<in> set (fs_al st))"

lemma set_newarg_goes:
  assumes "fmt_rel st cur t ws ap" "yields (fs_al st) res (cur @ x)"
  shows "\<exists>r ok st'. res = Some r \<and> set_newarg r (st\<lparr>fs_ap := ap'\<rparr>) = (ok, st') \<and> goes st ok st' (cur @ x) True ws ap'"
  using assms(2)
proof (cases rule: yieldsE)
  case (null al')
  then show ?thesis by (auto simp: set_newarg_def goes_def intro!: exI [where x = False])
next
  case (str h al')
  then show ?thesis using assms(1) by (auto simp: set_newarg_def goes_def fmt_rel_def)
qed

lemma fmt_rel_len: "fmt_rel st cur t ws ap \<Longrightarrow> fs_cur st = Some h \<Longrightarrow> sds_ok h \<and> sds_str h = cur \<and> sds_len h = length cur"
  using length_sds_str [of h] by (auto simp: fmt_rel_def)

lemma cat_yields:
  assumes "fmt_rel st cur t ws ap" "length cur + n < 2 ^ 31" "n \<le> length arg"
  shows "yields (fs_al st) (sdscatlen (fs_cur st) arg n (fs_al st)) (cur @ take n arg)"
proof -
  obtain h where h: "fs_cur st = Some h" using assms(1) by (auto simp: fmt_rel_def)
  note r = fmt_rel_len [OF assms(1) h]
  show ?thesis using sdscatlen_yields [of h n arg "fs_al st"] r assms(2,3) h by simp
qed

lemma same_yields: "fmt_rel st cur t ws ap \<Longrightarrow> yields (fs_al st) (Some (fs_cur st, fs_al st)) cur"
  by (auto simp: fmt_rel_def intro: yieldsI)

lemma word_bound: "wl (all_words cur True ws) < 2 ^ 31 \<Longrightarrow> length cur < 2 ^ 31 - 5"
  by (simp add: all_words_def length_bulk)

lemma fmt_printf_goes:
  assumes "fmt_rel st cur t ws ap" "printf_step c ap = WGo c' (Add x) ap'" "length cur + length x < 2 ^ 31"
  shows "\<exists>ok d st'. fmt_printf c st = Some (ok, d, st') \<and> drop 2 d = c' \<and> goes st ok st' (cur @ x) True ws ap'"
proof -
  have ap: "fs_ap st = ap" using assms(1) by (simp add: fmt_rel_def)
  obtain k p a where k: "fmt_conv (fmt_spec (drop 1 c)) = Some (Some (k, p))" "va_of_kind k ap = Some (a, ap')"
    using assms(2) by (auto simp: printf_step_def Let_def split: option.splits if_splits)
  define l where "l = length c - length p + 1"
  have step: "printf_step c ap = (if l < 14 then
      (case printf_text (take l c) a of None \<Rightarrow> WBad
       | Some out \<Rightarrow> if length out \<le> 1022 \<and> NUL \<notin> set out then WGo (drop 2 (drop (l - 2) c)) (Add out) ap' else WBad)
      else WGo (drop 2 c) (Add []) ap')"
    by (simp only: printf_step_def l_def Let_def k option.case prod.case)
  have code: "fmt_printf c st = (let st = st\<lparr>fs_ap := ap'\<rparr> in
      if l < 14 then do {
        out \<leftarrow> printf_text (take l c) a;
        r \<leftarrow> sdscatvprintf (fs_cur st) (take l c) out (fs_al st);
        (case set_newarg r st of (ok, st) \<Rightarrow> Some (ok, drop (l - 2) c, st))
      } else (case set_newarg (fs_cur st, fs_al st) st of (ok, st) \<Rightarrow> Some (ok, c, st)))"
    unfolding fmt_printf_def l_def using k ap by (simp add: Let_def)
  show ?thesis
  proof (cases "l < 14")
    case True
    then obtain out where o: "printf_text (take l c) a = Some out" "length out \<le> 1022" "NUL \<notin> set out"
      "x = out" "c' = drop 2 (drop (l - 2) c)"
      using assms(2) step by (auto split: option.splits if_splits)
    obtain h where h: "fs_cur st = Some h" using assms(1) by (auto simp: fmt_rel_def)
    have "cstrlen (take l c) \<le> 512" using cstrlen_le [of "take l c"] True by simp
    then have p: "sdscatvprintf (fs_cur st) (take l c) out (fs_al st) = sdscatlen (fs_cur st) x (length x) (fs_al st)"
      using sdscatprintf_short [of "take l c" out "fs_cur st" "fs_al st"] o h by (simp add: sdscatprintf_def)
    have "yields (fs_al st) (sdscatlen (fs_cur st) x (length x) (fs_al st)) (cur @ x)"
      using cat_yields [OF assms(1), of "length x" x] assms(3) by simp
    then obtain r ok st' where "sdscatlen (fs_cur st) x (length x) (fs_al st) = Some r"
      "set_newarg r (st\<lparr>fs_ap := ap'\<rparr>) = (ok, st')" "goes st ok st' (cur @ x) True ws ap'"
      using set_newarg_goes [OF assms(1)] by blast
    then show ?thesis using o(1,5) True p unfolding code by (simp add: Let_def)
  next
    case False
    then have o: "x = []" "c' = drop 2 c"
      using assms(2) step by auto
    obtain ok st' where "set_newarg (fs_cur st, fs_al st) (st\<lparr>fs_ap := ap'\<rparr>) = (ok, st')" "goes st ok st' (cur @ []) True ws ap'"
      using set_newarg_goes [OF assms(1), of "Some (fs_cur st, fs_al st)" "[]" ap'] same_yields [OF assms(1)] by auto
    then show ?thesis using o False unfolding code by (simp add: Let_def)
  qed
qed

lemma percent_goes:
  assumes "fmt_rel st cur t ws ap" "percent_step c ap = WGo c' e ap'" "c = pc # x # r"
    "\<And>y. e = Add y \<Longrightarrow> length cur + length y < 2 ^ 31"
  shows "\<exists>y ok d st'. e = Add y \<and> fmt_percent c st = Some (ok, d, st') \<and> drop 2 d = c' \<and> goes st ok st' (cur @ y) True ws ap'"
proof -
  have ap: "fs_ap st = ap" using assms(1) by (simp add: fmt_rel_def)
  have cat: "\<exists>r ok st'. (if n > 0 then sdscatlen (fs_cur st) arg n (fs_al st) else Some (fs_cur st, fs_al st)) = Some r
      \<and> set_newarg r (st\<lparr>fs_ap := ap1\<rparr>) = (ok, st') \<and> goes st ok st' (cur @ take n arg) True ws ap1"
    if "n \<le> length arg" "length cur + n < 2 ^ 31" for n arg ap1
  proof (cases "n > 0")
    case True
    then show ?thesis using set_newarg_goes [OF assms(1) cat_yields [OF assms(1) that(2,1)], of ap1] by simp
  next
    case False
    then show ?thesis
      using set_newarg_goes [OF assms(1), of "Some (fs_cur st, fs_al st)" "[]" ap1] same_yields [OF assms(1)] by simp
  qed
  consider (s) "x = CHR ''s''" | (b) "x = CHR ''b''" | (p) "x = CHR ''%''"
    | (other) "x \<noteq> CHR ''s''" "x \<noteq> CHR ''b''" "x \<noteq> CHR ''%''" by blast
  then show ?thesis
  proof cases
    case s
    obtain arg where arg: "va_ptr ap = Some (arg, ap')" "NUL \<in> set arg" "c' = r" "e = Add (takeWhile (\<lambda>c. c \<noteq> NUL) arg)"
      using assms(2,3) s by (auto simp: percent_step_def split: option.splits if_splits)
    have n: "strlen_block arg = Some (cstrlen arg)" using arg(2) by (simp add: strlen_block_def)
    have len: "length cur + cstrlen arg < 2 ^ 31" using assms(4) [OF arg(4)] by (simp add: cstrlen_def)
    obtain q ok st' where "(if cstrlen arg > 0 then sdscatlen (fs_cur st) arg (cstrlen arg) (fs_al st) else Some (fs_cur st, fs_al st)) = Some q"
      "set_newarg q (st\<lparr>fs_ap := ap'\<rparr>) = (ok, st')" "goes st ok st' (cur @ takeWhile (\<lambda>c. c \<noteq> NUL) arg) True ws ap'"
      using cat [OF cstrlen_le len, of ap'] unfolding take_cstrlen by blast
    then show ?thesis using arg n ap s
      by (intro exI [where x = "takeWhile (\<lambda>c. c \<noteq> NUL) arg"] exI [where x = ok] exI [where x = c] exI [where x = st'])
         (simp add: fmt_percent_def assms(3))
  next
    case b
    obtain arg n ap1 where arg: "va_ptr ap = Some (arg, ap1)" "va_size ap1 = Some (n, ap')" "n \<le> length arg" "c' = r"
      "e = Add (take n arg)"
      using assms(2,3) b by (auto simp: percent_step_def split: option.splits if_splits)
    have len: "length cur + n < 2 ^ 31" using assms(4) [OF arg(5)] arg(3) by simp
    obtain q ok st' where "(if n > 0 then sdscatlen (fs_cur st) arg n (fs_al st) else Some (fs_cur st, fs_al st)) = Some q"
      "set_newarg q (st\<lparr>fs_ap := ap'\<rparr>) = (ok, st')" "goes st ok st' (cur @ take n arg) True ws ap'"
      using cat [OF arg(3) len, of ap'] by blast
    then show ?thesis using arg ap b
      by (intro exI [where x = "take n arg"] exI [where x = ok] exI [where x = c] exI [where x = st'])
         (simp add: fmt_percent_def assms(3))
  next
    case p
    have e: "c' = r" "e = Add ''%''" "ap' = ap" using assms(2,3) p by (auto simp: percent_step_def)
    obtain h where h: "fs_cur st = Some h" using assms(1) by (auto simp: fmt_rel_def)
    have "yields (fs_al st) (sdscat (fs_cur st) ''%'' (fs_al st)) (cur @ ''%'')"
      using sdscat_yields [of h "''%''" "fs_al st"] fmt_rel_len [OF assms(1) h] assms(4) [OF e(2)] h by (simp add: cstrlen_def)
    then obtain q ok st' where "sdscat (fs_cur st) ''%'' (fs_al st) = Some q"
      "set_newarg q (st\<lparr>fs_ap := ap\<rparr>) = (ok, st')" "goes st ok st' (cur @ ''%'') True ws ap"
      using set_newarg_goes [OF assms(1)] by blast
    moreover have "st\<lparr>fs_ap := ap\<rparr> = st" using ap by simp
    ultimately show ?thesis using e p
      by (intro exI [where x = "''%''"] exI [where x = ok] exI [where x = c] exI [where x = st'])
         (simp add: fmt_percent_def assms(3))
  next
    case other
    then have ps: "printf_step c ap = WGo c' e ap'" using assms(2,3) by (simp add: percent_step_def)
    then obtain y where y: "e = Add y" by (auto simp: printf_step_def Let_def split: option.splits if_splits)
    show ?thesis using fmt_printf_goes [OF assms(1) ps [unfolded y] assms(4) [OF y]] other y
      by (auto simp: fmt_percent_def assms(3))
  qed
qed

lemma fmt_flush_goes:
  assumes "fmt_rel st cur t ws ap" "wl (ws @ [cur]) < 2 ^ 31"
  shows "\<exists>ok st'. fmt_flush st = Some (ok, st') \<and> set (fs_al st') \<subseteq> set (fs_al st) \<and> fs_ap st' = ap
    \<and> (if ok then list_all2 arg_is (fs_argv st') (ws @ [cur]) \<and> fs_totlen st' = int (wl (ws @ [cur])) else None \<in> set (fs_al st))"
proof (cases "alloc_next (fs_al st)")
  case (Pair a al)
  have s: "set al \<subseteq> set (fs_al st)" using Pair by (rule alloc_next_set)
  show ?thesis
  proof (cases a)
    case None
    then show ?thesis using Pair s alloc_next_None [of "fs_al st" al] assms(1)
      by (auto simp: fmt_flush_def fmt_rel_def intro!: exI [where x = False])
  next
    case (Some f)
    obtain h where h: "fs_cur st = Some h" using assms(1) by (auto simp: fmt_rel_def)
    note r = fmt_rel_len [OF assms(1) h]
    have b: "bulklen (sdslen h) = length (bulk cur)" using bulklen_bulk [of cur] assms(2) r by (simp add: sdslen_def)
    have "s32 (int (wl ws) + s32 (int (length (bulk cur)))) = int (wl (ws @ [cur]))"
      using s32_of_nat [of "wl (ws @ [cur])"] s32_of_nat [of "length (bulk cur)"] assms(2) by simp
    then show ?thesis using Pair Some s h r b assms(1)
      by (auto simp: fmt_flush_def fmt_rel_def arg_is_def list_all2_appendI intro!: exI [where x = True])
  qed
qed

lemma fmt_space_goes:
  assumes "fmt_rel st cur t ws ap" "wl (all_words cur t ws) < 2 ^ 31"
  shows "\<exists>ok st'. fmt_space st = Some (ok, st') \<and> goes st ok st' [] False (all_words cur t ws) ap"
proof (cases t)
  case False
  then have "fs_touched st = False" "cur = []" using assms(1) by (auto simp: fmt_rel_def)
  then show ?thesis using assms(1) False by (auto simp: fmt_space_def goes_def all_words_def intro!: exI [where x = True])
next
  case True
  have tt: "fs_touched st" using assms(1) True by (simp add: fmt_rel_def)
  obtain ok st1 where f: "fmt_flush st = Some (ok, st1)" "set (fs_al st1) \<subseteq> set (fs_al st)" "fs_ap st1 = ap"
    "if ok then list_all2 arg_is (fs_argv st1) (ws @ [cur]) \<and> fs_totlen st1 = int (wl (ws @ [cur])) else None \<in> set (fs_al st)"
    using fmt_flush_goes [OF assms(1)] assms(2) True by (auto simp: all_words_def)
  show ?thesis
  proof (cases ok)
    case False
    then show ?thesis using f tt by (auto simp: fmt_space_def goes_def intro!: exI [where x = False])
  next
    case ok: True
    show ?thesis using sdsempty_yields [of "fs_al st1"]
    proof (cases rule: yieldsE)
      case (null al')
      then show ?thesis using f tt ok by (auto simp: fmt_space_def goes_def intro!: exI [where x = False])
    next
      case (str h al')
      then show ?thesis using f tt ok True
        by (auto simp: fmt_space_def goes_def fmt_rel_def all_words_def intro!: exI [where x = True])
    qed
  qed
qed

definition built :: "fmt_state \<Rightarrow> string list \<Rightarrow> bool" where
  "built st ws' \<longleftrightarrow> (\<exists>cur t ws ap. fmt_rel st cur t ws ap \<and> all_words cur t ws = ws')"

definition fmt_result :: "allocs \<Rightarrow> bool \<Rightarrow> string list \<Rightarrow> (bool \<times> fmt_state) option \<Rightarrow> bool" where
  "fmt_result al b ws' res \<longleftrightarrow> (\<exists>ok st. res = Some (ok, st) \<and> set (fs_al st) \<subseteq> set al
     \<and> (\<not> ok \<and> None \<in> set al \<or> ok = b \<and> (b \<longrightarrow> built st ws')))"

lemma fmt_resultI:
  assumes "res = Some (ok, st)" "set (fs_al st) \<subseteq> set al" "\<not> ok \<and> None \<in> set al \<or> ok = b \<and> (b \<longrightarrow> built st ws')"
  shows "fmt_result al b ws' res"
  unfolding fmt_result_def using assms by blast

lemma fmt_result_mono:
  assumes "fmt_result al b ws' res" "set al \<subseteq> set al0"
  shows "fmt_result al0 b ws' res"
proof -
  obtain ok st where r: "res = Some (ok, st)" "set (fs_al st) \<subseteq> set al"
    "\<not> ok \<and> None \<in> set al \<or> ok = b \<and> (b \<longrightarrow> built st ws')"
    using assms(1) unfolding fmt_result_def by blast
  show ?thesis by (rule fmt_resultI [OF r(1)]) (use r(2,3) assms(2) in auto)
qed

lemma fmt_loop_words:
  assumes "fmt_words c cur t ws ap = Some (b, ws')" "fmt_rel st cur t ws ap" "wl ws' < 2 ^ 31"
  shows "fmt_result (fs_al st) b ws' (fmt_loop c st)"
  using assms
proof (induction c cur t ws ap arbitrary: st rule: fmt_words.induct)
  case (1 c cur t ws ap)
  have small: "wl (all_words cur t ws) < 2 ^ 31" using fmt_words_grow [OF "1.prems"(1)] "1.prems"(3) by simp
  have apst: "fs_ap st = ap" using "1.prems"(2) by (simp add: fmt_rel_def)
  show ?case
  proof (cases "word_step c ap")
    case WBad
    then show ?thesis using "1.prems"(1) by (subst (asm) fmt_words.simps) simp
  next
    case (WStop b0)
    then have b: "b = b0" "ws' = all_words cur t ws" using "1.prems"(1) by (subst (asm) fmt_words.simps, simp)+
    consider (stop) r where "c = NUL # r" "b0"
      | (bad) x r where "c = CHR ''%'' # x # r" "x \<noteq> NUL" "percent_step c ap = WStop b0"
    proof (cases c)
      case Nil
      then show ?thesis using WStop by (simp add: word_step_def)
    next
      case (Cons x r)
      show ?thesis
      proof (cases "x = NUL")
        case True
        then show ?thesis using WStop Cons by (intro stop) (simp_all add: word_step_def)
      next
        case False
        then have "r \<noteq> []" "x = CHR ''%''" "hd r \<noteq> NUL" "percent_step c ap = WStop b0"
          using WStop Cons by (simp_all add: word_step_def split: if_splits)
        then show ?thesis using Cons by (cases r) (auto intro: bad)
      qed
    qed
    then show ?thesis
    proof cases
      case stop
      then have "fmt_loop c st = Some (True, st)" by (subst fmt_loop.simps) simp
      moreover have "built st ws'" unfolding built_def using "1.prems"(2) b(2) by blast
      ultimately show ?thesis using b(1) stop(2) by (intro fmt_resultI [of _ True st]) simp_all
    next
      case bad
      then have x: "x \<noteq> CHR ''s''" "x \<noteq> CHR ''b''" "x \<noteq> CHR ''%''" "fmt_conv (fmt_spec (x # r)) = Some None" "\<not> b0"
        by (auto simp: percent_step_def printf_step_def Let_def split: if_splits option.splits)
      then have "fmt_percent c st = Some (False, c, st)" by (simp add: fmt_percent_def fmt_printf_def bad(1))
      then have "fmt_loop c st = Some (False, st)" using bad(1,2) by (subst fmt_loop.simps) simp
      then show ?thesis using b x(5) by (intro fmt_resultI [of _ False st]) simp_all
    qed
  next
    case (WGo c' e ap')
    define cur1 where "cur1 = (case e of Cut \<Rightarrow> [] | Add x \<Rightarrow> cur @ x)"
    define t1 where "t1 = (case e of Cut \<Rightarrow> False | Add x \<Rightarrow> True)"
    define ws1 where "ws1 = (case e of Cut \<Rightarrow> all_words cur t ws | Add x \<Rightarrow> ws)"
    have w1: "fmt_words c' cur1 t1 ws1 ap' = Some (b, ws')"
      using "1.prems"(1) WGo by (subst (asm) fmt_words.simps) (auto simp: cur1_def t1_def ws1_def split: weffect.splits)
    have IH: "fmt_rel st1 cur1 t1 ws1 ap' \<Longrightarrow> fmt_result (fs_al st1) b ws' (fmt_loop c' st1)" for st1
      using "1.IH" [OF WGo] w1 "1.prems"(3) by (cases e) (simp_all add: cur1_def t1_def ws1_def)
    have long: "length cur + length y < 2 ^ 31" if "e = Add y" for y
      using fmt_words_grow [OF w1] "1.prems"(3) that word_bound [of "cur @ y" ws] by (simp add: cur1_def t1_def ws1_def)
    have "\<exists>ok st1. fmt_loop c st = (if ok then fmt_loop c' st1 else Some (False, st1)) \<and> goes st ok st1 cur1 t1 ws1 ap'"
    proof -
      obtain x r where c: "c = x # r" "x \<noteq> NUL" "r \<noteq> []" using WGo by (auto simp: word_step_def split: list.splits if_splits)
      show ?thesis
      proof (cases "x \<noteq> CHR ''%'' \<or> hd r = NUL")
        case True
        then have e: "c' = r" "ap' = ap" "e = (if x = CHR '' '' then Cut else Add [x])" using WGo c by (auto simp: word_step_def)
        have step: "fmt_loop c st = (case (if x = CHR '' '' then fmt_space st else fmt_literal c st) of
               None \<Rightarrow> None
             | Some (ok, st) \<Rightarrow> if ok then fmt_loop r st else Some (False, st))"
          using c True by (subst fmt_loop.simps) (simp only: list.case if_True if_False simp_thms)
        show ?thesis
        proof (cases "x = CHR '' ''")
          case sp: True
          obtain ok st1 where "fmt_space st = Some (ok, st1)" "goes st ok st1 [] False (all_words cur t ws) ap"
            using fmt_space_goes [OF "1.prems"(2) small] by blast
          moreover have "fmt_loop c st = (if ok then fmt_loop c' st1 else Some (False, st1))"
            unfolding step if_P [OF sp] calculation(1) option.case prod.case e(1) ..
          moreover have "e = Cut" unfolding e(3) if_P [OF sp] ..
          ultimately show ?thesis unfolding cur1_def t1_def ws1_def e(2)
            by (intro exI [where x = ok] exI [where x = st1] conjI) simp_all
        next
          case False
          have y: "yields (fs_al st) (sdscatlen (fs_cur st) c 1 (fs_al st)) (cur @ [x])"
            using cat_yields [OF "1.prems"(2), of 1 c] long [of "[x]"] e(3) False c(1) by simp
          obtain q ok st1 where q: "sdscatlen (fs_cur st) c 1 (fs_al st) = Some q"
            "set_newarg q (st\<lparr>fs_ap := ap\<rparr>) = (ok, st1)" "goes st ok st1 (cur @ [x]) True ws ap"
            using set_newarg_goes [OF "1.prems"(2) y, of ap] by blast
          moreover have "st\<lparr>fs_ap := ap\<rparr> = st" using apst by simp
          ultimately have "fmt_literal c st = Some (ok, st1)" by (simp add: fmt_literal_def)
          then have "fmt_loop c st = (if ok then fmt_loop c' st1 else Some (False, st1))"
            unfolding step if_not_P [OF False] e(1) by simp
          moreover have "e = Add [x]" unfolding e(3) if_not_P [OF False] ..
          ultimately show ?thesis using q(3) unfolding cur1_def t1_def ws1_def e(2)
            by (intro exI [where x = ok] exI [where x = st1] conjI) simp_all
        qed
      next
        case False
        then obtain y r' where r: "r = y # r'" "y \<noteq> NUL" "x = CHR ''%''" using c by (cases r) auto
        have ps: "percent_step c ap = WGo c' e ap'" using WGo False c by (simp add: word_step_def)
        obtain z ok d st1 where z: "e = Add z" "fmt_percent c st = Some (ok, d, st1)" "drop 2 d = c'"
          "goes st ok st1 (cur @ z) True ws ap'"
          using percent_goes [OF "1.prems"(2) ps _ long] c(1) r(1) by blast
        have "fmt_loop c st = (if ok then fmt_loop (drop 2 d) st1 else Some (False, st1))"
          using c r z(2) by (subst fmt_loop.simps) simp
        then show ?thesis using z unfolding cur1_def t1_def ws1_def
          by (intro exI [where x = ok] exI [where x = st1] conjI) simp_all
      qed
    qed
    then obtain ok st1 where s: "fmt_loop c st = (if ok then fmt_loop c' st1 else Some (False, st1))" "goes st ok st1 cur1 t1 ws1 ap'"
      by blast
    show ?thesis
    proof (cases ok)
      case True
      then show ?thesis using s IH [of st1] fmt_result_mono by (auto simp: goes_def)
    next
      case False
      then show ?thesis using s by (intro fmt_resultI [of _ False st1]) (simp_all add: goes_def)
    qed
  qed
qed

lemma fmt_finish_spec:
  assumes "list_all2 arg_is (fs_argv st) ws" "fs_totlen st = int (wl ws)" "length (enc (RArray (map RBulk ws))) + 1 < 2 ^ 31"
  shows "\<exists>len cmd al'. fmt_finish st = Some (len, cmd, al') \<and> set al' \<subseteq> set (fs_al st)
    \<and> (len = -1 \<and> cmd = None \<and> None \<in> set (fs_al st)
       \<or> len = int (length (enc (RArray (map RBulk ws)))) \<and> cmd = Some (enc (RArray (map RBulk ws)) @ [NUL]))"
proof -
  define E where "E = enc (RArray (map RBulk ws))"
  define args where "args = map (\<lambda>s. (sds_buf s, sdslen s)) (fs_argv st)"
  have lw: "length (fs_argv st) = length ws" using assms(1) by (rule list_all2_lengthD)
  have le: "length E = 3 + length (dec_nat (length ws)) + wl ws" unfolding E_def enc_array_bulk by (simp add: wl_def)
  have "length ws \<le> wl ws" by (induction ws) (auto simp: length_bulk)
  then have argc: "s32 (int (length (fs_argv st))) = int (length args)"
    using s32_of_nat [of "length ws"] assms(3) le lw unfolding E_def [symmetric] by (simp add: args_def)
  have tot: "s32 (int (wl ws) + 1 + intlen (int (length args)) + 2) = int (length E)"
    using s32_of_nat [of "length E"] assms(3) lw unfolding E_def [symmetric]
    by (simp add: intlen_nat args_def le ac_simps)
  have sz: "nat (s32 (int (length E) + 1) mod 2 ^ 64) = length E + 1"
    using malloc_command [of "length E"] assms(3) unfolding E_def [symmetric] by simp
  have al: "list_all (\<lambda>(src, len). len \<le> length src) args"
    using assms(1) by (auto simp: args_def list_all_iff list_all2_conv_all_nth in_set_conv_nth arg_is_def sds_ok_def sdslen_def)
  have "map (\<lambda>s. take (sdslen s) (sds_buf s)) (fs_argv st) = ws"
    using assms(1) by (induction rule: list_all2_induct) (simp_all add: arg_is_def sds_str_def sdslen_def)
  then have ws: "ws = map (\<lambda>(src, len). take len src) args" by (simp add: args_def comp_def)
  have code: "fmt_finish st = (case malloc_bytes (length E + 1) (fs_al st) of
        (None, al) \<Rightarrow> Some (-1, None, al)
      | (Some cmd, al) \<Rightarrow> do {
          cmd \<leftarrow> put_command (int (length args)) args (int (length E)) cmd;
          Some (int (length E), Some cmd, al)
        })"
    unfolding fmt_finish_def Let_def argc assms(2) tot sz args_def [symmetric] ..
  show ?thesis
  proof (cases "alloc_next (fs_al st)")
    case (Pair a al')
    have s: "set al' \<subseteq> set (fs_al st)" using Pair by (rule alloc_next_set)
    show ?thesis
    proof (cases a)
      case None
      then show ?thesis using Pair s alloc_next_None [of "fs_al st" al'] unfolding code by (simp add: malloc_bytes_def)
    next
      case (Some f)
      define blk where "blk = map f [0..<length E + 1]"
      have "length blk = length E + 1" by (simp add: blk_def)
      then have "put_command (int (length args)) args (int (length E)) blk = Some (E @ [NUL])"
        using put_command_spec [OF al ws, of blk] assms(3) unfolding E_def [symmetric] by simp
      moreover have "malloc_bytes (length E + 1) (fs_al st) = (Some blk, al')"
        using Pair Some by (simp add: malloc_bytes_def blk_def del: upt_Suc)
      ultimately show ?thesis using s unfolding code E_def [symmetric] by simp
    qed
  qed
qed

text \<open>The formatter as a function of the words of its format.\<close>

definition formatted :: "allocs \<Rightarrow> bool \<Rightarrow> string list \<Rightarrow> (int \<times> char list option \<times> allocs) option \<Rightarrow> bool" where
  \<comment> \<open>the command of these words, or -1 for an invalid format or a failed allocation\<close>
  "formatted al b ws res \<longleftrightarrow> (\<exists>len cmd al'. res = Some (len, cmd, al') \<and> set al' \<subseteq> set al
     \<and> (len = -1 \<and> cmd = None \<and> (None \<in> set al \<or> \<not> b)
        \<or> b \<and> len = int (length (enc (RArray (map RBulk ws)))) \<and> cmd = Some (enc (RArray (map RBulk ws)) @ [NUL])))"

lemma redisvFormatCommand_words:
  assumes "fmt_words (format @ [NUL]) [] False [] ap = Some (b, ws)" "length (enc (RArray (map RBulk ws))) + 1 < 2 ^ 31"
  shows "formatted al b ws (redisvFormatCommand format ap al)"
  using sdsempty_yields [of al]
proof (cases rule: yieldsE)
  case (null al')
  then show ?thesis by (simp add: redisvFormatCommand_def formatted_def)
next
  case (str h al')
  define st where "st = \<lparr>fs_cur = Some h, fs_touched = False, fs_argv = [], fs_totlen = 0, fs_ap = ap, fs_al = al'\<rparr>"
  have rel: "fmt_rel st [] False [] ap" using str by (simp add: fmt_rel_def st_def)
  have small: "wl ws < 2 ^ 31" using assms(2) unfolding enc_array_bulk by (simp add: wl_def)
  obtain ok st1 where l: "fmt_loop (format @ [NUL]) st = Some (ok, st1)" "set (fs_al st1) \<subseteq> set al'"
    "\<not> ok \<and> None \<in> set al' \<or> ok = b \<and> (b \<longrightarrow> built st1 ws)"
    using fmt_loop_words [OF assms(1) rel small] by (auto simp: fmt_result_def st_def)
  have code: "redisvFormatCommand format ap al = (if \<not> ok then Some (-1, None, fs_al st1)
      else do {
        (ok, st) \<leftarrow> (if fs_touched st1 then fmt_flush st1 else Some (True, st1));
        if \<not> ok then Some (-1, None, fs_al st) else fmt_finish st
      })"
    using str(1) l(1) by (simp add: redisvFormatCommand_def st_def)
  show ?thesis
  proof (cases ok)
    case False
    then show ?thesis using l(2,3) str(4) unfolding code by (auto simp: formatted_def)
  next
    case True
    then obtain cur t ws0 ap1 where r: "fmt_rel st1 cur t ws0 ap1" "all_words cur t ws0 = ws" "b" using l(3) by (auto simp: built_def)
    have "\<exists>ok2 st2. (if fs_touched st1 then fmt_flush st1 else Some (True, st1)) = Some (ok2, st2) \<and> set (fs_al st2) \<subseteq> set (fs_al st1)
      \<and> (if ok2 then list_all2 arg_is (fs_argv st2) ws \<and> fs_totlen st2 = int (wl ws) else None \<in> set (fs_al st1))"
    proof (cases t)
      case t: True
      then have "fs_touched st1" "ws = ws0 @ [cur]" using r by (auto simp: fmt_rel_def all_words_def)
      then show ?thesis using fmt_flush_goes [OF r(1)] small by (simp only: if_True) blast
    next
      case False
      then have "fs_touched st1 = False" "ws = ws0" using r by (auto simp: fmt_rel_def all_words_def)
      then show ?thesis using r(1) by (auto simp: fmt_rel_def intro!: exI [where x = True])
    qed
    then obtain ok2 st2 where f: "(if fs_touched st1 then fmt_flush st1 else Some (True, st1)) = Some (ok2, st2)"
      "set (fs_al st2) \<subseteq> set (fs_al st1)"
      "if ok2 then list_all2 arg_is (fs_argv st2) ws \<and> fs_totlen st2 = int (wl ws) else None \<in> set (fs_al st1)" by blast
    show ?thesis
    proof (cases ok2)
      case False
      then show ?thesis using f l(2) str(4) True unfolding code by (auto simp: formatted_def)
    next
      case ok2: True
      obtain len cmd al2 where "fmt_finish st2 = Some (len, cmd, al2)" "set al2 \<subseteq> set (fs_al st2)"
        "len = -1 \<and> cmd = None \<and> None \<in> set (fs_al st2)
         \<or> len = int (length (enc (RArray (map RBulk ws)))) \<and> cmd = Some (enc (RArray (map RBulk ws)) @ [NUL])"
        using fmt_finish_spec [of st2 ws] f(3) ok2 assms(2) by auto
      then show ?thesis using f(1,2) l(2) str(4) True ok2 r(3) unfolding code formatted_def
        by (simp only: Option.bind.bind_lunit prod.case not_True_eq_False if_False) blast
    qed
  qed
qed

section \<open>Words made of literal characters and interpolated strings\<close>

datatype piece =
    PChar char     \<comment> \<open>a character of the format\<close>
  | PStr string    \<comment> \<open>\<open>%s\<close>\<close>
  | PBin string    \<comment> \<open>\<open>%b\<close>\<close>
  | PPercent       \<comment> \<open>\<open>%%\<close>\<close>

fun piece_ok :: "piece \<Rightarrow> bool" where
  "piece_ok (PChar c) \<longleftrightarrow> c \<noteq> NUL \<and> c \<noteq> CHR ''%'' \<and> c \<noteq> CHR '' ''"
| "piece_ok (PStr s) \<longleftrightarrow> NUL \<notin> set s"
| "piece_ok (PBin s) \<longleftrightarrow> True"
| "piece_ok PPercent \<longleftrightarrow> True"

fun piece_format :: "piece \<Rightarrow> string" where
  "piece_format (PChar c) = [c]"
| "piece_format (PStr s) = ''%s''"
| "piece_format (PBin s) = ''%b''"
| "piece_format PPercent = ''%%''"

fun piece_args :: "piece \<Rightarrow> va list" where
  "piece_args (PChar c) = []"
| "piece_args (PStr s) = [VPtr (s @ [NUL])]"
| "piece_args (PBin s) = [VPtr s, VSize (length s)]"
| "piece_args PPercent = []"

fun piece_text :: "piece \<Rightarrow> string" where
  "piece_text (PChar c) = [c]"
| "piece_text (PStr s) = s"
| "piece_text (PBin s) = s"
| "piece_text PPercent = ''%''"

definition word_format :: "piece list \<Rightarrow> string" where
  "word_format ps = concat (map piece_format ps)"

definition word_args :: "piece list \<Rightarrow> va list" where
  "word_args ps = concat (map piece_args ps)"

definition word_text :: "piece list \<Rightarrow> string" where
  "word_text ps = concat (map piece_text ps)"

fun words_format :: "piece list list \<Rightarrow> string" where
  "words_format [] = []"
| "words_format [w] = word_format w"
| "words_format (w # ws) = word_format w @ CHR '' '' # words_format ws"

lemma takeWhile_neq_all: "z \<notin> set s \<Longrightarrow> takeWhile (\<lambda>c. c \<noteq> z) (s @ [z]) = s"
  by (induction s) auto

lemma word_step_piece:
  assumes "piece_ok p" "x \<noteq> []"
  shows "word_step (piece_format p @ x) (piece_args p @ ap) = WGo x (Add (piece_text p)) ap"
proof (cases p)
  case (PStr s)
  have "takeWhile (\<lambda>c. c \<noteq> NUL) (s @ [NUL]) = s" using assms(1) PStr by (intro takeWhile_neq_all) simp
  then show ?thesis using PStr by (simp add: word_step_def percent_step_def va_ptr_def)
next
  case (PBin s)
  then show ?thesis by (simp add: word_step_def percent_step_def va_ptr_def va_size_def)
qed (use assms in \<open>simp_all add: word_step_def percent_step_def\<close>)

lemma fmt_words_pieces:
  assumes "list_all piece_ok ps" "x \<noteq> []"
  shows "fmt_words (word_format ps @ x) cur t ws (word_args ps @ ap)
    = fmt_words x (cur @ word_text ps) (t \<or> ps \<noteq> []) ws ap"
  using assms(1)
proof (induction ps arbitrary: cur t)
  case Nil
  then show ?case by (simp add: word_format_def word_args_def word_text_def)
next
  case (Cons p ps)
  have x: "word_format ps @ x \<noteq> []" using assms(2) by simp
  have "fmt_words (word_format (p # ps) @ x) cur t ws (word_args (p # ps) @ ap)
      = fmt_words (word_format ps @ x) (cur @ piece_text p) True ws (word_args ps @ ap)"
    using word_step_piece [OF _ x, of p "word_args ps @ ap"] Cons.prems
    by (subst fmt_words.simps) (simp add: word_format_def word_args_def)
  then show ?case using Cons by (simp add: word_text_def)
qed

lemma fmt_words_end: "fmt_words [NUL] cur t ws ap = Some (True, all_words cur t ws)"
  by (subst fmt_words.simps) (simp add: word_step_def)

lemma fmt_words_space: "x \<noteq> [] \<Longrightarrow> fmt_words (CHR '' '' # x) cur t ws ap = fmt_words x [] False (all_words cur t ws) ap"
  by (subst fmt_words.simps) (simp add: word_step_def)

lemma fmt_words_format:
  assumes "list_all (\<lambda>ps. ps \<noteq> [] \<and> list_all piece_ok ps) W"
  shows "fmt_words (words_format W @ [NUL]) [] False ws (concat (map word_args W)) = Some (True, ws @ map word_text W)"
  using assms
proof (induction W arbitrary: ws rule: words_format.induct)
  case (2 w)
  then show ?case using fmt_words_pieces [of w "[NUL]" "[]" False ws "[]"] by (simp add: fmt_words_end all_words_def)
next
  case (3 w v W)
  let ?r = "words_format (v # W) @ [NUL]"
  have "fmt_words (word_format w @ CHR '' '' # ?r) [] False ws (word_args w @ concat (map word_args (v # W)))
      = fmt_words (CHR '' '' # ?r) (word_text w) True ws (concat (map word_args (v # W)))"
    using fmt_words_pieces [of w "CHR '' '' # ?r" "[]" False ws] 3(2) by simp
  also have "\<dots> = fmt_words ?r [] False (ws @ [word_text w]) (concat (map word_args (v # W)))"
    by (subst fmt_words_space) (simp_all add: all_words_def)
  finally show ?case using 3 by simp
qed (simp add: fmt_words_end all_words_def)

section \<open>Arguments given as an array\<close>

lemma arg_lengths_spec:
  assumes "\<And>j. j \<in> set js \<Longrightarrow> arg_length argv lens j = Some (length (w j))" "tot + wl (map w js) < 2 ^ 31"
  shows "arg_lengths argv lens js (int tot) = Some (int (tot + wl (map w js)), map (\<lambda>j. (argv ! j, length (w j))) js)"
  using assms
proof (induction js arbitrary: tot)
  case (Cons j js)
  have b: "bulklen (length (w j)) = length (bulk (w j))" using Cons.prems(2) by (intro bulklen_bulk) simp
  have "s32 (int tot + s32 (int (length (bulk (w j))))) = int (tot + length (bulk (w j)))"
    using s32_of_nat [of "tot + length (bulk (w j))"] s32_of_nat [of "length (bulk (w j))"] Cons.prems(2) by simp
  then show ?case using Cons.IH [of "tot + length (bulk (w j))"] Cons.prems b by (simp add: ac_simps)
qed simp

lemma redisFormatCommandArgv_spec:
  assumes "\<And>j. j < length argv \<Longrightarrow> arg_length argv lens j = Some (length (ws ! j)) \<and> ws ! j = take (length (ws ! j)) (argv ! j)"
    "length ws = length argv" "length (enc (RArray (map RBulk ws))) + 1 < 2 ^ 31"
  shows "formatted al True ws (redisFormatCommandArgv (int (length argv)) argv lens al)"
proof -
  define E where "E = enc (RArray (map RBulk ws))"
  let ?js = "[0..<length argv]"
  define args where "args = map (\<lambda>j. (argv ! j, length (ws ! j))) ?js"
  have le: "length E = 3 + length (dec_nat (length ws)) + wl ws" unfolding E_def enc_array_bulk by (simp add: wl_def)
  have m: "map ((!) ws) ?js = ws" using map_nth [of ws] assms(2) by simp
  have t0: "s32 (1 + intlen (int (length argv)) + 2) = int (3 + length (dec_nat (length ws)))"
    using s32_of_nat [of "3 + length (dec_nat (length ws))"] assms(2,3) le unfolding E_def [symmetric] by (simp add: intlen_nat)
  have A: "arg_lengths argv lens ?js (int (3 + length (dec_nat (length ws)))) = Some (int (length E), args)"
    using arg_lengths_spec [of ?js argv lens "(!) ws" "3 + length (dec_nat (length ws))"] assms(1,3) le m
    unfolding E_def [symmetric] args_def by simp
  have sz: "nat (s32 (int (length E) + 1) mod 2 ^ 64) = length E + 1"
    using malloc_command [of "length E"] assms(3) unfolding E_def [symmetric] by simp
  have la: "length args = length argv" by (simp add: args_def)
  have code: "redisFormatCommandArgv (int (length argv)) argv lens al = (case malloc_bytes (length E + 1) al of
        (None, al) \<Rightarrow> Some (-1, None, al)
      | (Some cmd, al) \<Rightarrow> do {
          cmd \<leftarrow> put_command (int (length args)) args (int (length E)) cmd;
          Some (int (length E), Some cmd, al)
        })"
    by (simp only: redisFormatCommandArgv_def t0 nat_int A Option.bind.bind_lunit prod.case sz la)
  have al: "list_all (\<lambda>(src, len). len \<le> length src) args"
    using assms(1) by (auto simp: args_def list_all_iff) (metis length_take min.cobounded1)
  have ws: "ws = map (\<lambda>(src, len). take len src) args"
    using assms(1,2) by (intro nth_equalityI) (auto simp: args_def)
  show ?thesis
  proof (cases "alloc_next al")
    case (Pair a al')
    have s: "set al' \<subseteq> set al" using Pair by (rule alloc_next_set)
    show ?thesis
    proof (cases a)
      case None
      then show ?thesis using Pair s alloc_next_None [of al al'] unfolding code by (simp add: malloc_bytes_def formatted_def)
    next
      case (Some f)
      define blk where "blk = map f [0..<length E + 1]"
      have "length blk = length E + 1" by (simp add: blk_def)
      then have "put_command (int (length args)) args (int (length E)) blk = Some (E @ [NUL])"
        using put_command_spec [OF al ws, of blk] assms(3) unfolding E_def [symmetric] by simp
      moreover have "malloc_bytes (length E + 1) al = (Some blk, al')"
        using Pair Some by (simp add: malloc_bytes_def blk_def del: upt_Suc)
      ultimately show ?thesis using s unfolding code formatted_def E_def [symmetric] by simp
    qed
  qed
qed

lemma formatted_ok:
  "formatted al True ws res \<Longrightarrow> None \<notin> set al \<Longrightarrow>
   \<exists>al'. res = Some (int (length (enc (RArray (map RBulk ws)))), Some (enc (RArray (map RBulk ws)) @ [NUL]), al')"
  by (auto simp: formatted_def)

lemma bulk_array_ok: "length (enc (RArray (map RBulk ws))) < 2 ^ 31 \<Longrightarrow> resp_ok 0 (RArray (map RBulk ws))"
proof -
  assume a: "length (enc (RArray (map RBulk ws))) < 2 ^ 31"
  have w: "wl ws < 2 ^ 31" using a unfolding enc_array_bulk by (simp add: wl_def)
  have "length ws \<le> wl ws" by (induction ws) (auto simp: length_bulk)
  moreover have "length s \<le> wl ws" if "s \<in> set ws" for s
    using that by (induction ws) (auto simp: length_bulk)
  ultimately show ?thesis using w by (fastforce simp: list_all_iff)
qed

section \<open>Properties\<close>

text \<open>
  C19: interpolated arguments cannot change the structure of a command. For every format made of
  non-empty words of ordinary characters, \<open>%s\<close>, \<open>%b\<close> and \<open>%%\<close>, separated by single blanks, and any
  argument texts (blanks, percent signs, line ends, and in \<open>%b\<close> also NUL bytes), \<open>redisFormatCommand\<close>
  returns the length and the bytes of one command, and a reader fed with these bytes finds exactly one
  array with one bulk string for each word, equal to the word with its arguments put in.
\<close>
theorem interpolation_is_safe:
  assumes "list_all (\<lambda>ps. ps \<noteq> [] \<and> list_all piece_ok ps) W" "None \<notin> set al" "None \<notin> set al2" "None \<notin> set (m_al m)"
    "mem_is m base []" "length (enc (RArray (map RBulk (map word_text W)))) + 1 < 2 ^ 31"
  shows "\<exists>len cmd al' r al3 r1 al4 u r2 m2.
      redisFormatCommand (words_format W) (concat (map word_args W)) al = Some (len, Some (cmd @ [NUL]), al')
    \<and> len = int (length cmd) \<and> cmd = enc (RArray (map RBulk (map word_text W)))
    \<and> redisReaderCreate al2 = Some (Some r, al3)
    \<and> redisReaderFeed r (Some cmd) (length cmd) m al3 = Some (REDIS_OK, r1, m, al4)
    \<and> redisReaderGetReply r1 m = Some (REDIS_OK, Some (Obj (addr u)), r2, m2)
    \<and> erase u = val_of (RArray (map RBulk (map word_text W))) \<and> input_is r2 []"
proof -
  let ?ws = "map word_text W"
  have "formatted al True ([] @ ?ws) (redisvFormatCommand (words_format W) (concat (map word_args W)) al)"
    by (rule redisvFormatCommand_words [OF fmt_words_format [OF assms(1)]]) (use assms(6) in simp)
  then obtain al' where f: "redisvFormatCommand (words_format W) (concat (map word_args W)) al
      = Some (int (length (enc (RArray (map RBulk ?ws)))), Some (enc (RArray (map RBulk ?ws)) @ [NUL]), al')"
    using formatted_ok [OF _ assms(2), of ?ws] unfolding append_Nil by blast
  have ok: "resp_ok 0 (RArray (map RBulk ?ws))" by (rule bulk_array_ok) (use assms(6) in linarith)
  have len: "length (enc (RArray (map RBulk ?ws)) @ []) < 2 ^ 31" using assms(6) unfolding append_Nil2 by linarith
  show ?thesis
    using reader_decodes [OF ok len assms(3-5)] f unfolding append_Nil2 redisFormatCommand_def by blast
qed

theorem interpolation_is_safe_witness:
  "\<exists>cmd al' r al3 r1 al4 u r2 m2.
      redisFormatCommand ''SET k:%s %b'' [VPtr (''a b'' @ [NUL]), VPtr ''%s'', VSize 2] [] = Some (32, Some (cmd @ [NUL]), al')
    \<and> redisReaderCreate [] = Some (Some r, al3)
    \<and> redisReaderFeed r (Some cmd) 32 empty_mem al3 = Some (REDIS_OK, r1, empty_mem, al4)
    \<and> redisReaderGetReply r1 empty_mem = Some (REDIS_OK, Some (Obj (addr u)), r2, m2)
    \<and> erase u = val_of (RArray [RBulk ''SET'', RBulk ''k:a b'', RBulk ''%s''])"
proof -
  define W where "W = [[PChar CHR ''S'', PChar CHR ''E'', PChar CHR ''T''],
    [PChar CHR ''k'', PChar CHR '':'', PStr ''a b''], [PBin ''%s'']]"
  have W: "words_format W = ''SET k:%s %b''" "concat (map word_args W) = [VPtr (''a b'' @ [NUL]), VPtr ''%s'', VSize 2]"
    "map word_text W = [''SET'', ''k:a b'', ''%s'']" "list_all (\<lambda>ps. ps \<noteq> [] \<and> list_all piece_ok ps) W"
    by (simp_all add: W_def word_format_def word_args_def word_text_def)
  have "length (enc (RArray (map RBulk (map word_text W)))) = 32" unfolding W(3) by (simp add: dec_nat_small)
  moreover have "mem_is empty_mem Map.empty []" "None \<notin> set (m_al empty_mem)" by (simp_all add: empty_mem_def mem_is_def heap_is_def)
  ultimately obtain len cmd al' r al3 r1 al4 u r2 m2 where
      "redisFormatCommand (words_format W) (concat (map word_args W)) [] = Some (len, Some (cmd @ [NUL]), al')"
      "len = int (length cmd)" "length cmd = 32" "redisReaderCreate [] = Some (Some r, al3)"
      "redisReaderFeed r (Some cmd) (length cmd) empty_mem al3 = Some (REDIS_OK, r1, empty_mem, al4)"
      "redisReaderGetReply r1 empty_mem = Some (REDIS_OK, Some (Obj (addr u)), r2, m2)"
      "erase u = val_of (RArray (map RBulk (map word_text W)))"
    using interpolation_is_safe [OF W(4), of "[]" "[]" empty_mem Map.empty] by auto
  then show ?thesis unfolding W(1-3) list.map by auto
qed

text \<open>
  C20: whatever the format and the arguments, within the language of the parser, \<open>redisvFormatCommand\<close>
  never leaves a buffer: it returns the command of the words of the format, whose length is the number
  of bytes written, or -1, and that only for an invalid conversion or after a failed allocation.
\<close>
theorem format_writes_its_words:
  assumes "fmt_words (format @ [NUL]) [] False [] ap = Some (b, ws)" "length (enc (RArray (map RBulk ws))) + 1 < 2 ^ 31"
  shows "\<exists>len cmd al'. redisvFormatCommand format ap al = Some (len, cmd, al')
    \<and> (if len = -1 then cmd = None \<and> (None \<in> set al \<or> \<not> b)
       else b \<and> len = int (length (enc (RArray (map RBulk ws)))) \<and> cmd = Some (enc (RArray (map RBulk ws)) @ [NUL]))"
proof -
  define E where "E = enc (RArray (map RBulk ws))"
  have "formatted al b ws (redisvFormatCommand format ap al)" by (rule redisvFormatCommand_words [OF assms])
  then obtain len cmd al' where "redisvFormatCommand format ap al = Some (len, cmd, al')"
    "len = -1 \<and> cmd = None \<and> (None \<in> set al \<or> \<not> b) \<or> b \<and> len = int (length E) \<and> cmd = Some (E @ [NUL])"
    unfolding formatted_def E_def by blast
  then show ?thesis unfolding E_def [symmetric] by auto
qed

theorem format_writes_its_words_witness:
  "\<exists>al'. redisvFormatCommand ''%y'' [] [] = Some (-1, None, al')"
proof -
  have "fmt_words (''%y'' @ [NUL]) [] False [] [] = Some (False, [])"
    by (subst fmt_words.simps) (simp add: word_step_def percent_step_def printf_step_def fmt_conv_def fmt_spec_def skip_char_def
        isdigit_c_def code_def strchr_has_def intfmts_def all_words_def Let_def)
  then show ?thesis using format_writes_its_words [of "''%y''" "[]" False "[]" "[]"]
    by (auto simp: dec_nat_small split: if_splits)
qed

text \<open>
  C21: an array of arguments and a format that interpolates them give the same command: with explicit
  lengths, \<open>redisFormatCommandArgv\<close> returns the same length and bytes as \<open>redisFormatCommand\<close> with one
  \<open>%b\<close> for each argument.
\<close>
theorem argv_is_binary_format:
  assumes "list_all2 (\<lambda>blk n. n \<le> length blk) argv lens" "None \<notin> set al" "None \<notin> set al2"
    "length (enc (RArray (map RBulk (map2 take lens argv)))) + 1 < 2 ^ 31"
  shows "\<exists>len cmd al1 al3. redisFormatCommandArgv (int (length argv)) argv (Some lens) al = Some (len, Some cmd, al1)
    \<and> redisFormatCommand (words_format (map (\<lambda>w. [PBin w]) (map2 take lens argv)))
        (concat (map (\<lambda>w. [VPtr w, VSize (length w)]) (map2 take lens argv))) al2 = Some (len, Some cmd, al3)"
proof -
  define ws where "ws = map2 take lens argv"
  let ?W = "map (\<lambda>w. [PBin w]) ws"
  have l: "length lens = length argv" using assms(1) by (simp add: list_all2_lengthD)
  have "\<And>j. j < length argv \<Longrightarrow> lens ! j \<le> length (argv ! j)" using assms(1) by (simp add: list_all2_conv_all_nth)
  then have a: "formatted al True ws (redisFormatCommandArgv (int (length argv)) argv (Some lens) al)"
    using l assms(4) by (intro redisFormatCommandArgv_spec) (auto simp: arg_length_def min_absorb2 ws_def)
  have t: "map word_text ?W = ws" "map word_args ?W = map (\<lambda>w. [VPtr w, VSize (length w)]) ws"
    by (induction ws) (simp_all add: word_text_def word_args_def)
  have "list_all (\<lambda>ps. ps \<noteq> [] \<and> list_all piece_ok ps) ?W" by (auto simp: list_all_iff)
  then have "fmt_words (words_format ?W @ [NUL]) [] False [] (concat (map word_args ?W)) = Some (True, ws)"
    using fmt_words_format [of ?W "[]"] unfolding t(1) append_Nil by blast
  then have "formatted al2 True ws (redisvFormatCommand (words_format ?W) (concat (map word_args ?W)) al2)"
    using assms(4) unfolding ws_def [symmetric] by (rule redisvFormatCommand_words)
  then have b: "formatted al2 True ws (redisFormatCommand (words_format ?W) (concat (map (\<lambda>w. [VPtr w, VSize (length w)]) ws)) al2)"
    unfolding t(2) redisFormatCommand_def .
  show ?thesis unfolding ws_def [symmetric] using formatted_ok [OF a assms(2)] formatted_ok [OF b assms(3)] by blast
qed

theorem argv_is_binary_format_witness:
  "\<exists>len cmd al1 al3. redisFormatCommandArgv 2 [''GET'' @ [NUL], ''k v'' @ [NUL]] (Some [3, 3]) [] = Some (len, Some cmd, al1)
    \<and> redisFormatCommand ''%b %b'' [VPtr ''GET'', VSize 3, VPtr ''k v'', VSize 3] [] = Some (len, Some cmd, al3)"
proof -
  have w: "map2 take [3, 3] [''GET'' @ [NUL], ''k v'' @ [NUL]] = [''GET'', ''k v'']" by simp
  have E: "length (enc (RArray (map RBulk [''GET'', ''k v'']))) + 1 < 2 ^ 31" by (simp add: dec_nat_small)
  have F: "words_format (map (\<lambda>w. [PBin w]) [''GET'', ''k v'']) = ''%b %b''" by (simp add: word_format_def)
  have A: "concat (map (\<lambda>w. [VPtr w, VSize (length w)]) [''GET'', ''k v'']) = [VPtr ''GET'', VSize 3, VPtr ''k v'', VSize 3]"
    by simp
  have L: "list_all2 (\<lambda>blk n. n \<le> length blk) [''GET'' @ [NUL], ''k v'' @ [NUL]] [3, 3]" by simp
  have I: "int (length [''GET'' @ [NUL], ''k v'' @ [NUL]]) = 2" by simp
  have N: "None \<notin> set ([] :: allocs)" by simp
  show ?thesis
    using argv_is_binary_format [OF L N N, unfolded w, OF E] unfolding F A I .
qed

end
