(* ===== verification/ContextProof.thy ===== *)
theory ContextProof
  imports Context FormatProof
begin

text \<open>
  What the synchronous context guarantees: bytes leave in the order in which commands were appended
  and none is lost or sent twice, whatever the socket does; a call for a reply returns; and replies
  come back in order.
\<close>

section \<open>Flags\<close>

lemmas flag_defs = REDIS_BLOCK_def REDIS_CONNECTED_def REDIS_DISCONNECTING_def REDIS_FREEING_def
  REDIS_IN_CALLBACK_def REDIS_SUBSCRIBED_def REDIS_MONITORING_def

lemma has_flag_cong: "rc_flags c = rc_flags c' \<Longrightarrow> has_flag c f = has_flag c' f"
  by (simp add: has_flag_def)

section \<open>Sending\<close>

definition obuf_is :: "redisContext \<Rightarrow> string \<Rightarrow> bool" where
  "obuf_is c s \<longleftrightarrow> (\<exists>b. rc_obuf c = Some b \<and> sds_ok b \<and> sds_str b = s \<and> length s < 2 ^ 31)"

lemma obuf_isE:
  assumes "obuf_is c s"
  obtains b where "rc_obuf c = Some b" "sds_ok b" "sds_str b = s" "sds_len b = length s" "length s < 2 ^ 31"
  using assms unfolding obuf_is_def by (metis length_sds_str)

lemma obuf_doneI: "obuf_is c s \<Longrightarrow> obuf_done c = Some (s = [])"
proof -
  assume "obuf_is c s"
  then obtain b where b: "rc_obuf c = Some b" "sds_len b = length s" by (rule obuf_isE)
  then show ?thesis by (simp add: obuf_done_def sdslen_def)
qed

lemma written_spec:
  assumes "obuf_is c s" "n \<le> length s" "None \<notin> set (y_al y)"
  shows "\<exists>b al. written c (int n) y = Some (c\<lparr>rc_obuf := b\<rparr>, y\<lparr>y_al := al\<rparr>) \<and> None \<notin> set al
    \<and> obuf_is (c\<lparr>rc_obuf := b\<rparr>) (drop n s)"
proof -
  obtain b where b: "rc_obuf c = Some b" "sds_ok b" "sds_str b = s" "sds_len b = length s" "length s < 2 ^ 31"
    using obuf_isE [OF assms(1)] .
  show ?thesis
  proof (cases "n = 0")
    case True
    then show ?thesis using assms b
      by (intro exI [where x = "rc_obuf c"] exI [where x = "y_al y"]) (simp add: written_def obuf_is_def)
  next
    case n: False
    show ?thesis
    proof (cases "n = length s")
      case True
      obtain e al where e: "sdsempty (y_al y) = Some (Some e, al)" "sds_ok e" "sds_str e = []" "None \<notin> set al"
        using yields_ok [OF sdsempty_yields assms(3)] .
      have "written c (int n) y = Some (c\<lparr>rc_obuf := Some e\<rparr>, y\<lparr>y_al := al\<rparr>)"
        using n True b e(1) by (simp add: written_def sdslen_def)
      moreover have "obuf_is (c\<lparr>rc_obuf := Some e\<rparr>) (drop n s)" using e(2,3) True by (simp add: obuf_is_def)
      ultimately show ?thesis using e(4) by blast
    next
      case False
      then have lt: "n < length s" using assms(2) by simp
      have "c_slice (int n) (-1) s = drop n s" using lt by (simp add: c_slice_def Let_def)
      then obtain b' where b': "sdsrange b (int n) (-1) = Some b'" "sds_ok b'" "sds_str b' = drop n s"
        using sdsrange_spec [of b "int n" "-1"] b lt by auto
      have "written c (int n) y = Some (c\<lparr>rc_obuf := Some b'\<rparr>, y\<lparr>y_al := y_al y\<rparr>)"
        using n False b b'(1) by (simp add: written_def sdslen_def)
      moreover have "obuf_is (c\<lparr>rc_obuf := Some b'\<rparr>) (drop n s)" using b'(2,3) b(5) by (simp add: obuf_is_def)
      ultimately show ?thesis using assms(3) by blast
    qed
  qed
qed

definition sent_more :: "redisContext \<Rightarrow> sys \<Rightarrow> string \<Rightarrow> nat \<Rightarrow> redisContext \<Rightarrow> sys \<Rightarrow> bool" where
  \<comment> \<open>\<open>k\<close> bytes of the buffer have gone out and nothing but the buffer and the error has changed\<close>
  "sent_more c y s k c' y' \<longleftrightarrow> k \<le> length s \<and> obuf_is c' (drop k s) \<and> None \<notin> set (y_al y')
    \<and> (\<exists>b e es. c' = c\<lparr>rc_obuf := b, rc_err := e, rc_errstr := es\<rparr>)
    \<and> (\<exists>al en ws. y' = y\<lparr>y_al := al, y_errno := en, y_writes := (y_writes y)(rc_fd c := ws),
          y_sent := (y_sent y)(rc_fd c := y_sent y (rc_fd c) @ take k s)\<rparr>
        \<and> set ws \<subseteq> set (y_writes y (rc_fd c)) \<and> length ws \<le> length (y_writes y (rc_fd c)))"

lemma sent_more_refl: "obuf_is c s \<Longrightarrow> None \<notin> set (y_al y) \<Longrightarrow> sent_more c y s 0 c y"
  unfolding sent_more_def
  by (intro conjI exI [where x = "rc_obuf c"] exI [where x = "rc_err c"] exI [where x = "rc_errstr c"]
      exI [where x = "y_al y"] exI [where x = "y_errno y"] exI [where x = "y_writes y (rc_fd c)"]) simp_all

lemma sent_more_trans:
  assumes "sent_more c y s k c1 y1" "sent_more c1 y1 (drop k s) l c2 y2"
  shows "sent_more c y s (k + l) c2 y2"
proof -
  obtain b e es al en ws where 1: "k \<le> length s" "c1 = c\<lparr>rc_obuf := b, rc_err := e, rc_errstr := es\<rparr>"
    "y1 = y\<lparr>y_al := al, y_errno := en, y_writes := (y_writes y)(rc_fd c := ws),
          y_sent := (y_sent y)(rc_fd c := y_sent y (rc_fd c) @ take k s)\<rparr>"
    "set ws \<subseteq> set (y_writes y (rc_fd c))" "length ws \<le> length (y_writes y (rc_fd c))"
    using assms(1) unfolding sent_more_def by blast
  have fd: "rc_fd c1 = rc_fd c" "y_writes y1 (rc_fd c) = ws" using 1(2,3) by simp_all
  obtain b2 e2 es2 al2 en2 ws2 where 2: "l \<le> length (drop k s)" "c2 = c1\<lparr>rc_obuf := b2, rc_err := e2, rc_errstr := es2\<rparr>"
    "y2 = y1\<lparr>y_al := al2, y_errno := en2, y_writes := (y_writes y1)(rc_fd c := ws2),
          y_sent := (y_sent y1)(rc_fd c := y_sent y1 (rc_fd c) @ take l (drop k s))\<rparr>"
    "set ws2 \<subseteq> set ws" "length ws2 \<le> length ws" "obuf_is c2 (drop l (drop k s))" "None \<notin> set (y_al y2)"
    using assms(2) unfolding sent_more_def fd by blast
  have "c2 = c\<lparr>rc_obuf := b2, rc_err := e2, rc_errstr := es2\<rparr>" using 1(2) 2(2) by simp
  moreover have "y2 = y\<lparr>y_al := al2, y_errno := en2, y_writes := (y_writes y)(rc_fd c := ws2),
          y_sent := (y_sent y)(rc_fd c := y_sent y (rc_fd c) @ take (k + l) s)\<rparr>"
    using 1(3) 2(3) by (simp add: take_add)
  moreover have "k + l \<le> length s" "obuf_is c2 (drop (k + l) s)" using 1(1) 2(1,6) by (simp_all add: add.commute)
  moreover have "set ws2 \<subseteq> set (y_writes y (rc_fd c))" "length ws2 \<le> length (y_writes y (rc_fd c))"
    using 1(4,5) 2(4,5) by simp_all
  ultimately show ?thesis using 2(7) unfolding sent_more_def by blast
qed

definition soft :: "redisContext \<Rightarrow> int \<Rightarrow> bool" where
  \<comment> \<open>an \<open>errno\<close> after which the code tries again\<close>
  "soft c e \<longleftrightarrow> e = EAGAIN \<and> \<not> has_flag c REDIS_BLOCK \<or> e = EINTR"

lemma redisBufferWrite_spec:
  assumes "rc_err c = 0" "obuf_is c s" "None \<notin> set (y_al y)"
  shows "\<exists>st d c' y' k. redisBufferWrite c y = Some (st, d, c', y') \<and> sent_more c y s k c' y'
    \<and> (st = REDIS_OK \<and> rc_err c' = 0 \<and> d = Some (drop k s = [])
         \<and> (s = [] \<or> y_writes y (rc_fd c) = [] \<and> k = length s \<or> y_writes y' (rc_fd c) = tl (y_writes y (rc_fd c)) \<and> y_writes y (rc_fd c) \<noteq> [])
       \<or> st = REDIS_ERR \<and> d = None \<and> rc_err c' = REDIS_ERR_IO
         \<and> (\<exists>e ws. y_writes y (rc_fd c) = WFail e # ws \<and> \<not> soft c e))"
proof -
  obtain b where b: "rc_obuf c = Some b" "sds_ok b" "sds_str b = s" "sds_len b = length s" "length s < 2 ^ 31"
    using obuf_isE [OF assms(2)] .
  have rd: "read_at 0 (length s) (sds_buf b) = Some s"
    using b(2-4) by (simp add: read_at_def sds_str_def sds_ok_def)
  let ?fd = "rc_fd c"
  have ok: ?thesis
    if w: "sock_write ?fd s y = (int k, y1)" and k: "k \<le> length s" and s: "s \<noteq> []"
      and y1: "y1 = y\<lparr>y_writes := (y_writes y)(?fd := ws), y_sent := (y_sent y)(?fd := y_sent y ?fd @ take k s)\<rparr>"
      and ws: "y_writes y ?fd = [] \<and> k = length s \<and> ws = [] \<or> y_writes y ?fd \<noteq> [] \<and> ws = tl (y_writes y ?fd)"
    for k y1 ws
  proof -
    obtain b' al where w': "written c (int k) y1 = Some (c\<lparr>rc_obuf := b'\<rparr>, y1\<lparr>y_al := al\<rparr>)" "None \<notin> set al"
      "obuf_is (c\<lparr>rc_obuf := b'\<rparr>) (drop k s)"
      using written_spec [OF assms(2) k, of y1] assms(3) y1 by auto
    have s32: "s32 (int k) = int k" using k b(5) by simp
    have "redisBufferWrite c y = Some (REDIS_OK, Some (drop k s = []), c\<lparr>rc_obuf := b'\<rparr>, y1\<lparr>y_al := al\<rparr>)"
      using assms(1) b(1,4) rd w w'(1) obuf_doneI [OF w'(3)] s s32
      by (simp add: redisBufferWrite_def sdslen_def Let_def)
    moreover have "sent_more c y s k (c\<lparr>rc_obuf := b'\<rparr>) (y1\<lparr>y_al := al\<rparr>)"
      unfolding sent_more_def using k w'(2,3) y1 ws
      by (intro conjI exI [where x = b'] exI [where x = "rc_err c"] exI [where x = "rc_errstr c"]
        exI [where x = al] exI [where x = "y_errno y"] exI [where x = ws]) (auto dest: list.set_sel(2))
    ultimately show ?thesis using assms(1) ws y1
      by (intro exI [where x = REDIS_OK] exI conjI) (assumption | rule disjI1 | auto)+
  qed
  show ?thesis
  proof (cases "s = []")
    case True
    then have "redisBufferWrite c y = Some (REDIS_OK, Some (drop 0 s = []), c, y)"
      using assms(1) b(1,4) obuf_doneI [OF assms(2)] by (simp add: redisBufferWrite_def sdslen_def)
    then show ?thesis using sent_more_refl [OF assms(2,3)] assms(1) True by fastforce
  next
    case s: False
    show ?thesis
    proof (cases "y_writes y ?fd")
      case Nil
      show ?thesis
        by (rule ok [of "length s" _ "[]"]) (use s Nil in \<open>auto simp: sock_write_def fun_upd_idem\<close>)
    next
      case (Cons w ws)
      show ?thesis
      proof (cases w)
        case (WAccept j)
        have "take (min j (length s)) s = take j s" by (simp add: min_def)
        then show ?thesis
          by (intro ok [of "min j (length s)" _ ws]) (use s Cons WAccept in \<open>simp_all add: sock_write_def min.commute\<close>)
      next
        case (WFail e)
        let ?y = "y\<lparr>y_errno := e, y_writes := (y_writes y)(?fd := ws)\<rparr>"
        have w: "sock_write ?fd s y = (-1, ?y)" using Cons WFail by (simp add: sock_write_def)
        have m: "sent_more c y s 0 (c\<lparr>rc_err := x, rc_errstr := es\<rparr>) ?y" for x es
          unfolding sent_more_def using assms(2,3) Cons
          by (intro conjI exI [where x = "rc_obuf c"] exI [where x = x] exI [where x = es]
              exI [where x = "y_al y"] exI [where x = e] exI [where x = ws]) (auto simp: obuf_is_def)
        have neg: "s32 (- 1) = - 1" by (simp add: s32_def)
        show ?thesis
        proof (cases "soft c e")
          case True
          then have "redisBufferWrite c y = Some (REDIS_OK, Some (drop 0 s = []), c, ?y)"
            using assms(1) b(1,4) rd w s obuf_doneI [OF assms(2)] neg
            by (simp add: redisBufferWrite_def sdslen_def soft_def)
          moreover have "sent_more c y s 0 c ?y" using m [where x = "rc_err c" and es = "rc_errstr c"] by simp
          ultimately show ?thesis using assms(1) Cons
            by (intro exI [where x = REDIS_OK] exI [where x = "Some (drop 0 s = [])"] exI [where x = c]
              exI [where x = ?y] exI [where x = "0 :: nat"]) simp
        next
          case False
          then have "redisBufferWrite c y = Some (REDIS_ERR, None, c\<lparr>rc_err := REDIS_ERR_IO, rc_errstr := strerror_r 128 ?y\<rparr>, ?y)"
            using assms(1) b(1,4) rd w s neg
            by (auto simp: redisBufferWrite_def sdslen_def soft_def redisSetError_def)
          then show ?thesis using m [where x = REDIS_ERR_IO and es = "strerror_r 128 ?y"] Cons WFail False
            by (intro exI [where x = REDIS_ERR] exI [where x = None]
              exI [where x = "c\<lparr>rc_err := REDIS_ERR_IO, rc_errstr := strerror_r 128 ?y\<rparr>"]
              exI [where x = ?y] exI [where x = "0 :: nat"]) simp
        qed
      qed
    qed
  qed
qed

lemma redisBufferWrite_err: "rc_err c \<noteq> 0 \<Longrightarrow> redisBufferWrite c y = Some (REDIS_ERR, None, c, y)"
  by (simp add: redisBufferWrite_def)

lemma write_all_spec:
  assumes "rc_err c = 0" "obuf_is c s" "None \<notin> set (y_al y)"
  shows "\<exists>st c' y' k. write_all c y = Some (st, c', y') \<and> sent_more c y s k c' y'
    \<and> (st = REDIS_OK \<and> k = length s \<and> rc_err c' = 0
       \<or> st = REDIS_ERR \<and> rc_err c' = REDIS_ERR_IO \<and> (\<exists>e. WFail e \<in> set (y_writes y (rc_fd c)) \<and> \<not> soft c e))"
  using assms
proof (induction "length (y_writes y (rc_fd c))" arbitrary: c y s rule: less_induct)
  case less
  obtain st d c1 y1 k where w: "redisBufferWrite c y = Some (st, d, c1, y1)" "sent_more c y s k c1 y1"
    and d: "st = REDIS_OK \<and> rc_err c1 = 0 \<and> d = Some (drop k s = [])
         \<and> (s = [] \<or> y_writes y (rc_fd c) = [] \<and> k = length s \<or> y_writes y1 (rc_fd c) = tl (y_writes y (rc_fd c)) \<and> y_writes y (rc_fd c) \<noteq> [])
       \<or> st = REDIS_ERR \<and> d = None \<and> rc_err c1 = REDIS_ERR_IO
         \<and> (\<exists>e ws. y_writes y (rc_fd c) = WFail e # ws \<and> \<not> soft c e)"
    using redisBufferWrite_spec [OF less.prems] by blast
  have s1: "k \<le> length s" "obuf_is c1 (drop k s)" "None \<notin> set (y_al y1)" using w(2) by (simp_all add: sent_more_def)
  have same: "rc_fd c1 = rc_fd c" "soft c1 = soft c" "set (y_writes y1 (rc_fd c)) \<subseteq> set (y_writes y (rc_fd c))"
    using w(2) by (auto simp: sent_more_def soft_def has_flag_def fun_eq_iff)
  consider (err) "st = REDIS_ERR" | (gone) "st = REDIS_OK" "drop k s = []"
    | (more) "st = REDIS_OK" "drop k s \<noteq> []" using d by auto
  then show ?case
  proof cases
    case err
    then have "write_all c y = Some (REDIS_ERR, c1, y1)" using w(1) by (subst write_all.simps) simp
    moreover have "\<exists>e. WFail e \<in> set (y_writes y (rc_fd c)) \<and> \<not> soft c e" using d err by fastforce
    ultimately show ?thesis using w(2) d err by fastforce
  next
    case gone
    then have "write_all c y = Some (REDIS_OK, c1, y1)" using w(1) d by (subst write_all.simps) simp
    moreover have "k = length s" using gone(2) s1(1) by simp
    ultimately show ?thesis using w(2) d gone(1) by fastforce
  next
    case more
    then have "y_writes y1 (rc_fd c) = tl (y_writes y (rc_fd c))" "y_writes y (rc_fd c) \<noteq> []" "rc_err c1 = 0"
      using d by auto
    then have "length (y_writes y1 (rc_fd c1)) < length (y_writes y (rc_fd c))" using same by simp
    then obtain st2 c2 y2 l where r: "write_all c1 y1 = Some (st2, c2, y2)" "sent_more c1 y1 (drop k s) l c2 y2"
      "st2 = REDIS_OK \<and> l = length (drop k s) \<and> rc_err c2 = 0
       \<or> st2 = REDIS_ERR \<and> rc_err c2 = REDIS_ERR_IO \<and> (\<exists>e. WFail e \<in> set (y_writes y1 (rc_fd c1)) \<and> \<not> soft c1 e)"
      using less.hyps [OF _ _ s1(2,3)] \<open>rc_err c1 = 0\<close> by blast
    have "write_all c y = Some (st2, c2, y2)" using w(1) more d r(1) by (subst write_all.simps) simp
    moreover have "sent_more c y s (k + l) c2 y2" by (rule sent_more_trans [OF w(2) r(2)])
    ultimately show ?thesis using r(3) s1(1) same by fastforce
  qed
qed

section \<open>Receiving\<close>

definition reader_at ::
  "redisContext \<Rightarrow> sys \<Rightarrow> heap \<Rightarrow> (reply list \<times> nat) list \<Rightarrow> int \<Rightarrow> string \<Rightarrow> bool" where
  \<comment> \<open>the reader of the context stands for open arrays, a type and the input left; \<open>redisReaderGetReply\<close>
     never leaves more than 1024 bytes before the cursor\<close>
  "reader_at c y base afs ty rest \<longleftrightarrow> (\<exists>r. rc_reader c = Some r \<and> rstate r (y_mem y) base afs ty rest
     \<and> rr_len r \<le> 1024 + length rest \<and> None \<notin> set (m_al (y_mem y)))"

lemma reader_at_cong:
  "reader_at c y base afs ty rest \<Longrightarrow> rc_reader c' = rc_reader c \<Longrightarrow> y_mem y' = y_mem y \<Longrightarrow> reader_at c' y' base afs ty rest"
  by (simp add: reader_at_def)

lemma discard_read_pos: "discard_read r = Some r' \<Longrightarrow> rr_pos r' < 1024"
  by (auto simp: discard_read_def split: bind_splits if_splits)

lemma redisReaderGetReply_len:
  assumes "redisReaderGetReply r m = Some (REDIS_OK, ob, r', m')" "input_is r' x"
  shows "rr_len r' \<le> 1024 + length x"
proof -
  have "rr_pos r' < 1024 \<or> rr_len r' = 0"
    using assms(1) by (auto simp: redisReaderGetReply_def dest!: discard_read_pos split: bind_splits if_splits)
  moreover have "rr_pos r' + length x = rr_len r'" using input_facts [OF assms(2)] by blast
  ultimately show ?thesis by linarith
qed

lemma rstate_input: "rstate r m base afs ty rest \<Longrightarrow> input_is r rest"
  by (auto simp: rstate_def ready_def reads_def)

definition got :: "redisContext \<Rightarrow> sys \<Rightarrow> heap \<Rightarrow> outcome \<Rightarrow> int \<Rightarrow> obj option \<Rightarrow> redisContext \<Rightarrow> sys \<Rightarrow> bool" where
  \<comment> \<open>what a try for a reply reports for an outcome of the parser\<close>
  "got c y base out st ob c' y' \<longleftrightarrow>
     (\<exists>r e es. c' = c\<lparr>rc_reader := r, rc_err := e, rc_errstr := es\<rparr>) \<and> (\<exists>m. y' = y\<lparr>y_mem := m\<rparr>)
     \<and> (case out of
          OWait gs t x \<Rightarrow> st = REDIS_OK \<and> ob = None \<and> rc_err c' = rc_err c \<and> reader_at c' y' base gs t x
        | ODone u x \<Rightarrow> st = REDIS_OK \<and> rc_err c' = rc_err c \<and> (\<exists>t. erase t = u \<and> tree_ok t \<and> ob = Some (Obj (addr t))
             \<and> mem_is (y_mem y') base (cells_of t) \<and> reader_at c' y' (m_cells (y_mem y')) [] (-1) x)
        | OErr e \<Rightarrow> st = REDIS_ERR \<and> ob = None \<and> rc_err c' = REDIS_ERR_PROTOCOL
             \<and> rc_errstr c' = take 127 (takeWhile (\<lambda>c. c \<noteq> NUL) e) \<and> mem_is (y_mem y') base []
        | OBad \<Rightarrow> False)"

lemma redisGetReplyFromReader_spec:
  assumes "reader_at c y base afs ty rest" "arun afs ty rest \<noteq> OBad"
  shows "\<exists>st ob c' y'. redisGetReplyFromReader c y = Some (st, ob, c', y') \<and> got c y base (arun afs ty rest) st ob c' y'"
proof -
  obtain r where r: "rc_reader c = Some r" "rstate r (y_mem y) base afs ty rest" "None \<notin> set (m_al (y_mem y))"
    using assms(1) by (auto simp: reader_at_def)
  obtain st ob r' m' where g: "redisReaderGetReply r (y_mem y) = Some (st, ob, r', m')" "None \<notin> set (m_al m')"
    and d: "case arun afs ty rest of
             OWait afs t rest \<Rightarrow> st = REDIS_OK \<and> ob = None \<and> rstate r' m' base afs t rest
           | ODone u rest \<Rightarrow> st = REDIS_OK \<and> (\<exists>t. erase t = u \<and> tree_ok t \<and> ob = Some (Obj (addr t))
               \<and> mem_is m' base (cells_of t) \<and> ready r' m' (m_cells m') rest)
           | OErr e \<Rightarrow> st = REDIS_ERR \<and> ob = None \<and> failed r' m' base REDIS_ERR_PROTOCOL \<and> rr_errstr r' = e
           | OBad \<Rightarrow> False"
    using redisReaderGetReply_content [OF r(2) assms(2) r(3)] by blast
  let ?y = "y\<lparr>y_mem := m'\<rparr>"
  show ?thesis
  proof (cases "arun afs ty rest")
    case (OWait gs t x)
    then have d: "st = REDIS_OK" "ob = None" "rstate r' m' base gs t x" using d by auto
    have "redisGetReplyFromReader c y = Some (REDIS_OK, None, c\<lparr>rc_reader := Some r'\<rparr>, ?y)"
      using r(1) g(1) d by (simp add: redisGetReplyFromReader_def)
    moreover have "rr_len r' \<le> 1024 + length x" by (rule redisReaderGetReply_len [OF g(1) [unfolded d(1)] rstate_input [OF d(3)]])
    then have "reader_at (c\<lparr>rc_reader := Some r'\<rparr>) ?y base gs t x" using d g(2) by (simp add: reader_at_def)
    ultimately show ?thesis unfolding got_def OWait
      by (intro exI [where x = REDIS_OK] exI [where x = None] exI [where x = "c\<lparr>rc_reader := Some r'\<rparr>"] exI [where x = ?y]
        conjI exI [where x = "Some r'"] exI [where x = "rc_err c"] exI [where x = "rc_errstr c"] exI [where x = m'])
        simp_all
  next
    case (ODone u x)
    then obtain t where d: "st = REDIS_OK" "erase t = u" "tree_ok t" "ob = Some (Obj (addr t))"
      "mem_is m' base (cells_of t)" "ready r' m' (m_cells m') x" using d by auto
    have "redisGetReplyFromReader c y = Some (REDIS_OK, ob, c\<lparr>rc_reader := Some r'\<rparr>, ?y)"
      using r(1) g(1) d by (simp add: redisGetReplyFromReader_def)
    moreover have rs: "rstate r' m' (m_cells m') [] (-1) x" using ready_rstate [OF d(6)] .
    have "rr_len r' \<le> 1024 + length x" by (rule redisReaderGetReply_len [OF g(1) [unfolded d(1)] rstate_input [OF rs]])
    then have "reader_at (c\<lparr>rc_reader := Some r'\<rparr>) ?y (m_cells (y_mem ?y)) [] (-1) x" using rs g(2) by (simp add: reader_at_def)
    ultimately show ?thesis unfolding got_def ODone using d
      by (intro exI [where x = REDIS_OK] exI [where x = ob] exI [where x = "c\<lparr>rc_reader := Some r'\<rparr>"] exI [where x = ?y]
        conjI exI [where x = "Some r'"] exI [where x = "rc_err c"] exI [where x = "rc_errstr c"] exI [where x = m'])
        auto
  next
    case (OErr e)
    then have d: "st = REDIS_ERR" "ob = None" "rr_err r' = REDIS_ERR_PROTOCOL" "rr_errstr r' = e" "mem_is m' base []"
      using d by (auto simp: failed_def)
    let ?c = "c\<lparr>rc_reader := Some r', rc_err := REDIS_ERR_PROTOCOL, rc_errstr := take 127 (takeWhile (\<lambda>c. c \<noteq> NUL) e)\<rparr>"
    have "redisGetReplyFromReader c y = Some (REDIS_ERR, None, ?c, ?y)"
      using r(1) g(1) d by (simp add: redisGetReplyFromReader_def redisSetError_def)
    then show ?thesis unfolding got_def OErr using d(5)
      by (intro exI [where x = REDIS_ERR] exI [where x = None] exI [where x = ?c] exI [where x = ?y]
        conjI exI [where x = "Some r'"] exI [where x = REDIS_ERR_PROTOCOL]
        exI [where x = "take 127 (takeWhile (\<lambda>c. c \<noteq> NUL) e)"] exI [where x = m'])
        simp_all
  qed (use assms(2) in simp)
qed

fun feeds :: "(int \<Rightarrow> bool) \<Rightarrow> sock_read list \<Rightarrow> string" where
  \<comment> \<open>the bytes of the script before the end of the stream or an error that counts\<close>
  "feeds ok [] = []"
| "feeds ok (RData s # rs) = (if s = [] then [] else s @ feeds ok rs)"
| "feeds ok (RFail e # rs) = (if ok e then feeds ok rs else [])"

fun script_size :: "sock_read list \<Rightarrow> nat" where
  "script_size [] = 0"
| "script_size (RData s # rs) = Suc (length s + script_size rs)"
| "script_size (RFail e # rs) = Suc (script_size rs)"

definition read_more :: "redisContext \<Rightarrow> sys \<Rightarrow> redisContext \<Rightarrow> sys \<Rightarrow> bool" where
  \<comment> \<open>only the reader, the error and what belongs to reading has changed\<close>
  "read_more c y c' y' \<longleftrightarrow> None \<notin> set (y_al y')
    \<and> (\<exists>r e es. c' = c\<lparr>rc_reader := r, rc_err := e, rc_errstr := es\<rparr>)
    \<and> (\<exists>m al en rs. y' = y\<lparr>y_mem := m, y_al := al, y_errno := en, y_reads := (y_reads y)(rc_fd c := rs)\<rparr>)"

lemma read_moreI:
  "None \<notin> set (y_al y') \<Longrightarrow> c' = c\<lparr>rc_reader := r, rc_err := e, rc_errstr := es\<rparr> \<Longrightarrow>
   y' = y\<lparr>y_mem := m, y_al := al, y_errno := en, y_reads := (y_reads y)(rc_fd c := rs)\<rparr> \<Longrightarrow> read_more c y c' y'"
  unfolding read_more_def by blast

lemma read_more_refl: "None \<notin> set (y_al y) \<Longrightarrow> read_more c y c y"
  by (rule read_moreI [where r = "rc_reader c" and e = "rc_err c" and es = "rc_errstr c" and m = "y_mem y"
      and al = "y_al y" and en = "y_errno y" and rs = "y_reads y (rc_fd c)"]) simp_all

lemma read_more_trans:
  assumes "read_more c y c1 y1" "read_more c1 y1 c2 y2"
  shows "read_more c y c2 y2"
proof -
  obtain r e es m al en rs where 1: "c1 = c\<lparr>rc_reader := r, rc_err := e, rc_errstr := es\<rparr>"
    "y1 = y\<lparr>y_mem := m, y_al := al, y_errno := en, y_reads := (y_reads y)(rc_fd c := rs)\<rparr>"
    using assms(1) unfolding read_more_def by blast
  have fd: "rc_fd c1 = rc_fd c" using 1 by simp
  obtain r2 e2 es2 m2 al2 en2 rs2 where 2: "c2 = c1\<lparr>rc_reader := r2, rc_err := e2, rc_errstr := es2\<rparr>"
    "y2 = y1\<lparr>y_mem := m2, y_al := al2, y_errno := en2, y_reads := (y_reads y1)(rc_fd c := rs2)\<rparr>" "None \<notin> set (y_al y2)"
    using assms(2) unfolding read_more_def fd by blast
  show ?thesis
    by (rule read_moreI [where r = r2 and e = e2 and es = es2 and m = m2 and al = al2 and en = en2 and rs = rs2])
       (use 1 2 in simp_all)
qed

lemma got_read_more: "got c y base out st ob c' y' \<Longrightarrow> None \<notin> set (y_al y) \<Longrightarrow> read_more c y c' y'"
proof -
  assume "got c y base out st ob c' y'" and n: "None \<notin> set (y_al y)"
  then obtain r e es m where 1: "c' = c\<lparr>rc_reader := r, rc_err := e, rc_errstr := es\<rparr>" "y' = y\<lparr>y_mem := m\<rparr>"
    unfolding got_def by blast
  then show ?thesis
    by (intro read_moreI [where r = r and e = e and es = es and m = m
      and al = "y_al y" and en = "y_errno y" and rs = "y_reads y (rc_fd c)"]) (use n in simp_all)
qed

definition read_step :: "redisContext \<Rightarrow> sys \<Rightarrow> heap \<Rightarrow> (reply list \<times> nat) list \<Rightarrow> int \<Rightarrow> string \<Rightarrow> int \<Rightarrow> redisContext \<Rightarrow> sys \<Rightarrow> bool" where
  \<comment> \<open>one read: bytes fed to the reader, nothing for now, or an error at the end of what can be read\<close>
  "read_step c y base afs ty rest st c' y' \<longleftrightarrow> read_more c y c' y' \<and>
     (st = REDIS_OK \<and> rc_err c' = 0 \<and> (\<exists>s. reader_at c' y' base afs ty (rest @ s)
          \<and> feeds (soft c) (y_reads y (rc_fd c)) = s @ feeds (soft c) (y_reads y' (rc_fd c))
          \<and> script_size (y_reads y' (rc_fd c)) < script_size (y_reads y (rc_fd c)))
      \<or> st = REDIS_ERR \<and> rc_err c' \<in> {REDIS_ERR_IO, REDIS_ERR_EOF} \<and> feeds (soft c) (y_reads y (rc_fd c)) = [])"

lemma feed_context_spec:
  assumes "reader_at c y base afs ty rest" "n \<le> length s" "length (rest @ take n s) + 1024 < 2 ^ 31" "None \<notin> set (y_al y)"
  shows "\<exists>r al. feed_context c s n y = Some (REDIS_OK, c\<lparr>rc_reader := Some r\<rparr>, y\<lparr>y_al := al\<rparr>) \<and> None \<notin> set al
    \<and> reader_at (c\<lparr>rc_reader := Some r\<rparr>) (y\<lparr>y_al := al\<rparr>) base afs ty (rest @ take n s)"
proof -
  obtain r where r: "rc_reader c = Some r" "rstate r (y_mem y) base afs ty rest" "rr_len r \<le> 1024 + length rest"
    "None \<notin> set (m_al (y_mem y))"
    using assms(1) by (auto simp: reader_at_def)
  have l: "rr_len r + n < 2 ^ 31" using r(3) assms(2,3) by simp
  obtain st r' m' al' where f: "redisReaderFeed r (Some s) n (y_mem y) (y_al y) = Some (st, r', m', al')" "set al' \<subseteq> set (y_al y)"
    and d: "st = REDIS_OK \<and> m' = y_mem y \<and> rstate r' (y_mem y) base afs ty (rest @ take n s) \<and> rr_len r' \<le> rr_len r + n
       \<or> st = REDIS_ERR \<and> failed r' m' base REDIS_ERR_OOM \<and> None \<in> set (y_al y)"
    using redisReaderFeed_state [OF r(2) assms(2) l, of "y_al y"] assms(4) by blast
  then have d: "st = REDIS_OK" "m' = y_mem y" "rstate r' (y_mem y) base afs ty (rest @ take n s)" "rr_len r' \<le> rr_len r + n"
    using assms(4) by auto
  have "feed_context c s n y = Some (REDIS_OK, c\<lparr>rc_reader := Some r'\<rparr>, y\<lparr>y_al := al'\<rparr>)"
    using r(1) f(1) d(1,2) by (simp add: feed_context_def)
  moreover have "reader_at (c\<lparr>rc_reader := Some r'\<rparr>) (y\<lparr>y_al := al'\<rparr>) base afs ty (rest @ take n s)"
    using d(3,4) r(3,4) assms(2) by (simp add: reader_at_def)
  ultimately show ?thesis using f(2) assms(4) by blast
qed

lemma redisBufferRead_spec:
  assumes "rc_err c = 0" "reader_at c y base afs ty rest" "None \<notin> set (y_al y)"
    "length (rest @ feeds (soft c) (y_reads y (rc_fd c))) + 1024 < 2 ^ 31"
  shows "\<exists>st c' y'. redisBufferRead c y = Some (st, c', y') \<and> read_step c y base afs ty rest st c' y'"
proof -
  let ?fd = "rc_fd c"
  have neg: "s32 (- 1) = - 1" by (simp add: s32_def)
  have eof: ?thesis if "sock_read ?fd (1024 * 16) y = (0, [], y1)" "feeds (soft c) (y_reads y ?fd) = []"
    and y1: "y1 = y\<lparr>y_reads := (y_reads y)(?fd := rs)\<rparr>" for y1 rs
  proof -
    let ?c = "c\<lparr>rc_err := REDIS_ERR_EOF, rc_errstr := take 127 (takeWhile (\<lambda>c. c \<noteq> NUL) ''Server closed the connection'')\<rparr>"
    have "redisBufferRead c y = Some (REDIS_ERR, ?c, y1)"
      using assms(1) that(1) by (simp add: redisBufferRead_def redisSetError_def s32_def)
    moreover have "read_more c y ?c y1"
      by (rule read_moreI [where r = "rc_reader c" and e = REDIS_ERR_EOF and m = "y_mem y"
          and al = "y_al y" and en = "y_errno y" and rs = rs]) (use assms(3) y1 in simp_all)
    ultimately show ?thesis using that(2) unfolding read_step_def
      by (intro exI [where x = REDIS_ERR] exI [where x = ?c] exI [where x = y1]) simp
  qed
  show ?thesis
  proof (cases "y_reads y ?fd")
    case Nil
    then show ?thesis using eof [of y "[]"] by (simp add: sock_read_def fun_upd_idem)
  next
    case (Cons x rs)
    show ?thesis
    proof (cases x)
      case (RFail e)
      let ?y = "y\<lparr>y_errno := e, y_reads := (y_reads y)(?fd := rs)\<rparr>"
      have w: "sock_read ?fd (1024 * 16) y = (-1, [], ?y)" using Cons RFail by (simp add: sock_read_def)
      have m: "read_more c y (c\<lparr>rc_err := x, rc_errstr := es\<rparr>) ?y" for x es
        by (rule read_moreI [where r = "rc_reader c" and e = x and es = es and m = "y_mem y"
          and al = "y_al y" and en = e and rs = rs]) (use assms(3) in simp_all)
      show ?thesis
      proof (cases "soft c e")
        case True
        then have "redisBufferRead c y = Some (REDIS_OK, c, ?y)"
          using assms(1) w neg by (simp add: redisBufferRead_def soft_def)
        moreover have "read_more c y c ?y" using m [where x = "rc_err c" and es = "rc_errstr c"] by simp
        moreover have "reader_at c ?y base afs ty (rest @ [])" using assms(2) by (simp add: reader_at_def)
        ultimately show ?thesis unfolding read_step_def using assms(1) Cons RFail True
          by (intro exI [where x = REDIS_OK] exI [where x = c] exI [where x = ?y] conjI disjI1 exI [where x = "[]"]) simp_all
      next
        case False
        let ?c = "c\<lparr>rc_err := REDIS_ERR_IO, rc_errstr := strerror_r 128 ?y\<rparr>"
        have "redisBufferRead c y = Some (REDIS_ERR, ?c, ?y)"
          using assms(1) w neg False by (auto simp: redisBufferRead_def soft_def redisSetError_def)
        moreover have "feeds (soft c) (y_reads y ?fd) = []" using Cons RFail False by simp
        ultimately show ?thesis unfolding read_step_def using m [where x = REDIS_ERR_IO and es = "strerror_r 128 ?y"]
          by (intro exI [where x = REDIS_ERR] exI [where x = ?c] exI [where x = ?y]) simp
      qed
    next
      case (RData s)
      define n where "n = length (take (1024 * 16) s)"
      define rs' where "rs' = (if length s \<le> 1024 * 16 then rs else RData (drop (1024 * 16) s) # rs)"
      let ?y = "y\<lparr>y_reads := (y_reads y)(?fd := rs')\<rparr>"
      let ?s = "take (1024 * 16) s"
      have w: "sock_read ?fd (1024 * 16) y = (int n, ?s, ?y)" using Cons RData by (simp add: sock_read_def n_def rs'_def)
      show ?thesis
      proof (cases "s = []")
        case True
        then show ?thesis using eof [of ?y rs'] w Cons RData by (simp add: n_def)
      next
        case s: False
        have n: "0 < n" "n \<le> 16384" "s32 (int n) = int n" using s by (auto simp: n_def)
        have f: "feeds (soft c) (y_reads y ?fd) = ?s @ feeds (soft c) rs'" using Cons RData s by (auto simp: rs'_def)
        have sz: "script_size rs' < script_size (y_reads y ?fd)" using Cons RData s by (auto simp: rs'_def)
        have "reader_at c ?y base afs ty rest" using assms(2) by (simp add: reader_at_def)
        moreover have "n \<le> length ?s" "take n ?s = ?s" by (simp_all add: n_def min_def)
        moreover have "length (rest @ take n ?s) + 1024 < 2 ^ 31" using assms(4) f calculation(3) by simp
        ultimately obtain r al where fc: "feed_context c ?s n ?y = Some (REDIS_OK, c\<lparr>rc_reader := Some r\<rparr>, ?y\<lparr>y_al := al\<rparr>)"
          "None \<notin> set al" "reader_at (c\<lparr>rc_reader := Some r\<rparr>) (?y\<lparr>y_al := al\<rparr>) base afs ty (rest @ ?s)"
          using feed_context_spec [of c ?y base afs ty rest n ?s] assms(3) by auto
        have "redisBufferRead c y = Some (REDIS_OK, c\<lparr>rc_reader := Some r\<rparr>, ?y\<lparr>y_al := al\<rparr>)"
          using assms(1) w n fc(1) by (simp add: redisBufferRead_def)
        moreover have "read_more c y (c\<lparr>rc_reader := Some r\<rparr>) (?y\<lparr>y_al := al\<rparr>)"
          by (rule read_moreI [where r = "Some r" and e = "rc_err c" and es = "rc_errstr c" and m = "y_mem y"
            and al = al and en = "y_errno y" and rs = rs']) (use fc(2) in simp_all)
        ultimately show ?thesis unfolding read_step_def using assms(1) fc(3) f sz
          by (intro exI [where x = REDIS_OK] exI [where x = "c\<lparr>rc_reader := Some r\<rparr>"] exI [where x = "?y\<lparr>y_al := al\<rparr>"]
            conjI disjI1 exI [where x = ?s]) simp_all
      qed
    qed
  qed
qed

lemma item_IWait_len: "item d ty s = IWait t r \<Longrightarrow> length r \<le> length s"
  by (auto simp: item_def typed_def split: if_splits list.splits option.splits token.splits)

lemma arun_length:
  "(case arun fs ty s of OWait gs t r \<Rightarrow> length r \<le> length s | ODone u r \<Rightarrow> length r \<le> length s | _ \<Rightarrow> True)"
proof (induction fs ty s rule: arun.induct)
  case (1 fs ty s)
  show ?case
  proof (cases "item (length fs) ty s")
    case (IWait t r)
    then show ?thesis using item_IWait_len [OF IWait] by (subst arun.simps) simp
  next
    case (ILeaf c r)
    have "length r < length s" using item_less(1) [OF ILeaf] .
    then show ?thesis using 1(1) [OF ILeaf] ILeaf
      by (subst arun.simps) (fastforce split: apst.splits outcome.splits)
  next
    case (IOpen n r)
    have "length r < length s" using item_less(2) [OF IOpen] .
    then show ?thesis using 1(2) [OF IOpen] IOpen
      by (subst arun.simps) (fastforce split: outcome.splits)
  qed (subst arun.simps, simp)
qed

lemma arun_OWait_idem: "arun fs ty s = OWait gs t r \<Longrightarrow> arun gs t r = OWait gs t r"
  using arun_append [of fs ty s "[]"] by simp

definition replied ::
  "redisContext \<Rightarrow> sys \<Rightarrow> heap \<Rightarrow> outcome \<Rightarrow> int \<Rightarrow> obj option \<Rightarrow> redisContext \<Rightarrow> sys \<Rightarrow> bool" where
  \<comment> \<open>what a blocking call reports when the bytes to come lead the parser to an outcome\<close>
  "replied c y base out st ob c' y' \<longleftrightarrow> read_more c y c' y' \<and>
     (case out of
        ODone u x \<Rightarrow> st = REDIS_OK \<and> rc_err c' = 0 \<and> (\<exists>t x0. erase t = u \<and> tree_ok t \<and> ob = Some (Obj (addr t))
           \<and> mem_is (y_mem y') base (cells_of t) \<and> reader_at c' y' (m_cells (y_mem y')) [] (-1) x0
           \<and> x = x0 @ feeds (soft c) (y_reads y' (rc_fd c)))
      | OErr e \<Rightarrow> st = REDIS_ERR \<and> ob = None \<and> rc_err c' = REDIS_ERR_PROTOCOL
      | OWait gs t x \<Rightarrow> st = REDIS_ERR \<and> ob = None \<and> rc_err c' \<in> {REDIS_ERR_IO, REDIS_ERR_EOF}
      | OBad \<Rightarrow> False)"

lemma read_reply_spec:
  assumes "rc_err c = 0" "reader_at c y base afs ty rest" "None \<notin> set (y_al y)"
    "length (rest @ feeds (soft c) (y_reads y (rc_fd c))) + 1024 < 2 ^ 31"
    "arun afs ty rest = OWait afs ty rest" "out = arun afs ty (rest @ feeds (soft c) (y_reads y (rc_fd c)))" "out \<noteq> OBad"
  shows "\<exists>st ob c' y'. read_reply c y = Some (st, ob, c', y') \<and> replied c y base out st ob c' y'"
  using assms
proof (induction "script_size (y_reads y (rc_fd c))" arbitrary: c y afs ty rest rule: less_induct)
  case less
  let ?fd = "rc_fd c"
  obtain st c1 y1 where b: "redisBufferRead c y = Some (st, c1, y1)" "read_step c y base afs ty rest st c1 y1"
    using redisBufferRead_spec [OF less.prems(1-4)] by blast
  have m1: "read_more c y c1 y1" using b(2) by (simp add: read_step_def)
  then have same: "rc_fd c1 = ?fd" "soft c1 = soft c" "None \<notin> set (y_al y1)"
    by (auto simp: read_more_def soft_def has_flag_def fun_eq_iff)
  show ?case
  proof (cases "st = REDIS_ERR")
    case True
    then have e: "rc_err c1 \<in> {REDIS_ERR_IO, REDIS_ERR_EOF}" "feeds (soft c) (y_reads y ?fd) = []"
      using b(2) by (auto simp: read_step_def)
    have "read_reply c y = Some (REDIS_ERR, None, c1, y1)" using b(1) True by (subst read_reply.simps) simp
    moreover have "out = OWait afs ty rest" using less.prems(5,6) e(2) by simp
    ultimately show ?thesis using m1 e(1) by (simp add: replied_def)
  next
    case False
    then obtain s where s: "st = REDIS_OK" "rc_err c1 = 0" "reader_at c1 y1 base afs ty (rest @ s)"
      "feeds (soft c) (y_reads y ?fd) = s @ feeds (soft c) (y_reads y1 ?fd)"
      "script_size (y_reads y1 ?fd) < script_size (y_reads y ?fd)"
      using b(2) by (auto simp: read_step_def)
    let ?more = "feeds (soft c) (y_reads y1 ?fd)"
    have o: "out = arun afs ty ((rest @ s) @ ?more)" using less.prems(6) s(4) by simp
    have nb: "arun afs ty (rest @ s) \<noteq> OBad" using o less.prems(7) arun_append [of afs ty "rest @ s" ?more] by auto
    obtain st2 ob c2 y2 where g: "redisGetReplyFromReader c1 y1 = Some (st2, ob, c2, y2)"
      "got c1 y1 base (arun afs ty (rest @ s)) st2 ob c2 y2"
      using redisGetReplyFromReader_spec [OF s(3) nb] by blast
    have m2: "read_more c y c2 y2" by (rule read_more_trans [OF m1 got_read_more [OF g(2) same(3)]])
    have y2: "y_reads y2 = y_reads y1" "rc_fd c2 = ?fd" "soft c2 = soft c" "None \<notin> set (y_al y2)"
    proof -
      obtain r e es m where "c2 = c1\<lparr>rc_reader := r, rc_err := e, rc_errstr := es\<rparr>" "y2 = y1\<lparr>y_mem := m\<rparr>"
        using g(2) unfolding got_def by blast
      then show "y_reads y2 = y_reads y1" "rc_fd c2 = ?fd" "soft c2 = soft c" "None \<notin> set (y_al y2)"
        using same by (simp_all add: soft_def has_flag_def fun_eq_iff)
    qed
    have step: "read_reply c y = (if st2 = REDIS_ERR then Some (REDIS_ERR, None, c2, y2)
        else if ob = None then read_reply c2 y2 else Some (REDIS_OK, ob, c2, y2))"
      using b(1) s(1) g(1) by (subst read_reply.simps) simp
    show ?thesis
    proof (cases "arun afs ty (rest @ s)")
      case (OWait gs t r)
      then have w: "st2 = REDIS_OK" "ob = None" "rc_err c2 = 0" "reader_at c2 y2 base gs t r"
        using g(2) s(2) by (auto simp: got_def)
      have o2: "out = arun gs t (r @ feeds (soft c2) (y_reads y2 (rc_fd c2)))"
        using o arun_append [of afs ty "rest @ s" ?more] OWait y2 by simp
      have "length r \<le> length (rest @ s)" using arun_length [where fs = afs and ty = ty and s = "rest @ s"] OWait by simp
      then have l: "length (r @ feeds (soft c2) (y_reads y2 (rc_fd c2))) + 1024 < 2 ^ 31"
        using less.prems(4) s(4) y2 by simp
      have sz: "script_size (y_reads y2 (rc_fd c2)) < script_size (y_reads y ?fd)" using s(5) y2 by simp
      obtain st3 ob3 c3 y3 where r: "read_reply c2 y2 = Some (st3, ob3, c3, y3)"
        "replied c2 y2 base out st3 ob3 c3 y3"
        using less.hyps [OF sz w(3,4) y2(4) l arun_OWait_idem [OF OWait] o2 less.prems(7)] by blast
      have "read_more c y c3 y3" using m2 r(2) read_more_trans unfolding replied_def by blast
      then show ?thesis using step w(1,2) r y2 by (cases out) (simp_all add: replied_def)
    next
      case (ODone u x)
      then have d: "st2 = REDIS_OK" "rc_err c2 = 0" "\<exists>t. erase t = u \<and> tree_ok t \<and> ob = Some (Obj (addr t))
             \<and> mem_is (y_mem y2) base (cells_of t) \<and> reader_at c2 y2 (m_cells (y_mem y2)) [] (-1) x"
        using g(2) s(2) by (auto simp: got_def)
      have "out = ODone u (x @ ?more)" using o arun_append [of afs ty "rest @ s" ?more] ODone by simp
      moreover have "read_reply c y = Some (REDIS_OK, ob, c2, y2)" using step d by auto
      ultimately show ?thesis using m2 d y2 by (auto simp: replied_def)
    next
      case (OErr e)
      then have d: "st2 = REDIS_ERR" "rc_err c2 = REDIS_ERR_PROTOCOL" using g(2) by (auto simp: got_def)
      have "out = OErr e" using o arun_append [of afs ty "rest @ s" ?more] OErr by simp
      then show ?thesis using step d m2 by (simp add: replied_def)
    qed (use nb in simp)
  qed
qed

section \<open>A blocking connection\<close>

definition conn ::
  "redisContext \<Rightarrow> sys \<Rightarrow> heap \<Rightarrow> string \<Rightarrow> (reply list \<times> nat) list \<Rightarrow> int \<Rightarrow> string \<Rightarrow> bool" where
  \<comment> \<open>a blocking context without error: bytes to send, state of the parser, input left; no write fails for good\<close>
  "conn c y base s afs ty rest \<longleftrightarrow> rc_err c = 0 \<and> has_flag c REDIS_BLOCK \<and> obuf_is c s
     \<and> reader_at c y base afs ty rest \<and> None \<notin> set (y_al y)
     \<and> (\<forall>e. WFail e \<in> set (y_writes y (rc_fd c)) \<longrightarrow> soft c e)"

definition answered ::
  "redisContext \<Rightarrow> sys \<Rightarrow> heap \<Rightarrow> string \<Rightarrow> nat \<Rightarrow> outcome \<Rightarrow> int \<Rightarrow> obj option \<Rightarrow> redisContext \<Rightarrow> sys \<Rightarrow> bool" where
  \<comment> \<open>what \<open>redisGetReply\<close> reports when the bytes to come lead the parser to an outcome, and the
     first \<open>k\<close> bytes of the buffer have been sent\<close>
  "answered c y base s k out st ob c' y' \<longleftrightarrow> rc_fd c' = rc_fd c \<and> rc_flags c' = rc_flags c \<and> k \<le> length s
     \<and> y_sent y' = (y_sent y)(rc_fd c := y_sent y (rc_fd c) @ take k s)
     \<and> (case out of
          ODone u x \<Rightarrow> st = REDIS_OK \<and> (\<exists>t x0. erase t = u \<and> tree_ok t \<and> ob = Some (Obj (addr t))
             \<and> mem_is (y_mem y') base (cells_of t) \<and> conn c' y' (m_cells (y_mem y')) (drop k s) [] (-1) x0
             \<and> x = x0 @ feeds (soft c) (y_reads y' (rc_fd c)))
        | OErr e \<Rightarrow> st = REDIS_ERR \<and> ob = None \<and> rc_err c' = REDIS_ERR_PROTOCOL
        | OWait gs t x \<Rightarrow> st = REDIS_ERR \<and> ob = None \<and> rc_err c' \<in> {REDIS_ERR_IO, REDIS_ERR_EOF}
        | OBad \<Rightarrow> False)"

lemma obuf_is_cong: "rc_obuf c' = rc_obuf c \<Longrightarrow> obuf_is c' s = obuf_is c s"
  by (simp add: obuf_is_def)

lemma soft_cong: "rc_flags c' = rc_flags c \<Longrightarrow> soft c' = soft c"
  by (simp add: soft_def has_flag_def fun_eq_iff)

lemma redisGetReply_answers:
  assumes "conn c y base s afs ty rest" "length (rest @ feeds (soft c) (y_reads y (rc_fd c))) + 1024 < 2 ^ 31"
    "arun afs ty (rest @ feeds (soft c) (y_reads y (rc_fd c))) \<noteq> OBad"
  shows "\<exists>st ob c' y' k. redisGetReply c y = Some (st, ob, c', y')
    \<and> answered c y base s k (arun afs ty (rest @ feeds (soft c) (y_reads y (rc_fd c)))) st ob c' y'
    \<and> (k = length s \<or> (\<exists>u x. arun afs ty rest = ODone u x) \<or> (\<exists>e. arun afs ty rest = OErr e))"
proof -
  let ?fd = "rc_fd c"
  let ?in = "feeds (soft c) (y_reads y ?fd)"
  have c: "rc_err c = 0" "has_flag c REDIS_BLOCK" "obuf_is c s" "reader_at c y base afs ty rest" "None \<notin> set (y_al y)"
    "\<forall>e. WFail e \<in> set (y_writes y ?fd) \<longrightarrow> soft c e" using assms(1) by (simp_all add: conn_def)
  note app = arun_append [of afs ty rest ?in]
  have nb: "arun afs ty rest \<noteq> OBad" using assms(3) app by auto
  obtain st ob c1 y1 where g: "redisGetReplyFromReader c y = Some (st, ob, c1, y1)" "got c y base (arun afs ty rest) st ob c1 y1"
    using redisGetReplyFromReader_spec [OF c(4) nb] by blast
  obtain r1 e1 es1 m1 where f1: "c1 = c\<lparr>rc_reader := r1, rc_err := e1, rc_errstr := es1\<rparr>" "y1 = y\<lparr>y_mem := m1\<rparr>"
    using g(2) unfolding got_def by blast
  have fl: "rc_fd c1 = ?fd" "has_flag c1 REDIS_BLOCK" "soft c1 = soft c" "obuf_is c1 s" "rc_flags c1 = rc_flags c"
    using c(2,3) f1 by (simp_all add: has_flag_def soft_def obuf_is_def fun_eq_iff)
  show ?thesis
  proof (cases "arun afs ty rest")
    case (ODone u x)
    then have d: "st = REDIS_OK" "rc_err c1 = 0" "\<exists>t. erase t = u \<and> tree_ok t \<and> ob = Some (Obj (addr t))
             \<and> mem_is (y_mem y1) base (cells_of t) \<and> reader_at c1 y1 (m_cells (y_mem y1)) [] (-1) x"
      using g(2) c(1) by (auto simp: got_def)
    then obtain t where t: "erase t = u" "tree_ok t" "ob = Some (Obj (addr t))"
      "mem_is (y_mem y1) base (cells_of t)" "reader_at c1 y1 (m_cells (y_mem y1)) [] (-1) x" by blast
    have "redisGetReply c y = Some (REDIS_OK, ob, c1, y1)"
      using g(1) d(1) t(3) by (simp add: redisGetReply_def)
    moreover have "conn c1 y1 (m_cells (y_mem y1)) (drop 0 s) [] (-1) x"
      using d(2) fl t(5) c(5,6) f1(2) by (simp add: conn_def)
    moreover have "arun afs ty (rest @ ?in) = ODone u (x @ ?in)" using app ODone by simp
    ultimately show ?thesis using ODone t fl f1(2) unfolding answered_def
      by (intro exI [where x = REDIS_OK] exI [where x = ob] exI [where x = c1] exI [where x = y1] exI [where x = "0 :: nat"])
         (auto simp: fun_upd_idem)
  next
    case (OErr e)
    then have d: "st = REDIS_ERR" "rc_err c1 = REDIS_ERR_PROTOCOL" using g(2) by (auto simp: got_def)
    have "redisGetReply c y = Some (REDIS_ERR, None, c1, y1)" using g(1) d(1) by (simp add: redisGetReply_def)
    moreover have "arun afs ty (rest @ ?in) = OErr e" using app OErr by simp
    ultimately show ?thesis using OErr d fl f1(2) unfolding answered_def
      by (intro exI [where x = REDIS_ERR] exI [where x = None] exI [where x = c1] exI [where x = y1] exI [where x = "0 :: nat"])
         (simp add: fun_upd_idem)
  next
    case (OWait gs t r)
    then have w: "st = REDIS_OK" "ob = None" "rc_err c1 = 0" "reader_at c1 y1 base gs t r"
      using g(2) c(1) by (auto simp: got_def)
    have al1: "None \<notin> set (y_al y1)" "y_writes y1 = y_writes y" "y_reads y1 = y_reads y" "y_sent y1 = y_sent y"
      using c(5) f1(2) by simp_all
    obtain st2 c2 y2 k where a: "write_all c1 y1 = Some (st2, c2, y2)" "sent_more c1 y1 s k c2 y2"
      "st2 = REDIS_OK \<and> k = length s \<and> rc_err c2 = 0
       \<or> st2 = REDIS_ERR \<and> rc_err c2 = REDIS_ERR_IO \<and> (\<exists>e. WFail e \<in> set (y_writes y1 (rc_fd c1)) \<and> \<not> soft c1 e)"
      using write_all_spec [OF w(3) fl(4) al1(1)] by blast
    then have k: "st2 = REDIS_OK" "k = length s" "rc_err c2 = 0" using c(6) fl al1 by auto
    obtain b2 e2 es2 al2 en2 ws2 where 2: "c2 = c1\<lparr>rc_obuf := b2, rc_err := e2, rc_errstr := es2\<rparr>"
      "y2 = y1\<lparr>y_al := al2, y_errno := en2, y_writes := (y_writes y1)(rc_fd c1 := ws2),
          y_sent := (y_sent y1)(rc_fd c1 := y_sent y1 (rc_fd c1) @ take k s)\<rparr>"
      "set ws2 \<subseteq> set (y_writes y1 (rc_fd c1))" "obuf_is c2 []" "None \<notin> set (y_al y2)"
      using a(2) k(2) unfolding sent_more_def by auto
    have fl2: "rc_fd c2 = ?fd" "soft c2 = soft c" "y_reads y2 = y_reads y" "rc_flags c2 = rc_flags c" "has_flag c2 REDIS_BLOCK"
      using 2(1,2) fl al1 by (simp_all add: soft_def has_flag_def fun_eq_iff)
    have at: "reader_at c2 y2 base gs t r" using w(4) 2(1,2) by (simp add: reader_at_def)
    have l: "length (r @ feeds (soft c2) (y_reads y2 (rc_fd c2))) + 1024 < 2 ^ 31"
      using arun_length [where fs = afs and ty = ty and s = rest] OWait assms(2) fl2 by simp
    define out where "out = arun gs t (r @ feeds (soft c2) (y_reads y2 (rc_fd c2)))"
    have o: "arun afs ty (rest @ ?in) = out" using app OWait fl2 by (simp add: out_def)
    then obtain st3 ob3 c3 y3 where r: "read_reply c2 y2 = Some (st3, ob3, c3, y3)" "replied c2 y2 base out st3 ob3 c3 y3"
      using read_reply_spec [OF k(3) at 2(5) l arun_OWait_idem [OF OWait] out_def] assms(3) by auto
    have g: "redisGetReply c y = Some (st3, ob3, c3, y3)"
      using g(1) w(1,2) fl(2) a(1) k(1) r(1) by (simp add: redisGetReply_def)
    obtain r3 e3 es3 m3 al3 en3 rs3 where 3: "c3 = c2\<lparr>rc_reader := r3, rc_err := e3, rc_errstr := es3\<rparr>"
      "y3 = y2\<lparr>y_mem := m3, y_al := al3, y_errno := en3, y_reads := (y_reads y2)(rc_fd c2 := rs3)\<rparr>" "None \<notin> set (y_al y3)"
      using r(2) unfolding replied_def read_more_def by blast
    have fl3: "rc_fd c3 = ?fd" "rc_flags c3 = rc_flags c" "soft c3 = soft c" "has_flag c3 REDIS_BLOCK" "obuf_is c3 (drop k s)"
      "y_sent y3 = (y_sent y)(?fd := y_sent y ?fd @ take k s)" "y_writes y3 ?fd = ws2"
      using 3 fl2 2 fl al1 k(2) by (simp_all add: soft_def has_flag_def obuf_is_def fun_eq_iff)
    have cn: "conn c3 y3 b (drop k s) [] (-1) x0" if "rc_err c3 = 0" "reader_at c3 y3 b [] (-1) x0" for b x0
      using that fl3 3(3) 2(3) c(6) fl al1 unfolding conn_def by auto
    have "answered c y base s k out st3 ob3 c3 y3"
    proof (cases out)
      case (ODone u x)
      then obtain t x0 where "st3 = REDIS_OK" "rc_err c3 = 0" "erase t = u" "tree_ok t" "ob3 = Some (Obj (addr t))"
         "mem_is (y_mem y3) base (cells_of t)" "reader_at c3 y3 (m_cells (y_mem y3)) [] (-1) x0"
         "x = x0 @ feeds (soft c2) (y_reads y3 (rc_fd c2))"
        using r(2) by (auto simp: replied_def)
      then show ?thesis using fl3 cn ODone fl2 k(2) unfolding answered_def by auto
    qed (use r(2) fl3 k(2) in \<open>simp_all add: replied_def answered_def\<close>)
    then show ?thesis using g o k(2) by blast
  qed (use nb in simp)
qed

text \<open>One call on a blocking context between replies, whatever the writes do.\<close>

lemma redisGetReply_idle:
  assumes "rc_err c = 0" "has_flag c REDIS_BLOCK" "obuf_is c s" "reader_at c y base [] (-1) []" "None \<notin> set (y_al y)"
    "length (feeds (soft c) (y_reads y (rc_fd c))) + 1024 < 2 ^ 31" "out = arun [] (-1) (feeds (soft c) (y_reads y (rc_fd c)))" "out \<noteq> OBad"
  shows "\<exists>st ob c' y' k. redisGetReply c y = Some (st, ob, c', y') \<and> k \<le> length s
    \<and> y_sent y' = (y_sent y)(rc_fd c := y_sent y (rc_fd c) @ take k s)
    \<and> (st = REDIS_ERR \<and> ob = None \<and> rc_err c' = REDIS_ERR_IO \<and> (\<exists>e. WFail e \<in> set (y_writes y (rc_fd c)) \<and> \<not> soft c e)
       \<or> k = length s \<and> (case out of
            ODone u x \<Rightarrow> st = REDIS_OK \<and> rc_err c' = 0 \<and> shows_reply (y_mem y') ob (Some u)
          | OErr e \<Rightarrow> st = REDIS_ERR \<and> ob = None \<and> rc_err c' = REDIS_ERR_PROTOCOL
          | OWait gs t x \<Rightarrow> st = REDIS_ERR \<and> ob = None \<and> rc_err c' \<in> {REDIS_ERR_IO, REDIS_ERR_EOF}
          | OBad \<Rightarrow> False))"
proof -
  let ?fd = "rc_fd c"
  have w: "arun [] (-1) [] = OWait [] (-1) []" by (rule arun_Nil [OF live_Nil])
  obtain st ob c1 y1 where g: "redisGetReplyFromReader c y = Some (st, ob, c1, y1)" "got c y base (OWait [] (-1) []) st ob c1 y1"
    using redisGetReplyFromReader_spec [OF assms(4)] unfolding w by auto
  then obtain r1 e1 es1 m1 where f1: "c1 = c\<lparr>rc_reader := r1, rc_err := e1, rc_errstr := es1\<rparr>" "y1 = y\<lparr>y_mem := m1\<rparr>"
    "st = REDIS_OK" "ob = None" "rc_err c1 = 0" "reader_at c1 y1 base [] (-1) []"
    unfolding got_def using assms(1) by auto
  have fl: "rc_fd c1 = ?fd" "has_flag c1 REDIS_BLOCK" "soft c1 = soft c" "obuf_is c1 s" "None \<notin> set (y_al y1)"
    using assms(2,3,5) f1(1,2) by (simp_all add: has_flag_def soft_def obuf_is_def fun_eq_iff)
  obtain st2 c2 y2 k where a: "write_all c1 y1 = Some (st2, c2, y2)" "sent_more c1 y1 s k c2 y2"
    "st2 = REDIS_OK \<and> k = length s \<and> rc_err c2 = 0
     \<or> st2 = REDIS_ERR \<and> rc_err c2 = REDIS_ERR_IO \<and> (\<exists>e. WFail e \<in> set (y_writes y1 (rc_fd c1)) \<and> \<not> soft c1 e)"
    using write_all_spec [OF f1(5) fl(4,5)] by blast
  have k: "k \<le> length s" "y_sent y2 = (y_sent y)(?fd := y_sent y ?fd @ take k s)" "y_reads y2 = y_reads y" "y_mem y2 = y_mem y1"
    "None \<notin> set (y_al y2)" "rc_fd c2 = ?fd" "rc_flags c2 = rc_flags c" "rc_reader c2 = rc_reader c1"
    using a(2) f1(1,2) unfolding sent_more_def by auto
  have s2: "soft c2 = soft c" using k(7) by (simp add: soft_def has_flag_def fun_eq_iff)
  have gr: "redisGetReply c y = (if st2 = REDIS_ERR then Some (REDIS_ERR, None, c2, y2) else read_reply c2 y2)"
    using g(1) f1(3,4) fl(2) a(1) by (simp add: redisGetReply_def)
  from a(3) show ?thesis
  proof (elim disjE conjE exE)
    assume o: "st2 = REDIS_OK" "k = length s" "rc_err c2 = 0"
    have at: "reader_at c2 y2 base [] (-1) []" using reader_at_cong [OF f1(6) k(8,4)] .
    have "length ([] @ feeds (soft c2) (y_reads y2 (rc_fd c2))) + 1024 < 2 ^ 31" using assms(6) by (simp only: s2 k append_Nil)
    moreover have out: "out = arun [] (-1) ([] @ feeds (soft c2) (y_reads y2 (rc_fd c2)))" using assms(7) by (simp only: s2 k append_Nil)
    ultimately obtain st3 ob3 c3 y3 where r: "read_reply c2 y2 = Some (st3, ob3, c3, y3)" "replied c2 y2 base out st3 ob3 c3 y3"
      using read_reply_spec [OF o(3) at k(5) _ w _ assms(8)] by blast
    have "y_sent y3 = y_sent y2" using r(2) unfolding replied_def read_more_def by auto
    moreover have "case out of
            ODone u x \<Rightarrow> st3 = REDIS_OK \<and> rc_err c3 = 0 \<and> shows_reply (y_mem y3) ob3 (Some u)
          | OErr e \<Rightarrow> st3 = REDIS_ERR \<and> ob3 = None \<and> rc_err c3 = REDIS_ERR_PROTOCOL
          | OWait gs t x \<Rightarrow> st3 = REDIS_ERR \<and> ob3 = None \<and> rc_err c3 \<in> {REDIS_ERR_IO, REDIS_ERR_EOF}
          | OBad \<Rightarrow> False"
    proof (cases out)
      case (ODone u x)
      then obtain t where t: "st3 = REDIS_OK" "rc_err c3 = 0" "erase t = u" "ob3 = Some (Obj (addr t))" "mem_is (y_mem y3) base (cells_of t)"
        using r(2) by (auto simp: replied_def)
      then show ?thesis using mem_is_cells [OF t(5)] ODone by (auto simp: shows_reply_def)
    qed (use r(2) in \<open>simp_all add: replied_def\<close>)
    ultimately show ?thesis using gr r(1) o(1,2) k(2) by auto
  next
    fix e
    assume "st2 = REDIS_ERR" "rc_err c2 = REDIS_ERR_IO" "WFail e \<in> set (y_writes y1 (rc_fd c1))" "\<not> soft c1 e"
    then show ?thesis using gr k(1,2) fl(1,3) f1(2) by auto
  qed
qed

section \<open>Commands\<close>

abbreviation command_of :: "string list \<Rightarrow> string" where
  \<comment> \<open>the command of these words in the protocol\<close>
  "command_of ws \<equiv> enc (RArray (map RBulk ws))"

lemma redisAppend_spec:
  assumes "obuf_is c s" "None \<notin> set (y_al y)" "len \<le> length cmd" "length s + len < 2 ^ 31"
  shows "\<exists>b al. redisAppend c cmd len y = Some (REDIS_OK, c\<lparr>rc_obuf := b\<rparr>, y\<lparr>y_al := al\<rparr>)
    \<and> obuf_is (c\<lparr>rc_obuf := b\<rparr>) (s @ take len cmd) \<and> None \<notin> set al"
proof -
  obtain b where b: "rc_obuf c = Some b" "sds_ok b" "sds_str b = s" "sds_len b = length s" "length s < 2 ^ 31"
    using obuf_isE [OF assms(1)] .
  have l: "sds_len b + len < 2 ^ 31" using assms(4) b(4) by simp
  obtain h al where h: "sdscatlen (Some b) cmd len (y_al y) = Some (Some h, al)" "sds_ok h" "sds_str h = sds_str b @ take len cmd"
    "None \<notin> set al"
    using yields_ok [OF sdscatlen_yields [OF b(2) l assms(3)] assms(2)] .
  then show ?thesis using b assms(3,4)
    by (intro exI [where x = "Some h"] exI [where x = al]) (simp add: redisAppend_def obuf_is_def)
qed

lemma append_formatted_spec:
  assumes "formatted (y_al y) True ws res" "obuf_is c s" "None \<notin> set (y_al y)" "length s + length (command_of ws) < 2 ^ 31"
  shows "\<exists>b al. append_formatted c res y = Some (REDIS_OK, c\<lparr>rc_obuf := b\<rparr>, y\<lparr>y_al := al\<rparr>)
    \<and> obuf_is (c\<lparr>rc_obuf := b\<rparr>) (s @ command_of ws) \<and> None \<notin> set al"
proof -
  define E where "E = command_of ws"
  obtain al' where f: "res = Some (int (length E), Some (E @ [NUL]), al')" "set al' \<subseteq> set (y_al y)"
    using assms(1,3) unfolding formatted_def E_def [symmetric] by blast
  have n: "nat (int (length E) mod 2 ^ 64) = length E" using assms(4) unfolding E_def [symmetric] by simp
  have "None \<notin> set (y_al (y\<lparr>y_al := al'\<rparr>))" using f(2) assms(3) by auto
  then obtain b al where a: "redisAppend c (E @ [NUL]) (length E) (y\<lparr>y_al := al'\<rparr>)
      = Some (REDIS_OK, c\<lparr>rc_obuf := b\<rparr>, y\<lparr>y_al := al\<rparr>)"
    "obuf_is (c\<lparr>rc_obuf := b\<rparr>) (s @ E)" "None \<notin> set al"
    using redisAppend_spec [OF assms(2), of "y\<lparr>y_al := al'\<rparr>" "length E" "E @ [NUL]"] assms(4) unfolding E_def [symmetric]
    by auto
  have "append_formatted c res y = Some (REDIS_OK, c\<lparr>rc_obuf := b\<rparr>, y\<lparr>y_al := al\<rparr>)"
    unfolding append_formatted_def f(1) using a(1) n by simp
  then show ?thesis using a(2,3) unfolding E_def [symmetric] by blast
qed

lemma conn_append:
  "conn c y base s afs ty rest \<Longrightarrow> obuf_is (c\<lparr>rc_obuf := b\<rparr>) s' \<Longrightarrow> None \<notin> set al \<Longrightarrow>
   conn (c\<lparr>rc_obuf := b\<rparr>) (y\<lparr>y_al := al\<rparr>) base s' afs ty rest"
  by (auto simp: conn_def reader_at_def has_flag_def soft_def)

lemma conn_appended:
  assumes "conn c y base s afs ty rest" "formatted (y_al y) True ws res" "length s + length (command_of ws) < 2 ^ 31"
  shows "\<exists>b al. append_formatted c res y = Some (REDIS_OK, c\<lparr>rc_obuf := b\<rparr>, y\<lparr>y_al := al\<rparr>)
    \<and> conn (c\<lparr>rc_obuf := b\<rparr>) (y\<lparr>y_al := al\<rparr>) base (s @ command_of ws) afs ty rest"
proof -
  have c: "obuf_is c s" "None \<notin> set (y_al y)" using assms(1) by (simp_all add: conn_def)
  obtain b al where a: "append_formatted c res y = Some (REDIS_OK, c\<lparr>rc_obuf := b\<rparr>, y\<lparr>y_al := al\<rparr>)"
    "obuf_is (c\<lparr>rc_obuf := b\<rparr>) (s @ command_of ws)" "None \<notin> set al"
    using append_formatted_spec [OF assms(2) c assms(3)] by blast
  then show ?thesis using conn_append [OF assms(1) a(2,3)] by blast
qed

text \<open>A client that issues commands and one that then asks for replies.\<close>

fun append_commands :: "(string \<times> va list) list \<Rightarrow> redisContext \<Rightarrow> sys \<Rightarrow> (redisContext \<times> sys) option" where
  "append_commands [] c y = Some (c, y)"
| "append_commands ((format, ap) # cmds) c y = do {
     (st, c, y) \<leftarrow> redisAppendCommand c format ap y;
     append_commands cmds c y
   }"

fun get_replies :: "nat \<Rightarrow> redisContext \<Rightarrow> sys \<Rightarrow> ((int \<times> obj option) list \<times> redisContext \<times> sys) option" where
  "get_replies 0 c y = Some ([], c, y)"
| "get_replies (Suc n) c y = do {
     (st, ob, c, y) \<leftarrow> redisGetReply c y;
     (obs, c, y) \<leftarrow> get_replies n c y;
     Some ((st, ob) # obs, c, y)
   }"

definition spells :: "string \<times> va list \<Rightarrow> string list \<Rightarrow> bool" where
  \<comment> \<open>the words of a command given by a format and its arguments\<close>
  "spells cmd ws \<longleftrightarrow> fmt_words (fst cmd @ [NUL]) [] False [] (snd cmd) = Some (True, ws)"

lemma append_commands_spec:
  assumes "list_all2 spells cmds wss" "conn c y base s afs ty rest" "length s + length (concat (map command_of wss)) + 1 < 2 ^ 31"
  shows "\<exists>c' y'. append_commands cmds c y = Some (c', y') \<and> conn c' y' base (s @ concat (map command_of wss)) afs ty rest
     \<and> rc_fd c' = rc_fd c \<and> rc_flags c' = rc_flags c \<and> y_sent y' = y_sent y \<and> y_reads y' = y_reads y"
  using assms
proof (induction arbitrary: c y s rule: list_all2_induct)
  case Nil
  then show ?case by simp
next
  case (Cons cmd cmds ws wss)
  obtain format ap where cmd: "cmd = (format, ap)" by (cases cmd)
  have l: "length (command_of ws) + 1 < 2 ^ 31" "length s + length (command_of ws) < 2 ^ 31"
    "length (s @ command_of ws) + length (concat (map command_of wss)) + 1 < 2 ^ 31"
  proof -
    have "length s + (length (command_of ws) + length (concat (map command_of wss))) + 1 < 2 ^ 31"
      using Cons.prems(2) by (simp only: list.map concat.simps length_append)
    then show "length (command_of ws) + 1 < 2 ^ 31" "length s + length (command_of ws) < 2 ^ 31"
      "length (s @ command_of ws) + length (concat (map command_of wss)) + 1 < 2 ^ 31"
      by (simp_all only: length_append)
  qed
  have f: "formatted (y_al y) True ws (redisvFormatCommand format ap (y_al y))"
    by (rule redisvFormatCommand_words) (use Cons.hyps(1) cmd l(1) in \<open>simp_all only: spells_def fst_conv snd_conv\<close>)
  obtain b al where a: "append_formatted c (redisvFormatCommand format ap (y_al y)) y = Some (REDIS_OK, c\<lparr>rc_obuf := b\<rparr>, y\<lparr>y_al := al\<rparr>)"
    "conn (c\<lparr>rc_obuf := b\<rparr>) (y\<lparr>y_al := al\<rparr>) base (s @ command_of ws) afs ty rest"
    using conn_appended [OF Cons.prems(1) f l(2)] by blast
  obtain c' y' where r: "append_commands cmds (c\<lparr>rc_obuf := b\<rparr>) (y\<lparr>y_al := al\<rparr>) = Some (c', y')"
    "conn c' y' base ((s @ command_of ws) @ concat (map command_of wss)) afs ty rest"
    "rc_fd c' = rc_fd (c\<lparr>rc_obuf := b\<rparr>)" "rc_flags c' = rc_flags (c\<lparr>rc_obuf := b\<rparr>)"
    "y_sent y' = y_sent (y\<lparr>y_al := al\<rparr>)" "y_reads y' = y_reads (y\<lparr>y_al := al\<rparr>)"
    using Cons.IH [OF a(2) l(3)] by blast
  have "append_commands (cmd # cmds) c y = Some (c', y')"
    unfolding cmd append_commands.simps redisAppendCommand_def redisvAppendCommand_def a(1) using r(1) by simp
  then show ?case using r(2-6) by (simp only: list.map concat.simps append_assoc) simp
qed

definition shown :: "mem \<Rightarrow> int \<times> obj option \<Rightarrow> resp \<Rightarrow> bool" where
  "shown m r t \<longleftrightarrow> fst r = REDIS_OK \<and> shows_reply m (snd r) (Some (val_of t))"

lemma shown_mono: "shown m r t \<Longrightarrow> m_cells m \<subseteq>\<^sub>m m_cells m' \<Longrightarrow> shown m' r t"
  unfolding shown_def shows_reply_def by (fastforce simp: map_le_def dom_def)

lemma heap_is_le:
  assumes "heap_is h base L"
  shows "base \<subseteq>\<^sub>m h"
  unfolding map_le_def
proof
  fix p assume "p \<in> dom base"
  then have "p \<notin> fst ` set L" using assms unfolding heap_is_def by blast
  then show "base p = h p" using heap_is_base [OF assms] by simp
qed

lemma get_replies_spec:
  assumes "conn c y base s [] (-1) rest" "s = [] \<or> rest = []" "list_all (resp_ok 0) ts"
    "rest @ feeds (soft c) (y_reads y (rc_fd c)) = concat (map enc ts) @ x"
    "length (concat (map enc ts) @ x) + 1024 < 2 ^ 31"
  shows "\<exists>obs c' y' x0. get_replies (length ts) c y = Some (obs, c', y') \<and> list_all2 (shown (y_mem y')) obs ts
     \<and> rc_fd c' = rc_fd c \<and> rc_flags c' = rc_flags c
     \<and> y_sent y' = (y_sent y)(rc_fd c := y_sent y (rc_fd c) @ (if ts = [] then [] else s))
     \<and> base \<subseteq>\<^sub>m m_cells (y_mem y') \<and> x = x0 @ feeds (soft c) (y_reads y' (rc_fd c))
     \<and> (\<exists>base'. conn c' y' base' (if ts = [] then s else []) [] (-1) x0)"
  using assms
proof (induction ts arbitrary: c y base s rest)
  case Nil
  obtain r where "rc_reader c = Some r" "rstate r (y_mem y) base [] (-1) rest"
    using Nil.prems(1) by (auto simp: conn_def reader_at_def)
  then have "mem_is (y_mem y) base []" by (auto simp: rstate_def ready_def reads_def)
  then have "base \<subseteq>\<^sub>m m_cells (y_mem y)" using heap_is_le by (auto simp: mem_is_def)
  then show ?case using Nil.prems(1,4)
    by (intro exI [where x = "[]"] exI [where x = c] exI [where x = y] exI [where x = rest]) auto
next
  case (Cons t ts)
  let ?fd = "rc_fd c"
  let ?in = "rest @ feeds (soft c) (y_reads y ?fd)"
  let ?x = "concat (map enc ts) @ x"
  have i: "?in = enc t @ ?x" using Cons.prems(4) by simp
  have o: "arun [] (-1) ?in = ODone (val_of t) ?x" unfolding i using arun_enc [of "[]" t ?x] Cons.prems(3) by simp
  obtain st ob c1 y1 k where g: "redisGetReply c y = Some (st, ob, c1, y1)"
    "answered c y base s k (ODone (val_of t) ?x) st ob c1 y1"
    "k = length s \<or> (\<exists>u x. arun [] (-1) rest = ODone u x) \<or> (\<exists>e. arun [] (-1) rest = OErr e)"
    using redisGetReply_answers [OF Cons.prems(1)] Cons.prems(4,5) o by (metis outcome.distinct(5) outcome.simps(12))
  have k: "drop k s = []" "take k s = s"
    using Cons.prems(2) g(3) arun_Nil [OF live_Nil, of "[]"] by auto
  obtain t' x0 where a: "st = REDIS_OK" "rc_fd c1 = ?fd" "rc_flags c1 = rc_flags c"
    "y_sent y1 = (y_sent y)(?fd := y_sent y ?fd @ s)" "erase t' = val_of t" "ob = Some (Obj (addr t'))"
    "mem_is (y_mem y1) base (cells_of t')" "conn c1 y1 (m_cells (y_mem y1)) [] [] (-1) x0"
    "?x = x0 @ feeds (soft c) (y_reads y1 ?fd)"
    using g(2) k by (auto simp: answered_def)
  have s1: "soft c1 = soft c" by (rule soft_cong) (rule a(3))
  have f: "x0 @ feeds (soft c1) (y_reads y1 (rc_fd c1)) = ?x" using a(2,9) s1 by simp
  have l: "length ?x + 1024 < 2 ^ 31" using Cons.prems(5) by simp
  have IH: "\<exists>obs c2 y2 x1. get_replies (length ts) c1 y1 = Some (obs, c2, y2) \<and> list_all2 (shown (y_mem y2)) obs ts
     \<and> rc_fd c2 = rc_fd c1 \<and> rc_flags c2 = rc_flags c1 \<and> y_sent y2 = y_sent y1
     \<and> m_cells (y_mem y1) \<subseteq>\<^sub>m m_cells (y_mem y2) \<and> x = x1 @ feeds (soft c1) (y_reads y2 (rc_fd c1))
     \<and> (\<exists>base'. conn c2 y2 base' [] [] (-1) x1)"
    using Cons.IH [OF a(8) _ _ f l] Cons.prems(3) by simp
  obtain obs c2 y2 x1 where r: "get_replies (length ts) c1 y1 = Some (obs, c2, y2)" "list_all2 (shown (y_mem y2)) obs ts"
     "rc_fd c2 = rc_fd c1" "rc_flags c2 = rc_flags c1"
     "y_sent y2 = y_sent y1"
     "m_cells (y_mem y1) \<subseteq>\<^sub>m m_cells (y_mem y2)" "x = x1 @ feeds (soft c1) (y_reads y2 (rc_fd c1))"
     "\<exists>base'. conn c2 y2 base' [] [] (-1) x1"
    using IH by blast
  have "shown (y_mem y1) (st, ob) t"
    using a(1,5,6) mem_is_cells [OF a(7)] by (auto simp: shown_def shows_reply_def)
  then have "shown (y_mem y2) (st, ob) t" using shown_mono r(6) by blast
  moreover have "get_replies (length (t # ts)) c y = Some ((st, ob) # obs, c2, y2)" using g(1) r(1) by simp
  moreover have "base \<subseteq>\<^sub>m m_cells (y_mem y2)"
    using map_le_trans [OF heap_is_le r(6)] a(7) by (auto simp: mem_is_def)
  moreover have "y_sent y2 = (y_sent y)(?fd := y_sent y ?fd @ s)" using r(5) a(2,4) by simp
  ultimately show ?case using r a(2,3) s1
    by (intro exI [where x = "(st, ob) # obs"] exI [where x = c2] exI [where x = y2] exI [where x = x1]) simp
qed

section \<open>Sessions\<close>

text \<open>
  Any interleaving of the operations on a context, as steps that return. The text is what has been
  appended to the buffer with success.
\<close>

inductive session :: "redisContext \<times> sys \<Rightarrow> string \<Rightarrow> redisContext \<times> sys \<Rightarrow> bool" for s0 where
  start: "session s0 [] s0"
| append: "session s0 a (c, y) \<Longrightarrow> len \<le> length cmd \<Longrightarrow>
     (\<exists>b. rc_obuf c = Some b \<and> sds_len b + len < 2 ^ 31) \<Longrightarrow> redisAppendFormattedCommand c cmd len y = Some (st, c', y') \<Longrightarrow>
     session s0 (a @ (if st = REDIS_OK then take len cmd else [])) (c', y')"
| send: "session s0 a (c, y) \<Longrightarrow> redisBufferWrite c y = Some (st, d, c', y') \<Longrightarrow> session s0 a (c', y')"
| receive: "session s0 a (c, y) \<Longrightarrow> redisBufferRead c y = Some (st, c', y') \<Longrightarrow> session s0 a (c', y')"
| reply: "session s0 a (c, y) \<Longrightarrow> redisGetReply c y = Some (st, ob, c', y') \<Longrightarrow> session s0 a (c', y')"

definition flushes :: "redisContext \<Rightarrow> sys \<Rightarrow> redisContext \<Rightarrow> sys \<Rightarrow> bool" where
  \<comment> \<open>some bytes from the front of the buffer have been sent; after an error none, and nothing is read\<close>
  "flushes c y c' y' \<longleftrightarrow> rc_fd c' = rc_fd c \<and> (\<forall>s. obuf_is c s \<longrightarrow> (\<exists>k. k \<le> length s \<and> obuf_is c' (drop k s)
       \<and> y_sent y' = (y_sent y)(rc_fd c := y_sent y (rc_fd c) @ take k s)))
     \<and> (rc_err c \<noteq> 0 \<longrightarrow> rc_err c' \<noteq> 0 \<and> y_sent y' = y_sent y \<and> y_writes y' = y_writes y \<and> y_reads y' = y_reads y)"

lemma flushes_trans: "flushes c y c1 y1 \<Longrightarrow> flushes c1 y1 c2 y2 \<Longrightarrow> flushes c y c2 y2"
proof -
  assume 1: "flushes c y c1 y1" and 2: "flushes c1 y1 c2 y2"
  have "\<exists>k. k \<le> length s \<and> obuf_is c2 (drop k s) \<and> y_sent y2 = (y_sent y)(rc_fd c := y_sent y (rc_fd c) @ take k s)"
    if s: "obuf_is c s" for s
  proof -
    obtain k where k: "k \<le> length s" "obuf_is c1 (drop k s)" "y_sent y1 = (y_sent y)(rc_fd c := y_sent y (rc_fd c) @ take k s)"
      using 1 s unfolding flushes_def by blast
    obtain l where l: "l \<le> length (drop k s)" "obuf_is c2 (drop l (drop k s))"
      "y_sent y2 = (y_sent y1)(rc_fd c1 := y_sent y1 (rc_fd c1) @ take l (drop k s))"
      using 2 k(2) unfolding flushes_def by blast
    have "rc_fd c1 = rc_fd c" using 1 by (simp add: flushes_def)
    then show ?thesis using k l by (intro exI [where x = "k + l"]) (simp add: add.commute take_add)
  qed
  then show ?thesis using 1 2 unfolding flushes_def by auto
qed

lemma flushes_none:
  assumes "rc_fd c' = rc_fd c" "rc_obuf c' = rc_obuf c" "y_sent y' = y_sent y" "rc_err c \<noteq> 0 \<Longrightarrow> rc_err c' \<noteq> 0"
    "rc_err c \<noteq> 0 \<Longrightarrow> y_writes y' = y_writes y \<and> y_reads y' = y_reads y"
  shows "flushes c y c' y'"
proof -
  have "\<exists>k. k \<le> length s \<and> obuf_is c' (drop k s) \<and> y_sent y' = (y_sent y)(rc_fd c := y_sent y (rc_fd c) @ take k s)"
    if "obuf_is c s" for s
    using that assms(2,3) by (intro exI [where x = "0 :: nat"]) (auto simp: obuf_is_def fun_upd_idem)
  then show ?thesis using assms unfolding flushes_def by auto
qed

lemma redisSetError_frame:
  "redisSetError c ty str y = Some c' \<Longrightarrow> rc_fd c' = rc_fd c \<and> rc_obuf c' = rc_obuf c \<and> rc_err c' = ty \<and> rc_reader c' = rc_reader c
     \<and> rc_flags c' = rc_flags c"
  by (auto simp: redisSetError_def split: option.splits bind_splits)

lemma written_cases:
  assumes "written c n y = Some (c', y')" "obuf_done c' = Some d" "obuf_is c s" "n \<le> int (length s)" "0 \<le> n"
  shows "obuf_is c' (drop (nat n) s) \<and> rc_fd c' = rc_fd c \<and> rc_err c' = rc_err c \<and> y_sent y' = y_sent y"
proof -
  obtain b where b: "rc_obuf c = Some b" "sds_ok b" "sds_str b = s" "sds_len b = length s" "length s < 2 ^ 31"
    using obuf_isE [OF assms(3)] .
  consider (zero) "n = 0" | (all) "n \<noteq> 0" "n = int (length s)" | (some) "0 < n" "n < int (length s)"
    using assms(4,5) by linarith
  then show ?thesis
  proof cases
    case zero
    then show ?thesis using assms(1,3) by (simp add: written_def)
  next
    case all
    then obtain e al where e: "sdsempty (y_al y) = Some (e, al)" "c' = c\<lparr>rc_obuf := e\<rparr>" "y' = y\<lparr>y_al := al\<rparr>"
      using assms(1,5) b by (auto simp: written_def sdslen_def split: bind_splits)
    from sdsempty_yields [of "y_al y"] show ?thesis
      by (cases rule: yieldsE) (use e assms(2) all(2) in \<open>auto simp: obuf_done_def obuf_is_def\<close>)
  next
    case some
    have "c_slice n (-1) s = drop (nat n) s" using some by (auto simp: c_slice_def Let_def)
    then obtain b' where b': "sdsrange b n (-1) = Some b'" "sds_ok b'" "sds_str b' = drop (nat n) s"
      using sdsrange_spec [of b n "-1"] b some by auto
    have "s32 (int (length s)) = int (length s)" using b(5) by simp
    then have "written c n y = Some (c\<lparr>rc_obuf := Some b'\<rparr>, y)" using some b b'(1) by (simp add: written_def sdslen_def)
    then show ?thesis using assms(1) b'(2,3) b(5) by (auto simp: obuf_is_def)
  qed
qed

lemma sock_write_frame:
  assumes "sock_write fd s y = (n, y1)"
  shows "n = -1 \<and> y_sent y1 = y_sent y
    \<or> (\<exists>k. n = int k \<and> k \<le> length s \<and> y_sent y1 = (y_sent y)(fd := y_sent y fd @ take k s))"
proof (cases "y_writes y fd")
  case Nil
  then show ?thesis using assms by (intro disjI2 exI [where x = "length s"]) (auto simp: sock_write_def)
next
  case (Cons w ws)
  show ?thesis
  proof (cases w)
    case (WAccept j)
    have "take (min j (length s)) s = take j s" by (simp add: min_def)
    then show ?thesis using assms Cons WAccept
      by (intro disjI2 exI [where x = "min j (length s)"]) (auto simp: sock_write_def)
  next
    case (WFail e)
    then show ?thesis using assms Cons by (auto simp: sock_write_def)
  qed
qed

lemma redisBufferWrite_flushes:
  assumes "redisBufferWrite c y = Some (st, d, c', y')"
  shows "flushes c y c' y'"
proof (cases "rc_err c = 0")
  case False
  then show ?thesis using assms by (intro flushes_none) (simp_all add: redisBufferWrite_def)
next
  case err: True
  have frame: "rc_fd c' = rc_fd c"
    using assms err by (auto simp: redisBufferWrite_def written_def Let_def dest!: redisSetError_frame
        split: bind_splits if_splits prod.splits)
  have "\<exists>k. k \<le> length s \<and> obuf_is c' (drop k s) \<and> y_sent y' = (y_sent y)(rc_fd c := y_sent y (rc_fd c) @ take k s)"
    if s: "obuf_is c s" for s
  proof -
    obtain b where b: "rc_obuf c = Some b" "sds_ok b" "sds_str b = s" "sds_len b = length s" "length s < 2 ^ 31"
      using obuf_isE [OF s] .
    have rd: "read_at 0 (length s) (sds_buf b) = Some s"
      using b(2-4) by (simp add: read_at_def sds_str_def sds_ok_def)
    show ?thesis
    proof (cases "s = []")
      case True
      then have "c' = c" "y' = y" using assms err b by (auto simp: redisBufferWrite_def sdslen_def split: bind_splits)
      then show ?thesis using s True by (intro exI [where x = "0 :: nat"]) (simp add: fun_upd_idem)
    next
      case ne: False
      obtain n y1 where w: "sock_write (rc_fd c) s y = (n, y1)" by (cases "sock_write (rc_fd c) s y")
      from sock_write_frame [OF w] show ?thesis
      proof
        assume n: "n = -1 \<and> y_sent y1 = y_sent y"
        then have "s32 n = -1" by (simp add: s32_def)
        then have "y' = y1 \<and> rc_obuf c' = rc_obuf c" using assms err b rd ne w
          by (auto simp: redisBufferWrite_def sdslen_def dest!: redisSetError_frame split: bind_splits if_splits)
        then show ?thesis using n s by (intro exI [where x = "0 :: nat"]) (auto simp: obuf_is_def fun_upd_idem)
      next
        assume "\<exists>k. n = int k \<and> k \<le> length s \<and> y_sent y1 = (y_sent y)(rc_fd c := y_sent y (rc_fd c) @ take k s)"
        then obtain k where k: "n = int k" "k \<le> length s" "y_sent y1 = (y_sent y)(rc_fd c := y_sent y (rc_fd c) @ take k s)"
          by blast
        have s32: "s32 n = int k" using k b(5) by simp
        obtain d' where wr: "written c (int k) y1 = Some (c', y')" "obuf_done c' = Some d'"
          using assms err b rd ne w s32 by (auto simp: redisBufferWrite_def sdslen_def split: bind_splits) metis
        show ?thesis using written_cases [OF wr s] k by (intro exI [where x = k]) simp
      qed
    qed
  qed
  then show ?thesis using frame err unfolding flushes_def by blast
qed

lemma redisReaderGetReply_err:
  "redisReaderGetReply r m = Some (REDIS_ERR, ob, r', m') \<Longrightarrow> rr_err r' \<noteq> 0"
  by (auto simp: redisReaderGetReply_def split: bind_splits if_splits)

lemma redisGetReplyFromReader_flushes:
  "redisGetReplyFromReader c y = Some (st, ob, c', y') \<Longrightarrow> flushes c y c' y'"
  by (rule flushes_none)
     (auto simp: redisGetReplyFromReader_def Let_def dest!: redisSetError_frame redisReaderGetReply_err split: bind_splits if_splits)

lemma redisReaderFeed_err:
  "redisReaderFeed r bs n m al = Some (st, r', m', al') \<Longrightarrow> st \<noteq> REDIS_OK \<Longrightarrow> rr_err r' \<noteq> 0"
  by (auto simp: redisReaderFeed_def redisReaderSetErrorOOM_def redisReaderSetError_def Let_def
      split: bind_splits if_splits option.splits)

lemma sock_read_frame: "sock_read fd n y = (v, bs, y1) \<Longrightarrow> y_sent y1 = y_sent y"
  by (auto simp: sock_read_def split: list.splits sock_read.splits)

lemma redisBufferRead_flushes:
  assumes "redisBufferRead c y = Some (st, c', y')"
  shows "flushes c y c' y'"
proof (cases "rc_err c = 0")
  case False
  then show ?thesis using assms by (intro flushes_none) (simp_all add: redisBufferRead_def)
next
  case True
  obtain n bs y1 where r: "sock_read (rc_fd c) (1024 * 16) y = (n, bs, y1)" by (cases "sock_read (rc_fd c) (1024 * 16) y")
  have "rc_fd c' = rc_fd c \<and> rc_obuf c' = rc_obuf c \<and> y_sent y' = y_sent y1"
    using assms True r
    by (auto simp: redisBufferRead_def feed_context_def Let_def dest!: redisSetError_frame split: bind_splits if_splits)
  then show ?thesis using True sock_read_frame [OF r] by (intro flushes_none) simp_all
qed

lemma write_all_flushes:
  assumes "write_all c y = Some r"
  shows "flushes c y (fst (snd r)) (snd (snd r))"
  using assms
proof (induction c y r rule: write_all.raw_induct [rotated, consumes 1, case_names step])
  case (step f c y r)
  obtain st d c1 y1 where w: "redisBufferWrite c y = Some (st, d, c1, y1)"
    using step(2) by (cases "redisBufferWrite c y") auto
  have f1: "flushes c y c1 y1" using redisBufferWrite_flushes [OF w] .
  show ?case
  proof (cases "st = REDIS_ERR \<or> d = Some True")
    case True
    then have "fst (snd r) = c1" "snd (snd r) = y1" using step(2) w by (auto split: if_splits)
    then show ?thesis using f1 by (simp only:)
  next
    case False
    then have "f c1 y1 = Some r" using step(2) w by auto
    then show ?thesis using step(1) flushes_trans [OF f1] by blast
  qed
qed

lemma read_reply_flushes:
  assumes "read_reply c y = Some r"
  shows "flushes c y (fst (snd (snd r))) (snd (snd (snd r)))"
  using assms
proof (induction c y r rule: read_reply.raw_induct [rotated, consumes 1, case_names step])
  case (step f c y r)
  obtain st c1 y1 where w: "redisBufferRead c y = Some (st, c1, y1)"
    using step(2) by (cases "redisBufferRead c y") auto
  have f1: "flushes c y c1 y1" using redisBufferRead_flushes [OF w] .
  show ?case
  proof (cases "st = REDIS_ERR")
    case True
    then have "fst (snd (snd r)) = c1" "snd (snd (snd r)) = y1" using step(2) w by auto
    then show ?thesis using f1 by (simp only:)
  next
    case False
    then obtain st2 ob c2 y2 where g: "redisGetReplyFromReader c1 y1 = Some (st2, ob, c2, y2)"
      using step(2) w by (cases "redisGetReplyFromReader c1 y1") auto
    have f2: "flushes c y c2 y2" using flushes_trans [OF f1 redisGetReplyFromReader_flushes [OF g]] .
    show ?thesis
    proof (cases "st2 = REDIS_ERR \<or> ob \<noteq> None")
      case True
      then have "fst (snd (snd r)) = c2" "snd (snd (snd r)) = y2" using step(2) w g \<open>st \<noteq> REDIS_ERR\<close> by (auto split: if_splits)
      then show ?thesis using f2 by (simp only:)
    next
      case False
      then have "f c2 y2 = Some r" using step(2) w g \<open>st \<noteq> REDIS_ERR\<close> by auto
      then show ?thesis using step(1) flushes_trans [OF f2] by blast
    qed
  qed
qed

lemma redisGetReply_flushes:
  assumes "redisGetReply c y = Some (st, ob, c', y')"
  shows "flushes c y c' y'"
proof -
  obtain st1 aux c1 y1 where g: "redisGetReplyFromReader c y = Some (st1, aux, c1, y1)"
    using assms by (auto simp: redisGetReply_def split: bind_splits)
  have f1: "flushes c y c1 y1" using redisGetReplyFromReader_flushes [OF g] .
  show ?thesis
  proof (cases "st1 \<noteq> REDIS_ERR \<and> aux = None \<and> has_flag c1 REDIS_BLOCK")
    case False
    then have "c' = c1" "y' = y1" using assms g by (auto simp: redisGetReply_def split: if_splits)
    then show ?thesis using f1 by simp
  next
    case True
    then obtain st2 c2 y2 where w: "write_all c1 y1 = Some (st2, c2, y2)"
      using assms g by (auto simp: redisGetReply_def split: bind_splits)
    have f2: "flushes c y c2 y2" using flushes_trans [OF f1] write_all_flushes [OF w] by simp
    show ?thesis
    proof (cases "st2 = REDIS_ERR")
      case True
      then have "c' = c2" "y' = y2" using assms g w \<open>st1 \<noteq> REDIS_ERR \<and> aux = None \<and> has_flag c1 REDIS_BLOCK\<close>
        by (auto simp: redisGetReply_def)
      then show ?thesis using f2 by simp
    next
      case False
      then have "read_reply c2 y2 = Some (st, ob, c', y')"
        using assms g w \<open>st1 \<noteq> REDIS_ERR \<and> aux = None \<and> has_flag c1 REDIS_BLOCK\<close> by (simp add: redisGetReply_def)
      then show ?thesis using flushes_trans [OF f2] read_reply_flushes by fastforce
    qed
  qed
qed

lemma redisAppendFormattedCommand_effect:
  assumes "redisAppendFormattedCommand c cmd len y = Some (st, c', y')" "obuf_is c s" "len \<le> length cmd" "length s + len < 2 ^ 31"
  shows "obuf_is c' (s @ (if st = REDIS_OK then take len cmd else [])) \<and> y_sent y' = y_sent y \<and> rc_fd c' = rc_fd c"
proof -
  obtain b where b: "rc_obuf c = Some b" "sds_ok b" "sds_str b = s" "sds_len b = length s" "length s < 2 ^ 31"
    using obuf_isE [OF assms(2)] .
  have l: "sds_len b + len < 2 ^ 31" using assms(4) b(4) by simp
  from sdscatlen_yields [OF b(2) l assms(3), of "y_al y"] show ?thesis
  proof (cases rule: yieldsE)
    case (null al')
    then have "st = REDIS_ERR" "rc_obuf c' = rc_obuf c" "y_sent y' = y_sent y" "rc_fd c' = rc_fd c"
      using assms(1) b(1) by (auto simp: redisAppendFormattedCommand_def redisAppend_def redisSetError_def)
    then show ?thesis using assms(2) by (simp add: obuf_is_def)
  next
    case (str h al')
    then have "st = REDIS_OK" "rc_obuf c' = Some h" "y_sent y' = y_sent y" "rc_fd c' = rc_fd c"
      using assms(1) b(1) by (auto simp: redisAppendFormattedCommand_def redisAppend_def)
    then show ?thesis using str b(3) assms(3,4) by (simp add: obuf_is_def)
  qed
qed

lemma redisAppendFormattedCommand_quiet:
  "redisAppendFormattedCommand c cmd len y = Some (st, c', y') \<Longrightarrow> rc_err c \<noteq> 0 \<Longrightarrow>
   rc_err c' \<noteq> 0 \<and> y_sent y' = y_sent y \<and> y_writes y' = y_writes y \<and> y_reads y' = y_reads y"
  by (auto simp: redisAppendFormattedCommand_def redisAppend_def redisSetError_def Let_def split: bind_splits option.splits)

section \<open>A fresh context\<close>

lemma redisContextInit_conn:
  assumes "None \<notin> set (y_al y)" "None \<notin> set (m_al (y_mem y))" "mem_is (y_mem y) base []"
    "\<forall>e. WFail e \<in> set (y_writes y fd) \<longrightarrow> e = EINTR"
  shows "\<exists>c al. redisContextInit y = Some (Some c, y\<lparr>y_al := al\<rparr>)
    \<and> conn (set_flag (c\<lparr>rc_fd := fd\<rparr>) REDIS_BLOCK) (y\<lparr>y_al := al\<rparr>) base [] [] (-1) []"
proof -
  obtain f al1 where 1: "alloc_next (y_al y) = (Some f, al1)" "None \<notin> set al1"
    using assms(1) alloc_next_set [of "y_al y"] alloc_next_None [of "y_al y"]
    by (cases "alloc_next (y_al y)"; cases "fst (alloc_next (y_al y))") auto
  obtain b al2 where 2: "sdsempty al1 = Some (Some b, al2)" "sds_ok b" "sds_str b = []" "None \<notin> set al2"
    using yields_ok [OF sdsempty_yields 1(2)] .
  obtain r al3 where 3: "redisReaderCreate al2 = Some (Some r, al3)" "ready r (y_mem y) base []" "None \<notin> set al3"
    using redisReaderCreate_ready [OF 2(4) assms(3)] by blast
  have "rr_len r = 0" using 3(1) by (auto simp: redisReaderCreate_def split: option.splits prod.splits bind_splits)
  moreover have "rstate r (y_mem y) base [] (-1) []" using 3(2) by (rule ready_rstate)
  ultimately show ?thesis using 1 2 3 assms(2,4)
    by (intro exI [where x = "\<lparr>rc_err = 0, rc_errstr = [], rc_fd = 0, rc_flags = 0, rc_obuf = Some b, rc_reader = Some r\<rparr>"]
        exI [where x = al3])
      (simp add: redisContextInit_def conn_def set_flag_def has_flag_def flag_defs reader_at_def obuf_is_def soft_def)
qed

definition test_sys :: "sock_read list \<Rightarrow> sock_write list \<Rightarrow> sys" where
  \<comment> \<open>a system whose descriptor 3 has these scripts\<close>
  "test_sys rs ws = \<lparr>y_al = [], y_mem = empty_mem, y_errno = 0, y_reads = (\<lambda>_. rs), y_writes = (\<lambda>_. ws), y_sent = (\<lambda>_. []),
     y_calls = [], y_os = \<lparr>os_ret = (\<lambda>_ _. (0, 0)), os_soerror = (\<lambda>_. 0), os_resolve = (\<lambda>_ _. Inl 0),
       os_strerror_r = (\<lambda>_ _. []), os_strerror = (\<lambda>_. []), os_gai_strerror = (\<lambda>_. [])\<rparr>\<rparr>"

lemma test_conn:
  assumes "\<forall>e. WFail e \<in> set ws \<longrightarrow> e = EINTR"
  shows "\<exists>c y. conn c y Map.empty [] [] (-1) [] \<and> rc_fd c = 3 \<and> y_reads y 3 = rs \<and> y_writes y 3 = ws \<and> y_sent y 3 = [] \<and> soft c = (\<lambda>e. e = EINTR)"
proof -
  obtain c al where c: "redisContextInit (test_sys rs ws) = Some (Some c, (test_sys rs ws)\<lparr>y_al := al\<rparr>)"
    "conn (set_flag (c\<lparr>rc_fd := 3\<rparr>) REDIS_BLOCK) ((test_sys rs ws)\<lparr>y_al := al\<rparr>) Map.empty [] [] (-1) []"
    using redisContextInit_conn [of "test_sys rs ws" Map.empty 3] assms by (auto simp: test_sys_def)
  then have "soft (set_flag (c\<lparr>rc_fd := 3\<rparr>) REDIS_BLOCK) = (\<lambda>e. e = EINTR)"
    by (auto simp: conn_def soft_def)
  then show ?thesis using c(2)
    by (intro exI [where x = "set_flag (c\<lparr>rc_fd := 3\<rparr>) REDIS_BLOCK"] exI [where x = "(test_sys rs ws)\<lparr>y_al := al\<rparr>"])
       (simp add: test_sys_def set_flag_def)
qed

section \<open>The stream\<close>

lemma obuf_len: "obuf_is c s \<Longrightarrow> rc_obuf c = Some b \<Longrightarrow> sds_len b = length s"
  by (auto simp: obuf_is_def)

lemma session_appended:
  assumes "redisAppendFormattedCommand c cmd len y = Some (REDIS_OK, c', y')" "obuf_is c s" "len \<le> length cmd" "length s + len < 2 ^ 31"
  shows "session (c, y) (take len cmd) (c', y')"
proof -
  have "\<exists>b. rc_obuf c = Some b \<and> sds_len b + len < 2 ^ 31" using assms(2,4) obuf_len unfolding obuf_is_def by fastforce
  then show ?thesis using session.append [OF session.start assms(3) _ assms(1)] by simp
qed

definition streams :: "redisContext \<times> sys \<Rightarrow> string \<Rightarrow> redisContext \<times> sys \<Rightarrow> bool" where
  \<comment> \<open>what the descriptor has taken followed by what is buffered has grown by this text\<close>
  "streams s0 a s1 \<longleftrightarrow> (\<forall>b0. obuf_is (fst s0) b0 \<longrightarrow> (\<exists>b. obuf_is (fst s1) b \<and> rc_fd (fst s1) = rc_fd (fst s0)
     \<and> (\<forall>fd. fd \<noteq> rc_fd (fst s0) \<longrightarrow> y_sent (snd s1) fd = y_sent (snd s0) fd)
     \<and> y_sent (snd s1) (rc_fd (fst s0)) @ b = y_sent (snd s0) (rc_fd (fst s0)) @ b0 @ a))"

lemma streams_flushes:
  assumes "streams s0 a (c, y)" "flushes c y c' y'"
  shows "streams s0 a (c', y')"
  unfolding streams_def
proof (intro allI impI)
  fix b0 assume "obuf_is (fst s0) b0"
  then obtain b where b: "obuf_is c b" "rc_fd c = rc_fd (fst s0)"
    "\<forall>fd. fd \<noteq> rc_fd (fst s0) \<longrightarrow> y_sent y fd = y_sent (snd s0) fd"
    "y_sent y (rc_fd (fst s0)) @ b = y_sent (snd s0) (rc_fd (fst s0)) @ b0 @ a"
    using assms(1) unfolding streams_def fst_conv snd_conv by blast
  obtain k where k: "k \<le> length b" "obuf_is c' (drop k b)" "y_sent y' = (y_sent y)(rc_fd c := y_sent y (rc_fd c) @ take k b)"
    "rc_fd c' = rc_fd c"
    using assms(2) b(1) unfolding flushes_def by blast
  have "\<forall>fd. fd \<noteq> rc_fd (fst s0) \<longrightarrow> y_sent y' fd = y_sent (snd s0) fd"
    unfolding k(3) using b(2,3) by simp
  moreover have "y_sent y' (rc_fd (fst s0)) @ drop k b = y_sent (snd s0) (rc_fd (fst s0)) @ b0 @ a"
    unfolding k(3) b(2) using b(4) by simp
  ultimately show "\<exists>b. obuf_is (fst (c', y')) b \<and> rc_fd (fst (c', y')) = rc_fd (fst s0)
     \<and> (\<forall>fd. fd \<noteq> rc_fd (fst s0) \<longrightarrow> y_sent (snd (c', y')) fd = y_sent (snd s0) fd)
     \<and> y_sent (snd (c', y')) (rc_fd (fst s0)) @ b = y_sent (snd s0) (rc_fd (fst s0)) @ b0 @ a"
    using k(2,4) b(2) by (intro exI [where x = "drop k b"]) simp
qed

lemma session_streams: "session s0 a s1 \<Longrightarrow> streams s0 a s1"
proof (induction rule: session.induct)
  case start
  then show ?case by (auto simp: streams_def)
next
  case (append a c y len cmd st c' y')
  show ?case unfolding streams_def
  proof (intro allI impI)
    fix b0 assume "obuf_is (fst s0) b0"
    then obtain b where b: "obuf_is c b" "rc_fd c = rc_fd (fst s0)"
      "\<forall>fd. fd \<noteq> rc_fd (fst s0) \<longrightarrow> y_sent y fd = y_sent (snd s0) fd"
      "y_sent y (rc_fd (fst s0)) @ b = y_sent (snd s0) (rc_fd (fst s0)) @ b0 @ a"
      using append.IH unfolding streams_def fst_conv snd_conv by blast
    have l: "length b + len < 2 ^ 31" using append.hyps(3) obuf_len [OF b(1)] by auto
    have e: "obuf_is c' (b @ (if st = REDIS_OK then take len cmd else []))" "y_sent y' = y_sent y" "rc_fd c' = rc_fd c"
      using redisAppendFormattedCommand_effect [OF append.hyps(4) b(1) append.hyps(2) l] by blast+
    show "\<exists>b. obuf_is (fst (c', y')) b \<and> rc_fd (fst (c', y')) = rc_fd (fst s0)
     \<and> (\<forall>fd. fd \<noteq> rc_fd (fst s0) \<longrightarrow> y_sent (snd (c', y')) fd = y_sent (snd s0) fd)
     \<and> y_sent (snd (c', y')) (rc_fd (fst s0)) @ b
       = y_sent (snd s0) (rc_fd (fst s0)) @ b0 @ a @ (if st = REDIS_OK then take len cmd else [])"
      using e b by (intro exI [where x = "b @ (if st = REDIS_OK then take len cmd else [])"]) (simp only: fst_conv snd_conv flip: append_assoc)
  qed
qed (blast intro: streams_flushes redisBufferWrite_flushes redisBufferRead_flushes redisGetReply_flushes)+

section \<open>Properties\<close>

text \<open>
  C22: pipelining. On a blocking connection with nothing pending, any number of commands appended by
  \<open>redisAppendCommand\<close> followed by as many calls of \<open>redisGetReply\<close> as the server has replies sends
  exactly the commands, in order, and returns exactly the replies, in order, each a tree of objects
  that the later calls leave alone; however the writes are cut or interrupted and however the replies
  are cut into reads. What follows the last reply stays unread.
\<close>
theorem pipelined_replies:
  assumes "conn c y base [] [] (-1) []" "list_all2 spells cmds wss" "list_all (resp_ok 0) ts" "ts \<noteq> []"
    "feeds (soft c) (y_reads y (rc_fd c)) = concat (map enc ts) @ x"
    "length (concat (map command_of wss)) + 1 < 2 ^ 31" "length (concat (map enc ts) @ x) + 1024 < 2 ^ 31"
  shows "\<exists>c1 y1 obs c2 y2 x0. append_commands cmds c y = Some (c1, y1)
     \<and> get_replies (length ts) c1 y1 = Some (obs, c2, y2)
     \<and> y_sent y2 = (y_sent y)(rc_fd c := y_sent y (rc_fd c) @ concat (map command_of wss))
     \<and> list_all2 (shown (y_mem y2)) obs ts \<and> rc_err c2 = 0
     \<and> (\<exists>r. rc_reader c2 = Some r \<and> input_is r x0) \<and> x = x0 @ feeds (soft c) (y_reads y2 (rc_fd c))"
proof -
  obtain c1 y1 where a: "append_commands cmds c y = Some (c1, y1)" "conn c1 y1 base (concat (map command_of wss)) [] (-1) []"
     "rc_fd c1 = rc_fd c" "rc_flags c1 = rc_flags c" "y_sent y1 = y_sent y" "y_reads y1 = y_reads y"
    using append_commands_spec [OF assms(2,1)] assms(6) by auto
  have s: "soft c1 = soft c" by (rule soft_cong) (rule a(4))
  have f: "[] @ feeds (soft c1) (y_reads y1 (rc_fd c1)) = concat (map enc ts) @ x" using assms(5) a(3,6) s by simp
  obtain obs c2 y2 x0 base' where r: "get_replies (length ts) c1 y1 = Some (obs, c2, y2)" "list_all2 (shown (y_mem y2)) obs ts"
     "y_sent y2 = (y_sent y1)(rc_fd c1 := y_sent y1 (rc_fd c1) @ (if ts = [] then [] else concat (map command_of wss)))"
     "x = x0 @ feeds (soft c1) (y_reads y2 (rc_fd c1))" "conn c2 y2 base' (if ts = [] then concat (map command_of wss) else []) [] (-1) x0"
    using get_replies_spec [OF a(2) _ assms(3) f assms(7)] by blast
  have "rc_err c2 = 0" "\<exists>r. rc_reader c2 = Some r \<and> input_is r x0"
    using r(5) rstate_input by (auto simp: conn_def reader_at_def)
  then show ?thesis using a r assms(4) s by (auto intro!: exI)
qed

theorem pipelined_replies_witness:
  "\<exists>c y c1 y1 obs c2 y2. append_commands [(''PING'', []), (''GET %s'', [VPtr (''k'' @ [NUL])])] c y = Some (c1, y1)
     \<and> get_replies 2 c1 y1 = Some (obs, c2, y2)
     \<and> y_sent y2 3 = command_of [''PING''] @ command_of [''GET'', ''k'']
     \<and> list_all2 (shown (y_mem y2)) obs [RStatus ''PONG'', RNil]"
proof -
  define rs where "rs = [RData ''+PO'', RFail EINTR, RData (''NG'' @ CRLF @ ''$-''), RData (''1'' @ CRLF)]"
  obtain c y where c: "conn c y Map.empty [] [] (-1) []" "rc_fd c = 3" "y_reads y 3 = rs" "y_writes y 3 = [WAccept 5, WFail EINTR]"
    "y_sent y 3 = []" "soft c = (\<lambda>e. e = EINTR)"
    using test_conn [of "[WAccept 5, WFail EINTR]" rs] by auto
  have f: "feeds (soft c) (y_reads y (rc_fd c)) = concat (map enc [RStatus ''PONG'', RNil]) @ []"
    using c by (simp add: rs_def)
  have w: "fmt_words (words_format [[PChar CHR ''P'', PChar CHR ''I'', PChar CHR ''N'', PChar CHR ''G'']] @ [NUL]) [] False []
        (concat (map word_args [[PChar CHR ''P'', PChar CHR ''I'', PChar CHR ''N'', PChar CHR ''G'']])) = Some (True, [] @ [''PING''])"
      "fmt_words (words_format [[PChar CHR ''G'', PChar CHR ''E'', PChar CHR ''T''], [PStr ''k'']] @ [NUL]) [] False []
        (concat (map word_args [[PChar CHR ''G'', PChar CHR ''E'', PChar CHR ''T''], [PStr ''k'']])) = Some (True, [] @ [''GET'', ''k''])"
    by (subst fmt_words_format; simp add: word_text_def)+
  then have sp: "list_all2 spells [(''PING'', []), (''GET %s'', [VPtr (''k'' @ [NUL])])] [[''PING''], [''GET'', ''k'']]"
    by (simp add: spells_def word_format_def word_args_def)
  have l: "length (concat (map command_of [[''PING''], [''GET'', ''k'']])) + 1 < 2 ^ 31"
    "length (concat (map enc [RStatus ''PONG'', RNil]) @ []) + 1024 < 2 ^ 31" by (simp_all add: dec_nat_small)
  have ok: "list_all (resp_ok 0) [RStatus ''PONG'', RNil]" "[RStatus ''PONG'', RNil] \<noteq> []" by simp_all
  obtain c1 y1 obs c2 y2 where r: "append_commands [(''PING'', []), (''GET %s'', [VPtr (''k'' @ [NUL])])] c y = Some (c1, y1)"
     "get_replies (length [RStatus ''PONG'', RNil]) c1 y1 = Some (obs, c2, y2)"
     "y_sent y2 = (y_sent y)(rc_fd c := y_sent y (rc_fd c) @ concat (map command_of [[''PING''], [''GET'', ''k'']]))"
     "list_all2 (shown (y_mem y2)) obs [RStatus ''PONG'', RNil]"
    using pipelined_replies [OF c(1) sp ok f l] by blast
  have "length [RStatus ''PONG'', RNil] = 2" by simp
  moreover have "y_sent y2 3 = command_of [''PING''] @ command_of [''GET'', ''k'']" using r(3) c(2,5) by simp
  ultimately show ?thesis using r by metis
qed

text \<open>
  C23: on a blocking connection without error, with nothing buffered and between replies,
  \<open>redisCommand\<close> always returns. Either a write fails with an error after which the code does not try
  again (\<open>EPIPE\<close>, say): then it returns NULL with an I/O error, a first part of the command has been
  sent and nothing is read. Or the whole command has been sent, and the outcome follows from the bytes
  the server sends before it closes the connection or a read fails: the first reply they hold; NULL and
  a protocol error when they break the protocol; NULL and an I/O error or end of file when they stop
  before a reply is complete. (No allocation fails; the bytes of the server and the counts in them fit
  in an \<open>int\<close>.)
\<close>
theorem command_reports_outcome:
  assumes "rc_err c = 0" "has_flag c REDIS_BLOCK" "obuf_is c []" "reader_at c y base [] (-1) []" "None \<notin> set (y_al y)"
    "spells (format, ap) ws" "length (command_of ws) + 1 < 2 ^ 31"
    "length (feeds (soft c) (y_reads y (rc_fd c))) + 1024 < 2 ^ 31" "fits (-1) (feeds (soft c) (y_reads y (rc_fd c)))"
  shows "\<exists>ob c' y' k. redisCommand c format ap y = Some (ob, c', y') \<and> k \<le> length (command_of ws)
     \<and> y_sent y' = (y_sent y)(rc_fd c := y_sent y (rc_fd c) @ take k (command_of ws))
     \<and> (ob = None \<and> rc_err c' = REDIS_ERR_IO \<and> (\<exists>e. WFail e \<in> set (y_writes y (rc_fd c)) \<and> \<not> soft c e)
        \<or> k = length (command_of ws) \<and> (case arun [] (-1) (feeds (soft c) (y_reads y (rc_fd c))) of
            ODone u x \<Rightarrow> rc_err c' = 0 \<and> shows_reply (y_mem y') ob (Some u)
          | OErr e \<Rightarrow> ob = None \<and> rc_err c' = REDIS_ERR_PROTOCOL
          | OWait gs t x \<Rightarrow> ob = None \<and> rc_err c' \<in> {REDIS_ERR_IO, REDIS_ERR_EOF}
          | OBad \<Rightarrow> False))"
proof -
  define E where "E = command_of ws"
  define out where "out = arun [] (-1) (feeds (soft c) (y_reads y (rc_fd c)))"
  have nb: "out \<noteq> OBad" unfolding out_def by (rule arun_fits) (rule assms(9))
  have l: "length ([] :: string) + length (command_of ws) < 2 ^ 31" using assms(7) by simp
  have f: "formatted (y_al y) True ws (redisvFormatCommand format ap (y_al y))"
    by (rule redisvFormatCommand_words) (use assms(6,7) in \<open>simp_all only: spells_def fst_conv snd_conv\<close>)
  obtain b al where a: "append_formatted c (redisvFormatCommand format ap (y_al y)) y = Some (REDIS_OK, c\<lparr>rc_obuf := b\<rparr>, y\<lparr>y_al := al\<rparr>)"
    "obuf_is (c\<lparr>rc_obuf := b\<rparr>) ([] @ command_of ws)" "None \<notin> set al"
    using append_formatted_spec [OF f assms(3,5) l] by blast
  define c1 where "c1 = c\<lparr>rc_obuf := b\<rparr>"
  define y1 where "y1 = y\<lparr>y_al := al\<rparr>"
  have eq: "rc_fd c1 = rc_fd c" "soft c1 = soft c" "y_sent y1 = y_sent y" "y_writes y1 = y_writes y" "y_reads y1 = y_reads y"
    by (simp_all add: c1_def y1_def soft_def has_flag_def fun_eq_iff)
  have i: "rc_err c1 = 0" "has_flag c1 REDIS_BLOCK" "obuf_is c1 E" "None \<notin> set (y_al y1)"
    using assms(1,2) a(2,3) by (simp_all add: c1_def y1_def E_def has_flag_def)
  have at: "reader_at c1 y1 base [] (-1) []" using assms(4) by (rule reader_at_cong) (simp_all add: c1_def y1_def)
  have "length (feeds (soft c1) (y_reads y1 (rc_fd c1))) + 1024 < 2 ^ 31" "out = arun [] (-1) (feeds (soft c1) (y_reads y1 (rc_fd c1)))"
    using assms(8) unfolding eq out_def by this (rule refl)
  note idle = redisGetReply_idle [OF i(1-3) at i(4) this nb, unfolded eq]
  obtain st ob c' y' k where g: "redisGetReply c1 y1 = Some (st, ob, c', y')" "k \<le> length E"
    "y_sent y' = (y_sent y)(rc_fd c := y_sent y (rc_fd c) @ take k E)"
    "st = REDIS_ERR \<and> ob = None \<and> rc_err c' = REDIS_ERR_IO \<and> (\<exists>e. WFail e \<in> set (y_writes y (rc_fd c)) \<and> \<not> soft c e)
       \<or> k = length E \<and> (case out of
            ODone u x \<Rightarrow> st = REDIS_OK \<and> rc_err c' = 0 \<and> shows_reply (y_mem y') ob (Some u)
          | OErr e \<Rightarrow> st = REDIS_ERR \<and> ob = None \<and> rc_err c' = REDIS_ERR_PROTOCOL
          | OWait gs t x \<Rightarrow> st = REDIS_ERR \<and> ob = None \<and> rc_err c' \<in> {REDIS_ERR_IO, REDIS_ERR_EOF}
          | OBad \<Rightarrow> False)"
    using idle by blast
  have "redisCommand c format ap y = Some (if st \<noteq> REDIS_OK then None else ob, c', y')"
    unfolding redisCommand_def redisvCommand_def redisvAppendCommand_def a(1) redisBlockForReply_def
    using g(1) i(2) unfolding c1_def y1_def by simp
  moreover have "(if st \<noteq> REDIS_OK then None else ob) = ob" using g(4) by (cases out) auto
  ultimately show ?thesis using g(2-4) unfolding E_def [symmetric] out_def [symmetric]
    by (intro exI [where x = ob] exI [where x = c'] exI [where x = y'] exI [where x = k]) (cases out; auto)
qed

theorem command_reports_outcome_witness:
  "\<exists>c y c' y'. redisCommand c ''PING'' [] y = Some (None, c', y') \<and> y_sent y' 3 = command_of [''PING''] \<and> rc_err c' \<noteq> 0"
proof -
  obtain c y where c: "conn c y Map.empty [] [] (-1) []" "rc_fd c = 3" "y_reads y 3 = [RData ''+PO'']" "y_writes y 3 = [WAccept 5]"
    "y_sent y 3 = []" "soft c = (\<lambda>e. e = EINTR)"
    using test_conn [of "[WAccept 5]" "[RData ''+PO'']"] by auto
  have f: "feeds (soft c) (y_reads y (rc_fd c)) = ''+PO''" using c by simp
  have "fmt_words (words_format [[PChar CHR ''P'', PChar CHR ''I'', PChar CHR ''N'', PChar CHR ''G'']] @ [NUL]) [] False []
        (concat (map word_args [[PChar CHR ''P'', PChar CHR ''I'', PChar CHR ''N'', PChar CHR ''G'']])) = Some (True, [] @ [''PING''])"
    by (subst fmt_words_format; simp add: word_text_def)
  then have sp: "spells (''PING'', []) [''PING'']"
    by (simp add: spells_def word_format_def word_args_def)
  have "arun [] (-1) ''+PO'' = OWait [] REDIS_REPLY_STATUS ''PO''"
    by (subst arun.simps) (simp add: item_def typed_def tok_def type_of_byte_def)
  then show ?thesis using command_reports_outcome [of c y Map.empty, OF _ _ _ _ _ sp] c(1,2,4,5) f
    by (fastforce simp: dec_nat_small fits_def conn_def)
qed

text \<open>
  C24: the stream invariant. Whatever operations run on a context and however the system answers
  (short writes, interruptions, errors, failed allocations), the bytes accepted by its descriptor
  followed by the bytes of its buffer are always the bytes sent and buffered at the start followed by
  everything appended since: no byte is lost, repeated, reordered or sent elsewhere.
\<close>
theorem stream_invariant:
  assumes "session (c0, y0) a (c, y)" "obuf_is c0 s0"
  shows "\<exists>s. obuf_is c s \<and> rc_fd c = rc_fd c0 \<and> (\<forall>fd. fd \<noteq> rc_fd c0 \<longrightarrow> y_sent y fd = y_sent y0 fd)
    \<and> y_sent y (rc_fd c0) @ s = y_sent y0 (rc_fd c0) @ s0 @ a"
  using session_streams [OF assms(1)] assms(2) unfolding streams_def fst_conv snd_conv by blast

theorem stream_invariant_witness:
  "\<exists>c y st c1 y1 d c2 y2 s. redisAppendFormattedCommand c ''ABCDEFG'' 7 y = Some (st, c1, y1)
     \<and> redisBufferWrite c1 y1 = Some (st, d, c2, y2) \<and> obuf_is c2 s \<and> y_sent y2 3 @ s = ''ABCDEFG''"
proof -
  obtain c y where c: "conn c y Map.empty [] [] (-1) []" "rc_fd c = 3" "y_writes y 3 = [WAccept 5]" "y_sent y 3 = []"
    using test_conn [of "[WAccept 5]" "[]"] by auto
  have o: "obuf_is c []" "None \<notin> set (y_al y)" "rc_err c = 0" using c(1) by (simp_all add: conn_def)
  obtain b al where a: "redisAppend c ''ABCDEFG'' 7 y = Some (REDIS_OK, c\<lparr>rc_obuf := b\<rparr>, y\<lparr>y_al := al\<rparr>)"
    "obuf_is (c\<lparr>rc_obuf := b\<rparr>) ''ABCDEFG''" "None \<notin> set al"
    using redisAppend_spec [OF o(1,2), of 7 "''ABCDEFG''"] by auto
  let ?c = "c\<lparr>rc_obuf := b\<rparr>" and ?y = "y\<lparr>y_al := al\<rparr>"
  have ap: "redisAppendFormattedCommand c ''ABCDEFG'' 7 y = Some (REDIS_OK, ?c, ?y)"
    using a(1) by (simp add: redisAppendFormattedCommand_def)
  obtain st d c2 y2 where w: "redisBufferWrite ?c ?y = Some (st, d, c2, y2)" "st = REDIS_OK"
    using redisBufferWrite_spec [of ?c "''ABCDEFG''" ?y] a(2,3) o(3) c(2,3) by auto
  have "session (c, y) (take 7 ''ABCDEFG'') (?c, ?y)" by (rule session_appended [OF ap o(1)]) simp_all
  then have "session (c, y) ''ABCDEFG'' (c2, y2)" using session.send [OF _ w(1)] by simp
  then have "\<exists>s. obuf_is c2 s \<and> rc_fd c2 = rc_fd c \<and> (\<forall>fd. fd \<noteq> rc_fd c \<longrightarrow> y_sent y2 fd = y_sent y fd)
    \<and> y_sent y2 (rc_fd c) @ s = y_sent y (rc_fd c) @ [] @ ''ABCDEFG''" by (rule stream_invariant [OF _ o(1)])
  then obtain s where "obuf_is c2 s" "y_sent y2 3 @ s = ''ABCDEFG''" unfolding c(2,4) append_Nil by blast
  then show ?thesis using ap w by blast
qed

text \<open>
  C25: an error is final. Once the error field of a context is set, no operation clears it, sends a
  byte or takes a byte from the socket, whatever is called and in whatever order.
\<close>
theorem error_is_final:
  assumes "session (c0, y0) a (c, y)" "rc_err c0 \<noteq> 0"
  shows "rc_err c \<noteq> 0 \<and> y_sent y = y_sent y0 \<and> y_writes y = y_writes y0 \<and> y_reads y = y_reads y0"
  using assms(1)
proof (induction a "(c, y)" arbitrary: c y rule: session.induct)
  case (append a c y len cmd st c' y')
  then show ?case using redisAppendFormattedCommand_quiet [OF append.hyps(5)] by simp
qed (use assms(2) in \<open>auto simp: flushes_def dest!: redisBufferWrite_flushes redisBufferRead_flushes redisGetReply_flushes\<close>)

theorem error_is_final_witness:
  "\<exists>c y st c1 y1. redisBufferRead c y = Some (REDIS_ERR, c1, y1) \<and> (\<exists>st c2 y2. redisAppendFormattedCommand c1 ''X'' 1 y1 = Some (st, c2, y2) \<and> rc_err c2 \<noteq> 0)"
proof -
  obtain c y where c: "conn c y Map.empty [] [] (-1) []" "rc_fd c = 3" "y_reads y 3 = []" "soft c = (\<lambda>e. e = EINTR)"
    using test_conn [of "[]" "[]"] by auto
  obtain st c1 y1 where r: "redisBufferRead c y = Some (st, c1, y1)" "read_step c y Map.empty [] (-1) [] st c1 y1"
    using redisBufferRead_spec [of c y Map.empty "[]" "-1" "[]"] c by (auto simp: conn_def)
  then have e: "st = REDIS_ERR" "rc_err c1 \<noteq> 0" using c by (auto simp: read_step_def)
  have "rc_obuf c1 = rc_obuf c" "None \<notin> set (y_al y1)" using r(2) by (auto simp: read_step_def read_more_def)
  then have o: "obuf_is c1 []" using c(1) by (simp add: conn_def obuf_is_def)
  obtain b al where a: "redisAppend c1 ''X'' 1 y1 = Some (REDIS_OK, c1\<lparr>rc_obuf := b\<rparr>, y1\<lparr>y_al := al\<rparr>)"
    using redisAppend_spec [OF o \<open>None \<notin> set (y_al y1)\<close>, of 1 "''X''"] by auto
  have ap: "redisAppendFormattedCommand c1 ''X'' 1 y1 = Some (REDIS_OK, c1\<lparr>rc_obuf := b\<rparr>, y1\<lparr>y_al := al\<rparr>)"
    using a by (simp add: redisAppendFormattedCommand_def)
  have "session (c1, y1) (take 1 ''X'') (c1\<lparr>rc_obuf := b\<rparr>, y1\<lparr>y_al := al\<rparr>)" by (rule session_appended [OF ap o]) simp_all
  then have "rc_err (c1\<lparr>rc_obuf := b\<rparr>) \<noteq> 0" using error_is_final e(2) by blast
  then show ?thesis using r(1) e(1) ap by blast
qed

end
