(* ===== verification/NetProof.thy ===== *)
theory NetProof
  imports Net ContextProof
begin

text \<open>
  What connecting guarantees: whatever the socket layer answers, a context owns at most one open
  descriptor, the one in its field, so that freeing it closes everything that was opened; and the
  timeout handed to \<open>poll\<close> is the one asked for, rounded up, without overflow.
\<close>

section \<open>Open descriptors\<close>

fun open_fds :: "os_functions \<Rightarrow> call list \<Rightarrow> int set" where
  \<comment> \<open>opened and not closed by these calls, the last one first\<close>
  "open_fds os [] = {}"
| "open_fds os (CSocket a b c # ks) =
     (let v = fst (os_ret os ks (CSocket a b c)) in if v = -1 then open_fds os ks else insert v (open_fds os ks))"
| "open_fds os (CClose fd # ks) = open_fds os ks - {fd}"
| "open_fds os (_ # ks) = open_fds os ks"

definition fresh_fds :: "os_functions \<Rightarrow> bool" where
  \<comment> \<open>\<open>socket\<close> fails or returns a positive descriptor that is not open\<close>
  "fresh_fds os \<longleftrightarrow> (\<forall>ks a b c. let v = fst (os_ret os ks (CSocket a b c)) in v = -1 \<or> 0 < v \<and> v \<notin> open_fds os ks)"

abbreviation fds :: "sys \<Rightarrow> int set" where
  "fds y \<equiv> open_fds (y_os y) (y_calls y)"

definition owns :: "redisContext \<Rightarrow> sys \<Rightarrow> int set \<Rightarrow> bool" where
  \<comment> \<open>beside the descriptors \<open>D\<close> of others only the one of the context is open\<close>
  "owns c y D \<longleftrightarrow> fresh_fds (y_os y) \<and> (\<forall>d \<in> D. 0 < d) \<and> rc_fd c \<notin> D
     \<and> fds y = (if rc_fd c > 0 then insert (rc_fd c) D else D)"

definition keeps :: "redisContext \<Rightarrow> sys \<Rightarrow> int \<Rightarrow> redisContext \<Rightarrow> sys \<Rightarrow> bool" where
  \<comment> \<open>the outcome of an operation of the network layer: ownership is kept, success changes neither
     descriptor nor error, failure sets the error\<close>
  "keeps c y st c' y' \<longleftrightarrow> (\<forall>D. owns c y D \<longrightarrow> owns c' y' D)
     \<and> (st = REDIS_OK \<and> c' = c \<or> st = REDIS_ERR \<and> rc_err c' \<noteq> 0 \<and> rc_reader c' = rc_reader c) \<and> y_mem y' = y_mem y"

lemma sys_call_simps:
  assumes "sys_call k y = (v, y')"
  shows "v = fst (os_ret (y_os y) (y_calls y) k)" "y_os y' = y_os y" "y_calls y' = k # y_calls y" "y_mem y' = y_mem y"
  using assms by (auto simp: sys_call_def split: prod.splits)

definition plain :: "call \<Rightarrow> bool" where
  \<comment> \<open>a call that neither opens nor closes a descriptor\<close>
  "plain k \<longleftrightarrow> (\<forall>a b c. k \<noteq> CSocket a b c) \<and> (\<forall>fd. k \<noteq> CClose fd)"

lemma plain_simps [simp]:
  "plain (CSetsockopt a b c d)" "plain (CGetsockopt a b c)" "plain (CGetfl a)" "plain (CSetfl a w)" "plain (CIoctl a b d)"
  "plain (CPoll a b)" "plain (CConnect a s n)" "plain (CBind a s n)" "plain (CResolve h sv a)" "plain CFreeaddrinfo"
  by (simp_all add: plain_def)

lemma open_fds_plain: "plain k \<Longrightarrow> open_fds os (k # ks) = open_fds os ks"
  by (cases k) (auto simp: plain_def)

lemma owns_plain:
  assumes "sys_call k y = (v, y')" "plain k"
  shows "owns c y' D \<longleftrightarrow> owns c y D"
  using sys_call_simps [OF assms(1)] open_fds_plain [OF assms(2)] by (simp add: owns_def)

lemma owns_cong:
  "rc_fd c' = rc_fd c \<Longrightarrow> y_os y' = y_os y \<Longrightarrow> y_calls y' = y_calls y \<Longrightarrow> owns c' y' D \<longleftrightarrow> owns c y D"
  by (simp add: owns_def)

lemma owns_close: "redisContextCloseFd c y = (c', y') \<Longrightarrow> owns c y D \<Longrightarrow> owns c' y' D \<and> rc_fd c' < 0"
  by (auto simp: redisContextCloseFd_def owns_def sys_close_def split: if_splits)

lemma redisContextCloseFd_frame:
  "redisContextCloseFd c y = (c', y') \<Longrightarrow> rc_err c' = rc_err c \<and> rc_reader c' = rc_reader c \<and> rc_flags c' = rc_flags c
     \<and> y_mem y' = y_mem y"
  by (auto simp: redisContextCloseFd_def sys_close_def split: if_splits)

lemma redisSetErrorFromErrno_frame:
  "redisSetErrorFromErrno c ty p y = Some c' \<Longrightarrow> rc_fd c' = rc_fd c \<and> rc_err c' = ty \<and> rc_reader c' = rc_reader c"
  by (auto simp: redisSetErrorFromErrno_def Let_def dest!: redisSetError_frame)

lemma fail_errno_keeps:
  assumes "fail_errno c p y = Some (st, c', y')"
  shows "keeps c y st c' y'"
proof -
  obtain c1 where e: "redisSetErrorFromErrno c REDIS_ERR_IO p y = Some c1"
    and cl: "redisContextCloseFd c1 y = (c', y')" and st: "st = REDIS_ERR"
    using assms by (auto simp: fail_errno_def split: bind_splits prod.splits)
  have "owns c' y' D" if "owns c y D" for D
    using owns_close [OF cl] owns_cong [of c1 c y y D] that redisSetErrorFromErrno_frame [OF e] by blast
  then show ?thesis using st redisContextCloseFd_frame [OF cl] redisSetErrorFromErrno_frame [OF e] by (simp add: keeps_def)
qed

lemma keeps_call:
  assumes "sys_call k y = (v, y1)" "plain k" "keeps c y1 st c' y'"
  shows "keeps c y st c' y'"
  using assms(3) owns_plain [OF assms(1,2)] sys_call_simps(4) [OF assms(1)] by (simp add: keeps_def)

lemma keeps_refl: "keeps c y REDIS_OK c y"
  by (simp add: keeps_def)

lemma keeps_error:
  assumes "rc_fd c' = rc_fd c" "rc_err c' \<noteq> 0" "rc_reader c' = rc_reader c"
  shows "keeps c y REDIS_ERR c' y"
  using assms owns_cong [OF assms(1), of y y] by (simp add: keeps_def)

lemma keeps_trans: "keeps c y REDIS_OK c1 y1 \<Longrightarrow> keeps c1 y1 st c' y' \<Longrightarrow> keeps c y st c' y'"
  by (auto simp: keeps_def)

lemma keeps_status: "keeps c y st c' y' \<Longrightarrow> st = REDIS_OK \<or> st = REDIS_ERR"
  by (auto simp: keeps_def)

lemma redisSetBlocking_keeps:
  assumes "redisSetBlocking c b y = Some (st, c', y')"
  shows "keeps c y st c' y'"
proof -
  obtain fl y1 where g: "sys_call (CGetfl (rc_fd c)) y = (fl, y1)" by (cases "sys_call (CGetfl (rc_fd c)) y")
  have "keeps c y1 st c' y'"
  proof (cases "fl = -1")
    case True
    then show ?thesis using assms g fail_errno_keeps by (simp add: redisSetBlocking_def)
  next
    case False
    define w where "w = (if b then (word_of_int fl :: 32 word) AND NOT O_NONBLOCK else word_of_int fl OR O_NONBLOCK)"
    obtain v y2 where s: "sys_call (CSetfl (rc_fd c) w) y1 = (v, y2)" by (cases "sys_call (CSetfl (rc_fd c) w) y1")
    have "(if v = -1 then fail_errno c (Some ''fcntl(F_SETFL)'') y2 else Some (REDIS_OK, c, y2)) = Some (st, c', y')"
      using assms g False s by (simp add: redisSetBlocking_def Let_def w_def)
    then have "keeps c y2 st c' y'" using fail_errno_keeps keeps_refl by (auto split: if_splits)
    then show ?thesis by (rule keeps_call [OF s plain_simps(4)])
  qed
  then show ?thesis by (rule keeps_call [OF g plain_simps(3)])
qed

lemma redisSetTcpNoDelay_keeps:
  assumes "redisSetTcpNoDelay c y = Some (st, c', y')"
  shows "keeps c y st c' y'"
proof -
  obtain v y1 where g: "sys_call (CSetsockopt (rc_fd c) IPPROTO_TCP TCP_NODELAY [1]) y = (v, y1)"
    by (cases "sys_call (CSetsockopt (rc_fd c) IPPROTO_TCP TCP_NODELAY [1]) y")
  have "keeps c y1 st c' y'"
    using assms g fail_errno_keeps keeps_refl by (auto simp: redisSetTcpNoDelay_def split: if_splits)
  then show ?thesis by (rule keeps_call [OF g plain_simps(1)])
qed

lemma redisCheckSocketError_keeps:
  assumes "redisCheckSocketError c y = Some (st, c', y')"
  shows "keeps c y st c' y'"
proof -
  obtain v y1 where g: "sys_call (CGetsockopt (rc_fd c) SOL_SOCKET SO_ERROR) y = (v, y1)"
    by (cases "sys_call (CGetsockopt (rc_fd c) SOL_SOCKET SO_ERROR) y")
  let ?e = "os_soerror (y_os y) (y_calls y)"
  consider (fail) p y2 where "redisSetErrorFromErrno c REDIS_ERR_IO p y2 = Some c'" "st = REDIS_ERR" "y' = y1 \<or> y' = y1\<lparr>y_errno := ?e\<rparr>"
    | (ok) "st = REDIS_OK" "c' = c" "y' = y1"
    using assms g by (auto simp: redisCheckSocketError_def Let_def split: if_splits bind_splits)
  then have "keeps c y1 st c' y'"
  proof cases
    case fail
    have "keeps c y1 REDIS_ERR c' y1" using redisSetErrorFromErrno_frame [OF fail(1)] by (intro keeps_error) auto
    moreover have "owns c' y' D \<longleftrightarrow> owns c' y1 D" for D using fail(3) by (auto simp: owns_def)
    ultimately show ?thesis using fail(2,3) by (auto simp: keeps_def)
  qed (simp add: keeps_refl)
  then show ?thesis by (rule keeps_call [OF g plain_simps(2)])
qed

lemma keeps_errno:
  assumes "keeps c (y\<lparr>y_errno := e\<rparr>) st c' y'"
  shows "keeps c y st c' y'"
proof -
  have "owns c (y\<lparr>y_errno := e\<rparr>) D = owns c y D" for D by (simp add: owns_def)
  then show ?thesis using assms by (simp add: keeps_def)
qed

lemma redisContextWaitReady_keeps:
  assumes "redisContextWaitReady c timeout y = Some (st, c', y')"
  shows "keeps c y st c' y' "
proof -
  consider (early) p where "fail_errno c p y = Some (st, c', y')"
    | (poll) msec where "(case sys_call (CPoll (rc_fd c) msec) y of
             (res, y) \<Rightarrow>
               if res = -1 then fail_errno c (Some ''poll(2)'') y
               else if res = 0 then fail_errno c None (y\<lparr>y_errno := ETIMEDOUT\<rparr>)
               else do {
                 (st, c, y) \<leftarrow> redisCheckSocketError c y;
                 Some (if st \<noteq> REDIS_OK then REDIS_ERR else REDIS_OK, c, y)
               }) = Some (st, c', y')"
    using assms unfolding redisContextWaitReady_def by (auto split: if_splits bind_splits)
  then show ?thesis
  proof cases
    case early
    then show ?thesis by (rule fail_errno_keeps)
  next
    case poll
    obtain res y1 where p: "sys_call (CPoll (rc_fd c) msec) y = (res, y1)" by (cases "sys_call (CPoll (rc_fd c) msec) y")
    have "keeps c y1 st c' y'"
    proof (cases "res = -1 \<or> res = 0")
      case True
      then show ?thesis using poll p fail_errno_keeps keeps_errno by (fastforce split: if_splits)
    next
      case False
      then obtain st1 where "redisCheckSocketError c y1 = Some (st1, c', y')" "st = (if st1 \<noteq> REDIS_OK then REDIS_ERR else REDIS_OK)"
        using poll p by (auto split: bind_splits)
      then show ?thesis using redisCheckSocketError_keeps keeps_status by fastforce
    qed
    then show ?thesis by (rule keeps_call [OF p plain_simps(6)])
  qed
qed

lemma bind_first_plain:
  "bind_first s bs y = (b, y') \<Longrightarrow> (\<forall>c D. owns c y' D = owns c y D) \<and> y_mem y' = y_mem y"
proof (induction s bs y rule: bind_first.induct)
  case (2 s b' bs y)
  obtain v y1 where k: "sys_call (CBind s (ai_addr b') (ai_addrlen b')) y = (v, y1)"
    by (cases "sys_call (CBind s (ai_addr b') (ai_addrlen b')) y")
  have o: "\<forall>c D. owns c y1 D = owns c y D" "y_mem y1 = y_mem y"
    using owns_plain [OF k plain_simps(8)] sys_call_simps(4) [OF k] by blast+
  show ?case
  proof (cases "v = -1")
    case True
    then have "bind_first s bs y1 = (b, y')" using 2(2) k by simp
    then show ?thesis using 2(1) [OF k [symmetric]] True o by simp
  next
    case False
    then show ?thesis using 2(2) k o by auto
  qed
qed simp

lemma getaddrinfo_plain:
  "getaddrinfo h sv f y = (res, y') \<Longrightarrow> owns c y' D = owns c y D \<and> y_mem y' = y_mem y \<and> y_os y' = y_os y"
  by (auto simp: getaddrinfo_def Let_def owns_def)

lemma freeaddrinfo_plain [simp]: "owns c (freeaddrinfo y) D = owns c y D" "y_mem (freeaddrinfo y) = y_mem y"
  by (simp_all add: freeaddrinfo_def owns_def)

lemma keepsI_same:
  "keeps c y1 st c' y' \<Longrightarrow> (\<And>D. owns c y1 D = owns c y D) \<Longrightarrow> y_mem y1 = y_mem y \<Longrightarrow> keeps c y st c' y'"
  by (simp add: keeps_def)

lemma set_error_keeps:
  "redisSetError c ty str y = Some c' \<Longrightarrow> ty \<noteq> 0 \<Longrightarrow> keeps c y REDIS_ERR c' y"
  by (rule keeps_error) (auto dest: redisSetError_frame)

lemma fail_other_keeps:
  assumes "fail_other c text y = Some (st, c', y')"
  shows "keeps c y st c' y' \<and> st = REDIS_ERR"
proof -
  obtain buf where e: "redisSetError c REDIS_ERR_OTHER (Some buf) y = Some c'" "st = REDIS_ERR" "y' = y"
    using assms unfolding fail_other_def bind_eq_Some_conv by blast
  then show ?thesis using set_error_keeps [OF e(1)] by simp
qed

lemma bind_source_keeps:
  assumes "bind_source c s fam src y = Some (st, c', y')"
  shows "keeps c y st c' y'"
proof (cases src)
  case None
  then show ?thesis using assms keeps_refl by (auto simp: bind_source_def)
next
  case (Some a)
  obtain res y1 where g: "getaddrinfo (Some a) None fam y = (res, y1)" by (cases "getaddrinfo (Some a) None fam y")
  show ?thesis
  proof (cases res)
    case (Inl rv)
    have "keeps c y1 st c' y'"
      using assms unfolding bind_source_def Some g option.case prod.case Inl sum.case
      by (rule fail_other_keeps [THEN conjunct1])
    then show ?thesis by (rule keepsI_same) (use getaddrinfo_plain [OF g] in auto)
  next
    case (Inr l)
    obtain b y2 where b: "bind_first s l y1 = (b, y2)" by (cases "bind_first s l y1")
    have "keeps c (freeaddrinfo y2) st c' y'"
    proof (cases b)
      case True
      then show ?thesis using assms Some g Inr b keeps_refl by (auto simp: bind_source_def Let_def)
    next
      case False
      then have nb: "(\<not> b) = True" by simp
      show ?thesis
        using assms unfolding bind_source_def Some g option.case prod.case Inr sum.case b Let_def nb if_True
        by (rule fail_other_keeps [THEN conjunct1])
    qed
    then show ?thesis by (rule keepsI_same) (use getaddrinfo_plain [OF g] bind_first_plain [OF b] in auto)
  qed
qed

definition connects :: "redisContext \<Rightarrow> sys \<Rightarrow> int \<Rightarrow> redisContext \<Rightarrow> sys \<Rightarrow> bool" where
  \<comment> \<open>the outcome of an attempt to connect\<close>
  "connects c y st c' y' \<longleftrightarrow> (\<forall>D. owns c y D \<longrightarrow> owns c' y' D) \<and> rc_reader c' = rc_reader c \<and> y_mem y' = y_mem y
     \<and> (st = REDIS_OK \<and> rc_err c' = rc_err c \<and> has_flag c' REDIS_CONNECTED \<and> rc_fd c' > 0 \<or> st = REDIS_ERR \<and> rc_err c' \<noteq> 0)"

lemma keeps_connects: "keeps c y REDIS_ERR c' y' \<Longrightarrow> connects c y REDIS_ERR c' y'"
  by (auto simp: keeps_def connects_def)

lemma keeps_connects_trans: "keeps c y REDIS_OK c1 y1 \<Longrightarrow> connects c1 y1 st c' y' \<Longrightarrow> connects c y st c' y'"
  by (auto simp: keeps_def connects_def)

lemma finish_connect_connects:
  assumes "finish_connect c b y = Some (st, c', y')" "rc_fd c > 0"
  shows "connects c y st c' y'"
proof -
  obtain st1 c1 y1 where 1: "(if b then redisSetBlocking c True y else Some (REDIS_OK, c, y)) = Some (st1, c1, y1)"
    "(if st1 \<noteq> REDIS_OK then Some (REDIS_ERR, c1, y1)
     else do {
       (st, c, y) \<leftarrow> redisSetTcpNoDelay c1 y1;
       if st \<noteq> REDIS_OK then Some (REDIS_ERR, c, y)
       else Some (REDIS_OK, set_flag c REDIS_CONNECTED, y)
     }) = Some (st, c', y')"
    using assms(1) unfolding finish_connect_def by (auto split: bind_splits)
  have k1: "keeps c y st1 c1 y1" using 1(1) redisSetBlocking_keeps keeps_refl by (auto split: if_splits)
  show ?thesis
  proof (cases "st1 = REDIS_OK")
    case False
    then show ?thesis using 1(2) k1 keeps_status [OF k1] keeps_connects by auto
  next
    case True
    then have "c1 = c" using k1 by (auto simp: keeps_def)
    obtain st2 c2 y2 where 2: "redisSetTcpNoDelay c1 y1 = Some (st2, c2, y2)"
      "(if st2 \<noteq> REDIS_OK then Some (REDIS_ERR, c2, y2) else Some (REDIS_OK, set_flag c2 REDIS_CONNECTED, y2)) = Some (st, c', y')"
      using 1(2) True by (auto split: bind_splits)
    have k2: "keeps c1 y1 st2 c2 y2" using redisSetTcpNoDelay_keeps [OF 2(1)] .
    have "connects c1 y1 st c' y'"
    proof (cases "st2 = REDIS_OK")
      case False
      then show ?thesis using 2(2) k2 keeps_status [OF k2] keeps_connects by auto
    next
      case ok: True
      then have "c2 = c1" "st = REDIS_OK" "c' = set_flag c1 REDIS_CONNECTED" "y' = y2" using k2 2(2) by (auto simp: keeps_def)
      moreover have "has_flag (set_flag c1 REDIS_CONNECTED) REDIS_CONNECTED"
      proof -
        have "bit ((rc_flags c1 OR REDIS_CONNECTED) AND REDIS_CONNECTED) 1"
          by (simp add: REDIS_CONNECTED_def bit_simps)
        then show ?thesis by (auto simp: has_flag_def set_flag_def)
      qed
      moreover have "owns (set_flag c1 REDIS_CONNECTED) y2 D = owns c1 y2 D" for D by (simp add: owns_def set_flag_def)
      moreover have "rc_err (set_flag c1 REDIS_CONNECTED) = rc_err c1" "rc_reader (set_flag c1 REDIS_CONNECTED) = rc_reader c1"
        "rc_fd (set_flag c1 REDIS_CONNECTED) = rc_fd c1" by (simp_all add: set_flag_def)
      ultimately show ?thesis using k2 ok assms(2) \<open>c1 = c\<close> unfolding keeps_def connects_def by simp
    qed
    then show ?thesis using keeps_connects_trans k1 True by blast
  qed
qed

lemma owns_socket:
  assumes "sys_call (CSocket a b e) y = (v, y1)" "owns c y D" "rc_fd c \<le> 0"
  shows "if v = -1 then owns c y1 D else owns (c\<lparr>rc_fd := v\<rparr>) y1 D \<and> v > 0"
proof -
  note k = sys_call_simps [OF assms(1)]
  have "v = -1 \<or> 0 < v \<and> v \<notin> fds y" using assms(2) k(1) unfolding owns_def fresh_fds_def Let_def by blast
  then show ?thesis using assms(2,3) k by (auto simp: owns_def Let_def)
qed

definition grabs :: "redisContext \<Rightarrow> sys \<Rightarrow> int set \<Rightarrow> int \<Rightarrow> redisContext \<Rightarrow> sys \<Rightarrow> bool" where
  \<comment> \<open>the outcome of connecting a context that had no open descriptor\<close>
  "grabs c y D st c' y' \<longleftrightarrow> owns c' y' D \<and> rc_reader c' = rc_reader c \<and> y_mem y' = y_mem y
     \<and> (st = REDIS_OK \<and> rc_err c' = rc_err c \<and> has_flag c' REDIS_CONNECTED \<and> rc_fd c' > 0 \<or> st = REDIS_ERR \<and> rc_err c' \<noteq> 0)"

lemma connects_grabs: "connects c y st c' y' \<Longrightarrow> owns c y D \<Longrightarrow> grabs c y D st c' y'"
  by (auto simp: connects_def grabs_def)

lemma grabs_start:
  "grabs c1 y1 D st c' y' \<Longrightarrow> rc_reader c1 = rc_reader c \<Longrightarrow> rc_err c1 = rc_err c \<Longrightarrow> y_mem y1 = y_mem y \<Longrightarrow> grabs c y D st c' y'"
  by (auto simp: grabs_def)

lemma connect_body_connects:
  assumes "connect_loop blocking timeout src fam (p # ps) c y = Some (st, c', y')"
    "sys_call (CSocket (ai_family p) (ai_socktype p) (ai_protocol p)) y = (s, y0)" "s \<noteq> -1" "s > 0"
  shows "connects (c\<lparr>rc_fd := s\<rparr>) y0 st c' y'
    \<or> (\<exists>c1 y1. (\<forall>D. owns (c\<lparr>rc_fd := s\<rparr>) y0 D \<longrightarrow> owns c1 y1 D) \<and> rc_fd c1 \<le> 0 \<and> rc_err c1 = rc_err c
        \<and> rc_reader c1 = rc_reader c \<and> y_mem y1 = y_mem y0 \<and> connect_loop blocking timeout src fam ps c1 y1 = Some (st, c', y'))"
proof -
  let ?c = "c\<lparr>rc_fd := s\<rparr>"
  obtain st1 c1 y1 where 1: "redisSetBlocking ?c False y0 = Some (st1, c1, y1)"
    using assms(1-3) by (auto split: bind_splits)
  have k1: "keeps ?c y0 st1 c1 y1" using redisSetBlocking_keeps [OF 1] .
  show ?thesis
  proof (cases "st1 = REDIS_OK")
    case False
    then have "st = REDIS_ERR" "c' = c1" "y' = y1" using assms(1-3) 1 by auto
    then show ?thesis using k1 keeps_status [OF k1] False keeps_connects by auto
  next
    case ok1: True
    then have c1: "c1 = ?c" using k1 by (auto simp: keeps_def)
    obtain st2 c2 y2 where 2: "bind_source ?c s fam src y1 = Some (st2, c2, y2)"
      using assms(1-3) 1 ok1 c1 by (auto split: bind_splits)
    have "keeps ?c y1 st2 c2 y2" using bind_source_keeps [OF 2] .
    then have k2: "keeps ?c y0 st2 c2 y2" using keeps_trans k1 ok1 c1 by blast
    show ?thesis
    proof (cases "st2 = REDIS_OK")
      case False
      then have "st = REDIS_ERR" "c' = c2" "y' = y2" using assms(1-3) 1 ok1 c1 2 by auto
      then show ?thesis using k2 keeps_status [OF k2] False keeps_connects by auto
    next
      case ok2: True
      then have c2: "c2 = ?c" using k2 by (auto simp: keeps_def)
      obtain v y3 where 3: "sys_call (CConnect s (ai_addr p) (ai_addrlen p)) y2 = (v, y3)"
        by (cases "sys_call (CConnect s (ai_addr p) (ai_addrlen p)) y2")
      have k3: "keeps ?c y0 REDIS_OK ?c y3"
        using keeps_trans [OF k2 [unfolded ok2 c2] keeps_call [OF 3 plain_simps(7) keeps_refl]] .
      show ?thesis
      proof (cases "v = -1 \<and> y_errno y3 = EHOSTUNREACH")
        case True
        obtain c4 y4 where 4: "redisContextCloseFd ?c y3 = (c4, y4)" by (cases "redisContextCloseFd ?c y3")
        have "connect_loop blocking timeout src fam ps c4 y4 = Some (st, c', y')"
          using assms(1-3) 1 ok1 c1 2 ok2 c2 3 True 4 by simp
        moreover have "\<forall>D. owns ?c y0 D \<longrightarrow> owns c4 y4 D" using owns_close [OF 4] k3 by (simp add: keeps_def)
        moreover have "rc_fd c4 \<le> 0" using 4 assms(4) by (auto simp: redisContextCloseFd_def)
        ultimately show ?thesis using redisContextCloseFd_frame [OF 4] k3 by (auto simp: keeps_def)
      next
        case False
        obtain st5 c5 y5 where 5: "(if v = -1 \<and> \<not> (y_errno y3 = EINPROGRESS \<and> \<not> blocking)
                         then redisContextWaitReady ?c timeout y3 else Some (REDIS_OK, ?c, y3)) = Some (st5, c5, y5)"
          "(if st5 \<noteq> REDIS_OK then Some (REDIS_ERR, c5, y5) else finish_connect c5 blocking y5) = Some (st, c', y')"
          using assms(1-3) 1 ok1 c1 2 ok2 c2 3 False by (auto split: bind_splits simp del: de_Morgan_conj)
        have "keeps ?c y3 st5 c5 y5" using 5(1) redisContextWaitReady_keeps keeps_refl by (auto split: if_splits)
        then have k5: "keeps ?c y0 st5 c5 y5" using keeps_trans k3 by blast
        show ?thesis
        proof (cases "st5 = REDIS_OK")
          case False
          then have "st = REDIS_ERR" "c' = c5" "y' = y5" using 5(2) by auto
          then show ?thesis using k5 keeps_status [OF k5] False keeps_connects by auto
        next
          case True
          then have "c5 = ?c" using k5 by (auto simp: keeps_def)
          then have "connects c5 y5 st c' y'" using finish_connect_connects 5(2) True assms(4) by simp
          then show ?thesis using keeps_connects_trans k5 True by blast
        qed
      qed
    qed
  qed
qed

lemma connect_loop_grabs:
  assumes "connect_loop blocking timeout src fam ps c y = Some (st, c', y')" "owns c y D" "rc_fd c \<le> 0"
  shows "grabs c y D st c' y'"
  using assms
proof (induction ps arbitrary: c y)
  case Nil
  have "fail_other c (''Can'' @ [SQUOTE] @ ''t create socket: '' @ os_strerror (y_os y) (y_errno y)) y = Some (st, c', y')"
    using Nil(1) unfolding connect_loop.simps .
  from fail_other_keeps [OF this] show ?case using Nil(2) by (auto simp: keeps_def grabs_def)
next
  case (Cons p ps)
  obtain s y1 where s: "sys_call (CSocket (ai_family p) (ai_socktype p) (ai_protocol p)) y = (s, y1)"
    by (cases "sys_call (CSocket (ai_family p) (ai_socktype p) (ai_protocol p)) y")
  have m: "y_mem y1 = y_mem y" using sys_call_simps(4) [OF s] .
  show ?case
  proof (cases "s = -1")
    case True
    then have "connect_loop blocking timeout src fam ps c y1 = Some (st, c', y')" using Cons.prems(1) s by simp
    moreover have "owns c y1 D" using owns_socket [OF s Cons.prems(2,3)] True by simp
    ultimately show ?thesis using Cons.IH Cons.prems(3) grabs_start m by blast
  next
    case False
    then have o: "owns (c\<lparr>rc_fd := s\<rparr>) y1 D" "s > 0" using owns_socket [OF s Cons.prems(2,3)] by simp_all
    from connect_body_connects [OF Cons.prems(1) s False o(2)] show ?thesis
    proof
      assume "connects (c\<lparr>rc_fd := s\<rparr>) y1 st c' y'"
      then show ?thesis by (rule grabs_start [OF connects_grabs [OF _ o(1)]]) (use m in simp_all)
    next
      assume "\<exists>c1 y2. (\<forall>D. owns (c\<lparr>rc_fd := s\<rparr>) y1 D \<longrightarrow> owns c1 y2 D) \<and> rc_fd c1 \<le> 0 \<and> rc_err c1 = rc_err c
        \<and> rc_reader c1 = rc_reader c \<and> y_mem y2 = y_mem y1 \<and> connect_loop blocking timeout src fam ps c1 y2 = Some (st, c', y')"
      then obtain c1 y2 where 1: "owns c1 y2 D" "rc_fd c1 \<le> 0" "rc_err c1 = rc_err c" "rc_reader c1 = rc_reader c"
        "y_mem y2 = y_mem y1" "connect_loop blocking timeout src fam ps c1 y2 = Some (st, c', y')"
        using o(1) by blast
      show ?thesis by (rule grabs_start [OF Cons.IH [OF 1(6,1,2)]]) (use 1 m in simp_all)
    qed
  qed
qed

lemma connect_tcp_grabs:
  assumes "connect_tcp c host port timeout src y = Some (st, c', y')" "owns c y D" "rc_fd c \<le> 0"
  shows "grabs c y D st c' y'"
proof -
  obtain pt where pt: "c_snprintf 6 (dec_int port) = Some pt" using assms(1) by (auto simp: connect_tcp_def split: bind_splits)
  obtain res fam y1 where X: "resolve_tcp host pt y = (res, fam, y1)" by (cases "resolve_tcp host pt y")
  have o: "owns c y1 D" "y_mem y1 = y_mem y"
    using X assms(2) unfolding resolve_tcp_def
    by (auto split: prod.splits sum.splits dest!: getaddrinfo_plain [where c = c and D = D])
  show ?thesis
  proof (cases res)
    case (Inl rv)
    then have e: "redisSetError c REDIS_ERR_OTHER (Some (os_gai_strerror (y_os y1) rv)) y1 = Some c'" "st = REDIS_ERR" "y' = y1"
      using assms(1) pt X unfolding connect_tcp_def Let_def by (auto split: bind_splits)
    from set_error_keeps [OF e(1)] show ?thesis using e(2,3) o by (auto simp: keeps_def grabs_def)
  next
    case (Inr l)
    then obtain y2 where l: "connect_loop (has_flag c REDIS_BLOCK) timeout src fam l c y1 = Some (st, c', y2)" "y' = freeaddrinfo y2"
      using assms(1) pt X unfolding connect_tcp_def Let_def by (auto split: bind_splits)
    have "grabs c y1 D st c' y2" by (rule connect_loop_grabs [OF l(1) o(1) assms(3)])
    then show ?thesis using o(2) l(2) by (simp add: grabs_def)
  qed
qed

lemma open_fds_pos: "fresh_fds os \<Longrightarrow> d \<in> open_fds os ks \<Longrightarrow> 0 < d"
proof (induction os ks rule: open_fds.induct)
  case (2 os a b e ks)
  then show ?case unfolding fresh_fds_def open_fds.simps Let_def by (auto split: if_splits)
qed auto

lemma redisContextInit_owns:
  assumes "redisContextInit y = Some (Some c, y1)" "fresh_fds (y_os y)"
  shows "owns c y1 (fds y) \<and> rc_fd c = 0 \<and> rc_err c = 0 \<and> (\<forall>r. rc_reader c = Some r \<longrightarrow> rr_reply r = None) \<and> y_os y1 = y_os y
     \<and> y_mem y1 = y_mem y"
proof -
  obtain al obuf al1 reader al2 where c: "redisReaderCreate al1 = Some (reader, al2)"
    "c = \<lparr>rc_err = 0, rc_errstr = [], rc_fd = 0, rc_flags = 0, rc_obuf = obuf, rc_reader = reader\<rparr>" "y1 = y\<lparr>y_al := al2\<rparr>"
    using assms(1) by (auto simp: redisContextInit_def split: prod.splits option.splits bind_splits)
  moreover have "rr_reply r = None" if "reader = Some r" for r
    using c(1) that by (auto simp: redisReaderCreate_def split: option.splits prod.splits bind_splits)
  moreover have "0 \<notin> fds y" using open_fds_pos [OF assms(2), of 0] by auto
  ultimately show ?thesis using open_fds_pos assms(2) by (auto simp: owns_def)
qed

lemma grabs_free:
  assumes "grabs c y D st c' y'" "owns c y D" "\<forall>r. rc_reader c = Some r \<longrightarrow> rr_reply r = None" "rc_err c = 0"
  shows "fds y' = (if rc_fd c' > 0 then insert (rc_fd c') D else D) \<and> rc_fd c' \<notin> D
    \<and> (rc_err c' = 0 \<longrightarrow> rc_fd c' > 0 \<and> has_flag c' REDIS_CONNECTED) \<and> (\<exists>y2. redisFree c' y' = Some y2 \<and> fds y2 = D)"
proof -
  have o: "fds y' = (if rc_fd c' > 0 then insert (rc_fd c') D else D)" "rc_fd c' \<notin> D" "rc_reader c' = rc_reader c"
    using assms(1) by (auto simp: grabs_def owns_def)
  have "redisFree c' y' = Some (if rc_fd c' > 0 then sys_close (rc_fd c') y' else y')"
  proof (cases "rc_reader c'")
    case None
    then show ?thesis by (simp add: redisFree_def Let_def)
  next
    case (Some r)
    then have "rr_reply r = None" using assms(3) o(3) by simp
    then show ?thesis using Some by (simp add: redisFree_def redisReaderFree_def Let_def)
  qed
  moreover have "fds (sys_close fd y') = fds y' - {fd}" for fd by (simp add: sys_close_def)
  ultimately have "\<exists>y2. redisFree c' y' = Some y2 \<and> fds y2 = D" using o by auto
  moreover have "rc_err c' = 0 \<longrightarrow> rc_fd c' > 0 \<and> has_flag c' REDIS_CONNECTED" using assms(1,4) by (auto simp: grabs_def)
  ultimately show ?thesis using o by blast
qed

lemma owns_flags: "owns (set_flag c f) y D = owns c y D" "owns (clear_flag c f) y D = owns c y D"
  by (simp_all add: owns_def set_flag_def clear_flag_def)

lemma has_set_flag: "f \<noteq> 0 \<Longrightarrow> has_flag (set_flag c f) f"
proof -
  have "(rc_flags c OR f) AND f = f" by (rule bit_eqI) (auto simp: bit_simps)
  then show "f \<noteq> 0 \<Longrightarrow> has_flag (set_flag c f) f" by (simp add: has_flag_def set_flag_def)
qed

lemma flag_frame [simp]:
  "rc_fd (set_flag c f) = rc_fd c" "rc_err (set_flag c f) = rc_err c" "rc_reader (set_flag c f) = rc_reader c"
  "rc_fd (clear_flag c f) = rc_fd c" "rc_err (clear_flag c f) = rc_err c" "rc_reader (clear_flag c f) = rc_reader c"
  by (simp_all add: set_flag_def clear_flag_def)

lemma connected_frees:
  assumes "redisContextInit y = Some (Some c0, y0)" "fresh_fds (y_os y)" "c1 = set_flag c0 f \<or> c1 = clear_flag c0 f"
    "connect_tcp c1 host port timeout src y0 = Some (st, c, y1)"
  shows "fds y1 = (if rc_fd c > 0 then insert (rc_fd c) (fds y) else fds y) \<and> rc_fd c \<notin> fds y
    \<and> (rc_err c = 0 \<longrightarrow> rc_fd c > 0 \<and> has_flag c REDIS_CONNECTED) \<and> (\<exists>y2. redisFree c y1 = Some y2 \<and> fds y2 = fds y)"
proof -
  have i: "owns c1 y0 (fds y)" "rc_fd c1 = 0" "rc_err c1 = 0" "\<forall>r. rc_reader c1 = Some r \<longrightarrow> rr_reply r = None"
    using redisContextInit_owns [OF assms(1,2)] assms(3) by (auto simp: owns_flags)
  have "grabs c1 y0 (fds y) st c y1" by (rule connect_tcp_grabs [OF assms(4) i(1)]) (use i(2) in simp)
  then show ?thesis by (rule grabs_free [OF _ i(1,4,3)])
qed

lemma with_contextE:
  assumes "with_context f y = Some (Some c, y1)"
  obtains c0 y0 st where "redisContextInit y = Some (Some c0, y0)" "f c0 y0 = Some (st, c, y1)"
  using assms by (auto simp: with_context_def split: bind_splits option.splits)

section \<open>Properties\<close>

text \<open>
  C26: connecting leaks no descriptor. Whatever the resolver and the socket layer answer, if
  \<open>socket\<close> returns descriptors that are not open, then after any of the functions that connect over
  TCP the only new open descriptor is the one in the context, if any; without error it is connected;
  and \<open>redisFree\<close> leaves exactly the descriptors open that were open before.
\<close>
theorem connect_owns_one_socket:
  assumes "fresh_fds (y_os y)"
    "redisConnect ip port y = Some (Some c, y1) \<or> redisConnectWithTimeout ip port tv y = Some (Some c, y1)
     \<or> redisConnectNonBlock ip port y = Some (Some c, y1) \<or> redisConnectBindNonBlock ip port src y = Some (c, y1)"
  shows "fds y1 = (if rc_fd c > 0 then insert (rc_fd c) (fds y) else fds y) \<and> rc_fd c \<notin> fds y
    \<and> (rc_err c = 0 \<longrightarrow> rc_fd c > 0 \<and> has_flag c REDIS_CONNECTED) \<and> (\<exists>y2. redisFree c y1 = Some y2 \<and> fds y2 = fds y)"
proof -
  have "\<exists>c0 y0 c2 tmo sr st f. redisContextInit y = Some (Some c0, y0) \<and> (c2 = set_flag c0 f \<or> c2 = clear_flag c0 f)
      \<and> connect_tcp c2 ip port tmo sr y0 = Some (st, c, y1)"
    using assms(2)
  proof (elim disjE)
    assume "redisConnect ip port y = Some (Some c, y1)"
    then show ?thesis unfolding redisConnect_def redisContextConnectTcp_def by (elim with_contextE) blast
  next
    assume "redisConnectWithTimeout ip port tv y = Some (Some c, y1)"
    then show ?thesis unfolding redisConnectWithTimeout_def redisContextConnectTcp_def by (elim with_contextE) blast
  next
    assume "redisConnectNonBlock ip port y = Some (Some c, y1)"
    then show ?thesis unfolding redisConnectNonBlock_def redisContextConnectTcp_def by (elim with_contextE) blast
  next
    assume "redisConnectBindNonBlock ip port src y = Some (c, y1)"
    then obtain c0 y0 st where "redisContextInit y = Some (Some c0, y0)"
      "connect_tcp (clear_flag c0 REDIS_BLOCK) ip port None src y0 = Some (st, c, y1)"
      unfolding redisConnectBindNonBlock_def redisContextConnectBindTcp_def by (auto split: bind_splits)
    then show ?thesis by blast
  qed
  then show ?thesis using connected_frees [OF _ assms(1)] by blast
qed

definition test_net :: sys where
  \<comment> \<open>one address, whose first connection attempt stays in progress and then succeeds\<close>
  "test_net = (test_sys [] [])\<lparr>y_os := \<lparr>os_ret = (\<lambda>ks k. case k of CSocket _ _ _ \<Rightarrow> (int (Suc (length ks)), 0)
       | CConnect _ _ _ \<Rightarrow> (-1, EINPROGRESS) | CPoll _ _ \<Rightarrow> (1, 0) | _ \<Rightarrow> (0, 0)),
     os_soerror = (\<lambda>_. 0), os_resolve = (\<lambda>_ _. Inr [\<lparr>ai_family = 2, ai_socktype = 1, ai_protocol = 6, ai_addr = [], ai_addrlen = 16\<rparr>]),
     os_strerror_r = (\<lambda>_ _. []), os_strerror = (\<lambda>_. []), os_gai_strerror = (\<lambda>_. [])\<rparr>\<rparr>"

lemma open_fds_le: "d \<in> open_fds (y_os test_net) ks \<Longrightarrow> d \<le> int (length ks)"
  by (induction "y_os test_net" ks rule: open_fds.induct) (auto simp: test_net_def Let_def)

lemma test_net_fresh: "fresh_fds (y_os test_net)"
  unfolding fresh_fds_def Let_def using open_fds_le by (fastforce simp: test_net_def)

theorem connect_owns_one_socket_witness:
  "\<exists>c y1 y2. redisConnect ''h'' 80 test_net = Some (Some c, y1) \<and> rc_err c = 0 \<and> rc_fd c = 2 \<and> fds y1 = {2}
     \<and> redisFree c y1 = Some y2 \<and> fds y2 = {}"
proof -
  obtain c0 al where c0: "redisContextInit test_net = Some (Some c0, test_net\<lparr>y_al := al\<rparr>)"
    using redisContextInit_conn [of test_net Map.empty 0] by (auto simp: test_net_def test_sys_def)
  have i: "rc_fd c0 = 0" "rc_err c0 = 0" using redisContextInit_owns [OF c0 test_net_fresh] by simp_all
  have b: "has_flag (set_flag c0 REDIS_BLOCK) REDIS_BLOCK"
    by (rule has_set_flag) (simp add: REDIS_BLOCK_def)
  have "dec_int 80 = ''80''" by code_simp
  then have l: "c_snprintf 6 (dec_int 80) = Some ''80''" by (simp add: c_snprintf_def)
  have "\<exists>c y1. redisConnect ''h'' 80 test_net = Some (Some c, y1) \<and> rc_err c = 0 \<and> rc_fd c = 2"
    using b i unfolding redisConnect_def with_context_def c0 redisContextConnectTcp_def connect_tcp_def
    by (simp add: l resolve_tcp_def getaddrinfo_def Let_def sys_call_def redisSetBlocking_def bind_source_def
      redisContextWaitReady_def redisCheckSocketError_def finish_connect_def redisSetTcpNoDelay_def test_net_def test_sys_def)
  then obtain c y1 where r: "redisConnect ''h'' 80 test_net = Some (Some c, y1)" "rc_err c = 0" "rc_fd c = 2" by blast
  have "fds test_net = {}" by (simp add: test_net_def test_sys_def)
  then show ?thesis using connect_owns_one_socket [OF test_net_fresh disjI1 [OF r(1)]] r by auto
qed

text \<open>
  C29: the timeout of a connection. The code refuses only times that are too large. For the accepted
  ones with \<open>tv_usec\<close> from 0 to 1000000: a time that is not negative gives \<open>poll\<close> the number of
  milliseconds rounded up, never less than asked for and less than one millisecond more, computed
  without overflow in the 32 bits of a \<open>long\<close>. A negative \<open>tv_sec\<close> is accepted too: below -2147483 its
  product with 1000 overflows, and otherwise \<open>poll\<close> is given \<open>INT_MAX\<close>, some 24 days (or 0, where the
  microseconds make up for -1 seconds).
\<close>
theorem timeout_rounds_up:
  assumes "tv_sec tv \<le> MAX_MSEC" "0 \<le> tv_usec tv" "tv_usec tv \<le> 1000000"
  shows "if 0 \<le> tv_sec tv
    then \<exists>ms. wait_msec tv = Some ms \<and> 0 \<le> ms \<and> ms < 2 ^ 31
      \<and> tv_sec tv * 1000000 + tv_usec tv \<le> ms * 1000 \<and> ms * 1000 < tv_sec tv * 1000000 + tv_usec tv + 1000
    else wait_msec tv = (if tv_sec tv < -2147483 then None
      else if tv_sec tv = -1 \<and> 999000 < tv_usec tv then Some 0 else Some (2 ^ 31 - 1))"
proof -
  have d: "(tv_usec tv + 999) sdiv 1000 = (tv_usec tv + 999) div 1000" using assms(2) by (simp add: signed_divide_int_def)
  have m: "MAX_MSEC = 2147482" by (simp add: MAX_MSEC_def)
  let ?b = "(tv_usec tv + 999) div 1000"
  have b: "0 \<le> ?b" "?b \<le> 1000" "tv_usec tv \<le> ?b * 1000" "?b * 1000 < tv_usec tv + 1000" using assms(2,3) by linarith+
  show ?thesis
  proof (cases "0 \<le> tv_sec tv")
    case True
    then have "wait_msec tv = Some (tv_sec tv * 1000 + ?b)" using assms(1) b(1,2) m by (simp add: wait_msec_def d)
    then show ?thesis using True assms(1) b m by simp
  next
    case False
    have "tv_sec tv * 1000 + ?b < 0 \<longleftrightarrow> \<not> (tv_sec tv = -1 \<and> 999000 < tv_usec tv)" using False b by auto
    moreover have "tv_sec tv * 1000 + ?b = 0" if "tv_sec tv = -1" "999000 < tv_usec tv" using that b by simp
    ultimately show ?thesis using False b(1,2) by (auto simp: wait_msec_def d)
  qed
qed

theorem timeout_rounds_up_witness:
  "(\<exists>ms. wait_msec \<lparr>tv_sec = 2147482, tv_usec = 1000000\<rparr> = Some ms \<and> 2147482 * 1000000 + 1000000 \<le> ms * 1000)
    \<and> wait_msec \<lparr>tv_sec = -1, tv_usec = 0\<rparr> = Some 2147483647 \<and> wait_msec \<lparr>tv_sec = -3000000, tv_usec = 0\<rparr> = None"
  using timeout_rounds_up [of "\<lparr>tv_sec = 2147482, tv_usec = 1000000\<rparr>"] timeout_rounds_up [of "\<lparr>tv_sec = -1, tv_usec = 0\<rparr>"]
    timeout_rounds_up [of "\<lparr>tv_sec = -3000000, tv_usec = 0\<rparr>"] by (auto simp: MAX_MSEC_def)

end
