(* ===== verification/AsyncProof.thy ===== *)
theory AsyncProof
  imports Async NetProof
begin

text \<open>
  What the asynchronous context guarantees, for every program the callbacks may be: the end of a
  context runs every callback that is still registered exactly once and gives everything back,
  replies reach the callbacks in the order of the commands, and subscriptions are found again.
\<close>

section \<open>Flags\<close>

lemma word_nonzero_bit: "w \<noteq> 0 \<longleftrightarrow> (\<exists>i. bit (w :: 32 word) i)"
proof
  show "w \<noteq> 0 \<Longrightarrow> \<exists>i. bit w i" using bit_eqI [of w 0] by auto
qed auto

lemma has_flag_bit: "has_flag c f \<longleftrightarrow> (\<exists>i. bit (rc_flags c) i \<and> bit f i)"
  by (auto simp: has_flag_def word_nonzero_bit bit_simps)

lemma has_set_iff: "has_flag (set_flag c g) f \<longleftrightarrow> has_flag c f \<or> f AND g \<noteq> 0"
  by (auto simp: has_flag_bit set_flag_def word_nonzero_bit bit_simps)

lemma has_clear_disjoint: "f AND g = 0 \<Longrightarrow> has_flag (clear_flag c g) f = has_flag c f"
proof -
  assume "f AND g = 0"
  then have "bit f i \<Longrightarrow> \<not> bit g i" for i using bit_and_iff [of f g i] by simp
  then show ?thesis using bit_imp_le_length [of "rc_flags c"] by (auto simp: has_flag_bit clear_flag_def bit_simps)
qed

lemma has_clear_self: "\<not> has_flag (clear_flag c f) f"
  by (auto simp: has_flag_bit clear_flag_def bit_simps)

lemma has_or: "has_flag c (f OR g) \<longleftrightarrow> has_flag c f \<or> has_flag c g"
  by (auto simp: has_flag_bit bit_simps)

lemma flagged_upd [simp]:
  "flagged (ac\<lparr>ac_replies := q\<rparr>) f = flagged ac f" "flagged (ac\<lparr>ac_invalid := q\<rparr>) f = flagged ac f"
  "flagged (ac\<lparr>ac_channels := d\<rparr>) f = flagged ac f" "flagged (ac\<lparr>ac_patterns := d\<rparr>) f = flagged ac f"
  "flagged (ac\<lparr>ac_onConnect := x\<rparr>) f = flagged ac f" "flagged (ac\<lparr>ac_onDisconnect := x\<rparr>) f = flagged ac f"
  by (simp_all add: flagged_def)

lemma flagged_on: "flagged (flag_on g ac) f \<longleftrightarrow> flagged ac f \<or> f AND g \<noteq> 0"
  by (simp add: flagged_def flag_on_def has_set_iff)

lemma flagged_off: "f AND g = 0 \<Longrightarrow> flagged (flag_off g ac) f = flagged ac f" "\<not> flagged (flag_off f ac) f"
  by (simp_all add: flagged_def flag_off_def has_clear_disjoint has_clear_self)

lemma flagged_or: "flagged ac (f OR g) \<longleftrightarrow> flagged ac f \<or> flagged ac g"
  by (simp add: flagged_def has_or)

section \<open>Programs that format their commands correctly\<close>

definition sound_call :: "api \<Rightarrow> bool" where
  "sound_call a =
     (case a of
        ACommand fn pd format args \<Rightarrow> (\<exists>ws. ws \<noteq> [] \<and> spells (format, args) ws \<and> length (command_of ws) + 1 < 2 ^ 31)
      | ACommandArgv fn pd argc argv lens \<Rightarrow>
          (\<exists>ws. ws \<noteq> [] \<and> length (command_of ws) + 1 < 2 ^ 31 \<and> (\<forall>al. formatted al True ws (redisFormatCommandArgv argc argv lens al)))
      | _ \<Rightarrow> True)"

primrec sound_prog :: "prog \<Rightarrow> bool" where
  "sound_prog Return = True"
| "sound_prog (Call a k) = (sound_call a \<and> (\<forall>st. sound_prog (k st)))"

definition sound_user :: "world \<Rightarrow> bool" where
  "sound_user w \<longleftrightarrow> (\<forall>fn reply pd m l. sound_prog (w_user w fn reply pd m l))"

lemma sound_formats:
  assumes "sound_call (ACommand fn pd format args)" "None \<notin> set al"
  shows "\<exists>ws al'. ws \<noteq> [] \<and> redisvFormatCommand format args al
     = Some (int (length (command_of ws)), Some (command_of ws @ [NUL]), al') \<and> None \<notin> set al' \<and> length (command_of ws) + 1 < 2 ^ 31"
proof -
  obtain ws where ws: "ws \<noteq> []" "spells (format, args) ws" "length (command_of ws) + 1 < 2 ^ 31"
    using assms(1) by (auto simp: sound_call_def)
  have f: "formatted al True ws (redisvFormatCommand format args al)"
    by (rule redisvFormatCommand_words) (use ws(2,3) in \<open>simp_all only: spells_def fst_conv snd_conv\<close>)
  show ?thesis using f assms(2) ws(1,3) unfolding formatted_def by blast
qed

lemma sound_formats_argv:
  assumes "sound_call (ACommandArgv fn pd argc argv lens)" "None \<notin> set al"
  shows "\<exists>ws al'. ws \<noteq> [] \<and> redisFormatCommandArgv argc argv lens al
     = Some (int (length (command_of ws)), Some (command_of ws @ [NUL]), al') \<and> None \<notin> set al' \<and> length (command_of ws) + 1 < 2 ^ 31"
proof -
  obtain ws where ws: "ws \<noteq> []" "length (command_of ws) + 1 < 2 ^ 31" "formatted al True ws (redisFormatCommandArgv argc argv lens al)"
    using assms(1) unfolding sound_call_def api.case by blast
  show ?thesis using ws assms(2) unfolding formatted_def by blast
qed

section \<open>A context that is being closed\<close>

fun reply_events :: "event list \<Rightarrow> event list" where
  "reply_events [] = []"
| "reply_events (EvReply f r d # es) = EvReply f r d # reply_events es"
| "reply_events (_ # es) = reply_events es"

lemma reply_events_append [simp]: "reply_events (xs @ ys) = reply_events xs @ reply_events ys"
  by (induction xs rule: reply_events.induct) simp_all

definition quiet :: "event list \<Rightarrow> redisAsyncContext \<Rightarrow> world \<Rightarrow> redisAsyncContext \<Rightarrow> world \<Rightarrow> bool" where
  \<comment> \<open>callbacks have run, but nothing was issued: only flags that close the context were set\<close>
  "quiet evs ac w ac' w' \<longleftrightarrow>
     (\<exists>fl con dis. ac' = ac\<lparr>ac_c := (ac_c ac)\<lparr>rc_flags := fl\<rparr>, ac_onConnect := con, ac_onDisconnect := dis\<rparr>
       \<and> (ac_onDisconnect ac \<noteq> None \<longrightarrow> dis = ac_onDisconnect ac))
     \<and> (\<forall>f \<in> {REDIS_BLOCK, REDIS_CONNECTED, REDIS_SUBSCRIBED, REDIS_MONITORING, REDIS_IN_CALLBACK}. flagged ac' f = flagged ac f)
     \<and> (\<forall>f \<in> {REDIS_DISCONNECTING, REDIS_FREEING}. flagged ac f \<longrightarrow> flagged ac' f)
     \<and> (\<exists>al hs. w' = w\<lparr>w_sys := (w_sys w)\<lparr>y_al := al\<rparr>, w_log := w_log w @ hs\<rparr> \<and> None \<notin> set al \<and> reply_events hs = evs)"

lemma quiet_refl: "None \<notin> set (y_al (w_sys w)) \<Longrightarrow> quiet [] ac w ac w"
  unfolding quiet_def
  by (intro conjI exI [where x = "rc_flags (ac_c ac)"] exI [where x = "ac_onConnect ac"] exI [where x = "ac_onDisconnect ac"]
      exI [where x = "y_al (w_sys w)"] exI [where x = "[]"]) simp_all

lemma quiet_trans:
  assumes "quiet e1 ac w ac1 w1" "quiet e2 ac1 w1 ac2 w2"
  shows "quiet (e1 @ e2) ac w ac2 w2"
proof -
  obtain fl con dis al hs where 1: "ac1 = ac\<lparr>ac_c := (ac_c ac)\<lparr>rc_flags := fl\<rparr>, ac_onConnect := con, ac_onDisconnect := dis\<rparr>"
    "ac_onDisconnect ac \<noteq> None \<longrightarrow> dis = ac_onDisconnect ac"
    "w1 = w\<lparr>w_sys := (w_sys w)\<lparr>y_al := al\<rparr>, w_log := w_log w @ hs\<rparr>" "reply_events hs = e1"
    using assms(1) unfolding quiet_def by blast
  obtain fl2 con2 dis2 al2 hs2 where 2: "ac2 = ac1\<lparr>ac_c := (ac_c ac1)\<lparr>rc_flags := fl2\<rparr>, ac_onConnect := con2, ac_onDisconnect := dis2\<rparr>"
    "ac_onDisconnect ac1 \<noteq> None \<longrightarrow> dis2 = ac_onDisconnect ac1"
    "w2 = w1\<lparr>w_sys := (w_sys w1)\<lparr>y_al := al2\<rparr>, w_log := w_log w1 @ hs2\<rparr>" "None \<notin> set al2" "reply_events hs2 = e2"
    using assms(2) unfolding quiet_def by blast
  have "ac2 = ac\<lparr>ac_c := (ac_c ac)\<lparr>rc_flags := fl2\<rparr>, ac_onConnect := con2, ac_onDisconnect := dis2\<rparr>"
    "ac_onDisconnect ac \<noteq> None \<longrightarrow> dis2 = ac_onDisconnect ac" using 1(1,2) 2(1,2) by auto
  moreover have "w2 = w\<lparr>w_sys := (w_sys w)\<lparr>y_al := al2\<rparr>, w_log := w_log w @ hs @ hs2\<rparr>" using 1(3) 2(3) by simp
  moreover have "reply_events (hs @ hs2) = e1 @ e2" using 1(4) 2(5) by simp
  ultimately show ?thesis using assms 2(4) unfolding quiet_def by blast
qed

lemma quiet_al:
  "None \<notin> set al \<Longrightarrow> quiet [] ac w ac (set_al al w)"
  unfolding quiet_def
  by (intro conjI exI [where x = "rc_flags (ac_c ac)"] exI [where x = "ac_onConnect ac"] exI [where x = "ac_onDisconnect ac"]
      exI [where x = al] exI [where x = "[]"]) (simp_all add: set_al_def)

lemma quiet_log:
  "None \<notin> set (y_al (w_sys w)) \<Longrightarrow> reply_events [e] = evs \<Longrightarrow> quiet evs ac w ac (log e w)"
  unfolding quiet_def
  by (intro conjI exI [where x = "rc_flags (ac_c ac)"] exI [where x = "ac_onConnect ac"] exI [where x = "ac_onDisconnect ac"]
      exI [where x = "y_al (w_sys w)"] exI [where x = "[e]"]) (simp_all add: log_def)

lemma quiet_flag:
  assumes "fl = REDIS_DISCONNECTING \<or> fl = REDIS_FREEING" "None \<notin> set (y_al (w_sys w))"
  shows "quiet [] ac w (flag_on fl ac) w"
proof -
  have "\<exists>x con dis. flag_on fl ac = ac\<lparr>ac_c := (ac_c ac)\<lparr>rc_flags := x\<rparr>, ac_onConnect := con, ac_onDisconnect := dis\<rparr>
       \<and> (ac_onDisconnect ac \<noteq> None \<longrightarrow> dis = ac_onDisconnect ac)"
    by (intro exI [where x = "rc_flags (ac_c ac) OR fl"] exI [where x = "ac_onConnect ac"] exI [where x = "ac_onDisconnect ac"])
       (simp add: flag_on_def set_flag_def)
  moreover have "\<forall>f \<in> {REDIS_BLOCK, REDIS_CONNECTED, REDIS_SUBSCRIBED, REDIS_MONITORING, REDIS_IN_CALLBACK}.
      flagged (flag_on fl ac) f = flagged ac f"
    using assms(1) by (auto simp: flagged_on flag_defs)
  moreover have "\<forall>f. flagged ac f \<longrightarrow> flagged (flag_on fl ac) f" by (simp add: flagged_on)
  moreover have "\<exists>al hs. w = w\<lparr>w_sys := (w_sys w)\<lparr>y_al := al\<rparr>, w_log := w_log w @ hs\<rparr> \<and> None \<notin> set al \<and> reply_events hs = []"
    using assms(2) by (intro exI [where x = "y_al (w_sys w)"] exI [where x = "[]"]) simp
  ultimately show ?thesis unfolding quiet_def by blast
qed

lemma quiet_al_ok: "quiet evs ac w ac' w' \<Longrightarrow> None \<notin> set (y_al (w_sys w'))"
  by (auto simp: quiet_def)

lemma quiet_closing: "quiet evs ac w ac' w' \<Longrightarrow> flagged ac (REDIS_DISCONNECTING OR REDIS_FREEING)
   \<Longrightarrow> flagged ac' (REDIS_DISCONNECTING OR REDIS_FREEING)"
  by (auto simp: quiet_def flagged_or)

lemma async_command_refused:
  "flagged ac (REDIS_DISCONNECTING OR REDIS_FREEING) \<Longrightarrow> async_command fn pd cmd len ac w = Some (REDIS_ERR, ac, w)"
  by (simp add: async_command_def)

lemma act_closing:
  assumes "sound_call a" "flagged ac (REDIS_DISCONNECTING OR REDIS_FREEING)" "flagged ac REDIS_IN_CALLBACK"
    "None \<notin> set (y_al (w_sys w))"
  shows "\<exists>st ac' w'. act a ac w = Some (st, ac', w') \<and> quiet [] ac w ac' w'"
proof (cases a)
  case (ACommand fn pd format args)
  obtain ws al' where f: "redisvFormatCommand format args (y_al (w_sys w))
     = Some (int (length (command_of ws)), Some (command_of ws @ [NUL]), al')" "None \<notin> set al'"
    using sound_formats [OF assms(1) [unfolded ACommand] assms(4)] by blast
  have "flagged ac (REDIS_DISCONNECTING OR REDIS_FREEING)" using assms(2) .
  then have "act a ac w = Some (REDIS_ERR, ac, set_al al' w)"
    unfolding ACommand act.simps redisAsyncCommand_def redisvAsyncCommand_def f(1)
    by (simp add: async_command_refused)
  then show ?thesis using quiet_al [OF f(2)] by blast
next
  case (ACommandArgv fn pd argc argv lens)
  obtain ws al' where f: "redisFormatCommandArgv argc argv lens (y_al (w_sys w))
     = Some (int (length (command_of ws)), Some (command_of ws @ [NUL]), al')" "None \<notin> set al'"
    using sound_formats_argv [OF assms(1) [unfolded ACommandArgv] assms(4)] by blast
  have "act a ac w = Some (REDIS_ERR, ac, set_al al' w)"
    unfolding ACommandArgv act.simps redisAsyncCommandArgv_def f(1)
    using assms(2) by (simp add: async_command_refused)
  then show ?thesis using quiet_al [OF f(2)] by blast
next
  case ADisconnect
  then show ?thesis using assms(3) quiet_flag [OF _ assms(4), of REDIS_DISCONNECTING ac] by simp
next
  case AFree
  then show ?thesis using assms(3) quiet_flag [OF _ assms(4), of REDIS_FREEING ac] by simp
next
  case (AOnConnect fn)
  show ?thesis
  proof (cases "ac_onConnect ac = None")
    case True
    have "quiet [] ac w (ac\<lparr>ac_onConnect := fn\<rparr>) (el AddWrite ac w)"
      unfolding quiet_def
      by (intro conjI exI [where x = "rc_flags (ac_c ac)"] exI [where x = fn] exI [where x = "ac_onDisconnect ac"]
        exI [where x = "y_al (w_sys w)"] exI [where x = "if ac_ev ac AddWrite then [EvHook AddWrite] else []"])
        (use assms(4) in \<open>simp_all add: el_def log_def\<close>)
    then show ?thesis using AOnConnect True by (simp add: redisAsyncSetConnectCallback_def)
  next
    case False
    then show ?thesis using AOnConnect quiet_refl [OF assms(4)] by (auto simp: redisAsyncSetConnectCallback_def)
  qed
next
  case (AOnDisconnect fn)
  show ?thesis
  proof (cases "ac_onDisconnect ac = None")
    case True
    have "quiet [] ac w (ac\<lparr>ac_onDisconnect := fn\<rparr>) w"
      unfolding quiet_def
      by (intro conjI exI [where x = "rc_flags (ac_c ac)"] exI [where x = "ac_onConnect ac"] exI [where x = fn]
        exI [where x = "y_al (w_sys w)"] exI [where x = "[]"]) (use assms(4) True in simp_all)
    then show ?thesis using AOnDisconnect True by (simp add: redisAsyncSetDisconnectCallback_def)
  next
    case False
    then show ?thesis using AOnDisconnect quiet_refl [OF assms(4)] by (auto simp: redisAsyncSetDisconnectCallback_def)
  qed
qed

lemma run_prog_closing:
  assumes "sound_prog p" "flagged ac (REDIS_DISCONNECTING OR REDIS_FREEING)" "flagged ac REDIS_IN_CALLBACK"
    "None \<notin> set (y_al (w_sys w))"
  shows "\<exists>ac' w'. run_prog p ac w = Some (ac', w') \<and> quiet [] ac w ac' w'"
  using assms
proof (induction p arbitrary: ac w)
  case Return
  then show ?case using quiet_refl by auto
next
  case (Call a k)
  have "sound_call a" using Call.prems(1) by simp
  then obtain st ac1 w1 where 1: "act a ac w = Some (st, ac1, w1)" "quiet [] ac w ac1 w1"
    using act_closing [OF _ Call.prems(2-4)] by blast
  have f: "flagged ac1 REDIS_IN_CALLBACK" using 1(2) Call.prems(3) by (auto simp: quiet_def)
  obtain ac2 w2 where 2: "run_prog (k st) ac1 w1 = Some (ac2, w2)" "quiet [] ac1 w1 ac2 w2"
    using Call.IH [of "k st" ac1 w1] Call.prems(1) quiet_closing [OF 1(2) Call.prems(2)] f quiet_al_ok [OF 1(2)] by auto
  then show ?case using 1(1) quiet_trans [OF 1(2) 2(2)] by simp
qed

definition null_calls :: "(nat option \<times> nat) list \<Rightarrow> event list" where
  \<comment> \<open>each of these callbacks once, without a reply\<close>
  "null_calls xs = concat (map (\<lambda>(fn, pd). case fn of None \<Rightarrow> [] | Some f \<Rightarrow> [EvReply f None pd]) xs)"

lemma null_calls_append [simp]: "null_calls (xs @ ys) = null_calls xs @ null_calls ys"
  by (simp add: null_calls_def)

lemma null_calls_Nil [simp]: "null_calls [] = []"
  by (simp add: null_calls_def)

lemma null_calls_Cons: "null_calls (x # xs) = null_calls [x] @ null_calls xs"
  by (simp add: null_calls_def)

text \<open>A context that is closed from outside of any callback.\<close>

definition closing :: "redisAsyncContext \<Rightarrow> world \<Rightarrow> bool" where
  "closing ac w \<longleftrightarrow> flagged ac (REDIS_DISCONNECTING OR REDIS_FREEING) \<and> \<not> flagged ac REDIS_IN_CALLBACK
     \<and> None \<notin> set (y_al (w_sys w)) \<and> sound_user w"

lemma quiet_world:
  assumes "quiet evs ac w ac' w'"
  obtains al hs where "w' = w\<lparr>w_sys := (w_sys w)\<lparr>y_al := al\<rparr>, w_log := w_log w @ hs\<rparr>" "None \<notin> set al" "reply_events hs = evs"
  using assms unfolding quiet_def by blast

lemma quiet_context:
  assumes "quiet evs ac w ac' w'"
  obtains fl con dis where "ac' = ac\<lparr>ac_c := (ac_c ac)\<lparr>rc_flags := fl\<rparr>, ac_onConnect := con, ac_onDisconnect := dis\<rparr>"
    "ac_onDisconnect ac \<noteq> None \<longrightarrow> dis = ac_onDisconnect ac"
  using assms unfolding quiet_def by blast

lemma quiet_flags:
  assumes "quiet evs ac w ac' w'"
  shows "f \<in> {REDIS_BLOCK, REDIS_CONNECTED, REDIS_SUBSCRIBED, REDIS_MONITORING, REDIS_IN_CALLBACK} \<Longrightarrow> flagged ac' f = flagged ac f"
    "f \<in> {REDIS_DISCONNECTING, REDIS_FREEING} \<Longrightarrow> flagged ac f \<Longrightarrow> flagged ac' f"
  using assms unfolding quiet_def by blast+

lemma quiet_keeps_closing:
  assumes "quiet evs ac w ac' w'" "closing ac w"
  shows "closing ac' w'"
proof -
  have "w_user w' = w_user w" by (rule quiet_world [OF assms(1)]) simp
  moreover have "flagged ac' REDIS_IN_CALLBACK = flagged ac REDIS_IN_CALLBACK" by (rule quiet_flags [OF assms(1)]) simp
  ultimately show ?thesis
    using quiet_closing [OF assms(1)] quiet_al_ok [OF assms(1)] assms(2) by (simp add: closing_def sound_user_def)
qed

lemma redisRunCallback_closing:
  assumes "closing ac w"
  shows "\<exists>ac' w'. redisRunCallback ac cb None w = Some (ac', w') \<and> quiet (null_calls [cb_key cb]) ac w ac' w'"
proof (cases "cb_fn cb")
  case None
  then show ?thesis using quiet_refl assms by (simp add: redisRunCallback_def null_calls_def cb_key_def closing_def)
next
  case (Some fn)
  define p where "p = w_user w fn None (cb_privdata cb) (y_mem (w_sys w)) (w_log w)"
  define ac0 where "ac0 = flag_on REDIS_IN_CALLBACK ac"
  define w0 where "w0 = log (EvReply fn None (cb_privdata cb)) w"
  have c: "flagged ac (REDIS_DISCONNECTING OR REDIS_FREEING)" "\<not> flagged ac REDIS_IN_CALLBACK" "None \<notin> set (y_al (w_sys w))" "sound_prog p"
    using assms by (auto simp: closing_def sound_user_def p_def)
  have "flagged ac0 (REDIS_DISCONNECTING OR REDIS_FREEING)" "flagged ac0 REDIS_IN_CALLBACK" "None \<notin> set (y_al (w_sys w0))"
    using c by (simp_all add: ac0_def w0_def flagged_on flag_defs log_def)
  then obtain ac1 w1 where r: "run_prog p ac0 w0 = Some (ac1, w1)" "quiet [] ac0 w0 ac1 w1"
    using run_prog_closing [OF c(4)] by blast
  let ?a = "flag_off REDIS_IN_CALLBACK ac1"
  obtain fl con dis al hs where q: "ac1 = ac0\<lparr>ac_c := (ac_c ac0)\<lparr>rc_flags := fl\<rparr>, ac_onConnect := con, ac_onDisconnect := dis\<rparr>"
    "ac_onDisconnect ac0 \<noteq> None \<longrightarrow> dis = ac_onDisconnect ac0"
    "w1 = w0\<lparr>w_sys := (w_sys w0)\<lparr>y_al := al\<rparr>, w_log := w_log w0 @ hs\<rparr>" "None \<notin> set al" "reply_events hs = []"
    using r(2) unfolding quiet_def by blast
  have "?a = ac\<lparr>ac_c := (ac_c ac)\<lparr>rc_flags := fl AND NOT REDIS_IN_CALLBACK\<rparr>, ac_onConnect := con, ac_onDisconnect := dis\<rparr>"
    "ac_onDisconnect ac \<noteq> None \<longrightarrow> dis = ac_onDisconnect ac"
    using q(1,2) by (simp_all add: ac0_def flag_on_def flag_off_def set_flag_def clear_flag_def)
  moreover have "w1 = w\<lparr>w_sys := (w_sys w)\<lparr>y_al := al\<rparr>, w_log := w_log w @ EvReply fn None (cb_privdata cb) # hs\<rparr>"
    using q(3) by (simp add: w0_def log_def)
  moreover have "reply_events (EvReply fn None (cb_privdata cb) # hs) = null_calls [cb_key cb]"
    using q(5) Some by (simp add: null_calls_def cb_key_def)
  moreover have "\<forall>f \<in> {REDIS_BLOCK, REDIS_CONNECTED, REDIS_SUBSCRIBED, REDIS_MONITORING}. flagged ?a f = flagged ac f"
  proof
    fix f assume f: "f \<in> {REDIS_BLOCK, REDIS_CONNECTED, REDIS_SUBSCRIBED, REDIS_MONITORING}"
    then have "f AND REDIS_IN_CALLBACK = 0" by (auto simp: flag_defs)
    moreover have "flagged ac1 f = flagged ac0 f" using f r(2) by (auto simp: quiet_def)
    ultimately show "flagged ?a f = flagged ac f" by (simp add: flagged_off ac0_def flagged_on)
  qed
  moreover have "flagged ?a REDIS_IN_CALLBACK = flagged ac REDIS_IN_CALLBACK" using c(2) by (simp add: flagged_off)
  moreover have "\<forall>f \<in> {REDIS_DISCONNECTING, REDIS_FREEING}. flagged ac f \<longrightarrow> flagged ?a f"
  proof (intro ballI impI)
    fix f assume f: "f \<in> {REDIS_DISCONNECTING, REDIS_FREEING}" "flagged ac f"
    then have "f AND REDIS_IN_CALLBACK = 0" "flagged ac0 f" by (auto simp: flag_defs ac0_def flagged_on)
    moreover from this f(1) have "flagged ac1 f" using r(2) by (auto simp: quiet_def)
    ultimately show "flagged ?a f" by (simp add: flagged_off)
  qed
  ultimately have "quiet (null_calls [cb_key cb]) ac w ?a w1" using q(4) unfolding quiet_def by blast
  moreover have "redisRunCallback ac cb None w = Some (?a, w1)"
    using Some r(1) by (simp add: redisRunCallback_def p_def ac0_def w0_def)
  ultimately show ?thesis by blast
qed

lemma quiet_lists:
  assumes "quiet evs ac w ac' w'"
  shows "quiet evs (ac\<lparr>ac_replies := q\<rparr>) w (ac'\<lparr>ac_replies := q\<rparr>) w'" "quiet evs (ac\<lparr>ac_invalid := q\<rparr>) w (ac'\<lparr>ac_invalid := q\<rparr>) w'"
    "ac_replies ac' = ac_replies ac" "ac_invalid ac' = ac_invalid ac" "table_of p ac' = table_of p ac"
proof -
  obtain fl con dis where a: "ac' = ac\<lparr>ac_c := (ac_c ac)\<lparr>rc_flags := fl\<rparr>, ac_onConnect := con, ac_onDisconnect := dis\<rparr>"
    "ac_onDisconnect ac \<noteq> None \<longrightarrow> dis = ac_onDisconnect ac" using quiet_context [OF assms] .
  obtain al hs where w: "w' = w\<lparr>w_sys := (w_sys w)\<lparr>y_al := al\<rparr>, w_log := w_log w @ hs\<rparr>" "None \<notin> set al" "reply_events hs = evs"
    using quiet_world [OF assms] .
  show "quiet evs (ac\<lparr>ac_replies := q\<rparr>) w (ac'\<lparr>ac_replies := q\<rparr>) w'" "quiet evs (ac\<lparr>ac_invalid := q\<rparr>) w (ac'\<lparr>ac_invalid := q\<rparr>) w'"
    unfolding quiet_def flagged_upd
    by (intro conjI exI [where x = fl] exI [where x = con] exI [where x = dis] exI [where x = al] exI [where x = hs]
        ballI impI quiet_flags [OF assms]; use a w in \<open>simp_all\<close>)+
  show "ac_replies ac' = ac_replies ac" "ac_invalid ac' = ac_invalid ac" "table_of p ac' = table_of p ac"
    using a by (simp_all add: table_of_def)
qed

lemma closing_lists [simp]:
  "closing (ac\<lparr>ac_replies := q\<rparr>) w = closing ac w" "closing (ac\<lparr>ac_invalid := q\<rparr>) w = closing ac w"
  by (simp_all add: closing_def)

lemma run_replies_closing:
  assumes "closing ac w" "queue_is (ac_replies ac) xs"
  shows "\<exists>q ac' w'. run_replies ac w = Some (ac', w') \<and> quiet (null_calls xs) (ac\<lparr>ac_replies := q\<rparr>) w ac' w'"
  using assms
proof (induction xs arbitrary: ac w)
  case Nil
  then have "run_replies ac w = Some (ac\<lparr>ac_replies := ac_replies ac\<rparr>, w)"
    using redisShiftCallback_empty by (subst run_replies.simps) simp
  moreover have "quiet [] (ac\<lparr>ac_replies := ac_replies ac\<rparr>) w (ac\<lparr>ac_replies := ac_replies ac\<rparr>) w"
    by (rule quiet_refl) (use Nil in \<open>simp add: closing_def\<close>)
  ultimately show ?case unfolding null_calls_Nil by blast
next
  case (Cons x xs)
  obtain cb q1 where s: "redisShiftCallback (ac_replies ac) = Some (0, Some cb, q1)" "cb_key cb = x" "queue_is q1 xs"
    using redisShiftCallback_first [OF Cons.prems(2)] by blast
  obtain ac2 w2 where r: "redisRunCallback (ac\<lparr>ac_replies := q1\<rparr>) cb None w = Some (ac2, w2)"
    "quiet (null_calls [x]) (ac\<lparr>ac_replies := q1\<rparr>) w ac2 w2"
    using redisRunCallback_closing [of "ac\<lparr>ac_replies := q1\<rparr>" w cb] Cons.prems(1) s(2) by auto
  have "closing ac2 w2" using quiet_keeps_closing [OF r(2)] Cons.prems(1) by simp
  moreover have "queue_is (ac_replies ac2) xs" using quiet_lists(3) [OF r(2)] s(3) by simp
  ultimately obtain q ac3 w3 where i: "run_replies ac2 w2 = Some (ac3, w3)" "quiet (null_calls xs) (ac2\<lparr>ac_replies := q\<rparr>) w2 ac3 w3"
    using Cons.IH by blast
  have "quiet (null_calls [x]) (ac\<lparr>ac_replies := q\<rparr>) w (ac2\<lparr>ac_replies := q\<rparr>) w2" using quiet_lists(1) [OF r(2)] by simp
  then have "quiet (null_calls (x # xs)) (ac\<lparr>ac_replies := q\<rparr>) w ac3 w3"
    unfolding null_calls_Cons [of x xs] using i(2) by (rule quiet_trans)
  moreover have "run_replies ac w = Some (ac3, w3)" using s(1) r(1) i(1) by (subst run_replies.simps) simp
  ultimately show ?case by blast
qed

lemma run_invalid_closing:
  assumes "closing ac w" "queue_is (ac_invalid ac) xs"
  shows "\<exists>q ac' w'. run_invalid ac w = Some (ac', w') \<and> quiet (null_calls xs) (ac\<lparr>ac_invalid := q\<rparr>) w ac' w'"
  using assms
proof (induction xs arbitrary: ac w)
  case Nil
  then have "run_invalid ac w = Some (ac\<lparr>ac_invalid := ac_invalid ac\<rparr>, w)"
    using redisShiftCallback_empty by (subst run_invalid.simps) simp
  moreover have "quiet [] (ac\<lparr>ac_invalid := ac_invalid ac\<rparr>) w (ac\<lparr>ac_invalid := ac_invalid ac\<rparr>) w"
    by (rule quiet_refl) (use Nil in \<open>simp add: closing_def\<close>)
  ultimately show ?case unfolding null_calls_Nil by blast
next
  case (Cons x xs)
  obtain cb q1 where s: "redisShiftCallback (ac_invalid ac) = Some (0, Some cb, q1)" "cb_key cb = x" "queue_is q1 xs"
    using redisShiftCallback_first [OF Cons.prems(2)] by blast
  obtain ac2 w2 where r: "redisRunCallback (ac\<lparr>ac_invalid := q1\<rparr>) cb None w = Some (ac2, w2)"
    "quiet (null_calls [x]) (ac\<lparr>ac_invalid := q1\<rparr>) w ac2 w2"
    using redisRunCallback_closing [of "ac\<lparr>ac_invalid := q1\<rparr>" w cb] Cons.prems(1) s(2) by auto
  have "closing ac2 w2" using quiet_keeps_closing [OF r(2)] Cons.prems(1) by simp
  moreover have "queue_is (ac_invalid ac2) xs" using quiet_lists(4) [OF r(2)] s(3) by simp
  ultimately obtain q ac3 w3 where i: "run_invalid ac2 w2 = Some (ac3, w3)" "quiet (null_calls xs) (ac2\<lparr>ac_invalid := q\<rparr>) w2 ac3 w3"
    using Cons.IH by blast
  have "quiet (null_calls [x]) (ac\<lparr>ac_invalid := q\<rparr>) w (ac2\<lparr>ac_invalid := q\<rparr>) w2" using quiet_lists(2) [OF r(2)] by simp
  then have "quiet (null_calls (x # xs)) (ac\<lparr>ac_invalid := q\<rparr>) w ac3 w3"
    unfolding null_calls_Cons [of x xs] using i(2) by (rule quiet_trans)
  moreover have "run_invalid ac w = Some (ac3, w3)" using s(1) r(1) i(1) by (subst run_invalid.simps) simp
  ultimately show ?case by blast
qed

lemma dictNext_ahead:
  assumes "dict_ok ht" "it_ok ht it"
  shows "next_is ht it (ahead ht it)"
proof (cases "homed ht")
  case True
  then show ?thesis using dictNext_spec assms(2) by blast
next
  case False
  then have "it_entry it = []" "dt_size ht = 0" using it_ok_homed [OF assms] by auto
  then show ?thesis using assms(2) unfolding next_is_def ahead_def
    by (subst dictNext.simps) (auto simp: it_ok_def at_entry_def s32_def rest_from_def)
qed

definition entry_calls :: "(string, redisCallback) dictEntry list \<Rightarrow> event list" where
  "entry_calls es = null_calls (map (\<lambda>e. cb_key (de_val e)) es)"

lemma entry_calls_Cons: "entry_calls (e # es) = null_calls [cb_key (de_val e)] @ entry_calls es"
  unfolding entry_calls_def list.map by (rule null_calls_Cons)

lemma run_table_closing:
  assumes "closing ac w" "dict_ok (table_of pv ac)" "it_ok (table_of pv ac) it"
  shows "\<exists>ac' w'. run_table pv it ac w = Some (ac', w') \<and> quiet (entry_calls (ahead (table_of pv ac) it)) ac w ac' w'"
  using assms
proof (induction "ahead (table_of pv ac) it" arbitrary: ac w it)
  case Nil
  obtain it' where "dictNext (table_of pv ac) it = Some (None, it')"
    using dictNext_ahead [OF Nil.prems(2,3)] by (auto simp: Nil.hyps [symmetric] next_is_def)
  then have "run_table pv it ac w = Some (ac, w)" by (subst run_table.simps) simp
  moreover have "quiet [] ac w ac w" by (rule quiet_refl) (use Nil.prems(1) in \<open>simp add: closing_def\<close>)
  ultimately show ?case by (simp add: Nil.hyps [symmetric] entry_calls_def)
next
  case (Cons e es)
  obtain it' where it': "dictNext (table_of pv ac) it = Some (Some e, it')" "ahead (table_of pv ac) it' = es"
    "at_entry (table_of pv ac) it' (e # it_nextEntry it')"
    using dictNext_ahead [OF Cons.prems(2,3)] by (auto simp: Cons.hyps(2) [symmetric] next_is_def)
  obtain ac1 w1 where r: "redisRunCallback ac (de_val e) None w = Some (ac1, w1)" "quiet (null_calls [cb_key (de_val e)]) ac w ac1 w1"
    using redisRunCallback_closing [OF Cons.prems(1)] by blast
  note t = quiet_lists(5) [OF r(2), of pv]
  have "es = ahead (table_of pv ac1) it'" "closing ac1 w1" "dict_ok (table_of pv ac1)" "it_ok (table_of pv ac1) it'"
    using it'(2) Cons.prems quiet_keeps_closing [OF r(2)] at_entry_it_ok [OF it'(3)] by (simp_all add: t)
  then obtain ac2 w2 where i: "run_table pv it' ac1 w1 = Some (ac2, w2)" "quiet (entry_calls es) ac1 w1 ac2 w2"
    using Cons.hyps(1) by blast
  have "run_table pv it ac w = Some (ac2, w2)" using it'(1) r(1) i(1) by (subst run_table.simps) simp
  moreover have "quiet (entry_calls (e # es)) ac w ac2 w2"
    unfolding entry_calls_Cons by (rule quiet_trans [OF r(2) i(2)])
  ultimately show ?case by (simp add: Cons.hyps(2) [symmetric])
qed

lemma quiet_cm:
  assumes "quiet evs ac w ac' w'"
  shows "quiet evs ac (w\<lparr>w_cm := m\<rparr>) ac' (w'\<lparr>w_cm := m\<rparr>)"
proof -
  obtain al hs where w: "w' = w\<lparr>w_sys := (w_sys w)\<lparr>y_al := al\<rparr>, w_log := w_log w @ hs\<rparr>" "None \<notin> set al" "reply_events hs = evs"
    using quiet_world [OF assms] .
  have "w'\<lparr>w_cm := m\<rparr> = (w\<lparr>w_cm := m\<rparr>)\<lparr>w_sys := (w_sys (w\<lparr>w_cm := m\<rparr>))\<lparr>y_al := al\<rparr>, w_log := w_log (w\<lparr>w_cm := m\<rparr>) @ hs\<rparr>"
    using w(1) by simp
  then show ?thesis using assms w(2,3) unfolding quiet_def by blast
qed

lemma end_table_closing:
  assumes "closing ac w" "callback_table (table_of pv ac)" "owned (entries (table_of pv ac)) (w_cm w)"
  shows "\<exists>ac' w'. end_table pv ac w = Some (ac', w'\<lparr>w_cm := spare (entries (table_of pv ac)) (w_cm w)\<rparr>) \<and> quiet (entry_calls (chains (table_of pv ac))) ac w ac' w'"
proof -
  define d where "d = table_of pv ac"
  have o: "dict_ok d" "dt_type d = callbackDict" using assms(2) by (auto simp: callback_table_def d_def)
  have al: "None \<notin> set (y_al (w_sys w))" using assms(1) by (simp add: closing_def)
  obtain f al' where a: "alloc_next (y_al (w_sys w)) = (Some f, al')" "None \<notin> set al'" using alloc_next_ok [OF al] .
  define it :: "(string, redisCallback) dictIterator" where "it = \<lparr>it_index = -1, it_entry = [], it_nextEntry = []\<rparr>"
  have g: "dictGetIterator (y_al (w_sys w)) = Some (it, al')" using a(1) by (simp add: dictGetIterator_def it_def)
  have ah: "ahead d it = chains d" "it_ok d it" using fresh_iterator [OF o(1)] by (simp_all add: it_def)
  define w1 where "w1 = set_al al' w"
  have q1: "quiet [] ac w ac w1" unfolding w1_def by (rule quiet_al [OF a(2)])
  obtain ac2 w2 where r: "run_table pv it ac w1 = Some (ac2, w2)" "quiet (entry_calls (chains d)) ac w1 ac2 w2"
    using run_table_closing [OF quiet_keeps_closing [OF q1 assms(1)], of pv it] o(1) ah by (auto simp: d_def)
  have t: "table_of pv ac2 = d" using quiet_lists(5) [OF r(2), of pv] by (simp add: d_def)
  have "w_cm w2 = w_cm w1" by (rule quiet_world [OF r(2)]) simp
  then have cm: "w_cm w2 = w_cm w" by (simp add: w1_def set_al_def)
  have "dictRelease d (w_cm w) = Some (spare (entries d) (w_cm w))"
    using callbackDict_free_entries [OF o(2), of "chains d" "w_cm w"] dictRelease_spec [OF o(1), of "w_cm w"] assms(3)
    by (simp add: d_def mset_chains)
  then have "end_table pv ac w = Some (ac2, w2\<lparr>w_cm := spare (entries d) (w_cm w)\<rparr>)"
    using g r(1) t cm by (simp add: end_table_def w1_def)
  moreover have "quiet (entry_calls (chains d)) ac w ac2 w2" using quiet_trans [OF q1 r(2)] by simp
  ultimately show ?thesis unfolding d_def by blast
qed

lemma tables_closing:
  assumes "closing ac w" "callback_table (ac_channels ac)" "callback_table (ac_patterns ac)"
    "owned (entries (ac_channels ac) + entries (ac_patterns ac)) (w_cm w)"
  shows "\<exists>ac1 w1 ac2 w2. end_table False ac w = Some (ac1, w1) \<and> end_table True ac1 w1 = Some (ac2, w2)
    \<and> quiet (entry_calls (chains (ac_channels ac) @ chains (ac_patterns ac))) ac
        (w\<lparr>w_cm := spare (entries (ac_channels ac) + entries (ac_patterns ac)) (w_cm w)\<rparr>) ac2 w2"
proof -
  define m1 where "m1 = spare (entries (ac_channels ac)) (w_cm w)"
  define m2 where "m2 = spare (entries (ac_patterns ac)) m1"
  have "callback_table (table_of False ac)" "owned (entries (table_of False ac)) (w_cm w)"
    using assms(2,4) by (simp_all add: table_of_def owned_plus)
  from end_table_closing [OF assms(1) this]
  obtain ac1 v1 where 1: "end_table False ac w = Some (ac1, v1\<lparr>w_cm := m1\<rparr>)" "quiet (entry_calls (chains (ac_channels ac))) ac w ac1 v1"
    unfolding m1_def table_of_def if_False by blast
  define w1 where "w1 = v1\<lparr>w_cm := m1\<rparr>"
  have p: "table_of True ac1 = ac_patterns ac" using quiet_lists(5) [OF 1(2), of True] by (simp add: table_of_def)
  have c: "closing ac1 w1" using quiet_keeps_closing [OF 1(2) assms(1)] by (simp add: closing_def sound_user_def w1_def)
  have "callback_table (table_of True ac1)" "owned (entries (table_of True ac1)) (w_cm w1)"
    unfolding p using assms(3,4) by (simp_all add: w1_def m1_def owned_plus)
  from end_table_closing [OF c this]
  obtain ac2 v2 where 2: "end_table True ac1 w1 = Some (ac2, v2\<lparr>w_cm := m2\<rparr>)" "quiet (entry_calls (chains (ac_patterns ac))) ac1 w1 ac2 v2"
    unfolding p by (auto simp: m2_def w1_def)
  have "quiet (entry_calls (chains (ac_channels ac))) ac (w\<lparr>w_cm := m1\<rparr>) ac1 w1" unfolding w1_def by (rule quiet_cm [OF 1(2)])
  then have "quiet (entry_calls (chains (ac_channels ac)) @ entry_calls (chains (ac_patterns ac))) ac (w\<lparr>w_cm := m1\<rparr>) ac2 v2"
    using 2(2) by (rule quiet_trans)
  then have "quiet (entry_calls (chains (ac_channels ac) @ chains (ac_patterns ac))) ac ((w\<lparr>w_cm := m1\<rparr>)\<lparr>w_cm := m2\<rparr>) ac2 (v2\<lparr>w_cm := m2\<rparr>)"
    unfolding entry_calls_def map_append null_calls_append by (rule quiet_cm)
  moreover have "m2 = spare (entries (ac_channels ac) + entries (ac_patterns ac)) (w_cm w)" by (simp add: m2_def m1_def spare_plus)
  ultimately show ?thesis using 1(1) 2(1) unfolding w1_def by auto
qed

definition frees_reader :: "redisContext \<Rightarrow> sys \<Rightarrow> heap \<Rightarrow> bool" where
  "frees_reader c y base \<longleftrightarrow> (\<forall>r. rc_reader c = Some r \<longrightarrow> (\<exists>m. redisReaderFree r (y_mem y) = Some m \<and> m_cells m = base))
     \<and> (rc_reader c = None \<longrightarrow> m_cells (y_mem y) = base)"

lemma redisFree_calls:
  assumes "frees_reader c y base"
  shows "\<exists>m. redisFree c y = Some (y\<lparr>y_mem := m, y_calls := (if rc_fd c > 0 then [CClose (rc_fd c)] else []) @ y_calls y\<rparr>) \<and> m_cells m = base"
proof (cases "rc_reader c")
  case None
  then show ?thesis using assms
    by (intro exI [where x = "y_mem y"]) (simp add: redisFree_def frees_reader_def sys_close_def)
next
  case (Some r)
  then obtain m where "redisReaderFree r (y_mem y) = Some m" "m_cells m = base" using assms by (auto simp: frees_reader_def)
  then show ?thesis using Some by (intro exI [where x = m]) (simp add: redisFree_def sys_close_def)
qed

definition ended :: "redisAsyncContext \<Rightarrow> world \<Rightarrow> heap \<Rightarrow> (nat option \<times> nat) list \<Rightarrow> (nat option \<times> nat) list \<Rightarrow> world \<Rightarrow> bool" where
  \<comment> \<open>every callback left has been run once, without a reply; the tables, a partial reply and the
     descriptor have been given back, and nothing was sent\<close>
  "ended ac w base xs ys w' \<longleftrightarrow>
     reply_events (w_log w') = reply_events (w_log w) @ null_calls (xs @ ys)
       @ entry_calls (chains (ac_channels ac) @ chains (ac_patterns ac))
     \<and> w_cm w' = spare (entries (ac_channels ac) + entries (ac_patterns ac)) (w_cm w)
     \<and> m_cells (y_mem (w_sys w')) = base
     \<and> y_calls (w_sys w') = (if rc_fd (ac_c ac) > 0 then [CClose (rc_fd (ac_c ac))] else []) @ y_calls (w_sys w)
     \<and> y_sent (w_sys w') = y_sent (w_sys w)
     \<and> (\<forall>fn. ac_onDisconnect ac = Some fn \<and> flagged ac REDIS_CONNECTED \<longrightarrow>
          (\<exists>st. last (w_log w') = EvDisconnect fn st \<and> (flagged ac REDIS_FREEING \<or> ac_err ac = 0 \<longrightarrow> st = REDIS_OK)))"

definition say_goodbye :: "redisAsyncContext \<Rightarrow> world \<Rightarrow> world" where
  \<comment> \<open>the hook for cleaning up and the callback for disconnections\<close>
  "say_goodbye ac w =
     (let w = el Cleanup ac w in
      case ac_onDisconnect ac of
        None \<Rightarrow> w
      | Some fn \<Rightarrow>
          if flagged ac REDIS_CONNECTED then
            (if flagged ac REDIS_FREEING then log (EvDisconnect fn REDIS_OK) w
             else log (EvDisconnect fn (if ac_err ac = 0 then REDIS_OK else REDIS_ERR)) w)
          else w)"

lemma say_goodbye_log: "\<exists>es. say_goodbye ac w = w\<lparr>w_log := w_log w @ es\<rparr> \<and> reply_events es = []"
  "ac_onDisconnect ac = Some fn \<Longrightarrow> flagged ac REDIS_CONNECTED \<Longrightarrow>
     last (w_log (say_goodbye ac w)) = EvDisconnect fn (if flagged ac REDIS_FREEING \<or> ac_err ac = 0 then REDIS_OK else REDIS_ERR)"
proof -
  define es where "es = (if ac_ev ac Cleanup then [EvHook Cleanup] else []) @
    (case ac_onDisconnect ac of None \<Rightarrow> [] | Some fn \<Rightarrow>
       if flagged ac REDIS_CONNECTED
       then [EvDisconnect fn (if flagged ac REDIS_FREEING \<or> ac_err ac = 0 then REDIS_OK else REDIS_ERR)] else [])"
  have "say_goodbye ac w = w\<lparr>w_log := w_log w @ es\<rparr>"
    by (simp add: say_goodbye_def el_def log_def es_def Let_def split: option.split)
  moreover have "reply_events es = []" by (simp add: es_def split: option.split)
  ultimately show "\<exists>es. say_goodbye ac w = w\<lparr>w_log := w_log w @ es\<rparr> \<and> reply_events es = []"
    "ac_onDisconnect ac = Some fn \<Longrightarrow> flagged ac REDIS_CONNECTED \<Longrightarrow>
     last (w_log (say_goodbye ac w)) = EvDisconnect fn (if flagged ac REDIS_FREEING \<or> ac_err ac = 0 then REDIS_OK else REDIS_ERR)"
    by (blast, simp add: es_def)
qed

lemma async_free_ended:
  assumes "closing ac w" "queue_is (ac_replies ac) xs" "queue_is (ac_invalid ac) ys"
    "callback_table (ac_channels ac)" "callback_table (ac_patterns ac)"
    "owned (entries (ac_channels ac) + entries (ac_patterns ac)) (w_cm w)"
    "frees_reader (ac_c ac) (w_sys w) base"
  shows "\<exists>w'. async_free ac w = Some w' \<and> ended ac w base xs ys w'"
proof -
  obtain q1 ac1 w1 where 1: "run_replies ac w = Some (ac1, w1)" "quiet (null_calls xs) (ac\<lparr>ac_replies := q1\<rparr>) w ac1 w1"
    using run_replies_closing [OF assms(1,2)] by blast
  have c1: "closing ac1 w1" "queue_is (ac_invalid ac1) ys"
    using quiet_keeps_closing [OF 1(2)] quiet_lists(4) [OF 1(2)] assms(1,3) by simp_all
  obtain q2 ac2 w2 where 2: "run_invalid ac1 w1 = Some (ac2, w2)" "quiet (null_calls ys) (ac1\<lparr>ac_invalid := q2\<rparr>) w1 ac2 w2"
    using run_invalid_closing [OF c1] by blast
  let ?a = "ac\<lparr>ac_replies := q1, ac_invalid := q2\<rparr>"
  have q: "quiet (null_calls xs @ null_calls ys) ?a w ac2 w2"
    using quiet_trans [OF quiet_lists(2) [OF 1(2), of q2] 2(2)] by simp
  have t: "ac_channels ac2 = ac_channels ac" "ac_patterns ac2 = ac_patterns ac"
    using quiet_lists(5) [OF q, of False] quiet_lists(5) [OF q, of True] by (simp_all add: table_of_def)
  have cm: "w_cm w2 = w_cm w" by (rule quiet_world [OF q]) simp
  define m where "m = spare (entries (ac_channels ac) + entries (ac_patterns ac)) (w_cm w)"
  have "closing ac2 w2" using quiet_keeps_closing [OF q] assms(1) by simp
  then obtain ac3 w3 ac4 w4 where 4: "end_table False ac2 w2 = Some (ac3, w3)" "end_table True ac3 w3 = Some (ac4, w4)"
    "quiet (entry_calls (chains (ac_channels ac) @ chains (ac_patterns ac))) ac2 (w2\<lparr>w_cm := m\<rparr>) ac4 w4"
    using tables_closing [of ac2 w2] assms(4-6) unfolding t cm m_def by blast
  let ?evs = "(null_calls xs @ null_calls ys) @ entry_calls (chains (ac_channels ac) @ chains (ac_patterns ac))"
  have q4: "quiet ?evs ?a (w\<lparr>w_cm := m\<rparr>) ac4 w4" by (rule quiet_trans [OF quiet_cm [OF q] 4(3)])
  obtain al hs where w4: "w4 = w\<lparr>w_cm := m, w_sys := (w_sys w)\<lparr>y_al := al\<rparr>, w_log := w_log w @ hs\<rparr>" "reply_events hs = ?evs"
    by (rule quiet_world [OF q4]) simp
  obtain fl con dis where a4: "ac4 = ac\<lparr>ac_replies := q1, ac_invalid := q2, ac_c := (ac_c ac)\<lparr>rc_flags := fl\<rparr>, ac_onConnect := con, ac_onDisconnect := dis\<rparr>"
    "ac_onDisconnect ac \<noteq> None \<longrightarrow> dis = ac_onDisconnect ac"
    by (rule quiet_context [OF q4]) simp
  define w5 where "w5 = say_goodbye ac4 w4"
  obtain es where w5: "w5 = w4\<lparr>w_log := w_log w4 @ es\<rparr>" "reply_events es = []" using say_goodbye_log(1) unfolding w5_def by blast
  have "frees_reader (ac_c ac4) (w_sys w5) base" using assms(7) a4(1) w4(1) w5(1) by (simp add: frees_reader_def)
  then obtain mm where f: "redisFree (ac_c ac4) (w_sys w5) = Some ((w_sys w5)\<lparr>y_mem := mm, y_calls := (if rc_fd (ac_c ac4) > 0
      then [CClose (rc_fd (ac_c ac4))] else []) @ y_calls (w_sys w5)\<rparr>)" "m_cells mm = base"
    using redisFree_calls by blast
  define w6 where "w6 = w5\<lparr>w_sys := (w_sys w5)\<lparr>y_mem := mm, y_calls := (if rc_fd (ac_c ac4) > 0
      then [CClose (rc_fd (ac_c ac4))] else []) @ y_calls (w_sys w5)\<rparr>\<rparr>"
  have "async_free ac w = Some w6"
    using 1(1) 2(1) 4(1,2) f(1) unfolding async_free_def w6_def w5_def say_goodbye_def by (simp add: Let_def)
  moreover have "\<exists>st. last (w_log w6) = EvDisconnect fn st \<and> (flagged ac REDIS_FREEING \<or> ac_err ac = 0 \<longrightarrow> st = REDIS_OK)"
    if fn: "ac_onDisconnect ac = Some fn" "flagged ac REDIS_CONNECTED" for fn
  proof -
    have "ac_onDisconnect ac4 = Some fn" using a4 fn(1) by simp
    moreover have "flagged ac4 REDIS_CONNECTED" using quiet_flags(1) [OF q4, of REDIS_CONNECTED] fn(2) by simp
    moreover have "flagged ac REDIS_FREEING \<longrightarrow> flagged ac4 REDIS_FREEING" using quiet_flags(2) [OF q4, of REDIS_FREEING] by simp
    moreover have "ac_err ac4 = ac_err ac" using a4(1) by simp
    ultimately show ?thesis using say_goodbye_log(2) [of ac4 fn w4] by (simp add: w6_def w5_def)
  qed
  ultimately show ?thesis using w4 w5 a4(1) f(2) unfolding ended_def by (auto simp: w6_def m_def)
qed

section \<open>The arguments of a command\<close>

lemma dec_nat_value: "foldl (\<lambda>v d. v * 10 + int (code d - 48)) 0 (dec_nat n) = int n"
proof (induction n rule: dec_nat_induct)
  case (small n)
  then show ?case by (simp add: dec_nat_small code_digit_char)
next
  case (large n)
  have "int n = int (n div 10) * 10 + int (n mod 10)" by (simp only: of_nat_div of_nat_mod) simp
  then show ?case using large by (simp add: dec_nat_large code_digit_char)
qed

lemma c_strtol_dec:
  assumes "n < 2 ^ 31" "r \<noteq> []" "\<not> isdigit_c (hd r)"
  shows "c_strtol (dec_nat n @ r) = Some (int n)"
proof -
  obtain d ds where d: "dec_nat n = d # ds" using dec_nat_nonempty by (metis neq_Nil_conv)
  have "isdigit_c d" using dec_nat_digits [of d n] d by simp
  then have d': "\<not> isspace_c d" "d \<noteq> CHR ''-''" "d \<noteq> CHR ''+''" by (auto simp: ctype_simps)
  have w: "dropWhile isspace_c (dec_nat n @ r) = dec_nat n @ r" "hd (dec_nat n @ r) = d" using d d'(1) by simp_all
  have t: "takeWhile isdigit_c (dec_nat n @ r) = dec_nat n"
    using assms(2,3) dec_nat_digits [of _ n] by (subst takeWhile_append2) (auto simp: takeWhile_eq_Nil_iff)
  show ?thesis unfolding c_strtol_def Let_def w using d'(2,3) assms(1,2) by (simp add: t dec_nat_value)
qed

lemma strchr_at_found:
  assumes "c \<notin> set pre" "NUL \<notin> set pre" "c \<noteq> NUL"
  shows "strchr_at (a @ pre @ c # r) (length a) c = Some (Some (length a + length pre))"
proof -
  have "takeWhile (\<lambda>x. x \<noteq> c \<and> x \<noteq> NUL) (pre @ c # r) = pre"
    using assms by (subst takeWhile_append2) (metis, simp)
  then show ?thesis by (simp add: strchr_at_def nth_append)
qed

lemma strchr_at_end:
  assumes "c \<notin> set pre" "NUL \<notin> set pre" "c \<noteq> NUL"
  shows "strchr_at (a @ pre @ NUL # r) (length a) c = Some None"
proof -
  have "takeWhile (\<lambda>x. x \<noteq> c \<and> x \<noteq> NUL) (pre @ NUL # r) = pre"
    using assms by (subst takeWhile_append2) (metis, simp)
  then show ?thesis using assms(3) by (simp add: strchr_at_def nth_append)
qed

abbreviation dollar :: char where "dollar \<equiv> CHR ''$''"

lemma nextArgument_bulk:
  assumes "dollar \<notin> set pre" "NUL \<notin> set pre" "length w < 2 ^ 31" "length a + length pre + length (bulk w) < 2 ^ 63"
  shows "nextArgument (a @ pre @ bulk w @ r) (length a)
     = Some (Some (length a + length pre + 1 + length (dec_nat (length w)) + 2, length w, length a + length pre + length (bulk w)))"
proof -
  define D where "D = dec_nat (length w)"
  define m where "m = a @ pre @ bulk w @ r"
  have b: "bulk w = dollar # D @ CR # LF # w @ CR # LF # []" by (simp add: bulk_def D_def)
  have m1: "m = a @ pre @ dollar # (D @ CR # LF # w @ CR # LF # r)" by (simp add: m_def b)
  have m2: "m = (a @ pre) @ (dollar # D) @ CR # (LF # w @ CR # LF # r)" by (simp add: m_def b)
  have rd: "rd m (length a) = Some ((pre @ [dollar]) ! 0)" by (cases pre) (simp_all add: m1 rd_def nth_append)
  have p: "(if (pre @ [dollar]) ! 0 \<noteq> dollar then strchr_at m (length a) dollar else Some (Some (length a)))
      = Some (Some (length a + length pre))"
    using strchr_at_found [OF assms(1,2), where a = a and r = "D @ CR # LF # w @ CR # LF # r"] assms(1) m1
    by (cases pre) auto
  have s: "c_strtol (drop (length a + length pre + 1) m) = Some (int (length w))"
    using c_strtol_dec [OF assms(3), of "CR # LF # w @ CR # LF # r"] by (simp add: m1 D_def isdigit_c_def code_def)
  have "CR \<notin> set (dollar # D)" "NUL \<notin> set (dollar # D)" using dec_nat_no_special [of "length w"] by (simp_all add: D_def)
  then have c: "strchr_at m (length a + length pre) CR = Some (Some (length a + length pre + Suc (length D)))"
    using strchr_at_found [where a = "a @ pre" and r = "LF # w @ CR # LF # r" and c = CR and pre = "dollar # D"] by (simp add: m2)
  have n: "nat (int (length w) mod 2 ^ 64) = length w" using assms(3) by simp
  have u: "u64 (length a + length pre + Suc (length D) + 2 + length w + 2) = length a + length pre + length (bulk w)"
    using assms(4) unfolding b by (subst u64_id) simp_all
  show ?thesis unfolding m_def [symmetric] nextArgument_def rd bind.bind_lunit p s c option.case Let_def n u
    by (simp add: D_def u [simplified])
qed

lemma nextArgument_end: "nextArgument (a @ [NUL]) (length a) = Some None"
  using strchr_at_end [where c = dollar and pre = "[]" and a = a and r = "[]"]
  by (simp add: nextArgument_def rd_def nth_append)

lemma code_tolower: "code (tolower_c c) = (if 65 \<le> code c \<and> code c \<le> 90 then code c + 32 else code c)"
  by (simp add: tolower_c_def)

lemma tolower_CR: "tolower_c c = CR \<longleftrightarrow> c = CR"
  using code_inj [of "tolower_c c" CR] code_inj [of c CR] code_tolower [of c] by (auto simp: code_def split: if_splits)

lemma tolower_NUL: "tolower_c c = NUL \<longleftrightarrow> c = NUL"
  using code_inj [of "tolower_c c" NUL] code_inj [of c NUL] code_tolower [of c] by (auto simp: code_def split: if_splits)

lemma strnicmp_take:
  "NUL \<notin> set s \<Longrightarrow> strnicmp_eq (m @ [NUL]) s (length s) = Some (map tolower_c (take (length s) (m @ [NUL])) = map tolower_c s)"
proof (induction s arbitrary: m)
  case (Cons d s)
  have "tolower_c NUL = NUL" "tolower_c d \<noteq> NUL" using Cons.prems by (auto simp: tolower_NUL)
  then show ?case using Cons by (cases m) auto
qed (cases m; simp)

definition lower :: "string \<Rightarrow> string" where
  "lower w = map tolower_c w"

lemma lower_simps [simp]: "lower [] = []" "lower (c # w) = tolower_c c # lower w" "lower (v @ w) = lower v @ lower w"
  by (simp_all add: lower_def)

lemma lower_line:
  "cr \<notin> set (lower w) \<Longrightarrow> cr \<notin> set s \<Longrightarrow> tolower_c cr = cr \<Longrightarrow> tolower_c lf = lf \<Longrightarrow>
   lower (take (length s + 2) (w @ cr # lf # x)) = s @ [cr, lf] \<longleftrightarrow> lower w = s"
proof (induction s arbitrary: w)
  case Nil
  then show ?case by (cases w) auto
next
  case (Cons d s)
  then show ?case by (cases w) auto
qed

text \<open>Comparing the first word of a command with a name in lower case.\<close>

lemma strnicmp_word:
  assumes "CR \<notin> set w" "CR \<notin> set s" "NUL \<notin> set s" "lower s = s"
  shows "strnicmp_eq (w @ CR # LF # r @ [NUL]) (s @ CRLF) (length s + 2) = Some (lower w = s)"
proof -
  have n: "NUL \<notin> set (s @ CRLF)" using assms(3) by simp
  have "CR \<notin> set (lower w)"
    unfolding lower_def set_map using assms(1) tolower_CR by (metis imageE)
  moreover have "tolower_c CR = CR" "tolower_c LF = LF" by (simp_all add: tolower_c_def code_def)
  ultimately have t: "tolower_c CR = CR" "tolower_c LF = LF" "CR \<notin> set (lower w)" by blast+
  have "strnicmp_eq ((w @ CR # LF # r) @ [NUL]) (s @ CRLF) (length (s @ CRLF))
      = Some (lower (take (length (s @ CRLF)) ((w @ CR # LF # r) @ [NUL])) = lower (s @ CRLF))"
    unfolding lower_def by (rule strnicmp_take [OF n])
  moreover have "lower (s @ CRLF) = s @ [CR, LF]" using assms(4) t by simp
  ultimately show ?thesis using lower_line [OF t(3) assms(2) t(1,2), of "r @ [NUL]"] by simp
qed

lemma command_parts:
  assumes "ws \<noteq> []"
  obtains pre where "command_of ws = pre @ concat (map bulk ws)" "dollar \<notin> set pre" "NUL \<notin> set pre"
    "pre = CHR ''*'' # dec_nat (length ws) @ CRLF"
proof -
  have "isdigit_c c \<Longrightarrow> c \<noteq> dollar" for c by (auto simp: isdigit_c_def code_def)
  then have "dollar \<notin> set (dec_nat (length ws))" using dec_nat_digits by blast
  then show ?thesis
    using that [of "CHR ''*'' # dec_nat (length ws) @ CRLF"] enc_array_bulk [of ws] dec_nat_no_special [of "length ws"] by simp
qed

definition base_word :: "string \<Rightarrow> string" where
  \<comment> \<open>the name of a command without the letter that stands for patterns\<close>
  "base_word w = (if w \<noteq> [] \<and> is_p (hd w) then tl w else w)"

lemma rd_append: "rd (a @ b) (length a) = (if b = [] then None else Some (hd b))"
  by (cases b) (simp_all add: rd_def nth_append)

lemma command_head:
  assumes "length (command_of (w # ws)) + 1 < 2 ^ 31"
  shows "\<exists>cstr p c1. nextArgument (command_of (w # ws) @ [NUL]) 0 = Some (Some (cstr, length w, p))
    \<and> rd (command_of (w # ws) @ [NUL]) p = Some (if ws = [] then NUL else dollar)
    \<and> rd (command_of (w # ws) @ [NUL]) cstr = Some c1 \<and> (is_p c1 \<longleftrightarrow> w \<noteq> [] \<and> is_p (hd w))
    \<and> drop (if is_p c1 then cstr + 1 else cstr) (command_of (w # ws) @ [NUL])
        = base_word w @ CR # LF # concat (map bulk ws) @ [NUL]
    \<and> p = length (command_of (w # ws)) - length (concat (map bulk ws))"
proof -
  obtain pre where pre: "command_of (w # ws) = pre @ concat (map bulk (w # ws))" "dollar \<notin> set pre" "NUL \<notin> set pre"
    by (rule command_parts [of "w # ws"]) auto
  define D where "D = dec_nat (length w)"
  define R where "R = concat (map bulk ws) @ [NUL]"
  have b: "bulk w = dollar # D @ CR # LF # w @ CR # LF # []" by (simp add: bulk_def D_def)
  define cmd where "cmd = command_of (w # ws) @ [NUL]"
  have c: "cmd = pre @ bulk w @ R" unfolding cmd_def pre(1) by (simp add: R_def)
  have "length pre + length (bulk w) + length (concat (map bulk ws)) < 2 ^ 31" using assms unfolding pre(1) by simp
  moreover have "length w \<le> length (bulk w)" by (simp add: b)
  ultimately have l: "length w < 2 ^ 31" "length pre + length (bulk w) < 2 ^ 31" by linarith+
  define cstr where "cstr = length pre + 1 + length D + 2"
  define p where "p = length pre + length (bulk w)"
  have "nextArgument ([] @ pre @ bulk w @ R) (length []) = Some (Some (cstr, length w, p))"
    using nextArgument_bulk [OF pre(2,3) l(1), of "[]" R] l(2) by (simp add: cstr_def p_def D_def)
  then have n: "nextArgument cmd 0 = Some (Some (cstr, length w, p))" by (simp add: c)
  have "hd R = (if ws = [] then NUL else dollar)" "R \<noteq> []" by (cases ws; simp add: R_def bulk_def)+
  then have r: "rd cmd p = Some (if ws = [] then NUL else dollar)"
    using rd_append [of "pre @ bulk w" R] by (simp add: c p_def)
  have c2: "cmd = (pre @ dollar # D @ [CR, LF]) @ w @ CR # LF # R" by (simp add: c b)
  have cs: "cstr = length (pre @ dollar # D @ [CR, LF])" by (simp add: cstr_def)
  define c1 where "c1 = hd (w @ CR # LF # R)"
  have r1: "rd cmd cstr = Some c1" unfolding cs c2 rd_append c1_def by simp
  have "\<not> is_p CR" by (simp add: is_p_def tolower_c_def code_def)
  then have ip: "is_p c1 \<longleftrightarrow> w \<noteq> [] \<and> is_p (hd w)" by (cases w) (simp_all add: c1_def)
  have "drop (length P) (P @ X) = X" for P X :: string by simp
  then have "drop cstr cmd = w @ CR # LF # R" unfolding cs c2 by this
  then have "drop (if is_p c1 then cstr + 1 else cstr) cmd = base_word w @ CR # LF # R"
    using ip by (cases w) (auto simp: base_word_def drop_Suc tl_drop [symmetric])
  moreover have "p = length (command_of (w # ws)) - length (concat (map bulk ws))" unfolding pre(1) by (simp add: p_def)
  ultimately show ?thesis using n r r1 ip unfolding cmd_def R_def by blast
qed

section \<open>Commands\<close>

definition special :: "string list \<Rightarrow> bool" where
  \<comment> \<open>the commands that are not simply answered\<close>
  "special ws \<longleftrightarrow> lower (base_word (hd ws)) = ''subscribe'' \<and> tl ws \<noteq> []
     \<or> lower (base_word (hd ws)) \<in> {''unsubscribe'', ''monitor''}"

definition obuf_room :: "redisContext \<Rightarrow> string \<Rightarrow> string list \<Rightarrow> bool" where
  \<comment> \<open>the buffer holds this text and has room for the command\<close>
  "obuf_room c s ws \<longleftrightarrow> obuf_is c s \<and> length s + length (command_of ws) + 1 < 2 ^ 31"

lemma send_command_spec:
  assumes "obuf_room (ac_c ac) s ws" "None \<notin> set (y_al (w_sys w))"
  shows "\<exists>b al. send_command (command_of ws @ [NUL]) (length (command_of ws)) ac w
       = Some (REDIS_OK, ac\<lparr>ac_c := (ac_c ac)\<lparr>rc_obuf := b\<rparr>\<rparr>, el AddWrite ac (set_al al w))
     \<and> obuf_is ((ac_c ac)\<lparr>rc_obuf := b\<rparr>) (s @ command_of ws) \<and> None \<notin> set al"
proof -
  define E where "E = command_of ws"
  obtain b al where a: "redisAppend (ac_c ac) (E @ [NUL]) (length E) (w_sys w)
      = Some (REDIS_OK, (ac_c ac)\<lparr>rc_obuf := b\<rparr>, (w_sys w)\<lparr>y_al := al\<rparr>)"
    "obuf_is ((ac_c ac)\<lparr>rc_obuf := b\<rparr>) (s @ E)" "None \<notin> set al"
    using redisAppend_spec [of "ac_c ac" s "w_sys w" "length E" "E @ [NUL]"] assms unfolding obuf_room_def E_def [symmetric]
    by auto
  have "send_command (E @ [NUL]) (length E) ac w
      = Some (REDIS_OK, ac\<lparr>ac_c := (ac_c ac)\<lparr>rc_obuf := b\<rparr>\<rparr>, el AddWrite ac (set_al al w))"
    using a(1) by (simp add: send_command_def set_al_def el_def)
  then show ?thesis using a(2,3) unfolding E_def by blast
qed

lemma push_reply_spec:
  assumes "queue_is (ac_replies ac) xs" "None \<notin> set (y_al (w_sys w))"
  shows "\<exists>q al. push_reply cb ac w = Some (ac\<lparr>ac_replies := q\<rparr>, set_al al w) \<and> queue_is q (xs @ [cb_key cb]) \<and> None \<notin> set al"
proof -
  obtain f al where a: "alloc_next (y_al (w_sys w)) = (Some f, al)" "None \<notin> set al" using alloc_next_ok [OF assms(2)] .
  obtain q where "redisPushCallback (ac_replies ac) cb (y_al (w_sys w)) = Some (0, q, al)" "queue_is q (xs @ [cb_key cb])"
    using redisPushCallback_ok [OF assms(1) a(1)] by blast
  then show ?thesis using a(2) by (auto simp: push_reply_def)
qed

lemma async_command_plain:
  assumes "CR \<notin> set (hd ws)" "ws \<noteq> []" "\<not> special ws" "\<not> flagged ac (REDIS_DISCONNECTING OR REDIS_FREEING)"
    "\<not> flagged ac REDIS_SUBSCRIBED" "queue_is (ac_replies ac) xs" "obuf_room (ac_c ac) s ws" "None \<notin> set (y_al (w_sys w))"
  shows "\<exists>q b al. async_command fn pd (command_of ws @ [NUL]) (length (command_of ws)) ac w
       = Some (REDIS_OK, ac\<lparr>ac_replies := q, ac_c := (ac_c ac)\<lparr>rc_obuf := b\<rparr>\<rparr>, el AddWrite ac (set_al al w))
     \<and> queue_is q (xs @ [(fn, pd)]) \<and> obuf_is ((ac_c ac)\<lparr>rc_obuf := b\<rparr>) (s @ command_of ws) \<and> None \<notin> set al"
proof -
  obtain v vs where ws: "ws = v # vs" using assms(2) by (cases ws) auto
  define cmd where "cmd = command_of ws @ [NUL]"
  define R where "R = concat (map bulk vs)"
  have "length (command_of (v # vs)) + 1 < 2 ^ 31" using assms(7) unfolding obuf_room_def ws by linarith
  then obtain cstr p c1 where h: "nextArgument cmd 0 = Some (Some (cstr, length v, p))"
    "rd cmd p = Some (if vs = [] then NUL else dollar)" "rd cmd cstr = Some c1"
    "drop (if is_p c1 then cstr + 1 else cstr) cmd = base_word v @ CR # LF # R @ [NUL]"
    using command_head [of v vs] unfolding cmd_def ws R_def by blast
  have n: "strnicmp_eq (drop (if is_p c1 then cstr + 1 else cstr) cmd) (t @ CRLF) (length t + 2) = Some (lower (base_word v) = t)"
    if "CR \<notin> set t" "NUL \<notin> set t" "lower t = t" for t
  proof -
    have "CR \<notin> set (base_word v)" using assms(1) by (cases v) (auto simp: ws base_word_def)
    then show ?thesis unfolding h(4) using that by (rule strnicmp_word)
  qed
  have c: "CR \<notin> set ''subscribe''" "NUL \<notin> set ''subscribe''" "lower ''subscribe'' = ''subscribe''"
    "CR \<notin> set ''unsubscribe''" "NUL \<notin> set ''unsubscribe''" "lower ''unsubscribe'' = ''unsubscribe''"
    "CR \<notin> set ''monitor''" "NUL \<notin> set ''monitor''" "lower ''monitor'' = ''monitor''"
    by (simp_all add: tolower_c_def code_def)
  have l: "length ''subscribe'' + 2 = 11" "length ''unsubscribe'' + 2 = 13" "length ''monitor'' + 2 = 9" by simp_all
  define cb where "cb = \<lparr>cb_next = None, cb_fn = fn, cb_privdata = pd\<rparr>"
  obtain q al where q: "push_reply cb ac w = Some (ac\<lparr>ac_replies := q\<rparr>, set_al al w)" "queue_is q (xs @ [(fn, pd)])" "None \<notin> set al"
    using push_reply_spec [OF assms(6,8), of cb] by (auto simp: cb_def cb_key_def)
  obtain b al' where b: "send_command cmd (length (command_of ws)) (ac\<lparr>ac_replies := q\<rparr>) (set_al al w)
       = Some (REDIS_OK, ac\<lparr>ac_replies := q, ac_c := (ac_c ac)\<lparr>rc_obuf := b\<rparr>\<rparr>, el AddWrite ac (set_al al' w))"
     "obuf_is ((ac_c ac)\<lparr>rc_obuf := b\<rparr>) (s @ command_of ws)" "None \<notin> set al'"
    using send_command_spec [of "ac\<lparr>ac_replies := q\<rparr>" s ws "set_al al w"] assms(7) q(3) unfolding cmd_def [symmetric]
    by (auto simp: set_al_def el_def)
  define i where "i = (if is_p c1 then cstr + 1 else cstr)"
  have nsp: "vs = [] \<or> lower (base_word v) \<noteq> ''subscribe''" "lower (base_word v) \<noteq> ''unsubscribe''" "lower (base_word v) \<noteq> ''monitor''"
    using assms(3) by (simp_all only: special_def ws list.sel) blast+
  have s: "(if (if vs = [] then NUL else dollar) = dollar then strnicmp_eq (drop i cmd) (''subscribe'' @ CRLF) 11 else Some False) = Some False"
    using n [OF c(1-3)] nsp(1) unfolding l i_def [symmetric] by (cases "vs = []") simp_all
  have u: "strnicmp_eq (drop i cmd) (''unsubscribe'' @ CRLF) 13 = Some False" "strnicmp_eq (drop i cmd) (''monitor'' @ CRLF) 9 = Some False"
    using n [OF c(4-6)] n [OF c(7-9)] nsp(2,3) unfolding l i_def [symmetric] by (simp_all only: simp_thms)
  have "async_command fn pd cmd (length (command_of ws)) ac w
       = Some (REDIS_OK, ac\<lparr>ac_replies := q, ac_c := (ac_c ac)\<lparr>rc_obuf := b\<rparr>\<rparr>, el AddWrite ac (set_al al' w))"
    unfolding async_command_def using assms(4,5)
    by (simp only: if_False h(1-3) bind.bind_lunit Let_def prod.case cb_def [symmetric] i_def [symmetric] s u q(1) b(1))
  then show ?thesis using q(2) b(2,3) unfolding cmd_def by blast
qed

section \<open>Callbacks that issue commands\<close>

definition issued ::
  "event list \<Rightarrow> (nat option \<times> nat) list \<Rightarrow> string \<Rightarrow> (nat option \<times> nat) list \<Rightarrow> string list list
     \<Rightarrow> redisAsyncContext \<Rightarrow> world \<Rightarrow> redisAsyncContext \<Rightarrow> world \<Rightarrow> bool" where
  \<comment> \<open>to the callbacks \<open>xs\<close> and the bytes \<open>s\<close> as many callbacks as commands were added\<close>
  "issued evs xs s new wss ac w ac' w' \<longleftrightarrow> length new = length wss
     \<and> (\<exists>q b con dis. ac' = ac\<lparr>ac_replies := q, ac_c := (ac_c ac)\<lparr>rc_obuf := b\<rparr>, ac_onConnect := con, ac_onDisconnect := dis\<rparr>
          \<and> queue_is q (xs @ new) \<and> obuf_is ((ac_c ac)\<lparr>rc_obuf := b\<rparr>) (s @ concat (map command_of wss)))
     \<and> (\<exists>al hs. w' = w\<lparr>w_sys := (w_sys w)\<lparr>y_al := al\<rparr>, w_log := w_log w @ hs\<rparr> \<and> None \<notin> set al \<and> reply_events hs = evs)"

lemma issuedI:
  assumes "length new = length wss" "queue_is q (xs @ new)" "obuf_is ((ac_c ac)\<lparr>rc_obuf := b\<rparr>) (s @ concat (map command_of wss))"
    "None \<notin> set al" "reply_events hs = evs"
    "ac' = ac\<lparr>ac_replies := q, ac_c := (ac_c ac)\<lparr>rc_obuf := b\<rparr>, ac_onConnect := con, ac_onDisconnect := dis\<rparr>"
    "w' = w\<lparr>w_sys := (w_sys w)\<lparr>y_al := al\<rparr>, w_log := w_log w @ hs\<rparr>"
  shows "issued evs xs s new wss ac w ac' w'"
  unfolding issued_def using assms by blast

lemma issuedE:
  assumes "issued evs xs s new wss ac w ac' w'"
  obtains q b con dis al hs where "length new = length wss" "queue_is q (xs @ new)"
    "obuf_is ((ac_c ac)\<lparr>rc_obuf := b\<rparr>) (s @ concat (map command_of wss))" "None \<notin> set al" "reply_events hs = evs"
    "ac' = ac\<lparr>ac_replies := q, ac_c := (ac_c ac)\<lparr>rc_obuf := b\<rparr>, ac_onConnect := con, ac_onDisconnect := dis\<rparr>"
    "w' = w\<lparr>w_sys := (w_sys w)\<lparr>y_al := al\<rparr>, w_log := w_log w @ hs\<rparr>"
  using assms unfolding issued_def by blast

lemma issued_trans:
  assumes "issued e1 xs s n1 ws1 ac w ac1 w1" "issued e2 (xs @ n1) (s @ concat (map command_of ws1)) n2 ws2 ac1 w1 ac2 w2"
  shows "issued (e1 @ e2) xs s (n1 @ n2) (ws1 @ ws2) ac w ac2 w2"
proof -
  obtain q b con dis al hs where 1: "length n1 = length ws1"
    "ac1 = ac\<lparr>ac_replies := q, ac_c := (ac_c ac)\<lparr>rc_obuf := b\<rparr>, ac_onConnect := con, ac_onDisconnect := dis\<rparr>"
    "w1 = w\<lparr>w_sys := (w_sys w)\<lparr>y_al := al\<rparr>, w_log := w_log w @ hs\<rparr>" "reply_events hs = e1"
    using assms(1) by (rule issuedE)
  obtain q2 b2 con2 dis2 al2 hs2 where 2: "length n2 = length ws2" "queue_is q2 ((xs @ n1) @ n2)"
    "obuf_is ((ac_c ac1)\<lparr>rc_obuf := b2\<rparr>) ((s @ concat (map command_of ws1)) @ concat (map command_of ws2))" "None \<notin> set al2"
    "reply_events hs2 = e2"
    "ac2 = ac1\<lparr>ac_replies := q2, ac_c := (ac_c ac1)\<lparr>rc_obuf := b2\<rparr>, ac_onConnect := con2, ac_onDisconnect := dis2\<rparr>"
    "w2 = w1\<lparr>w_sys := (w_sys w1)\<lparr>y_al := al2\<rparr>, w_log := w_log w1 @ hs2\<rparr>"
    using assms(2) by (rule issuedE)
  show ?thesis
    by (rule issuedI [where q = q2 and b = b2 and al = al2 and hs = "hs @ hs2" and con = con2 and dis = dis2])
       (use 1 2 in simp_all)
qed

lemma issued_refl:
  assumes "queue_is (ac_replies ac) xs" "obuf_is (ac_c ac) s" "None \<notin> set (y_al (w_sys w))"
  shows "issued [] xs s [] [] ac w ac w"
  by (rule issuedI [where q = "ac_replies ac" and b = "rc_obuf (ac_c ac)" and al = "y_al (w_sys w)" and hs = "[]"
        and con = "ac_onConnect ac" and dis = "ac_onDisconnect ac"]) (use assms in simp_all)

lemma issued_after:
  assumes "issued evs xs s new wss ac w ac' w'"
  shows "queue_is (ac_replies ac') (xs @ new)" "obuf_is (ac_c ac') (s @ concat (map command_of wss))" "None \<notin> set (y_al (w_sys w'))"
    "flagged ac' f = flagged ac f" "w_user w' = w_user w" "y_mem (w_sys w') = y_mem (w_sys w)"
    "rc_err (ac_c ac') = rc_err (ac_c ac)" "rc_reader (ac_c ac') = rc_reader (ac_c ac)"
    "reply_events (w_log w') = reply_events (w_log w) @ evs" "rc_fd (ac_c ac') = rc_fd (ac_c ac)"
    "y_reads (w_sys w') = y_reads (w_sys w)"
  by (rule issuedE [OF assms]; simp add: flagged_def has_flag_def)+

definition issues :: "api \<Rightarrow> string list \<Rightarrow> bool" where
  \<comment> \<open>a call that sends an ordinary command\<close>
  "issues a ws \<longleftrightarrow> ws \<noteq> [] \<and> CR \<notin> set (hd ws) \<and> \<not> special ws \<and> length (command_of ws) + 1 < 2 ^ 31 \<and>
     (case a of
        ACommand fn pd format args \<Rightarrow> spells (format, args) ws
      | ACommandArgv fn pd argc argv lens \<Rightarrow> \<forall>al. formatted al True ws (redisFormatCommandArgv argc argv lens al)
      | _ \<Rightarrow> False)"

fun api_key :: "api \<Rightarrow> nat option \<times> nat" where
  "api_key (ACommand fn pd format args) = (fn, pd)"
| "api_key (ACommandArgv fn pd argc argv lens) = (fn, pd)"
| "api_key _ = (None, 0)"

fun sets_callback :: "api \<Rightarrow> bool" where
  "sets_callback (AOnConnect fn) = True"
| "sets_callback (AOnDisconnect fn) = True"
| "sets_callback _ = False"

primrec frugal :: "prog \<Rightarrow> nat \<Rightarrow> bool" where
  \<comment> \<open>a program that only issues ordinary commands, of at most that many bytes together\<close>
  "frugal Return n = True"
| "frugal (Call a k) n = (sets_callback a \<and> (\<forall>st. frugal (k st) n)
     \<or> (\<exists>ws. issues a ws \<and> length (command_of ws) \<le> n \<and> (\<forall>st. frugal (k st) (n - length (command_of ws)))))"

lemma send_is_issued:
  assumes "issues a ws" "\<forall>f \<in> {REDIS_SUBSCRIBED, REDIS_DISCONNECTING, REDIS_FREEING}. \<not> flagged ac f"
    "queue_is (ac_replies ac) xs" "obuf_is (ac_c ac) s" "None \<notin> set al" "length s + length (command_of ws) + 1 < 2 ^ 31"
    "api_key a = (fn, pd)"
  shows "\<exists>ac' w'. async_command fn pd (command_of ws @ [NUL]) (nat (int (length (command_of ws)) mod 2 ^ 64)) ac (set_al al w) = Some (0, ac', w')
     \<and> issued [] xs s [api_key a] [ws] ac w ac' w'"
proof -
  have i: "CR \<notin> set (hd ws)" "ws \<noteq> []" "\<not> special ws" using assms(1) by (simp_all add: issues_def)
  have fl: "\<not> flagged ac (REDIS_DISCONNECTING OR REDIS_FREEING)" "\<not> flagged ac REDIS_SUBSCRIBED" using assms(2) by (simp_all add: flagged_or)
  have rm: "obuf_room (ac_c ac) s ws" using assms(4,6) by (simp only: obuf_room_def)
  have al: "None \<notin> set (y_al (w_sys (set_al al w)))" using assms(5) by (simp add: set_al_def)
  obtain q b al' where c: "async_command fn pd (command_of ws @ [NUL]) (length (command_of ws)) ac (set_al al w)
       = Some (REDIS_OK, ac\<lparr>ac_replies := q, ac_c := (ac_c ac)\<lparr>rc_obuf := b\<rparr>\<rparr>, el AddWrite ac (set_al al' (set_al al w)))"
     "queue_is q (xs @ [(fn, pd)])" "obuf_is ((ac_c ac)\<lparr>rc_obuf := b\<rparr>) (s @ command_of ws)" "None \<notin> set al'"
    using async_command_plain [OF i fl assms(3) rm al] by blast
  have n: "nat (int (length (command_of ws)) mod 2 ^ 64) = length (command_of ws)" using assms(6) by simp
  have "issued [] xs s [api_key a] [ws] ac w (ac\<lparr>ac_replies := q, ac_c := (ac_c ac)\<lparr>rc_obuf := b\<rparr>\<rparr>) (el AddWrite ac (set_al al' (set_al al w)))"
    by (rule issuedI [where q = q and b = b and al = al' and hs = "if ac_ev ac AddWrite then [EvHook AddWrite] else []"
        and con = "ac_onConnect ac" and dis = "ac_onDisconnect ac"])
       (use c(2-4) assms(7) in \<open>simp_all add: el_def log_def set_al_def\<close>)
  then show ?thesis using c(1) unfolding n by blast
qed

lemma act_issues:
  assumes "issues a ws" "\<forall>f \<in> {REDIS_SUBSCRIBED, REDIS_DISCONNECTING, REDIS_FREEING}. \<not> flagged ac f"
    "queue_is (ac_replies ac) xs" "obuf_is (ac_c ac) s" "None \<notin> set (y_al (w_sys w))" "length s + length (command_of ws) + 1 < 2 ^ 31"
  shows "\<exists>ac' w'. act a ac w = Some (0, ac', w') \<and> issued [] xs s [api_key a] [ws] ac w ac' w'"
proof (cases a)
  case (ACommand fn pd format args)
  have f: "formatted (y_al (w_sys w)) True ws (redisvFormatCommand format args (y_al (w_sys w)))"
    by (rule redisvFormatCommand_words) (use assms(1) ACommand in \<open>simp_all only: issues_def api.case spells_def fst_conv snd_conv\<close>)
  obtain al' where r: "redisvFormatCommand format args (y_al (w_sys w))
     = Some (int (length (command_of ws)), Some (command_of ws @ [NUL]), al')" "None \<notin> set al'"
    using f assms(5) unfolding formatted_def by blast
  show ?thesis using send_is_issued [OF assms(1-4) r(2) assms(6), of fn pd w] ACommand
    unfolding ACommand act.simps redisAsyncCommand_def redisvAsyncCommand_def r(1) by simp
next
  case (ACommandArgv fn pd argc argv lens)
  have f: "formatted (y_al (w_sys w)) True ws (redisFormatCommandArgv argc argv lens (y_al (w_sys w)))"
    using assms(1) by (simp only: ACommandArgv issues_def api.case)
  obtain al' where r: "redisFormatCommandArgv argc argv lens (y_al (w_sys w))
     = Some (int (length (command_of ws)), Some (command_of ws @ [NUL]), al')" "None \<notin> set al'"
    using f assms(5) unfolding formatted_def by blast
  show ?thesis using send_is_issued [OF assms(1-4) r(2) assms(6), of fn pd w] ACommandArgv
    unfolding ACommandArgv act.simps redisAsyncCommandArgv_def r(1) by simp
qed (use assms(1) in \<open>simp_all add: issues_def\<close>)

lemma run_prog_issues:
  assumes "frugal p n" "\<forall>f \<in> {REDIS_SUBSCRIBED, REDIS_DISCONNECTING, REDIS_FREEING}. \<not> flagged ac f"
    "queue_is (ac_replies ac) xs" "obuf_is (ac_c ac) s" "None \<notin> set (y_al (w_sys w))" "length s + n + 1 < 2 ^ 31"
  shows "\<exists>ac' w' new wss. run_prog p ac w = Some (ac', w') \<and> issued [] xs s new wss ac w ac' w'
     \<and> length (concat (map command_of wss)) \<le> n"
  using assms
proof (induction p arbitrary: ac w xs s n)
  case Return
  then show ?case using issued_refl [OF Return.prems(3-5)] by (intro exI [where x = ac] exI [where x = w] exI [where x = "[]"]) simp
next
  case (Call a k)
  show ?case
  proof (cases "sets_callback a \<and> (\<forall>st. frugal (k st) n)")
    case True
    obtain con dis ac1 w1 st where a: "act a ac w = Some (st, ac1, w1)" "issued [] xs s [] [] ac w ac1 w1"
    proof (cases a)
      case (AOnConnect fn)
      define ac1 where "ac1 = (if ac_onConnect ac = None then ac\<lparr>ac_onConnect := fn\<rparr> else ac)"
      define w1 where "w1 = (if ac_onConnect ac = None then el AddWrite ac w else w)"
      have "act a ac w = Some (if ac_onConnect ac = None then REDIS_OK else REDIS_ERR, ac1, w1)"
        using AOnConnect by (simp add: redisAsyncSetConnectCallback_def ac1_def w1_def)
      moreover have "issued [] xs s [] [] ac w ac1 w1"
        by (rule issuedI [where q = "ac_replies ac" and b = "rc_obuf (ac_c ac)" and al = "y_al (w_sys w)" and con = "ac_onConnect ac1"
            and hs = "if ac_onConnect ac = None \<and> ac_ev ac AddWrite then [EvHook AddWrite] else []" and dis = "ac_onDisconnect ac"])
           (use Call.prems(3-5) in \<open>simp_all add: ac1_def w1_def el_def log_def\<close>)
      ultimately show ?thesis using that by blast
    next
      case (AOnDisconnect fn)
      define ac1 where "ac1 = (if ac_onDisconnect ac = None then ac\<lparr>ac_onDisconnect := fn\<rparr> else ac)"
      have "act a ac w = Some (if ac_onDisconnect ac = None then REDIS_OK else REDIS_ERR, ac1, w)"
        using AOnDisconnect by (simp add: redisAsyncSetDisconnectCallback_def ac1_def)
      moreover have "issued [] xs s [] [] ac w ac1 w"
        by (rule issuedI [where q = "ac_replies ac" and b = "rc_obuf (ac_c ac)" and al = "y_al (w_sys w)" and con = "ac_onConnect ac"
            and hs = "[]" and dis = "ac_onDisconnect ac1"])
           (use Call.prems(3-5) in \<open>simp_all add: ac1_def\<close>)
      ultimately show ?thesis using that by blast
    qed (use True in simp_all)
    note i = issued_after [OF a(2)]
    have "\<exists>ac' w' new wss. run_prog (k st) ac1 w1 = Some (ac', w') \<and> issued [] xs s new wss ac1 w1 ac' w'
     \<and> length (concat (map command_of wss)) \<le> n"
      by (rule Call.IH [OF rangeI]) (use True Call.prems(2,6) i in simp_all)
    then obtain ac2 w2 new wss where r: "run_prog (k st) ac1 w1 = Some (ac2, w2)" "issued [] xs s new wss ac1 w1 ac2 w2"
      "length (concat (map command_of wss)) \<le> n" by blast
    have "issued [] xs s new wss ac w ac2 w2" using issued_trans [OF a(2), of "[]" new wss ac2 w2] r(2) by simp
    then show ?thesis using a(1) r(1,3) by (intro exI [where x = ac2] exI [where x = w2] exI [where x = new] exI [where x = wss]) simp
  next
    case False
    then obtain ws where ws: "issues a ws" "length (command_of ws) \<le> n" "\<forall>st. frugal (k st) (n - length (command_of ws))"
      using Call.prems(1) by auto
    define m where "m = length (command_of ws)"
    have l: "length s + length (command_of ws) + 1 < 2 ^ 31" using Call.prems(6) ws(2) by linarith
    obtain ac1 w1 where a: "act a ac w = Some (0, ac1, w1)" "issued [] xs s [api_key a] [ws] ac w ac1 w1"
      using act_issues [OF ws(1) Call.prems(2-5) l] by blast
    note i = issued_after [OF a(2)]
    have c: "concat (map command_of [ws]) = command_of ws" by (simp only: list.map concat.simps append_Nil2)
    have "\<exists>ac' w' new wss. run_prog (k 0) ac1 w1 = Some (ac', w') \<and> issued [] (xs @ [api_key a]) (s @ command_of ws) new wss ac1 w1 ac' w'
     \<and> length (concat (map command_of wss)) \<le> n - m"
    proof (rule Call.IH [OF rangeI])
      show "frugal (k 0) (n - m)" using ws(3) by (simp only: m_def)
      show "\<forall>f \<in> {REDIS_SUBSCRIBED, REDIS_DISCONNECTING, REDIS_FREEING}. \<not> flagged ac1 f" using Call.prems(2) i(4) by simp
      show "queue_is (ac_replies ac1) (xs @ [api_key a])" "None \<notin> set (y_al (w_sys w1))" using i by simp_all
      show "obuf_is (ac_c ac1) (s @ command_of ws)" using i(2) unfolding c .
      show "length (s @ command_of ws) + (n - m) + 1 < 2 ^ 31" using Call.prems(6) ws(2) unfolding m_def length_append by linarith
    qed
    then obtain ac2 w2 new wss where r: "run_prog (k 0) ac1 w1 = Some (ac2, w2)"
      "issued [] (xs @ [api_key a]) (s @ command_of ws) new wss ac1 w1 ac2 w2"
      "length (concat (map command_of wss)) \<le> n - m" by blast
    have "issued ([] @ []) xs s ([api_key a] @ new) ([ws] @ wss) ac w ac2 w2"
      by (rule issued_trans [OF a(2)]) (use r(2) in \<open>simp only: c\<close>)
    moreover have "length (concat (map command_of ([ws] @ wss))) \<le> n"
      using r(3) ws(2) unfolding map_append concat_append c length_append m_def by linarith
    moreover have "run_prog (Call a k) ac w = Some (ac2, w2)" using a(1) r(1) by simp
    ultimately show ?thesis unfolding append_Nil by blast
  qed
qed

lemma flag_off_on: "\<not> flagged ac f \<Longrightarrow> flag_off f (flag_on f ac) = ac"
proof -
  assume "\<not> flagged ac f"
  then have "rc_flags (ac_c ac) AND f = 0" by (simp add: flagged_def has_flag_def)
  then have "\<And>i. bit f i \<Longrightarrow> \<not> bit (rc_flags (ac_c ac)) i" using bit_and_iff [of "rc_flags (ac_c ac)" f] by auto
  then have "(rc_flags (ac_c ac) OR f) AND NOT f = rc_flags (ac_c ac)"
    by (intro bit_eqI) (auto simp: bit_simps)
  then show ?thesis by (simp add: flag_off_def flag_on_def clear_flag_def set_flag_def)
qed

definition frugal_user :: "world \<Rightarrow> nat \<Rightarrow> bool" where
  "frugal_user w n \<longleftrightarrow> (\<forall>fn reply pd m l. frugal (w_user w fn reply pd m l) n)"

definition answer_event :: "nat option \<times> nat \<Rightarrow> obj \<Rightarrow> mem \<Rightarrow> event list" where
  \<comment> \<open>a callback, if it is not NULL, is called with this reply\<close>
  "answer_event x ob m = (case fst x of None \<Rightarrow> [] | Some fn \<Rightarrow> [EvReply fn (Some (ob, m)) (snd x)])"

lemma redisRunCallback_issues:
  assumes "frugal_user w n" "\<forall>f \<in> {REDIS_SUBSCRIBED, REDIS_DISCONNECTING, REDIS_FREEING, REDIS_IN_CALLBACK}. \<not> flagged ac f"
    "queue_is (ac_replies ac) xs" "obuf_is (ac_c ac) s" "None \<notin> set (y_al (w_sys w))" "length s + n + 1 < 2 ^ 31"
  shows "\<exists>ac' w' new wss. redisRunCallback ac cb (Some ob) w = Some (ac', w')
     \<and> issued (answer_event (cb_key cb) ob (y_mem (w_sys w))) xs s new wss ac w ac' w' \<and> length (concat (map command_of wss)) \<le> n"
proof (cases "cb_fn cb")
  case None
  then show ?thesis using issued_refl [OF assms(3-5)]
    by (intro exI [where x = ac] exI [where x = w] exI [where x = "[]"]) (simp add: redisRunCallback_def answer_event_def cb_key_def)
next
  case (Some fn)
  define p where "p = w_user w fn (Some ob) (cb_privdata cb) (y_mem (w_sys w)) (w_log w)"
  define ac0 where "ac0 = flag_on REDIS_IN_CALLBACK ac"
  define w0 where "w0 = log (EvReply fn (Some (ob, y_mem (w_sys w))) (cb_privdata cb)) w"
  have p: "frugal p n" using assms(1) by (simp add: frugal_user_def p_def)
  have "\<forall>f \<in> {REDIS_SUBSCRIBED, REDIS_DISCONNECTING, REDIS_FREEING}. \<not> flagged ac0 f"
    using assms(2) by (simp add: ac0_def flagged_on flag_defs)
  moreover have "queue_is (ac_replies ac0) xs" "obuf_is (ac_c ac0) s" "None \<notin> set (y_al (w_sys w0))"
    using assms(3-5) by (simp_all add: ac0_def flag_on_def set_flag_def obuf_is_def w0_def log_def)
  ultimately obtain ac1 w1 new wss where r: "run_prog p ac0 w0 = Some (ac1, w1)" "issued [] xs s new wss ac0 w0 ac1 w1"
     "length (concat (map command_of wss)) \<le> n" using run_prog_issues [OF p _ _ _ _ assms(6)] by blast
  obtain q b con dis al hs where i: "length new = length wss" "queue_is q (xs @ new)"
    "obuf_is ((ac_c ac0)\<lparr>rc_obuf := b\<rparr>) (s @ concat (map command_of wss))" "None \<notin> set al" "reply_events hs = []"
    "ac1 = ac0\<lparr>ac_replies := q, ac_c := (ac_c ac0)\<lparr>rc_obuf := b\<rparr>, ac_onConnect := con, ac_onDisconnect := dis\<rparr>"
    "w1 = w0\<lparr>w_sys := (w_sys w0)\<lparr>y_al := al\<rparr>, w_log := w_log w0 @ hs\<rparr>"
    using r(2) by (rule issuedE)
  have "flag_off REDIS_IN_CALLBACK (flag_on REDIS_IN_CALLBACK ac) = ac" using assms(2) by (intro flag_off_on) simp
  then have fl: "(rc_flags (ac_c ac) OR REDIS_IN_CALLBACK) AND NOT REDIS_IN_CALLBACK = rc_flags (ac_c ac)"
    by (simp add: flag_off_def flag_on_def clear_flag_def set_flag_def) (metis redisAsyncContext.select_convs(1)
      redisAsyncContext.update_convs(1) redisAsyncContext.surjective redisContext.select_convs(4) redisContext.update_convs(4) redisContext.surjective)
  define ac2 where "ac2 = flag_off REDIS_IN_CALLBACK ac1"
  have "ac2 = ac\<lparr>ac_replies := q, ac_c := (ac_c ac)\<lparr>rc_obuf := b\<rparr>, ac_onConnect := con, ac_onDisconnect := dis\<rparr>"
    using fl by (simp add: ac2_def i(6) ac0_def flag_on_def flag_off_def set_flag_def clear_flag_def)
  then have "issued (answer_event (cb_key cb) ob (y_mem (w_sys w))) xs s new wss ac w ac2 w1"
    by (intro issuedI [where q = q and b = b and con = con and dis = dis and al = al
        and hs = "EvReply fn (Some (ob, y_mem (w_sys w))) (cb_privdata cb) # hs"])
       (use i(1-5,7) Some in \<open>simp_all add: answer_event_def cb_key_def w0_def log_def obuf_is_def\<close>)
  moreover have "redisRunCallback ac cb (Some ob) w = Some (ac2, w1)"
    using Some r(1) by (simp add: redisRunCallback_def p_def ac0_def w0_def ac2_def)
  ultimately show ?thesis using r(3) by blast
qed

section \<open>Replies\<close>

lemma rstate_idle: "rstate r m base [] ty rest \<Longrightarrow> mem_is m' base' [] \<Longrightarrow> rstate r m' base' [] ty rest"
  by (auto simp: rstate_def ready_def reads_def)

lemma rstate_fn: "rstate r m base afs ty rest \<Longrightarrow> rr_fn r = Some defaultFunctions"
  by (auto simp: rstate_def ready_def reads_def)

lemma redisGetReply_nonblocking:
  "\<not> has_flag c REDIS_BLOCK \<Longrightarrow> redisGetReplyFromReader c y = Some (REDIS_OK, ob, c', y') \<Longrightarrow> rc_flags c' = rc_flags c \<Longrightarrow>
   redisGetReply c y = Some (REDIS_OK, ob, c', y')"
  by (simp add: redisGetReply_def has_flag_def)

definition serving ::
  "redisAsyncContext \<Rightarrow> world \<Rightarrow> heap \<Rightarrow> (nat option \<times> nat) list \<Rightarrow> string \<Rightarrow> (reply list \<times> nat) list \<Rightarrow> int \<Rightarrow> string \<Rightarrow> bool" where
  \<comment> \<open>an open context between events: callbacks that wait, bytes to send, the parser with bytes to parse\<close>
  "serving ac w base xs s afs ty rest \<longleftrightarrow> rc_err (ac_c ac) = 0
     \<and> (\<forall>f \<in> {REDIS_BLOCK, REDIS_SUBSCRIBED, REDIS_MONITORING, REDIS_DISCONNECTING, REDIS_FREEING, REDIS_IN_CALLBACK}. \<not> flagged ac f)
     \<and> queue_is (ac_replies ac) xs \<and> obuf_is (ac_c ac) s \<and> reader_at (ac_c ac) (w_sys w) base afs ty rest
     \<and> None \<notin> set (y_al (w_sys w))"

fun reply_calls :: "(nat option \<times> nat) list \<Rightarrow> reply list \<Rightarrow> event list \<Rightarrow> bool" where
  \<comment> \<open>each callback that is not NULL is called once with the reply at its place\<close>
  "reply_calls xs [] evs = (evs = [])"
| "reply_calls [] (v # vs) evs = False"
| "reply_calls (x # xs) (v # vs) evs = (\<exists>ob m evs'. evs = answer_event x ob m @ evs'
     \<and> shows_reply m (Some ob) (Some v) \<and> reply_calls xs vs evs')"

lemma free_object_spec:
  assumes "reader_at (ac_c ac) (w_sys w) base' [] (-1) rest" "mem_is (y_mem (w_sys w)) base (cells_of t)" "tree_ok t"
  shows "\<exists>m. free_object ac (Obj (addr t)) w = Some (w\<lparr>w_sys := (w_sys w)\<lparr>y_mem := m\<rparr>\<rparr>)
    \<and> reader_at (ac_c ac) ((w_sys w)\<lparr>y_mem := m\<rparr>) base [] (-1) rest"
proof -
  obtain r where r: "rc_reader (ac_c ac) = Some r" "rstate r (y_mem (w_sys w)) base' [] (-1) rest"
    "rr_len r \<le> 1024 + length rest" "None \<notin> set (m_al (y_mem (w_sys w)))" using assms(1) by (auto simp: reader_at_def)
  obtain m where m: "freeReplyObject (Obj (addr t)) (y_mem (w_sys w)) = Some m" "mem_is m base []" "m_al m = m_al (y_mem (w_sys w))"
    using freeReplyObject_tree [of "y_mem (w_sys w)" base t "[]"] assms(2,3) by auto
  have "free_object ac (Obj (addr t)) w = Some (w\<lparr>w_sys := (w_sys w)\<lparr>y_mem := m\<rparr>\<rparr>)"
    using r(1) rstate_fn [OF r(2)] m(1) by (simp add: free_object_def defaultFunctions_def)
  moreover have "rstate r m base [] (-1) rest" by (rule rstate_idle [OF r(2) m(2)])
  ultimately show ?thesis using r(1,3,4) m(3) by (auto simp: reader_at_def)
qed

definition same_socket :: "redisAsyncContext \<Rightarrow> world \<Rightarrow> redisAsyncContext \<Rightarrow> world \<Rightarrow> bool" where
  "same_socket ac w ac' w' \<longleftrightarrow> rc_fd (ac_c ac') = rc_fd (ac_c ac) \<and> y_reads (w_sys w') = y_reads (w_sys w)
     \<and> flagged ac' REDIS_CONNECTED = flagged ac REDIS_CONNECTED \<and> w_user w' = w_user w"

lemma serving_step:
  assumes "serving ac w base (x # xs) s afs ty inp" "arun afs ty inp = ODone v rest" "frugal_user w n" "length s + n + 1 < 2 ^ 31"
  shows "\<exists>ac1 w1 ob m new wss cb1. process_replies cb ac w = process_replies cb1 ac1 w1
    \<and> serving ac1 w1 base (xs @ new) (s @ concat (map command_of wss)) [] (-1) rest \<and> same_socket ac w ac1 w1
    \<and> reply_events (w_log w1) = reply_events (w_log w) @ answer_event x ob m \<and> shows_reply m (Some ob) (Some v)
    \<and> length new = length wss \<and> length (concat (map command_of wss)) \<le> n"
proof -
  let ?c = "ac_c ac" and ?y = "w_sys w"
  have s: "rc_err ?c = 0" "queue_is (ac_replies ac) (x # xs)" "obuf_is ?c s" "None \<notin> set (y_al ?y)"
    "reader_at ?c ?y base afs ty inp"
    "\<forall>f \<in> {REDIS_BLOCK, REDIS_SUBSCRIBED, REDIS_MONITORING, REDIS_DISCONNECTING, REDIS_FREEING, REDIS_IN_CALLBACK}. \<not> flagged ac f"
    using assms(1) unfolding serving_def by blast+
  obtain st ob c' y' where g: "redisGetReplyFromReader ?c ?y = Some (st, ob, c', y')" "got ?c ?y base (ODone v rest) st ob c' y'"
    using redisGetReplyFromReader_spec [OF s(5)] unfolding assms(2) by auto
  obtain r e es m tr where d: "c' = ?c\<lparr>rc_reader := r, rc_err := e, rc_errstr := es\<rparr>" "y' = ?y\<lparr>y_mem := m\<rparr>"
    "st = REDIS_OK" "rc_err c' = 0" "erase tr = v" "tree_ok tr" "ob = Some (Obj (addr tr))"
    "mem_is m base (cells_of tr)" "reader_at c' y' (m_cells m) [] (-1) rest"
    using g(2) s(1) by (auto simp: got_def)
  have G: "redisGetReply ?c ?y = Some (REDIS_OK, Some (Obj (addr tr)), c', y')"
    using redisGetReply_nonblocking [OF _ g(1) [unfolded d(3)]] s(6) d(1,7) by (simp add: flagged_def)
  define ac0 where "ac0 = ac\<lparr>ac_c := c'\<rparr>"
  define w0 where "w0 = w\<lparr>w_sys := y'\<rparr>"
  obtain cbx q where q: "redisShiftCallback (ac_replies ac0) = Some (0, Some cbx, q)" "cb_key cbx = x" "queue_is q xs"
    using redisShiftCallback_first [OF s(2)] by (auto simp: ac0_def)
  define ac1 where "ac1 = ac0\<lparr>ac_replies := q\<rparr>"
  have same: "flagged ac1 f = flagged ac f" for f by (simp add: ac1_def ac0_def flagged_def has_flag_def d(1))
  have p1: "frugal_user w0 n" "queue_is (ac_replies ac1) xs" "obuf_is (ac_c ac1) s" "None \<notin> set (y_al (w_sys w0))"
    using assms(3) q(3) s(3,4) by (simp_all add: w0_def frugal_user_def ac1_def ac0_def obuf_is_def d(1,2))
  obtain ac2 w2 new wss where r: "redisRunCallback ac1 cbx (Some (Obj (addr tr))) w0 = Some (ac2, w2)"
    "issued (answer_event x (Obj (addr tr)) m) xs s new wss ac1 w0 ac2 w2" "length (concat (map command_of wss)) \<le> n"
    using redisRunCallback_issues [OF p1(1) _ p1(2-4) assms(4), of cbx "Obj (addr tr)"] s(6) q(2) by (auto simp: same w0_def d(2))
  note i = issued_after [OF r(2)]
  have rd: "reader_at (ac_c ac2) (w_sys w2) (m_cells m) [] (-1) rest"
    by (rule reader_at_cong [OF d(9)]) (use i in \<open>simp_all add: ac1_def ac0_def w0_def\<close>)
  have "mem_is (y_mem (w_sys w2)) base (cells_of tr)" using i(6) d(8) by (simp add: w0_def d(2))
  then obtain m3 where f: "free_object ac2 (Obj (addr tr)) w2 = Some (w2\<lparr>w_sys := (w_sys w2)\<lparr>y_mem := m3\<rparr>\<rparr>)"
     "reader_at (ac_c ac2) ((w_sys w2)\<lparr>y_mem := m3\<rparr>) base [] (-1) rest"
    using free_object_spec [OF rd _ d(6)] by blast
  define w3 where "w3 = w2\<lparr>w_sys := (w_sys w2)\<lparr>y_mem := m3\<rparr>\<rparr>"
  have nf: "\<not> flagged ac2 REDIS_FREEING" using i(4) same s(6) by simp
  have D: "deliver (Obj (addr tr)) cbx ac1 w0 = Some (Inr (ac2, w3))"
    using r(1) f(1) nf by (cases "cb_fn cbx") (simp_all add: deliver_def w3_def redisRunCallback_def)
  have "handle_reply (Obj (addr tr)) cb ac0 w0 = Some (Inr (cbx, ac2, w3))"
    using q(1) D by (simp add: handle_reply_def delivered_def ac1_def)
  then have "process_replies cb ac w = process_replies cbx ac2 w3"
    using G by (subst process_replies.simps) (simp add: ac0_def w0_def)
  moreover have "serving ac2 w3 base (xs @ new) (s @ concat (map command_of wss)) [] (-1) rest"
    unfolding serving_def using i same s(6) f(2) d(4) by (simp add: w3_def ac1_def ac0_def)
  moreover have "same_socket ac w ac2 w3"
    using i(4,5,10,11) same by (simp add: same_socket_def w3_def w0_def ac1_def ac0_def d(1,2))
  moreover have "reply_events (w_log w3) = reply_events (w_log w) @ answer_event x (Obj (addr tr)) m"
    using i(9) by (simp add: w3_def w0_def)
  moreover have "shows_reply m (Some (Obj (addr tr))) (Some v)"
    using mem_is_cells [OF d(8)] d(5) unfolding shows_reply_def option.case by blast
  moreover have "length new = length wss" using r(2) by (simp add: issued_def)
  ultimately show ?thesis using r(3) by blast
qed

lemma serving_wait:
  assumes "serving ac w base xs s afs ty inp" "arun afs ty inp = OWait gs ty' x"
  shows "\<exists>ac1 w1. process_replies cb ac w = Some (Some ac1, w1) \<and> w_log w1 = w_log w \<and> same_socket ac w ac1 w1
    \<and> serving ac1 w1 base xs s gs ty' x"
proof -
  let ?c = "ac_c ac" and ?y = "w_sys w"
  have s: "queue_is (ac_replies ac) xs" "obuf_is ?c s" "reader_at ?c ?y base afs ty inp" "None \<notin> set (y_al ?y)" "rc_err ?c = 0"
    "\<forall>f \<in> {REDIS_BLOCK, REDIS_SUBSCRIBED, REDIS_MONITORING, REDIS_DISCONNECTING, REDIS_FREEING, REDIS_IN_CALLBACK}. \<not> flagged ac f"
    using assms(1) unfolding serving_def by blast+
  obtain st ob c' y' where g: "redisGetReplyFromReader ?c ?y = Some (st, ob, c', y')" "got ?c ?y base (OWait gs ty' x) st ob c' y'"
    using redisGetReplyFromReader_spec [OF s(3)] unfolding assms(2) by auto
  then obtain r e es m where d: "c' = ?c\<lparr>rc_reader := r, rc_err := e, rc_errstr := es\<rparr>" "y' = ?y\<lparr>y_mem := m\<rparr>"
    "st = REDIS_OK" "ob = None" "reader_at c' y' base gs ty' x" "rc_err c' = rc_err ?c" by (auto simp: got_def)
  have "redisGetReply ?c ?y = Some (REDIS_OK, None, c', y')"
    using redisGetReply_nonblocking [OF _ g(1) [unfolded d(3)]] s(6) d(1,4) by (simp add: flagged_def)
  moreover have "no_reply cb (ac\<lparr>ac_c := c'\<rparr>) (w\<lparr>w_sys := y'\<rparr>) = Some (Some (ac\<lparr>ac_c := c'\<rparr>), w\<lparr>w_sys := y'\<rparr>)"
    using s(6) by (simp add: no_reply_def flagged_def has_flag_def d(1))
  ultimately have "process_replies cb ac w = Some (Some (ac\<lparr>ac_c := c'\<rparr>), w\<lparr>w_sys := y'\<rparr>)"
    by (subst process_replies.simps) simp
  moreover have "serving (ac\<lparr>ac_c := c'\<rparr>) (w\<lparr>w_sys := y'\<rparr>) base xs s gs ty' x"
    unfolding serving_def using s d by (simp add: flagged_def has_flag_def obuf_is_def)
  moreover have "same_socket ac w (ac\<lparr>ac_c := c'\<rparr>) (w\<lparr>w_sys := y'\<rparr>)"
    by (simp add: same_socket_def flagged_def has_flag_def d(1,2))
  ultimately show ?thesis by (intro exI [where x = "ac\<lparr>ac_c := c'\<rparr>"] exI [where x = "w\<lparr>w_sys := y'\<rparr>"]) simp
qed

text \<open>What the bytes that have arrived hold: these replies, and then the beginning of another one.\<close>

fun holds_replies ::
  "(reply list \<times> nat) list \<Rightarrow> int \<Rightarrow> string \<Rightarrow> reply list \<Rightarrow> (reply list \<times> nat) list \<Rightarrow> int \<Rightarrow> string \<Rightarrow> bool" where
  "holds_replies afs ty inp [] gs t x = (arun afs ty inp = OWait gs t x)"
| "holds_replies afs ty inp (v # vs) gs t x = (\<exists>rest. arun afs ty inp = ODone v rest \<and> holds_replies [] (-1) rest vs gs t x)"

lemma holds_replies_enc:
  "list_all (resp_ok 0) ts \<Longrightarrow> arun [] (-1) x = OWait gs t y \<Longrightarrow> holds_replies [] (-1) (concat (map enc ts) @ x) (map val_of ts) gs t y"
proof (induction ts)
  case (Cons u ts)
  then show ?case using arun_enc [of "[]" u "concat (map enc ts) @ x"] by simp
qed simp

lemma process_replies_serving:
  assumes "serving ac w base xs s afs ty inp" "holds_replies afs ty inp vs gs t x" "length vs \<le> length xs"
    "frugal_user w n" "length s + length vs * n + 1 < 2 ^ 31"
  shows "\<exists>ac' w' new wss evs. process_replies cb ac w = Some (Some ac', w') \<and> reply_events (w_log w') = reply_events (w_log w) @ evs
    \<and> reply_calls xs vs evs \<and> length new = length wss \<and> length (concat (map command_of wss)) \<le> length vs * n \<and> same_socket ac w ac' w'
    \<and> serving ac' w' base (drop (length vs) xs @ new) (s @ concat (map command_of wss)) gs t x"
  using assms
proof (induction vs arbitrary: ac w xs s afs ty inp cb)
  case Nil
  then obtain ac1 w1 where "process_replies cb ac w = Some (Some ac1, w1)" "w_log w1 = w_log w" "same_socket ac w ac1 w1"
    "serving ac1 w1 base xs s gs t x" using serving_wait [OF Nil.prems(1), of gs t x cb] by auto
  then show ?case
    by (intro exI [where x = ac1] exI [where x = w1] exI [where x = "[]"] exI [where x = "[]"] exI [where x = "[]"]) simp
next
  case (Cons v vs)
  obtain x1 xs1 where xs: "xs = x1 # xs1" using Cons.prems(3) by (cases xs) auto
  obtain rest where r: "arun afs ty inp = ODone v rest" "holds_replies [] (-1) rest vs gs t x" using Cons.prems(2) by auto
  have l: "length s + n + 1 < 2 ^ 31" using Cons.prems(5) by simp
  obtain ac1 w1 ob m new wss cb1 where 1: "process_replies cb ac w = process_replies cb1 ac1 w1"
    "serving ac1 w1 base (xs1 @ new) (s @ concat (map command_of wss)) [] (-1) rest" "same_socket ac w ac1 w1"
    "reply_events (w_log w1) = reply_events (w_log w) @ answer_event x1 ob m" "shows_reply m (Some ob) (Some v)"
    "length new = length wss" "length (concat (map command_of wss)) \<le> n"
    using serving_step [OF Cons.prems(1) [unfolded xs] r(1) Cons.prems(4) l] by metis
  have "length vs \<le> length (xs1 @ new)" using Cons.prems(3) by (simp add: xs)
  moreover have "frugal_user w1 n" using Cons.prems(4) 1(3) by (simp add: frugal_user_def same_socket_def)
  moreover have "length (s @ concat (map command_of wss)) + length vs * n + 1 < 2 ^ 31"
    using Cons.prems(5) 1(7) unfolding length_append by simp
  ultimately obtain ac2 w2 new2 wss2 evs where 2: "process_replies cb1 ac1 w1 = Some (Some ac2, w2)"
    "reply_events (w_log w2) = reply_events (w_log w1) @ evs" "reply_calls (xs1 @ new) vs evs" "length new2 = length wss2"
    "length (concat (map command_of wss2)) \<le> length vs * n" "same_socket ac1 w1 ac2 w2"
    "serving ac2 w2 base (drop (length vs) (xs1 @ new) @ new2) ((s @ concat (map command_of wss)) @ concat (map command_of wss2)) gs t x"
    using Cons.IH [OF 1(2) r(2), where cb = cb1] by blast
  have v: "length vs \<le> length xs1" using Cons.prems(3) by (simp add: xs)
  have "reply_calls (xs1 @ ys) vs evs \<Longrightarrow> length vs \<le> length xs1 \<Longrightarrow> reply_calls xs1 vs evs" for xs1 ys vs evs
    by (induction xs1 vs evs rule: reply_calls.induct) auto
  then have "reply_calls xs1 vs evs" using 2(3) v by blast
  then have "reply_calls xs (v # vs) (answer_event x1 ob m @ evs)"
    unfolding xs reply_calls.simps using 1(5) by (intro exI [where x = ob] exI [where x = m] exI [where x = evs]) simp
  moreover have "drop (length (v # vs)) xs @ (new @ new2) = drop (length vs) (xs1 @ new) @ new2" using v by (simp add: xs)
  moreover have "length (concat (map command_of (wss @ wss2))) \<le> length (v # vs) * n"
    using 1(7) 2(5) unfolding map_append concat_append length_append by simp
  moreover have "s @ concat (map command_of (wss @ wss2)) = (s @ concat (map command_of wss)) @ concat (map command_of wss2)"
    unfolding map_append concat_append append_assoc by (rule refl)
  moreover have "same_socket ac w ac2 w2" using 1(3) 2(6) by (simp add: same_socket_def)
  ultimately show ?case using 1(1,4,6) 2(1,2,4,7)
    by (intro exI [where x = ac2] exI [where x = w2] exI [where x = "new @ new2"] exI [where x = "wss @ wss2"]
        exI [where x = "answer_event x1 ob m @ evs"] conjI) (simp_all only: length_append append_assoc)
qed

section \<open>Reading in pieces\<close>

lemma redisBufferRead_data:
  assumes "rc_err c = 0" "reader_at c y base afs ty rest" "None \<notin> set (y_al y)" "y_reads y (rc_fd c) = RData d # rs" "d \<noteq> []"
    "length d \<le> 1024 * 16" "length (rest @ d) + 1024 < 2 ^ 31"
  shows "\<exists>r al. redisBufferRead c y = Some (REDIS_OK, c\<lparr>rc_reader := Some r\<rparr>, y\<lparr>y_reads := (y_reads y)(rc_fd c := rs), y_al := al\<rparr>)
    \<and> None \<notin> set al \<and> reader_at (c\<lparr>rc_reader := Some r\<rparr>) (y\<lparr>y_reads := (y_reads y)(rc_fd c := rs), y_al := al\<rparr>) base afs ty (rest @ d)"
proof -
  define y1 where "y1 = y\<lparr>y_reads := (y_reads y)(rc_fd c := rs)\<rparr>"
  have s: "sock_read (rc_fd c) (1024 * 16) y = (int (length d), d, y1)" using assms(4,6) by (simp add: sock_read_def y1_def)
  have "reader_at c y1 base afs ty rest" by (rule reader_at_cong [OF assms(2)]) (simp_all add: y1_def)
  moreover have "None \<notin> set (y_al y1)" using assms(3) by (simp add: y1_def)
  ultimately obtain r al where f: "feed_context c d (length d) y1 = Some (REDIS_OK, c\<lparr>rc_reader := Some r\<rparr>, y1\<lparr>y_al := al\<rparr>)"
    "None \<notin> set al" "reader_at (c\<lparr>rc_reader := Some r\<rparr>) (y1\<lparr>y_al := al\<rparr>) base afs ty (rest @ d)"
    using feed_context_spec [of c y1 base afs ty rest "length d" d] assms(7) by auto
  have "redisBufferRead c y = Some (REDIS_OK, c\<lparr>rc_reader := Some r\<rparr>, y1\<lparr>y_al := al\<rparr>)"
    using assms(1,5,6) s f(1) by (simp add: redisBufferRead_def Let_def)
  then show ?thesis using f(2,3) unfolding y1_def by blast
qed

lemma holds_replies_split:
  "holds_replies afs ty (d @ z) vs gs t x \<Longrightarrow> \<exists>vs1 vs2 gs1 t1 x1. vs = vs1 @ vs2 \<and> holds_replies afs ty d vs1 gs1 t1 x1
     \<and> holds_replies gs1 t1 (x1 @ z) vs2 gs t x"
proof (induction vs arbitrary: afs ty d)
  case Nil
  then obtain gs1 t1 x1 where "arun afs ty d = OWait gs1 t1 x1" using arun_append [of afs ty d z] by (auto split: outcome.splits)
  then show ?case using Nil arun_append [of afs ty d z]
    by (intro exI [where x = "[]"] exI [where x = gs1] exI [where x = t1] exI [where x = x1]) simp
next
  case (Cons v vs)
  then obtain rest where r: "arun afs ty (d @ z) = ODone v rest" "holds_replies [] (-1) rest vs gs t x" by auto
  show ?case
  proof (cases "arun afs ty d")
    case (OWait gs1 t1 x1)
    then show ?thesis using Cons.prems arun_append [of afs ty d z]
      by (intro exI [where x = "[]"] exI [where x = "v # vs"] exI [where x = gs1] exI [where x = t1] exI [where x = x1]) simp
  next
    case (ODone u r1)
    then have "u = v" "rest = r1 @ z" using r(1) arun_append [of afs ty d z] by auto
    moreover from this obtain vs1 vs2 gs1 t1 x1 where "vs = vs1 @ vs2" "holds_replies [] (-1) r1 vs1 gs1 t1 x1"
      "holds_replies gs1 t1 (x1 @ z) vs2 gs t x" using Cons.IH r(2) by blast
    ultimately show ?thesis using ODone
      by (intro exI [where x = "v # vs1"] exI [where x = vs2] exI [where x = gs1] exI [where x = t1] exI [where x = x1]) simp
  qed (use r(1) arun_append [of afs ty d z] in simp_all)
qed

fun handle_reads :: "nat \<Rightarrow> redisAsyncContext \<Rightarrow> world \<Rightarrow> ac_rest" where
  \<comment> \<open>the event loop: the descriptor is readable that many times\<close>
  "handle_reads 0 ac w = Some (Some ac, w)"
| "handle_reads (Suc k) ac w =
     (case redisAsyncHandleRead ac w of
        None \<Rightarrow> None
      | Some (None, w) \<Rightarrow> Some (None, w)
      | Some (Some ac, w) \<Rightarrow> handle_reads k ac w)"

lemma handle_read_serving:
  assumes "serving ac w base xs s afs ty rest" "flagged ac REDIS_CONNECTED" "y_reads (w_sys w) (rc_fd (ac_c ac)) = RData d # rs"
    "d \<noteq> []" "length d \<le> 1024 * 16" "length (rest @ d) + 1024 < 2 ^ 31"
  shows "\<exists>ac1 w1. redisAsyncHandleRead ac w = redisProcessCallbacks ac1 w1 \<and> serving ac1 w1 base xs s afs ty (rest @ d)
    \<and> reply_events (w_log w1) = reply_events (w_log w) \<and> w_user w1 = w_user w \<and> rc_fd (ac_c ac1) = rc_fd (ac_c ac)
    \<and> y_reads (w_sys w1) = (y_reads (w_sys w))(rc_fd (ac_c ac) := rs) \<and> (\<forall>f. flagged ac1 f = flagged ac f)"
proof -
  have s: "rc_err (ac_c ac) = 0" "reader_at (ac_c ac) (w_sys w) base afs ty rest" "None \<notin> set (y_al (w_sys w))"
    using assms(1) by (simp_all add: serving_def)
  obtain r al where b: "redisBufferRead (ac_c ac) (w_sys w) = Some (REDIS_OK, (ac_c ac)\<lparr>rc_reader := Some r\<rparr>,
      (w_sys w)\<lparr>y_reads := (y_reads (w_sys w))(rc_fd (ac_c ac) := rs), y_al := al\<rparr>)" "None \<notin> set al"
    "reader_at ((ac_c ac)\<lparr>rc_reader := Some r\<rparr>) ((w_sys w)\<lparr>y_reads := (y_reads (w_sys w))(rc_fd (ac_c ac) := rs), y_al := al\<rparr>) base afs ty (rest @ d)"
    using redisBufferRead_data [OF s assms(3-6)] by blast
  define ac1 where "ac1 = ac\<lparr>ac_c := (ac_c ac)\<lparr>rc_reader := Some r\<rparr>\<rparr>"
  define w0 where "w0 = w\<lparr>w_sys := (w_sys w)\<lparr>y_reads := (y_reads (w_sys w))(rc_fd (ac_c ac) := rs), y_al := al\<rparr>\<rparr>"
  define w1 where "w1 = el ForceAddRead ac1 w0"
  have f: "flagged ac1 f = flagged ac f" for f by (simp add: ac1_def flagged_def has_flag_def)
  have "redisAsyncHandleRead ac w = map_option (\<lambda>x. x) (redisProcessCallbacks ac1 w1)"
    unfolding redisAsyncHandleRead_def when_connected_def do_read_def using assms(2) b(1)
    by (simp add: ac1_def w1_def w0_def option.map_comp comp_def case_prod_beta Let_def)
  then have "redisAsyncHandleRead ac w = redisProcessCallbacks ac1 w1" by (simp add: option.map_ident)
  moreover have w: "w_sys w1 = w_sys w0" "w_user w1 = w_user w" "reply_events (w_log w1) = reply_events (w_log w)"
    by (simp_all add: w1_def w0_def el_def log_def)
  moreover have "serving ac1 w1 base xs s afs ty (rest @ d)"
    unfolding serving_def f w(1) using assms(1) b(2,3) by (simp add: serving_def ac1_def w0_def obuf_is_def)
  ultimately show ?thesis using f by (intro exI [where x = ac1] exI [where x = w1]) (simp add: ac1_def w0_def)
qed

lemma arun_settled: "arun fs ty s = OWait gs t r \<Longrightarrow> arun gs t r = OWait gs t r"
  using arun_append [of fs ty s "[]"] by simp

lemma holds_replies_settled: "holds_replies fs ty s vs gs t r \<Longrightarrow> arun gs t r = OWait gs t r"
  by (induction vs arbitrary: fs ty s) (auto intro: arun_settled)

lemma holds_replies_length: "holds_replies fs ty s vs gs t r \<Longrightarrow> length r \<le> length s"
proof (induction vs arbitrary: fs ty s)
  case Nil
  then show ?case using arun_length [where fs = fs and ty = ty and s = s] by simp
next
  case (Cons v vs)
  then obtain u where "arun fs ty s = ODone v u" "holds_replies [] (-1) u vs gs t r" by auto
  then show ?case using arun_length [where fs = fs and ty = ty and s = s] Cons.IH by fastforce
qed

lemma reply_calls_append:
  "reply_calls xs vs e1 \<Longrightarrow> reply_calls (drop (length vs) xs) us e2 \<Longrightarrow> reply_calls xs (vs @ us) (e1 @ e2)"
proof (induction xs vs e1 rule: reply_calls.induct)
  case (3 x xs v vs evs)
  then obtain ob m e' where "evs = answer_event x ob m @ e'" "shows_reply m (Some ob) (Some v)" "reply_calls xs vs e'" by auto
  moreover from this have "reply_calls xs (vs @ us) (e' @ e2)" using 3 by simp
  ultimately show ?case by (auto simp only: append_Cons reply_calls.simps append_assoc)
qed auto

lemma reply_calls_prefix: "reply_calls (xs @ ys) vs evs \<Longrightarrow> length vs \<le> length xs \<Longrightarrow> reply_calls xs vs evs"
  by (induction xs vs evs rule: reply_calls.induct) auto

lemma reply_calls_length: "reply_calls xs vs evs \<Longrightarrow> length vs \<le> length xs"
  by (induction xs vs evs rule: reply_calls.induct) auto

lemma handle_reads_serving:
  assumes "serving ac w base xs s afs ty rest" "flagged ac REDIS_CONNECTED"
    "y_reads (w_sys w) (rc_fd (ac_c ac)) = map RData ds @ rs" "\<forall>d \<in> set ds. d \<noteq> [] \<and> length d \<le> 1024 * 16"
    "length (rest @ concat ds) + 1024 < 2 ^ 31" "holds_replies afs ty (rest @ concat ds) vs gs t x" "arun afs ty rest = OWait afs ty rest"
    "length vs \<le> length xs" "frugal_user w n" "length s + length vs * n + 1 < 2 ^ 31"
  shows "\<exists>ac' w' new wss evs. handle_reads (length ds) ac w = Some (Some ac', w')
    \<and> reply_events (w_log w') = reply_events (w_log w) @ evs \<and> reply_calls xs vs evs
    \<and> length new = length wss \<and> serving ac' w' base (drop (length vs) xs @ new) (s @ concat (map command_of wss)) gs t x"
  using assms
proof (induction ds arbitrary: ac w xs s afs ty rest vs)
  case Nil
  then have "vs = [] \<and> gs = afs \<and> t = ty \<and> x = rest" by (cases vs) auto
  then show ?case using Nil.prems(1)
    by (intro exI [where x = ac] exI [where x = w] exI [where x = "[]"] exI [where x = "[]"] exI [where x = "[]"]) simp
next
  case (Cons d ds)
  let ?fd = "rc_fd (ac_c ac)"
  have h: "y_reads (w_sys w) ?fd = RData d # (map RData ds @ rs)" using Cons.prems(3) by simp
  have dl: "d \<noteq> []" "length d \<le> 1024 * 16" using Cons.prems(4) by simp_all
  have ll: "length (rest @ d) + 1024 < 2 ^ 31" using Cons.prems(5) by simp
  obtain ac1 w1 where 1: "redisAsyncHandleRead ac w = redisProcessCallbacks ac1 w1" "serving ac1 w1 base xs s afs ty (rest @ d)"
    "reply_events (w_log w1) = reply_events (w_log w)" "w_user w1 = w_user w" "rc_fd (ac_c ac1) = ?fd"
    "y_reads (w_sys w1) = (y_reads (w_sys w))(?fd := map RData ds @ rs)" "\<forall>f. flagged ac1 f = flagged ac f"
    using handle_read_serving [OF Cons.prems(1,2) h dl ll] by (elim exE conjE) (rule that; assumption)
  have hv: "holds_replies afs ty ((rest @ d) @ concat ds) vs gs t x" using Cons.prems(6) by simp
  obtain v1 v2 gs1 t1 x1 where v: "vs = v1 @ v2" "holds_replies afs ty (rest @ d) v1 gs1 t1 x1"
    "holds_replies gs1 t1 (x1 @ concat ds) v2 gs t x" using holds_replies_split [OF hv] by (elim exE conjE) (rule that; assumption)
  have n1: "length v1 \<le> length xs" "frugal_user w1 n" "length s + length v1 * n + 1 < 2 ^ 31"
    using Cons.prems(8-10) 1(4) by (simp_all add: v(1) frugal_user_def add_mult_distrib)
  obtain ac2 w2 new wss e1 where 2: "redisProcessCallbacks ac1 w1 = Some (Some ac2, w2)"
    "reply_events (w_log w2) = reply_events (w_log w1) @ e1" "reply_calls xs v1 e1" "length new = length wss"
    "length (concat (map command_of wss)) \<le> length v1 * n" "same_socket ac1 w1 ac2 w2"
    "serving ac2 w2 base (drop (length v1) xs @ new) (s @ concat (map command_of wss)) gs1 t1 x1"
    using process_replies_serving [OF 1(2) v(2) n1] unfolding redisProcessCallbacks_def by blast
  have "flagged ac2 REDIS_CONNECTED" "y_reads (w_sys w2) (rc_fd (ac_c ac2)) = map RData ds @ rs" "frugal_user w2 n"
    using 2(6) 1(5-7) Cons.prems(2) n1(2) by (simp_all add: same_socket_def frugal_user_def)
  moreover have "\<forall>d \<in> set ds. d \<noteq> [] \<and> length d \<le> 1024 * 16" using Cons.prems(4) by simp
  moreover have "length (x1 @ concat ds) + 1024 < 2 ^ 31" using holds_replies_length [OF v(2)] Cons.prems(5) by simp
  moreover have "arun gs1 t1 x1 = OWait gs1 t1 x1" using holds_replies_settled [OF v(2)] .
  moreover have "length v2 \<le> length (drop (length v1) xs @ new)" using Cons.prems(8) by (simp add: v(1))
  moreover have "length (s @ concat (map command_of wss)) + length v2 * n + 1 < 2 ^ 31"
    using Cons.prems(10) 2(5) unfolding v(1) length_append add_mult_distrib by linarith
  ultimately obtain ac3 w3 new2 wss2 e2 where 3: "handle_reads (length ds) ac2 w2 = Some (Some ac3, w3)"
    "reply_events (w_log w3) = reply_events (w_log w2) @ e2" "reply_calls (drop (length v1) xs @ new) v2 e2"
    "length new2 = length wss2"
    "serving ac3 w3 base (drop (length v2) (drop (length v1) xs @ new) @ new2)
       ((s @ concat (map command_of wss)) @ concat (map command_of wss2)) gs t x"
    using Cons.IH [OF 2(7) _ _ _ _ v(3)] by metis
  have lv: "length v2 \<le> length (drop (length v1) xs)" using Cons.prems(8) by (simp add: v(1))
  have "reply_calls xs vs (e1 @ e2)"
    unfolding v(1) by (rule reply_calls_append [OF 2(3) reply_calls_prefix [OF 3(3) lv]])
  moreover have "drop (length v2) (drop (length v1) xs @ new) @ new2 = drop (length vs) xs @ (new @ new2)"
    using lv by (simp add: v(1) add.commute)
  moreover have "(s @ concat (map command_of wss)) @ concat (map command_of wss2) = s @ concat (map command_of (wss @ wss2))"
    unfolding map_append concat_append append_assoc by (rule refl)
  moreover have "handle_reads (length (d # ds)) ac w = Some (Some ac3, w3)" using 1(1) 2(1) 3(1) by simp
  ultimately show ?case using 1(3) 2(2,4) 3(2,4,5)
    by (intro exI [where x = ac3] exI [where x = w3] exI [where x = "new @ new2"] exI [where x = "wss @ wss2"]
        exI [where x = "e1 @ e2"] conjI) (simp_all only: length_append append_assoc)
qed

end
