(* ===== verification/AsyncGuarantees.thy ===== *)
theory AsyncGuarantees
  imports AsyncProof
begin

text \<open>
  The guarantees of the asynchronous context: what its end does, how replies and messages of
  channels reach the callbacks, what a subscription leaves, and where a clean disconnection fails.
\<close>

section \<open>A context between events\<close>

definition holds_callbacks ::
  "redisAsyncContext \<Rightarrow> world \<Rightarrow> heap \<Rightarrow> (nat option \<times> nat) list \<Rightarrow> (nat option \<times> nat) list \<Rightarrow> bool" where
  \<comment> \<open>outside of callbacks: those that wait for replies, those of commands sent while subscribed, the
     tables with a name and a copy of its own for each of their entries, the reader with what it holds\<close>
  "holds_callbacks ac w base xs ys \<longleftrightarrow> \<not> flagged ac REDIS_IN_CALLBACK \<and> None \<notin> set (y_al (w_sys w))
     \<and> queue_is (ac_replies ac) xs \<and> queue_is (ac_invalid ac) ys
     \<and> callback_table (ac_channels ac) \<and> callback_table (ac_patterns ac)
     \<and> owned (entries (ac_channels ac) + entries (ac_patterns ac)) (w_cm w)
     \<and> frees_reader (ac_c ac) (w_sys w) base"

lemma reader_at_frees: "reader_at c y base fs ty rest \<Longrightarrow> frees_reader c y base"
proof -
  assume "reader_at c y base fs ty rest"
  then obtain r where r: "rc_reader c = Some r" "rstate r (y_mem y) base fs ty rest" by (auto simp: reader_at_def)
  obtain m where "redisReaderFree r (y_mem y) = Some m" "mem_is m base []" using redisReaderFree_rstate [OF r(2)] by blast
  then show ?thesis using r(1) by (auto simp: frees_reader_def mem_is_def heap_is_def)
qed

lemma flag_on_simps [simp]:
  "ac_replies (flag_on f ac) = ac_replies ac" "ac_invalid (flag_on f ac) = ac_invalid ac" "ac_channels (flag_on f ac) = ac_channels ac"
  "ac_patterns (flag_on f ac) = ac_patterns ac" "ac_onDisconnect (flag_on f ac) = ac_onDisconnect ac" "ac_err (flag_on f ac) = ac_err ac"
  "rc_fd (ac_c (flag_on f ac)) = rc_fd (ac_c ac)" "rc_reader (ac_c (flag_on f ac)) = rc_reader (ac_c ac)"
  "rc_obuf (ac_c (flag_on f ac)) = rc_obuf (ac_c ac)" "rc_err (ac_c (flag_on f ac)) = rc_err (ac_c ac)"
  by (simp_all add: flag_on_def set_flag_def)

lemma redisAsyncFree_ended:
  assumes "holds_callbacks ac w base xs ys" "sound_user w"
  shows "\<exists>w'. redisAsyncFree ac w = Some (None, w') \<and> ended (flag_on REDIS_FREEING ac) w base xs ys w'"
proof -
  let ?a = "flag_on REDIS_FREEING ac"
  have f: "flagged ?a (REDIS_DISCONNECTING OR REDIS_FREEING)" "\<not> flagged ?a REDIS_IN_CALLBACK"
    using assms(1) by (simp_all add: holds_callbacks_def flagged_on flag_defs)
  then have "closing ?a w" using assms by (simp add: closing_def holds_callbacks_def)
  moreover have "frees_reader (ac_c ?a) (w_sys w) base" using assms(1) by (simp add: holds_callbacks_def frees_reader_def)
  ultimately obtain w' where "async_free ?a w = Some w'" "ended ?a w base xs ys w'"
    using async_free_ended [of ?a w xs ys base] assms(1) by (auto simp: holds_callbacks_def)
  then show ?thesis using f(2) by (simp add: redisAsyncFree_def)
qed

definition test_world :: "sock_read list \<Rightarrow> (nat \<Rightarrow> obj option \<Rightarrow> nat \<Rightarrow> mem \<Rightarrow> event list \<Rightarrow> prog) \<Rightarrow> world" where
  "test_world rs us = \<lparr>w_sys = test_sys rs [], w_cm = \<lparr>cm_al = [], cm_keys = {#}, cm_vals = {#}\<rparr>, w_log = [], w_user = us,
     w_connect = (\<lambda>_ _ _ y. (0, y))\<rparr>"

lemma queue_empty: "queue_is empty_list []"
  by (simp add: queue_is_def empty_list_def)

lemma test_async:
  "\<exists>ac w. serving ac w Map.empty [] [] [] (-1) [] \<and> holds_callbacks ac w Map.empty [] [] \<and> flagged ac REDIS_CONNECTED
     \<and> rc_fd (ac_c ac) = 3 \<and> y_reads (w_sys w) 3 = rs \<and> w_user w = us \<and> w_log w = []
     \<and> (\<exists>al. w = set_al al (test_world rs us)) \<and> dt_used (ac_channels ac) = 0 \<and> dt_used (ac_patterns ac) = 0"
proof -
  have t: "None \<notin> set (y_al (test_sys rs []))" "None \<notin> set (m_al (y_mem (test_sys rs [])))" "mem_is (y_mem (test_sys rs [])) Map.empty []"
    "\<forall>e. WFail e \<in> set (y_writes (test_sys rs []) 3) \<longrightarrow> e = EINTR" by (simp_all add: test_sys_def)
  obtain c al where c: "redisContextInit (test_sys rs []) = Some (Some c, (test_sys rs [])\<lparr>y_al := al\<rparr>)"
    "conn (set_flag (c\<lparr>rc_fd := 3\<rparr>) REDIS_BLOCK) ((test_sys rs [])\<lparr>y_al := al\<rparr>) Map.empty [] [] (-1) []"
    using redisContextInit_conn [OF t] by blast
  define c3 where "c3 = c\<lparr>rc_fd := 3\<rparr>"
  have fl: "rc_flags c = 0" using c(1) by (auto simp: redisContextInit_def split: option.splits prod.splits bind_splits)
  define y where "y = (test_sys rs [])\<lparr>y_al := al\<rparr>"
  have cc: "rc_err c3 = 0" "obuf_is c3 []" "reader_at c3 y Map.empty [] (-1) []" "None \<notin> set al"
    using c(2) unfolding conn_def y_def c3_def by (simp_all add: set_flag_def obuf_is_def reader_at_def)
  define w where "w = set_al al (test_world rs us)"
  have w: "w_sys w = y" by (simp add: w_def set_al_def test_world_def y_def)
  obtain f al1 where a: "alloc_next al = (Some f, al1)" "None \<notin> set al1" using alloc_next_ok [OF cc(4)] .
  obtain d1 al2 where d1: "dictCreate callbackDict 0 al1 = Some (d1, al2)" "dict_ok d1" "dt_type d1 = callbackDict" "dt_used d1 = 0" "None \<notin> set al2"
    by (rule dictCreate_spec [OF a(2), of callbackDict 0]) auto
  define ac where "ac = \<lparr>ac_c = c3\<lparr>rc_flags := REDIS_CONNECTED\<rparr>, ac_err = 0, ac_errstr = False, ac_data = None, ac_ev = (\<lambda>_. False),
     ac_onDisconnect = None, ac_onConnect = None, ac_replies = empty_list, ac_invalid = empty_list, ac_channels = d1, ac_patterns = d1\<rparr>"
  have e: "entries d1 = {#}" using d1(2,4) by (simp add: dict_ok_def)
  have "serving ac w Map.empty [] [] [] (-1) []"
    unfolding serving_def w using cc queue_empty by (simp add: ac_def flagged_def has_flag_def flag_defs obuf_is_def reader_at_def y_def)
  moreover have "frees_reader (ac_c ac) y Map.empty" using reader_at_frees [OF cc(3)] by (simp add: ac_def frees_reader_def)
  then have "holds_callbacks ac w Map.empty [] []"
    unfolding holds_callbacks_def w using cc queue_empty d1 by (simp add: ac_def flagged_def has_flag_def flag_defs y_def callback_table_def e)
  moreover have "flagged ac REDIS_CONNECTED" by (simp add: ac_def flagged_def has_flag_def flag_defs)
  moreover have "rc_fd (ac_c ac) = 3" "y_reads (w_sys w) 3 = rs" "w_user w = us" "w_log w = []"
    "dt_used (ac_channels ac) = 0" "dt_used (ac_patterns ac) = 0"
    using d1 by (simp_all add: ac_def w_def c3_def set_al_def test_world_def test_sys_def)
  ultimately show ?thesis using w_def by blast
qed

lemma spells_ping: "spells (''PING'', []) [''PING'']"
proof -
  have "fmt_words (words_format [[PChar CHR ''P'', PChar CHR ''I'', PChar CHR ''N'', PChar CHR ''G'']] @ [NUL]) [] False []
        (concat (map word_args [[PChar CHR ''P'', PChar CHR ''I'', PChar CHR ''N'', PChar CHR ''G'']])) = Some (True, [] @ [''PING''])"
    by (subst fmt_words_format; simp add: word_text_def)
  then show ?thesis by (simp add: spells_def word_format_def word_args_def)
qed

lemma ping_issues: "issues (ACommand fn pd ''PING'' []) [''PING'']"
proof -
  have "lower (base_word ''PING'') = ''ing''" by code_simp
  then have "\<not> special [''PING'']" unfolding special_def list.sel by (simp only: list.inject char.inject simp_thms) simp
  moreover have "length (command_of [''PING'']) + 1 < 2 ^ 31" by (simp add: dec_nat_small)
  moreover have "CR \<notin> set ''PING''" by simp
  ultimately show ?thesis using spells_ping unfolding issues_def api.case list.sel by blast
qed

section \<open>What the asynchronous context guarantees\<close>

lemma holds_callbacks_issued:
  assumes "issued [] xs s new wss ac w ac' w'" "holds_callbacks ac w base xs ys"
  shows "holds_callbacks ac' w' base (xs @ new) ys"
proof -
  note i = issued_after [OF assms(1)]
  have "ac_invalid ac' = ac_invalid ac" "ac_channels ac' = ac_channels ac" "ac_patterns ac' = ac_patterns ac" "w_cm w' = w_cm w"
    by (rule issuedE [OF assms(1)]; simp)+
  then show ?thesis using i assms(2) unfolding holds_callbacks_def by (simp add: frees_reader_def)
qed

lemma ping_issued:
  assumes "serving ac w base [] [] [] (-1) []"
  shows "\<exists>ac' w'. redisAsyncCommand ac (Some 7) 0 ''PING'' [] w = Some (REDIS_OK, ac', w')
    \<and> issued [] [] [] [(Some 7, 0)] [[''PING'']] ac w ac' w'"
proof -
  have "\<forall>f \<in> {REDIS_SUBSCRIBED, REDIS_DISCONNECTING, REDIS_FREEING}. \<not> flagged ac f" "queue_is (ac_replies ac) []"
    "obuf_is (ac_c ac) []" "None \<notin> set (y_al (w_sys w))" using assms by (simp_all add: serving_def)
  moreover have "length [] + length (command_of [''PING'']) + 1 < 2 ^ 31" by (simp add: dec_nat_small)
  ultimately show ?thesis using act_issues [OF ping_issues [of "Some 7" 0]] unfolding act.simps api_key.simps by blast
qed

text \<open>
  C30: freeing a context outside of callbacks succeeds, whatever functions of this file the callbacks
  call, as long as the commands they issue are well formed (\<open>sound_user\<close>; an invalid format meets the
  error of line 729) and no allocation fails: every callback that waits for a reply, then every callback of a command sent while subscribed, then every
  callback of a channel and of a pattern is called exactly once, in this order, with a NULL reply;
  both tables release all their names and copies of callbacks, the partial reply of the reader is
  released, the descriptor is closed once, nothing is sent, and a connected context ends with its
  callback for disconnections, which sees \<open>REDIS_OK\<close>.
\<close>
theorem free_runs_every_callback:
  assumes "holds_callbacks ac w base xs ys" "sound_user w"
  shows "\<exists>w'. redisAsyncFree ac w = Some (None, w')
    \<and> reply_events (w_log w') = reply_events (w_log w) @ null_calls (xs @ ys)
         @ entry_calls (chains (ac_channels ac) @ chains (ac_patterns ac))
    \<and> w_cm w' = spare (entries (ac_channels ac) + entries (ac_patterns ac)) (w_cm w)
    \<and> m_cells (y_mem (w_sys w')) = base
    \<and> y_calls (w_sys w') = (if rc_fd (ac_c ac) > 0 then [CClose (rc_fd (ac_c ac))] else []) @ y_calls (w_sys w)
    \<and> y_sent (w_sys w') = y_sent (w_sys w)
    \<and> (\<forall>fn. ac_onDisconnect ac = Some fn \<and> flagged ac REDIS_CONNECTED \<longrightarrow> last (w_log w') = EvDisconnect fn REDIS_OK)"
proof -
  obtain w' where w': "redisAsyncFree ac w = Some (None, w')" "ended (flag_on REDIS_FREEING ac) w base xs ys w'"
    using redisAsyncFree_ended [OF assms] by blast
  have "flagged (flag_on REDIS_FREEING ac) REDIS_FREEING" by (simp add: flagged_on flag_defs)
  then have "\<forall>fn. ac_onDisconnect ac = Some fn \<and> flagged ac REDIS_CONNECTED \<longrightarrow> last (w_log w') = EvDisconnect fn REDIS_OK"
    using w'(2) by (auto simp: ended_def flagged_on)
  then show ?thesis using w' unfolding ended_def flag_on_simps by blast
qed

theorem free_runs_every_callback_witness:
  "\<exists>ac w ac' w' w''. redisAsyncCommand ac (Some 7) 0 ''PING'' [] w = Some (REDIS_OK, ac', w')
     \<and> redisAsyncFree ac' w' = Some (None, w'') \<and> reply_events (w_log w'') = [EvReply 7 None 0]
     \<and> w_user w = (\<lambda>fn r pd m l. Call AFree (\<lambda>_. Return))"
proof -
  define us :: "nat \<Rightarrow> obj option \<Rightarrow> nat \<Rightarrow> mem \<Rightarrow> event list \<Rightarrow> prog" where "us = (\<lambda>fn r pd m l. Call AFree (\<lambda>_. Return))"
  obtain ac w where a: "serving ac w Map.empty [] [] [] (-1) []" "holds_callbacks ac w Map.empty [] []" "w_user w = us" "w_log w = []"
    "dt_used (ac_channels ac) = 0" "dt_used (ac_patterns ac) = 0" using test_async by blast
  obtain ac' w' where c: "redisAsyncCommand ac (Some 7) 0 ''PING'' [] w = Some (REDIS_OK, ac', w')"
    "issued [] [] [] [(Some 7, 0)] [[''PING'']] ac w ac' w'" using ping_issued [OF a(1)] by blast
  have h: "holds_callbacks ac' w' Map.empty [(Some 7, 0)] []" using holds_callbacks_issued [OF c(2) a(2)] by simp
  have u: "w_user w' = us" "reply_events (w_log w') = []" using issued_after [OF c(2)] a(3,4) by simp_all
  have "sound_user w'" by (simp add: sound_user_def u(1) us_def sound_call_def)
  from free_runs_every_callback [OF h this] obtain w'' where f: "redisAsyncFree ac' w' = Some (None, w'')"
    "reply_events (w_log w'') = null_calls [(Some 7, 0)] @ entry_calls (chains (ac_channels ac') @ chains (ac_patterns ac'))"
    unfolding u(2) by auto
  have "ac_channels ac' = ac_channels ac" "ac_patterns ac' = ac_patterns ac" by (rule issuedE [OF c(2)]; simp)+
  then have "chains (ac_channels ac') = []" "chains (ac_patterns ac') = []"
    using a(2,5,6) used_chains unfolding holds_callbacks_def callback_table_def by fastforce+
  then have "reply_events (w_log w'') = [EvReply 7 None 0]" using f(2) by (simp add: null_calls_def entry_calls_def)
  then show ?thesis using c(1) f(1) a(3) unfolding us_def by blast
qed

text \<open>
  C31: replies reach the callbacks in the order of the commands. Let the server send the replies
  \<open>ts\<close>, in pieces of any size, to a connected context that is not being disconnected and neither
  subscribed nor monitoring, on which at least as many callbacks wait. The callbacks may issue ordinary
  commands, each of a bounded length, but neither disconnect nor free the context, subscribe or start to
  monitor (\<open>frugal_user\<close>), and no allocation fails. Then each
  event for reading is handled without an error or a failed assertion, and in the end the first
  \<open>length ts\<close> callbacks have been called, each exactly once, with the object that stands for the
  reply at its place. All objects have been released again, and what is left waits: the other callbacks and
  behind them those of the commands that callbacks have issued, whose text is in the buffer.
\<close>
theorem replies_reach_callbacks:
  assumes "serving ac w base xs s [] (-1) []" "flagged ac REDIS_CONNECTED"
    "y_reads (w_sys w) (rc_fd (ac_c ac)) = map RData ds @ rs" "\<forall>d \<in> set ds. d \<noteq> [] \<and> length d \<le> 1024 * 16"
    "concat ds = concat (map enc ts)" "list_all (resp_ok 0) ts" "length (concat ds) + 1024 < 2 ^ 31"
    "length ts \<le> length xs" "frugal_user w n" "length s + length ts * n + 1 < 2 ^ 31"
  shows "\<exists>ac' w' new wss evs. handle_reads (length ds) ac w = Some (Some ac', w')
    \<and> reply_events (w_log w') = reply_events (w_log w) @ evs \<and> reply_calls xs (map val_of ts) evs
    \<and> length new = length wss
    \<and> serving ac' w' base (drop (length ts) xs @ new) (s @ concat (map command_of wss)) [] (-1) []"
proof -
  have e: "arun [] (-1) [] = OWait [] (-1) []" by (subst arun.simps) (simp add: item_def)
  have h: "holds_replies [] (-1) ([] @ concat ds) (map val_of ts) [] (-1) []"
    using holds_replies_enc [OF assms(6) e] by (simp add: assms(5))
  show ?thesis using handle_reads_serving [OF assms(1-4) _ h e] assms(7-10) by simp
qed

theorem replies_reach_callbacks_witness:
  "\<exists>ac w ac' w' ac'' w'' ob m. redisAsyncCommand ac (Some 7) 0 ''PING'' [] w = Some (REDIS_OK, ac', w')
     \<and> handle_reads 2 ac' w' = Some (Some ac'', w'') \<and> reply_events (w_log w'') = [EvReply 7 (Some (ob, m)) 0]
     \<and> shows_reply m (Some ob) (Some (val_of (RStatus ''PONG'')))"
proof -
  define us :: "nat \<Rightarrow> obj option \<Rightarrow> nat \<Rightarrow> mem \<Rightarrow> event list \<Rightarrow> prog" where "us = (\<lambda>fn r pd m l. Return)"
  define ds where "ds = [''+PO'', ''NG'' @ CRLF]"
  obtain ac w where a: "serving ac w Map.empty [] [] [] (-1) []" "holds_callbacks ac w Map.empty [] []" "flagged ac REDIS_CONNECTED"
    "rc_fd (ac_c ac) = 3" "y_reads (w_sys w) 3 = map RData ds" "w_user w = us" "w_log w = []" using test_async by blast
  obtain ac' w' where c: "redisAsyncCommand ac (Some 7) 0 ''PING'' [] w = Some (REDIS_OK, ac', w')"
    "issued [] [] [] [(Some 7, 0)] [[''PING'']] ac w ac' w'" using ping_issued [OF a(1)] by blast
  note i = issued_after [OF c(2)]
  define s where "s = command_of [''PING'']"
  have ls: "length s = 14" by (simp add: s_def dec_nat_small)
  have sv: "serving ac' w' Map.empty [(Some 7, 0)] s [] (-1) []"
    using a(1) i(1-8) unfolding serving_def by (simp add: s_def) (rule reader_at_cong; use i in simp)
  define ts where "ts = [RStatus ''PONG'']"
  have ts: "concat ds = concat (map enc ts)" "list_all (resp_ok 0) ts" "length ts = 1" "length (concat ds) = 7"
    by (simp_all add: ds_def ts_def)
  have "y_reads (w_sys w') (rc_fd (ac_c ac')) = map RData ds @ []" "flagged ac' REDIS_CONNECTED" "frugal_user w' 0"
    "\<forall>d \<in> set ds. d \<noteq> [] \<and> length d \<le> 1024 * 16"
    using i a(3-6) by (simp_all add: frugal_user_def us_def ds_def)
  then obtain ac'' w'' evs where r: "handle_reads (length ds) ac' w' = Some (Some ac'', w'')"
    "reply_events (w_log w'') = reply_events (w_log w') @ evs" "reply_calls [(Some 7, 0)] (map val_of ts) evs"
    using replies_reach_callbacks [OF sv _ _ _ ts(1,2), of "[]" 0] ts(3,4) ls by auto
  obtain ob m where "evs = [EvReply 7 (Some (ob, m)) 0]" "shows_reply m (Some ob) (Some (val_of (RStatus ''PONG'')))"
    using r(3) by (auto simp: ts_def answer_event_def)
  moreover have "length ds = 2" "reply_events (w_log w') = []" using i(9) a(7) by (simp_all add: ds_def)
  ultimately show ?thesis using c(1) r(1,2)
    by (intro exI [where x = ac] exI [where x = w] exI [where x = ac'] exI [where x = w'] exI [where x = ac''] exI [where x = w'']
        exI [where x = ob] exI [where x = m]) simp
qed

text \<open>
  C32: a clean disconnection in the middle of a reply aborts the program. When a disconnection is under
  way (\<open>redisAsyncDisconnect\<close> was called while callbacks waited), there is no error, everything has been
  sent and callbacks still wait, a round of \<open>redisProcessCallbacks\<close> that does not complete the next reply
  calls \<open>__redisAsyncDisconnect\<close> without an error; there the assertion that \<open>__redisShiftCallback\<close>
  returns \<open>REDIS_ERR\<close> fails, as it returns \<open>REDIS_OK\<close> and a callback that waits: the test before the
  call asks for an empty output buffer and not for an empty list of callbacks.
\<close>
theorem partial_reply_aborts_disconnect:
  assumes "rc_err (ac_c ac) = 0" "\<not> flagged ac REDIS_BLOCK" "flagged ac REDIS_DISCONNECTING" "obuf_is (ac_c ac) []"
    "queue_is (ac_replies ac) (x # xs)" "reader_at (ac_c ac) (w_sys w) base fs ty rest" "arun fs ty rest = OWait gs t z"
  shows "\<exists>c' y' cb q. redisProcessCallbacks ac w
        = map_option (\<lambda>w. (None, w)) (async_disconnect (ac\<lparr>ac_c := c'\<rparr>) (w\<lparr>w_sys := y'\<rparr>))
    \<and> ac_err (redisAsyncCopyError (ac\<lparr>ac_c := c'\<rparr>)) = 0
    \<and> redisShiftCallback (ac_replies ac) = Some (REDIS_OK, Some cb, q) \<and> cb_key cb = x
    \<and> async_disconnect (ac\<lparr>ac_c := c'\<rparr>) (w\<lparr>w_sys := y'\<rparr>) = None \<and> redisProcessCallbacks ac w = None"
proof -
  let ?c = "ac_c ac" and ?y = "w_sys w"
  obtain st ob c' y' where g: "redisGetReplyFromReader ?c ?y = Some (st, ob, c', y')" "got ?c ?y base (OWait gs t z) st ob c' y'"
    using redisGetReplyFromReader_spec [OF assms(6)] unfolding assms(7) by auto
  then obtain r e es m where d: "c' = ?c\<lparr>rc_reader := r, rc_err := e, rc_errstr := es\<rparr>"
    "st = REDIS_OK" "ob = None" "rc_err c' = rc_err ?c" by (auto simp: got_def)
  have r: "redisGetReply ?c ?y = Some (REDIS_OK, None, c', y')"
    using redisGetReply_nonblocking [OF _ g(1) [unfolded d(2)]] assms(2) d(1,3) by (simp add: flagged_def)
  have f: "flagged (ac\<lparr>ac_c := c'\<rparr>) REDIS_DISCONNECTING" using assms(3) d(1) by (simp add: flagged_def has_flag_def)
  have o: "obuf_done c' = Some True" using obuf_doneI [OF assms(4)] d(1) by (simp add: obuf_done_def)
  have n: "redisProcessCallbacks ac w = map_option (\<lambda>w. (None, w)) (async_disconnect (ac\<lparr>ac_c := c'\<rparr>) (w\<lparr>w_sys := y'\<rparr>))"
    unfolding redisProcessCallbacks_def
    by (subst process_replies.simps) (simp add: r no_reply_def f o map_option_case split: option.split)
  have e: "ac_err (redisAsyncCopyError (ac\<lparr>ac_c := c'\<rparr>)) = 0" using assms(1) d(4) by (simp add: redisAsyncCopyError_def)
  obtain cb q where s: "redisShiftCallback (ac_replies ac) = Some (REDIS_OK, Some cb, q)" "cb_key cb = x"
    using redisShiftCallback_first [OF assms(5)] by auto
  have "async_disconnect (ac\<lparr>ac_c := c'\<rparr>) (w\<lparr>w_sys := y'\<rparr>) = None"
    using e s(1) by (simp add: async_disconnect_def redisAsyncCopyError_def)
  then show ?thesis using n e s by auto
qed

theorem partial_reply_aborts_disconnect_witness:
  "\<exists>ac w ac1. redisAsyncDisconnect ac w = Some (Some ac1, w) \<and> redisProcessCallbacks ac1 w = None"
proof -
  obtain ac w where a: "serving ac w Map.empty [] [] [] (-1) []" using test_async by blast
  obtain ac' w' where c: "redisAsyncCommand ac (Some 7) 0 ''PING'' [] w = Some (REDIS_OK, ac', w')"
    "issued [] [] [] [(Some 7, 0)] [[''PING'']] ac w ac' w'" using ping_issued [OF a(1)] by blast
  note i = issued_after [OF c(2)]
  obtain b where b: "rc_obuf (ac_c ac) = Some b" "sds_ok b" "sds_str b = []" using a by (auto simp: serving_def obuf_is_def)
  define ac2 where "ac2 = ac'\<lparr>ac_c := (ac_c ac')\<lparr>rc_obuf := Some b\<rparr>\<rparr>"    \<comment> \<open>all has been sent\<close>
  define ac1 where "ac1 = flag_on REDIS_DISCONNECTING ac2"
  have q: "queue_is (ac_replies ac2) [(Some 7, 0)]" using i(1) by (simp add: ac2_def)
  obtain cb q1 where "redisShiftCallback (ac_replies ac2) = Some (0, Some cb, q1)" using redisShiftCallback_first [OF q] by blast
  then have "cl_head (ac_replies ac2) \<noteq> None" by (auto simp: redisShiftCallback_def split: option.splits)
  then have "redisAsyncDisconnect ac2 w' = Some (Some ac1, w')" by (auto simp: redisAsyncDisconnect_def ac1_def Let_def)
  moreover have "\<exists>c' y' cb q. redisProcessCallbacks ac1 w'
        = map_option (\<lambda>w. (None, w)) (async_disconnect (ac1\<lparr>ac_c := c'\<rparr>) (w'\<lparr>w_sys := y'\<rparr>))
    \<and> ac_err (redisAsyncCopyError (ac1\<lparr>ac_c := c'\<rparr>)) = 0
    \<and> redisShiftCallback (ac_replies ac1) = Some (REDIS_OK, Some cb, q) \<and> cb_key cb = (Some 7, 0)
    \<and> async_disconnect (ac1\<lparr>ac_c := c'\<rparr>) (w'\<lparr>w_sys := y'\<rparr>) = None \<and> redisProcessCallbacks ac1 w' = None"
  proof (rule partial_reply_aborts_disconnect)
    show "rc_err (ac_c ac1) = 0" using i(7) a by (simp add: ac1_def ac2_def serving_def)
    have "flagged ac2 f = flagged ac f" for f using i(4) by (simp add: ac2_def flagged_def has_flag_def)
    then show "\<not> flagged ac1 REDIS_BLOCK" "flagged ac1 REDIS_DISCONNECTING"
      using a by (simp_all add: ac1_def serving_def flagged_on flag_defs)
    show "obuf_is (ac_c ac1) []" using b by (simp add: obuf_is_def ac1_def ac2_def)
    show "queue_is (ac_replies ac1) [(Some 7, 0)]" using q by (simp add: ac1_def)
    have "reader_at (ac_c ac) (w_sys w) Map.empty [] (-1) []" using a by (simp add: serving_def)
    then show "reader_at (ac_c ac1) (w_sys w') Map.empty [] (-1) []"
      by (rule reader_at_cong) (use i in \<open>simp_all add: ac1_def ac2_def\<close>)
    show "arun [] (-1) [] = OWait [] (-1) []" by (subst arun.simps) (simp add: item_def)
  qed
  ultimately show ?thesis by blast
qed

section \<open>Subscriptions\<close>

lemma set_table_simps [simp]:
  "table_of pv (set_table pv d ac) = d" "set_table pv d2 (set_table pv d ac) = set_table pv d2 ac"
  "table_of (\<not> pv) (set_table pv d ac) = table_of (\<not> pv) ac" "ac_c (set_table pv d ac) = ac_c ac"
  "ac_replies (set_table pv d ac) = ac_replies ac" "flagged (set_table pv d ac) f = flagged ac f"
  "set_table pv (table_of pv ac) ac = ac" "ac_ev (set_table pv d ac) = ac_ev ac"
  by (cases pv; simp add: set_table_def table_of_def flagged_def)+

lemma sdsnewlen_ok:
  assumes "n < 2 ^ 31" "n \<le> length src" "None \<notin> set al"
  shows "\<exists>h al'. sdsnewlen (Some src) n al = Some (Some h, al') \<and> sds_ok h \<and> sds_str h = take n src \<and> None \<notin> set al'"
  using yields_ok [OF sdsnewlen_yields [OF assms(1,2)] assms(3)] by metis

lemma add_channel_puts:
  assumes "subs_ok (Suc n) (table_of pv ac, w_cm w, y_al (w_sys w))" "drop astr cmd = name @ r" "length name < 2 ^ 31"
  shows "\<exists>d m al. add_channel pv cb cmd astr (length name) ac w = Some (set_table pv d ac, (set_al al w)\<lparr>w_cm := m\<rparr>)
    \<and> subs_ok n (d, m, al) \<and> dict_get d = (dict_get (table_of pv ac))(name \<mapsto> cb)"
proof -
  have al: "None \<notin> set (y_al (w_sys w))" using assms(1) by (simp add: subs_ok_def)
  obtain h al1 where h: "sdsnewlen (Some (drop astr cmd)) (length name) (y_al (w_sys w)) = Some (Some h, al1)" "sds_str h = name"
    "None \<notin> set al1" using sdsnewlen_ok [OF assms(3) _ al, of "drop astr cmd"] assms(2) by auto
  have "subs_ok (Suc n) (table_of pv ac, w_cm w, al1)" using assms(1) h(3) by (simp add: subs_ok_def)
  then obtain d m al2 where p: "subs_put name cb (table_of pv ac, w_cm w, al1) = Some (d, m, al2)" "subs_ok n (d, m, al2)"
    "dict_get d = (dict_get (table_of pv ac))(name \<mapsto> cb)"
    using sub.put_ok [of n _ name cb] by fastforce
  then obtain st where s: "dictReplace (table_of pv ac) name cb ((w_cm w)\<lparr>cm_keys := add_mset name (cm_keys (w_cm w))\<rparr>) al1 = Some (st, d, m, al2)"
    by (auto simp: subs_put_def)
  have "add_channel pv cb cmd astr (length name) ac w = Some (set_table pv d ac, (set_al al2 w)\<lparr>w_cm := m\<rparr>)"
    using h(1,2) s by (cases pv) (simp_all add: add_channel_def set_al_def set_table_def table_of_def)
  then show ?thesis using p(2,3) by blast
qed

lemma bulk_drop:
  "drop (length a + 1 + length (dec_nat (length w)) + 2) (a @ bulk w @ r) = w @ CR # LF # r"
proof -
  have 1: "a @ bulk w @ r = (a @ dollar # dec_nat (length w) @ [CR, LF]) @ w @ CR # LF # r" by (simp add: bulk_def)
  have 2: "length a + 1 + length (dec_nat (length w)) + 2 = length (a @ dollar # dec_nat (length w) @ [CR, LF])" by simp
  have "drop (length P) (P @ X) = X" for P X :: string by simp
  then show ?thesis unfolding 1 2 by this
qed

lemma add_channels_puts:
  assumes "subs_ok (length chs) (table_of pv ac, w_cm w, y_al (w_sys w))" "cmd = a @ concat (map bulk chs) @ [NUL]" "length cmd < 2 ^ 31"
  shows "\<exists>d m al. add_channels pv cb cmd (length a) ac w = Some (set_table pv d ac, (set_al al w)\<lparr>w_cm := m\<rparr>)
    \<and> subs_ok 0 (d, m, al) \<and> dict_get d = (\<lambda>k. if k \<in> set chs then Some cb else dict_get (table_of pv ac) k)"
  using assms
proof (induction chs arbitrary: a ac w)
  case Nil
  then have "add_channels pv cb cmd (length a) ac w = Some (ac, w)"
    using nextArgument_end [of a] by (subst add_channels.simps) simp
  moreover have "w = (set_al (y_al (w_sys w)) w)\<lparr>w_cm := w_cm w\<rparr>" by (simp add: set_al_def)
  ultimately show ?case using Nil.prems(1) set_table_simps(7) [of pv ac]
    by (intro exI [where x = "table_of pv ac"] exI [where x = "w_cm w"] exI [where x = "y_al (w_sys w)"]) simp
next
  case (Cons c chs)
  define r where "r = concat (map bulk chs) @ [NUL]"
  have cmd: "cmd = a @ bulk c @ r" using Cons.prems(2) by (simp add: r_def)
  have lb: "length c \<le> length (bulk c)" by (simp add: bulk_def)
  have l: "length c < 2 ^ 31" "length a + length (bulk c) < 2 ^ 63" using Cons.prems(3) lb unfolding cmd by simp_all
  define i where "i = length a + 1 + length (dec_nat (length c)) + 2"
  have n: "nextArgument cmd (length a) = Some (Some (i, length c, length (a @ bulk c)))"
    using nextArgument_bulk [of "[]" c a r] l unfolding cmd i_def by simp
  have dr: "drop i cmd = c @ CR # LF # r" unfolding i_def cmd by (rule bulk_drop)
  have ok: "subs_ok (Suc (length chs)) (table_of pv ac, w_cm w, y_al (w_sys w))" using Cons.prems(1) by simp
  obtain d m al where 1: "add_channel pv cb cmd i (length c) ac w = Some (set_table pv d ac, (set_al al w)\<lparr>w_cm := m\<rparr>)"
    "subs_ok (length chs) (d, m, al)" "dict_get d = (dict_get (table_of pv ac))(c \<mapsto> cb)"
    using add_channel_puts [OF ok dr l(1)] by blast
  define w1 where "w1 = (set_al al w)\<lparr>w_cm := m\<rparr>"
  have "subs_ok (length chs) (table_of pv (set_table pv d ac), w_cm w1, y_al (w_sys w1))"
    using 1(2) by (simp add: w1_def set_al_def)
  moreover have "cmd = (a @ bulk c) @ concat (map bulk chs) @ [NUL]" by (simp add: cmd r_def)
  ultimately obtain d2 m2 al2 where 2: "add_channels pv cb cmd (length (a @ bulk c)) (set_table pv d ac) w1
      = Some (set_table pv d2 (set_table pv d ac), (set_al al2 w1)\<lparr>w_cm := m2\<rparr>)" "subs_ok 0 (d2, m2, al2)"
    "dict_get d2 = (\<lambda>k. if k \<in> set chs then Some cb else dict_get (table_of pv (set_table pv d ac)) k)"
    using Cons.IH [OF _ _ Cons.prems(3)] by blast
  have "(set_al al2 w1)\<lparr>w_cm := m2\<rparr> = (set_al al2 w)\<lparr>w_cm := m2\<rparr>" by (simp add: w1_def set_al_def)
  then have "add_channels pv cb cmd (length a) ac w = Some (set_table pv d2 ac, (set_al al2 w)\<lparr>w_cm := m2\<rparr>)"
    using n 1(1) 2(1) by (subst add_channels.simps) (simp add: w1_def)
  moreover have "dict_get d2 = (\<lambda>k. if k \<in> set (c # chs) then Some cb else dict_get (table_of pv ac) k)"
    using 2(3) 1(3) by (auto simp: fun_eq_iff)
  ultimately show ?case using 2(2) by blast
qed

lemma async_command_subscribe:
  assumes "CR \<notin> set v" "lower (base_word v) = ''subscribe''" "chs \<noteq> []" "\<not> flagged ac (REDIS_DISCONNECTING OR REDIS_FREEING)"
    "obuf_room (ac_c ac) s (v # chs)" "subs_ok (length chs) (table_of (is_p (hd v)) ac, w_cm w, y_al (w_sys w))"
  shows "\<exists>d m al b. async_command fn pd (command_of (v # chs) @ [NUL]) (length (command_of (v # chs))) ac w
       = Some (REDIS_OK, set_table (is_p (hd v)) d (flag_on REDIS_SUBSCRIBED ac)\<lparr>ac_c := (ac_c (flag_on REDIS_SUBSCRIBED ac))\<lparr>rc_obuf := b\<rparr>\<rparr>,
           el AddWrite ac ((set_al al w)\<lparr>w_cm := m\<rparr>))
     \<and> subs_ok 0 (d, m, al) \<and> obuf_is ((ac_c ac)\<lparr>rc_obuf := b\<rparr>) (s @ command_of (v # chs))
     \<and> dict_get d = (\<lambda>k. if k \<in> set chs then Some \<lparr>cb_next = None, cb_fn = fn, cb_privdata = pd\<rparr>
          else dict_get (table_of (is_p (hd v)) ac) k)"
proof -
  define ws where "ws = v # chs"
  define pv where "pv = is_p (hd v)"
  define cmd where "cmd = command_of ws @ [NUL]"
  define R where "R = concat (map bulk chs)"
  have v: "v \<noteq> []" using assms(2) by (auto simp: base_word_def)
  have lc: "length (command_of (v # chs)) + 1 < 2 ^ 31" using assms(5) unfolding obuf_room_def by linarith
  then obtain cstr p c1 where h: "nextArgument cmd 0 = Some (Some (cstr, length v, p))"
    "rd cmd p = Some dollar" "rd cmd cstr = Some c1" "is_p c1 = pv"
    "drop (if is_p c1 then cstr + 1 else cstr) cmd = base_word v @ CR # LF # R @ [NUL]"
    "p = length (command_of ws) - length R"
    using command_head [of v chs] assms(3) v unfolding cmd_def ws_def R_def pv_def by auto
  have n: "strnicmp_eq (drop (if is_p c1 then cstr + 1 else cstr) cmd) (t @ CRLF) (length t + 2) = Some (lower (base_word v) = t)"
    if "CR \<notin> set t" "NUL \<notin> set t" "lower t = t" for t
  proof -
    have "CR \<notin> set (base_word v)" using assms(1) by (cases v) (auto simp: base_word_def)
    then show ?thesis unfolding h(5) using that by (rule strnicmp_word)
  qed
  have c: "CR \<notin> set ''subscribe''" "NUL \<notin> set ''subscribe''" "lower ''subscribe'' = ''subscribe''"
    by (simp_all add: tolower_c_def code_def)
  have l: "length ''subscribe'' + 2 = 11" by simp
  obtain pre where pre: "command_of ws = pre @ concat (map bulk ws)" using command_parts [of ws] ws_def by blast
  have cm: "cmd = (pre @ bulk v) @ concat (map bulk chs) @ [NUL]" "p = length (pre @ bulk v)"
    using pre h(6) by (simp_all add: cmd_def ws_def R_def)
  have lcmd: "length cmd < 2 ^ 31" using lc unfolding cmd_def ws_def by simp
  define cb where "cb = \<lparr>cb_next = None, cb_fn = fn, cb_privdata = pd\<rparr>"
  define ac1 where "ac1 = flag_on REDIS_SUBSCRIBED ac"
  have t: "table_of pv ac1 = table_of pv ac" by (simp add: table_of_def ac1_def)
  have ok: "subs_ok (length chs) (table_of pv ac1, w_cm w, y_al (w_sys w))" unfolding t using assms(6) by (simp add: pv_def)
  obtain d m al where a: "add_channels pv cb cmd p ac1 w = Some (set_table pv d ac1, (set_al al w)\<lparr>w_cm := m\<rparr>)"
    "subs_ok 0 (d, m, al)" "dict_get d = (\<lambda>k. if k \<in> set chs then Some cb else dict_get (table_of pv ac) k)"
    using add_channels_puts [OF ok cm(1) lcmd, of cb] unfolding cm(2) [symmetric] t
    by (elim exE conjE) (rule that; assumption)
  define w1 where "w1 = (set_al al w)\<lparr>w_cm := m\<rparr>"
  have "obuf_room (ac_c (set_table pv d ac1)) s ws"
    using assms(5) unfolding obuf_room_def ws_def [symmetric] by (auto simp: ac1_def obuf_is_def)
  moreover have "None \<notin> set (y_al (w_sys w1))" using a(2) by (simp add: w1_def set_al_def subs_ok_def)
  ultimately obtain b al' where b: "send_command cmd (length (command_of ws)) (set_table pv d ac1) w1
       = Some (REDIS_OK, (set_table pv d ac1)\<lparr>ac_c := (ac_c (set_table pv d ac1))\<lparr>rc_obuf := b\<rparr>\<rparr>, el AddWrite (set_table pv d ac1) (set_al al' w1))"
     "obuf_is ((ac_c (set_table pv d ac1))\<lparr>rc_obuf := b\<rparr>) (s @ command_of ws)" "None \<notin> set al'"
    using send_command_spec unfolding cmd_def by blast
  have e: "el AddWrite (set_table pv d ac1) (set_al al' w1) = el AddWrite ac ((set_al al' w)\<lparr>w_cm := m\<rparr>)"
  proof -
    have "set_al al' w1 = (set_al al' w)\<lparr>w_cm := m\<rparr>" by (simp add: w1_def set_al_def)
    moreover have "ac_ev (set_table pv d ac1) = ac_ev ac" by (simp add: ac1_def flag_on_def)
    ultimately show ?thesis by (simp add: el_def)
  qed
  have o: "obuf_is ((ac_c ac)\<lparr>rc_obuf := b\<rparr>) (s @ command_of ws)" using b(2) by (simp add: obuf_is_def)
  define i where "i = (if is_p c1 then cstr + 1 else cstr)"
  have sb: "(if dollar = dollar then strnicmp_eq (drop i cmd) (''subscribe'' @ CRLF) 11 else Some False) = Some True"
    using n [OF c(1-3)] assms(2) unfolding l i_def [symmetric] by simp
  have a1: "add_channels (is_p c1) cb cmd p ac1 w = Some (set_table pv d ac1, w1)" using a(1) by (simp only: h(4) w1_def)
  have "async_command fn pd cmd (length (command_of ws)) ac w
       = Some (REDIS_OK, (set_table pv d ac1)\<lparr>ac_c := (ac_c (set_table pv d ac1))\<lparr>rc_obuf := b\<rparr>\<rparr>, el AddWrite ac ((set_al al' w)\<lparr>w_cm := m\<rparr>))"
    unfolding async_command_def using assms(4) b(1)
    by (simp only: if_False if_True h(1-3) bind.bind_lunit Let_def prod.case cb_def [symmetric] i_def [symmetric] sb a1 ac1_def [symmetric] e)
  moreover have "subs_ok 0 (d, m, al')" using a(2) b(3) by (simp add: subs_ok_def)
  ultimately show ?thesis using o a(3) unfolding cmd_def ws_def pv_def ac1_def cb_def set_table_simps by blast
qed

lemma dictFind_callback:
  assumes "callback_table ht"
  obtains "dictFind ht key = Some []" "dict_get ht key = None"
    | e es where "dictFind ht key = Some (e # es)" "dict_get ht key = Some (de_val e)"
proof -
  have o: "dict_ok ht" "keys_ok ht" using assms callbackDict_keys_ok by (auto simp: callback_table_def)
  show ?thesis by (rule dictFind_spec [OF o, of key]; rule that; simp add: dict_get_def)
qed

lemma strnicmp_all:
  "NUL \<notin> set s \<Longrightarrow> strnicmp_eq (m @ [NUL]) s (length s + 1) = Some (map tolower_c (takeWhile (\<lambda>c. c \<noteq> NUL) m) = map tolower_c s)"
proof (induction s arbitrary: m)
  case Nil
  then show ?case by (cases m) auto
next
  case (Cons d s)
  have n: "tolower_c NUL = NUL" "tolower_c d \<noteq> NUL" using Cons.prems by (auto simp: tolower_NUL)
  show ?case
  proof (cases m)
    case (Cons c m')
    then show ?thesis using Cons.IH [of m'] Cons.prems n by auto
  qed (use n in simp)
qed

definition kind_is :: "string \<Rightarrow> string \<Rightarrow> bool" where
  \<comment> \<open>the kind of a message, read up to its NUL and without the letter for patterns\<close>
  "kind_is kind name \<longleftrightarrow> lower (takeWhile (\<lambda>c. c \<noteq> NUL) (if is_p (hd kind) then tl kind else kind)) = name"

lemma stricmp_kind:
  assumes "kind \<noteq> []" "NUL \<notin> set name" "lower name = name"
  shows "stricmp_eq (drop (if is_p (hd kind) then 1 else 0) (kind @ [NUL])) name = Some (kind_is kind name)"
proof -
  have "drop (if is_p (hd kind) then 1 else 0) (kind @ [NUL]) = (if is_p (hd kind) then tl kind else kind) @ [NUL]"
    using assms(1) by (cases kind) auto
  then show ?thesis using strnicmp_all [OF assms(2)] assms(3) unfolding stricmp_eq_def kind_is_def lower_def by simp
qed

definition message_at :: "world \<Rightarrow> obj \<Rightarrow> redisReply list \<Rightarrow> bool" where
  \<comment> \<open>an array with these elements\<close>
  "message_at w ob cs \<longleftrightarrow> (\<exists>p qs. ob = Obj p \<and> m_cells (y_mem (w_sys w)) p = Some (arr_cell (map Some qs)) \<and> length qs = length cs
     \<and> (\<forall>i < length cs. m_cells (y_mem (w_sys w)) (qs ! i) = Some (cs ! i)))"

lemma message_atD:
  assumes "message_at w ob cs"
  shows "\<exists>r. the_reply ob w = Some r \<and> rp_type r = REDIS_REPLY_ARRAY \<and> rp_elements r = length cs
    \<and> (\<forall>i < length cs. \<forall>w'. y_mem (w_sys w') = y_mem (w_sys w) \<longrightarrow> element r i w' = Some (cs ! i))"
proof -
  obtain p qs where "ob = Obj p" "m_cells (y_mem (w_sys w)) p = Some (arr_cell (map Some qs))" "length qs = length cs"
    "\<forall>i < length cs. m_cells (y_mem (w_sys w)) (qs ! i) = Some (cs ! i)" using assms by (auto simp: message_at_def)
  then show ?thesis by (intro exI [where x = "arr_cell (map Some qs)"]) (auto simp: the_reply_def arr_cell_def element_def)
qed

definition found :: "redisAsyncContext \<Rightarrow> bool \<Rightarrow> string \<Rightarrow> redisCallback \<Rightarrow> redisCallback" where
  "found ac pv ch cb = (case dict_get (table_of pv ac) ch of None \<Rightarrow> cb | Some c \<Rightarrow> c)"

lemma redisGetSubscribeCallback_spec:
  assumes "message_at w ob (str_cell REDIS_REPLY_STRING kind # str_cell REDIS_REPLY_STRING ch # c3 # cs)" "kind \<noteq> []"
    "length ch < 2 ^ 31" "callback_table (table_of (is_p (hd kind)) ac)" "None \<notin> set (y_al (w_sys w))"
    "owned (entries (table_of (is_p (hd kind)) ac)) (w_cm w)"
    "kind_is kind ''unsubscribe'' \<Longrightarrow> rp_type c3 = REDIS_REPLY_INTEGER"
  shows "\<exists>d m al. redisGetSubscribeCallback ac ob cb w = Some (found ac (is_p (hd kind)) ch cb,
      set_table (is_p (hd kind)) d
        (if kind_is kind ''unsubscribe'' \<and> dict_get (table_of (is_p (hd kind)) ac) ch \<noteq> None \<and> rp_integer c3 = 0
         then flag_off REDIS_SUBSCRIBED ac else ac), (set_al al w)\<lparr>w_cm := m\<rparr>)
    \<and> callback_table d \<and> None \<notin> set al \<and> owned (entries d) m \<and> cm_al m = cm_al (w_cm w)
    \<and> dict_get d = (if kind_is kind ''unsubscribe'' then (dict_get (table_of (is_p (hd kind)) ac))(ch := None)
         else dict_get (table_of (is_p (hd kind)) ac))"
proof -
  define pv where "pv = is_p (hd kind)"
  define T where "T = table_of pv ac"
  define u where "u = kind_is kind ''unsubscribe''"
  obtain r where r: "the_reply ob w = Some r" "rp_type r = REDIS_REPLY_ARRAY" "2 \<le> rp_elements r"
    "\<And>w'. y_mem (w_sys w') = y_mem (w_sys w) \<Longrightarrow> element r 0 w' = Some (str_cell REDIS_REPLY_STRING kind)
       \<and> element r 1 w' = Some (str_cell REDIS_REPLY_STRING ch) \<and> element r 2 w' = Some c3"
    using message_atD [OF assms(1)] by fastforce
  have e0: "rp_type (str_cell t s) = t" "rp_str (str_cell t s) = Some (s @ [NUL])" "rp_len (str_cell t s) = int (length s)" for t s
    by (simp_all add: str_cell_def)
  have k: "rd (kind @ [NUL]) 0 = Some (hd kind)" using assms(2) by (cases kind) (simp_all add: rd_def)
  obtain h al where h: "sdsnewlen (Some (ch @ [NUL])) (length ch) (y_al (w_sys w)) = Some (Some h, al)" "sds_str h = ch" "None \<notin> set al"
    using sdsnewlen_ok [OF assms(3) _ assms(5), of "ch @ [NUL]"] by auto
  have n: "nat (int (length ch) mod 2 ^ 64) = length ch" using assms(3) by simp
  have un: "NUL \<notin> set ''unsubscribe''" "lower ''unsubscribe'' = ''unsubscribe''" by (simp_all add: tolower_c_def code_def)
  define w1 where "w1 = (set_al al w)\<lparr>w_cm := (w_cm (set_al al w))\<lparr>cm_keys := add_mset ch (cm_keys (w_cm (set_al al w)))\<rparr>\<rparr>"
  have m1: "y_mem (w_sys w1) = y_mem (w_sys w)" "y_mem (w_sys (set_al al w)) = y_mem (w_sys w)" by (simp_all add: w1_def set_al_def)
  have T: "callback_table T" using assms(4) by (simp add: T_def pv_def)
  have st: "stricmp_eq (drop (if pv then 1 else 0) (kind @ [NUL])) ''unsubscribe'' = Some u"
    using stricmp_kind [OF assms(2) un] by (simp add: pv_def u_def)
  define start where "start = (\<lambda>de :: (string, redisCallback) dictEntry list. do {
     (cb, ac, w) \<leftarrow> (case de of
        [] \<Rightarrow> Some (cb, ac, w1)
      | e # _ \<Rightarrow>
          if u then do {
            (_, d, cm) \<leftarrow> dictDelete T ch (w_cm w1);
            require (rp_type c3 = REDIS_REPLY_INTEGER);
            Some (de_val e, (if rp_integer c3 = 0 then flag_off REDIS_SUBSCRIBED (set_table pv d ac) else set_table pv d ac), w1\<lparr>w_cm := cm\<rparr>)
          } else Some (de_val e, ac, w1));
     cm \<leftarrow> callbackKeyDestructor 0 ch (w_cm w);
     Some (cb, ac, w\<lparr>w_cm := cm\<rparr>)
   })"
  have g: "redisGetSubscribeCallback ac ob cb w = dictFind T ch \<bind> start"
    unfolding redisGetSubscribeCallback_def start_def
    by (simp only: r(1-3) r(4) [OF refl] r(4) [OF m1(1)] require_simps h e0 k n pv_def [symmetric] T_def [symmetric] w1_def [symmetric] st
        bind.bind_lunit Let_def prod.case option.case if_True simp_thms cong: list.case_cong)
  have w1: "w_cm w1 = (w_cm w)\<lparr>cm_keys := add_mset ch (cm_keys (w_cm w))\<rparr>" by (simp add: w1_def set_al_def)
  have kd: "callbackKeyDestructor 0 ch m = Some (m\<lparr>cm_keys := cm_keys m - {#ch#}\<rparr>)" if "ch \<in># cm_keys m" for m
    using that by (simp add: callbackKeyDestructor_def)
  have w1': "w1\<lparr>w_cm := m\<rparr> = (set_al al w)\<lparr>w_cm := m\<rparr>" for m by (simp add: w1_def)
  have c: "owned (entries T) (w_cm w)" using assms(6) by (simp_all add: T_def pv_def)
  show ?thesis
  proof (cases rule: dictFind_callback [OF T, of ch])
    case 1
    then have "redisGetSubscribeCallback ac ob cb w = Some (cb, ac, (set_al al w)\<lparr>w_cm := w_cm w\<rparr>)"
      using g by (simp add: start_def kd w1 w1')
    then show ?thesis using 1(2) T h(3) c set_table_simps(7) [of pv ac] fun_upd_idem [of "dict_get T" ch None]
      unfolding pv_def [symmetric] T_def [symmetric] u_def [symmetric]
      by (intro exI [where x = T] exI [where x = "w_cm w"] exI [where x = al]) (simp add: found_def T_def)
  next
    case (2 e es)
    show ?thesis
    proof (cases u)
      case False
      then have "redisGetSubscribeCallback ac ob cb w = Some (de_val e, ac, (set_al al w)\<lparr>w_cm := w_cm w\<rparr>)"
        using g 2(1) by (simp add: start_def kd w1 w1')
      then show ?thesis using 2(2) False T h(3) c set_table_simps(7) [of pv ac]
        unfolding pv_def [symmetric] T_def [symmetric] u_def [symmetric]
        by (intro exI [where x = T] exI [where x = "w_cm w"] exI [where x = al]) (simp add: found_def T_def)
    next
      case True
      define s where "s = {#\<lparr>de_key = ch, de_val = de_val e\<rparr>#}"
      have en: "entries T = s + elsewhere T ch" using entries_at [OF T, of ch] 2(2) by (simp add: s_def)
      have o: "owned s (w_cm w)" "owned (elsewhere T ch) (spare s (w_cm w))" using c unfolding en owned_plus by blast+
      have "owned (entries T) (w_cm w1)" using c by (auto simp: owned_def w1 intro: subset_mset.order_trans)
      then obtain d m where d: "dictDelete T ch (w_cm w1) = Some (if dict_get T ch = None then DICT_ERR else DICT_OK, d, m)"
        "callback_table d" "dict_get d = (dict_get T)(ch := None)" "entries d = elsewhere T ch"
        "m = (case dict_get T ch of None \<Rightarrow> w_cm w1 | Some u \<Rightarrow> spare {#\<lparr>de_key = ch, de_val = u\<rparr>#} (w_cm w1))"
        using callback_delete [OF T, of "w_cm w1" ch] by metis
      have m: "m = (w_cm w)\<lparr>cm_vals := cm_vals (w_cm w) - {#de_val e#}\<rparr>" using d(5) 2(2) by (simp add: spare_def w1)
      have i: "rp_type c3 = REDIS_REPLY_INTEGER" using True assms(7) by (simp add: u_def)
      have fo: "flag_off f (set_table pv d ac) = set_table pv d (flag_off f ac)" for f
        by (cases pv) (simp_all add: flag_off_def set_table_def)
      have mk: "ch \<in># cm_keys m" "m\<lparr>cm_keys := cm_keys m - {#ch#}\<rparr> = spare s (w_cm w)"
        using o(1) by (simp_all add: m s_def owned_def spare_def)
      have "redisGetSubscribeCallback ac ob cb w = Some (de_val e,
          set_table pv d (if rp_integer c3 = 0 then flag_off REDIS_SUBSCRIBED ac else ac), (set_al al w)\<lparr>w_cm := spare s (w_cm w)\<rparr>)"
        using g 2(1) True d(1) mk by (simp add: start_def kd w1' i fo)
      then show ?thesis using 2(2) True d(2-4) h(3) o(2)
        unfolding pv_def [symmetric] T_def [symmetric] u_def [symmetric]
        by (intro exI [where x = d] exI [where x = "spare s (w_cm w)"] exI [where x = al]) (auto simp: found_def T_def spare_def)
    qed
  qed
qed

lemma test_subs:
  assumes "holds_callbacks ac w base xs ys" "dt_used (ac_channels ac) = 0" "dt_used (ac_patterns ac) = 0"
    "w_cm w = \<lparr>cm_al = [], cm_keys = {#}, cm_vals = {#}\<rparr>" "n \<le> 2 ^ 30"
  shows "subs_ok n (table_of pv ac, w_cm w, y_al (w_sys w))"
  using assms empty_table by (simp add: subs_ok_def holds_callbacks_def table_of_def)

text \<open>
  C33: subscribing registers the callback. A command \<open>SUBSCRIBE\<close> or \<open>PSUBSCRIBE\<close>, in upper or lower
  case, with any channel names (repeated ones and ones with any bytes included) leaves exactly these
  names mapped to its callback, in the table of channels or in the one of patterns, and all other
  names and the other table as they were; the context is marked as subscribed, no callback is queued
  for a reply, the bytes to send are followed by the command, and the table remains well-formed.
\<close>
theorem subscribe_registers:
  assumes "CR \<notin> set v" "lower (base_word v) = ''subscribe''" "chs \<noteq> []" "\<not> flagged ac (REDIS_DISCONNECTING OR REDIS_FREEING)"
    "obuf_room (ac_c ac) s (v # chs)" "subs_ok (length chs) (table_of (is_p (hd v)) ac, w_cm w, y_al (w_sys w))"
  shows "\<exists>ac' w'. async_command fn pd (command_of (v # chs) @ [NUL]) (length (command_of (v # chs))) ac w = Some (REDIS_OK, ac', w')
    \<and> (\<forall>ch. dict_get (table_of (is_p (hd v)) ac') ch = (if ch \<in> set chs then Some \<lparr>cb_next = None, cb_fn = fn, cb_privdata = pd\<rparr>
          else dict_get (table_of (is_p (hd v)) ac) ch))
    \<and> table_of (\<not> is_p (hd v)) ac' = table_of (\<not> is_p (hd v)) ac \<and> flagged ac' REDIS_SUBSCRIBED
    \<and> ac_replies ac' = ac_replies ac \<and> obuf_is (ac_c ac') (s @ command_of (v # chs))
    \<and> subs_ok 0 (table_of (is_p (hd v)) ac', w_cm w', y_al (w_sys w'))"
proof -
  define E where "E = command_of (v # chs)"
  define pv where "pv = is_p (hd v)"
  define ac0 where "ac0 = flag_on REDIS_SUBSCRIBED ac"
  obtain d m al b where c: "async_command fn pd (E @ [NUL]) (length E) ac w
       = Some (REDIS_OK, set_table pv d ac0\<lparr>ac_c := (ac_c ac0)\<lparr>rc_obuf := b\<rparr>\<rparr>, el AddWrite ac ((set_al al w)\<lparr>w_cm := m\<rparr>))"
     "subs_ok 0 (d, m, al)" "obuf_is ((ac_c ac)\<lparr>rc_obuf := b\<rparr>) (s @ E)"
     "dict_get d = (\<lambda>k. if k \<in> set chs then Some \<lparr>cb_next = None, cb_fn = fn, cb_privdata = pd\<rparr> else dict_get (table_of pv ac) k)"
    using async_command_subscribe [OF assms, of fn pd] unfolding E_def pv_def ac0_def by blast
  define ac' where "ac' = set_table pv d ac0\<lparr>ac_c := (ac_c ac0)\<lparr>rc_obuf := b\<rparr>\<rparr>"
  have t: "table_of pv ac' = d" "table_of (\<not> pv) ac' = table_of (\<not> pv) ac" "ac_replies ac' = ac_replies ac"
    by (cases pv; simp add: ac'_def table_of_def set_table_def ac0_def)+
  have "flagged ac' REDIS_SUBSCRIBED = flagged ac0 REDIS_SUBSCRIBED" by (simp add: ac'_def flagged_def has_flag_def)
  then have f: "flagged ac' REDIS_SUBSCRIBED" by (simp add: ac0_def flagged_on flag_defs)
  have o: "obuf_is (ac_c ac') (s @ E)" using c(3) by (simp add: ac'_def obuf_is_def)
  define w' where "w' = el AddWrite ac ((set_al al w)\<lparr>w_cm := m\<rparr>)"
  have w: "w_cm w' = m" "y_al (w_sys w') = al" by (simp_all add: w'_def el_def log_def set_al_def)
  have "subs_ok 0 (table_of pv ac', w_cm w', y_al (w_sys w'))" using c(2) unfolding t w .
  then show ?thesis using c(1,4) t(2,3) f o unfolding E_def [symmetric] pv_def [symmetric] ac'_def [symmetric] w'_def [symmetric]
    unfolding t(1) [symmetric] by (intro exI [where x = ac'] exI [where x = w']) simp
qed

lemma subscribe_word: "CR \<notin> set ''SUBSCRIBE''" "lower (base_word ''SUBSCRIBE'') = ''subscribe''" "\<not> is_p (hd ''SUBSCRIBE'')"
proof -
  show "lower (base_word ''SUBSCRIBE'') = ''subscribe''" by code_simp
  show "\<not> is_p (hd ''SUBSCRIBE'')" by code_simp
qed simp

lemma test_subscribe:
  assumes "serving ac w base [] [] [] (-1) []" "holds_callbacks ac w base' xs ys" "dt_used (ac_channels ac) = 0"
    "dt_used (ac_patterns ac) = 0" "w = set_al al (test_world rs us)"
  shows "\<not> flagged ac (REDIS_DISCONNECTING OR REDIS_FREEING)" "obuf_room (ac_c ac) [] [''SUBSCRIBE'', ''news'']"
    "subs_ok (length [''news'']) (table_of (is_p (hd ''SUBSCRIBE'')) ac, w_cm w, y_al (w_sys w))"
proof -
  show "\<not> flagged ac (REDIS_DISCONNECTING OR REDIS_FREEING)" using assms(1) by (simp add: serving_def flagged_or)
  have "length [] + length (command_of [''SUBSCRIBE'', ''news'']) + 1 < 2 ^ 31" by (simp add: dec_nat_small)
  then show "obuf_room (ac_c ac) [] [''SUBSCRIBE'', ''news'']" using assms(1) unfolding obuf_room_def serving_def by blast
  show "subs_ok (length [''news'']) (table_of (is_p (hd ''SUBSCRIBE'')) ac, w_cm w, y_al (w_sys w))"
    by (rule test_subs [OF assms(2-4)]) (simp_all add: assms(5) set_al_def test_world_def)
qed

theorem subscribe_registers_witness:
  "\<exists>ac w ac' w'. async_command (Some 7) 0 (command_of [''SUBSCRIBE'', ''news''] @ [NUL]) (length (command_of [''SUBSCRIBE'', ''news''])) ac w
      = Some (REDIS_OK, ac', w') \<and> flagged ac' REDIS_SUBSCRIBED
    \<and> dict_get (ac_channels ac') ''news'' = Some \<lparr>cb_next = None, cb_fn = Some 7, cb_privdata = 0\<rparr>"
proof -
  define us :: "nat \<Rightarrow> obj option \<Rightarrow> nat \<Rightarrow> mem \<Rightarrow> event list \<Rightarrow> prog" where "us = (\<lambda>fn r pd m l. Return)"
  obtain ac w al where a: "serving ac w Map.empty [] [] [] (-1) []" "holds_callbacks ac w Map.empty [] []"
    "dt_used (ac_channels ac) = 0" "dt_used (ac_patterns ac) = 0" "w = set_al al (test_world [] us)" using test_async by blast
  have t: "table_of (is_p (hd ''SUBSCRIBE'')) x = ac_channels x" for x unfolding table_of_def using subscribe_word(3) by simp
  have n: "[''news''] \<noteq> []" by simp
  show ?thesis
    using subscribe_registers [OF subscribe_word(1,2) n test_subscribe [OF a], of "Some 7" 0] unfolding t by fastforce
qed

text \<open>
  C34: messages find their callback. For an array whose first element names a kind and whose second
  one a channel, the callback that \<open>__redisGetSubscribeCallback\<close> returns is the one registered for
  this channel, in the table that the first letter of the kind chooses, and the caller's own one when
  none is. Only \<open>unsubscribe\<close> and \<open>punsubscribe\<close>, in any case, remove the name, and exactly this name;
  the context stops being subscribed only when they did and the third element is 0.
\<close>
theorem message_finds_callback:
  assumes "message_at w ob (str_cell REDIS_REPLY_STRING kind # str_cell REDIS_REPLY_STRING ch # c3 # cs)" "kind \<noteq> []"
    "length ch < 2 ^ 31" "callback_table (table_of (is_p (hd kind)) ac)" "None \<notin> set (y_al (w_sys w))"
    "owned (entries (table_of (is_p (hd kind)) ac)) (w_cm w)"
    "kind_is kind ''unsubscribe'' \<Longrightarrow> rp_type c3 = REDIS_REPLY_INTEGER"
  shows "\<exists>ac' w'. redisGetSubscribeCallback ac ob cb w
      = Some (case dict_get (table_of (is_p (hd kind)) ac) ch of None \<Rightarrow> cb | Some c \<Rightarrow> c, ac', w')
    \<and> dict_get (table_of (is_p (hd kind)) ac') = (if kind_is kind ''unsubscribe''
         then (dict_get (table_of (is_p (hd kind)) ac))(ch := None) else dict_get (table_of (is_p (hd kind)) ac))
    \<and> table_of (\<not> is_p (hd kind)) ac' = table_of (\<not> is_p (hd kind)) ac
    \<and> (flagged ac' REDIS_SUBSCRIBED \<longleftrightarrow> flagged ac REDIS_SUBSCRIBED \<and> \<not> (kind_is kind ''unsubscribe''
         \<and> dict_get (table_of (is_p (hd kind)) ac) ch \<noteq> None \<and> rp_integer c3 = 0))"
proof -
  define pv where "pv = is_p (hd kind)"
  define z where "z = (kind_is kind ''unsubscribe'' \<and> dict_get (table_of pv ac) ch \<noteq> None \<and> rp_integer c3 = 0)"
  define u where "u = kind_is kind ''unsubscribe''"
  obtain d m al where r: "redisGetSubscribeCallback ac ob cb w = Some (found ac pv ch cb,
      set_table pv d (if z then flag_off REDIS_SUBSCRIBED ac else ac), (set_al al w)\<lparr>w_cm := m\<rparr>)"
    "dict_get d = (if u then (dict_get (table_of pv ac))(ch := None) else dict_get (table_of pv ac))"
    using redisGetSubscribeCallback_spec [OF assms, where cb = cb] unfolding z_def u_def pv_def by blast
  define ac' where "ac' = set_table pv d (if z then flag_off REDIS_SUBSCRIBED ac else ac)"
  have "table_of pv ac' = d" "table_of (\<not> pv) ac' = table_of (\<not> pv) ac"
    by (cases pv; simp add: ac'_def table_of_def flag_off_def set_table_def)+
  moreover have "flagged ac' REDIS_SUBSCRIBED \<longleftrightarrow> flagged ac REDIS_SUBSCRIBED \<and> \<not> z"
    by (simp add: ac'_def flagged_off(2))
  ultimately show ?thesis using r unfolding z_def [unfolded u_def [symmetric], symmetric] u_def [symmetric] pv_def [symmetric]
    found_def ac'_def [symmetric] by (simp add: z_def u_def)
qed

theorem message_finds_callback_witness:
  "\<exists>ac w ac' w' mem ob ac'' w''. async_command (Some 7) 0 (command_of [''SUBSCRIBE'', ''news''] @ [NUL])
      (length (command_of [''SUBSCRIBE'', ''news''])) ac w = Some (REDIS_OK, ac', w')
    \<and> message_at (w'\<lparr>w_sys := (w_sys w')\<lparr>y_mem := mem\<rparr>\<rparr>) ob (map (str_cell REDIS_REPLY_STRING) [''message'', ''news'', ''hello''])
    \<and> redisGetSubscribeCallback ac' ob \<lparr>cb_next = None, cb_fn = None, cb_privdata = 0\<rparr> (w'\<lparr>w_sys := (w_sys w')\<lparr>y_mem := mem\<rparr>\<rparr>)
      = Some (\<lparr>cb_next = None, cb_fn = Some 7, cb_privdata = 0\<rparr>, ac'', w'')"
proof -
  define us :: "nat \<Rightarrow> obj option \<Rightarrow> nat \<Rightarrow> mem \<Rightarrow> event list \<Rightarrow> prog" where "us = (\<lambda>fn r pd m l. Return)"
  obtain ac w al where a: "serving ac w Map.empty [] [] [] (-1) []" "holds_callbacks ac w Map.empty [] []"
    "dt_used (ac_channels ac) = 0" "dt_used (ac_patterns ac) = 0" "w = set_al al (test_world [] us)" using test_async by blast
  have t: "table_of (is_p (hd ''SUBSCRIBE'')) x = ac_channels x" for x unfolding table_of_def using subscribe_word(3) by simp
  have n: "[''news''] \<noteq> []" by simp
  obtain d m al' b where c: "async_command (Some 7) 0 (command_of [''SUBSCRIBE'', ''news''] @ [NUL]) (length (command_of [''SUBSCRIBE'', ''news''])) ac w
       = Some (REDIS_OK, set_table (is_p (hd ''SUBSCRIBE'')) d (flag_on REDIS_SUBSCRIBED ac)\<lparr>ac_c := (ac_c (flag_on REDIS_SUBSCRIBED ac))\<lparr>rc_obuf := b\<rparr>\<rparr>,
           el AddWrite ac ((set_al al' w)\<lparr>w_cm := m\<rparr>))" "subs_ok 0 (d, m, al')"
     "dict_get d = (\<lambda>k. if k \<in> set [''news''] then Some \<lparr>cb_next = None, cb_fn = Some 7, cb_privdata = 0\<rparr>
          else dict_get (table_of (is_p (hd ''SUBSCRIBE'')) ac) k)"
    using async_command_subscribe [OF subscribe_word(1,2) n test_subscribe [OF a], of "Some 7" 0] by blast
  define ac' where "ac' = set_table (is_p (hd ''SUBSCRIBE'')) d (flag_on REDIS_SUBSCRIBED ac)\<lparr>ac_c := (ac_c (flag_on REDIS_SUBSCRIBED ac))\<lparr>rc_obuf := b\<rparr>\<rparr>"
  define w' where "w' = el AddWrite ac ((set_al al' w)\<lparr>w_cm := m\<rparr>)"
  define M where "M = \<lparr>m_al = [], m_cells = map_of (zip [0, 1, 2, 3] (arr_cell (map Some [1, 2, 3])
     # map (str_cell REDIS_REPLY_STRING) [''message'', ''news'', ''hello''])), m_next = 4\<rparr>"
  define v where "v = w'\<lparr>w_sys := (w_sys w')\<lparr>y_mem := M\<rparr>\<rparr>"
  have i: "(\<forall>i < length (map f [x, y, z]). P i) \<longleftrightarrow> P 0 \<and> P 1 \<and> P (2::nat)" for P and f :: "string \<Rightarrow> redisReply" and x y z
    by (auto simp: less_Suc_eq numeral_2_eq_2)
  have ms: "message_at v (Obj 0) (map (str_cell REDIS_REPLY_STRING) [''message'', ''news'', ''hello''])"
    unfolding message_at_def i by (intro exI [where x = 0] exI [where x = "[1, 2, 3]"]) (simp add: v_def M_def)
  have k: "\<not> is_p (hd ''message'')" "\<not> kind_is ''message'' ''unsubscribe''" by code_simp+
  have tb: "table_of (is_p (hd ''message'')) ac' = d" "w_cm v = m" "y_al (w_sys v) = al'"
    using k(1) subscribe_word(3) by (simp_all add: table_of_def ac'_def set_table_def v_def w'_def el_def log_def set_al_def)
  have s: "callback_table d" "None \<notin> set al'" "owned (entries d) m" using c(2) by (simp_all add: subs_ok_def)
  have "\<exists>ac'' w''. redisGetSubscribeCallback ac' (Obj 0) \<lparr>cb_next = None, cb_fn = None, cb_privdata = 0\<rparr> v
      = Some (case dict_get d ''news'' of None \<Rightarrow> \<lparr>cb_next = None, cb_fn = None, cb_privdata = 0\<rparr> | Some c \<Rightarrow> c, ac'', w'')"
    using message_finds_callback [OF ms [unfolded list.map], of ac' "\<lparr>cb_next = None, cb_fn = None, cb_privdata = 0\<rparr>"] s k(2)
    unfolding tb by fastforce
  moreover have g: "dict_get d ''news'' = Some \<lparr>cb_next = None, cb_fn = Some 7, cb_privdata = 0\<rparr>" using c(3) by simp
  ultimately have "\<exists>ac'' w''. redisGetSubscribeCallback ac' (Obj 0) \<lparr>cb_next = None, cb_fn = None, cb_privdata = 0\<rparr> v
      = Some (\<lparr>cb_next = None, cb_fn = Some 7, cb_privdata = 0\<rparr>, ac'', w'')" unfolding g option.case by blast
  then obtain ac'' w'' where r: "redisGetSubscribeCallback ac' (Obj 0) \<lparr>cb_next = None, cb_fn = None, cb_privdata = 0\<rparr> v
      = Some (\<lparr>cb_next = None, cb_fn = Some 7, cb_privdata = 0\<rparr>, ac'', w'')" by blast
  show ?thesis
    by (rule exI [where x = ac], rule exI [where x = w], rule exI [where x = ac'], rule exI [where x = w'], rule exI [where x = M],
        rule exI [where x = "Obj 0"], rule exI [where x = ac''], rule exI [where x = w''])
       (intro conjI c(1) [folded ac'_def w'_def] ms [unfolded v_def] r [unfolded v_def])
qed

end
