(* ===== verification/WorkQueue.thy ===== *)
theory WorkQueue
  imports Prelude Interfaces
begin

text \<open>
  The work queue of \<open>Queue.h\<close> with the semaphore and the lock of \<open>mutex.h\<close> and \<open>ATMutex.cpp\<close>: the
  linked list that \<open>Add\<close> and \<open>Wait\<close> change between \<open>Lock\<close> and \<open>Unlock\<close>, each of them called with no other
  thread about, and all interleavings of any number of threads that call them. A \<open>new\<close> that throws ends
  \<open>Add\<close> with the lock still held. The list is only touched by the owner of the lock, so what is done
  between \<open>Lock\<close> and \<open>Unlock\<close> is one step; what a dangling or NULL pointer would do is \<open>None\<close>.
\<close>

section \<open>Semaphores\<close>

definition ReleaseSemaphore :: "nat \<Rightarrow> nat \<Rightarrow> nat \<Rightarrow> bool \<times> nat" where
  \<comment> \<open>it fails when the count would pass the maximum; no caller looks at the result\<close>
  "ReleaseSemaphore cap n count = (if 0 < n \<and> count + n \<le> cap then (True, count + n) else (False, count))"

definition WaitForSemaphore :: "nat \<Rightarrow> nat option" where
  \<comment> \<open>\<open>None\<close>: the thread blocks\<close>
  "WaitForSemaphore count = (if count = 0 then None else Some (count - 1))"

abbreviation SEM_MAX :: nat where "SEM_MAX \<equiv> 0x7ffffff"

text \<open>\<open>CATMutex\<close> is a semaphore with a count of at most 1, whoever releases it.\<close>

definition CATMutex_Lock :: "bool \<Rightarrow> nat \<Rightarrow> nat option" where
  \<comment> \<open>with a limit of time the call returns all the same, without the lock\<close>
  "CATMutex_Lock limited count = (case WaitForSemaphore count of None \<Rightarrow> (if limited then Some count else None) | Some c \<Rightarrow> Some c)"

definition CATMutex_Unlock :: "nat \<Rightarrow> nat" where
  "CATMutex_Unlock count = snd (ReleaseSemaphore 1 1 count)"

definition CATMutex_new :: "bool \<Rightarrow> nat option" where
  "CATMutex_new locked = (if locked then CATMutex_Lock False 1 else Some 1)"

lemma CATMutex_free: "CATMutex_Lock False 1 = Some 0" "CATMutex_Unlock 0 = 1" "CATMutex_Lock False 0 = None"
  by (simp_all add: CATMutex_Lock_def CATMutex_Unlock_def WaitForSemaphore_def ReleaseSemaphore_def)

section \<open>The list\<close>

record 'a QueueEntry =
  qe_value :: 'a
  qe_next :: "nat option"

record 'a wqueue =
  qu_cells :: "nat \<Rightarrow> 'a QueueEntry option"
  qu_fresh :: nat          \<comment> \<open>the address that \<open>new\<close> gives out next\<close>
  qu_head :: "nat option"
  qu_tail :: "nat option"
  qu_size :: int
  qu_sem :: nat            \<comment> \<open>the count of the semaphore\<close>

definition Queue_init :: "'a wqueue" where
  "Queue_init = \<lparr>qu_cells = Map.empty, qu_fresh = 0, qu_head = None, qu_tail = None, qu_size = 0, qu_sem = 0\<rparr>"

definition add_body :: "'a \<Rightarrow> 'a wqueue \<Rightarrow> 'a wqueue option" where
  \<comment> \<open>\<open>Add\<close> between \<open>Lock\<close> and \<open>Unlock\<close>\<close>
  "add_body v q =
     (let a = qu_fresh q;
          q1 = q\<lparr>qu_cells := (qu_cells q)(a \<mapsto> \<lparr>qe_value = v, qe_next = None\<rparr>), qu_fresh := a + 1\<rparr>
      in case qu_tail q of
           None \<Rightarrow> Some (q1\<lparr>qu_head := Some a, qu_tail := Some a, qu_size := qu_size q + 1\<rparr>)
         | Some t \<Rightarrow> do {
             e \<leftarrow> qu_cells q t;
             Some (q1\<lparr>qu_cells := (qu_cells q1)(t \<mapsto> e\<lparr>qe_next := Some a\<rparr>), qu_tail := Some a, qu_size := qu_size q + 1\<rparr>)
           })"

definition wait_body :: "'a wqueue \<Rightarrow> ('a \<times> 'a wqueue) option" where
  \<comment> \<open>\<open>Wait\<close> between \<open>Lock\<close> and \<open>Unlock\<close>\<close>
  "wait_body q = do {
     h \<leftarrow> qu_head q;
     e \<leftarrow> qu_cells q h;
     let q = q\<lparr>qu_head := qe_next e, qu_cells := (qu_cells q)(h := None)\<rparr>;
     let q = (if qu_head q = None then q\<lparr>qu_tail := None\<rparr> else q);
     Some (qe_value e, q\<lparr>qu_size := qu_size q - 1\<rparr>)
   }"

definition Semaphore_Post :: "'a wqueue \<Rightarrow> 'a wqueue" where
  "Semaphore_Post q = q\<lparr>qu_sem := snd (ReleaseSemaphore SEM_MAX 1 (qu_sem q))\<rparr>"

definition Semaphore_Wait :: "'a wqueue \<Rightarrow> 'a wqueue option" where
  "Semaphore_Wait q = map_option (\<lambda>n. q\<lparr>qu_sem := n\<rparr>) (WaitForSemaphore (qu_sem q))"

lemma Semaphore_Post_eq: "Semaphore_Post q = (if qu_sem q < SEM_MAX then q\<lparr>qu_sem := qu_sem q + 1\<rparr> else q)"
  by (simp add: Semaphore_Post_def ReleaseSemaphore_def)

lemma Semaphore_Wait_eq: "Semaphore_Wait q = (if qu_sem q = 0 then None else Some (q\<lparr>qu_sem := qu_sem q - 1\<rparr>))"
  by (simp add: Semaphore_Wait_def WaitForSemaphore_def)

text \<open>The whole operations, for a thread that finds the lock free.\<close>

definition Queue_Add :: "'a \<Rightarrow> 'a wqueue \<Rightarrow> 'a wqueue option" where
  "Queue_Add v q = map_option Semaphore_Post (add_body v q)"

definition Queue_Wait :: "'a wqueue \<Rightarrow> ('a option \<times> 'a wqueue) option" where
  \<comment> \<open>the value \<open>None\<close>: the thread blocks\<close>
  "Queue_Wait q =
     (case Semaphore_Wait q of
        None \<Rightarrow> Some (None, q)
      | Some q \<Rightarrow> map_option (\<lambda>(v, q). (Some v, q)) (wait_body q))"

section \<open>What the list stands for\<close>

fun chained :: "(nat \<Rightarrow> 'a QueueEntry option) \<Rightarrow> nat option \<Rightarrow> nat list \<Rightarrow> 'a list \<Rightarrow> bool" where
  "chained h p [] [] = (p = None)"
| "chained h p (a # as) (v # vs) = (p = Some a \<and> (\<exists>n. h a = Some \<lparr>qe_value = v, qe_next = n\<rparr> \<and> chained h n as vs))"
| "chained h p _ _ = False"

definition holds_items :: "'a wqueue \<Rightarrow> 'a list \<Rightarrow> bool" where
  "holds_items q vs \<longleftrightarrow> (\<exists>as. chained (qu_cells q) (qu_head q) as vs \<and> distinct as \<and> dom (qu_cells q) = set as
     \<and> (\<forall>a \<in> set as. a < qu_fresh q) \<and> qu_tail q = (if as = [] then None else Some (last as))
     \<and> qu_size q = int (length vs))"

lemma chained_length: "chained h p as vs \<Longrightarrow> length as = length vs"
  by (induction h p as vs rule: chained.induct) auto

lemma chained_cong: "\<forall>a \<in> set as. h' a = h a \<Longrightarrow> chained h p as vs \<Longrightarrow> chained h' p as vs"
  by (induction h p as vs rule: chained.induct) auto

lemma chained_snoc:
  "chained h p as vs \<Longrightarrow> distinct as \<Longrightarrow> as \<noteq> [] \<Longrightarrow> a \<notin> set as \<Longrightarrow> h (last as) = Some e \<Longrightarrow>
   chained (h(a \<mapsto> \<lparr>qe_value = v, qe_next = None\<rparr>, last as \<mapsto> e\<lparr>qe_next := Some a\<rparr>)) p (as @ [a]) (vs @ [v])"
proof (induction h p as vs rule: chained.induct)
  case (2 h p x as u vs)
  show ?case
  proof (cases as)
    case Nil
    then show ?thesis using 2 by (cases vs) auto
  next
    case (Cons y ys)
    obtain n where n: "h x = Some \<lparr>qe_value = u, qe_next = n\<rparr>" "chained h n as vs" using 2 by auto
    have l: "last (x # as) = last as" "x \<noteq> last as" using 2 Cons by auto
    define h' where "h' = h(a \<mapsto> \<lparr>qe_value = v, qe_next = None\<rparr>, last as \<mapsto> e\<lparr>qe_next := Some a\<rparr>)"
    have "chained h' n (as @ [a]) (vs @ [v])"
      unfolding h'_def by (rule "2.IH" [OF n(2)]) (use 2 Cons l in auto)
    moreover have "p = Some x" "h' x = h x" using "2.prems" l by (auto simp: h'_def)
    ultimately have "chained h' p ((x # as) @ [a]) ((u # vs) @ [v])" using n(1) by simp
    then show ?thesis unfolding h'_def l(1) .
  qed
qed auto

lemma holds_init: "holds_items Queue_init []"
  by (simp add: holds_items_def Queue_init_def)

lemma add_body_holds:
  assumes "holds_items q vs"
  shows "\<exists>q'. add_body v q = Some q' \<and> holds_items q' (vs @ [v]) \<and> qu_sem q' = qu_sem q"
proof -
  obtain as where as: "chained (qu_cells q) (qu_head q) as vs" "distinct as" "dom (qu_cells q) = set as"
    "\<forall>a \<in> set as. a < qu_fresh q" "qu_tail q = (if as = [] then None else Some (last as))" "qu_size q = int (length vs)"
    using assms by (auto simp: holds_items_def)
  define a where "a = qu_fresh q"
  have f: "a \<notin> set as" using as(4) by (auto simp: a_def)
  show ?thesis
  proof (cases "as = []")
    case True
    then have "vs = []" using chained_length [OF as(1)] by simp
    then show ?thesis using True as by (auto simp: add_body_def holds_items_def Let_def intro!: exI [where x = "[a]"] simp: a_def)
  next
    case False
    then obtain e where e: "qu_cells q (last as) = Some e" using as(3) by (metis domD last_in_set)
    have "chained ((qu_cells q)(a \<mapsto> \<lparr>qe_value = v, qe_next = None\<rparr>, last as \<mapsto> e\<lparr>qe_next := Some a\<rparr>)) (qu_head q) (as @ [a]) (vs @ [v])"
      by (rule chained_snoc [OF as(1,2) False f e])
    then show ?thesis using False as e f
      by (simp add: add_body_def holds_items_def Let_def a_def [symmetric]) (rule exI [where x = "as @ [a]"], auto simp: a_def)
  qed
qed

lemma wait_body_holds:
  assumes "holds_items q (v # vs)"
  shows "\<exists>q'. wait_body q = Some (v, q') \<and> holds_items q' vs \<and> qu_sem q' = qu_sem q"
proof -
  obtain as where as: "chained (qu_cells q) (qu_head q) as (v # vs)" "distinct as" "dom (qu_cells q) = set as"
    "\<forall>a \<in> set as. a < qu_fresh q" "qu_tail q = (if as = [] then None else Some (last as))" "qu_size q = int (length (v # vs))"
    using assms by (auto simp: holds_items_def)
  then obtain a bs n where a: "as = a # bs" "qu_head q = Some a" "qu_cells q a = Some \<lparr>qe_value = v, qe_next = n\<rparr>"
    "chained (qu_cells q) n bs vs" by (cases as) auto
  have "chained ((qu_cells q)(a := None)) n bs vs" by (rule chained_cong [OF _ a(4)]) (use as(2) a(1) in auto)
  moreover have "n = None \<longleftrightarrow> bs = []" using a(4) by (cases bs; cases vs) auto
  moreover have "dom ((qu_cells q)(a := None)) = set bs" using as(2,3) a(1) by auto
  ultimately show ?thesis using as a unfolding holds_items_def
    by (simp add: wait_body_def Let_def) (rule conjI; intro impI exI [where x = bs]; auto)
qed

section \<open>One thread at a time\<close>

definition queue_of :: "'a wqueue \<Rightarrow> 'a list \<Rightarrow> bool" where
  \<comment> \<open>between operations the semaphore counts the items\<close>
  "queue_of q vs \<longleftrightarrow> holds_items q vs \<and> qu_sem q = length vs"

interpretation work: blocking_queue queue_of Queue_Add Queue_Wait SEM_MAX
proof unfold_locales
  fix q :: "'a wqueue" and xs v
  assume a: "queue_of q xs" "length xs < SEM_MAX"
  then have h: "holds_items q xs" by (simp add: queue_of_def)
  obtain q' where "add_body v q = Some q'" "holds_items q' (xs @ [v])" "qu_sem q' = qu_sem q"
    using add_body_holds [OF h, of v] by blast
  then show "\<exists>q'. Queue_Add v q = Some q' \<and> queue_of q' (xs @ [v])"
    using a by (auto simp: Queue_Add_def Semaphore_Post_eq queue_of_def holds_items_def)
next
  fix q :: "'a wqueue"
  assume "queue_of q []"
  then show "Queue_Wait q = Some (None, q)" by (simp add: Queue_Wait_def Semaphore_Wait_eq queue_of_def)
next
  fix q :: "'a wqueue" and x xs
  assume a: "queue_of q (x # xs)"
  define q1 where "q1 = q\<lparr>qu_sem := qu_sem q - 1\<rparr>"
  have h: "holds_items q1 (x # xs)" using a by (simp add: queue_of_def holds_items_def q1_def)
  obtain q' where "wait_body q1 = Some (x, q')" "holds_items q' xs" "qu_sem q' = qu_sem q1"
    using wait_body_holds [OF h] by blast
  then show "\<exists>q'. Queue_Wait q = Some (Some x, q') \<and> queue_of q' xs"
    using a by (simp add: Queue_Wait_def Semaphore_Wait_eq queue_of_def q1_def)
qed

section \<open>All interleavings\<close>

datatype 'a thread =
    Idle
  | WantAdd 'a      \<comment> \<open>before \<open>Lock\<close>\<close>
  | Linking 'a      \<comment> \<open>owner of the lock\<close>
  | Unlocking
  | Posting
  | WantItem        \<comment> \<open>before \<open>Semaphore::Wait\<close>\<close>
  | Passed          \<comment> \<open>after it, before \<open>Lock\<close>\<close>
  | Taking
  | Leaving 'a
  | Threw           \<comment> \<open>\<open>new\<close> has thrown\<close>
  | Broken          \<comment> \<open>a bad pointer has been followed\<close>

fun owns :: "'a thread \<Rightarrow> bool" where
  "owns (Linking v) = True"
| "owns Unlocking = True"
| "owns Taking = True"
| "owns (Leaving v) = True"
| "owns Threw = True"
| "owns _ = False"

record 'a qsys =
  qs_queue :: "'a wqueue"
  qs_lock :: "nat option"
  qs_thr :: "nat \<Rightarrow> 'a thread"
  qs_in :: "'a list"      \<comment> \<open>what has been linked so far, in this order\<close>
  qs_out :: "'a list"     \<comment> \<open>what has been taken\<close>

definition qs_init :: "'a qsys" where
  "qs_init = \<lparr>qs_queue = Queue_init, qs_lock = None, qs_thr = (\<lambda>_. Idle), qs_in = [], qs_out = []\<rparr>"

definition goes :: "nat \<Rightarrow> 'a thread \<Rightarrow> 'a qsys \<Rightarrow> 'a qsys" where
  "goes t p s = s\<lparr>qs_thr := (qs_thr s)(t := p)\<rparr>"

inductive qstep :: "nat \<Rightarrow> 'a qsys \<Rightarrow> 'a qsys \<Rightarrow> bool" where
  call_add: "qs_thr s t = Idle \<Longrightarrow> qstep t s (goes t (WantAdd v) s)"
| add_lock: "qs_thr s t = WantAdd v \<Longrightarrow> qs_lock s = None \<Longrightarrow> qstep t s (goes t (Linking v) (s\<lparr>qs_lock := Some t\<rparr>))"
| add_link: "qs_thr s t = Linking v \<Longrightarrow> add_body v (qs_queue s) = Some q
    \<Longrightarrow> qstep t s (goes t Unlocking (s\<lparr>qs_queue := q, qs_in := qs_in s @ [v]\<rparr>))"
| add_throws: "qs_thr s t = Linking v \<Longrightarrow> qstep t s (goes t Threw s)"
| add_breaks: "qs_thr s t = Linking v \<Longrightarrow> add_body v (qs_queue s) = None \<Longrightarrow> qstep t s (goes t Broken s)"
| add_unlock: "qs_thr s t = Unlocking \<Longrightarrow> qstep t s (goes t Posting (s\<lparr>qs_lock := None\<rparr>))"
| add_post: "qs_thr s t = Posting \<Longrightarrow> qstep t s (goes t Idle (s\<lparr>qs_queue := Semaphore_Post (qs_queue s)\<rparr>))"
| call_wait: "qs_thr s t = Idle \<Longrightarrow> qstep t s (goes t WantItem s)"
| wait_pass: "qs_thr s t = WantItem \<Longrightarrow> Semaphore_Wait (qs_queue s) = Some q
    \<Longrightarrow> qstep t s (goes t Passed (s\<lparr>qs_queue := q\<rparr>))"
| wait_lock: "qs_thr s t = Passed \<Longrightarrow> qs_lock s = None \<Longrightarrow> qstep t s (goes t Taking (s\<lparr>qs_lock := Some t\<rparr>))"
| wait_take: "qs_thr s t = Taking \<Longrightarrow> wait_body (qs_queue s) = Some (v, q)
    \<Longrightarrow> qstep t s (goes t (Leaving v) (s\<lparr>qs_queue := q, qs_out := qs_out s @ [v]\<rparr>))"
| wait_breaks: "qs_thr s t = Taking \<Longrightarrow> wait_body (qs_queue s) = None \<Longrightarrow> qstep t s (goes t Broken s)"
| wait_unlock: "qs_thr s t = Leaving v \<Longrightarrow> qstep t s (goes t Idle (s\<lparr>qs_lock := None\<rparr>))"

inductive reaches :: "'a qsys \<Rightarrow> bool" where
  start: "reaches qs_init"
| step: "reaches s \<Longrightarrow> qstep t s s' \<Longrightarrow> reaches s'"

fun credit :: "'a thread \<Rightarrow> bool" where
  \<comment> \<open>it has taken from the semaphore and not yet from the list, or is about to release what it linked\<close>
  "credit Unlocking = True"
| "credit Posting = True"
| "credit Passed = True"
| "credit Taking = True"
| "credit _ = False"

definition credits :: "(nat \<Rightarrow> 'a thread) \<Rightarrow> nat" where
  "credits f = card {t. credit (f t)}"

lemma credits_upd:
  assumes "finite {t. f t \<noteq> Idle}"
  shows "finite {t. (f(u := p)) t \<noteq> Idle}" "credits (f(u := p)) + of_bool (credit (f u)) = credits f + of_bool (credit p)"
proof -
  show "finite {t. (f(u := p)) t \<noteq> Idle}" by (rule finite_subset [OF _ finite.insertI [OF assms, of u]]) auto
  have "{t. credit (f t)} \<subseteq> {t. f t \<noteq> Idle}" by auto
  then have F: "finite {t. credit (f t)}" using assms finite_subset by blast
  define C where "C = {t. credit (f t)} - {u}"
  have C: "finite C" "u \<notin> C" using F by (auto simp: C_def)
  have "{t. credit (f t)} = (if credit (f u) then insert u C else C)" "{t. credit ((f(u := p)) t)} = (if credit p then insert u C else C)"
    by (auto simp: C_def)
  then show "credits (f(u := p)) + of_bool (credit (f u)) = credits f + of_bool (credit p)"
    using C unfolding credits_def by auto
qed

definition lock_inv :: "'a qsys \<Rightarrow> bool" where
  "lock_inv s \<longleftrightarrow> (\<forall>t. qs_lock s = Some t \<longleftrightarrow> owns (qs_thr s t))"

definition items_inv :: "'a list \<Rightarrow> 'a qsys \<Rightarrow> bool" where
  \<comment> \<open>the items, and as many credits; fewer when the semaphore has once been full\<close>
  "items_inv xs s \<longleftrightarrow> finite {t. qs_thr s t \<noteq> Idle} \<and> (\<forall>t. qs_thr s t \<noteq> Broken) \<and> holds_items (qs_queue s) xs
     \<and> qs_in s = qs_out s @ xs \<and> qu_sem (qs_queue s) + credits (qs_thr s) \<le> length xs
     \<and> (length (qs_in s) \<le> SEM_MAX \<longrightarrow> qu_sem (qs_queue s) + credits (qs_thr s) = length xs)"

lemma qs_thr_goes [simp]:
  "qs_thr (goes t p s) = (qs_thr s)(t := p)" "qs_lock (goes t p s) = qs_lock s" "qs_queue (goes t p s) = qs_queue s"
  "qs_in (goes t p s) = qs_in s" "qs_out (goes t p s) = qs_out s"
  by (simp_all add: goes_def)

lemma one_owner: "lock_inv s \<Longrightarrow> owns (qs_thr s t) \<Longrightarrow> owns (qs_thr s u) \<Longrightarrow> t = u"
  unfolding lock_inv_def by (metis option.inject)

lemma lock_inv_step: "qstep t s s' \<Longrightarrow> lock_inv s \<Longrightarrow> (\<forall>t. qs_thr s' t \<noteq> Broken) \<Longrightarrow> lock_inv s'"
proof (induction t s s' rule: qstep.induct)
  case (add_unlock s t)
  then show ?case using one_owner [of s t] by (auto simp: lock_inv_def)
next
  case (wait_unlock s t v)
  then show ?case using one_owner [of s t] by (auto simp: lock_inv_def)
qed (auto simp: lock_inv_def split: if_splits)

lemma items_step:
  assumes "items_inv xs s" "holds_items q ys" "i = z @ ys" "p \<noteq> Broken"
    "qu_sem q + length xs + of_bool (credit p) = qu_sem (qs_queue s) + length ys + of_bool (credit (qs_thr s t))"
    "length (qs_in s) \<le> length i"
  shows "items_inv ys (goes t p (s\<lparr>qs_lock := l, qs_queue := q, qs_in := i, qs_out := z\<rparr>))"
proof -
  have f: "finite {t. qs_thr s t \<noteq> Idle}" using assms(1) by (simp add: items_inv_def)
  note c = credits_upd [OF f, of t p]
  have "qu_sem q + credits ((qs_thr s)(t := p)) + length xs = qu_sem (qs_queue s) + credits (qs_thr s) + length ys"
    using c(2) assms(5) by linarith
  then show ?thesis using assms c(1) by (auto simp: items_inv_def)
qed

lemma item_for_credit: "items_inv xs s \<Longrightarrow> credit (qs_thr s t) \<Longrightarrow> xs \<noteq> []"
proof -
  assume a: "items_inv xs s" "credit (qs_thr s t)"
  have "{t. credit (qs_thr s t)} \<subseteq> {t. qs_thr s t \<noteq> Idle}" by auto
  then have "finite {t. credit (qs_thr s t)}" using a(1) finite_subset unfolding items_inv_def by blast
  then have "credits (qs_thr s) > 0" using a(2) unfolding credits_def by (auto simp: card_gt_0_iff)
  then show ?thesis using a(1) unfolding items_inv_def by auto
qed

lemma items_inv_same:
  assumes "items_inv xs s" "p \<noteq> Broken" "credit p = credit (qs_thr s t)"
  shows "items_inv xs (goes t p (s\<lparr>qs_lock := l\<rparr>))"
proof -
  have "items_inv xs (goes t p (s\<lparr>qs_lock := l, qs_queue := qs_queue s, qs_in := qs_in s, qs_out := qs_out s\<rparr>))"
    by (rule items_step [OF assms(1) _ _ assms(2)]) (use assms(1,3) in \<open>auto simp: items_inv_def\<close>)
  then show ?thesis by simp
qed

lemma items_inv_goes: "items_inv xs s \<Longrightarrow> p \<noteq> Broken \<Longrightarrow> credit p = credit (qs_thr s t) \<Longrightarrow> items_inv xs (goes t p s)"
  using items_inv_same [of xs s p t "qs_lock s"] by simp

lemma items_inv_step: "qstep t s s' \<Longrightarrow> items_inv xs s \<Longrightarrow> \<exists>ys. items_inv ys s'"
proof (induction t s s' rule: qstep.induct)
  case (add_link s t v q)
  have h: "holds_items q (xs @ [v])" "qu_sem q = qu_sem (qs_queue s)"
    using add_body_holds [of "qs_queue s" xs v] add_link by (auto simp: items_inv_def)
  have "items_inv (xs @ [v]) (goes t Unlocking (s\<lparr>qs_lock := qs_lock s, qs_queue := q, qs_in := qs_in s @ [v], qs_out := qs_out s\<rparr>))"
    by (rule items_step [OF add_link.prems h(1)]) (use add_link h in \<open>auto simp: items_inv_def\<close>)
  then show ?case by auto
next
  case (add_breaks s t v)
  then show ?case using add_body_holds [of "qs_queue s" xs v] by (auto simp: items_inv_def)
next
  case (add_post s t)
  define q where "q = Semaphore_Post (qs_queue s)"
  have h: "holds_items q xs" using add_post.prems by (auto simp: q_def items_inv_def Semaphore_Post_eq holds_items_def)
  show ?case
  proof (cases "qu_sem (qs_queue s) < SEM_MAX")
    case True
    have "items_inv xs (goes t Idle (s\<lparr>qs_lock := qs_lock s, qs_queue := q, qs_in := qs_in s, qs_out := qs_out s\<rparr>))"
      by (rule items_step [OF add_post.prems h]) (use add_post True in \<open>auto simp: items_inv_def q_def Semaphore_Post_eq\<close>)
    then show ?thesis by (auto simp: q_def)
  next
    case False
    have f: "finite {t. qs_thr s t \<noteq> Idle}" using add_post.prems by (simp add: items_inv_def)
    have "credits ((qs_thr s)(t := Idle)) + 1 = credits (qs_thr s)" using credits_upd(2) [OF f, of t Idle] add_post.hyps by simp
    then have "items_inv xs (goes t Idle s)"
      using add_post.prems credits_upd(1) [OF f, of t Idle] False by (auto simp: items_inv_def)
    moreover have "s\<lparr>qs_queue := Semaphore_Post (qs_queue s)\<rparr> = s" using False by (simp add: Semaphore_Post_eq)
    ultimately show ?thesis by auto
  qed
next
  case (wait_pass s t q)
  have q: "q = (qs_queue s)\<lparr>qu_sem := qu_sem (qs_queue s) - 1\<rparr>" "qu_sem (qs_queue s) > 0"
    using wait_pass.hyps(2) by (auto simp: Semaphore_Wait_eq split: if_splits)
  then have h: "holds_items q xs" using wait_pass.prems by (simp add: items_inv_def holds_items_def)
  have "items_inv xs (goes t Passed (s\<lparr>qs_lock := qs_lock s, qs_queue := q, qs_in := qs_in s, qs_out := qs_out s\<rparr>))"
    by (rule items_step [OF wait_pass.prems h]) (use wait_pass.prems wait_pass.hyps(1) q in \<open>simp_all add: items_inv_def\<close>)
  then show ?case by auto
next
  case (wait_take s t v q)
  have "xs \<noteq> []" by (rule item_for_credit [OF wait_take.prems, of t]) (simp add: wait_take.hyps)
  then obtain ys where xs: "xs = v # ys" "holds_items q ys" "qu_sem q = qu_sem (qs_queue s)"
    using wait_take wait_body_holds [of "qs_queue s"] by (cases xs) (fastforce simp: items_inv_def)+
  have "items_inv ys (goes t (Leaving v) (s\<lparr>qs_lock := qs_lock s, qs_queue := q, qs_in := qs_in s, qs_out := qs_out s @ [v]\<rparr>))"
    by (rule items_step [OF wait_take.prems xs(2)]) (use wait_take xs in \<open>auto simp: items_inv_def\<close>)
  then show ?case by auto
next
  case (wait_breaks s t)
  have "xs \<noteq> []" by (rule item_for_credit [OF wait_breaks.prems, of t]) (simp add: wait_breaks.hyps)
  then show ?case using wait_breaks wait_body_holds [of "qs_queue s"] by (cases xs) (fastforce simp: items_inv_def)+
next
  case (add_lock s t v)
  have "items_inv xs (goes t (Linking v) (s\<lparr>qs_lock := Some t\<rparr>))" by (rule items_inv_same [OF add_lock.prems]) (simp_all add: add_lock.hyps)
  then show ?case ..
next
  case (add_unlock s t)
  have "items_inv xs (goes t Posting (s\<lparr>qs_lock := None\<rparr>))" by (rule items_inv_same [OF add_unlock.prems]) (simp_all add: add_unlock.hyps)
  then show ?case ..
next
  case (wait_lock s t)
  have "items_inv xs (goes t Taking (s\<lparr>qs_lock := Some t\<rparr>))" by (rule items_inv_same [OF wait_lock.prems]) (simp_all add: wait_lock.hyps)
  then show ?case ..
next
  case (wait_unlock s t v)
  have "items_inv xs (goes t Idle (s\<lparr>qs_lock := None\<rparr>))" by (rule items_inv_same [OF wait_unlock.prems]) (simp_all add: wait_unlock.hyps)
  then show ?case ..
qed (rule exI, erule items_inv_goes; simp)+

lemma reaches_inv: "reaches s \<Longrightarrow> lock_inv s \<and> (\<exists>xs. items_inv xs s)"
proof (induction rule: reaches.induct)
  case start
  then show ?case using holds_init by (auto simp: lock_inv_def items_inv_def qs_init_def credits_def Queue_init_def intro!: exI [where x = "[]"])
next
  case (step s t s')
  then obtain ys where "items_inv ys s'" using items_inv_step by blast
  moreover from this have "lock_inv s'" using lock_inv_step step by (auto simp: items_inv_def)
  ultimately show ?case by blast
qed

definition added_one :: "'a \<Rightarrow> 'a qsys" where
  \<comment> \<open>thread 0 has linked an item and not yet released it, thread 1 waits\<close>
  "added_one v = \<lparr>qs_queue = \<lparr>qu_cells = [0 \<mapsto> \<lparr>qe_value = v, qe_next = None\<rparr>], qu_fresh = 1, qu_head = Some 0, qu_tail = Some 0,
       qu_size = 1, qu_sem = 0\<rparr>, qs_lock = None, qs_thr = (\<lambda>_. Idle)(0 := Posting, 1 := WantItem), qs_in = [v], qs_out = []\<rparr>"

lemma reaches_added_one: "reaches (added_one v)"
proof -
  define s1 where "s1 = goes 1 WantItem (qs_init :: 'a qsys)"
  define s2 where "s2 = goes 0 (WantAdd v) s1"
  define s3 where "s3 = goes 0 (Linking v) (s2\<lparr>qs_lock := Some 0\<rparr>)"
  define q where "q = \<lparr>qu_cells = [0 \<mapsto> \<lparr>qe_value = v, qe_next = None\<rparr>], qu_fresh = 1, qu_head = Some 0, qu_tail = Some 0,
       qu_size = 1, qu_sem = 0\<rparr>"
  define s4 where "s4 = goes 0 Unlocking (s3\<lparr>qs_queue := q, qs_in := qs_in s3 @ [v]\<rparr>)"
  define s5 where "s5 = goes 0 Posting (s4\<lparr>qs_lock := None\<rparr>)"
  have b: "add_body v (qs_queue s3) = Some q"
    by (simp add: s3_def s2_def s1_def goes_def qs_init_def Queue_init_def add_body_def Let_def q_def)
  have "reaches s1" unfolding s1_def by (rule reaches.step [OF start call_wait]) (simp add: qs_init_def)
  then have "reaches s2" unfolding s2_def by (rule reaches.step) (rule call_add, simp add: s1_def qs_init_def)
  then have "reaches s3" unfolding s3_def by (rule reaches.step) (rule add_lock, simp_all add: s2_def s1_def qs_init_def)
  then have "reaches s4" unfolding s4_def by (rule reaches.step) (rule add_link [OF _ b], simp add: s3_def)
  then have "reaches s5" unfolding s5_def by (rule reaches.step) (rule add_unlock, simp add: s4_def)
  moreover have "s5 = added_one v"
    by (simp add: s5_def s4_def s3_def s2_def s1_def goes_def qs_init_def added_one_def q_def fun_eq_iff)
  ultimately show ?thesis by simp
qed

text \<open>
  C35: every interleaving of any number of threads, with a \<open>new\<close> that may throw, keeps the work
  queue a queue: what has been taken is what was added first, in the order in which it was added, the
  list holds exactly the rest, \<open>m_nSize\<close> is their number, at most one thread is between \<open>Lock\<close> and
  \<open>Unlock\<close>, and no \<open>Wait\<close> or \<open>Add\<close> follows a NULL or dangling pointer.
\<close>
theorem queue_is_linearizable:
  assumes "reaches s"
  shows "\<exists>xs. holds_items (qs_queue s) xs \<and> qs_in s = qs_out s @ xs \<and> qu_size (qs_queue s) = int (length xs)
    \<and> (\<forall>t u. owns (qs_thr s t) \<and> owns (qs_thr s u) \<longrightarrow> t = u) \<and> (\<forall>t. qs_thr s t \<noteq> Broken)"
proof -
  obtain xs where "lock_inv s" "items_inv xs s" using reaches_inv [OF assms] by blast
  then show ?thesis using one_owner [of s] unfolding items_inv_def holds_items_def by blast
qed

theorem queue_is_linearizable_witness:
  "\<exists>xs. holds_items (qs_queue (added_one ''job'')) xs \<and> [''job''] = [] @ xs"
  using queue_is_linearizable [OF reaches_added_one [of "''job''"]] by (fastforce simp: added_one_def)

lemma owner_steps:
  assumes "items_inv xs s" "\<forall>t. qs_thr s t \<noteq> Threw" "owns (qs_thr s u)"
  shows "\<exists>s'. qstep u s s'"
proof (cases "qs_thr s u")
  case (Linking v)
  have h: "holds_items (qs_queue s) xs" using assms(1) by (simp add: items_inv_def)
  obtain q where "add_body v (qs_queue s) = Some q" using add_body_holds [OF h, of v] by blast
  then show ?thesis using qstep.add_link [OF Linking] by blast
next
  case Taking
  have "xs \<noteq> []" by (rule item_for_credit [OF assms(1), of u]) (simp add: Taking)
  then obtain v ys where xs: "xs = v # ys" by (cases xs) auto
  have h: "holds_items (qs_queue s) (v # ys)" using assms(1) by (simp add: items_inv_def xs)
  obtain q where "wait_body (qs_queue s) = Some (v, q)" using wait_body_holds [OF h] by blast
  then show ?thesis using qstep.wait_take [OF Taking] by blast
next
  case Unlocking
  then show ?thesis using qstep.add_unlock [OF Unlocking] by blast
next
  case (Leaving v)
  then show ?thesis using qstep.wait_unlock [OF Leaving] by blast
qed (use assms(2,3) in simp_all)

lemma busy_steps:
  assumes "lock_inv s" "items_inv xs s" "\<forall>t. qs_thr s t \<noteq> Threw" "qs_thr s u \<noteq> Idle" "qs_thr s u \<noteq> WantItem"
  shows "\<exists>u s'. qs_thr s u \<noteq> Idle \<and> qstep u s s'"
proof (cases "qs_lock s")
  case (Some w)
  then have "owns (qs_thr s w)" using assms(1) unfolding lock_inv_def by blast
  moreover from this have "qs_thr s w \<noteq> Idle" by auto
  ultimately show ?thesis using owner_steps [OF assms(2,3)] by blast
next
  case None
  have nb: "qs_thr s u \<noteq> Broken" using assms(2) by (simp add: items_inv_def)
  have "\<exists>s'. qstep u s s'"
  proof (cases "qs_thr s u")
    case (WantAdd v)
    show ?thesis by (rule exI, rule qstep.add_lock [OF WantAdd None])
  next
    case Posting
    show ?thesis by (rule exI, rule qstep.add_post [OF Posting])
  next
    case Passed
    show ?thesis by (rule exI, rule qstep.wait_lock [OF Passed None])
  qed (use assms(3-5) nb owner_steps [OF assms(2,3), of u] in simp_all)
  then show ?thesis using assms(4) by blast
qed

text \<open>
  C36: no wake-up is lost and nothing deadlocks. As long as no \<open>new\<close> has thrown and at most
  \<open>0x7ffffff\<close> items have been added, whenever a thread is inside an operation, other than waiting for
  an item where there is none, some thread that is inside an operation can go on. In particular
  no thread waits for ever beside an item that has been added.
\<close>
theorem queue_never_stalls:
  assumes "reaches s" "\<forall>t. qs_thr s t \<noteq> Threw" "length (qs_in s) \<le> SEM_MAX"
    "qs_thr s t \<noteq> Idle" "qs_thr s t = WantItem \<Longrightarrow> qs_in s \<noteq> qs_out s"
  shows "\<exists>u s'. qs_thr s u \<noteq> Idle \<and> qstep u s s'"
proof -
  obtain xs where l: "lock_inv s" and i: "items_inv xs s" using reaches_inv [OF assms(1)] by blast
  show ?thesis
  proof (cases "qs_thr s t = WantItem")
    case True
    then have "xs \<noteq> []" using assms(5) i unfolding items_inv_def by auto
    then have "qu_sem (qs_queue s) + credits (qs_thr s) > 0" using i assms(3) by (simp add: items_inv_def)
    then consider "qu_sem (qs_queue s) > 0" | "credits (qs_thr s) > 0" by linarith
    then show ?thesis
    proof cases
      case 1
      then have "Semaphore_Wait (qs_queue s) = Some ((qs_queue s)\<lparr>qu_sem := qu_sem (qs_queue s) - 1\<rparr>)" by (simp add: Semaphore_Wait_eq)
      then show ?thesis using wait_pass [OF True] assms(4) by blast
    next
      case 2
      then obtain u where "credit (qs_thr s u)" unfolding credits_def by (metis (mono_tags, lifting) Collect_empty_eq card.empty less_numeral_extra(3))
      then have "qs_thr s u \<noteq> Idle" "qs_thr s u \<noteq> WantItem" by auto
      then show ?thesis by (rule busy_steps [OF l i assms(2)])
    qed
  qed (use busy_steps [OF l i assms(2,4)] in blast)
qed

theorem queue_never_stalls_witness: "\<exists>u s'. qs_thr (added_one ''job'') u \<noteq> Idle \<and> qstep u (added_one ''job'') s'"
  by (rule queue_never_stalls [OF reaches_added_one, of _ 1]) (simp_all add: added_one_def)

end
