(* ===== verification/Logging.thy ===== *)
theory Logging
  imports SdsText WorkQueue
begin

text \<open>
  The log files of \<open>Logging.cpp\<close> (class \<open>CLogging\<close>), as the Debug configuration builds them, with
  \<open>_QUEUE\<close> and without \<open>_MUTEX\<close>: messages go into a queue, one thread takes them from there into a
  buffer and from the buffer into a file, another one flushes the buffer every ten seconds and starts
  new files. Each method is a function on the object and the system; what the calls of the
  system answer (times, settings, whether files can be opened, written and moved) is part of the
  system's state. A method takes the text that \<open>_vsnprintf\<close> makes of a format and its arguments.
  \<open>None\<close> is a fault, a text that leaves its array included, or a thread that blocks for good.
\<close>

unbundle bit_operations_syntax

section \<open>The system\<close>

record SYSTEMTIME =
  wYear :: "16 word"
  wMonth :: "16 word"
  wDay :: "16 word"
  wHour :: "16 word"
  wMinute :: "16 word"
  wSecond :: "16 word"
  wMilliseconds :: "16 word"

record os =
  lo_time :: "nat \<Rightarrow> SYSTEMTIME"    \<comment> \<open>what each call of \<open>GetLocalTime\<close> gives\<close>
  lo_ticks :: nat
  lo_ini :: "nat \<Rightarrow> string \<Rightarrow> string \<Rightarrow> 32 word option"   \<comment> \<open>what each reading of the settings finds\<close>
  lo_reads :: nat
  lo_app :: string                     \<comment> \<open>the text under \<open>Log Versions\<close>\<close>
  lo_exe :: string                     \<comment> \<open>the file name of the program\<close>
  lo_files :: "string \<Rightarrow> string option"
  lo_opens :: "bool list"              \<comment> \<open>whether \<open>CreateFile\<close> works, from now on; afterwards it does\<close>
  lo_writes :: "nat list"              \<comment> \<open>how much \<open>WriteFile\<close> takes at most; afterwards everything\<close>
  lo_moves :: "bool list"              \<comment> \<open>whether a file can be moved\<close>
  lo_moved :: "string list"            \<comment> \<open>the names of the files that were moved, in the order of the last moves\<close>
  lo_dirs :: "string list"             \<comment> \<open>directories made\<close>

definition GetLocalTime :: "os \<Rightarrow> SYSTEMTIME \<times> os" where
  "GetLocalTime os = (lo_time os (lo_ticks os), os\<lparr>lo_ticks := lo_ticks os + 1\<rparr>)"

definition GetPrivateProfileInt :: "string \<Rightarrow> string \<Rightarrow> 32 word \<Rightarrow> os \<Rightarrow> 32 word \<times> os" where
  "GetPrivateProfileInt section key dflt os =
     ((case lo_ini os (lo_reads os) section key of None \<Rightarrow> dflt | Some v \<Rightarrow> v), os\<lparr>lo_reads := lo_reads os + 1\<rparr>)"

definition CreateFile :: "string \<Rightarrow> os \<Rightarrow> bool \<times> os" where
  \<comment> \<open>\<open>OPEN_ALWAYS\<close>\<close>
  "CreateFile path os =
     (let ok = (lo_opens os = [] \<or> hd (lo_opens os));
          os = os\<lparr>lo_opens := tl (lo_opens os)\<rparr>
      in if \<not> ok then (False, os)
         else if lo_files os path = None then (True, os\<lparr>lo_files := (lo_files os)(path \<mapsto> [])\<rparr>) else (True, os))"

definition WriteFile :: "string \<Rightarrow> string \<Rightarrow> os \<Rightarrow> nat \<times> os" where
  \<comment> \<open>at the end of an open file\<close>
  "WriteFile path data os =
     (let n = (case lo_writes os of [] \<Rightarrow> length data | k # _ \<Rightarrow> min k (length data));
          old = (case lo_files os path of None \<Rightarrow> [] | Some t \<Rightarrow> t)
      in (n, os\<lparr>lo_writes := tl (lo_writes os), lo_files := (lo_files os)(path \<mapsto> old @ take n data)\<rparr>))"

definition MoveFileExA :: "string \<Rightarrow> string \<Rightarrow> os \<Rightarrow> bool \<times> os" where
  \<comment> \<open>\<open>MOVEFILE_REPLACE_EXISTING\<close>: a file of the name \<open>dst\<close> is gone\<close>
  "MoveFileExA src dst os =
     (let ok = (lo_moves os = [] \<or> hd (lo_moves os));
          os = os\<lparr>lo_moves := tl (lo_moves os)\<rparr>
      in case lo_files os src of
           None \<Rightarrow> (False, os)
         | Some t \<Rightarrow>
             if ok then (True, os\<lparr>lo_files := (lo_files os)(src := None, dst \<mapsto> t), lo_moved := filter (\<lambda>n. n \<noteq> dst) (lo_moved os) @ [dst]\<rparr>)
             else (False, os))"

section \<open>Texts in arrays\<close>

abbreviation MAX_PATH :: nat where "MAX_PATH \<equiv> 260"

definition put_str :: "nat \<Rightarrow> string \<Rightarrow> string option" where
  \<comment> \<open>\<open>strcpy\<close>, \<open>strcat\<close> and \<open>sprintf\<close> into an array of that size\<close>
  "put_str n s = (if length s < n then Some s else None)"

definition strrchr :: "string \<Rightarrow> char \<Rightarrow> nat option" where
  "strrchr s c = (if c \<in> set s then Some (length s - 1 - length (takeWhile (\<lambda>x. x \<noteq> c) (rev s))) else None)"

definition pad_to :: "nat \<Rightarrow> char \<Rightarrow> string \<Rightarrow> string" where
  "pad_to n c s = replicate (n - length s) c @ s"

definition d0 :: "nat \<Rightarrow> 16 word \<Rightarrow> string" where
  \<comment> \<open>\<open>%02d\<close> and \<open>%03d\<close> of a \<open>WORD\<close>\<close>
  "d0 n v = pad_to n (CHR ''0'') (dec_nat (unat v))"

definition year_text :: "SYSTEMTIME \<Rightarrow> string" where
  \<comment> \<open>\<open>%4d\<close>\<close>
  "year_text t = pad_to 4 (CHR '' '') (dec_nat (unat (wYear t)))"

section \<open>The object\<close>

record CLogging =
  m_LastSystemTime :: SYSTEMTIME
  m_bBreakOnHourChange :: bool
  m_bStartupHdr :: bool
  m_dwTotalBytesWritten :: "32 word"
  m_dwMaxBytesPerLogFile :: "32 word"
  m_dwFileCounter :: "32 word"
  m_dwTotalWriteBytes :: nat
  m_szTempLogFile :: string
  m_szLogFile :: string
  m_szModuleName :: string
  m_szSection :: string
  m_szLogName :: string
  m_szIniFileName :: string
  m_szAppNumber :: string
  m_szOutBuffer :: "char list"
  m_nFlags :: "32 word"
  m_LogQueue :: "string wqueue"
  m_LogMutex :: nat

abbreviation OUT_SIZE :: nat where "OUT_SIZE \<equiv> 15 * 1024 + 1"

type_synonym logged = "(CLogging \<times> os) option"

definition BuildDateTime :: "SYSTEMTIME \<Rightarrow> string" where
  "BuildDateTime t = ''-'' @ year_text t @ d0 2 (wMonth t) @ d0 2 (wDay t) @ ''-'' @ d0 2 (wHour t) @ ''00''"

definition BuildLogDateTime :: "os \<Rightarrow> string \<times> os" where
  "BuildLogDateTime os =
     (let (t, os) = GetLocalTime os
      in (year_text t @ ''-'' @ d0 2 (wMonth t) @ ''-'' @ d0 2 (wDay t) @ '' '' @ d0 2 (wHour t) @ '':'' @ d0 2 (wMinute t)
            @ '':'' @ d0 2 (wSecond t) @ ''.'' @ d0 3 (wMilliseconds t) @ '': '', os))"

definition BuildLogFileName :: "CLogging \<Rightarrow> CLogging option" where
  "BuildLogFileName c = do {
     szFileName \<leftarrow> put_str (MAX_PATH + 1) (m_szIniFileName c);
     dot \<leftarrow> strrchr szFileName (CHR ''.'');
     let szFileName = take dot szFileName;
     let drive = take 3 (if szFileName \<noteq> [] \<and> hd szFileName = DQUOTE then tl szFileName else szFileName);
     let module_name = (case strrchr szFileName BACKSLASH of None \<Rightarrow> ''UnKnown'' | Some p \<Rightarrow> drop (p + 1) szFileName);
     let name = (if m_szLogName c \<noteq> [] then m_szLogName c else module_name);
     temp \<leftarrow> put_str (MAX_PATH + 1) (drive @ name @ ''.Log'');
     szDateTime \<leftarrow> put_str 100 (BuildDateTime (m_LastSystemTime c));
     let logfile = drive @ ''Logs'' @ [BACKSLASH] @ name @ [BACKSLASH] @ name @ szDateTime;
     let counter = (if m_dwMaxBytesPerLogFile c \<noteq> 0 then m_dwFileCounter c + 1 else m_dwFileCounter c);
     szNum \<leftarrow> (if m_dwMaxBytesPerLogFile c \<noteq> 0 then put_str 11 (''-'' @ dec_int (sint counter)) else Some []);
     logfile \<leftarrow> put_str (MAX_PATH + 1) (logfile @ szNum @ ''.Log'');
     Some (c\<lparr>m_szTempLogFile := temp, m_szLogFile := logfile, m_szModuleName := module_name, m_dwFileCounter := counter\<rparr>)
   }"

section \<open>Messages\<close>

definition QueueAdd :: "string \<Rightarrow> CLogging \<Rightarrow> CLogging option" where
  \<comment> \<open>a \<open>std::string\<close> of what stands before the NUL\<close>
  "QueueAdd pData c = map_option (\<lambda>q. c\<lparr>m_LogQueue := q\<rparr>) (Queue_Add (takeWhile (\<lambda>x. x \<noteq> NUL) pData) (m_LogQueue c))"

definition Log :: "string option \<Rightarrow> CLogging \<Rightarrow> os \<Rightarrow> logged" where
  \<comment> \<open>\<open>_vsnprintf(szLogMsg + 25, sizeof(szLogMsg) - 25 - 1, ...)\<close> in an array of zeros\<close>
  "Log szMsg c os =
     (case szMsg of
        None \<Rightarrow> Some (c, os)
      | Some text \<Rightarrow>
          let (stamp, os) = BuildLogDateTime os
          in map_option (\<lambda>c. (c, os)) (QueueAdd (take 25 stamp @ take (4 * 1024 - 25 - 1) text) c))"

definition LogNT :: "string option \<Rightarrow> CLogging \<Rightarrow> os \<Rightarrow> logged" where
  "LogNT szMsg c os =
     (case szMsg of
        None \<Rightarrow> Some (c, os)
      | Some text \<Rightarrow> map_option (\<lambda>c. (c, os)) (QueueAdd (take (4 * 1024 - 1) text) c))"

definition SetErrorLevel :: "nat \<Rightarrow> bool \<Rightarrow> 32 word" where
  "SetErrorLevel nLevel bFlag = push_bit nLevel (of_bool bFlag)"

definition IsErrorLevelSet :: "nat \<Rightarrow> CLogging \<Rightarrow> bool" where
  "IsErrorLevelSet nLevel c \<longleftrightarrow> m_nFlags c AND push_bit nLevel 1 \<noteq> 0"

definition Log_level :: "nat \<Rightarrow> string option \<Rightarrow> CLogging \<Rightarrow> os \<Rightarrow> logged" where
  "Log_level nLevel szMsg c os = (if szMsg = None \<or> \<not> IsErrorLevelSet nLevel c then Some (c, os) else Log szMsg c os)"

definition LogNT_level :: "nat \<Rightarrow> string option \<Rightarrow> CLogging \<Rightarrow> os \<Rightarrow> logged" where
  "LogNT_level nLevel szMsg c os = (if szMsg = None \<or> \<not> IsErrorLevelSet nLevel c then Some (c, os) else LogNT szMsg c os)"

definition flush_out :: "CLogging \<Rightarrow> os \<Rightarrow> logged" where
  \<comment> \<open>the inner part of \<open>WriteLogFileMsg\<close>; the count of bytes stays when the file cannot be opened\<close>
  "flush_out c os = do {
     (let (ok, os) = CreateFile (m_szTempLogFile c) os in do {
        (c, os) \<leftarrow>
          (if ok then do {
             bytes \<leftarrow> read_at 0 (m_dwTotalWriteBytes c) (m_szOutBuffer c);
             let (dwWritten, os) = WriteFile (m_szTempLogFile c) bytes os;
             Some (c\<lparr>m_dwTotalBytesWritten := m_dwTotalBytesWritten c + of_nat dwWritten, m_dwTotalWriteBytes := 0\<rparr>, os)
           } else Some (c, os));
        buf \<leftarrow> poke 0 NUL (m_szOutBuffer c);
        Some (c\<lparr>m_szOutBuffer := buf\<rparr>, os)
      })
   }"

definition append_out :: "string \<Rightarrow> CLogging \<Rightarrow> CLogging option" where
  \<comment> \<open>\<open>if (*szLogMsg)\<close>: the message and a line break, wherever the array ends\<close>
  "append_out szLogMsg c =
     (if szLogMsg \<noteq> [] then do {
        buf \<leftarrow> write_at (m_dwTotalWriteBytes c) szLogMsg (m_szOutBuffer c);
        let n = m_dwTotalWriteBytes c + length szLogMsg;
        buf \<leftarrow> write_at n CRLF buf;
        Some (c\<lparr>m_szOutBuffer := buf, m_dwTotalWriteBytes := n + 2\<rparr>)
      } else Some c)"

definition WriteLogFileMsg :: "string \<Rightarrow> bool \<Rightarrow> CLogging \<Rightarrow> os \<Rightarrow> logged" where
  "WriteLogFileMsg szLogMsg bWriteNow c os = do {
     held \<leftarrow> CATMutex_Lock False (m_LogMutex c);
     let c = c\<lparr>m_LogMutex := held\<rparr>;
     c \<leftarrow> append_out szLogMsg c;
     first \<leftarrow> rd (m_szOutBuffer c) 0;
     (c, os) \<leftarrow> (if first \<noteq> NUL \<and> (bWriteNow \<or> m_dwTotalWriteBytes c > 1024) then flush_out c os else Some (c, os));
     Some (c\<lparr>m_LogMutex := CATMutex_Unlock (m_LogMutex c)\<rparr>, os)
   }"

section \<open>Files\<close>

definition DateCheck :: "CLogging \<Rightarrow> os \<Rightarrow> bool \<times> CLogging \<times> os" where
  "DateCheck c os =
     (let (now, os) = GetLocalTime os;
          last = m_LastSystemTime c;
          bNewLogFile = (wYear last \<noteq> wYear now \<or> wMonth last \<noteq> wMonth now \<or> wDay last \<noteq> wDay now
            \<or> (m_bBreakOnHourChange c \<and> wHour last \<noteq> wHour now))
      in if bNewLogFile then (True, c\<lparr>m_dwFileCounter := 0\<rparr>, os)
         else (m_dwMaxBytesPerLogFile c \<noteq> 0 \<and> m_dwTotalBytesWritten c \<ge> m_dwMaxBytesPerLogFile c, c, os))"

definition MakeLogDir :: "string \<Rightarrow> os \<Rightarrow> os option" where
  "MakeLogDir szLogFile os =
     (if szLogFile = [] then Some os
      else do {
        p \<leftarrow> strrchr szLogFile BACKSLASH;
        let szDir = take (p + 1) szLogFile;
        Some (os\<lparr>lo_dirs := lo_dirs os @ map (\<lambda>i. take i szDir) (filter (\<lambda>i. szDir ! i = BACKSLASH) [4..<length szDir])\<rparr>)
      })"

fun move_tries :: "nat \<Rightarrow> string \<Rightarrow> string \<Rightarrow> os \<Rightarrow> os" where
  \<comment> \<open>\<open>for (int count = 0; count < maxRetries; count++)\<close>\<close>
  "move_tries 0 src dst os = os"
| "move_tries (Suc k) src dst os = (let (ok, os) = MoveFileExA src dst os in if ok then os else move_tries k src dst os)"

definition StartLogFile :: "CLogging \<Rightarrow> os \<Rightarrow> logged" where
  "StartLogFile c os = do {
     held \<leftarrow> CATMutex_Lock False (m_LogMutex c);
     let (now, os) = GetLocalTime os;
     let c = c\<lparr>m_LogMutex := held, m_LastSystemTime := now\<rparr>;
     os \<leftarrow> MakeLogDir (m_szLogFile c) os;
     let os = move_tries 10 (m_szTempLogFile c) (m_szLogFile c) os;
     c \<leftarrow> BuildLogFileName (c\<lparr>m_dwTotalBytesWritten := 0\<rparr>);
     Some (c\<lparr>m_LogMutex := CATMutex_Unlock (m_LogMutex c)\<rparr>, os)
   }"

definition WriteLogFileHeader :: "CLogging \<Rightarrow> os \<Rightarrow> logged" where
  "WriteLogFileHeader c os =
     (if m_bStartupHdr c then do {
        (c, os) \<leftarrow> Log (Some '' '') c os;
        (c, os) \<leftarrow> Log (Some (''----------   '' @ m_szLogName c @ ''   ---------'')) c os;
        Log (Some '' '') c os
      } else Some (c, os))"

definition LogFileDateCheck :: "CLogging \<Rightarrow> os \<Rightarrow> logged" where
  "LogFileDateCheck c os =
     (let (b, c, os) = DateCheck c os
      in if b then do { (c, os) \<leftarrow> StartLogFile c os; WriteLogFileHeader c os } else Some (c, os))"

section \<open>Threads\<close>

definition level_key :: "nat \<Rightarrow> string" where
  "level_key n = ''ErrorLevel_'' @ dec_nat (n + 1)"

fun load_levels :: "nat list \<Rightarrow> 32 word \<Rightarrow> os \<Rightarrow> 32 word \<times> os" where
  "load_levels [] nFlags os = (nFlags, os)"
| "load_levels (n # ns) nFlags os =
     (let (v, os) = GetPrivateProfileInt (level_key n) ''Enabled'' 1 os in load_levels ns (nFlags OR SetErrorLevel n (v = 1)) os)"

definition LoadLogErrorLevels :: "CLogging \<Rightarrow> os \<Rightarrow> CLogging \<times> os" where
  "LoadLogErrorLevels c os =
     (let (nFlags, os) = load_levels [0..<5] 0 os;
          (maxi, os) = GetPrivateProfileInt ''Settings'' ''MaxBytesPerLogFile'' 0 os;
          (hdr, os) = GetPrivateProfileInt (m_szSection c) ''StartupHdr'' 0 os;
          (brk, os) = GetPrivateProfileInt (m_szSection c) ''BreakOnHourChange'' 0 os
      in (c\<lparr>m_nFlags := nFlags, m_dwMaxBytesPerLogFile := of_int \<bar>sint maxi\<bar>, m_bStartupHdr := (hdr = 1),
            m_bBreakOnHourChange := (brk = 1)\<rparr>, os))"

definition QueueMonitor_round :: "CLogging \<Rightarrow> os \<Rightarrow> logged" where
  \<comment> \<open>one round of \<open>QueueMonitorThread\<close>; nothing happens while the thread waits for a message\<close>
  "QueueMonitor_round c os = do {
     (str, q) \<leftarrow> Queue_Wait (m_LogQueue c);
     let c = c\<lparr>m_LogQueue := q\<rparr>;
     (case str of
        None \<Rightarrow> Some (c, os)
      | Some str \<Rightarrow> do { (c, os) \<leftarrow> LogFileDateCheck c os; WriteLogFileMsg str False c os })
   }"

definition DateMonitor_round :: "int \<times> CLogging \<Rightarrow> os \<Rightarrow> ((int \<times> CLogging) \<times> os) option" where
  \<comment> \<open>one round of \<open>DateMonitorThread\<close>, with its \<open>nCount\<close>\<close>
  "DateMonitor_round nc os = do {
     let (nCount, c) = nc;
     let (c, os) = LoadLogErrorLevels c os;
     (c, os) \<leftarrow> WriteLogFileMsg [] True c os;
     let nCount = nCount + 1;
     if nCount mod 6 = 0 then do { (c, os) \<leftarrow> LogFileDateCheck c os; Some ((0, c), os) }
     else Some ((nCount, c), os)
   }"

section \<open>The life of the object\<close>

definition IniFileName :: "os \<Rightarrow> string option" where
  "IniFileName os = do {
     szIniFileName \<leftarrow> put_str (MAX_PATH + 1) (lo_exe os);
     p \<leftarrow> strrchr szIniFileName (CHR ''.'');
     put_str (MAX_PATH + 1) (take (p + 1) szIniFileName @ ''ini'')
   }"

definition GetCurrentLogFileSize :: "CLogging \<Rightarrow> os \<Rightarrow> CLogging \<times> os" where
  "GetCurrentLogFileSize c os =
     (let (ok, os) = CreateFile (m_szTempLogFile c) os
      in if ok then
           (case lo_files os (m_szTempLogFile c) of
              None \<Rightarrow> (c, os)
            | Some t \<Rightarrow> let dwSize = of_nat (length t) in
                (if dwSize \<noteq> 0xFFFFFFFF then c\<lparr>m_dwTotalBytesWritten := dwSize\<rparr> else c, os))
         else (c, os))"

definition CLogging_new :: "char list \<Rightarrow> bool \<Rightarrow> bool \<Rightarrow> string \<Rightarrow> string \<Rightarrow> os \<Rightarrow> logged" where
  \<comment> \<open>\<open>junk\<close> is what the array of the buffer holds; the threads are what the rounds above model\<close>
  "CLogging_new junk bBreakOnHourChange bStartupHdr szLogName szIniName os = do {
     buf \<leftarrow> poke 0 NUL junk;
     ini \<leftarrow> (if szIniName \<noteq> [] then put_str (MAX_PATH + 1) szIniName else IniFileName os);
     let app = take 50 (lo_app os);
     let app = (if app \<noteq> [] \<and> hd app = CHR ''0'' then [] else app);
     section \<leftarrow> put_str (MAX_PATH + 1) szLogName;
     name \<leftarrow> put_str (MAX_PATH + 1) (szLogName @ app);
     let c = \<lparr>m_LastSystemTime = lo_time os (lo_ticks os), m_bBreakOnHourChange = bBreakOnHourChange, m_bStartupHdr = bStartupHdr,
       m_dwTotalBytesWritten = 0, m_dwMaxBytesPerLogFile = 0, m_dwFileCounter = 0, m_dwTotalWriteBytes = 0, m_szTempLogFile = [],
       m_szLogFile = [], m_szModuleName = [], m_szSection = section, m_szLogName = name, m_szIniFileName = ini, m_szAppNumber = app,
       m_szOutBuffer = buf, m_nFlags = 0, m_LogQueue = Queue_init, m_LogMutex = 1\<rparr>;
     let (c, os) = LoadLogErrorLevels c os;
     let (now, os) = GetLocalTime os;
     c \<leftarrow> BuildLogFileName (c\<lparr>m_LastSystemTime := now\<rparr>);
     let (c, os) = GetCurrentLogFileSize c os;
     WriteLogFileHeader c os
   }"

definition CLogging_delete :: "CLogging \<Rightarrow> os \<Rightarrow> logged" where
  \<comment> \<open>messages still in the queue are not written\<close>
  "CLogging_delete c os = do {
     (c, os) \<leftarrow> WriteLogFileMsg [] True c os;
     StartLogFile c os
   }"

end
