(* ===== verification/LoggingProof.thy ===== *)
theory LoggingProof
  imports Logging
begin

text \<open>
  The log files of \<open>Logging.cpp\<close> are right: the names of files fit their arrays, each method keeps
  the invariant \<open>log_ok\<close> of the object (nothing overflows, no lock stays taken), and what is on the
  disk, in the buffer and in the queue together is what has been logged, whichever method is called and
  whichever thread runs, but for a file to whose name another one is moved. The last sections show what one failure of \<open>CreateFile\<close> does to this.
\<close>

section \<open>Names\<close>

lemma strrchr_Some:
  assumes "c \<in> set s"
  shows "\<exists>p. strrchr s c = Some p \<and> p < length s"
proof -
  have "s \<noteq> []" using assms by auto
  then show ?thesis using assms by (simp add: strrchr_def)
qed

definition log_name :: "string \<Rightarrow> string \<Rightarrow> string" where
  \<comment> \<open>the name in the files' names, from that of the settings and that of the log\<close>
  "log_name ini nm =
     (let base = take (the (strrchr ini (CHR ''.''))) ini
      in if nm \<noteq> [] then nm else case strrchr base BACKSLASH of None \<Rightarrow> ''UnKnown'' | Some p \<Rightarrow> drop (p + 1) base)"

definition log_drive :: "string \<Rightarrow> string" where
  "log_drive ini =
     (let base = take (the (strrchr ini (CHR ''.''))) ini in take 3 (if base \<noteq> [] \<and> hd base = DQUOTE then tl base else base))"

definition temp_name :: "CLogging \<Rightarrow> string" where
  "temp_name c = log_drive (m_szIniFileName c) @ log_name (m_szIniFileName c) (m_szLogName c) @ ''.Log''"

definition names_fit :: "CLogging \<Rightarrow> bool" where
  "names_fit c \<longleftrightarrow> CHR ''.'' \<in> set (m_szIniFileName c) \<and> length (m_szIniFileName c) \<le> 260
     \<and> length (log_name (m_szIniFileName c) (m_szLogName c)) \<le> 100"

lemma length_pad_to: "length (pad_to n c s) = max n (length s)"
  by (simp add: pad_to_def)

lemma length_dec_word16: "length (dec_nat (unat (v :: 16 word))) \<le> 5"
  using unsigned_less [of v, where ?'a = nat] by (intro length_dec_nat) auto

lemma length_d0: "n \<le> 5 \<Longrightarrow> length (d0 n v) \<le> 5" "n \<le> length (d0 n v)" "length (year_text t) \<le> 5" "4 \<le> length (year_text t)"
  using length_dec_word16 by (simp_all add: d0_def year_text_def length_pad_to)

lemma length_BuildDateTime: "length (BuildDateTime t) \<le> 24"
  using length_d0(1) [of 2 "wMonth t"] length_d0(1) [of 2 "wDay t"] length_d0(1) [of 2 "wHour t"] length_d0(3) [of t]
  by (simp add: BuildDateTime_def)

definition numbered :: "CLogging \<Rightarrow> bool" where
  \<comment> \<open>the next number of a file has at most nine digits\<close>
  "numbered c \<longleftrightarrow> m_dwMaxBytesPerLogFile c = 0 \<or> unat (m_dwFileCounter c) + 1 < 10 ^ 9"

lemma counter_text:
  assumes "unat (k :: 32 word) + 1 < 10 ^ 9"
  shows "length (dec_int (sint (k + 1))) \<le> 9" "unat (k + 1) = unat k + 1"
proof -
  have "(10 :: nat) ^ 9 < 2 ^ LENGTH(32)" by simp
  then have b: "unat k + 1 < 2 ^ LENGTH(32)" using assms by (rule less_trans [rotated])
  have "unat (k + 1) = (unat k + unat (1 :: 32 word)) mod 2 ^ LENGTH(32)" by (rule unat_word_ariths(1))
  then show u: "unat (k + 1) = unat k + 1" unfolding unsigned_1 mod_less [OF b] .
  have "(10 :: nat) ^ 9 < 2 ^ 31" by simp
  then have "unat (k + 1) < 2 ^ 31" using assms unfolding u by (rule less_trans [rotated])
  then have "uint (k + 1) < 2 ^ 31" unfolding uint_nat by (metis of_nat_less_iff of_nat_numeral of_nat_power)
  moreover have "- (2 ^ 31) \<le> uint (k + 1)" by (rule order_trans [OF _ uint_ge_0]) simp
  ultimately have "signed_take_bit 31 (uint (k + 1)) = uint (k + 1)" by (intro signed_take_bit_int_eq_self)
  then have "sint (k + 1) = uint (k + 1)" unfolding sint_uint by simp
  then have "sint (k + 1) = int (unat (k + 1))" unfolding uint_nat .
  moreover have "dec_int (int n) = dec_nat n" for n by (simp add: dec_int_def)
  ultimately have d: "dec_int (sint (k + 1)) = dec_nat (unat k + 1)" by (simp only: u)
  show "length (dec_int (sint (k + 1))) \<le> 9" unfolding d by (rule length_dec_nat [OF assms]) simp
qed

lemma BuildLogFileName_ok:
  assumes "names_fit c" "numbered c"
  shows "\<exists>logfile m k. BuildLogFileName c
      = Some (c\<lparr>m_szTempLogFile := temp_name c, m_szLogFile := logfile, m_szModuleName := m, m_dwFileCounter := k\<rparr>)
    \<and> BACKSLASH \<in> set logfile \<and> logfile \<noteq> temp_name c \<and> unat k \<le> unat (m_dwFileCounter c) + 1"
proof -
  obtain dot where dot: "strrchr (m_szIniFileName c) (CHR ''.'') = Some dot"
    using strrchr_Some assms(1) unfolding names_fit_def by blast
  define base where "base = take dot (m_szIniFileName c)"
  define drive where "drive = take 3 (if base \<noteq> [] \<and> hd base = DQUOTE then tl base else base)"
  define m where "m = (case strrchr base BACKSLASH of None \<Rightarrow> ''UnKnown'' | Some p \<Rightarrow> drop (p + 1) base)"
  define name where "name = (if m_szLogName c \<noteq> [] then m_szLogName c else m)"
  have d: "log_drive (m_szIniFileName c) = drive" "log_name (m_szIniFileName c) (m_szLogName c) = name" unfolding log_drive_def log_name_def dot Let_def option.sel base_def drive_def name_def m_def by (rule refl)+
  have ld: "length drive \<le> 3" "length name \<le> 100" using assms(1) unfolding drive_def names_fit_def d by simp_all
  define k where "k = (if m_dwMaxBytesPerLogFile c \<noteq> 0 then m_dwFileCounter c + 1 else m_dwFileCounter c)"
  define dt where "dt = BuildDateTime (m_LastSystemTime c)"
  have ldt: "length dt \<le> 24" unfolding dt_def by (rule length_BuildDateTime)
  obtain num where num: "(if m_dwMaxBytesPerLogFile c \<noteq> 0 then put_str 11 (''-'' @ dec_int (sint k)) else Some []) = Some num"
    "length num \<le> 10" "unat k \<le> unat (m_dwFileCounter c) + 1"
  proof (cases "m_dwMaxBytesPerLogFile c = 0")
    case True
    then show ?thesis using that [of "[]"] by (simp add: k_def)
  next
    case False
    then have n: "unat (m_dwFileCounter c) + 1 < 10 ^ 9" using assms(2) by (simp add: numbered_def)
    show ?thesis using that [of "''-'' @ dec_int (sint k)"] counter_text [OF n] False by (simp add: k_def put_str_def)
  qed
  define logfile where "logfile = drive @ ''Logs'' @ [BACKSLASH] @ name @ [BACKSLASH] @ name @ dt @ num @ ''.Log''"
  have fits: "put_str (MAX_PATH + 1) (m_szIniFileName c) = Some (m_szIniFileName c)"
    "put_str (MAX_PATH + 1) (drive @ name @ ''.Log'') = Some (drive @ name @ ''.Log'')"
    "put_str 100 dt = Some dt" "put_str (MAX_PATH + 1) logfile = Some logfile"
    using assms(1) ld ldt num(2) by (simp_all add: put_str_def names_fit_def logfile_def)
  have "BuildLogFileName c = Some (c\<lparr>m_szTempLogFile := drive @ name @ ''.Log'', m_szLogFile := logfile, m_szModuleName := m, m_dwFileCounter := k\<rparr>)"
    unfolding BuildLogFileName_def fits(1) bind.bind_lunit dot Let_def base_def [symmetric] drive_def [symmetric] m_def [symmetric]
      name_def [symmetric] fits(2) dt_def [symmetric] fits(3) k_def [symmetric] num(1)
    using fits(4) by (simp add: logfile_def)
  moreover have "length (drive @ name @ ''.Log'') < length logfile" by (simp add: logfile_def)
  then have "logfile \<noteq> drive @ name @ ''.Log''" by auto
  moreover have "BACKSLASH \<in> set logfile" by (simp add: logfile_def)
  ultimately show ?thesis using num(3) unfolding temp_name_def d by blast
qed

section \<open>No message is lost\<close>

definition line :: "string \<Rightarrow> string" where
  "line s = (if s = [] then [] else s @ CRLF)"

definition file_text :: "os \<Rightarrow> string \<Rightarrow> string" where
  "file_text os path = (case lo_files os path of None \<Rightarrow> [] | Some t \<Rightarrow> t)"

definition kept_in :: "string list \<Rightarrow> CLogging \<Rightarrow> os \<Rightarrow> string" where
  \<comment> \<open>what is on the disk in these files and in the current one, and in the buffer\<close>
  "kept_in A c os = concat (map (file_text os) A) @ file_text os (temp_name c) @ take (m_dwTotalWriteBytes c) (m_szOutBuffer c)"

abbreviation kept_text :: "CLogging \<Rightarrow> os \<Rightarrow> string" where
  \<comment> \<open>with the files moved away\<close>
  "kept_text c os \<equiv> kept_in (lo_moved os) c os"

definition message_ok :: "string \<Rightarrow> bool" where
  "message_ok s \<longleftrightarrow> NUL \<notin> set s \<and> length s \<le> 4095"

definition log_ok :: "CLogging \<Rightarrow> string list \<Rightarrow> bool" where
  \<comment> \<open>between calls, with these messages in the queue\<close>
  "log_ok c qs \<longleftrightarrow> queue_of (m_LogQueue c) qs \<and> (\<forall>s \<in> set qs. message_ok s) \<and> m_LogMutex c = 1
     \<and> length (m_szOutBuffer c) = OUT_SIZE \<and> m_dwTotalWriteBytes c \<le> 1024
     \<and> (m_dwTotalWriteBytes c > 0 \<longrightarrow> m_szOutBuffer c ! 0 \<noteq> NUL)
     \<and> names_fit c \<and> m_szTempLogFile c = temp_name c \<and> BACKSLASH \<in> set (m_szLogFile c) \<and> m_szLogFile c \<noteq> temp_name c"

definition reliable :: "CLogging \<Rightarrow> os \<Rightarrow> bool" where
  \<comment> \<open>files can be opened and take what is written, and the current file is none of those moved away\<close>
  "reliable c os \<longleftrightarrow> False \<notin> set (lo_opens os) \<and> (\<forall>n \<in> set (lo_writes os). OUT_SIZE \<le> n) \<and> temp_name c \<notin> set (lo_moved os)"

definition adds :: "string \<Rightarrow> CLogging \<Rightarrow> os \<Rightarrow> CLogging \<Rightarrow> os \<Rightarrow> bool" where
  \<comment> \<open>this text has come to the current file and the buffer, and no file has been moved\<close>
  "adds s c os c' os' \<longleftrightarrow> reliable c' os' \<and> lo_moved os' = lo_moved os \<and> m_szLogFile c' = m_szLogFile c \<and> temp_name c' = temp_name c
     \<and> (\<forall>A. temp_name c \<notin> set A \<longrightarrow> kept_in A c' os' = kept_in A c os @ s)"

definition replaced :: "string \<Rightarrow> string list \<Rightarrow> string list \<Rightarrow> bool" where
  \<comment> \<open>what is left of these files when one is moved to that name\<close>
  "replaced dst ns A \<longleftrightarrow> A = ns \<or> (dst \<in> set ns \<and> A = filter (\<lambda>n. n \<noteq> dst) ns)"

definition moves_on :: "string \<Rightarrow> CLogging \<Rightarrow> os \<Rightarrow> CLogging \<Rightarrow> os \<Rightarrow> bool" where
  \<comment> \<open>the same, and the current file may have been moved\<close>
  "moves_on s c os c' os' \<longleftrightarrow> reliable c' os' \<and> (\<exists>A. replaced (m_szLogFile c) (lo_moved os) A \<and> kept_text c' os' = kept_in A c os @ s)"

lemma adds_refl: "reliable c os \<Longrightarrow> adds [] c os c os"
  by (simp add: adds_def)

lemma adds_same:
  assumes "reliable c os" "lo_opens os' = lo_opens os" "lo_writes os' = lo_writes os" "lo_moved os' = lo_moved os" "lo_files os' = lo_files os"
    "m_szLogFile c' = m_szLogFile c" "temp_name c' = temp_name c" "m_dwTotalWriteBytes c' = m_dwTotalWriteBytes c" "m_szOutBuffer c' = m_szOutBuffer c"
  shows "adds [] c os c' os'"
proof -
  have "file_text os' = file_text os" using assms(5) by (intro ext) (simp add: file_text_def)
  then show ?thesis using assms by (auto simp: adds_def reliable_def kept_in_def)
qed

lemma adds_reliable: "adds s c os c' os' \<Longrightarrow> reliable c' os'"
  by (simp add: adds_def)

lemma moves_on_reliable: "moves_on s c os c' os' \<Longrightarrow> reliable c' os'"
  by (simp add: moves_on_def)

lemma adds_trans: "adds s c os c1 os1 \<Longrightarrow> adds s' c1 os1 c2 os2 \<Longrightarrow> adds (s @ s') c os c2 os2"
  by (simp add: adds_def)

lemma replaced_subset: "replaced dst ns A \<Longrightarrow> set A \<subseteq> set ns"
  by (auto simp: replaced_def)

lemma adds_moves_on:
  assumes "adds s c os c1 os1" "reliable c os" "moves_on s' c1 os1 c2 os2"
  shows "moves_on (s @ s') c os c2 os2"
proof -
  obtain A where A: "replaced (m_szLogFile c1) (lo_moved os1) A" "kept_text c2 os2 = kept_in A c1 os1 @ s'"
    using assms(3) by (auto simp: moves_on_def)
  then have "replaced (m_szLogFile c) (lo_moved os) A" using assms(1) by (simp add: adds_def)
  moreover from replaced_subset [OF this] have "temp_name c \<notin> set A" using assms(2) by (auto simp: reliable_def)
  ultimately show ?thesis using A(2) assms(1,3) by (auto simp: moves_on_def adds_def)
qed

lemma moves_on_adds: "moves_on s c os c1 os1 \<Longrightarrow> adds s' c1 os1 c2 os2 \<Longrightarrow> moves_on (s @ s') c os c2 os2"
  by (auto simp: moves_on_def adds_def reliable_def)

lemma moves_on_start: "reliable c os \<Longrightarrow> moves_on [] c os c os"
  unfolding moves_on_def by (auto simp: replaced_def)

lemma adds_is_moves_on: "adds s c os c' os' \<Longrightarrow> reliable c os \<Longrightarrow> moves_on s c os c' os'"
  using moves_on_adds [OF moves_on_start] by fastforce

definition same_settings :: "CLogging \<Rightarrow> CLogging \<Rightarrow> bool" where
  "same_settings c c' \<longleftrightarrow> m_szIniFileName c' = m_szIniFileName c \<and> m_szLogName c' = m_szLogName c \<and> m_bStartupHdr c' = m_bStartupHdr c
     \<and> m_dwMaxBytesPerLogFile c' = m_dwMaxBytesPerLogFile c \<and> unat (m_dwFileCounter c') \<le> unat (m_dwFileCounter c) + 1"

lemma CreateFile_reliable:
  assumes "reliable c os"
  shows "\<exists>os'. CreateFile p os = (True, os') \<and> reliable c os' \<and> lo_files os' p = Some (file_text os p) \<and> lo_moved os' = lo_moved os
    \<and> (\<forall>q. q \<noteq> p \<longrightarrow> lo_files os' q = lo_files os q)"
proof -
  have "lo_opens os = [] \<or> hd (lo_opens os)" "False \<notin> set (tl (lo_opens os))"
    using assms by (cases "lo_opens os"; auto simp: reliable_def)+
  then show ?thesis using assms by (cases "lo_files os p") (auto simp: CreateFile_def reliable_def file_text_def Let_def)
qed

lemma WriteFile_reliable:
  assumes "reliable c os" "lo_files os p = Some t" "length s \<le> OUT_SIZE"
  shows "\<exists>os'. WriteFile p s os = (length s, os') \<and> reliable c os' \<and> lo_files os' p = Some (t @ s) \<and> lo_moved os' = lo_moved os
    \<and> (\<forall>q. q \<noteq> p \<longrightarrow> lo_files os' q = lo_files os q)"
  using assms by (cases "lo_writes os") (auto simp: WriteFile_def reliable_def min_def)

lemma CATMutex_Unlock_taken [simp]: "CATMutex_Unlock 0 = 1" "CATMutex_Lock False (Suc 0) = Some 0" "CATMutex_Unlock (Suc 0) = 1"
  by (simp_all add: CATMutex_Lock_def CATMutex_Unlock_def WaitForSemaphore_def ReleaseSemaphore_def)

lemma flush_out_ok:
  assumes "reliable c os" "length (m_szOutBuffer c) = OUT_SIZE" "m_dwTotalWriteBytes c \<le> OUT_SIZE" "m_szTempLogFile c = temp_name c"
  shows "\<exists>os' n. flush_out c os = Some (c\<lparr>m_dwTotalBytesWritten := n, m_dwTotalWriteBytes := 0, m_szOutBuffer := (m_szOutBuffer c)[0 := NUL]\<rparr>, os')
    \<and> reliable c os' \<and> file_text os' (temp_name c) = file_text os (temp_name c) @ take (m_dwTotalWriteBytes c) (m_szOutBuffer c)
    \<and> lo_moved os' = lo_moved os \<and> (\<forall>q. q \<noteq> temp_name c \<longrightarrow> file_text os' q = file_text os q)"
proof -
  define p where "p = temp_name c"
  obtain os1 where 1: "CreateFile p os = (True, os1)" "reliable c os1" "lo_files os1 p = Some (file_text os p)" "lo_moved os1 = lo_moved os"
    "\<forall>q. q \<noteq> p \<longrightarrow> lo_files os1 q = lo_files os q"
    using CreateFile_reliable [OF assms(1)] by blast
  define s where "s = take (m_dwTotalWriteBytes c) (m_szOutBuffer c)"
  have l: "length s \<le> OUT_SIZE" using assms(2) by (simp add: s_def)
  obtain os2 where 2: "WriteFile p s os1 = (length s, os2)" "reliable c os2" "lo_files os2 p = Some (file_text os p @ s)"
    "lo_moved os2 = lo_moved os1" "\<forall>q. q \<noteq> p \<longrightarrow> lo_files os2 q = lo_files os1 q"
    using WriteFile_reliable [OF 1(2,3) l] by blast
  have r: "read_at 0 (m_dwTotalWriteBytes c) (m_szOutBuffer c) = Some s" using assms(2,3) by (simp add: read_at_def s_def)
  have k: "poke 0 NUL (m_szOutBuffer c) = Some ((m_szOutBuffer c)[0 := NUL])" using assms(2) by (simp add: poke_def)
  have "flush_out c os = Some (c\<lparr>m_dwTotalBytesWritten := m_dwTotalBytesWritten c + of_nat (length s), m_dwTotalWriteBytes := 0,
      m_szOutBuffer := (m_szOutBuffer c)[0 := NUL]\<rparr>, os2)"
    using 1(1) 2(1) r k assms(4) by (simp add: flush_out_def p_def)
  moreover have "\<forall>q. q \<noteq> p \<longrightarrow> file_text os2 q = file_text os q" using 1(5) 2(5) by (simp add: file_text_def)
  moreover have "file_text os2 p = file_text os p @ s" using 2(3) by (simp add: file_text_def [of os2])
  ultimately show ?thesis using 1(4) 2(2,4) unfolding p_def [symmetric] s_def [symmetric]
    by (intro exI [where x = os2] exI [where x = "m_dwTotalBytesWritten c + of_nat (length s)"]) simp
qed

lemma append_out_ok:
  assumes "log_ok c qs" "message_ok s"
  shows "\<exists>B T. append_out s (c\<lparr>m_LogMutex := 0\<rparr>) = Some (c\<lparr>m_LogMutex := 0, m_szOutBuffer := B, m_dwTotalWriteBytes := T\<rparr>)
    \<and> length B = OUT_SIZE \<and> take T B = take (m_dwTotalWriteBytes c) (m_szOutBuffer c) @ line s \<and> T \<le> 5121 \<and> (T > 0 \<longrightarrow> B ! 0 \<noteq> NUL)"
proof -
  have o: "length (m_szOutBuffer c) = OUT_SIZE" "m_dwTotalWriteBytes c \<le> 1024" "m_dwTotalWriteBytes c > 0 \<longrightarrow> m_szOutBuffer c ! 0 \<noteq> NUL"
    using assms(1) by (simp_all add: log_ok_def)
  define t where "t = m_dwTotalWriteBytes c"
  define B where "B = (if s = [] then m_szOutBuffer c else take t (m_szOutBuffer c) @ s @ CRLF @ drop (t + length s + 2) (m_szOutBuffer c))"
  define T where "T = t + length (line s)"
  have ls: "length s \<le> 4095" using assms(2) by (simp add: message_ok_def)
  have B: "length B = OUT_SIZE" "take T B = take t (m_szOutBuffer c) @ line s" "T \<le> 5121"
    using o(1,2) ls by (auto simp: B_def T_def t_def line_def)
  have f: "B ! 0 \<noteq> NUL" if "T > 0"
  proof (cases "t = 0")
    case True
    then have "s \<noteq> []" using that by (auto simp: T_def line_def)
    then obtain x xs where "s = x # xs" by (cases s) auto
    moreover from this have "x \<noteq> NUL" using assms(2) by (auto simp: message_ok_def)
    ultimately show ?thesis using True by (simp add: B_def)
  next
    case False
    then have "m_szOutBuffer c ! 0 \<noteq> NUL" using o(3) by (simp add: t_def)
    moreover have "B ! 0 = m_szOutBuffer c ! 0" using False o(1,2) by (simp add: B_def nth_append t_def)
    ultimately show ?thesis by simp
  qed
  have w: "append_out s (c\<lparr>m_LogMutex := 0\<rparr>) = Some (c\<lparr>m_LogMutex := 0, m_szOutBuffer := B, m_dwTotalWriteBytes := T\<rparr>)"
    using o(1,2) ls by (auto simp: append_out_def write_at_def B_def T_def t_def line_def Let_def)
  show ?thesis using w B f unfolding t_def by blast
qed

lemma WriteLogFileMsg_ok:
  assumes "log_ok c qs" "message_ok s" "reliable c os"
  shows "\<exists>c' os'. WriteLogFileMsg s now c os = Some (c', os') \<and> log_ok c' qs \<and> adds (line s) c os c' os'
    \<and> same_settings c c' \<and> m_LogQueue c' = m_LogQueue c \<and> m_dwFileCounter c' = m_dwFileCounter c"
proof -
  have o: "m_LogMutex c = 1" "m_szTempLogFile c = temp_name c" using assms(1) by (simp_all add: log_ok_def)
  obtain B T where w0: "append_out s (c\<lparr>m_LogMutex := 0\<rparr>) = Some (c\<lparr>m_LogMutex := 0, m_szOutBuffer := B, m_dwTotalWriteBytes := T\<rparr>)"
    and B: "length B = OUT_SIZE" "take T B = take (m_dwTotalWriteBytes c) (m_szOutBuffer c) @ line s" "T \<le> 5121"
    and f0: "T > 0 \<longrightarrow> B ! 0 \<noteq> NUL" using append_out_ok [OF assms(1,2)] by blast
  define c1 where "c1 = c\<lparr>m_LogMutex := 0, m_szOutBuffer := B, m_dwTotalWriteBytes := T\<rparr>"
  have w: "append_out s (c\<lparr>m_LogMutex := 0\<rparr>) = Some c1" using w0 unfolding c1_def .
  have f: "B ! 0 \<noteq> NUL" if "T > 0" using f0 that by blast
  have rd: "rd B 0 = Some (B ! 0)" using B(1) by (simp add: rd_def)
  have W: "WriteLogFileMsg s now c os = do {
      (c, os) \<leftarrow> (if B ! 0 \<noteq> NUL \<and> (now \<or> T > 1024) then flush_out c1 os else Some (c1, os));
      Some (c\<lparr>m_LogMutex := CATMutex_Unlock (m_LogMutex c)\<rparr>, os) }"
    using w o(1) rd by (simp add: WriteLogFileMsg_def c1_def)
  have tn: "temp_name c1 = temp_name c" "temp_name (c1\<lparr>m_LogMutex := m, m_dwTotalBytesWritten := n, m_dwTotalWriteBytes := z, m_szOutBuffer := b\<rparr>) = temp_name c" for m n z b
    by (simp_all add: temp_name_def c1_def)
  show ?thesis
  proof (cases "B ! 0 \<noteq> NUL \<and> (now \<or> T > 1024)")
    case False
    define c2 where "c2 = c1\<lparr>m_LogMutex := 1\<rparr>"
    have n2: "temp_name c2 = temp_name c" by (simp add: c2_def c1_def temp_name_def)
    have "WriteLogFileMsg s now c os = Some (c2, os)" unfolding W if_not_P [OF False] by (simp add: c2_def c1_def)
    moreover have "T \<le> 1024" using False f by (cases "T > 0") auto
    then have "log_ok c2 qs" using assms(1) B(1) f by (simp add: log_ok_def c2_def c1_def names_fit_def temp_name_def)
    moreover have "adds (line s) c os c2 os"
      using assms(3) B(2) n2 unfolding adds_def reliable_def kept_in_def by (auto simp: c2_def c1_def)
    ultimately show ?thesis by (auto simp: same_settings_def c2_def c1_def)
  next
    case True
    have r1: "reliable c1 os" using assms(3) unfolding reliable_def tn(1) .
    obtain os' n where fl: "flush_out c1 os = Some (c1\<lparr>m_dwTotalBytesWritten := n, m_dwTotalWriteBytes := 0, m_szOutBuffer := B[0 := NUL]\<rparr>, os')"
      "reliable c1 os'" "file_text os' (temp_name c1) = file_text os (temp_name c1) @ take T B" "lo_moved os' = lo_moved os"
      "\<forall>q. q \<noteq> temp_name c1 \<longrightarrow> file_text os' q = file_text os q"
      using flush_out_ok [OF r1] B(1,3) o(2) tn(1) by (fastforce simp: c1_def)
    define c2 where "c2 = c1\<lparr>m_LogMutex := 1, m_dwTotalBytesWritten := n, m_dwTotalWriteBytes := 0, m_szOutBuffer := B[0 := NUL]\<rparr>"
    have "WriteLogFileMsg s now c os = Some (c2, os')" unfolding W if_P [OF True] fl(1) by (simp add: c2_def c1_def)
    moreover have "log_ok c2 qs" using assms(1) B(1) by (simp add: log_ok_def c2_def c1_def names_fit_def temp_name_def)
    moreover have "adds (line s) c os c2 os'"
    proof -
      have n2: "temp_name c2 = temp_name c" unfolding c2_def by (rule tn(2))
      have m: "concat (map (file_text os') A) = concat (map (file_text os) A)" if "temp_name c \<notin> set A" for A
        using fl(5) that unfolding tn(1) by (intro arg_cong [where f = concat] map_cong [OF refl]) metis
      have "kept_in A c2 os' = kept_in A c os @ line s" if "temp_name c \<notin> set A" for A
        unfolding kept_in_def m [OF that] n2 using B(2) fl(3) unfolding tn(1) by (simp add: c2_def)
      moreover have "reliable c2 os'" using fl(2) unfolding reliable_def n2 tn(1) .
      ultimately show ?thesis using fl(4) n2 by (simp add: adds_def) (simp add: c2_def c1_def)
    qed
    ultimately show ?thesis by (auto simp: same_settings_def c2_def c1_def)
  qed
qed

lemma move_kept:
  assumes "src \<noteq> dst" "lo_files os src = Some t" "src \<notin> set (lo_moved os)"
  defines "os' \<equiv> os\<lparr>lo_moves := tl (lo_moves os), lo_files := (lo_files os)(src := None, dst \<mapsto> t), lo_moved := filter (\<lambda>n. n \<noteq> dst) (lo_moved os) @ [dst]\<rparr>"
  shows "concat (map (file_text os') (lo_moved os')) @ file_text os' src
    = concat (map (file_text os) (filter (\<lambda>n. n \<noteq> dst) (lo_moved os))) @ file_text os src"
proof -
  define A where "A = filter (\<lambda>n. n \<noteq> dst) (lo_moved os)"
  have "src \<notin> set A" "dst \<notin> set A" using assms(3) by (auto simp: A_def)
  then have "concat (map (file_text os') A) = concat (map (file_text os) A)"
    by (intro arg_cong [where f = concat] map_cong [OF refl]) (auto simp: file_text_def os'_def)
  moreover have "file_text os' dst = file_text os src" "file_text os' src = []" using assms(1,2) by (simp_all add: file_text_def os'_def)
  moreover have "lo_moved os' = A @ [dst]" by (simp add: os'_def A_def)
  ultimately show ?thesis unfolding A_def [symmetric] by simp
qed

lemma move_tries_kept:
  assumes "src \<noteq> dst" "src \<notin> set (lo_moved os)"
  shows "lo_opens (move_tries k src dst os) = lo_opens os \<and> lo_writes (move_tries k src dst os) = lo_writes os
     \<and> src \<notin> set (lo_moved (move_tries k src dst os))
     \<and> (\<exists>A. replaced dst (lo_moved os) A
          \<and> concat (map (file_text (move_tries k src dst os)) (lo_moved (move_tries k src dst os))) @ file_text (move_tries k src dst os) src
              = concat (map (file_text os) A) @ file_text os src)"
  using assms(2)
proof (induction k arbitrary: os)
  case 0
  then show ?case by (auto simp: replaced_def)
next
  case (Suc k)
  define ok where "ok = (lo_moves os = [] \<or> hd (lo_moves os))"
  define os1 where "os1 = os\<lparr>lo_moves := tl (lo_moves os)\<rparr>"
  have f: "file_text os1 = file_text os" by (rule ext) (simp add: file_text_def os1_def)
  show ?case
  proof (cases "lo_files os src \<noteq> None \<and> ok")
    case False
    then have "move_tries (Suc k) src dst os = move_tries k src dst os1" by (cases "lo_files os src") (auto simp: MoveFileExA_def os1_def ok_def Let_def)
    then show ?thesis using Suc.IH [of os1] Suc.prems f by (simp add: os1_def)
  next
    case True
    then obtain t where t: "lo_files os src = Some t" by blast
    define A where "A = filter (\<lambda>n. n \<noteq> dst) (lo_moved os)"
    have r: "replaced dst (lo_moved os) A" by (cases "dst \<in> set (lo_moved os)") (auto simp: replaced_def A_def filter_id_conv)
    define os2 where "os2 = os\<lparr>lo_moves := tl (lo_moves os), lo_files := (lo_files os)(src := None, dst \<mapsto> t), lo_moved := A @ [dst]\<rparr>"
    have m: "move_tries (Suc k) src dst os = os2" using True t by (simp add: MoveFileExA_def ok_def os2_def A_def)
    have "concat (map (file_text os2) (lo_moved os2)) @ file_text os2 src = concat (map (file_text os) A) @ file_text os src"
      using move_kept [OF assms(1) t Suc.prems] unfolding os2_def A_def .
    then show ?thesis unfolding m using r Suc.prems assms(1) by (auto simp: os2_def A_def)
  qed
qed

text \<open>A file that is there under the name is lost with what is in it.\<close>

lemma move_replaces_file:
  assumes "src \<noteq> dst" "lo_files os src = Some t" "lo_moves os = []"
  shows "file_text (move_tries (Suc k) src dst os) dst = t \<and> lo_files (move_tries (Suc k) src dst os) src = None"
  using assms by (simp add: MoveFileExA_def file_text_def)

lemma StartLogFile_ok:
  assumes "log_ok c qs" "reliable c os" "numbered c"
  shows "\<exists>c' os'. StartLogFile c os = Some (c', os') \<and> log_ok c' qs \<and> moves_on [] c os c' os'
    \<and> same_settings c c' \<and> m_LogQueue c' = m_LogQueue c"
proof -
  have o: "m_LogMutex c = 1" "m_szTempLogFile c = temp_name c" "BACKSLASH \<in> set (m_szLogFile c)" "temp_name c \<noteq> m_szLogFile c" "names_fit c"
    using assms(1) by (auto simp: log_ok_def)
  define now where "now = lo_time os (lo_ticks os)"
  define c1 where "c1 = c\<lparr>m_LogMutex := 0, m_LastSystemTime := now, m_dwTotalBytesWritten := 0\<rparr>"
  obtain p where p: "strrchr (m_szLogFile c) BACKSLASH = Some p" using strrchr_Some [OF o(3)] by blast
  define os1 where "os1 = the (MakeLogDir (m_szLogFile c) (os\<lparr>lo_ticks := lo_ticks os + 1\<rparr>))"
  have ne: "m_szLogFile c \<noteq> []" using o(3) by auto
  have m: "MakeLogDir (m_szLogFile c) (os\<lparr>lo_ticks := lo_ticks os + 1\<rparr>) = Some os1"
    using p ne by (simp add: MakeLogDir_def os1_def)
  have k1: "lo_opens os1 = lo_opens os" "lo_writes os1 = lo_writes os" "lo_moved os1 = lo_moved os" "file_text os1 = file_text os"
    using p ne by (auto simp: os1_def MakeLogDir_def file_text_def)
  have nm: "temp_name c \<notin> set (lo_moved os1)" using assms(2) k1(3) by (simp add: reliable_def)
  define os2 where "os2 = move_tries 10 (temp_name c) (m_szLogFile c) os1"
  obtain A where k2: "lo_opens os2 = lo_opens os" "lo_writes os2 = lo_writes os" "temp_name c \<notin> set (lo_moved os2)"
    "replaced (m_szLogFile c) (lo_moved os) A"
    "concat (map (file_text os2) (lo_moved os2)) @ file_text os2 (temp_name c) = concat (map (file_text os) A) @ file_text os (temp_name c)"
    using move_tries_kept [OF o(4) nm, of 10] unfolding k1 os2_def [symmetric] by blast
  have n1: "names_fit c1" "numbered c1" "temp_name c1 = temp_name c"
    using o(5) assms(3) by (simp_all add: c1_def names_fit_def numbered_def temp_name_def)
  obtain L mm k where b: "BuildLogFileName c1 = Some (c1\<lparr>m_szTempLogFile := temp_name c1, m_szLogFile := L, m_szModuleName := mm, m_dwFileCounter := k\<rparr>)"
    "BACKSLASH \<in> set L" "L \<noteq> temp_name c1" "unat k \<le> unat (m_dwFileCounter c1) + 1"
    using BuildLogFileName_ok [OF n1(1,2)] by blast
  define c2 where "c2 = c1\<lparr>m_szTempLogFile := temp_name c1, m_szLogFile := L, m_szModuleName := mm, m_dwFileCounter := k, m_LogMutex := 1\<rparr>"
  have g: "GetLocalTime os = (now, os\<lparr>lo_ticks := lo_ticks os + 1\<rparr>)" by (simp add: GetLocalTime_def now_def)
  have "StartLogFile c os = Some (c2, os2)"
    using m b(1) o(1,2) unfolding StartLogFile_def g by (simp add: c1_def c2_def os2_def)
  moreover have "log_ok c2 qs" using assms(1) b(2,3) n1 by (auto simp: log_ok_def c2_def c1_def names_fit_def temp_name_def)
  moreover have "moves_on [] c os c2 os2"
  proof -
    have n2: "temp_name c2 = temp_name c" "m_dwTotalWriteBytes c2 = m_dwTotalWriteBytes c" "m_szOutBuffer c2 = m_szOutBuffer c"
      by (simp_all add: c2_def c1_def temp_name_def)
    have "kept_text c2 os2 = kept_in A c os" unfolding kept_in_def n2 using k2(5) by (metis append_assoc)
    moreover have "reliable c2 os2" using assms(2) k2(3) unfolding reliable_def n2(1) k2(1,2) by blast
    ultimately show ?thesis using k2(4) by (auto simp: moves_on_def)
  qed
  moreover have "same_settings c c2" "m_LogQueue c2 = m_LogQueue c" using b(4) by (simp_all add: same_settings_def c2_def c1_def)
  ultimately show ?thesis by blast
qed

definition stamped :: "os \<Rightarrow> string \<Rightarrow> string" where
  \<comment> \<open>a message with the time of the call\<close>
  "stamped os text = takeWhile (\<lambda>x. x \<noteq> NUL) (take 25 (fst (BuildLogDateTime os)) @ take 4070 text)"

definition plain :: "string \<Rightarrow> string" where
  "plain text = takeWhile (\<lambda>x. x \<noteq> NUL) (take 4095 text)"

lemma takeWhile_message: "length s \<le> 4095 \<Longrightarrow> message_ok (takeWhile (\<lambda>x. x \<noteq> NUL) s)"
  using length_takeWhile_le [of "\<lambda>x. x \<noteq> NUL" s] by (auto simp: message_ok_def dest: set_takeWhileD)

lemma QueueAdd_ok:
  assumes "log_ok c qs" "length qs < SEM_MAX" "length s \<le> 4095"
  shows "\<exists>q. QueueAdd s c = Some (c\<lparr>m_LogQueue := q\<rparr>) \<and> log_ok (c\<lparr>m_LogQueue := q\<rparr>) (qs @ [takeWhile (\<lambda>x. x \<noteq> NUL) s])"
proof -
  have q0: "queue_of (m_LogQueue c) qs" using assms(1) by (simp add: log_ok_def)
  obtain q where q: "Queue_Add (takeWhile (\<lambda>x. x \<noteq> NUL) s) (m_LogQueue c) = Some q" "queue_of q (qs @ [takeWhile (\<lambda>x. x \<noteq> NUL) s])"
    using work.add_rep [OF q0 assms(2)] by blast
  moreover have "message_ok (takeWhile (\<lambda>x. x \<noteq> NUL) s)" by (rule takeWhile_message [OF assms(3)])
  ultimately show ?thesis using assms(1)
    by (intro exI [where x = q]) (auto simp: QueueAdd_def log_ok_def names_fit_def temp_name_def)
qed

lemma Log_ok:
  assumes "log_ok c qs" "length qs < SEM_MAX" "reliable c os"
  shows "\<exists>q os'. Log (Some text) c os = Some (c\<lparr>m_LogQueue := q\<rparr>, os') \<and> log_ok (c\<lparr>m_LogQueue := q\<rparr>) (qs @ [stamped os text])
    \<and> adds [] c os (c\<lparr>m_LogQueue := q\<rparr>) os'"
proof -
  define s where "s = take 25 (fst (BuildLogDateTime os)) @ take 4070 text"
  have l: "length s \<le> 4095" by (simp add: s_def)
  obtain q where q: "QueueAdd s c = Some (c\<lparr>m_LogQueue := q\<rparr>)" "log_ok (c\<lparr>m_LogQueue := q\<rparr>) (qs @ [takeWhile (\<lambda>x. x \<noteq> NUL) s])"
    using QueueAdd_ok [OF assms(1,2) l] by blast
  define os' where "os' = os\<lparr>lo_ticks := lo_ticks os + 1\<rparr>"
  define st where "st = fst (BuildLogDateTime os)"
  have b: "BuildLogDateTime os = (st, os')" by (simp add: prod_eq_iff st_def) (simp add: BuildLogDateTime_def GetLocalTime_def os'_def)
  have "Log (Some text) c os = Some (c\<lparr>m_LogQueue := q\<rparr>, os')"
    using q(1) unfolding Log_def option.case b prod.case Let_def by (simp add: s_def st_def)
  moreover have "adds [] c os (c\<lparr>m_LogQueue := q\<rparr>) os'" by (rule adds_same) (simp_all add: assms(3) temp_name_def os'_def)
  ultimately show ?thesis using q(2) unfolding stamped_def s_def by blast
qed

lemma LogNT_ok:
  assumes "log_ok c qs" "length qs < SEM_MAX" "reliable c os"
  shows "\<exists>q. LogNT (Some text) c os = Some (c\<lparr>m_LogQueue := q\<rparr>, os) \<and> log_ok (c\<lparr>m_LogQueue := q\<rparr>) (qs @ [plain text])
    \<and> adds [] c os (c\<lparr>m_LogQueue := q\<rparr>) os"
proof -
  have l: "length (take 4095 text) \<le> 4095" by simp
  obtain q where q: "QueueAdd (take 4095 text) c = Some (c\<lparr>m_LogQueue := q\<rparr>)"
    "log_ok (c\<lparr>m_LogQueue := q\<rparr>) (qs @ [takeWhile (\<lambda>x. x \<noteq> NUL) (take 4095 text)])"
    using QueueAdd_ok [OF assms(1,2) l] by blast
  moreover have "adds [] c os (c\<lparr>m_LogQueue := q\<rparr>) os" by (rule adds_same) (simp_all add: assms(3) temp_name_def)
  ultimately show ?thesis by (intro exI [where x = q]) (simp add: LogNT_def plain_def)
qed

definition header_lines :: "CLogging \<Rightarrow> string list \<Rightarrow> bool" where
  \<comment> \<open>the header of a file, if it has one, with times\<close>
  "header_lines c hs \<longleftrightarrow> hs = [] \<or> (m_bStartupHdr c \<and> (\<exists>o1 o2 o3. hs = [stamped o1 '' '',
     stamped o2 (''----------   '' @ m_szLogName c @ ''   ---------''), stamped o3 '' '']))"

lemma WriteLogFileHeader_ok:
  assumes "log_ok c qs" "length qs + 3 \<le> SEM_MAX" "reliable c os"
  shows "\<exists>q os' hs. WriteLogFileHeader c os = Some (c\<lparr>m_LogQueue := q\<rparr>, os') \<and> log_ok (c\<lparr>m_LogQueue := q\<rparr>) (qs @ hs)
    \<and> adds [] c os (c\<lparr>m_LogQueue := q\<rparr>) os' \<and> header_lines c hs"
proof (cases "m_bStartupHdr c")
  case False
  then show ?thesis using assms
    by (intro exI [where x = "m_LogQueue c"] exI [where x = os] exI [where x = "[]"]) (simp add: WriteLogFileHeader_def header_lines_def adds_refl)
next
  case True
  define t where "t = ''----------   '' @ m_szLogName c @ ''   ---------''"
  have l1: "length qs < SEM_MAX" using assms(2) by linarith
  obtain q1 os1 where 1: "Log (Some '' '') c os = Some (c\<lparr>m_LogQueue := q1\<rparr>, os1)" "log_ok (c\<lparr>m_LogQueue := q1\<rparr>) (qs @ [stamped os '' ''])"
    "adds [] c os (c\<lparr>m_LogQueue := q1\<rparr>) os1" using Log_ok [OF assms(1) l1 assms(3)] by blast
  have l2: "length (qs @ [stamped os '' '']) < SEM_MAX" using assms(2) by simp
  obtain q2 os2 where 2: "Log (Some t) (c\<lparr>m_LogQueue := q1\<rparr>) os1 = Some (c\<lparr>m_LogQueue := q2\<rparr>, os2)"
    "log_ok (c\<lparr>m_LogQueue := q2\<rparr>) ((qs @ [stamped os '' '']) @ [stamped os1 t])"
    "adds [] (c\<lparr>m_LogQueue := q1\<rparr>) os1 (c\<lparr>m_LogQueue := q2\<rparr>) os2" using Log_ok [OF 1(2) l2 adds_reliable [OF 1(3)], of t] by auto
  have l3: "length ((qs @ [stamped os '' '']) @ [stamped os1 t]) < SEM_MAX" using assms(2) by simp
  obtain q3 os3 where 3: "Log (Some '' '') (c\<lparr>m_LogQueue := q2\<rparr>) os2 = Some (c\<lparr>m_LogQueue := q3\<rparr>, os3)"
    "log_ok (c\<lparr>m_LogQueue := q3\<rparr>) (((qs @ [stamped os '' '']) @ [stamped os1 t]) @ [stamped os2 '' ''])"
    "adds [] (c\<lparr>m_LogQueue := q2\<rparr>) os2 (c\<lparr>m_LogQueue := q3\<rparr>) os3" using Log_ok [OF 2(2) l3 adds_reliable [OF 2(3)], of "'' ''"] by auto
  define hs where "hs = [stamped os '' '', stamped os1 t, stamped os2 '' '']"
  have "WriteLogFileHeader c os = Some (c\<lparr>m_LogQueue := q3\<rparr>, os3)"
    using True 1(1) 2(1) 3(1) by (simp add: WriteLogFileHeader_def t_def)
  moreover have "log_ok (c\<lparr>m_LogQueue := q3\<rparr>) (qs @ hs)" using 3(2) by (simp add: hs_def)
  moreover have "header_lines c hs" using True unfolding header_lines_def hs_def t_def by blast
  moreover have "adds [] c os (c\<lparr>m_LogQueue := q3\<rparr>) os3" using adds_trans [OF adds_trans [OF 1(3) 2(3)] 3(3)] by simp
  ultimately show ?thesis by blast
qed

lemma DateCheck_ok:
  assumes "log_ok c qs" "reliable c os"
  shows "\<exists>b k os'. DateCheck c os = (b, c\<lparr>m_dwFileCounter := k\<rparr>, os') \<and> log_ok (c\<lparr>m_dwFileCounter := k\<rparr>) qs 
    \<and> adds [] c os (c\<lparr>m_dwFileCounter := k\<rparr>) os' \<and> unat k \<le> unat (m_dwFileCounter c)"
proof -
  define os' where "os' = os\<lparr>lo_ticks := lo_ticks os + 1\<rparr>"
  have "\<exists>b k. DateCheck c os = (b, c\<lparr>m_dwFileCounter := k\<rparr>, os') \<and> unat k \<le> unat (m_dwFileCounter c)"
  proof (cases "fst (DateCheck c os)")
    case a: True
    then consider "DateCheck c os = (True, c\<lparr>m_dwFileCounter := 0\<rparr>, os')" | "DateCheck c os = (True, c, os')"
      by (auto simp: DateCheck_def GetLocalTime_def os'_def Let_def split: if_splits)
    then show ?thesis
    proof cases
      case 2
      then show ?thesis by (intro exI [where x = True] exI [where x = "m_dwFileCounter c"]) simp
    qed auto
  next
    case False
    then have "DateCheck c os = (False, c, os')" by (auto simp: DateCheck_def GetLocalTime_def os'_def Let_def split: if_splits)
    then show ?thesis by (intro exI [where x = False] exI [where x = "m_dwFileCounter c"]) simp
  qed
  then obtain b k where d: "DateCheck c os = (b, c\<lparr>m_dwFileCounter := k\<rparr>, os')" "unat k \<le> unat (m_dwFileCounter c)" by blast
  moreover have "log_ok (c\<lparr>m_dwFileCounter := k\<rparr>) qs" using assms(1) by (simp add: log_ok_def names_fit_def temp_name_def)
  moreover have "adds [] c os (c\<lparr>m_dwFileCounter := k\<rparr>) os'" by (rule adds_same) (simp_all add: assms(2) temp_name_def os'_def)
  ultimately show ?thesis by blast
qed

lemma same_settings_trans: "same_settings c1 c2 \<Longrightarrow> header_lines c2 hs \<Longrightarrow> header_lines c1 hs"
  by (simp add: same_settings_def header_lines_def)

lemma LogFileDateCheck_ok:
  assumes "log_ok c qs" "length qs + 3 \<le> SEM_MAX" "reliable c os" "unat (m_dwFileCounter c) + 1 < 10 ^ 9"
  shows "\<exists>c' os' hs. LogFileDateCheck c os = Some (c', os') \<and> log_ok c' (qs @ hs) 
    \<and> moves_on [] c os c' os' \<and> same_settings c c' \<and> header_lines c hs"
proof -
  obtain b k os1 where 1: "DateCheck c os = (b, c\<lparr>m_dwFileCounter := k\<rparr>, os1)" "log_ok (c\<lparr>m_dwFileCounter := k\<rparr>) qs" 
    "adds [] c os (c\<lparr>m_dwFileCounter := k\<rparr>) os1" "unat k \<le> unat (m_dwFileCounter c)"
    using DateCheck_ok [OF assms(1,3)] by blast
  define c1 where "c1 = c\<lparr>m_dwFileCounter := k\<rparr>"
  show ?thesis
  proof (cases b)
    case False
    then have "LogFileDateCheck c os = Some (c1, os1)" using 1(1) by (simp add: LogFileDateCheck_def c1_def)
    then show ?thesis using 1 adds_is_moves_on [OF 1(3) assms(3)] by (intro exI [where x = c1] exI [where x = os1] exI [where x = "[]"])
       (simp add: c1_def same_settings_def header_lines_def)
  next
    case True
    have "numbered c1" using assms(4) 1(4) by (simp add: numbered_def c1_def)
    then obtain c2 os2 where 2: "StartLogFile c1 os1 = Some (c2, os2)" "log_ok c2 qs" "moves_on [] c1 os1 c2 os2"
      "same_settings c1 c2" using StartLogFile_ok [OF 1(2) adds_reliable [OF 1(3)]] unfolding c1_def by blast
    obtain q os3 hs where 3: "WriteLogFileHeader c2 os2 = Some (c2\<lparr>m_LogQueue := q\<rparr>, os3)" "log_ok (c2\<lparr>m_LogQueue := q\<rparr>) (qs @ hs)"
      "adds [] c2 os2 (c2\<lparr>m_LogQueue := q\<rparr>) os3" "header_lines c2 hs"
      using WriteLogFileHeader_ok [OF 2(2) assms(2) moves_on_reliable [OF 2(3)]] by blast
    have "LogFileDateCheck c os = Some (c2\<lparr>m_LogQueue := q\<rparr>, os3)"
      using True 1(1) 2(1) 3(1) by (simp add: LogFileDateCheck_def c1_def)
    moreover have "same_settings c (c2\<lparr>m_LogQueue := q\<rparr>)" using 2(4) 1(4) by (auto simp: same_settings_def c1_def)
    moreover have "header_lines c hs" using 2(4) 3(4) by (simp add: same_settings_def header_lines_def c1_def)
    moreover have "moves_on [] c os (c2\<lparr>m_LogQueue := q\<rparr>) os3"
      using adds_moves_on [OF 1(3) assms(3) moves_on_adds [OF 2(3) 3(3), unfolded c1_def]] by simp
    ultimately show ?thesis using 3(2) by blast
  qed
qed

lemma QueueMonitor_round_ok:
  assumes "log_ok c qs" "length qs + 3 \<le> SEM_MAX" "reliable c os" "unat (m_dwFileCounter c) + 1 < 10 ^ 9"
  shows "\<exists>c' os' qs' hs. QueueMonitor_round c os = Some (c', os') \<and> log_ok c' qs' \<and> reliable c' os' \<and> header_lines c' hs
    \<and> unat (m_dwFileCounter c') \<le> unat (m_dwFileCounter c) + 1 \<and> length qs' \<le> length qs + 3
    \<and> (\<exists>A. replaced (m_szLogFile c) (lo_moved os) A \<and> kept_text c' os' @ concat (map line qs') = kept_in A c os @ concat (map line (qs @ hs)))"
proof (cases qs)
  case Nil
  have q0: "queue_of (m_LogQueue c) []" using assms(1) Nil by (simp add: log_ok_def)
  have "QueueMonitor_round c os = Some (c, os)" using work.wait_empty [OF q0] by (simp add: QueueMonitor_round_def)
  then show ?thesis using assms Nil
    by (intro exI [where x = c] exI [where x = os] exI [where x = "[]"]) (simp add: header_lines_def, auto simp: replaced_def)
next
  case (Cons s rest)
  have q0: "queue_of (m_LogQueue c) (s # rest)" using assms(1) Cons by (simp add: log_ok_def)
  obtain q where q: "Queue_Wait (m_LogQueue c) = Some (Some s, q)" "queue_of q rest" using work.wait_first [OF q0] by blast
  define c1 where "c1 = c\<lparr>m_LogQueue := q\<rparr>"
  have 1: "log_ok c1 rest" "message_ok s" "unat (m_dwFileCounter c1) + 1 < 10 ^ 9"
    using assms(1,4) q(2) Cons by (auto simp: log_ok_def c1_def names_fit_def temp_name_def)
  have k1: "adds [] c os c1 os" by (rule adds_same) (simp_all add: assms(3) temp_name_def c1_def)
  have l: "length rest + 3 \<le> SEM_MAX" using assms(2) Cons by simp
  obtain c2 os2 hs where 2: "LogFileDateCheck c1 os = Some (c2, os2)" "log_ok c2 (rest @ hs)" "moves_on [] c1 os c2 os2"
    "same_settings c1 c2" "header_lines c1 hs" using LogFileDateCheck_ok [OF 1(1) l adds_reliable [OF k1] 1(3)] by blast
  obtain c3 os3 where 3: "WriteLogFileMsg s False c2 os2 = Some (c3, os3)" "log_ok c3 (rest @ hs)"
    "adds (line s) c2 os2 c3 os3" "same_settings c2 c3" "m_dwFileCounter c3 = m_dwFileCounter c2"
    using WriteLogFileMsg_ok [OF 2(2) 1(2) moves_on_reliable [OF 2(3)]] by blast
  have "QueueMonitor_round c os = Some (c3, os3)" using q(1) 2(1) 3(1) by (simp add: QueueMonitor_round_def c1_def)
  moreover have "header_lines c3 hs" using 2(4,5) 3(4) by (simp add: same_settings_def header_lines_def)
  moreover have "length hs \<le> 3" using 2(5) by (auto simp: header_lines_def)
  moreover have k: "moves_on (line s) c os c3 os3" using adds_moves_on [OF k1 assms(3) moves_on_adds [OF 2(3) 3(3)]] by simp
  then have "\<exists>A. replaced (m_szLogFile c) (lo_moved os) A
      \<and> kept_text c3 os3 @ concat (map line (rest @ hs)) = kept_in A c os @ concat (map line (qs @ hs))" using Cons by (auto simp: moves_on_def)
  ultimately show ?thesis using 3(2,5) 2(4) Cons moves_on_reliable [OF k] by (intro exI [where x = c3] exI [where x = os3] exI [where x = "rest @ hs"] exI [where x = hs])
    (simp add: same_settings_def c1_def)
qed

definition same_disk :: "os \<Rightarrow> os \<Rightarrow> bool" where
  "same_disk os os' \<longleftrightarrow> lo_opens os' = lo_opens os \<and> lo_writes os' = lo_writes os \<and> lo_moved os' = lo_moved os \<and> lo_files os' = lo_files os"

lemma load_levels_disk: "same_disk os (snd (load_levels ns f os))"
  by (induction ns arbitrary: f os) (simp_all add: same_disk_def GetPrivateProfileInt_def)

lemma LoadLogErrorLevels_ok:
  assumes "log_ok c qs" "reliable c os"
  shows "\<exists>c' os'. LoadLogErrorLevels c os = (c', os') \<and> log_ok c' qs \<and> adds [] c os c' os'
    \<and> m_dwFileCounter c' = m_dwFileCounter c \<and> m_szLogName c' = m_szLogName c \<and> m_szIniFileName c' = m_szIniFileName c
    \<and> m_LogQueue c' = m_LogQueue c \<and> m_dwTotalWriteBytes c' = m_dwTotalWriteBytes c"
proof -
  obtain f os1 where 1: "load_levels [0..<5] 0 os = (f, os1)" by (metis surj_pair)
  have d: "same_disk os os1" using load_levels_disk [of os "[0..<5]" 0] unfolding 1 by simp
  define g where "g = (\<lambda>n section key. case lo_ini os1 (lo_reads os1 + n) section key of None \<Rightarrow> 0 | Some v \<Rightarrow> v)"
  define os' where "os' = os1\<lparr>lo_reads := lo_reads os1 + 3\<rparr>"
  define c' where "c' = c\<lparr>m_nFlags := f, m_dwMaxBytesPerLogFile := of_int \<bar>sint (g 0 ''Settings'' ''MaxBytesPerLogFile'')\<bar>,
    m_bStartupHdr := (g 1 (m_szSection c) ''StartupHdr'' = 1), m_bBreakOnHourChange := (g 2 (m_szSection c) ''BreakOnHourChange'' = 1)\<rparr>"
  have "LoadLogErrorLevels c os = (c', os')"
    unfolding LoadLogErrorLevels_def 1 by (simp add: GetPrivateProfileInt_def g_def c'_def os'_def numeral_3_eq_3)
  moreover have "log_ok c' qs" using assms(1) by (simp add: log_ok_def c'_def names_fit_def temp_name_def)
  moreover have "adds [] c os c' os'" by (rule adds_same) (use d in \<open>simp_all add: assms(2) temp_name_def c'_def os'_def same_disk_def\<close>)
  ultimately show ?thesis by (simp add: c'_def)
qed

lemma DateMonitor_round_ok:
  assumes "log_ok c qs" "length qs + 3 \<le> SEM_MAX" "reliable c os" "unat (m_dwFileCounter c) + 1 < 10 ^ 9"
  shows "\<exists>n' c' os' hs. DateMonitor_round (n, c) os = Some ((n', c'), os') \<and> log_ok c' (qs @ hs) \<and> moves_on [] c os c' os' \<and> header_lines c' hs
    \<and> unat (m_dwFileCounter c') \<le> unat (m_dwFileCounter c) + 1"
proof -
  obtain c1 os1 where 1: "LoadLogErrorLevels c os = (c1, os1)" "log_ok c1 qs" "adds [] c os c1 os1"
    "m_dwFileCounter c1 = m_dwFileCounter c" using LoadLogErrorLevels_ok [OF assms(1,3)] by blast
  have e: "message_ok []" by (simp add: message_ok_def)
  obtain c2 os2 where 2: "WriteLogFileMsg [] True c1 os1 = Some (c2, os2)" "log_ok c2 qs"
    "adds (line []) c1 os1 c2 os2" "m_dwFileCounter c2 = m_dwFileCounter c1"
    using WriteLogFileMsg_ok [OF 1(2) e adds_reliable [OF 1(3)]] by blast
  have k: "adds [] c os c2 os2" using adds_trans [OF 1(3) 2(3)] by (simp add: line_def)
  show ?thesis
  proof (cases "(n + 1) mod 6 = 0")
    case False
    then have "DateMonitor_round (n, c) os = Some ((n + 1, c2), os2)" using 1(1) 2(1) by (simp add: DateMonitor_round_def Let_def)
    then show ?thesis using 1 2 adds_is_moves_on [OF k assms(3)] by (intro exI [where x = "n + 1"] exI [where x = c2] exI [where x = os2] exI [where x = "[]"])
      (simp add: header_lines_def)
  next
    case True
    have b: "unat (m_dwFileCounter c2) + 1 < 10 ^ 9" using assms(4) 1(4) 2(4) by simp
    obtain c3 os3 hs where 3: "LogFileDateCheck c2 os2 = Some (c3, os3)" "log_ok c3 (qs @ hs)" "moves_on [] c2 os2 c3 os3"
      "same_settings c2 c3" "header_lines c2 hs" using LogFileDateCheck_ok [OF 2(2) assms(2) adds_reliable [OF 2(3)] b] by blast
    have "DateMonitor_round (n, c) os = Some ((0, c3), os3)" using True 1(1) 2(1) 3(1) by (simp add: DateMonitor_round_def Let_def)
    moreover have "header_lines c3 hs" using 3(4,5) by (simp add: same_settings_def header_lines_def)
    moreover have "moves_on [] c os c3 os3" using adds_moves_on [OF k assms(3) 3(3)] by simp
    ultimately show ?thesis using 3 1 2 by (intro exI [where x = 0] exI [where x = c3] exI [where x = os3] exI [where x = hs])
      (simp add: same_settings_def)
  qed
qed

section \<open>Calls and rounds of the threads\<close>

datatype log_op =
    DoLog "string option"
  | DoLogNT "string option"
  | DoLog_level nat "string option"
  | DoLogNT_level nat "string option"
  | QueueRound
  | DateRound

fun log_step :: "log_op \<Rightarrow> int \<times> CLogging \<Rightarrow> os \<Rightarrow> ((int \<times> CLogging) \<times> os) option" where
  \<comment> \<open>with the \<open>nCount\<close> of the thread for dates\<close>
  "log_step (DoLog m) (n, c) os = map_option (\<lambda>(c, os). ((n, c), os)) (Log m c os)"
| "log_step (DoLogNT m) (n, c) os = map_option (\<lambda>(c, os). ((n, c), os)) (LogNT m c os)"
| "log_step (DoLog_level l m) (n, c) os = map_option (\<lambda>(c, os). ((n, c), os)) (Log_level l m c os)"
| "log_step (DoLogNT_level l m) (n, c) os = map_option (\<lambda>(c, os). ((n, c), os)) (LogNT_level l m c os)"
| "log_step QueueRound (n, c) os = map_option (\<lambda>(c, os). ((n, c), os)) (QueueMonitor_round c os)"
| "log_step DateRound nc os = DateMonitor_round nc os"

definition texts :: "(string \<Rightarrow> string) \<Rightarrow> string option \<Rightarrow> string list" where
  "texts f m = (case m of None \<Rightarrow> [] | Some t \<Rightarrow> [f t])"

fun accepted :: "log_op \<Rightarrow> CLogging \<Rightarrow> os \<Rightarrow> string list" where
  \<comment> \<open>the message that a call takes: the part of its text that fits\<close>
  "accepted (DoLog m) c os = texts (stamped os) m"
| "accepted (DoLogNT m) c os = texts plain m"
| "accepted (DoLog_level l m) c os = (if IsErrorLevelSet l c then texts (stamped os) m else [])"
| "accepted (DoLogNT_level l m) c os = (if IsErrorLevelSet l c then texts plain m else [])"
| "accepted _ c os = []"

definition log_room :: "CLogging \<Rightarrow> string list \<Rightarrow> bool" where
  "log_room c qs \<longleftrightarrow> length qs + 3 \<le> SEM_MAX \<and> unat (m_dwFileCounter c) + 1 < 10 ^ 9"

definition log_kept :: "int \<times> CLogging \<Rightarrow> os \<Rightarrow> string list \<Rightarrow> string list \<Rightarrow> ((int \<times> CLogging) \<times> os) option \<Rightarrow> bool" where
  \<comment> \<open>the files and the buffer and the queue afterwards are those before with these messages\<close>
  "log_kept nc os qs new r \<longleftrightarrow> (\<exists>n' c' os' qs' hs. r = Some ((n', c'), os') \<and> log_ok c' qs' \<and> reliable c' os' \<and> header_lines c' hs
     \<and> unat (m_dwFileCounter c') \<le> unat (m_dwFileCounter (snd nc)) + 1 \<and> length qs' \<le> length qs + 3
     \<and> (\<exists>A. replaced (m_szLogFile (snd nc)) (lo_moved os) A
          \<and> kept_text c' os' @ concat (map line qs') = kept_in A (snd nc) os @ concat (map line (qs @ new @ hs))))"

lemma log_kept_queued:
  assumes "log_ok c' (qs @ new)" "adds [] c os c' os'" "m_dwFileCounter c' = m_dwFileCounter c" "length new \<le> 3"
  shows "log_kept (n, c) os qs new (Some ((n, c'), os'))"
proof -
  have "temp_name c \<notin> set (lo_moved os)" using assms(2) by (auto simp: adds_def reliable_def)
  then have "kept_text c' os' = kept_in (lo_moved os) c os" using assms(2) by (simp add: adds_def)
  moreover have "replaced (m_szLogFile c) (lo_moved os) (lo_moved os)" by (simp add: replaced_def)
  moreover have "header_lines c' []" by (simp add: header_lines_def)
  moreover have "reliable c' os'" by (rule adds_reliable [OF assms(2)])
  ultimately show ?thesis unfolding log_kept_def snd_conv append_Nil2 using assms(1,3,4)
    by (intro exI [where x = n] exI [where x = c'] exI [where x = os'] exI [where x = "qs @ new"] exI [where x = "[]"] exI conjI)
       (assumption | simp)+
qed

lemma log_kept_same: "log_ok c qs \<Longrightarrow> reliable c os \<Longrightarrow> log_kept (n, c) os qs [] (Some ((n, c), os))"
  by (rule log_kept_queued) (simp_all add: adds_refl)

lemma Log_kept:
  assumes "log_ok c qs" "log_room c qs" "reliable c os"
  shows "log_kept (n, c) os qs (texts (stamped os) m) (map_option (\<lambda>(c, os). ((n, c), os)) (Log m c os))"
proof (cases m)
  case None
  then show ?thesis using log_kept_same [OF assms(1,3)] by (simp add: Log_def texts_def)
next
  case (Some t)
  have l: "length qs < SEM_MAX" using assms(2) by (simp add: log_room_def)
  obtain q os' where q: "Log (Some t) c os = Some (c\<lparr>m_LogQueue := q\<rparr>, os')" "log_ok (c\<lparr>m_LogQueue := q\<rparr>) (qs @ [stamped os t])"
    "adds [] c os (c\<lparr>m_LogQueue := q\<rparr>) os'" using Log_ok [OF assms(1) l assms(3)] by blast
  show ?thesis using log_kept_queued [OF q(2,3)] q(1) by (simp add: Some texts_def)
qed

lemma LogNT_kept:
  assumes "log_ok c qs" "log_room c qs" "reliable c os"
  shows "log_kept (n, c) os qs (texts plain m) (map_option (\<lambda>(c, os). ((n, c), os)) (LogNT m c os))"
proof (cases m)
  case None
  then show ?thesis using log_kept_same [OF assms(1,3)] by (simp add: LogNT_def texts_def)
next
  case (Some t)
  have l: "length qs < SEM_MAX" using assms(2) by (simp add: log_room_def)
  obtain q where q: "LogNT (Some t) c os = Some (c\<lparr>m_LogQueue := q\<rparr>, os)" "log_ok (c\<lparr>m_LogQueue := q\<rparr>) (qs @ [plain t])"
    "adds [] c os (c\<lparr>m_LogQueue := q\<rparr>) os" using LogNT_ok [OF assms(1) l assms(3)] by blast
  show ?thesis using log_kept_queued [OF q(2,3)] q(1) by (simp add: Some texts_def)
qed

lemma log_step_kept:
  assumes "log_ok c qs" "log_room c qs" "reliable c os"
  shows "log_kept (n, c) os qs (accepted op c os) (log_step op (n, c) os)"
proof (cases op)
  case (DoLog m)
  then show ?thesis using Log_kept [OF assms] by simp
next
  case (DoLogNT m)
  then show ?thesis using LogNT_kept [OF assms] by simp
next
  case (DoLog_level l m)
  show ?thesis
  proof (cases "IsErrorLevelSet l c \<and> m \<noteq> None")
    case True
    then show ?thesis using Log_kept [OF assms] DoLog_level by (auto simp: Log_level_def)
  next
    case False
    then have "accepted op c os = []" "Log_level l m c os = Some (c, os)" using DoLog_level by (auto simp: texts_def Log_level_def)
    then show ?thesis using log_kept_same [OF assms(1,3)] DoLog_level by simp
  qed
next
  case (DoLogNT_level l m)
  show ?thesis
  proof (cases "IsErrorLevelSet l c \<and> m \<noteq> None")
    case True
    then show ?thesis using LogNT_kept [OF assms] DoLogNT_level by (auto simp: LogNT_level_def)
  next
    case False
    then have "accepted op c os = []" "LogNT_level l m c os = Some (c, os)" using DoLogNT_level by (auto simp: texts_def LogNT_level_def)
    then show ?thesis using log_kept_same [OF assms(1,3)] DoLogNT_level by simp
  qed
next
  case QueueRound
  have r: "length qs + 3 \<le> SEM_MAX" "unat (m_dwFileCounter c) + 1 < 10 ^ 9" using assms(2) unfolding log_room_def by blast+
  obtain c' os' qs' hs where q: "QueueMonitor_round c os = Some (c', os')" "log_ok c' qs'" "reliable c' os'" "header_lines c' hs"
    "unat (m_dwFileCounter c') \<le> unat (m_dwFileCounter c) + 1" "length qs' \<le> length qs + 3"
    "\<exists>A. replaced (m_szLogFile c) (lo_moved os) A \<and> kept_text c' os' @ concat (map line qs') = kept_in A c os @ concat (map line (qs @ hs))"
    using QueueMonitor_round_ok [OF assms(1) r(1) assms(3) r(2)] by blast
  then show ?thesis unfolding log_kept_def
    by (intro exI [where x = n] exI [where x = c'] exI [where x = os'] exI [where x = qs'] exI [where x = hs]) (simp add: QueueRound)
next
  case DateRound
  have r: "length qs + 3 \<le> SEM_MAX" "unat (m_dwFileCounter c) + 1 < 10 ^ 9" using assms(2) unfolding log_room_def by blast+
  obtain n' c' os' hs where d: "DateMonitor_round (n, c) os = Some ((n', c'), os')" "log_ok c' (qs @ hs)" "moves_on [] c os c' os'" "header_lines c' hs"
    "unat (m_dwFileCounter c') \<le> unat (m_dwFileCounter c) + 1"
    using DateMonitor_round_ok [OF assms(1) r(1) assms(3) r(2)] by blast
  have "length hs \<le> 3" using d(4) by (auto simp: header_lines_def)
  moreover have "\<exists>A. replaced (m_szLogFile c) (lo_moved os) A \<and> kept_text c' os' = kept_in A c os" using d(3) by (simp add: moves_on_def)
  ultimately show ?thesis unfolding log_kept_def using d moves_on_reliable [OF d(3)]
    by (intro exI [where x = n'] exI [where x = c'] exI [where x = os'] exI [where x = "qs @ hs"] exI [where x = hs]) (simp add: DateRound)
qed

section \<open>A file that cannot be opened\<close>

definition blocked :: "CLogging \<Rightarrow> bool" where
  \<comment> \<open>the buffer begins with NUL but holds bytes\<close>
  "blocked c \<longleftrightarrow> m_LogMutex c = 1 \<and> length (m_szOutBuffer c) = OUT_SIZE \<and> 0 < m_dwTotalWriteBytes c
     \<and> m_dwTotalWriteBytes c \<le> OUT_SIZE \<and> m_szOutBuffer c ! 0 = NUL"

fun write_all_msgs :: "(string \<times> bool) list \<Rightarrow> CLogging \<Rightarrow> os \<Rightarrow> logged" where
  "write_all_msgs [] c os = Some (c, os)"
| "write_all_msgs ((s, now) # ms) c os = (case WriteLogFileMsg s now c os of None \<Rightarrow> None | Some (c, os) \<Rightarrow> write_all_msgs ms c os)"

lemma WriteLogFileMsg_blocked:
  assumes "blocked c"
  shows "WriteLogFileMsg s now c os = (if m_dwTotalWriteBytes c + length (line s) \<le> OUT_SIZE
     then Some (c\<lparr>m_szOutBuffer := take (m_dwTotalWriteBytes c) (m_szOutBuffer c) @ line s
                    @ drop (m_dwTotalWriteBytes c + length (line s)) (m_szOutBuffer c),
                  m_dwTotalWriteBytes := m_dwTotalWriteBytes c + length (line s)\<rparr>, os) else None)"
proof -
  define t where "t = m_dwTotalWriteBytes c"
  have o: "m_LogMutex c = 1" "length (m_szOutBuffer c) = OUT_SIZE" "0 < t" "m_szOutBuffer c ! 0 = NUL" "t \<le> OUT_SIZE"
    using assms by (simp_all add: blocked_def t_def)
  show ?thesis
  proof (cases "t + length (line s) \<le> OUT_SIZE")
    case False
    then have s: "s \<noteq> []" "\<not> t + length s + 2 \<le> OUT_SIZE" using o(5) by (auto simp: line_def split: if_splits)
    define n where "n = m_dwTotalWriteBytes c + length s"
    have "append_out s (c\<lparr>m_LogMutex := 0\<rparr>) = None"
    proof (cases "n \<le> OUT_SIZE")
      case True
      define b where "b = take t (m_szOutBuffer c) @ s @ drop n (m_szOutBuffer c)"
      have b: "write_at t s (m_szOutBuffer c) = Some b" using True o(2) by (simp add: write_at_def b_def n_def t_def)
      have "length b = OUT_SIZE" using True o(2,5) by (simp add: b_def n_def t_def)
      then have "write_at n CRLF b = None" using s(2) by (simp add: write_at_def n_def t_def)
      then show ?thesis using s(1) b by (simp add: append_out_def Let_def n_def t_def)
    next
      case False
      then have "write_at t s (m_szOutBuffer c) = None" using o(2) by (simp add: write_at_def n_def t_def)
      then show ?thesis using s(1) by (simp add: append_out_def t_def)
    qed
    then show ?thesis using False o(1) by (simp add: WriteLogFileMsg_def t_def)
  next
    case True
    define B where "B = take t (m_szOutBuffer c) @ line s @ drop (t + length (line s)) (m_szOutBuffer c)"
    define T where "T = t + length (line s)"
    have "append_out s (c\<lparr>m_LogMutex := 0\<rparr>) = Some (c\<lparr>m_LogMutex := 0, m_szOutBuffer := B, m_dwTotalWriteBytes := T\<rparr>)"
    proof (cases "s = []")
      case True
      then show ?thesis using o(2) by (simp add: append_out_def B_def T_def t_def line_def)
    next
      case False
      then have "m_dwTotalWriteBytes c + length s + 2 \<le> OUT_SIZE" using True by (simp add: line_def t_def)
      then show ?thesis using False o(2) by (simp add: append_out_def write_at_def B_def T_def t_def line_def Let_def)
    qed
    moreover have "B ! 0 = NUL" using o True by (simp add: B_def nth_append)
    moreover have "rd B 0 = Some (B ! 0)" using o(2,3) by (simp add: rd_def B_def)
    moreover have "c\<lparr>m_szOutBuffer := B, m_dwTotalWriteBytes := T, m_LogMutex := Suc 0\<rparr> = c\<lparr>m_szOutBuffer := B, m_dwTotalWriteBytes := T\<rparr>"
      using o(1) by (cases c) simp
    ultimately have "WriteLogFileMsg s now c os = Some (c\<lparr>m_szOutBuffer := B, m_dwTotalWriteBytes := T\<rparr>, os)"
      using o(1) by (simp add: WriteLogFileMsg_def)
    then show ?thesis using True unfolding B_def T_def t_def by simp
  qed
qed

lemma write_all_blocked:
  "blocked c \<Longrightarrow> case write_all_msgs ms c os of
       None \<Rightarrow> OUT_SIZE < m_dwTotalWriteBytes c + length (concat (map (\<lambda>(s, _). line s) ms))
     | Some (c', os') \<Rightarrow> os' = os \<and> m_dwTotalWriteBytes c + length (concat (map (\<lambda>(s, _). line s) ms)) \<le> OUT_SIZE"
proof (induction ms arbitrary: c)
  case Nil
  then show ?case by (simp add: blocked_def)
next
  case (Cons m ms)
  obtain s now where m: "m = (s, now)" by (cases m)
  define t where "t = m_dwTotalWriteBytes c"
  show ?case
  proof (cases "t + length (line s) \<le> OUT_SIZE")
    case False
    then show ?thesis using WriteLogFileMsg_blocked [OF Cons.prems, of s now os] by (simp add: m t_def)
  next
    case True
    define c1 where "c1 = c\<lparr>m_szOutBuffer := take t (m_szOutBuffer c) @ line s @ drop (t + length (line s)) (m_szOutBuffer c),
                  m_dwTotalWriteBytes := t + length (line s)\<rparr>"
    have w: "WriteLogFileMsg s now c os = Some (c1, os)" using WriteLogFileMsg_blocked [OF Cons.prems, of s now os] True
      by (simp add: t_def c1_def)
    have "blocked c1" using Cons.prems True by (auto simp: blocked_def c1_def t_def nth_append)
    from Cons.IH [OF this] show ?thesis using w by (auto simp: m c1_def t_def add.assoc split: option.splits prod.splits)
  qed
qed

text \<open>
  C39: what is logged is kept, as far as moved files do not replace each other. Whatever is called and
  whichever thread runs a round, as long as files can be opened and written (C40), the queue has room for the message
  and a header, and the number of the next file has nine digits at most: nothing overflows and no
  lock stays taken; what is on the disk in the files moved away, in the current file, in the
  buffer and in the queue is in this order what was there before, followed by the message of the
  call (cut to 4095 bytes or at a NUL, and only when its level is enabled) and, when a file was started, by its
  header; nothing is repeated or reordered. The only thing that can be missing is one whole file
  moved away before: when the current file is moved to its name (\<open>MOVEFILE_REPLACE_EXISTING\<close>).
\<close>
theorem log_keeps_every_message:
  assumes "log_ok c qs" "log_room c qs" "reliable c os"
  shows "\<exists>n' c' os' qs' hs A. log_step op (n, c) os = Some ((n', c'), os') \<and> log_ok c' qs' \<and> reliable c' os' \<and> header_lines c' hs
     \<and> unat (m_dwFileCounter c') \<le> unat (m_dwFileCounter c) + 1 \<and> length qs' \<le> length qs + 3
     \<and> (A = lo_moved os \<or> (m_szLogFile c \<in> set (lo_moved os) \<and> A = filter (\<lambda>name. name \<noteq> m_szLogFile c) (lo_moved os)))
     \<and> kept_text c' os' @ concat (map line qs') = kept_in A c os @ concat (map line (qs @ accepted op c os @ hs))"
  using log_step_kept [OF assms, of n op] unfolding log_kept_def snd_conv replaced_def by (elim exE conjE) (intro exI conjI; assumption)

text \<open>
  C40: one failure to open the file silences the log and then breaks it. When \<open>CreateFile\<close> fails while
  bytes wait in the buffer, the count of these bytes is kept but the buffer is marked as empty; no
  later call writes anything, even when files can be opened again, and the bytes pile up
  until, after 15361 of them, a message is copied behind the end of the buffer.
\<close>
theorem failed_open_ends_log:
  assumes "log_ok c qs" "message_ok s" "lo_opens os = False # rest"
    "now \<or> m_dwTotalWriteBytes c + length (line s) > 1024" "0 < m_dwTotalWriteBytes c + length (line s)"
  shows "\<exists>c' os'. WriteLogFileMsg s now c os = Some (c', os') \<and> lo_files os' = lo_files os \<and> lo_opens os' = rest
    \<and> (\<forall>ms. case write_all_msgs ms c' os' of
         None \<Rightarrow> OUT_SIZE < m_dwTotalWriteBytes c + length (line s) + length (concat (map (\<lambda>(s, _). line s) ms))
       | Some (c'', os'') \<Rightarrow> lo_files os'' = lo_files os
           \<and> m_dwTotalWriteBytes c + length (line s) + length (concat (map (\<lambda>(s, _). line s) ms)) \<le> OUT_SIZE)"
proof -
  define t where "t = m_dwTotalWriteBytes c"
  define B where "B = take t (m_szOutBuffer c) @ line s @ drop (t + length (line s)) (m_szOutBuffer c)"
  define T where "T = t + length (line s)"
  have o: "m_LogMutex c = 1" "length (m_szOutBuffer c) = OUT_SIZE" "t \<le> 1024" "t > 0 \<longrightarrow> m_szOutBuffer c ! 0 \<noteq> NUL"
    using assms(1) by (simp_all add: log_ok_def t_def)
  have ls: "length s \<le> 4095" using assms(2) by (simp add: message_ok_def)
  have B: "length B = OUT_SIZE" "T \<le> 5121" using o(2,3) ls by (auto simp: B_def T_def line_def)
  have f: "B ! 0 \<noteq> NUL"
  proof (cases "t = 0")
    case True
    then obtain x xs where "s = x # xs" using assms(5) by (cases s) (auto simp: t_def line_def)
    moreover from this have "x \<noteq> NUL" using assms(2) by (auto simp: message_ok_def)
    ultimately show ?thesis using True by (simp add: B_def line_def)
  next
    case False
    then show ?thesis using o by (simp add: B_def nth_append)
  qed
  define c1 where "c1 = c\<lparr>m_LogMutex := 0, m_szOutBuffer := B, m_dwTotalWriteBytes := T\<rparr>"
  have a: "append_out s (c\<lparr>m_LogMutex := 0\<rparr>) = Some c1"
    using o(2,3) ls by (auto simp: append_out_def write_at_def c1_def B_def T_def t_def line_def Let_def)
  have n: "now \<or> T > 1024" using assms(4) by (simp add: T_def t_def)
  define os' where "os' = os\<lparr>lo_opens := rest\<rparr>"
  have "B \<noteq> []" using B(1) by (cases B) simp_all
  then have fl: "flush_out c1 os = Some (c1\<lparr>m_szOutBuffer := B[0 := NUL]\<rparr>, os')"
    using B(1) assms(3) by (simp add: flush_out_def CreateFile_def poke_def c1_def os'_def)
  define c' where "c' = c1\<lparr>m_LogMutex := 1, m_szOutBuffer := B[0 := NUL]\<rparr>"
  have "rd B 0 = Some (B ! 0)" using B(1) by (simp add: rd_def)
  then have w: "WriteLogFileMsg s now c os = Some (c', os')"
    using o(1) a f n fl by (auto simp: WriteLogFileMsg_def c1_def c'_def)
  have "0 < T" using assms(5) by (simp add: T_def t_def)
  then have b: "blocked c'" using B by (simp add: blocked_def c'_def c1_def)
  have "m_dwTotalWriteBytes c' = T" by (simp add: c'_def c1_def)
  then have "case write_all_msgs ms c' os' of
         None \<Rightarrow> OUT_SIZE < T + length (concat (map (\<lambda>(s, _). line s) ms))
       | Some (c'', os'') \<Rightarrow> lo_files os'' = lo_files os \<and> T + length (concat (map (\<lambda>(s, _). line s) ms)) \<le> OUT_SIZE" for ms
    using write_all_blocked [OF b, of ms os'] by (auto simp: os'_def split: option.splits)
  then show ?thesis using w unfolding T_def t_def by (intro exI [where x = c'] exI [where x = os']) (simp add: os'_def)
qed

definition log_sample :: CLogging where
  \<comment> \<open>an object with an empty buffer and nothing queued\<close>
  "log_sample = \<lparr>m_LastSystemTime = \<lparr>wYear = 2020, wMonth = 1, wDay = 2, wHour = 3, wMinute = 4, wSecond = 5, wMilliseconds = 6\<rparr>,
     m_bBreakOnHourChange = True, m_bStartupHdr = True, m_dwTotalBytesWritten = 0, m_dwMaxBytesPerLogFile = 0, m_dwFileCounter = 0,
     m_dwTotalWriteBytes = 0, m_szTempLogFile = log_drive ''C:.ini'' @ ''App'' @ ''.Log'', m_szLogFile = [BACKSLASH], m_szModuleName = [],
     m_szSection = ''App'', m_szLogName = ''App'', m_szIniFileName = ''C:.ini'', m_szAppNumber = [],
     m_szOutBuffer = replicate OUT_SIZE NUL, m_nFlags = 1, m_LogQueue = Queue_init, m_LogMutex = 1\<rparr>"

definition os_sample :: "bool list \<Rightarrow> os" where
  "os_sample opens = \<lparr>lo_time = (\<lambda>_. m_LastSystemTime log_sample), lo_ticks = 0, lo_ini = (\<lambda>_ _ _. None), lo_reads = 0, lo_app = [],
     lo_exe = [], lo_files = [''Old'' \<mapsto> ''before''], lo_opens = opens, lo_writes = [], lo_moves = [], lo_moved = [''Old''], lo_dirs = []\<rparr>"

lemma log_sample_ok: "log_ok log_sample []" "log_room log_sample []" "reliable log_sample (os_sample [])"
proof -
  have n: "names_fit log_sample" by (simp add: names_fit_def log_name_def log_sample_def)
  have t: "temp_name log_sample = log_drive ''C:.ini'' @ ''App'' @ ''.Log''" by (simp add: temp_name_def log_name_def log_sample_def)
  then have l: "length (temp_name log_sample) > 3" by simp
  then have "temp_name log_sample \<noteq> [BACKSLASH]" by auto
  then show "log_ok log_sample []" using n t unfolding log_ok_def by (simp add: log_sample_def queue_of_def holds_init) (simp add: Queue_init_def)
  have "temp_name log_sample \<noteq> ''Old''" using l by auto
  then show "reliable log_sample (os_sample [])" unfolding reliable_def by (simp add: os_sample_def)
  show "log_room log_sample []" by (simp add: log_room_def log_sample_def)
qed

theorem log_keeps_every_message_witness:
  "\<exists>n' c' os' qs' hs. log_step (DoLogNT (Some ''hello'')) (0, log_sample) (os_sample []) = Some ((n', c'), os')
     \<and> kept_text c' os' @ concat (map line qs')
         = kept_text log_sample (os_sample []) @ concat (map line ([] @ accepted (DoLogNT (Some ''hello'')) log_sample (os_sample []) @ hs))"
proof -
  have m: "m_szLogFile log_sample \<notin> set (lo_moved (os_sample []))" by (simp add: log_sample_def os_sample_def)
  obtain n' c' os' qs' hs A where r: "log_step (DoLogNT (Some ''hello'')) (0, log_sample) (os_sample []) = Some ((n', c'), os')"
    "A = lo_moved (os_sample []) \<or> m_szLogFile log_sample \<in> set (lo_moved (os_sample []))
        \<and> A = filter (\<lambda>name. name \<noteq> m_szLogFile log_sample) (lo_moved (os_sample []))"
    "kept_text c' os' @ concat (map line qs')
      = kept_in A log_sample (os_sample []) @ concat (map line ([] @ accepted (DoLogNT (Some ''hello'')) log_sample (os_sample []) @ hs))"
    using log_keeps_every_message [OF log_sample_ok, of "DoLogNT (Some ''hello'')" 0] by (elim exE conjE) (rule that; assumption)
  have a: "A = lo_moved (os_sample [])" using r(2) m by (elim disjE conjE) (assumption, rule notE)
  show ?thesis using r(1) r(3) [unfolded a] by (intro exI conjI)
qed

theorem failed_open_ends_log_witness:
  "\<exists>c' os'. WriteLogFileMsg ''hello'' True log_sample (os_sample [False]) = Some (c', os') \<and> lo_opens os' = []"
proof -
  have m: "message_ok ''hello''" "0 < length (line ''hello'')" by (simp_all add: message_ok_def line_def)
  have "lo_opens (os_sample [False]) = [False]" by (simp add: os_sample_def)
  then show ?thesis using failed_open_ends_log [OF log_sample_ok(1) m(1), of "os_sample [False]" "[]" True] m(2) by auto
qed

end
