(* ===== verification/RfdMap.thy ===== *)
theory RfdMap
  imports Net
begin

text \<open>
  The descriptors of \<open>Win32_Interop\<close>: the class \<open>RFDMap\<close> of \<open>win32_rfdmap.cpp\<close>, which gives small numbers
  to sockets and files of the C run-time, the functions of \<open>Win32_FDAPI.cpp\<close> that use it, and the
  states of sockets for completion ports in \<open>win32_wsiocp.c\<close>. A method of \<open>RFDMap\<close> holds its critical section from
  beginning to end and is one step. What the functions of Windows and of the C run-time answer is a
  parameter in the state, and every call of them is recorded. \<open>ASSERT\<close> is empty, as without
  \<open>_DEBUG\<close>; \<open>None\<close> is the use of a null or dangling pointer.
\<close>

unbundle bit_operations_syntax

type_synonym RFD = int
type_synonym SOCKET = int   \<comment> \<open>\<open>INVALID_SOCKET\<close> is \<open>~0\<close>, read here as -1\<close>

abbreviation (input) INVALID_FD :: int where "INVALID_FD \<equiv> -1"
abbreviation (input) INVALID_SOCKET :: SOCKET where "INVALID_SOCKET \<equiv> -1"
abbreviation (input) SOCKET_ERROR :: int where "SOCKET_ERROR \<equiv> -1"
abbreviation RFD_MAX :: int where "RFD_MAX \<equiv> 2 ^ 31 - 1"   \<comment> \<open>\<open>INT_MAX\<close>\<close>
abbreviation (input) FIRST_RESERVED_RFD_INDEX :: int where "FIRST_RESERVED_RFD_INDEX \<equiv> 0"
abbreviation (input) LAST_RESERVED_RFD_INDEX :: int where "LAST_RESERVED_RFD_INDEX \<equiv> 2"

section \<open>The class RFDMap\<close>

record SocketInfo =
  si_socket :: SOCKET
  si_state :: "nat option"
  si_flags :: int
  si_addr :: string

record RFDMap =
  SocketToRFDMap :: "SOCKET \<Rightarrow> RFD option"
  CrtFDToRFDMap :: "int \<Rightarrow> RFD option"
  RFDToSocketInfoMap :: "RFD \<Rightarrow> SocketInfo option"
  RFDToCrtFDMap :: "RFD \<Rightarrow> int option"
  RFDRecyclePool :: "RFD list"
  next_available_rfd :: int

definition getNextRFDAvailable :: "RFDMap \<Rightarrow> RFD \<times> RFDMap" where
  "getNextRFDAvailable m =
     (case RFDRecyclePool m of
        r # rs \<Rightarrow> (r, m\<lparr>RFDRecyclePool := rs\<rparr>)
      | [] \<Rightarrow> if next_available_rfd m < RFD_MAX then (next_available_rfd m, m\<lparr>next_available_rfd := next_available_rfd m + 1\<rparr>)
              else (INVALID_FD, m))"

definition new_info :: "SOCKET \<Rightarrow> SocketInfo" where
  \<comment> \<open>\<open>SOCKADDR_STORAGE\<close> has 128 bytes\<close>
  "new_info s = \<lparr>si_socket = s, si_state = None, si_flags = 0, si_addr = replicate 128 NUL\<rparr>"

definition addSocket :: "SOCKET \<Rightarrow> RFDMap \<Rightarrow> RFD \<times> RFDMap" where
  "addSocket s m =
     (if SocketToRFDMap m s \<noteq> None then (INVALID_FD, m)
      else case getNextRFDAvailable m of (rfd, m) \<Rightarrow>
        if rfd \<noteq> INVALID_FD then
          (rfd, m\<lparr>SocketToRFDMap := (SocketToRFDMap m)(s \<mapsto> rfd), RFDToSocketInfoMap := (RFDToSocketInfoMap m)(rfd \<mapsto> new_info s)\<rparr>)
        else (rfd, m))"

definition removeSocketToRFD :: "SOCKET \<Rightarrow> RFDMap \<Rightarrow> RFDMap" where
  "removeSocketToRFD s m = m\<lparr>SocketToRFDMap := (SocketToRFDMap m)(s := None)\<rparr>"

definition removeRFDToSocketInfo :: "RFD \<Rightarrow> RFDMap \<Rightarrow> RFDMap" where
  "removeRFDToSocketInfo rfd m =
     m\<lparr>RFDToSocketInfoMap := (RFDToSocketInfoMap m)(rfd := None), RFDRecyclePool := RFDRecyclePool m @ [rfd]\<rparr>"

definition addCrtFD :: "int \<Rightarrow> RFDMap \<Rightarrow> RFD \<times> RFDMap" where
  "addCrtFD crt_fd m =
     (case CrtFDToRFDMap m crt_fd of
        Some rfd \<Rightarrow> (rfd, m)
      | None \<Rightarrow> (case getNextRFDAvailable m of (rfd, m) \<Rightarrow>
          if rfd \<noteq> INVALID_FD then
            (rfd, m\<lparr>CrtFDToRFDMap := (CrtFDToRFDMap m)(crt_fd \<mapsto> rfd), RFDToCrtFDMap := (RFDToCrtFDMap m)(rfd \<mapsto> crt_fd)\<rparr>)
          else (rfd, m)))"

definition removeCrtFD :: "int \<Rightarrow> RFDMap \<Rightarrow> RFDMap" where
  "removeCrtFD crt_fd m =
     (if crt_fd > LAST_RESERVED_RFD_INDEX then
        case CrtFDToRFDMap m crt_fd of
          None \<Rightarrow> m
        | Some rfd \<Rightarrow> m\<lparr>RFDRecyclePool := RFDRecyclePool m @ [rfd], RFDToCrtFDMap := (RFDToCrtFDMap m)(rfd := None),
                          CrtFDToRFDMap := (CrtFDToRFDMap m)(crt_fd := None)\<rparr>
      else m)"

definition lookupSocket :: "RFD \<Rightarrow> RFDMap \<Rightarrow> SOCKET" where
  "lookupSocket rfd m = (case RFDToSocketInfoMap m rfd of None \<Rightarrow> INVALID_SOCKET | Some i \<Rightarrow> si_socket i)"

definition lookupSocketInfo :: "RFD \<Rightarrow> RFDMap \<Rightarrow> SocketInfo option" where
  "lookupSocketInfo rfd m = RFDToSocketInfoMap m rfd"

definition set_info :: "RFD \<Rightarrow> (SocketInfo \<Rightarrow> SocketInfo) \<Rightarrow> RFDMap \<Rightarrow> RFDMap" where
  \<comment> \<open>an assignment through the pointer of \<open>lookupSocketInfo\<close>\<close>
  "set_info rfd f m = m\<lparr>RFDToSocketInfoMap := (RFDToSocketInfoMap m)(rfd := map_option f (RFDToSocketInfoMap m rfd))\<rparr>"

definition lookupCrtFD :: "RFD \<Rightarrow> RFDMap \<Rightarrow> int" where
  "lookupCrtFD rfd m =
     (case RFDToCrtFDMap m rfd of
        Some c \<Rightarrow> c
      | None \<Rightarrow> if rfd \<ge> FIRST_RESERVED_RFD_INDEX \<and> rfd \<le> LAST_RESERVED_RFD_INDEX then rfd else INVALID_FD)"

definition RFDMap_new :: RFDMap where
  \<comment> \<open>the constructor\<close>
  "RFDMap_new =
     (let m = \<lparr>SocketToRFDMap = Map.empty, CrtFDToRFDMap = Map.empty, RFDToSocketInfoMap = Map.empty, RFDToCrtFDMap = Map.empty,
            RFDRecyclePool = [], next_available_rfd = LAST_RESERVED_RFD_INDEX + 1\<rparr>
      in snd (addCrtFD 2 (snd (addCrtFD 1 (snd (addCrtFD 0 m))))))"

section \<open>The state of the layer\<close>

record asendreq =
  sr_client :: int
  sr_data :: int
  sr_buf :: string

record iocpSockState =
  is_masks :: "32 word"
  is_fd :: int
  is_reqs :: "int list"          \<comment> \<open>the sockets accepted, which the event loop puts here\<close>
  is_wreqs :: "32 word"
  is_wreqlist :: "asendreq list"

datatype fcall =
    FSocket | FWSASocket | FAccept SOCKET | FClose SOCKET | FCrtClose int
  | FCrtOpen | FCrtPipe | FFileno int | FCrtFclose int | FOpenHandle
  | FIoctl SOCKET "32 word" | FSetHandle SOCKET | FPort SOCKET RFD | FSetopt SOCKET | FUpdateAccept SOCKET
  | FAcceptPtr SOCKET | FAcceptEx SOCKET SOCKET | FConnectPtr SOCKET | FLoopback SOCKET | FConnectEx SOCKET string nat
  | FBind SOCKET | FListen SOCKET int | FConnect SOCKET string | FGetopt SOCKET | FGetpeer SOCKET | FGetsock SOCKET
  | FRecv SOCKET nat | FSend SOCKET string | FCrtRead int nat | FCrtWrite int string | FPrint int string
  | FWSARecv SOCKET | FWSASend SOCKET string | FSockaddrs SOCKET | FWait RFD

record fdapi =
  fd_map :: RFDMap
  fd_errno :: int
  fd_hook :: bool                    \<comment> \<open>\<open>wsiocp_CloseSocketState\<close> is set\<close>
  fd_iocph :: bool                   \<comment> \<open>\<open>iocph != NULL\<close>\<close>
  fd_heap :: "nat \<Rightarrow> iocpSockState option"
  fd_fresh :: nat
  fd_calls :: "fcall list"           \<comment> \<open>the last one first\<close>
  fd_answer :: "fcall list \<Rightarrow> int"    \<comment> \<open>the value of the last call\<close>
  fd_lasterror :: "fcall list \<Rightarrow> int" \<comment> \<open>\<open>GetLastError\<close> after the last call\<close>
  fd_AE :: "32 word"                 \<comment> \<open>\<open>AE_READABLE | AE_WRITABLE\<close> of \<open>ae.h\<close>\<close>

definition ask :: "fcall \<Rightarrow> fdapi \<Rightarrow> int \<times> fdapi" where
  "ask k st = (let ks = k # fd_calls st in (fd_answer st ks, st\<lparr>fd_calls := ks\<rparr>))"

abbreviation last_error :: "fdapi \<Rightarrow> int" where "last_error st \<equiv> fd_lasterror st (fd_calls st)"

abbreviation on_map :: "(RFDMap \<Rightarrow> RFD \<times> RFDMap) \<Rightarrow> fdapi \<Rightarrow> RFD \<times> fdapi" where
  "on_map f st \<equiv> (case f (fd_map st) of (rfd, m) \<Rightarrow> (rfd, st\<lparr>fd_map := m\<rparr>))"

abbreviation (input) EBADF :: int where "EBADF \<equiv> 9"
abbreviation (input) ENOENT :: int where "ENOENT \<equiv> 2"
abbreviation (input) WSAEWOULDBLOCK :: int where "WSAEWOULDBLOCK \<equiv> 10035"
abbreviation (input) WSAEINVAL :: int where "WSAEINVAL \<equiv> 10022"
abbreviation (input) ERROR_IO_PENDING :: int where "ERROR_IO_PENDING \<equiv> 997"   \<comment> \<open>and \<open>WSA_IO_PENDING\<close>\<close>

abbreviation fails :: "int \<Rightarrow> int \<Rightarrow> fdapi \<Rightarrow> int \<times> fdapi" where
  "fails v e st \<equiv> (v, st\<lparr>fd_errno := e\<rparr>)"

definition on_socket :: "RFD \<Rightarrow> int \<Rightarrow> (SOCKET \<Rightarrow> fdapi \<Rightarrow> int \<times> fdapi) \<Rightarrow> fdapi \<Rightarrow> int \<times> fdapi" where
  \<comment> \<open>\<open>lookupSocket\<close>, the call, and otherwise \<open>EBADF\<close> with the value given\<close>
  "on_socket rfd bad f st =
     (let s = lookupSocket rfd (fd_map st) in if s \<noteq> INVALID_SOCKET then f s st else fails bad EBADF st)"

section \<open>States of sockets for completion ports\<close>

definition READ_QUEUED :: "32 word" where "READ_QUEUED = 0x000100"
definition SOCKET_ATTACHED :: "32 word" where "SOCKET_ATTACHED = 0x000400"
definition ACCEPT_PENDING :: "32 word" where "ACCEPT_PENDING = 0x000800"
definition LISTEN_SOCK :: "32 word" where "LISTEN_SOCK = 0x001000"
definition CONNECT_PENDING :: "32 word" where "CONNECT_PENDING = 0x002000"
definition CLOSE_PENDING :: "32 word" where "CLOSE_PENDING = 0x004000"

definition upd_state :: "nat \<Rightarrow> (iocpSockState \<Rightarrow> iocpSockState) \<Rightarrow> fdapi \<Rightarrow> fdapi option" where
  "upd_state p f st = (case fd_heap st p of None \<Rightarrow> None | Some k \<Rightarrow> Some (st\<lparr>fd_heap := (fd_heap st)(p \<mapsto> f k)\<rparr>))"

definition FDAPI_GetSocketState :: "RFD \<Rightarrow> fdapi \<Rightarrow> nat option option" where
  \<comment> \<open>what \<open>FDAPI_GetSocketStatePtr\<close> points to, \<open>None\<close> for a null pointer\<close>
  "FDAPI_GetSocketState rfd st = map_option si_state (lookupSocketInfo rfd (fd_map st))"

definition WSIOCP_GetExistingSocketState :: "RFD \<Rightarrow> fdapi \<Rightarrow> nat option" where
  "WSIOCP_GetExistingSocketState fd st = (case FDAPI_GetSocketState fd st of None \<Rightarrow> None | Some p \<Rightarrow> p)"

definition WSIOCP_GetSocketState :: "RFD \<Rightarrow> fdapi \<Rightarrow> nat option \<times> fdapi" where
  \<comment> \<open>memory of this heap is always there: its flag makes a failure an exception\<close>
  "WSIOCP_GetSocketState fd st =
     (case FDAPI_GetSocketState fd st of
        None \<Rightarrow> (None, st)
      | Some (Some p) \<Rightarrow> (Some p, st)
      | Some None \<Rightarrow>
          let p = fd_fresh st
          in (Some p, st\<lparr>fd_fresh := p + 1,
                fd_heap := (fd_heap st)(p \<mapsto> \<lparr>is_masks = 0, is_fd = fd, is_reqs = [], is_wreqs = 0, is_wreqlist = []\<rparr>),
                fd_map := set_info fd (\<lambda>i. i\<lparr>si_state := Some p\<rparr>) (fd_map st)\<rparr>))"

definition WSIOCP_CloseSocketState :: "nat \<Rightarrow> fdapi \<Rightarrow> (bool \<times> fdapi) option" where
  "WSIOCP_CloseSocketState p st =
     (case fd_heap st p of
        None \<Rightarrow> None
      | Some k \<Rightarrow>
          let k = k\<lparr>is_masks := is_masks k AND NOT (SOCKET_ATTACHED OR fd_AE st)\<rparr>
          in if is_wreqs k = 0 \<and> is_masks k AND (READ_QUEUED OR CONNECT_PENDING) = 0
             then Some (True, st\<lparr>fd_heap := (fd_heap st)(p := None)\<rparr>)
             else Some (False, st\<lparr>fd_heap := (fd_heap st)(p \<mapsto> k\<lparr>is_masks := is_masks k OR CLOSE_PENDING\<rparr>)\<rparr>))"

definition WSIOCP_CloseSocketStateRFD :: "RFD \<Rightarrow> fdapi \<Rightarrow> (bool \<times> fdapi) option" where
  "WSIOCP_CloseSocketStateRFD rfd st = do { p \<leftarrow> WSIOCP_GetExistingSocketState rfd st; WSIOCP_CloseSocketState p st }"

definition WSIOCP_Init :: "bool \<Rightarrow> fdapi \<Rightarrow> fdapi" where
  "WSIOCP_Init iocp st = st\<lparr>fd_iocph := iocp, fd_hook := True\<rparr>"

definition WSIOCP_Cleanup :: "fdapi \<Rightarrow> fdapi" where
  "WSIOCP_Cleanup st = st\<lparr>fd_iocph := False\<rparr>"

section \<open>Descriptors that are made and closed\<close>

definition FDAPI_socket :: "fdapi \<Rightarrow> int \<times> fdapi" where
  "FDAPI_socket st =
     (case ask FSocket st of (s, st) \<Rightarrow>
        if s \<noteq> INVALID_SOCKET then on_map (addSocket s) st else fails (-1) (last_error st) st)"

definition FDAPI_WSASocket :: "fdapi \<Rightarrow> int \<times> fdapi" where
  "FDAPI_WSASocket st =
     (case ask FWSASocket st of (s, st) \<Rightarrow> if s \<noteq> INVALID_SOCKET then on_map (addSocket s) st else (-1, st))"

definition FDAPI_accept :: "RFD \<Rightarrow> fdapi \<Rightarrow> int \<times> fdapi" where
  "FDAPI_accept rfd = on_socket rfd (-1) (\<lambda>s st.
     case ask (FAccept s) st of (sAccept, st) \<Rightarrow>
       if sAccept \<noteq> INVALID_SOCKET then on_map (addSocket sAccept) st
       else if last_error st = ENOENT \<or> last_error st = WSAEWOULDBLOCK then fails (-1) EAGAIN st
       else fails (-1) EBADF st)"

definition FDAPI_close :: "RFD \<Rightarrow> fdapi \<Rightarrow> (int \<times> fdapi) option" where
  "FDAPI_close rfd st =
     (case lookupSocketInfo rfd (fd_map st) of
        Some i \<Rightarrow>
          if si_socket i \<noteq> INVALID_SOCKET then do {
            let s = si_socket i;
            let st = st\<lparr>fd_map := set_info rfd (\<lambda>i. i\<lparr>si_socket := INVALID_SOCKET\<rparr>) (fd_map st)\<rparr>;
            st \<leftarrow> (case si_state i of
                Some _ \<Rightarrow>
                  if fd_hook st then do {
                    (closed, st) \<leftarrow> WSIOCP_CloseSocketStateRFD rfd st;
                    Some (if closed then st\<lparr>fd_map := removeRFDToSocketInfo rfd (fd_map st)\<rparr> else st)
                  } else Some st
              | None \<Rightarrow> Some (st\<lparr>fd_map := removeRFDToSocketInfo rfd (fd_map st)\<rparr>));
            let st = st\<lparr>fd_map := removeSocketToRFD s (fd_map st)\<rparr>;
            Some (ask (FClose s) st)
          } else Some (fails (-1) EBADF st)
      | None \<Rightarrow>
          let c = lookupCrtFD rfd (fd_map st)
          in if c \<noteq> INVALID_FD then Some (ask (FCrtClose c) (st\<lparr>fd_map := removeCrtFD c (fd_map st)\<rparr>))
             else Some (fails (-1) EBADF st))"

definition FDAPI_CloseDuplicatedSocket :: "RFD \<Rightarrow> fdapi \<Rightarrow> int \<times> fdapi" where
  "FDAPI_CloseDuplicatedSocket rfd = on_socket rfd 0 (\<lambda>s st.
     ask (FClose s) (st\<lparr>fd_map := removeSocketToRFD s (removeRFDToSocketInfo rfd (fd_map st))\<rparr>))"

definition FDAPI_ClearSocketInfo :: "RFD \<Rightarrow> fdapi \<Rightarrow> fdapi" where
  \<comment> \<open>the warnings go to the log of the process\<close>
  "FDAPI_ClearSocketInfo rfd st =
     (case lookupSocketInfo rfd (fd_map st) of
        Some i \<Rightarrow> if si_socket i = INVALID_SOCKET then st\<lparr>fd_map := removeRFDToSocketInfo rfd (fd_map st)\<rparr> else st
      | None \<Rightarrow> st)"

definition FDAPI_open :: "fdapi \<Rightarrow> int \<times> fdapi" where
  "FDAPI_open st =
     (case ask FCrtOpen st of (c, st) \<Rightarrow> if c \<noteq> INVALID_FD then on_map (addCrtFD c) st else fails (-1) (last_error st) st)"

definition FDAPI_open_osfhandle :: "fdapi \<Rightarrow> int \<times> fdapi" where
  "FDAPI_open_osfhandle st =
     (case ask FOpenHandle st of (c, st) \<Rightarrow> if c \<noteq> INVALID_FD then on_map (addCrtFD c) st else fails (-1) EBADF st)"

definition FDAPI_pipe :: "int \<times> int \<Rightarrow> fdapi \<Rightarrow> (int \<times> int \<times> int) \<times> fdapi" where
  \<comment> \<open>with what \<open>crt_pipe\<close> stores in \<open>pfds\<close>\<close>
  "FDAPI_pipe pfds st =
     (case ask FCrtPipe st of (result, st) \<Rightarrow>
        if result = 0 then
          (case on_map (addCrtFD (fst pfds)) st of (r0, st) \<Rightarrow> case on_map (addCrtFD (snd pfds)) st of (r1, st) \<Rightarrow> ((result, r0, r1), st))
        else ((result, fst pfds, snd pfds), st))"

definition FDAPI_fileno :: "int \<Rightarrow> fdapi \<Rightarrow> int \<times> fdapi" where
  \<comment> \<open>with the number of the file\<close>
  "FDAPI_fileno crt_fd st = (if crt_fd \<noteq> INVALID_FD then on_map (addCrtFD crt_fd) st else (-1, st))"

definition FDAPI_fclose :: "int \<Rightarrow> fdapi \<Rightarrow> int \<times> fdapi" where
  "FDAPI_fclose crt_fd st =
     ask (FCrtFclose crt_fd) (if crt_fd \<noteq> INVALID_FD then st\<lparr>fd_map := removeCrtFD crt_fd (fd_map st)\<rparr> else st)"

section \<open>Reading, writing and options\<close>

definition sys_errors :: "(int \<times> int) list" where
  \<comment> \<open>the cases of \<open>translate_sys_error\<close>, in their order, with the values of \<open>winerror.h\<close>, \<open>winsock2.h\<close> and \<open>errno.h\<close>\<close>
  "sys_errors =
    [(0, 0), (998, 13), (10013, 13), (1227, 100), (10048, 100), (10049, 101), (10047, 102), (10035, 11), (10037, 103),
     (1004, 9), (6, 9), (33, 16), (231, 16), (32, 16), (995, 105), (10004, 105), (1236, 106), (10053, 106), (1225, 107),
     (10061, 107), (64, 108), (10054, 108), (183, 17), (80, 17), (111, 14), (10014, 14), (1232, 110), (10065, 110),
     (122, 22), (13, 22), (87, 22), (1464, 22), (10022, 22), (10046, 22), (10044, 22), (1102, 5), (1111, 5), (23, 5),
     (1166, 5), (1165, 5), (1393, 5), (1129, 5), (1101, 5), (31, 5), (1106, 5), (1117, 5), (1104, 5), (205, 5), (110, 5),
     (1103, 5), (156, 5), (10056, 113), (1921, 114), (4, 24), (10024, 24), (10040, 115), (206, 38), (1231, 118),
     (10051, 118), (10055, 119), (267, 2), (2, 2), (123, 2), (15, 2), (4392, 2), (126, 2), (3, 2), (11001, 2), (11004, 2),
     (8, 12), (14, 12), (82, 28), (112, 28), (277, 28), (1100, 28), (39, 28), (2250, 126), (10057, 126), (145, 41),
     (10038, 128), (50, 129), (109, 32), (5, 1), (1314, 1), (230, 32), (232, 32), (233, 32), (10058, 32), (10043, 135),
     (19, 30), (121, 138), (10060, 138), (17, 18), (1, 21), (208, 7)]"

definition translate_sys_error :: "int \<Rightarrow> int" where
  "translate_sys_error sys_error = (case map_of sys_errors sys_error of Some e \<Rightarrow> e | None \<Rightarrow> -9999)"

definition set_errno_from_last_error :: "fdapi \<Rightarrow> fdapi" where
  "set_errno_from_last_error st = st\<lparr>fd_errno := translate_sys_error (last_error st)\<rparr>"

definition FDAPI_read :: "RFD \<Rightarrow> nat \<Rightarrow> fdapi \<Rightarrow> int \<times> fdapi" where
  "FDAPI_read rfd count st =
     (let s = lookupSocket rfd (fd_map st) in
      if s \<noteq> INVALID_SOCKET then
        (case ask (FRecv s count) st of (v, st) \<Rightarrow>
           if v = -1 then fails v (if last_error st = WSAEWOULDBLOCK then EAGAIN else last_error st) st else (v, st))
      else
        let c = lookupCrtFD rfd (fd_map st) in
        if c \<noteq> INVALID_FD then
          (case ask (FCrtRead c count) st of (v, st) \<Rightarrow> if v = -1 then fails v (last_error st) st else (v, st))
        else fails 0 EBADF st)"

definition FDAPI_write :: "RFD \<Rightarrow> string \<Rightarrow> fdapi \<Rightarrow> int \<times> fdapi" where
  \<comment> \<open>\<open>FPrint\<close> is \<open>ParseAndPrintANSIString\<close> on the console: the bytes written, or -1 for \<open>FALSE\<close>\<close>
  "FDAPI_write rfd buf st =
     (let s = lookupSocket rfd (fd_map st) in
      if s \<noteq> INVALID_SOCKET then
        (case ask (FSend s buf) st of (v, st) \<Rightarrow> if v = SOCKET_ERROR then (v, set_errno_from_last_error st) else (v, st))
      else
        let c = lookupCrtFD rfd (fd_map st) in
        if c \<noteq> INVALID_FD then
          (if c = 1 \<or> c = 2 then
             (case ask (FPrint c buf) st of (v, st) \<Rightarrow> if v \<noteq> -1 then (v, st) else fails 0 (last_error st) st)
           else (case ask (FCrtWrite c buf) st of (v, st) \<Rightarrow> if v = -1 then fails v (last_error st) st else (v, st)))
        else fails 0 EBADF st)"

definition FDAPI_setsockopt :: "RFD \<Rightarrow> fdapi \<Rightarrow> int \<times> fdapi" where
  "FDAPI_setsockopt rfd = on_socket rfd (-1) (\<lambda>s st.
     case ask (FSetopt s) st of (v, st) \<Rightarrow> if v = 0 then (0, st) else fails (-1) (last_error st) st)"

definition FDAPI_getsockopt :: "RFD \<Rightarrow> fdapi \<Rightarrow> int \<times> fdapi" where
  "FDAPI_getsockopt rfd = on_socket rfd (-1) (\<lambda>s. ask (FGetopt s))"

definition FDAPI_getfl :: "RFD \<Rightarrow> fdapi \<Rightarrow> int \<times> fdapi" where
  \<comment> \<open>\<open>FDAPI_fcntl\<close> with \<open>F_GETFL\<close>\<close>
  "FDAPI_getfl rfd st =
     (case lookupSocketInfo rfd (fd_map st) of
        Some i \<Rightarrow> if si_socket i \<noteq> INVALID_SOCKET then (si_flags i, st) else fails (-1) EBADF st
      | None \<Rightarrow> fails (-1) EBADF st)"

definition FDAPI_setfl :: "RFD \<Rightarrow> int \<Rightarrow> fdapi \<Rightarrow> int \<times> fdapi" where
  \<comment> \<open>\<open>FDAPI_fcntl\<close> with \<open>F_SETFL\<close>\<close>
  "FDAPI_setfl rfd flags st =
     (case lookupSocketInfo rfd (fd_map st) of
        Some i \<Rightarrow>
          if si_socket i \<noteq> INVALID_SOCKET then
            (case ask (FIoctl (si_socket i) (word_of_int flags AND O_NONBLOCK)) st of (v, st) \<Rightarrow>
               if v = SOCKET_ERROR then fails (-1) (last_error st) st
               else (0, st\<lparr>fd_map := set_info rfd (\<lambda>i. i\<lparr>si_flags := flags\<rparr>) (fd_map st)\<rparr>))
          else fails (-1) EBADF st
      | None \<Rightarrow> fails (-1) EBADF st)"

definition FDAPI_connect :: "RFD \<Rightarrow> string \<Rightarrow> fdapi \<Rightarrow> int \<times> fdapi" where
  \<comment> \<open>\<open>EnableFastLoopback\<close> throws when its call fails, which ends here as \<open>EBADF\<close>\<close>
  "FDAPI_connect rfd addr = on_socket rfd (-1) (\<lambda>s st.
     case ask (FLoopback s) st of (v, st) \<Rightarrow>
       if v \<noteq> 0 then fails (-1) EBADF st
       else (case ask (FConnect s addr) st of (v, st) \<Rightarrow>
          fails v (if last_error st = WSAEINVAL \<or> last_error st = WSAEWOULDBLOCK \<or> last_error st = ERROR_IO_PENDING
            then EINPROGRESS else last_error st) st))"

definition FDAPI_listen :: "RFD \<Rightarrow> int \<Rightarrow> fdapi \<Rightarrow> int \<times> fdapi" where
  "FDAPI_listen rfd backlog = on_socket rfd (-1) (\<lambda>s st.
     case ask (FLoopback s) st of (v, st) \<Rightarrow>
       if v \<noteq> 0 then fails (-1) EBADF st
       else (case ask (FListen s backlog) st of (v, st) \<Rightarrow> if v \<noteq> 0 then fails v (last_error st) st else (v, st)))"

definition FDAPI_bind :: "RFD \<Rightarrow> fdapi \<Rightarrow> int \<times> fdapi" where
  "FDAPI_bind rfd = on_socket rfd 0 (\<lambda>s. ask (FBind s))"

definition FDAPI_getsockname :: "RFD \<Rightarrow> fdapi \<Rightarrow> int \<times> fdapi" where
  "FDAPI_getsockname rfd = on_socket rfd SOCKET_ERROR (\<lambda>s. ask (FGetsock s))"

definition FDAPI_getpeername :: "RFD \<Rightarrow> fdapi \<Rightarrow> (int \<times> string option) \<times> fdapi" where
  \<comment> \<open>with the address that the function copies itself\<close>
  "FDAPI_getpeername rfd st =
     (let s = lookupSocket rfd (fd_map st) in
      if s \<noteq> INVALID_SOCKET then
        (case ask (FGetpeer s) st of (v, st) \<Rightarrow>
           if v \<noteq> 0 then
             (case lookupSocketInfo rfd (fd_map st) of Some i \<Rightarrow> ((0, Some (si_addr i)), st) | None \<Rightarrow> ((v, None), st))
           else ((v, None), st))
      else ((SOCKET_ERROR, None), st\<lparr>fd_errno := EBADF\<rparr>))"

definition FDAPI_SaveSocketAddrStorage :: "RFD \<Rightarrow> string \<Rightarrow> fdapi \<Rightarrow> fdapi" where
  "FDAPI_SaveSocketAddrStorage rfd addr st =
     (if lookupSocketInfo rfd (fd_map st) \<noteq> None then st\<lparr>fd_map := set_info rfd (\<lambda>i. i\<lparr>si_addr := addr\<rparr>) (fd_map st)\<rparr> else st)"

definition FDAPI_UpdateAcceptContext :: "RFD \<Rightarrow> fdapi \<Rightarrow> int \<times> fdapi" where
  "FDAPI_UpdateAcceptContext rfd = on_socket rfd SOCKET_ERROR (\<lambda>s. ask (FUpdateAccept s))"

definition FDAPI_WSARecv :: "RFD \<Rightarrow> fdapi \<Rightarrow> int \<times> fdapi" where
  "FDAPI_WSARecv rfd = on_socket rfd SOCKET_ERROR (\<lambda>s. ask (FWSARecv s))"

definition FDAPI_WSASend :: "RFD \<Rightarrow> string \<Rightarrow> fdapi \<Rightarrow> int \<times> fdapi" where
  "FDAPI_WSASend rfd buf = on_socket rfd SOCKET_ERROR (\<lambda>s. ask (FWSASend s buf))"

section \<open>Completion ports\<close>

definition FDAPI_SocketAttachIOCP :: "RFD \<Rightarrow> fdapi \<Rightarrow> bool \<times> fdapi" where
  "FDAPI_SocketAttachIOCP rfd st =
     (let s = lookupSocket rfd (fd_map st) in
      if s \<noteq> INVALID_SOCKET then
        (case ask (FIoctl s 1) st of (v, st) \<Rightarrow>
           if v = SOCKET_ERROR then (False, st\<lparr>fd_errno := last_error st\<rparr>)
           else (case ask (FSetHandle s) st of (v, st) \<Rightarrow>
             if v = 0 then (False, st\<lparr>fd_errno := last_error st\<rparr>)
             else (case ask (FPort s rfd) st of (v, st) \<Rightarrow>
               if v \<noteq> 0 then (True, st) else (False, st\<lparr>fd_errno := last_error st\<rparr>))))
      else (False, st\<lparr>fd_errno := EBADF\<rparr>))"

definition FDAPI_AcceptEx :: "RFD \<Rightarrow> RFD \<Rightarrow> fdapi \<Rightarrow> int \<times> fdapi" where
  "FDAPI_AcceptEx listenFD acceptFD st =
     (let sl = lookupSocket listenFD (fd_map st); sa = lookupSocket acceptFD (fd_map st) in
      if sl \<noteq> INVALID_SOCKET \<and> sa \<noteq> INVALID_SOCKET then
        (case ask (FAcceptPtr sl) st of (v, st) \<Rightarrow> if v = SOCKET_ERROR then (0, st) else ask (FAcceptEx sl sa) st)
      else (0, st))"

definition FDAPI_ConnectEx :: "RFD \<Rightarrow> string \<Rightarrow> nat \<Rightarrow> fdapi \<Rightarrow> int \<times> fdapi" where
  "FDAPI_ConnectEx rfd name namelen st =
     (let s = lookupSocket rfd (fd_map st) in
      if s \<noteq> INVALID_SOCKET then
        (case ask (FConnectPtr s) st of (v, st) \<Rightarrow>
           if v = SOCKET_ERROR then (0, st)
           else (case ask (FLoopback s) st of (v, st) \<Rightarrow> if v \<noteq> 0 then (0, st) else ask (FConnectEx s name namelen) st))
      else (0, st))"

definition FDAPI_GetAcceptExSockaddrs :: "RFD \<Rightarrow> fdapi \<Rightarrow> int \<times> fdapi" where
  \<comment> \<open>the length of the remote address, 0 when nothing is stored\<close>
  "FDAPI_GetAcceptExSockaddrs rfd st =
     (let s = lookupSocket rfd (fd_map st) in
      if s \<noteq> INVALID_SOCKET then
        (case ask (FAcceptPtr s) st of (v, st) \<Rightarrow> if v = SOCKET_ERROR then (0, st) else ask (FSockaddrs s) st)
      else (0, st))"

definition WSIOCP_SocketAttach :: "RFD \<Rightarrow> nat option \<Rightarrow> fdapi \<Rightarrow> (int \<times> fdapi) option" where
  "WSIOCP_SocketAttach fd p st = do {
     let (p, st) = (if p = None then WSIOCP_GetSocketState fd st else (p, st));
     (case p of
        Some p \<Rightarrow>
          if fd_iocph st then
            (case FDAPI_SocketAttachIOCP fd st of (ok, st) \<Rightarrow>
               if ok then do { st \<leftarrow> upd_state p (\<lambda>k. k\<lparr>is_masks := SOCKET_ATTACHED, is_wreqs := 0\<rparr>) st; Some (0, st) }
               else Some (-1, st))
          else Some (fails (-1) WSAEINVAL st)
      | None \<Rightarrow> Some (fails (-1) WSAEINVAL st))
   }"

definition WSIOCP_QueueAccept :: "RFD \<Rightarrow> fdapi \<Rightarrow> (int \<times> fdapi) option" where
  "WSIOCP_QueueAccept listenfd st =
     (case WSIOCP_GetSocketState listenfd st of
        (None, st) \<Rightarrow> Some (fails (-1) WSAEINVAL st)
      | (Some p, st) \<Rightarrow>
          (case FDAPI_socket st of (acceptfd, st) \<Rightarrow>
             if acceptfd = -1 then Some (fails (-1) WSAEINVAL st)
             else (case WSIOCP_GetSocketState acceptfd st of
                 (None, st) \<Rightarrow> Some (fails (-1) WSAEINVAL st)
               | (Some q, st) \<Rightarrow> do {
                   st \<leftarrow> upd_state q (\<lambda>k. k\<lparr>is_masks := SOCKET_ATTACHED\<rparr>) st;
                   (case FDAPI_AcceptEx listenfd acceptfd st of (v, st) \<Rightarrow>
                      if v \<noteq> 0 \<or> last_error st = ERROR_IO_PENDING then do {
                        st \<leftarrow> upd_state p (\<lambda>k. k\<lparr>is_masks := is_masks k OR ACCEPT_PENDING\<rparr>) st;
                        Some (0, st)
                      } else do {
                        let st = st\<lparr>fd_errno := last_error st\<rparr>;
                        st \<leftarrow> upd_state p (\<lambda>k. k\<lparr>is_masks := is_masks k AND NOT ACCEPT_PENDING\<rparr>) st;
                        st \<leftarrow> upd_state q (\<lambda>k. k\<lparr>is_masks := 0\<rparr>) st;
                        (_, st) \<leftarrow> FDAPI_close acceptfd st;
                        Some (-1, st)
                      })
                 })))"

definition WSIOCP_Listen :: "RFD \<Rightarrow> int \<Rightarrow> fdapi \<Rightarrow> (int \<times> fdapi) option" where
  "WSIOCP_Listen rfd backlog st =
     (case WSIOCP_GetSocketState rfd st of
        (None, st) \<Rightarrow> Some (fails SOCKET_ERROR WSAEINVAL st)
      | (Some p, st) \<Rightarrow> do {
          (v, st) \<leftarrow> WSIOCP_SocketAttach rfd (Some p) st;
          if v \<noteq> 0 then Some (SOCKET_ERROR, st)
          else do {
            st \<leftarrow> upd_state p (\<lambda>k. k\<lparr>is_masks := is_masks k OR LISTEN_SOCK\<rparr>) st;
            (case FDAPI_listen rfd backlog st of (v, st) \<Rightarrow>
               if v \<noteq> 0 then Some (SOCKET_ERROR, st)
               else do { (v, st) \<leftarrow> WSIOCP_QueueAccept rfd st; Some (if v \<noteq> 0 then SOCKET_ERROR else 0, st) })
          }
        })"

definition WSIOCP_Accept :: "RFD \<Rightarrow> int option \<Rightarrow> fdapi \<Rightarrow> ((int \<times> int option) \<times> fdapi) option" where
  \<comment> \<open>with \<open>*len\<close> where the caller wants the address; it is copied with the length returned\<close>
  "WSIOCP_Accept fd len st =
     (case WSIOCP_GetSocketState fd st of
        (None, st) \<Rightarrow> Some ((SOCKET_ERROR, len), st\<lparr>fd_errno := WSAEINVAL\<rparr>)
      | (Some p, st) \<Rightarrow> do {
          k \<leftarrow> fd_heap st p;
          (case is_reqs k of
             [] \<Rightarrow> Some ((SOCKET_ERROR, len), st\<lparr>fd_errno := 140\<rparr>)
           | acceptfd # rest \<Rightarrow> do {
               st \<leftarrow> upd_state p (\<lambda>k. k\<lparr>is_reqs := rest\<rparr>) st;
               (case FDAPI_UpdateAcceptContext acceptfd st of (v, st) \<Rightarrow>
                  if v = SOCKET_ERROR then Some ((SOCKET_ERROR, len), st\<lparr>fd_errno := last_error st\<rparr>)
                  else (case FDAPI_GetAcceptExSockaddrs acceptfd st of (remotelen, st) \<Rightarrow> do {
                      let len = (case len of None \<Rightarrow> None | Some l \<Rightarrow> Some (if remotelen > 0 then (if remotelen < l then remotelen else l) else 0));
                      (_, st) \<leftarrow> WSIOCP_SocketAttach acceptfd None st;
                      (v, st) \<leftarrow> WSIOCP_QueueAccept fd st;
                      Some ((if v = -1 then SOCKET_ERROR else acceptfd, len), st)
                    }))
             })
        })"

definition WSIOCP_QueueNextRead :: "RFD \<Rightarrow> fdapi \<Rightarrow> (int \<times> fdapi) option" where
  "WSIOCP_QueueNextRead fd st =
     (case WSIOCP_GetSocketState fd st of
        (None, st) \<Rightarrow> Some (fails (-1) WSAEINVAL st)
      | (Some p, st) \<Rightarrow> do {
          k \<leftarrow> fd_heap st p;
          if is_masks k AND SOCKET_ATTACHED = 0 then Some (0, st)
          else (case FDAPI_WSARecv fd st of (v, st) \<Rightarrow>
            if v = 0 \<or> last_error st = ERROR_IO_PENDING then do {
              st \<leftarrow> upd_state p (\<lambda>k. k\<lparr>is_masks := is_masks k OR READ_QUEUED\<rparr>) st;
              Some (0, st)
            } else do {
              st \<leftarrow> upd_state p (\<lambda>k. k\<lparr>is_masks := is_masks k AND NOT READ_QUEUED\<rparr>) (st\<lparr>fd_errno := last_error st\<rparr>);
              Some (-1, st)
            })
        })"

definition wait_connected :: "nat option \<Rightarrow> RFD \<Rightarrow> fdapi \<Rightarrow> fdapi option" where
  \<comment> \<open>\<open>aeWait\<close> of the event library, for a connection that is being made\<close>
  "wait_connected p fd st =
     (case p of
        None \<Rightarrow> Some st
      | Some p \<Rightarrow> do { k \<leftarrow> fd_heap st p; Some (if is_masks k AND CONNECT_PENDING \<noteq> 0 then snd (ask (FWait fd) st) else st) })"

definition send_waited :: "nat option \<Rightarrow> RFD \<Rightarrow> string \<Rightarrow> int \<Rightarrow> int \<Rightarrow> bool \<Rightarrow> fdapi \<Rightarrow> (int \<times> fdapi) option" where
  \<comment> \<open>the rest of \<open>WSIOCP_SocketSend\<close>\<close>
  "send_waited p fd buf client data proc st = do {
     attached \<leftarrow> (case p of None \<Rightarrow> Some False | Some p \<Rightarrow> do { k \<leftarrow> fd_heap st p; Some (is_masks k AND SOCKET_ATTACHED \<noteq> 0) });
     (if \<not> attached \<or> \<not> proc then
        (case FDAPI_write fd buf st of (v, st) \<Rightarrow> Some (if v = SOCKET_ERROR then fails v (last_error st) st else (v, st)))
      else do {
        p \<leftarrow> p;
        (case FDAPI_WSASend fd buf st of (v, st) \<Rightarrow>
           if v = 0 \<or> last_error st = ERROR_IO_PENDING then do {
             st \<leftarrow> upd_state p (\<lambda>k. k\<lparr>is_wreqs := is_wreqs k + 1,
               is_wreqlist := is_wreqlist k @ [\<lparr>sr_client = client, sr_data = data, sr_buf = buf\<rparr>]\<rparr>) (st\<lparr>fd_errno := ERROR_IO_PENDING\<rparr>);
             Some (SOCKET_ERROR, st)
           } else Some (fails SOCKET_ERROR (last_error st) st))
      })
   }"

definition WSIOCP_SocketSend :: "RFD \<Rightarrow> string \<Rightarrow> int \<Rightarrow> int \<Rightarrow> bool \<Rightarrow> fdapi \<Rightarrow> (int \<times> fdapi) option" where
  \<comment> \<open>\<open>proc\<close>: a callback is given\<close>
  "WSIOCP_SocketSend fd buf client data proc st =
     (case WSIOCP_GetSocketState fd st of (p, st) \<Rightarrow> do { st \<leftarrow> wait_connected p fd st; send_waited p fd buf client data proc st })"

definition connect_ex :: "RFD \<Rightarrow> nat \<Rightarrow> int \<Rightarrow> string \<Rightarrow> fdapi \<Rightarrow> (int \<times> fdapi) option" where
  \<comment> \<open>what \<open>WSIOCP_SocketConnect\<close> and \<open>WSIOCP_SocketConnectBind\<close> have in common: \<open>bind\<close> to any address,
     whose outcome is not looked at, and \<open>ConnectEx\<close>\<close>
  "connect_ex fd p family addr st =
     (if family = AF_INET \<or> family = AF_INET6 then
        (case FDAPI_bind fd st of (_, st) \<Rightarrow>
         case FDAPI_ConnectEx fd addr (if family = AF_INET then 16 else 28) st of (v, st) \<Rightarrow>
           if v \<noteq> 1 then
             if last_error st = ERROR_IO_PENDING then do {
               st \<leftarrow> upd_state p (\<lambda>k. k\<lparr>is_masks := is_masks k OR CONNECT_PENDING\<rparr>) (st\<lparr>fd_errno := ERROR_IO_PENDING\<rparr>);
               Some (0, st)
             } else Some (fails SOCKET_ERROR (last_error st) st)
           else Some (0, st))
      else Some (fails SOCKET_ERROR WSAEINVAL st))"

definition WSIOCP_SocketConnect :: "RFD \<Rightarrow> int \<Rightarrow> string \<Rightarrow> fdapi \<Rightarrow> (int \<times> fdapi) option" where
  "WSIOCP_SocketConnect fd family addr st =
     (case WSIOCP_GetSocketState fd st of
        (None, st) \<Rightarrow> Some (fails SOCKET_ERROR WSAEINVAL st)
      | (Some p, st) \<Rightarrow> do {
          (v, st) \<leftarrow> WSIOCP_SocketAttach fd (Some p) st;
          if v \<noteq> 0 then Some (SOCKET_ERROR, st) else connect_ex fd p family addr st
        })"

definition WSIOCP_SocketConnectBind :: "RFD \<Rightarrow> int \<Rightarrow> string \<Rightarrow> string \<Rightarrow> fdapi \<Rightarrow> (int \<times> fdapi) option" where
  \<comment> \<open>\<open>source_addr\<close> is not used\<close>
  "WSIOCP_SocketConnectBind fd family addr source_addr st =
     (case WSIOCP_GetSocketState fd st of
        (None, st) \<Rightarrow> Some (fails SOCKET_ERROR WSAEINVAL st)
      | (Some p, st) \<Rightarrow> do {
          (v, st) \<leftarrow> WSIOCP_SocketAttach fd (Some p) st;
          if v \<noteq> 0 then Some (SOCKET_ERROR, st) else connect_ex fd p family addr st
        })"

end
