(* ===== verification/RfdProof.thy ===== *)
theory RfdProof
  imports RfdMap
begin

text \<open>
  The descriptors of \<open>Win32_Interop\<close> are right: the invariant of the class \<open>RFDMap\<close> and its methods, the
  invariant of the whole layer with the states of completion ports, that each function of
  \<open>Win32_FDAPI.cpp\<close> and \<open>win32_wsiocp.c\<close> keeps it and changes only the meaning of the numbers that it
  closes, and what follows for any sequence of calls.
\<close>

section \<open>The numbers and the maps\<close>

abbreviation in_use :: "RFDMap \<Rightarrow> RFD set" where
  "in_use m \<equiv> dom (RFDToSocketInfoMap m) \<union> dom (RFDToCrtFDMap m)"

definition numbers_ok :: "RFDMap \<Rightarrow> bool" where
  \<comment> \<open>every number given out so far is in use once or waits once to be used again\<close>
  "numbers_ok m \<longleftrightarrow> distinct (RFDRecyclePool m) \<and> set (RFDRecyclePool m) \<inter> in_use m = {}
     \<and> dom (RFDToSocketInfoMap m) \<inter> dom (RFDToCrtFDMap m) = {} \<and> set (RFDRecyclePool m) \<union> in_use m = {3 ..< next_available_rfd m}
     \<and> 3 \<le> next_available_rfd m \<and> next_available_rfd m \<le> RFD_MAX"

definition sockets_ok :: "RFDMap \<Rightarrow> bool" where
  "sockets_ok m \<longleftrightarrow> (\<forall>s r. SocketToRFDMap m s = Some r
     \<longleftrightarrow> s \<noteq> INVALID_SOCKET \<and> (\<exists>i. RFDToSocketInfoMap m r = Some i \<and> si_socket i = s))"

definition files_ok :: "RFDMap \<Rightarrow> bool" where
  "files_ok m \<longleftrightarrow> (\<forall>c r. CrtFDToRFDMap m c = Some r \<longleftrightarrow> RFDToCrtFDMap m r = Some c) \<and> {0, 1, 2} \<subseteq> dom (CrtFDToRFDMap m)"

definition rfd_ok :: "RFDMap \<Rightarrow> bool" where
  "rfd_ok m \<longleftrightarrow> numbers_ok m \<and> sockets_ok m \<and> files_ok m"

definition stays :: "RFD set \<Rightarrow> RFDMap \<Rightarrow> RFDMap \<Rightarrow> bool" where
  \<comment> \<open>numbers in use, but these, name what they named\<close>
  "stays R m m' \<longleftrightarrow> (\<forall>r \<in> in_use m - R. map_option si_socket (RFDToSocketInfoMap m' r) = map_option si_socket (RFDToSocketInfoMap m r)
     \<and> RFDToCrtFDMap m' r = RFDToCrtFDMap m r)"

lemma stays_refl [simp]: "stays R m m"
  by (simp add: stays_def)

lemma stays_mono: "stays R m m' \<Longrightarrow> R \<subseteq> R' \<Longrightarrow> stays R' m m'"
  by (auto simp: stays_def)

lemma stays_trans:
  assumes "stays R m m1" "stays R m1 m2"
  shows "stays R m m2"
proof -
  have "r \<in> in_use m1" if "r \<in> in_use m - R" for r
  proof -
    have e: "map_option si_socket (RFDToSocketInfoMap m1 r) = map_option si_socket (RFDToSocketInfoMap m r)"
      "RFDToCrtFDMap m1 r = RFDToCrtFDMap m r" using assms(1) that unfolding stays_def by blast+
    show ?thesis
    proof (cases "r \<in> dom (RFDToSocketInfoMap m)")
      case True
      then show ?thesis using e(1) by (cases "RFDToSocketInfoMap m1 r") auto
    next
      case False
      then show ?thesis using e(2) that by auto
    qed
  qed
  then show ?thesis using assms unfolding stays_def by (metis DiffE DiffI)
qed

lemma next_number:
  assumes "numbers_ok m" "getNextRFDAvailable m = (r, m')" "r \<noteq> INVALID_FD"
  shows "r \<notin> in_use m" "3 \<le> r" "RFDToSocketInfoMap m' = RFDToSocketInfoMap m" "RFDToCrtFDMap m' = RFDToCrtFDMap m"
    "SocketToRFDMap m' = SocketToRFDMap m" "CrtFDToRFDMap m' = CrtFDToRFDMap m"
    "distinct (RFDRecyclePool m')" "set (RFDRecyclePool m') \<inter> insert r (in_use m) = {}"
    "set (RFDRecyclePool m') \<union> insert r (in_use m) = {3 ..< next_available_rfd m'}" "next_available_rfd m' \<le> RFD_MAX"
proof -
  consider (pool) rs where "RFDRecyclePool m = r # rs" "m' = m\<lparr>RFDRecyclePool := rs\<rparr>"
    | (new) "RFDRecyclePool m = []" "r = next_available_rfd m" "next_available_rfd m < RFD_MAX" "m' = m\<lparr>next_available_rfd := r + 1\<rparr>"
    using assms(2,3) by (auto simp: getNextRFDAvailable_def split: list.splits if_splits)
  then have "r \<notin> in_use m \<and> 3 \<le> r \<and> RFDToSocketInfoMap m' = RFDToSocketInfoMap m \<and> RFDToCrtFDMap m' = RFDToCrtFDMap m
    \<and> SocketToRFDMap m' = SocketToRFDMap m \<and> CrtFDToRFDMap m' = CrtFDToRFDMap m \<and> distinct (RFDRecyclePool m')
    \<and> set (RFDRecyclePool m') \<inter> insert r (in_use m) = {} \<and> set (RFDRecyclePool m') \<union> insert r (in_use m) = {3 ..< next_available_rfd m'}
    \<and> next_available_rfd m' \<le> RFD_MAX"
  proof cases
    case pool
    have u: "insert r (set rs) \<union> in_use m = {3 ..< next_available_rfd m}" using assms(1) pool(1) by (simp add: numbers_ok_def)
    then have "r \<in> {3 ..< next_available_rfd m}" by blast
    moreover have "set rs \<union> insert r (in_use m) = {3 ..< next_available_rfd m}" using u by auto
    moreover have "r \<notin> in_use m" "r \<notin> set rs" "distinct rs" "set rs \<inter> in_use m = {}" "next_available_rfd m \<le> RFD_MAX"
      using assms(1) pool(1) by (auto simp: numbers_ok_def)
    ultimately show ?thesis using pool(2) by auto
  next
    case new
    have u: "in_use m = {3 ..< next_available_rfd m}" using assms(1) new(1) by (simp add: numbers_ok_def)
    have "3 \<le> next_available_rfd m" using assms(1) by (simp add: numbers_ok_def)
    then have "insert r (in_use m) = {3 ..< r + 1}" unfolding u new(2) by auto
    moreover have "r \<notin> in_use m" unfolding u new(2) by simp
    ultimately show ?thesis using new \<open>3 \<le> next_available_rfd m\<close> by simp
  qed
  then show "r \<notin> in_use m" "3 \<le> r" "RFDToSocketInfoMap m' = RFDToSocketInfoMap m" "RFDToCrtFDMap m' = RFDToCrtFDMap m"
    "SocketToRFDMap m' = SocketToRFDMap m" "CrtFDToRFDMap m' = CrtFDToRFDMap m"
    "distinct (RFDRecyclePool m')" "set (RFDRecyclePool m') \<inter> insert r (in_use m) = {}"
    "set (RFDRecyclePool m') \<union> insert r (in_use m) = {3 ..< next_available_rfd m'}" "next_available_rfd m' \<le> RFD_MAX" by blast+
qed

lemma numbers_add:
  assumes "distinct pool" "set pool \<inter> insert r (in_use m) = {}" "set pool \<union> insert r (in_use m) = {3 ..< n}" "n \<le> RFD_MAX" "3 \<le> r"
    "dom (RFDToSocketInfoMap m) \<inter> dom (RFDToCrtFDMap m) = {}" "r \<notin> in_use m"
    "RFDRecyclePool m' = pool" "next_available_rfd m' = n"
    "dom (RFDToSocketInfoMap m') = insert r (dom (RFDToSocketInfoMap m)) \<and> dom (RFDToCrtFDMap m') = dom (RFDToCrtFDMap m)
     \<or> dom (RFDToSocketInfoMap m') = dom (RFDToSocketInfoMap m) \<and> dom (RFDToCrtFDMap m') = insert r (dom (RFDToCrtFDMap m))"
  shows "numbers_ok m'"
proof -
  have u: "in_use m' = insert r (in_use m)" using assms(10) by auto
  have "dom (RFDToSocketInfoMap m') \<inter> dom (RFDToCrtFDMap m') = {}" using assms(6,7,10) by (elim disjE conjE) (simp_all only:, blast+)
  moreover have "r \<in> {3 ..< n}" unfolding assms(3) [symmetric] by simp
  then have "3 \<le> n" by simp
  ultimately show ?thesis unfolding numbers_ok_def u assms(8,9) using assms(1,2,3,4) by simp
qed

lemma no_number:
  assumes "numbers_ok m" "getNextRFDAvailable m = (INVALID_FD, m')"
  shows "m' = m"
proof (cases "RFDRecyclePool m")
  case (Cons q qs)
  then have "q \<in> {3 ..< next_available_rfd m}" using assms(1) unfolding numbers_ok_def by (metis UnI1 list.set_intros(1))
  then show ?thesis using assms(2) Cons by (auto simp: getNextRFDAvailable_def)
next
  case Nil
  then show ?thesis using assms by (auto simp: getNextRFDAvailable_def numbers_ok_def split: if_splits)
qed

lemma addSocket_ok:
  assumes "rfd_ok m" "s \<noteq> INVALID_SOCKET" "addSocket s m = (r, m')"
  shows "rfd_ok m' \<and> stays {} m m' \<and> (\<forall>q. q \<noteq> r \<longrightarrow> RFDToSocketInfoMap m' q = RFDToSocketInfoMap m q)
    \<and> (if r = INVALID_FD then m' = m else r \<notin> in_use m \<and> 3 \<le> r \<and> RFDToSocketInfoMap m' r = Some (new_info s))"
proof (cases "SocketToRFDMap m s = None")
  case False
  then show ?thesis using assms by (simp add: addSocket_def)
next
  case True
  have n: "numbers_ok m" and so: "sockets_ok m" and f: "files_ok m" using assms(1) by (simp_all add: rfd_ok_def)
  obtain q m1 where g: "getNextRFDAvailable m = (q, m1)" by (cases "getNextRFDAvailable m")
  show ?thesis
  proof (cases "q = INVALID_FD")
    case True
    then have "m1 = m" using no_number n g by blast
    then show ?thesis using True \<open>SocketToRFDMap m s = None\<close> g assms by (simp add: addSocket_def)
  next
    case False
    note k = next_number [OF n g False]
    have r: "r = q" "m' = m1\<lparr>SocketToRFDMap := (SocketToRFDMap m1)(s \<mapsto> q), RFDToSocketInfoMap := (RFDToSocketInfoMap m1)(q \<mapsto> new_info s)\<rparr>"
      using assms(3) True False g by (auto simp: addSocket_def)
    have "numbers_ok m'"
      by (rule numbers_add [OF k(7,8,9,10,2) _ k(1)]) (use n r(2) k(3,4) in \<open>auto simp: numbers_ok_def\<close>)
    moreover have "sockets_ok m'"
      unfolding sockets_ok_def
    proof (intro allI)
      fix t p
      have o: "SocketToRFDMap m t = Some p \<longleftrightarrow> t \<noteq> INVALID_SOCKET \<and> (\<exists>i. RFDToSocketInfoMap m p = Some i \<and> si_socket i = t)" for t p
        using so by (simp add: sockets_ok_def)
      have "RFDToSocketInfoMap m q = None" using k(1) by auto
      then show "SocketToRFDMap m' t = Some p \<longleftrightarrow> t \<noteq> INVALID_SOCKET \<and> (\<exists>i. RFDToSocketInfoMap m' p = Some i \<and> si_socket i = t)"
        using o [of t p] o [of s p] True assms(2) r(2) k(3,5) by (auto simp: new_info_def)
    qed
    moreover have "files_ok m'" using f r(2) k(4,6) by (simp add: files_ok_def)
    moreover have "stays {} m m'" using k(1,3,4) r(2) by (auto simp: stays_def)
    ultimately show ?thesis using r k(1,2,3) False by (simp add: rfd_ok_def)
  qed
qed

lemma addCrtFD_ok:
  assumes "rfd_ok m" "addCrtFD c m = (r, m')"
  shows "rfd_ok m' \<and> stays {} m m' \<and> RFDToSocketInfoMap m' = RFDToSocketInfoMap m"
proof (cases "CrtFDToRFDMap m c")
  case (Some _)
  then show ?thesis using assms by (simp add: addCrtFD_def)
next
  case None
  have n: "numbers_ok m" and so: "sockets_ok m" and f: "files_ok m" using assms(1) by (simp_all add: rfd_ok_def)
  obtain q m1 where g: "getNextRFDAvailable m = (q, m1)" by (cases "getNextRFDAvailable m")
  show ?thesis
  proof (cases "q = INVALID_FD")
    case True
    then have "m1 = m" using no_number n g by blast
    then show ?thesis using True None g assms by (simp add: addCrtFD_def)
  next
    case False
    note k = next_number [OF n g False]
    have r: "r = q" "m' = m1\<lparr>CrtFDToRFDMap := (CrtFDToRFDMap m1)(c \<mapsto> q), RFDToCrtFDMap := (RFDToCrtFDMap m1)(q \<mapsto> c)\<rparr>"
      using assms(2) None False g by (auto simp: addCrtFD_def)
    have "numbers_ok m'"
      by (rule numbers_add [OF k(7,8,9,10,2) _ k(1)]) (use n r(2) k(3,4) in \<open>auto simp: numbers_ok_def\<close>)
    moreover have "sockets_ok m'" using so r(2) k(3,5) by (simp add: sockets_ok_def)
    moreover have "files_ok m'"
    proof -
      have o: "CrtFDToRFDMap m d = Some p \<longleftrightarrow> RFDToCrtFDMap m p = Some d" for d p using f by (simp add: files_ok_def)
      have "RFDToCrtFDMap m q = None" using k(1) by auto
      then have "CrtFDToRFDMap m' d = Some p \<longleftrightarrow> RFDToCrtFDMap m' p = Some d" for d p
        using o [of d p] o [of c p] None r(2) k(4,6) by auto
      then show ?thesis using f r(2) k(6) by (auto simp: files_ok_def)
    qed
    moreover have "stays {} m m'" using k(1,3,4) r(2) by (auto simp: stays_def)
    ultimately show ?thesis using r k(3) by (simp add: rfd_ok_def)
  qed
qed

lemma removeCrtFD_ok:
  assumes "rfd_ok m"
  shows "rfd_ok (removeCrtFD c m)" "RFDToSocketInfoMap (removeCrtFD c m) = RFDToSocketInfoMap m"
    "stays {r. RFDToCrtFDMap m r = Some c} m (removeCrtFD c m)"
proof -
  have n: "numbers_ok m" and so: "sockets_ok m" and f: "files_ok m" using assms(1) by (simp_all add: rfd_ok_def)
  have o: "CrtFDToRFDMap m d = Some p \<longleftrightarrow> RFDToCrtFDMap m p = Some d" for d p using f by (simp add: files_ok_def)
  show "RFDToSocketInfoMap (removeCrtFD c m) = RFDToSocketInfoMap m" by (simp add: removeCrtFD_def split: option.split)
  show "stays {r. RFDToCrtFDMap m r = Some c} m (removeCrtFD c m)"
    using o by (auto simp: removeCrtFD_def stays_def split: option.split)
  show "rfd_ok (removeCrtFD c m)"
  proof (cases "c > 2 \<and> CrtFDToRFDMap m c \<noteq> None")
    case False
    then have "removeCrtFD c m = m" by (auto simp: removeCrtFD_def)
    then show ?thesis using assms by simp
  next
    case True
    then obtain r where r: "CrtFDToRFDMap m c = Some r" by auto
    then have c: "RFDToCrtFDMap m r = Some c" using o by simp
    define m' where "m' = m\<lparr>RFDRecyclePool := RFDRecyclePool m @ [r], RFDToCrtFDMap := (RFDToCrtFDMap m)(r := None),
      CrtFDToRFDMap := (CrtFDToRFDMap m)(c := None)\<rparr>"
    have m': "removeCrtFD c m = m'" using True r by (simp add: removeCrtFD_def m'_def)
    have "set (RFDRecyclePool m) \<union> in_use m = {3 ..< next_available_rfd m}" using n by (simp add: numbers_ok_def)
    moreover have "r \<in> in_use m" using c by auto
    moreover have "r \<notin> dom (RFDToSocketInfoMap m)" using n c by (auto simp: numbers_ok_def)
    ultimately have "numbers_ok m'" using n unfolding numbers_ok_def m'_def by auto
    moreover have "sockets_ok m'" using so by (simp add: sockets_ok_def m'_def)
    moreover have "CrtFDToRFDMap m' d = Some p \<longleftrightarrow> RFDToCrtFDMap m' p = Some d" for d p
      using o [of d p] o [of d r] o [of c p] r c by (auto simp: m'_def)
    then have "files_ok m'" using f True by (auto simp: files_ok_def m'_def)
    ultimately show ?thesis unfolding m' by (simp add: rfd_ok_def)
  qed
qed

lemma new_ok: "rfd_ok RFDMap_new"
proof -
  have "RFDMap_new = \<lparr>SocketToRFDMap = Map.empty, CrtFDToRFDMap = [0 \<mapsto> 3, 1 \<mapsto> 4, 2 \<mapsto> 5], RFDToSocketInfoMap = Map.empty,
      RFDToCrtFDMap = [3 \<mapsto> 0, 4 \<mapsto> 1, 5 \<mapsto> 2], RFDRecyclePool = [], next_available_rfd = 6\<rparr>"
    by (simp add: RFDMap_new_def addCrtFD_def getNextRFDAvailable_def)
  note e = this
  have "numbers_ok RFDMap_new" unfolding numbers_ok_def e by auto
  moreover have "sockets_ok RFDMap_new" unfolding sockets_ok_def e by simp
  moreover have "files_ok RFDMap_new" unfolding files_ok_def e by auto
  ultimately show ?thesis by (simp add: rfd_ok_def)
qed

lemma closed_ok:
  \<comment> \<open>a socket that has been closed, and its number given back or not\<close>
  assumes "rfd_ok m" "RFDToSocketInfoMap m r = Some i" "si_socket i = s" "s \<noteq> INVALID_SOCKET"
  shows "rfd_ok (removeSocketToRFD s (removeRFDToSocketInfo r (set_info r f m)))" (is "rfd_ok ?a")
    "rfd_ok (removeSocketToRFD s (set_info r (\<lambda>i. i\<lparr>si_socket := INVALID_SOCKET\<rparr>) m))" (is "rfd_ok ?b")
proof -
  have n: "numbers_ok m" and so: "sockets_ok m" and f: "files_ok m" using assms(1) by (simp_all add: rfd_ok_def)
  have o: "SocketToRFDMap m t = Some p \<longleftrightarrow> t \<noteq> INVALID_SOCKET \<and> (\<exists>i. RFDToSocketInfoMap m p = Some i \<and> si_socket i = t)" for t p
    using so by (simp add: sockets_ok_def)
  have sr: "SocketToRFDMap m s = Some r" using o assms by blast
  have u: "set (RFDRecyclePool m) \<union> in_use m = {3 ..< next_available_rfd m}" using n by (simp add: numbers_ok_def)
  have ru: "r \<in> dom (RFDToSocketInfoMap m)" using assms(2) by auto
  have nc: "r \<notin> dom (RFDToCrtFDMap m)" using n ru by (auto simp: numbers_ok_def)
  have "numbers_ok ?a" using n u ru nc unfolding numbers_ok_def removeSocketToRFD_def removeRFDToSocketInfo_def set_info_def by auto
  moreover have "sockets_ok ?a" unfolding sockets_ok_def
  proof (intro allI)
    fix t p
    show "SocketToRFDMap ?a t = Some p \<longleftrightarrow> t \<noteq> INVALID_SOCKET \<and> (\<exists>i. RFDToSocketInfoMap ?a p = Some i \<and> si_socket i = t)"
      using o [of t p] o [of s p] sr assms(2,3) by (auto simp: removeSocketToRFD_def removeRFDToSocketInfo_def set_info_def)
  qed
  moreover have "files_ok ?a" using f by (simp add: files_ok_def removeSocketToRFD_def removeRFDToSocketInfo_def set_info_def)
  ultimately show "rfd_ok ?a" by (simp add: rfd_ok_def)
  have d: "dom (RFDToSocketInfoMap ?b) = dom (RFDToSocketInfoMap m)" using assms(2) by (auto simp: removeSocketToRFD_def set_info_def)
  then have "numbers_ok ?b" using n unfolding numbers_ok_def d by (simp add: removeSocketToRFD_def set_info_def)
  moreover have "sockets_ok ?b" unfolding sockets_ok_def
  proof (intro allI)
    fix t p
    show "SocketToRFDMap ?b t = Some p \<longleftrightarrow> t \<noteq> INVALID_SOCKET \<and> (\<exists>i. RFDToSocketInfoMap ?b p = Some i \<and> si_socket i = t)"
      using o [of t p] o [of s p] sr assms(2,3) by (auto simp: removeSocketToRFD_def set_info_def)
  qed
  moreover have "files_ok ?b" using f by (simp add: files_ok_def removeSocketToRFD_def set_info_def)
  ultimately show "rfd_ok ?b" by (simp add: rfd_ok_def)
qed

lemma cleared_ok:
  assumes "rfd_ok m" "RFDToSocketInfoMap m r = Some i" "si_socket i = INVALID_SOCKET"
  shows "rfd_ok (removeRFDToSocketInfo r m)" (is "rfd_ok ?a")
proof -
  have n: "numbers_ok m" and so: "sockets_ok m" and f: "files_ok m" using assms(1) by (simp_all add: rfd_ok_def)
  have u: "set (RFDRecyclePool m) \<union> in_use m = {3 ..< next_available_rfd m}" using n by (simp add: numbers_ok_def)
  have ru: "r \<in> dom (RFDToSocketInfoMap m)" using assms(2) by auto
  have nc: "r \<notin> dom (RFDToCrtFDMap m)" using n ru by (auto simp: numbers_ok_def)
  have "numbers_ok ?a" using n u ru nc unfolding numbers_ok_def removeRFDToSocketInfo_def by auto
  moreover have "sockets_ok ?a" using so assms(2,3) by (auto simp: sockets_ok_def removeRFDToSocketInfo_def)
  moreover have "files_ok ?a" using f by (simp add: files_ok_def removeRFDToSocketInfo_def)
  ultimately show ?thesis by (simp add: rfd_ok_def)
qed

lemma set_info_ok:
  assumes "rfd_ok m" "\<And>i. si_socket (f i) = si_socket i"
  shows "rfd_ok (set_info r f m)" "stays {} m (set_info r f m)"
proof -
  have d: "dom (RFDToSocketInfoMap (set_info r f m)) = dom (RFDToSocketInfoMap m)"
    by (auto simp: set_info_def)
  show "rfd_ok (set_info r f m)" using assms unfolding rfd_ok_def numbers_ok_def sockets_ok_def files_ok_def d
    by (auto simp: set_info_def)
  show "stays {} m (set_info r f m)" using assms(2) by (auto simp: stays_def set_info_def option.map_comp comp_def)
qed

section \<open>The whole state\<close>

definition states_ok :: "fdapi \<Rightarrow> bool" where
  \<comment> \<open>each number has a state of its own, where it has one\<close>
  "states_ok st \<longleftrightarrow> (\<forall>r i p. RFDToSocketInfoMap (fd_map st) r = Some i \<and> si_state i = Some p
       \<longrightarrow> (\<exists>k. fd_heap st p = Some k \<and> is_fd k = r))
     \<and> (\<forall>p \<ge> fd_fresh st. fd_heap st p = None)"

definition fd_ok :: "fdapi \<Rightarrow> bool" where
  "fd_ok st \<longleftrightarrow> rfd_ok (fd_map st) \<and> states_ok st"

definition good :: "RFD set \<Rightarrow> fdapi \<Rightarrow> fdapi \<Rightarrow> bool" where
  \<comment> \<open>a good state again, in which only these numbers have changed their meaning\<close>
  "good R st st' \<longleftrightarrow> fd_ok st' \<and> stays R (fd_map st) (fd_map st')"

definition fine :: "fdapi \<Rightarrow> fdapi \<Rightarrow> bool" where
  \<comment> \<open>nothing closed\<close>
  "fine st st' \<longleftrightarrow> good {} st st' \<and> dom (fd_heap st) \<subseteq> dom (fd_heap st')"

lemma errno_fd_ok [simp]:
  "fd_ok (st\<lparr>fd_errno := e\<rparr>) = fd_ok st" "fd_ok (st\<lparr>fd_calls := ks\<rparr>) = fd_ok st"
  "good R st (st'\<lparr>fd_errno := e\<rparr>) = good R st st'" "good R st (st'\<lparr>fd_calls := ks\<rparr>) = good R st st'"
  "good R (st\<lparr>fd_errno := e\<rparr>) st' = good R st st'" "good R (st\<lparr>fd_calls := ks\<rparr>) st' = good R st st'"
  "fine st (st'\<lparr>fd_errno := e\<rparr>) = fine st st'" "fine st (st'\<lparr>fd_calls := ks\<rparr>) = fine st st'"
  "fine (st\<lparr>fd_errno := e\<rparr>) st' = fine st st'" "fine (st\<lparr>fd_calls := ks\<rparr>) st' = fine st st'"
  by (simp_all add: fd_ok_def states_ok_def good_def fine_def)

lemma good_trans: "good R st st1 \<Longrightarrow> good R st1 st2 \<Longrightarrow> good R st st2"
  unfolding good_def using stays_trans by blast

lemma fine_good: "fine st st' \<Longrightarrow> good R st st'"
  unfolding fine_def good_def using stays_mono by blast

lemma fine_refl [simp]: "fd_ok st \<Longrightarrow> fine st st"
  by (simp add: fine_def good_def)

lemma fine_trans: "fine st st1 \<Longrightarrow> fine st1 st2 \<Longrightarrow> fine st st2"
  unfolding fine_def using good_trans by blast

lemma fine_ok: "fine st st' \<Longrightarrow> fd_ok st'"
  by (simp add: fine_def good_def)

lemma good_ok: "good R st st' \<Longrightarrow> fd_ok st'"
  by (simp add: good_def)

lemma fine_live: "fine st st' \<Longrightarrow> fd_heap st p \<noteq> None \<Longrightarrow> fd_heap st' p \<noteq> None"
  unfolding fine_def by (auto simp: dom_def)

lemma fine_map:
  \<comment> \<open>a change of the map alone, whose entries keep their states\<close>
  assumes "fd_ok st" "rfd_ok m" "stays {} (fd_map st) m"
    "\<And>r i p. RFDToSocketInfoMap m r = Some i \<Longrightarrow> si_state i = Some p \<Longrightarrow> \<exists>j. RFDToSocketInfoMap (fd_map st) r = Some j \<and> si_state j = Some p"
  shows "fine st (st\<lparr>fd_map := m\<rparr>)"
proof -
  have "states_ok (st\<lparr>fd_map := m\<rparr>)" using assms(1,4) by (fastforce simp: fd_ok_def states_ok_def)
  then show ?thesis using assms(2,3) by (simp add: fine_def good_def fd_ok_def)
qed

lemma fine_addSocket:
  assumes "fd_ok st" "s \<noteq> INVALID_SOCKET" "addSocket s (fd_map st) = (r, m)"
  shows "fine st (st\<lparr>fd_map := m\<rparr>)"
proof -
  note a = addSocket_ok [OF _ assms(2,3)]
  have r: "rfd_ok (fd_map st)" using assms(1) by (simp add: fd_ok_def)
  have "\<exists>j. RFDToSocketInfoMap (fd_map st) q = Some j \<and> si_state j = Some p"
    if "RFDToSocketInfoMap m q = Some i" "si_state i = Some p" for q i p
    using a [OF r] that by (cases "q = r"; cases "r = INVALID_FD") (auto simp: new_info_def)
  then show ?thesis using a [OF r] assms(1) by (intro fine_map) simp_all
qed

lemma fine_addCrtFD:
  assumes "fd_ok st" "addCrtFD c (fd_map st) = (r, m)"
  shows "fine st (st\<lparr>fd_map := m\<rparr>)"
proof -
  have r: "rfd_ok (fd_map st)" using assms(1) by (simp add: fd_ok_def)
  show ?thesis using addCrtFD_ok [OF r assms(2)] assms(1) by (intro fine_map) simp_all
qed

lemma fine_set_info:
  assumes "fd_ok st" "\<And>i. si_socket (f i) = si_socket i" "\<And>i. si_state (f i) = si_state i"
  shows "fine st (st\<lparr>fd_map := set_info r f (fd_map st)\<rparr>)"
proof -
  have r: "rfd_ok (fd_map st)" using assms(1) by (simp add: fd_ok_def)
  show ?thesis using set_info_ok [OF r, of f r] assms by (intro fine_map) (auto simp: set_info_def split: if_splits)
qed

lemma upd_state_fine:
  assumes "fd_ok st" "fd_heap st p \<noteq> None" "\<And>k. is_fd (f k) = is_fd k"
  shows "\<exists>st'. upd_state p f st = Some st' \<and> fine st st'"
proof -
  obtain k where k: "fd_heap st p = Some k" using assms(2) by auto
  define st' where "st' = st\<lparr>fd_heap := (fd_heap st)(p \<mapsto> f k)\<rparr>"
  have "p < fd_fresh st" using assms(1) k unfolding fd_ok_def states_ok_def by (metis linorder_not_less option.distinct(1))
  then have "states_ok st'" using assms(1,3) k by (fastforce simp: fd_ok_def states_ok_def st'_def)
  then have "fine st st'" using assms(1) by (auto simp: fine_def good_def fd_ok_def st'_def)
  then show ?thesis using k by (simp add: upd_state_def st'_def)
qed

lemma GetSocketState_fine:
  assumes "fd_ok st" "WSIOCP_GetSocketState fd st = (p, st')"
  shows "fine st st'" "p = Some q \<Longrightarrow> fd_heap st' q \<noteq> None" "fd_calls st' = fd_calls st"
proof -
  have "fine st st' \<and> (p = Some q \<longrightarrow> fd_heap st' q \<noteq> None) \<and> fd_calls st' = fd_calls st"
  proof (cases "RFDToSocketInfoMap (fd_map st) fd")
    case None
    then show ?thesis using assms by (simp add: WSIOCP_GetSocketState_def FDAPI_GetSocketState_def lookupSocketInfo_def)
  next
    case (Some i)
    show ?thesis
    proof (cases "si_state i")
      case (Some n)
      then have "\<exists>k. fd_heap st n = Some k" using assms(1) \<open>RFDToSocketInfoMap (fd_map st) fd = Some i\<close>
        unfolding fd_ok_def states_ok_def by blast
      then show ?thesis using assms Some \<open>RFDToSocketInfoMap (fd_map st) fd = Some i\<close>
        by (auto simp: WSIOCP_GetSocketState_def FDAPI_GetSocketState_def lookupSocketInfo_def)
    next
      case None
      define n where "n = fd_fresh st"
      have st': "p = Some n" "st' = st\<lparr>fd_fresh := n + 1,
          fd_heap := (fd_heap st)(n \<mapsto> \<lparr>is_masks = 0, is_fd = fd, is_reqs = [], is_wreqs = 0, is_wreqlist = []\<rparr>),
          fd_map := set_info fd (\<lambda>i. i\<lparr>si_state := Some n\<rparr>) (fd_map st)\<rparr>"
        using assms(2) None Some by (auto simp: WSIOCP_GetSocketState_def FDAPI_GetSocketState_def lookupSocketInfo_def Let_def n_def)
      have r: "rfd_ok (fd_map st)" using assms(1) by (simp add: fd_ok_def)
      have f: "fd_heap st n = None" using assms(1) by (simp add: fd_ok_def states_ok_def n_def)
      have "states_ok st'" unfolding states_ok_def
      proof (intro conjI allI impI)
        fix r j x
        assume a: "RFDToSocketInfoMap (fd_map st') r = Some j \<and> si_state j = Some x"
        show "\<exists>k. fd_heap st' x = Some k \<and> is_fd k = r"
        proof (cases "r = fd")
          case True
          then show ?thesis using a Some by (auto simp: st'(2) set_info_def)
        next
          case False
          then have "\<exists>k. fd_heap st x = Some k \<and> is_fd k = r" using a assms(1) by (auto simp: st'(2) set_info_def fd_ok_def states_ok_def)
          then show ?thesis using f by (auto simp: st'(2))
        qed
      next
        fix x
        assume "fd_fresh st' \<le> x"
        then show "fd_heap st' x = None" using assms(1) by (simp add: st'(2) fd_ok_def states_ok_def n_def)
      qed
      then have "fd_ok st'" using set_info_ok(1) [OF r] by (simp add: fd_ok_def st'(2))
      then show ?thesis using set_info_ok(2) [OF r, of "\<lambda>i. i\<lparr>si_state := Some n\<rparr>" fd] by (auto simp: fine_def good_def st')
    qed
  qed
  then show "fine st st'" "p = Some q \<Longrightarrow> fd_heap st' q \<noteq> None" "fd_calls st' = fd_calls st" by blast+
qed

lemma CloseSocketState_cases:
  assumes "fd_heap st p = Some k"
  shows "(\<exists>st'. WSIOCP_CloseSocketState p st = Some (True, st') \<and> st' = st\<lparr>fd_heap := (fd_heap st)(p := None)\<rparr>)
    \<or> (\<exists>k'. WSIOCP_CloseSocketState p st = Some (False, st\<lparr>fd_heap := (fd_heap st)(p \<mapsto> k')\<rparr>) \<and> is_fd k' = is_fd k)"
  using assms by (auto simp: WSIOCP_CloseSocketState_def Let_def)

lemma FDAPI_close_good:
  assumes "fd_ok st"
  shows "\<exists>v st'. FDAPI_close rfd st = Some (v, st') \<and> good {rfd} st st'"
proof (cases "RFDToSocketInfoMap (fd_map st) rfd")
  case None
  define c where "c = lookupCrtFD rfd (fd_map st)"
  have r: "rfd_ok (fd_map st)" using assms by (simp add: fd_ok_def)
  note rc = removeCrtFD_ok [OF r, of c]
  have "stays {rfd} (fd_map st) (removeCrtFD c (fd_map st))"
  proof (cases "RFDToCrtFDMap (fd_map st) rfd")
    case None
    show ?thesis
    proof (cases "c > 2")
      case True
      then show ?thesis using None by (auto simp: c_def lookupCrtFD_def split: if_splits)
    next
      case False
      then show ?thesis by (simp add: removeCrtFD_def)
    qed
  next
    case (Some d)
    then have "c = d" by (simp add: c_def lookupCrtFD_def)
    then have "{r. RFDToCrtFDMap (fd_map st) r = Some c} \<subseteq> {rfd}"
      using Some r by (auto simp: rfd_ok_def files_ok_def) (metis option.inject)
    then show ?thesis using rc(3) stays_mono by blast
  qed
  moreover have "states_ok (st\<lparr>fd_map := removeCrtFD c (fd_map st)\<rparr>)" using assms rc(2) by (auto simp: fd_ok_def states_ok_def)
  ultimately have "good {rfd} st (st\<lparr>fd_map := removeCrtFD c (fd_map st)\<rparr>)" using rc(1) by (simp add: good_def fd_ok_def)
  moreover have "good {rfd} st st" using assms by (simp add: fine_good)
  ultimately show ?thesis using None by (auto simp: FDAPI_close_def lookupSocketInfo_def c_def [symmetric] ask_def Let_def)
next
  case (Some i)
  have r: "rfd_ok (fd_map st)" using assms by (simp add: fd_ok_def)
  show ?thesis
  proof (cases "si_socket i = INVALID_SOCKET")
    case True
    then show ?thesis using Some assms by (auto simp: FDAPI_close_def lookupSocketInfo_def intro: fine_good)
  next
    case False
    define s where "s = si_socket i"
    define f where "f = (\<lambda>i :: SocketInfo. i\<lparr>si_socket := INVALID_SOCKET\<rparr>)"
    define m1 where "m1 = set_info rfd f (fd_map st)"
    define gone where "gone = removeSocketToRFD s (removeRFDToSocketInfo rfd m1)"
    define kept where "kept = removeSocketToRFD s m1"
    have ok: "rfd_ok gone" "rfd_ok kept" using closed_ok [OF r Some] False unfolding gone_def kept_def m1_def s_def f_def by blast+
    have ks: "stays {rfd} (fd_map st) gone" "stays {rfd} (fd_map st) kept"
      by (auto simp: stays_def gone_def kept_def m1_def removeSocketToRFD_def removeRFDToSocketInfo_def set_info_def)
    have i: "RFDToSocketInfoMap gone = (RFDToSocketInfoMap (fd_map st))(rfd := None)"
      "RFDToSocketInfoMap kept = (RFDToSocketInfoMap (fd_map st))(rfd \<mapsto> f i)"
      using Some by (simp_all add: gone_def kept_def m1_def removeSocketToRFD_def removeRFDToSocketInfo_def set_info_def)
    have fin: "good {rfd} st (st\<lparr>fd_map := m, fd_heap := h\<rparr>) \<and> good {rfd} st (st\<lparr>fd_heap := h, fd_map := m\<rparr>)" if "rfd_ok m" "stays {rfd} (fd_map st) m" "states_ok (st\<lparr>fd_map := m, fd_heap := h\<rparr>)" for m h
      using that by (auto simp: good_def fd_ok_def states_ok_def)
    have so: "states_ok st" using assms by (simp add: fd_ok_def)
    have lk: "lookupSocketInfo rfd (fd_map st) = Some i" by (simp add: lookupSocketInfo_def Some)
    have close: "FDAPI_close rfd st = do {
        st \<leftarrow> (case si_state i of
            Some _ \<Rightarrow>
              if fd_hook st then do {
                (closed, st) \<leftarrow> WSIOCP_CloseSocketStateRFD rfd (st\<lparr>fd_map := m1\<rparr>);
                Some (if closed then st\<lparr>fd_map := removeRFDToSocketInfo rfd (fd_map st)\<rparr> else st)
              } else Some (st\<lparr>fd_map := m1\<rparr>)
          | None \<Rightarrow> Some (st\<lparr>fd_map := removeRFDToSocketInfo rfd m1\<rparr>));
        Some (ask (FClose s) (st\<lparr>fd_map := removeSocketToRFD s (fd_map st)\<rparr>)) }"
      using False by (cases "si_state i") (simp_all add: FDAPI_close_def lk s_def f_def m1_def Let_def)
    show ?thesis
    proof (cases "si_state i")
      case None
      have "states_ok (st\<lparr>fd_map := gone, fd_heap := fd_heap st\<rparr>)" using so by (auto simp: states_ok_def i)
      from fin [OF ok(1) ks(1) this] show ?thesis unfolding close None by (simp add: ask_def Let_def gone_def)
    next
      case (Some p)
      then obtain k where k: "fd_heap st p = Some k" "is_fd k = rfd" using so \<open>RFDToSocketInfoMap (fd_map st) rfd = Some i\<close>
        unfolding states_ok_def by blast
      have other: "q \<noteq> p" if "RFDToSocketInfoMap (fd_map st) r = Some j" "si_state j = Some q" "r \<noteq> rfd" for r j q
        using so that k by (fastforce simp: states_ok_def)
      have pf: "p < fd_fresh st" using so k(1) unfolding states_ok_def by (metis linorder_not_less option.distinct(1))
      have sg: "states_ok (st\<lparr>fd_map := gone, fd_heap := (fd_heap st)(p := None)\<rparr>)"
        using so other by (auto simp: states_ok_def i)
      have sk: "states_ok (st\<lparr>fd_map := kept, fd_heap := (fd_heap st)(p \<mapsto> k')\<rparr>)" if "is_fd k' = rfd" for k'
        using so other that pf Some by (auto simp: states_ok_def i f_def)
      have "WSIOCP_GetExistingSocketState rfd (st\<lparr>fd_map := m1\<rparr>) = Some p"
        using Some \<open>RFDToSocketInfoMap (fd_map st) rfd = Some i\<close>
        by (simp add: WSIOCP_GetExistingSocketState_def FDAPI_GetSocketState_def lookupSocketInfo_def m1_def set_info_def f_def)
      then have c: "WSIOCP_CloseSocketStateRFD rfd (st\<lparr>fd_map := m1\<rparr>) = WSIOCP_CloseSocketState p (st\<lparr>fd_map := m1\<rparr>)"
        by (simp add: WSIOCP_CloseSocketStateRFD_def)
      show ?thesis
      proof (cases "fd_hook st")
        case False
        have "(fd_heap st)(p \<mapsto> k) = fd_heap st" using k(1) by auto
        then have "good {rfd} st (st\<lparr>fd_map := kept, fd_heap := fd_heap st\<rparr>)" using fin [OF ok(2) ks(2) sk [OF k(2)]] by simp
        then show ?thesis unfolding close using Some False by (simp add: ask_def Let_def kept_def)
      next
        case True
        consider "WSIOCP_CloseSocketState p (st\<lparr>fd_map := m1\<rparr>) = Some (True, st\<lparr>fd_map := m1, fd_heap := (fd_heap st)(p := None)\<rparr>)"
          | k' where "WSIOCP_CloseSocketState p (st\<lparr>fd_map := m1\<rparr>) = Some (False, st\<lparr>fd_map := m1, fd_heap := (fd_heap st)(p \<mapsto> k')\<rparr>)" "is_fd k' = rfd"
          using CloseSocketState_cases [of "st\<lparr>fd_map := m1\<rparr>" p k] k by auto
        then show ?thesis
        proof cases
          case 1
          then show ?thesis using fin [OF ok(1) ks(1) sg] unfolding close using Some True c by (simp add: ask_def Let_def gone_def)
        next
          case (2 k')
          then show ?thesis using fin [OF ok(2) ks(2) sk [OF 2(2)]] unfolding close using Some True c by (simp add: ask_def Let_def kept_def)
        qed
      qed
    qed
  qed
qed

section \<open>Every function\<close>

lemma ask_same: "ask k st = (v, st1) \<Longrightarrow> st1 = st\<lparr>fd_calls := k # fd_calls st\<rparr> \<and> v = fd_answer st (k # fd_calls st)"
  by (auto simp: ask_def Let_def)

lemma on_map_addSocket: "fd_ok st \<Longrightarrow> s \<noteq> INVALID_SOCKET \<Longrightarrow> on_map (addSocket s) st = (v, st') \<Longrightarrow> fine st st'"
  by (auto split: prod.splits intro: fine_addSocket)

lemma on_map_addCrtFD: "fd_ok st \<Longrightarrow> on_map (addCrtFD c) st = (v, st') \<Longrightarrow> fine st st'"
  by (auto split: prod.splits intro: fine_addCrtFD)

lemma FDAPI_socket_fine:
  assumes "fd_ok st" "FDAPI_socket st = (v, st')"
  shows "fine st st'"
proof -
  define st1 where "st1 = st\<lparr>fd_calls := FSocket # fd_calls st\<rparr>"
  define s where "s = fd_answer st (FSocket # fd_calls st)"
  have a: "ask FSocket st = (s, st1)" by (simp add: ask_def Let_def st1_def s_def)
  have k: "fd_ok st1" using assms(1) by (simp add: st1_def)
  show ?thesis
  proof (cases "s = INVALID_SOCKET")
    case True
    then show ?thesis using assms a by (auto simp: FDAPI_socket_def st1_def)
  next
    case False
    then have "on_map (addSocket s) st1 = (v, st')" using assms(2) a by (simp add: FDAPI_socket_def)
    from on_map_addSocket [OF k False this] show ?thesis by (simp add: st1_def)
  qed
qed

lemma FDAPI_WSASocket_fine:
  assumes "fd_ok st" "FDAPI_WSASocket st = (v, st')"
  shows "fine st st'"
proof -
  define st1 where "st1 = st\<lparr>fd_calls := FWSASocket # fd_calls st\<rparr>"
  define s where "s = fd_answer st (FWSASocket # fd_calls st)"
  have a: "ask FWSASocket st = (s, st1)" by (simp add: ask_def Let_def st1_def s_def)
  have k: "fd_ok st1" using assms(1) by (simp add: st1_def)
  show ?thesis
  proof (cases "s = INVALID_SOCKET")
    case True
    then show ?thesis using assms a by (auto simp: FDAPI_WSASocket_def st1_def)
  next
    case False
    then have "on_map (addSocket s) st1 = (v, st')" using assms(2) a by (simp add: FDAPI_WSASocket_def)
    from on_map_addSocket [OF k False this] show ?thesis by (simp add: st1_def)
  qed
qed

lemma FDAPI_accept_fine:
  assumes "fd_ok st" "FDAPI_accept rfd st = (v, st')"
  shows "fine st st'"
proof (cases "lookupSocket rfd (fd_map st) = INVALID_SOCKET")
  case True
  then show ?thesis using assms by (auto simp: FDAPI_accept_def on_socket_def)
next
  case False
  define l where "l = lookupSocket rfd (fd_map st)"
  define st1 where "st1 = st\<lparr>fd_calls := FAccept l # fd_calls st\<rparr>"
  define s where "s = fd_answer st (FAccept l # fd_calls st)"
  have a: "ask (FAccept l) st = (s, st1)" by (simp add: ask_def Let_def st1_def s_def)
  have k: "fd_ok st1" using assms(1) by (simp add: st1_def)
  show ?thesis
  proof (cases "s = INVALID_SOCKET")
    case True
    then show ?thesis using assms a False by (auto simp: FDAPI_accept_def on_socket_def Let_def l_def [symmetric] st1_def split: if_splits)
  next
    case s: False
    then have "on_map (addSocket s) st1 = (v, st')" using assms(2) a False by (simp add: FDAPI_accept_def on_socket_def Let_def l_def [symmetric])
    from on_map_addSocket [OF k s this] show ?thesis by (simp add: st1_def)
  qed
qed

lemma crt_fine:
  assumes "fd_ok st"
  shows "FDAPI_open st = (v, st') \<Longrightarrow> fine st st'" "FDAPI_open_osfhandle st = (v, st') \<Longrightarrow> fine st st'"
    "FDAPI_fileno c st = (v, st') \<Longrightarrow> fine st st'"
proof -
  have 1: "fine st st'" if "on_map (addCrtFD c) (st\<lparr>fd_calls := ks\<rparr>) = (v, st')" for c ks
    using on_map_addCrtFD [OF _ that] assms by simp
  show "fine st st'" if "FDAPI_open st = (v, st')"
    using that 1 assms by (cases "fd_answer st (FCrtOpen # fd_calls st) = -1") (auto simp: FDAPI_open_def ask_def Let_def)
  show "fine st st'" if "FDAPI_open_osfhandle st = (v, st')"
    using that 1 assms by (cases "fd_answer st (FOpenHandle # fd_calls st) = -1") (auto simp: FDAPI_open_osfhandle_def ask_def Let_def)
  show "fine st st'" if "FDAPI_fileno c st = (v, st')"
    using that assms on_map_addCrtFD [OF assms, of c v st'] by (cases "c = -1") (auto simp: FDAPI_fileno_def)
qed

lemma FDAPI_pipe_fine:
  assumes "fd_ok st" "FDAPI_pipe pfds st = (v, st')"
  shows "fine st st'"
proof -
  define st1 where "st1 = st\<lparr>fd_calls := FCrtPipe # fd_calls st\<rparr>"
  define x where "x = fd_answer st (FCrtPipe # fd_calls st)"
  have a: "ask FCrtPipe st = (x, st1)" by (simp add: ask_def Let_def st1_def x_def)
  have k: "fd_ok st1" "fine st st1" using assms(1) by (simp_all add: st1_def)
  show ?thesis
  proof (cases "x = 0")
    case False
    then show ?thesis using assms(2) a k by (auto simp: FDAPI_pipe_def)
  next
    case True
    obtain r0 st2 where 2: "on_map (addCrtFD (fst pfds)) st1 = (r0, st2)" by (metis surj_pair)
    obtain r1 st3 where 3: "on_map (addCrtFD (snd pfds)) st2 = (r1, st3)" by (metis surj_pair)
    have "FDAPI_pipe pfds st = ((x, r0, r1), st3)" unfolding FDAPI_pipe_def a prod.case 2 3 using True by simp
    then have "st' = st3" using assms(2) by simp
    moreover have "fine st1 st2" by (rule on_map_addCrtFD [OF k(1) 2])
    moreover from this have "fine st2 st3" by (intro on_map_addCrtFD [OF _ 3]) (rule fine_ok)
    ultimately show ?thesis using k(2) fine_trans by blast
  qed
qed

lemma FDAPI_fclose_good:
  assumes "fd_ok st" "FDAPI_fclose c st = (v, st')"
  shows "good {r. RFDToCrtFDMap (fd_map st) r = Some c} st st'"
proof -
  have r: "rfd_ok (fd_map st)" using assms(1) by (simp add: fd_ok_def)
  note rc = removeCrtFD_ok [OF r, of c]
  have "states_ok (st\<lparr>fd_map := removeCrtFD c (fd_map st)\<rparr>)" using assms(1) rc(2) by (auto simp: fd_ok_def states_ok_def)
  then have "good {r. RFDToCrtFDMap (fd_map st) r = Some c} st (st\<lparr>fd_map := removeCrtFD c (fd_map st)\<rparr>)"
    using rc(1,3) by (simp add: good_def fd_ok_def)
  moreover have "good R st st" for R using assms(1) by (simp add: fine_good)
  ultimately show ?thesis using assms(2) by (auto simp: FDAPI_fclose_def ask_def Let_def split: if_splits)
qed

lemma FDAPI_CloseDuplicatedSocket_good:
  assumes "fd_ok st" "FDAPI_CloseDuplicatedSocket rfd st = (v, st')"
  shows "good {rfd} st st'"
proof (cases "lookupSocket rfd (fd_map st) = INVALID_SOCKET")
  case True
  then show ?thesis using assms by (auto simp: FDAPI_CloseDuplicatedSocket_def on_socket_def intro: fine_good)
next
  case False
  define s where "s = lookupSocket rfd (fd_map st)"
  obtain i where i: "RFDToSocketInfoMap (fd_map st) rfd = Some i" "si_socket i = s" using False
    by (auto simp: lookupSocket_def s_def split: option.splits)
  define m where "m = removeSocketToRFD s (removeRFDToSocketInfo rfd (fd_map st))"
  have "set_info rfd id (fd_map st) = fd_map st" by (simp add: set_info_def option.map_id)
  moreover have "rfd_ok (fd_map st)" using assms(1) by (simp add: fd_ok_def)
  ultimately have "rfd_ok m" using closed_ok(1) [of "fd_map st" rfd i s id] i False by (simp add: m_def s_def)
  moreover have "stays {rfd} (fd_map st) m" by (simp add: stays_def m_def removeSocketToRFD_def removeRFDToSocketInfo_def)
  moreover have "states_ok (st\<lparr>fd_map := m\<rparr>)" using assms(1)
    by (auto simp: fd_ok_def states_ok_def m_def removeSocketToRFD_def removeRFDToSocketInfo_def)
  ultimately have "good {rfd} st (st\<lparr>fd_map := m\<rparr>)" by (simp add: good_def fd_ok_def)
  then show ?thesis using assms(2) False by (auto simp: FDAPI_CloseDuplicatedSocket_def on_socket_def ask_def Let_def m_def s_def)
qed

lemma FDAPI_ClearSocketInfo_good:
  assumes "fd_ok st"
  shows "good {rfd} st (FDAPI_ClearSocketInfo rfd st)"
proof (cases "\<exists>i. RFDToSocketInfoMap (fd_map st) rfd = Some i \<and> si_socket i = INVALID_SOCKET")
  case False
  then have "FDAPI_ClearSocketInfo rfd st = st" by (auto simp: FDAPI_ClearSocketInfo_def lookupSocketInfo_def split: option.splits)
  then show ?thesis using assms by (simp add: fine_good)
next
  case True
  then obtain i where i: "RFDToSocketInfoMap (fd_map st) rfd = Some i" "si_socket i = INVALID_SOCKET" by blast
  define m where "m = removeRFDToSocketInfo rfd (fd_map st)"
  have "rfd_ok (fd_map st)" using assms(1) by (simp add: fd_ok_def)
  then have "rfd_ok m" using cleared_ok i unfolding m_def by blast
  moreover have "stays {rfd} (fd_map st) m" by (simp add: stays_def m_def removeRFDToSocketInfo_def)
  moreover have "states_ok (st\<lparr>fd_map := m\<rparr>)" using assms(1) by (auto simp: fd_ok_def states_ok_def m_def removeRFDToSocketInfo_def)
  ultimately have "good {rfd} st (st\<lparr>fd_map := m\<rparr>)" by (simp add: good_def fd_ok_def)
  then show ?thesis using i by (simp add: FDAPI_ClearSocketInfo_def lookupSocketInfo_def m_def)
qed

lemma passing_fine:
  assumes "fd_ok st"
  shows "FDAPI_read r n st = (v, st') \<Longrightarrow> fine st st'" "FDAPI_write r b st = (v, st') \<Longrightarrow> fine st st'"
    "FDAPI_setsockopt r st = (v, st') \<Longrightarrow> fine st st'" "FDAPI_getsockopt r st = (v, st') \<Longrightarrow> fine st st'"
    "FDAPI_getfl r st = (v, st') \<Longrightarrow> fine st st'" "FDAPI_connect r a st = (v, st') \<Longrightarrow> fine st st'"
    "FDAPI_listen r k st = (v, st') \<Longrightarrow> fine st st'" "FDAPI_bind r st = (v, st') \<Longrightarrow> fine st st'"
    "FDAPI_getsockname r st = (v, st') \<Longrightarrow> fine st st'" "FDAPI_getpeername r st = (w, st') \<Longrightarrow> fine st st'"
    "FDAPI_UpdateAcceptContext r st = (v, st') \<Longrightarrow> fine st st'" "FDAPI_WSARecv r st = (v, st') \<Longrightarrow> fine st st'"
    "FDAPI_WSASend r b st = (v, st') \<Longrightarrow> fine st st'" "FDAPI_SocketAttachIOCP r st = (ok, st') \<Longrightarrow> fine st st'"
    "FDAPI_AcceptEx r q st = (v, st') \<Longrightarrow> fine st st'" "FDAPI_ConnectEx r b n st = (v, st') \<Longrightarrow> fine st st'"
    "FDAPI_GetAcceptExSockaddrs r st = (v, st') \<Longrightarrow> fine st st'"
  using assms
  by (auto simp: FDAPI_read_def FDAPI_write_def FDAPI_setsockopt_def FDAPI_getsockopt_def FDAPI_getfl_def FDAPI_connect_def
      FDAPI_listen_def FDAPI_bind_def FDAPI_getsockname_def FDAPI_getpeername_def FDAPI_UpdateAcceptContext_def FDAPI_WSARecv_def
      FDAPI_WSASend_def FDAPI_SocketAttachIOCP_def FDAPI_AcceptEx_def FDAPI_ConnectEx_def FDAPI_GetAcceptExSockaddrs_def
      on_socket_def ask_def Let_def set_errno_from_last_error_def split: if_splits option.splits)

lemma FDAPI_setfl_fine:
  assumes "fd_ok st" "FDAPI_setfl r flags st = (v, st')"
  shows "fine st st'"
proof -
  have "fine (st\<lparr>fd_calls := ks\<rparr>) (st\<lparr>fd_calls := ks, fd_map := set_info r (\<lambda>i. i\<lparr>si_flags := flags\<rparr>) (fd_map st)\<rparr>)" for ks
    using fine_set_info [of "st\<lparr>fd_calls := ks\<rparr>" "\<lambda>i. i\<lparr>si_flags := flags\<rparr>" r] assms(1) by simp
  then show ?thesis using assms by (auto simp: FDAPI_setfl_def ask_def Let_def split: if_splits option.splits)
qed

lemma FDAPI_SaveSocketAddrStorage_fine:
  assumes "fd_ok st"
  shows "fine st (FDAPI_SaveSocketAddrStorage r a st)"
  using fine_set_info [OF assms, of "\<lambda>i. i\<lparr>si_addr := a\<rparr>" r] assms by (auto simp: FDAPI_SaveSocketAddrStorage_def)

abbreviation works :: "RFD set \<Rightarrow> fdapi \<Rightarrow> ('a \<times> fdapi) option \<Rightarrow> bool" where
  \<comment> \<open>no bad pointer, and a good state\<close>
  "works R st r \<equiv> \<exists>v st'. r = Some (v, st') \<and> good R st st'"

lemma worksI: "fine st st' \<Longrightarrow> works R st (Some (v, st'))"
  by (auto intro: fine_good)

lemma works_after: "fine st st1 \<Longrightarrow> works R st1 r \<Longrightarrow> works R st r"
  using good_trans fine_good by blast

lemma upd_works:
  assumes "fine st st1" "fd_heap st1 p \<noteq> None" "\<And>k. is_fd (f k) = is_fd k"
    "\<And>st2. fine st1 st2 \<Longrightarrow> works R st2 (g st2)"
  shows "works R st (Option.bind (upd_state p f st1) g)"
proof -
  obtain st2 where 2: "upd_state p f st1 = Some st2" "fine st1 st2" using upd_state_fine [OF fine_ok [OF assms(1)] assms(2,3)] by blast
  have "works R st1 (g st2)" by (rule works_after [OF 2(2) assms(4) [OF 2(2)]])
  from works_after [OF assms(1) this] show ?thesis by (simp add: 2(1))
qed

lemma WSIOCP_SocketAttach_fine:
  assumes "fd_ok st" "\<And>q. p = Some q \<Longrightarrow> fd_heap st q \<noteq> None"
  shows "\<exists>v st'. WSIOCP_SocketAttach fd p st = Some (v, st') \<and> fine st st'"
proof -
  obtain q st1 where q: "(if p = None then WSIOCP_GetSocketState fd st else (p, st)) = (q, st1)" by (metis surj_pair)
  have f1: "fine st st1" "\<And>x. q = Some x \<Longrightarrow> fd_heap st1 x \<noteq> None"
    using q assms GetSocketState_fine [OF assms(1), of fd q st1] by (auto split: if_splits)
  have A: "WSIOCP_SocketAttach fd p st = (case q of
        Some p \<Rightarrow>
          if fd_iocph st1 then
            (case FDAPI_SocketAttachIOCP fd st1 of (ok, st) \<Rightarrow>
               if ok then do { st \<leftarrow> upd_state p (\<lambda>k. k\<lparr>is_masks := SOCKET_ATTACHED, is_wreqs := 0\<rparr>) st; Some (0, st) }
               else Some (-1, st))
          else Some (fails (-1) WSAEINVAL st1)
      | None \<Rightarrow> Some (fails (-1) WSAEINVAL st1))"
    unfolding WSIOCP_SocketAttach_def Let_def q prod.case by (rule refl)
  show ?thesis
  proof (cases "q = None \<or> \<not> fd_iocph st1")
    case True
    then show ?thesis using f1(1) by (cases q) (auto simp: A)
  next
    case False
    then obtain x where x: "q = Some x" "fd_iocph st1" by auto
    obtain ok st2 where 2: "FDAPI_SocketAttachIOCP fd st1 = (ok, st2)" by (metis surj_pair)
    have f2: "fine st1 st2" by (rule passing_fine(14) [OF fine_ok [OF f1(1)] 2])
    have f: "fine st st2" by (rule fine_trans [OF f1(1) f2])
    show ?thesis
    proof (cases ok)
      case False
      then show ?thesis using f by (simp add: A x 2)
    next
      case True
      obtain st3 where 3: "upd_state x (\<lambda>k. k\<lparr>is_masks := SOCKET_ATTACHED, is_wreqs := 0\<rparr>) st2 = Some st3" "fine st2 st3"
        using upd_state_fine [OF fine_ok [OF f] fine_live [OF f2 f1(2) [OF x(1)]], of "\<lambda>k. k\<lparr>is_masks := SOCKET_ATTACHED, is_wreqs := 0\<rparr>"]
        by auto
      then show ?thesis using True fine_trans [OF f 3(2)] by (simp add: A x 2)
    qed
  qed
qed

lemma WSIOCP_QueueAccept_works:
  assumes "fd_ok st"
  shows "works {} st (WSIOCP_QueueAccept listenfd st)"
proof -
  obtain p st1 where 1: "WSIOCP_GetSocketState listenfd st = (p, st1)" by (metis surj_pair)
  have f1: "fine st st1" by (rule GetSocketState_fine(1) [OF assms 1])
  show ?thesis
  proof (cases p)
    case None
    then show ?thesis using f1 by (auto simp: WSIOCP_QueueAccept_def 1 intro: fine_good)
  next
    case (Some x)
    have lx: "fd_heap st1 x \<noteq> None" using GetSocketState_fine(2) [OF assms 1 Some] .
    obtain a st2 where 2: "FDAPI_socket st1 = (a, st2)" by (metis surj_pair)
    have f2: "fine st1 st2" by (rule FDAPI_socket_fine [OF fine_ok [OF f1] 2])
    have f12: "fine st st2" by (rule fine_trans [OF f1 f2])
    show ?thesis
    proof (cases "a = -1")
      case True
      then show ?thesis using f12 Some by (auto simp: WSIOCP_QueueAccept_def 1 2 intro: fine_good)
    next
      case a: False
      obtain q st3 where 3: "WSIOCP_GetSocketState a st2 = (q, st3)" by (metis surj_pair)
      have f3: "fine st2 st3" by (rule GetSocketState_fine(1) [OF fine_ok [OF f12] 3])
      have f123: "fine st st3" by (rule fine_trans [OF f12 f3])
      show ?thesis
      proof (cases q)
        case None
        then show ?thesis using f123 Some a by (auto simp: WSIOCP_QueueAccept_def 1 2 3 intro: fine_good)
      next
        case q: (Some y)
        have ly: "fd_heap st3 y \<noteq> None" using GetSocketState_fine(2) [OF fine_ok [OF f12] 3 q] .
        have lx3: "fd_heap st3 x \<noteq> None" by (rule fine_live [OF f3 fine_live [OF f2 lx]])
        obtain st4 where 4: "upd_state y (\<lambda>k. k\<lparr>is_masks := SOCKET_ATTACHED\<rparr>) st3 = Some st4" "fine st3 st4"
          using upd_state_fine [OF fine_ok [OF f123] ly, of "\<lambda>k. k\<lparr>is_masks := SOCKET_ATTACHED\<rparr>"] by auto
        obtain v st5 where 5: "FDAPI_AcceptEx listenfd a st4 = (v, st5)" by (metis surj_pair)
        have f5: "fine st4 st5" by (rule passing_fine(15) [OF fine_ok [OF 4(2)] 5])
        have F: "fine st st5" by (rule fine_trans [OF f123 fine_trans [OF 4(2) f5]])
        have live5: "fd_heap st5 x \<noteq> None" "fd_heap st5 y \<noteq> None"
          by (rule fine_live [OF f5 fine_live [OF 4(2) lx3]], rule fine_live [OF f5 fine_live [OF 4(2) ly]])
        have Q: "WSIOCP_QueueAccept listenfd st =
            (if v \<noteq> 0 \<or> last_error st5 = ERROR_IO_PENDING then do {
               st \<leftarrow> upd_state x (\<lambda>k. k\<lparr>is_masks := is_masks k OR ACCEPT_PENDING\<rparr>) st5;
               Some (0, st)
             } else do {
               st \<leftarrow> upd_state x (\<lambda>k. k\<lparr>is_masks := is_masks k AND NOT ACCEPT_PENDING\<rparr>) (st5\<lparr>fd_errno := last_error st5\<rparr>);
               st \<leftarrow> upd_state y (\<lambda>k. k\<lparr>is_masks := 0\<rparr>) st;
               (_, st) \<leftarrow> FDAPI_close a st;
               Some (-1, st)
             })"
          using a by (simp add: WSIOCP_QueueAccept_def 1 2 3 4(1) 5 Some q)
        show ?thesis
        proof (cases "v \<noteq> 0 \<or> last_error st5 = ERROR_IO_PENDING")
          case True
          show ?thesis unfolding Q if_P [OF True]
            by (rule upd_works [OF F live5(1)]) (simp_all add: good_def fine_def)
        next
          case False
          define st6 where "st6 = st5\<lparr>fd_errno := last_error st5\<rparr>"
          have f6: "fine st st6" "fd_heap st6 x \<noteq> None" "fd_heap st6 y \<noteq> None" using F live5 by (simp_all add: st6_def)
          obtain st7 where 7: "upd_state x (\<lambda>k. k\<lparr>is_masks := is_masks k AND NOT ACCEPT_PENDING\<rparr>) st6 = Some st7" "fine st6 st7"
            using upd_state_fine [OF fine_ok [OF f6(1)] f6(2), of "\<lambda>k. k\<lparr>is_masks := is_masks k AND NOT ACCEPT_PENDING\<rparr>"] by auto
          obtain st8 where 8: "upd_state y (\<lambda>k. k\<lparr>is_masks := 0\<rparr>) st7 = Some st8" "fine st7 st8"
            using upd_state_fine [OF fine_ok [OF 7(2)] fine_live [OF 7(2) f6(3)], of "\<lambda>k. k\<lparr>is_masks := 0\<rparr>"] by auto
          have f8: "fine st st8" by (rule fine_trans [OF f6(1) fine_trans [OF 7(2) 8(2)]])
          obtain w st9 where 9: "FDAPI_close a st8 = Some (w, st9)" "good {a} st8 st9" using FDAPI_close_good [OF fine_ok [OF f8]] by blast
          have R: "WSIOCP_QueueAccept listenfd st = Some (-1, st9)" unfolding Q if_not_P [OF False] st6_def [symmetric] by (simp add: 7(1) 8(1) 9(1))
          have n: "a \<notin> in_use (fd_map st1)"
          proof -
            define s where "s = fd_answer st1 (FSocket # fd_calls st1)"
            have r: "rfd_ok (fd_map st1)" using fine_ok [OF f1] by (simp add: fd_ok_def)
            have "s \<noteq> INVALID_SOCKET" "\<exists>m. addSocket s (fd_map st1) = (a, m)"
              using 2 a by (auto simp: FDAPI_socket_def ask_def Let_def s_def split: if_splits prod.splits)
            then show ?thesis using addSocket_ok [OF r] a by metis
          qed
          have f56: "fine st5 st6" using fine_ok [OF F] by (simp add: st6_def)
          have "fine st1 st8" by (rule fine_trans [OF f2 fine_trans [OF f3 fine_trans [OF 4(2) fine_trans [OF f5
              fine_trans [OF f56 fine_trans [OF 7(2) 8(2)]]]]]])
          then have k: "stays {} (fd_map st) (fd_map st1)" "stays {} (fd_map st1) (fd_map st8)"
            using f1 by (simp_all add: fine_def good_def)
          have "stays {a} (fd_map st1) (fd_map st9)" using stays_trans stays_mono [OF k(2)] 9(2) unfolding good_def by blast
          then have "stays {} (fd_map st1) (fd_map st9)" using n by (auto simp: stays_def)
          then have "good {} st st9" using stays_trans [OF k(1)] 9(2) by (simp add: good_def)
          then show ?thesis using R by simp
        qed
      qed
    qed
  qed
qed

lemma fine_works: "\<exists>v st'. r = Some (v, st') \<and> fine st st' \<Longrightarrow> works R st r"
  using fine_good by blast

lemma works_mono: "works {} st r \<Longrightarrow> works R st r"
  unfolding good_def using stays_mono by blast

lemma WSIOCP_Listen_works:
  assumes "fd_ok st"
  shows "works {} st (WSIOCP_Listen rfd backlog st)"
proof -
  obtain p st1 where 1: "WSIOCP_GetSocketState rfd st = (p, st1)" by (metis surj_pair)
  have f1: "fine st st1" by (rule GetSocketState_fine(1) [OF assms 1])
  show ?thesis
  proof (cases p)
    case None
    then show ?thesis using f1 by (auto simp: WSIOCP_Listen_def 1 intro: fine_good)
  next
    case (Some x)
    have lx: "fd_heap st1 x \<noteq> None" using GetSocketState_fine(2) [OF assms 1 Some] .
    obtain v st2 where 2: "WSIOCP_SocketAttach rfd (Some x) st1 = Some (v, st2)" "fine st1 st2"
      using WSIOCP_SocketAttach_fine [OF fine_ok [OF f1], of "Some x" rfd] lx by auto
    have f2: "fine st st2" by (rule fine_trans [OF f1 2(2)])
    show ?thesis
    proof (cases "v = 0")
      case False
      then show ?thesis using f2 by (auto simp: WSIOCP_Listen_def 1 Some 2(1) intro: fine_good)
    next
      case True
      have L: "WSIOCP_Listen rfd backlog st = do {
            st \<leftarrow> upd_state x (\<lambda>k. k\<lparr>is_masks := is_masks k OR LISTEN_SOCK\<rparr>) st2;
            (case FDAPI_listen rfd backlog st of (v, st) \<Rightarrow>
               if v \<noteq> 0 then Some (SOCKET_ERROR, st)
               else do { (v, st) \<leftarrow> WSIOCP_QueueAccept rfd st; Some (if v \<noteq> 0 then SOCKET_ERROR else 0, st) }) }"
        using True by (simp add: WSIOCP_Listen_def 1 Some 2(1))
      show ?thesis unfolding L
      proof (rule upd_works [OF f2 fine_live [OF 2(2) lx]])
        fix st3
        assume f3: "fine st2 st3"
        obtain w st4 where 4: "FDAPI_listen rfd backlog st3 = (w, st4)" by (metis surj_pair)
        have f4: "fine st3 st4" by (rule passing_fine(7) [OF fine_ok [OF f3] 4])
        obtain u st5 where 5: "WSIOCP_QueueAccept rfd st4 = Some (u, st5)" "good {} st4 st5"
          using WSIOCP_QueueAccept_works [OF fine_ok [OF f4]] by blast
        have "good {} st3 st5" by (rule good_trans [OF fine_good [OF f4] 5(2)])
        then show "works {} st3 (case FDAPI_listen rfd backlog st3 of (v, st) \<Rightarrow>
               if v \<noteq> 0 then Some (SOCKET_ERROR, st)
               else do { (v, st) \<leftarrow> WSIOCP_QueueAccept rfd st; Some (if v \<noteq> 0 then SOCKET_ERROR else 0, st) })"
          using fine_good [OF f4] by (simp add: 4 5(1))
      qed simp
    qed
  qed
qed

lemma WSIOCP_Accept_works:
  assumes "fd_ok st"
  shows "works {} st (WSIOCP_Accept fd len st)"
proof -
  obtain p st1 where 1: "WSIOCP_GetSocketState fd st = (p, st1)" by (metis surj_pair)
  have f1: "fine st st1" by (rule GetSocketState_fine(1) [OF assms 1])
  show ?thesis
  proof (cases p)
    case None
    then show ?thesis using f1 by (auto simp: WSIOCP_Accept_def 1 intro: fine_good)
  next
    case (Some x)
    obtain k where k: "fd_heap st1 x = Some k" using GetSocketState_fine(2) [OF assms 1 Some] by auto
    show ?thesis
    proof (cases "is_reqs k")
      case Nil
      then show ?thesis using f1 by (auto simp: WSIOCP_Accept_def 1 Some k intro: fine_good)
    next
      case (Cons a rest)
      define rem where "rem = (\<lambda>st. case FDAPI_UpdateAcceptContext a st of (v, st) \<Rightarrow>
                  if v = SOCKET_ERROR then Some ((SOCKET_ERROR, len), st\<lparr>fd_errno := last_error st\<rparr>)
                  else (case FDAPI_GetAcceptExSockaddrs a st of (remotelen, st) \<Rightarrow> do {
                      let len = (case len of None \<Rightarrow> None | Some l \<Rightarrow> Some (if remotelen > 0 then (if remotelen < l then remotelen else l) else 0));
                      (_, st) \<leftarrow> WSIOCP_SocketAttach a None st;
                      (v, st) \<leftarrow> WSIOCP_QueueAccept fd st;
                      Some ((if v = -1 then SOCKET_ERROR else a, len), st)
                    }))"
      have A: "WSIOCP_Accept fd len st = Option.bind (upd_state x (\<lambda>k. k\<lparr>is_reqs := rest\<rparr>) st1) rem"
        by (simp add: WSIOCP_Accept_def 1 Some k Cons rem_def)
      show ?thesis unfolding A
      proof (rule upd_works [OF f1])
        show "fd_heap st1 x \<noteq> None" using k by simp
        fix st2
        assume f2: "fine st1 st2"
        obtain v st3 where 3: "FDAPI_UpdateAcceptContext a st2 = (v, st3)" by (metis surj_pair)
        have f3: "fine st2 st3" by (rule passing_fine(11) [OF fine_ok [OF f2] 3])
        show "works {} st2 (rem st2)"
        proof (cases "v = SOCKET_ERROR")
          case True
          then show ?thesis using f3 by (auto simp: rem_def 3 intro: fine_good)
        next
          case False
          obtain l st4 where 4: "FDAPI_GetAcceptExSockaddrs a st3 = (l, st4)" by (metis surj_pair)
          have f4: "fine st3 st4" by (rule passing_fine(17) [OF fine_ok [OF f3] 4])
          obtain w st5 where 5: "WSIOCP_SocketAttach a None st4 = Some (w, st5)" "fine st4 st5"
            using WSIOCP_SocketAttach_fine [OF fine_ok [OF f4], of None a] by auto
          obtain u st6 where 6: "WSIOCP_QueueAccept fd st5 = Some (u, st6)" "good {} st5 st6"
            using WSIOCP_QueueAccept_works [OF fine_ok [OF 5(2)]] by blast
          have "good {} st2 st6"
            by (rule good_trans [OF fine_good [OF fine_trans [OF f3 fine_trans [OF f4 5(2)]]] 6(2)])
          then show ?thesis using False by (simp add: rem_def 3 4 5(1) 6(1) Let_def)
        qed
      qed simp
    qed
  qed
qed

lemma WSIOCP_QueueNextRead_works:
  assumes "fd_ok st"
  shows "works {} st (WSIOCP_QueueNextRead fd st)"
proof -
  obtain p st1 where 1: "WSIOCP_GetSocketState fd st = (p, st1)" by (metis surj_pair)
  have f1: "fine st st1" by (rule GetSocketState_fine(1) [OF assms 1])
  show ?thesis
  proof (cases p)
    case None
    then show ?thesis using f1 by (auto simp: WSIOCP_QueueNextRead_def 1 intro: fine_good)
  next
    case (Some x)
    obtain k where k: "fd_heap st1 x = Some k" using GetSocketState_fine(2) [OF assms 1 Some] by auto
    show ?thesis
    proof (cases "is_masks k AND SOCKET_ATTACHED = 0")
      case True
      then show ?thesis using f1 by (auto simp: WSIOCP_QueueNextRead_def 1 Some k intro: fine_good)
    next
      case False
      obtain v st2 where 2: "FDAPI_WSARecv fd st1 = (v, st2)" by (metis surj_pair)
      have f2: "fine st1 st2" by (rule passing_fine(12) [OF fine_ok [OF f1] 2])
      have F: "fine st st2" by (rule fine_trans [OF f1 f2])
      have l: "fd_heap st2 x \<noteq> None" by (rule fine_live [OF f2]) (simp add: k)
      have Q: "WSIOCP_QueueNextRead fd st = (if v = 0 \<or> last_error st2 = ERROR_IO_PENDING
          then Option.bind (upd_state x (\<lambda>k. k\<lparr>is_masks := is_masks k OR READ_QUEUED\<rparr>) st2) (\<lambda>st. Some (0, st))
          else Option.bind (upd_state x (\<lambda>k. k\<lparr>is_masks := is_masks k AND NOT READ_QUEUED\<rparr>) (st2\<lparr>fd_errno := last_error st2\<rparr>)) (\<lambda>st. Some (-1, st)))"
        using False by (simp add: WSIOCP_QueueNextRead_def 1 Some k 2)
      show ?thesis
      proof (cases "v = 0 \<or> last_error st2 = ERROR_IO_PENDING")
        case True
        show ?thesis unfolding Q if_P [OF True] by (rule upd_works [OF F l]) (simp_all add: good_def fine_def)
      next
        case False
        show ?thesis unfolding Q if_not_P [OF False] by (rule upd_works) (use F l in \<open>simp_all add: good_def fine_def\<close>)
      qed
    qed
  qed
qed

lemma send_waited_works:
  assumes "fd_ok st1" "\<And>x. p = Some x \<Longrightarrow> fd_heap st1 x \<noteq> None"
  shows "works {} st1 (send_waited p fd buf cl d proc st1)"
proof -
  obtain b where b: "(case p of None \<Rightarrow> Some False | Some p \<Rightarrow> do { k \<leftarrow> fd_heap st1 p; Some (is_masks k AND SOCKET_ATTACHED \<noteq> 0) }) = Some b"
    "b \<Longrightarrow> p \<noteq> None"
  proof (cases p)
    case None
    then show ?thesis using that [of False] by simp
  next
    case (Some x)
    then obtain k where k: "fd_heap st1 x = Some k" using assms(2) [OF Some] by auto
    show ?thesis using that [of "is_masks k AND SOCKET_ATTACHED \<noteq> 0"] Some k by simp
  qed
  show ?thesis
  proof (cases "b \<and> proc")
    case False
    obtain v st2 where 2: "FDAPI_write fd buf st1 = (v, st2)" by (metis surj_pair)
    have "fine st1 st2" by (rule passing_fine(2) [OF assms(1) 2])
    then show ?thesis using False unfolding send_waited_def b(1) by (auto simp: 2 intro: fine_good)
  next
    case True
    then obtain x where x: "p = Some x" using b(2) by auto
    obtain v st2 where 2: "FDAPI_WSASend fd buf st1 = (v, st2)" by (metis surj_pair)
    have F: "fine st1 st2" by (rule passing_fine(13) [OF assms(1) 2])
    have l: "fd_heap st2 x \<noteq> None" by (rule fine_live [OF F assms(2) [OF x]])
    define g where "g = (\<lambda>k :: iocpSockState. k\<lparr>is_wreqs := is_wreqs k + 1, is_wreqlist := is_wreqlist k @ [\<lparr>sr_client = cl, sr_data = d, sr_buf = buf\<rparr>]\<rparr>)"
    have S: "send_waited p fd buf cl d proc st1 = (if v = 0 \<or> last_error st2 = ERROR_IO_PENDING
        then Option.bind (upd_state x g (st2\<lparr>fd_errno := ERROR_IO_PENDING\<rparr>)) (\<lambda>st. Some (SOCKET_ERROR, st))
        else Some (fails SOCKET_ERROR (last_error st2) st2))"
      unfolding send_waited_def b(1) using True by (simp add: 2 x g_def)
    show ?thesis
    proof (cases "v = 0 \<or> last_error st2 = ERROR_IO_PENDING")
      case True
      show ?thesis unfolding S if_P [OF True] by (rule upd_works) (use F l in \<open>simp_all add: g_def good_def fine_def\<close>)
    next
      case False
      show ?thesis unfolding S if_not_P [OF False] using F by (auto intro: fine_good)
    qed
  qed
qed

lemma WSIOCP_SocketSend_works:
  assumes "fd_ok st"
  shows "works {} st (WSIOCP_SocketSend fd buf cl d proc st)"
proof -
  obtain p st1 where 1: "WSIOCP_GetSocketState fd st = (p, st1)" by (metis surj_pair)
  have f1: "fine st st1" by (rule GetSocketState_fine(1) [OF assms 1])
  have l: "fd_heap st1 x \<noteq> None" if "p = Some x" for x by (rule GetSocketState_fine(2) [OF assms 1 that])
  have w: "fine st1 (snd (ask (FWait fd) st1))"
    using fine_ok [OF f1] by (simp add: ask_def Let_def fine_def good_def)
  obtain st2 where 2: "wait_connected p fd st1 = Some st2" "fine st1 st2"
  proof (cases p)
    case None
    then show ?thesis using that [of st1] fine_ok [OF f1] by (simp add: wait_connected_def)
  next
    case (Some x)
    then obtain k where "fd_heap st1 x = Some k" using l by auto
    then show ?thesis using that w fine_ok [OF f1] Some by (cases "is_masks k AND CONNECT_PENDING = 0") (simp_all add: wait_connected_def)
  qed
  have "works {} st2 (send_waited p fd buf cl d proc st2)"
    by (rule send_waited_works [OF fine_ok [OF 2(2)]]) (use fine_live [OF 2(2)] l in blast)
  then have "works {} st (send_waited p fd buf cl d proc st2)" by (rule works_after [OF fine_trans [OF f1 2(2)]])
  then show ?thesis unfolding WSIOCP_SocketSend_def by (simp add: 1 2(1))
qed

lemma connect_ex_works:
  assumes "fine st st1" "fd_heap st1 p \<noteq> None"
  shows "works {} st (connect_ex fd p family addr st1)"
proof (cases "family = AF_INET \<or> family = AF_INET6")
  case False
  then show ?thesis using assms(1) by (auto simp: connect_ex_def intro: fine_good)
next
  case True
  define n :: nat where "n = (if family = AF_INET then 16 else 28)"
  obtain b st2 where 2: "FDAPI_bind fd st1 = (b, st2)" by (metis surj_pair)
  have f2: "fine st1 st2" by (rule passing_fine(8) [OF fine_ok [OF assms(1)] 2])
  obtain v st3 where 3: "FDAPI_ConnectEx fd addr n st2 = (v, st3)" by (metis surj_pair)
  have f3: "fine st2 st3" by (rule passing_fine(16) [OF fine_ok [OF f2] 3])
  have F: "fine st st3" by (rule fine_trans [OF assms(1) fine_trans [OF f2 f3]])
  have l: "fd_heap st3 p \<noteq> None" by (rule fine_live [OF f3 fine_live [OF f2 assms(2)]])
  have C: "connect_ex fd p family addr st1 = (if v \<noteq> 1 then
        if last_error st3 = ERROR_IO_PENDING
        then Option.bind (upd_state p (\<lambda>k. k\<lparr>is_masks := is_masks k OR CONNECT_PENDING\<rparr>) (st3\<lparr>fd_errno := ERROR_IO_PENDING\<rparr>)) (\<lambda>st. Some (0, st))
        else Some (fails SOCKET_ERROR (last_error st3) st3)
      else Some (0, st3))"
    unfolding connect_ex_def if_P [OF True] n_def [symmetric] by (simp add: 2 3)
  show ?thesis
  proof (cases "v \<noteq> 1 \<and> last_error st3 = ERROR_IO_PENDING")
    case True
    have "works {} st (Option.bind (upd_state p (\<lambda>k. k\<lparr>is_masks := is_masks k OR CONNECT_PENDING\<rparr>) (st3\<lparr>fd_errno := ERROR_IO_PENDING\<rparr>)) (\<lambda>st. Some (0 :: int, st)))"
      by (rule upd_works) (use F l in \<open>simp_all add: good_def fine_def\<close>)
    then show ?thesis unfolding C using True by simp
  next
    case False
    then show ?thesis unfolding C using F by (auto intro: fine_good)
  qed
qed

lemma WSIOCP_SocketConnect_works:
  assumes "fd_ok st"
  shows "works {} st (WSIOCP_SocketConnect fd family addr st)" "works {} st (WSIOCP_SocketConnectBind fd family addr src st)"
proof -
  show "works {} st (WSIOCP_SocketConnect fd family addr st)"
  proof -
    obtain p st1 where 1: "WSIOCP_GetSocketState fd st = (p, st1)" by (metis surj_pair)
    have f1: "fine st st1" by (rule GetSocketState_fine(1) [OF assms 1])
    show ?thesis
    proof (cases p)
      case None
      then show ?thesis using f1 by (auto simp: WSIOCP_SocketConnect_def 1 intro: fine_good)
    next
      case (Some x)
      have lx: "fd_heap st1 x \<noteq> None" using GetSocketState_fine(2) [OF assms 1 Some] .
      obtain v st2 where 2: "WSIOCP_SocketAttach fd (Some x) st1 = Some (v, st2)" "fine st1 st2"
        using WSIOCP_SocketAttach_fine [OF fine_ok [OF f1], of "Some x" fd] lx by auto
      have f2: "fine st st2" by (rule fine_trans [OF f1 2(2)])
      show ?thesis
        using connect_ex_works [OF f2 fine_live [OF 2(2) lx], of fd family addr] fine_good [OF f2]
        by (cases "v = 0") (simp_all add: WSIOCP_SocketConnect_def 1 Some 2(1))
    qed
  qed
  moreover have "WSIOCP_SocketConnectBind fd family addr src st = WSIOCP_SocketConnect fd family addr st"
    by (simp add: WSIOCP_SocketConnect_def WSIOCP_SocketConnectBind_def)
  ultimately show "works {} st (WSIOCP_SocketConnectBind fd family addr src st)" by simp
qed

section \<open>States that are closed by hand\<close>

text \<open>
  \<open>WSIOCP_CloseSocketState\<close> is exported for the event library, which holds on to states of sockets that
  have been closed while requests were under way. It may free the state, but does not touch the tables:
  a number that still holds the state has to be cleared by \<open>FDAPI_ClearSocketInfo\<close>, which does so only
  for a closed socket. So the library may close a state that no number holds, or one whose number has
  a closed socket, and clears the number when the state was freed.
\<close>

definition close_state :: "nat \<Rightarrow> fdapi \<Rightarrow> (int \<times> fdapi) option" where
  \<comment> \<open>a call that the library may make; for a dangling state or that of an open socket it makes none\<close>
  "close_state p st =
     (case fd_heap st p of
        None \<Rightarrow> Some (0, st)
      | Some k \<Rightarrow>
          (case lookupSocketInfo (is_fd k) (fd_map st) of
             Some i \<Rightarrow>
               if si_state i = Some p then
                 (if si_socket i = INVALID_SOCKET then do {
                    (closed, st) \<leftarrow> WSIOCP_CloseSocketState p st;
                    Some (of_bool closed, if closed then FDAPI_ClearSocketInfo (is_fd k) st else st)
                  } else Some (0, st))
               else map_option (\<lambda>(closed, st). (of_bool closed, st)) (WSIOCP_CloseSocketState p st)
           | None \<Rightarrow> map_option (\<lambda>(closed, st). (of_bool closed, st)) (WSIOCP_CloseSocketState p st)))"

definition held_closed :: "nat \<Rightarrow> RFDMap \<Rightarrow> RFD set" where
  \<comment> \<open>the numbers of closed sockets that hold the state\<close>
  "held_closed p m = {r. \<exists>i. RFDToSocketInfoMap m r = Some i \<and> si_state i = Some p \<and> si_socket i = INVALID_SOCKET}"

lemma freed_ok:
  assumes "states_ok st" "\<And>r i. RFDToSocketInfoMap m r = Some i \<Longrightarrow> RFDToSocketInfoMap (fd_map st) r = Some i \<and> si_state i \<noteq> Some p"
  shows "states_ok (st\<lparr>fd_heap := (fd_heap st)(p := None), fd_map := m\<rparr>)"
proof -
  have "\<exists>k. ((fd_heap st)(p := None)) q = Some k \<and> is_fd k = r" if "RFDToSocketInfoMap m r = Some i" "si_state i = Some q" for r i q
  proof -
    have "RFDToSocketInfoMap (fd_map st) r = Some i" "q \<noteq> p" using assms(2) [OF that(1)] that(2) by auto
    then show ?thesis using assms(1) that(2) by (simp add: states_ok_def)
  qed
  then show ?thesis using assms(1) by (simp add: states_ok_def)
qed

lemma close_state_good:
  assumes "fd_ok st"
  shows "\<exists>v st'. close_state p st = Some (v, st') \<and> good (held_closed p (fd_map st)) st st'"
proof (cases "fd_heap st p")
  case None
  then show ?thesis using assms by (simp add: close_state_def fine_good)
next
  case (Some k)
  define r where "r = is_fd k"
  have so: "states_ok st" and ro: "rfd_ok (fd_map st)" using assms by (simp_all add: fd_ok_def)
  have holder: "q = r" if "RFDToSocketInfoMap (fd_map st) q = Some i" "si_state i = Some p" for q i
  proof -
    have "\<exists>k. fd_heap st p = Some k \<and> is_fd k = q" using so that unfolding states_ok_def by blast
    then show ?thesis using Some by (simp add: r_def)
  qed
  have pf: "p < fd_fresh st" using so Some unfolding states_ok_def by (metis linorder_not_less option.distinct(1))
  have kept: "good R st (st\<lparr>fd_heap := (fd_heap st)(p \<mapsto> k')\<rparr>)" if "is_fd k' = is_fd k" for k' R
  proof -
    have "states_ok (st\<lparr>fd_heap := (fd_heap st)(p \<mapsto> k')\<rparr>)" using so that pf holder by (auto simp: states_ok_def r_def)
    then show ?thesis using ro by (simp add: good_def fd_ok_def)
  qed
  consider (held) i where "RFDToSocketInfoMap (fd_map st) r = Some i" "si_state i = Some p"
    | (free) "\<And>i. RFDToSocketInfoMap (fd_map st) r = Some i \<Longrightarrow> si_state i \<noteq> Some p" by blast
  then show ?thesis
  proof cases
    case (held i)
    show ?thesis
    proof (cases "si_socket i = INVALID_SOCKET")
      case False
      then show ?thesis using held Some assms by (simp add: close_state_def lookupSocketInfo_def r_def fine_good)
    next
      case True
      define m where "m = removeRFDToSocketInfo r (fd_map st)"
      define st1 where "st1 = st\<lparr>fd_heap := (fd_heap st)(p := None)\<rparr>"
      have c: "FDAPI_ClearSocketInfo r st1 = st1\<lparr>fd_map := m\<rparr>"
        using held(1) True by (simp add: FDAPI_ClearSocketInfo_def lookupSocketInfo_def st1_def m_def)
      have "RFDToSocketInfoMap (fd_map st) q = Some j \<and> si_state j \<noteq> Some p" if "RFDToSocketInfoMap m q = Some j" for q j
        using that holder [of q j] by (auto simp: m_def removeRFDToSocketInfo_def split: if_splits)
      from freed_ok [OF so this] have "states_ok (st1\<lparr>fd_map := m\<rparr>)" by (simp add: st1_def)
      moreover have "stays (held_closed p (fd_map st)) (fd_map st) m"
        using held True by (auto simp: stays_def m_def removeRFDToSocketInfo_def held_closed_def)
      moreover have "rfd_ok m" using cleared_ok [OF ro held(1) True] by (simp add: m_def)
      ultimately have "good (held_closed p (fd_map st)) st (st1\<lparr>fd_map := m\<rparr>)" by (simp add: good_def fd_ok_def st1_def)
      moreover have "close_state p st = do { (closed, st) \<leftarrow> WSIOCP_CloseSocketState p st;
          Some (of_bool closed, if closed then FDAPI_ClearSocketInfo r st else st) }"
        using held True Some unfolding r_def by (simp add: close_state_def lookupSocketInfo_def)
      moreover note CloseSocketState_cases [OF Some]
      ultimately show ?thesis using c kept unfolding st1_def by (elim disjE exE conjE) simp_all
    qed
  next
    case free
    have n: "close_state p st = map_option (\<lambda>(closed, st). (of_bool closed, st)) (WSIOCP_CloseSocketState p st)"
      using free Some by (auto simp: close_state_def lookupSocketInfo_def r_def split: option.split)
    have "RFDToSocketInfoMap (fd_map st) q = Some j \<and> si_state j \<noteq> Some p" if "RFDToSocketInfoMap (fd_map st) q = Some j" for q j
      using that holder [of q j] free by blast
    from freed_ok [OF so, of "fd_map st" p, OF this] have "states_ok (st\<lparr>fd_heap := (fd_heap st)(p := None)\<rparr>)" by simp
    then have "good R st (st\<lparr>fd_heap := (fd_heap st)(p := None)\<rparr>)" for R using ro by (simp add: good_def fd_ok_def)
    then show ?thesis using CloseSocketState_cases [OF Some] kept unfolding n by (elim disjE exE conjE) simp_all
  qed
qed

text \<open>Closing the state of an open socket leaves it dangling: the next \<open>close\<close> follows it.\<close>

lemma close_of_open_state_faults:
  assumes "RFDToSocketInfoMap (fd_map st) r = Some i" "si_socket i \<noteq> INVALID_SOCKET" "si_state i = Some p" "fd_hook st"
    "WSIOCP_CloseSocketState p st = Some (True, st')"
  shows "FDAPI_close r st' = None"
proof -
  have "st' = st\<lparr>fd_heap := (fd_heap st)(p := None)\<rparr>"
    using assms(5) by (auto simp: WSIOCP_CloseSocketState_def Let_def split: option.splits if_splits)
  then show ?thesis using assms(1-4)
    by (simp add: FDAPI_close_def lookupSocketInfo_def WSIOCP_CloseSocketStateRFD_def WSIOCP_GetExistingSocketState_def
        FDAPI_GetSocketState_def WSIOCP_CloseSocketState_def set_info_def)
qed

section \<open>Any sequence of calls\<close>

datatype fd_op =
    OSocket | OWSASocket | OAccept RFD | OClose RFD | OCloseDup RFD | OClear RFD
  | OOpen | OOpenHandle | OPipe "int \<times> int" | OFileno int | OFclose int
  | ORead RFD nat | OWrite RFD string | OSetopt RFD | OGetopt RFD | OGetfl RFD | OSetfl RFD int
  | OConnect RFD string | OListen RFD int | OBind RFD | OGetsock RFD | OGetpeer RFD | OSaveAddr RFD string
  | OInit bool | OCleanup | OIocpListen RFD int | OIocpAccept RFD "int option" | OIocpRead RFD
  | OIocpSend RFD string int int bool | OIocpConnect RFD int string | OIocpConnectBind RFD int string string
  | OUpdateAccept RFD | OWSARecv RFD | OWSASend RFD string | OAttachPort RFD | OAcceptEx RFD RFD | OConnectEx RFD string nat
  | OSockaddrs RFD | OState RFD | OExistingState RFD | OAttach RFD | OQueueAccept RFD | OCloseState nat
  | OEvent nat "32 word" "int list" "32 word" "asendreq list"   \<comment> \<open>the event loop changes a state that exists\<close>

fun fd_step :: "fd_op \<Rightarrow> fdapi \<Rightarrow> (int \<times> fdapi) option" where
  "fd_step OSocket st = Some (FDAPI_socket st)"
| "fd_step OWSASocket st = Some (FDAPI_WSASocket st)"
| "fd_step (OAccept r) st = Some (FDAPI_accept r st)"
| "fd_step (OClose r) st = FDAPI_close r st"
| "fd_step (OCloseDup r) st = Some (FDAPI_CloseDuplicatedSocket r st)"
| "fd_step (OClear r) st = Some (0, FDAPI_ClearSocketInfo r st)"
| "fd_step OOpen st = Some (FDAPI_open st)"
| "fd_step OOpenHandle st = Some (FDAPI_open_osfhandle st)"
| "fd_step (OPipe pfds) st = (case FDAPI_pipe pfds st of ((v, _), st) \<Rightarrow> Some (v, st))"
| "fd_step (OFileno c) st = Some (FDAPI_fileno c st)"
| "fd_step (OFclose c) st = Some (FDAPI_fclose c st)"
| "fd_step (ORead r n) st = Some (FDAPI_read r n st)"
| "fd_step (OWrite r b) st = Some (FDAPI_write r b st)"
| "fd_step (OSetopt r) st = Some (FDAPI_setsockopt r st)"
| "fd_step (OGetopt r) st = Some (FDAPI_getsockopt r st)"
| "fd_step (OGetfl r) st = Some (FDAPI_getfl r st)"
| "fd_step (OSetfl r flags) st = Some (FDAPI_setfl r flags st)"
| "fd_step (OConnect r a) st = Some (FDAPI_connect r a st)"
| "fd_step (OListen r k) st = Some (FDAPI_listen r k st)"
| "fd_step (OBind r) st = Some (FDAPI_bind r st)"
| "fd_step (OGetsock r) st = Some (FDAPI_getsockname r st)"
| "fd_step (OGetpeer r) st = (case FDAPI_getpeername r st of ((v, _), st) \<Rightarrow> Some (v, st))"
| "fd_step (OSaveAddr r a) st = Some (0, FDAPI_SaveSocketAddrStorage r a st)"
| "fd_step (OInit i) st = Some (0, WSIOCP_Init i st)"
| "fd_step OCleanup st = Some (0, WSIOCP_Cleanup st)"
| "fd_step (OIocpListen r k) st = WSIOCP_Listen r k st"
| "fd_step (OIocpAccept r len) st = (case WSIOCP_Accept r len st of None \<Rightarrow> None | Some ((v, _), st) \<Rightarrow> Some (v, st))"
| "fd_step (OIocpRead r) st = WSIOCP_QueueNextRead r st"
| "fd_step (OIocpSend r b cl d proc) st = WSIOCP_SocketSend r b cl d proc st"
| "fd_step (OIocpConnect r f a) st = WSIOCP_SocketConnect r f a st"
| "fd_step (OIocpConnectBind r f a src) st = WSIOCP_SocketConnectBind r f a src st"
| "fd_step (OUpdateAccept r) st = Some (FDAPI_UpdateAcceptContext r st)"
| "fd_step (OWSARecv r) st = Some (FDAPI_WSARecv r st)"
| "fd_step (OWSASend r b) st = Some (FDAPI_WSASend r b st)"
| "fd_step (OAttachPort r) st = (case FDAPI_SocketAttachIOCP r st of (ok, st) \<Rightarrow> Some (of_bool ok, st))"
| "fd_step (OAcceptEx r q) st = Some (FDAPI_AcceptEx r q st)"
| "fd_step (OConnectEx r b n) st = Some (FDAPI_ConnectEx r b n st)"
| "fd_step (OSockaddrs r) st = Some (FDAPI_GetAcceptExSockaddrs r st)"
| "fd_step (OState r) st = (case WSIOCP_GetSocketState r st of (p, st) \<Rightarrow> Some (of_bool (p \<noteq> None), st))"
| "fd_step (OExistingState r) st = Some (of_bool (WSIOCP_GetExistingSocketState r st \<noteq> None), st)"
| "fd_step (OAttach r) st = WSIOCP_SocketAttach r (WSIOCP_GetExistingSocketState r st) st"
| "fd_step (OQueueAccept r) st = WSIOCP_QueueAccept r st"
| "fd_step (OCloseState p) st = close_state p st"
| "fd_step (OEvent p m rs w ws) st =
     (if fd_heap st p = None then Some (0, st)
      else map_option (\<lambda>st. (0, st)) (upd_state p (\<lambda>k. k\<lparr>is_masks := m, is_reqs := rs, is_wreqs := w, is_wreqlist := ws\<rparr>) st))"

fun fd_run :: "fd_op list \<Rightarrow> fdapi \<Rightarrow> (int list \<times> fdapi) option" where
  "fd_run [] st = Some ([], st)"
| "fd_run (op # ops) st =
     (case fd_step op st of None \<Rightarrow> None | Some (v, st) \<Rightarrow> map_option (\<lambda>(vs, st). (v # vs, st)) (fd_run ops st))"

fun closes :: "fd_op \<Rightarrow> RFDMap \<Rightarrow> RFD set" where
  \<comment> \<open>the numbers whose meaning an operation may end\<close>
  "closes (OClose r) m = {r}"
| "closes (OCloseDup r) m = {r}"
| "closes (OClear r) m = {r}"
| "closes (OFclose c) m = {r. RFDToCrtFDMap m r = Some c}"
| "closes (OCloseState p) m = held_closed p m"
| "closes _ m = {}"

lemma fine_step: "f = (v, st') \<Longrightarrow> (\<And>v st'. f = (v, st') \<Longrightarrow> fine st st') \<Longrightarrow> works R st (Some f)"
  by (auto intro: fine_good)

lemma hook_fine:
  assumes "fd_ok st"
  shows "fine st (WSIOCP_Init i st)" "fine st (WSIOCP_Cleanup st)"
  using assms by (auto simp: fine_def good_def fd_ok_def states_ok_def WSIOCP_Init_def WSIOCP_Cleanup_def)

lemma fd_step_works:
  assumes "fd_ok st"
  shows "works (closes op (fd_map st)) st (fd_step op st)"
proof (cases op)
  case OSocket
  then show ?thesis using FDAPI_socket_fine [OF assms] by (cases "FDAPI_socket st") (auto intro: fine_good)
next
  case OWSASocket
  then show ?thesis using FDAPI_WSASocket_fine [OF assms] by (cases "FDAPI_WSASocket st") (auto intro: fine_good)
next
  case (OAccept r)
  then show ?thesis using FDAPI_accept_fine [OF assms] by (cases "FDAPI_accept r st") (auto intro: fine_good)
next
  case (OClose r)
  then show ?thesis using FDAPI_close_good [OF assms] by simp
next
  case (OCloseDup r)
  then show ?thesis using FDAPI_CloseDuplicatedSocket_good [OF assms] by (cases "FDAPI_CloseDuplicatedSocket r st") auto
next
  case (OClear r)
  then show ?thesis using FDAPI_ClearSocketInfo_good [OF assms] by simp
next
  case OOpen
  then show ?thesis using crt_fine(1) [OF assms] by (cases "FDAPI_open st") (auto intro: fine_good)
next
  case OOpenHandle
  then show ?thesis using crt_fine(2) [OF assms] by (cases "FDAPI_open_osfhandle st") (auto intro: fine_good)
next
  case (OPipe pfds)
  obtain v a b st' where e: "FDAPI_pipe pfds st = ((v, a, b), st')" by (metis surj_pair)
  show ?thesis using fine_good [OF FDAPI_pipe_fine [OF assms e]] OPipe e by simp
next
  case (OFileno c)
  then show ?thesis using crt_fine(3) [OF assms] by (cases "FDAPI_fileno c st") (auto intro: fine_good)
next
  case (OFclose c)
  then show ?thesis using FDAPI_fclose_good [OF assms] by (cases "FDAPI_fclose c st") auto
next
  case (ORead r n)
  then show ?thesis using passing_fine(1) [OF assms] by (cases "FDAPI_read r n st") (auto intro: fine_good)
next
  case (OWrite r b)
  then show ?thesis using passing_fine(2) [OF assms] by (cases "FDAPI_write r b st") (auto intro: fine_good)
next
  case (OSetopt r)
  then show ?thesis using passing_fine(3) [OF assms] by (cases "FDAPI_setsockopt r st") (auto intro: fine_good)
next
  case (OGetopt r)
  then show ?thesis using passing_fine(4) [OF assms] by (cases "FDAPI_getsockopt r st") (auto intro: fine_good)
next
  case (OGetfl r)
  then show ?thesis using passing_fine(5) [OF assms] by (cases "FDAPI_getfl r st") (auto intro: fine_good)
next
  case (OSetfl r flags)
  then show ?thesis using FDAPI_setfl_fine [OF assms] by (cases "FDAPI_setfl r flags st") (auto intro: fine_good)
next
  case (OConnect r a)
  then show ?thesis using passing_fine(6) [OF assms] by (cases "FDAPI_connect r a st") (auto intro: fine_good)
next
  case (OListen r k)
  then show ?thesis using passing_fine(7) [OF assms] by (cases "FDAPI_listen r k st") (auto intro: fine_good)
next
  case (OBind r)
  then show ?thesis using passing_fine(8) [OF assms] by (cases "FDAPI_bind r st") (auto intro: fine_good)
next
  case (OGetsock r)
  then show ?thesis using passing_fine(9) [OF assms] by (cases "FDAPI_getsockname r st") (auto intro: fine_good)
next
  case (OGetpeer r)
  then show ?thesis using passing_fine(10) [OF assms] by (cases "FDAPI_getpeername r st") (auto intro: fine_good split: prod.splits)
next
  case (OSaveAddr r a)
  then show ?thesis using FDAPI_SaveSocketAddrStorage_fine [OF assms] by (auto intro: fine_good)
next
  case (OInit i)
  then show ?thesis using hook_fine [OF assms] by (auto intro: fine_good)
next
  case OCleanup
  then show ?thesis using hook_fine [OF assms] by (auto intro: fine_good)
next
  case (OIocpListen r k)
  then show ?thesis using WSIOCP_Listen_works [OF assms] by simp
next
  case (OIocpAccept r len)
  then show ?thesis using WSIOCP_Accept_works [OF assms, of r len] by (auto split: prod.splits)
next
  case (OIocpRead r)
  then show ?thesis using WSIOCP_QueueNextRead_works [OF assms] by simp
next
  case (OIocpSend r b cl d proc)
  then show ?thesis using WSIOCP_SocketSend_works [OF assms] by simp
next
  case (OIocpConnect r f a)
  then show ?thesis using WSIOCP_SocketConnect_works(1) [OF assms] by simp
next
  case (OIocpConnectBind r f a src)
  then show ?thesis using WSIOCP_SocketConnect_works(2) [OF assms] by simp
next
  case (OUpdateAccept r)
  then show ?thesis using passing_fine(11) [OF assms] by (cases "FDAPI_UpdateAcceptContext r st") (auto intro: fine_good)
next
  case (OWSARecv r)
  then show ?thesis using passing_fine(12) [OF assms] by (cases "FDAPI_WSARecv r st") (auto intro: fine_good)
next
  case (OWSASend r b)
  then show ?thesis using passing_fine(13) [OF assms] by (cases "FDAPI_WSASend r b st") (auto intro: fine_good)
next
  case (OAttachPort r)
  then show ?thesis using passing_fine(14) [OF assms] by (cases "FDAPI_SocketAttachIOCP r st") (auto intro: fine_good)
next
  case (OAcceptEx r q)
  then show ?thesis using passing_fine(15) [OF assms] by (cases "FDAPI_AcceptEx r q st") (auto intro: fine_good)
next
  case (OConnectEx r b n)
  then show ?thesis using passing_fine(16) [OF assms] by (cases "FDAPI_ConnectEx r b n st") (auto intro: fine_good)
next
  case (OSockaddrs r)
  then show ?thesis using passing_fine(17) [OF assms] by (cases "FDAPI_GetAcceptExSockaddrs r st") (auto intro: fine_good)
next
  case (OState r)
  then show ?thesis using GetSocketState_fine(1) [OF assms] by (cases "WSIOCP_GetSocketState r st") (auto intro: fine_good)
next
  case (OExistingState r)
  then show ?thesis using assms by (simp add: fine_good)
next
  case (OAttach r)
  have "fd_heap st q \<noteq> None" if "WSIOCP_GetExistingSocketState r st = Some q" for q
    using assms that by (auto simp: WSIOCP_GetExistingSocketState_def FDAPI_GetSocketState_def lookupSocketInfo_def fd_ok_def
        states_ok_def split: option.splits) fastforce
  then show ?thesis using WSIOCP_SocketAttach_fine [OF assms, of "WSIOCP_GetExistingSocketState r st" r] OAttach by (auto intro: fine_good)
next
  case (OQueueAccept r)
  then show ?thesis using WSIOCP_QueueAccept_works [OF assms] by simp
next
  case (OCloseState p)
  then show ?thesis using close_state_good [OF assms] by simp
next
  case (OEvent p m rs w ws)
  show ?thesis
  proof (cases "fd_heap st p = None")
    case True
    then show ?thesis using assms OEvent by (simp add: fine_good)
  next
    case False
    then obtain st' where "upd_state p (\<lambda>k. k\<lparr>is_masks := m, is_reqs := rs, is_wreqs := w, is_wreqlist := ws\<rparr>) st = Some st'" "fine st st'"
      using upd_state_fine [OF assms, of p "\<lambda>k. k\<lparr>is_masks := m, is_reqs := rs, is_wreqs := w, is_wreqlist := ws\<rparr>"] by auto
    then show ?thesis using False OEvent by (auto intro: fine_good)
  qed
qed

lemma fd_run_ok:
  "fd_ok st \<Longrightarrow> \<exists>vs st'. fd_run ops st = Some (vs, st') \<and> fd_ok st'"
proof (induction ops arbitrary: st)
  case (Cons op ops)
  obtain v st1 where 1: "fd_step op st = Some (v, st1)" "fd_ok st1" using fd_step_works [OF Cons.prems, of op] good_ok by blast
  then show ?case using Cons.IH [OF 1(2)] by auto
qed auto

lemma start_ok:
  assumes "fd_map st = RFDMap_new" "fd_heap st = Map.empty"
  shows "fd_ok st"
proof -
  have "RFDToSocketInfoMap RFDMap_new = Map.empty" by (simp add: RFDMap_new_def addCrtFD_def getNextRFDAvailable_def)
  then show ?thesis using new_ok assms by (simp add: fd_ok_def states_ok_def)
qed

lemma addSocket_new:
  assumes "rfd_ok (fd_map st)" "s \<noteq> INVALID_SOCKET" "on_map (addSocket s) st = (v, st')" "v \<noteq> INVALID_FD"
  shows "v \<notin> in_use (fd_map st)" "3 \<le> v" "lookupSocket v (fd_map st') = s"
proof -
  obtain m where m: "addSocket s (fd_map st) = (v, m)" "st' = st\<lparr>fd_map := m\<rparr>" using assms(3) by (auto split: prod.splits)
  have "v \<notin> in_use (fd_map st) \<and> 3 \<le> v \<and> RFDToSocketInfoMap m v = Some (new_info s)"
    using addSocket_ok [OF assms(1,2) m(1)] assms(4) by auto
  then show "v \<notin> in_use (fd_map st)" "3 \<le> v" "lookupSocket v (fd_map st') = s" using m(2) by (simp_all add: lookupSocket_def new_info_def)
qed

lemma FDAPI_socket_new:
  assumes "fd_ok st" "FDAPI_socket st = (v, st')" "v \<noteq> INVALID_FD"
  shows "v \<notin> in_use (fd_map st) \<and> 3 \<le> v \<and> lookupSocket v (fd_map st') = fd_answer st (FSocket # fd_calls st)"
proof -
  define s where "s = fd_answer st (FSocket # fd_calls st)"
  define st1 where "st1 = st\<lparr>fd_calls := FSocket # fd_calls st\<rparr>"
  have a: "ask FSocket st = (s, st1)" by (simp add: ask_def Let_def st1_def s_def)
  then have s: "s \<noteq> INVALID_SOCKET" using assms(2,3) by (auto simp: FDAPI_socket_def)
  then have "on_map (addSocket s) st1 = (v, st')" using a assms(2) by (simp add: FDAPI_socket_def)
  note m = this
  have k: "rfd_ok (fd_map st1)" using assms(1) by (simp add: fd_ok_def st1_def)
  have "fd_map st1 = fd_map st" by (simp add: st1_def)
  then show ?thesis using addSocket_new [OF k s m assms(3)] unfolding s_def [symmetric] by simp
qed

lemma FDAPI_accept_new:
  assumes "fd_ok st" "FDAPI_accept r st = (v, st')" "v \<noteq> INVALID_FD"
  shows "v \<notin> in_use (fd_map st) \<and> 3 \<le> v \<and> lookupSocket v (fd_map st') = fd_answer st (FAccept (lookupSocket r (fd_map st)) # fd_calls st)"
proof -
  define l where "l = lookupSocket r (fd_map st)"
  define s where "s = fd_answer st (FAccept l # fd_calls st)"
  define st1 where "st1 = st\<lparr>fd_calls := FAccept l # fd_calls st\<rparr>"
  have a: "ask (FAccept l) st = (s, st1)" by (simp add: ask_def Let_def st1_def s_def)
  have l: "l \<noteq> INVALID_SOCKET" using assms(2,3) by (auto simp: FDAPI_accept_def on_socket_def l_def)
  then have s: "s \<noteq> INVALID_SOCKET" using assms(2,3) a by (auto simp: FDAPI_accept_def on_socket_def Let_def l_def [symmetric] split: if_splits)
  then have "on_map (addSocket s) st1 = (v, st')" using a assms(2) l by (simp add: FDAPI_accept_def on_socket_def Let_def l_def [symmetric])
  note m = this
  have k: "rfd_ok (fd_map st1)" using assms(1) by (simp add: fd_ok_def st1_def)
  have "fd_map st1 = fd_map st" by (simp add: st1_def)
  then show ?thesis using addSocket_new [OF k s m assms(3)] unfolding s_def [symmetric] l_def [symmetric] by simp
qed

lemma one_number:
  assumes "fd_ok st" "lookupSocket r (fd_map st) = lookupSocket q (fd_map st)" "lookupSocket r (fd_map st) \<noteq> INVALID_SOCKET"
  shows "r = q"
proof -
  have so: "sockets_ok (fd_map st)" using assms(1) by (simp add: fd_ok_def rfd_ok_def)
  obtain i j where "RFDToSocketInfoMap (fd_map st) r = Some i" "RFDToSocketInfoMap (fd_map st) q = Some j" "si_socket i = si_socket j"
    "si_socket i \<noteq> INVALID_SOCKET" using assms(2,3) by (auto simp: lookupSocket_def split: option.splits)
  then have "SocketToRFDMap (fd_map st) (si_socket i) = Some r" "SocketToRFDMap (fd_map st) (si_socket i) = Some q"
    using so unfolding sockets_ok_def by metis+
  then show ?thesis by simp
qed

text \<open>
  C27: the tables of descriptors stay well-formed. After any calls, in any order and with any
  descriptors, whatever Windows, the C run-time and the event loop do, no call follows a bad pointer;
  every number given out so far, from 3 on, is in use once, for a socket or for a file, or waits once to be
  used again; the two maps of sockets are inverse to each other, and so are those of files; the
  three standard files stay; and every state that a number in use holds is live and held by no other
  number. (A number that is cleared or closed as a duplicate leaves its state, which no number holds then.)
  One call is limited: \<open>WSIOCP_CloseSocketState\<close> is made only for a live state that no number
  holds or whose number has a closed socket, and is followed by \<open>FDAPI_ClearSocketInfo\<close> when it frees.
  The limit is needed: where it frees the state of an open socket, the next \<open>close\<close> follows a bad pointer.
\<close>
theorem descriptors_stay_well_formed:
  assumes "fd_map st = RFDMap_new" "fd_heap st = Map.empty"
  shows "\<exists>vs st'. fd_run ops st = Some (vs, st') \<and> numbers_ok (fd_map st') \<and> sockets_ok (fd_map st') \<and> files_ok (fd_map st') \<and> states_ok st'
    \<and> (\<forall>r i p st2. RFDToSocketInfoMap (fd_map st') r = Some i \<and> si_socket i \<noteq> INVALID_SOCKET \<and> si_state i = Some p \<and> fd_hook st'
         \<and> WSIOCP_CloseSocketState p st' = Some (True, st2) \<longrightarrow> FDAPI_close r st2 = None)"
  using fd_run_ok [OF start_ok [OF assms]] close_of_open_state_faults unfolding fd_ok_def rfd_ok_def by blast

text \<open>
  C28: a descriptor means the same socket or file from the call that made it until it is closed.
  No call fails for want of a good pointer or changes what a number in use means, but for the numbers
  it closes; no two numbers mean one socket; and a number that \<open>FDAPI_socket\<close> or \<open>FDAPI_accept\<close>
  returns was not in use and means the new socket.
\<close>
theorem descriptors_keep_their_meaning:
  assumes "fd_ok st"
  shows "\<exists>v st'. fd_step op st = Some (v, st')
    \<and> (\<forall>r \<in> in_use (fd_map st) - closes op (fd_map st). lookupSocket r (fd_map st') = lookupSocket r (fd_map st)
        \<and> lookupCrtFD r (fd_map st') = lookupCrtFD r (fd_map st) \<and> r \<in> in_use (fd_map st'))
    \<and> (\<forall>r q. lookupSocket r (fd_map st') = lookupSocket q (fd_map st') \<and> lookupSocket r (fd_map st') \<noteq> INVALID_SOCKET \<longrightarrow> r = q)
    \<and> (op = OSocket \<and> v \<noteq> INVALID_FD \<longrightarrow> v \<notin> in_use (fd_map st) \<and> 3 \<le> v
        \<and> lookupSocket v (fd_map st') = fd_answer st (FSocket # fd_calls st))
    \<and> (\<forall>l. op = OAccept l \<and> v \<noteq> INVALID_FD \<longrightarrow> v \<notin> in_use (fd_map st) \<and> 3 \<le> v
        \<and> lookupSocket v (fd_map st') = fd_answer st (FAccept (lookupSocket l (fd_map st)) # fd_calls st))"
proof -
  obtain v st' where s: "fd_step op st = Some (v, st')" "good (closes op (fd_map st)) st st'" using fd_step_works [OF assms, of op] by blast
  have k: "map_option si_socket (RFDToSocketInfoMap (fd_map st') r) = map_option si_socket (RFDToSocketInfoMap (fd_map st) r)"
    "RFDToCrtFDMap (fd_map st') r = RFDToCrtFDMap (fd_map st) r" if "r \<in> in_use (fd_map st) - closes op (fd_map st)" for r
    using s(2) that unfolding good_def stays_def by blast+
  have L: "lookupSocket r m = (case map_option si_socket (RFDToSocketInfoMap m r) of None \<Rightarrow> INVALID_SOCKET | Some s \<Rightarrow> s)" for r m
    by (simp add: lookupSocket_def split: option.split)
  have u: "r \<in> in_use (fd_map st')" if r: "r \<in> in_use (fd_map st) - closes op (fd_map st)" for r
    using k [OF r] r by (auto simp: dom_def)
  have A: "\<forall>r \<in> in_use (fd_map st) - closes op (fd_map st). lookupSocket r (fd_map st') = lookupSocket r (fd_map st)
        \<and> lookupCrtFD r (fd_map st') = lookupCrtFD r (fd_map st) \<and> r \<in> in_use (fd_map st')"
  proof
    fix r
    assume r: "r \<in> in_use (fd_map st) - closes op (fd_map st)"
    show "lookupSocket r (fd_map st') = lookupSocket r (fd_map st) \<and> lookupCrtFD r (fd_map st') = lookupCrtFD r (fd_map st)
        \<and> r \<in> in_use (fd_map st')" using u [OF r] unfolding L lookupCrtFD_def k [OF r] by simp
  qed
  have B: "op = OSocket \<and> v \<noteq> INVALID_FD \<longrightarrow> v \<notin> in_use (fd_map st) \<and> 3 \<le> v
      \<and> lookupSocket v (fd_map st') = fd_answer st (FSocket # fd_calls st)"
    using s(1) FDAPI_socket_new [OF assms, of v st'] by auto
  have C: "\<forall>l. op = OAccept l \<and> v \<noteq> INVALID_FD \<longrightarrow> v \<notin> in_use (fd_map st) \<and> 3 \<le> v
      \<and> lookupSocket v (fd_map st') = fd_answer st (FAccept (lookupSocket l (fd_map st)) # fd_calls st)"
  proof (intro allI impI)
    fix l
    assume o: "op = OAccept l \<and> v \<noteq> INVALID_FD"
    then have "FDAPI_accept l st = (v, st')" using s(1) by simp
    from FDAPI_accept_new [OF assms this] o show "v \<notin> in_use (fd_map st) \<and> 3 \<le> v
      \<and> lookupSocket v (fd_map st') = fd_answer st (FAccept (lookupSocket l (fd_map st)) # fd_calls st)" by blast
  qed
  have D: "\<forall>r q. lookupSocket r (fd_map st') = lookupSocket q (fd_map st') \<and> lookupSocket r (fd_map st') \<noteq> INVALID_SOCKET \<longrightarrow> r = q"
    using one_number [OF good_ok [OF s(2)]] by blast
  show ?thesis
    by (rule exI [where x = v], rule exI [where x = st'], rule conjI [OF s(1) conjI [OF A conjI [OF D conjI [OF B C]]]])
qed

definition fd_start :: "int \<Rightarrow> fdapi" where
  \<comment> \<open>a fresh layer in which every call answers the same\<close>
  "fd_start n = \<lparr>fd_map = RFDMap_new, fd_errno = 0, fd_hook = False, fd_iocph = False, fd_heap = Map.empty, fd_fresh = 0, fd_calls = [],
     fd_answer = (\<lambda>_. n), fd_lasterror = (\<lambda>_. 0), fd_AE = 3\<rparr>"

theorem descriptors_stay_well_formed_witness:
  "\<exists>vs st'. fd_run [OInit True, OSocket, OIocpConnect 6 2 ''addr'', OSocket, OClose 6, OCloseState 0, OSocket] (fd_start 7) = Some (vs, st') \<and> numbers_ok (fd_map st')"
proof -
  have s: "fd_map (fd_start 7) = RFDMap_new" "fd_heap (fd_start 7) = Map.empty" by (simp_all add: fd_start_def)
  show ?thesis using descriptors_stay_well_formed [OF s, of "[OInit True, OSocket, OIocpConnect 6 2 ''addr'', OSocket, OClose 6, OCloseState 0, OSocket]"]
    by (elim exE conjE) (intro exI conjI; assumption)
qed

theorem descriptors_keep_their_meaning_witness:
  "\<exists>v st'. fd_step OSocket (fd_start 7) = Some (v, st') \<and> (v \<noteq> -1 \<longrightarrow> lookupSocket v (fd_map st') = 7)"
proof -
  have "fd_ok (fd_start 7)" by (rule start_ok) (simp_all add: fd_start_def)
  note d = descriptors_keep_their_meaning [OF this, of OSocket]
  have "fd_answer (fd_start 7) ks = 7" for ks by (simp add: fd_start_def)
  with d show ?thesis by (elim exE conjE) (intro exI conjI, assumption, metis)
qed

end
