(* ===== verification/Server.thy ===== *)
theory Server
  imports Logging Net
begin

text \<open>
  The programs: the server of \<open>SocketServerApp.cpp\<close> (the thread of a client, the thread of the work queue,
  the thread that accepts, the trial connection to Redis), the older server of \<open>ServerMain.cpp\<close> and
  the client of \<open>SocketClientApp.cpp\<close>. What \<open>recv\<close> and \<open>send\<close> give is a script; after its end the
  connection is closed. \<open>recv\<close> stores between 1 and 1024 bytes; a write behind an array is \<open>None\<close>.
\<close>

section \<open>Messages as bytes\<close>

record Message =
  operationID :: "32 word"
  message_data :: string

definition int_bytes :: "32 word \<Rightarrow> string" where
  \<comment> \<open>the memory of an \<open>int\<close>, little-endian\<close>
  "int_bytes w = map (\<lambda>i. char_of (unat (drop_bit (8 * i) w))) [0..<4]"

definition bytes_int :: "string \<Rightarrow> 32 word" where
  "bytes_int s = word_of_nat (\<Sum>i<4. of_char (s ! i) * 2 ^ (8 * i))"

definition SerializeMessage :: "Message \<Rightarrow> string" where
  "SerializeMessage m = int_bytes (operationID m) @ message_data m"

definition DeserializeMessage :: "string \<Rightarrow> Message option" where
  \<comment> \<open>fewer than four bytes are read from behind the vector\<close>
  "DeserializeMessage data = do {
     bytes \<leftarrow> read_at 0 4 data;
     Some \<lparr>operationID = bytes_int bytes, message_data = drop 4 data\<rparr>
   }"

section \<open>The server\<close>

datatype received = Received string | RecvClosed | RecvError

definition responseMessage :: string where
  "responseMessage = CHR 0xA1 # ''Mensaje recibido por el servidor!''"

record app =
  ap_queue :: "string wqueue"
  ap_sent :: "(nat \<times> string) list"
  ap_closed :: "nat list"
  ap_clients :: "32 word"

fun handle_loop :: "nat \<Rightarrow> received list \<Rightarrow> bool list \<Rightarrow> string \<Rightarrow> app \<Rightarrow> app option" where
  \<comment> \<open>the loop of \<open>HandleClient\<close>; \<open>QueueAdd\<close> makes a \<open>std::string\<close> of what stands before the first NUL\<close>
  "handle_loop s (Received d # rs) sends buffer a = do {
     buffer \<leftarrow> write_at 0 d buffer;
     buffer \<leftarrow> poke (length d) NUL buffer;
     q \<leftarrow> Queue_Add (takeWhile (\<lambda>x. x \<noteq> NUL) buffer) (ap_queue a);
     let a = a\<lparr>ap_queue := q\<rparr>;
     if sends \<noteq> [] \<and> \<not> hd sends then Some a
     else handle_loop s rs (tl sends) buffer (a\<lparr>ap_sent := ap_sent a @ [(s, responseMessage)]\<rparr>)
   }"
| "handle_loop s rs sends buffer a = Some a"

definition HandleClient :: "nat \<Rightarrow> received list \<Rightarrow> bool list \<Rightarrow> string \<Rightarrow> app \<Rightarrow> app option" where
  \<comment> \<open>with what the array of 1024 bytes holds; at the end \<open>closesocket\<close>\<close>
  "HandleClient s rs sends junk a = map_option (\<lambda>a. a\<lparr>ap_closed := ap_closed a @ [s]\<rparr>) (handle_loop s rs sends junk a)"

definition queue_round :: "app \<Rightarrow> CLogging \<Rightarrow> os \<Rightarrow> (string option \<times> app \<times> CLogging \<times> os) option" where
  \<comment> \<open>one round of \<open>m_HiloQueueMensajes\<close>, with what it prints; \<open>None\<close> there while it waits\<close>
  "queue_round a c os = do {
     (str, q) \<leftarrow> Queue_Wait (ap_queue a);
     let a = a\<lparr>ap_queue := q\<rparr>;
     (case str of
        None \<Rightarrow> Some (None, a, c, os)
      | Some str \<Rightarrow> do {
          (c, os) \<leftarrow> Log_level 0 (Some ''***************************************'') c os;
          (c, os) \<leftarrow> LogNT (Some ''Mensaje de pruebas'') c os;
          Some (Some (''Mensaje del cliente: '' @ str), a, c, os)
        })
   }"

fun accept_loop :: "nat option list \<Rightarrow> app \<Rightarrow> nat list \<times> app" where
  \<comment> \<open>the loop of \<open>_tmain\<close>, which the program does not reach: the threads it starts. \<open>None\<close> is \<open>INVALID_SOCKET\<close>\<close>
  "accept_loop [] a = ([], a)"
| "accept_loop (None # cs) a = accept_loop cs a"
| "accept_loop (Some s # cs) a = (case accept_loop cs (a\<lparr>ap_clients := ap_clients a + 1\<rparr>) of (ts, a) \<Rightarrow> (s # ts, a))"

fun print_loop :: "nat \<Rightarrow> received list \<Rightarrow> bool list \<Rightarrow> string \<Rightarrow> string list \<Rightarrow> (nat \<times> string) list \<Rightarrow> (string list \<times> (nat \<times> string) list) option" where
  \<comment> \<open>the loop of \<open>HandleClient\<close> in \<open>ServerMain.cpp\<close>: what it prints and sends\<close>
  "print_loop s (Received d # rs) sends buffer out sent = do {
     buffer \<leftarrow> write_at 0 d buffer;
     buffer \<leftarrow> poke (length d) NUL buffer;
     let out = out @ [''Mensaje del cliente: '' @ takeWhile (\<lambda>x. x \<noteq> NUL) buffer];
     if sends \<noteq> [] \<and> \<not> hd sends then Some (out, sent)
     else print_loop s rs (tl sends) buffer out (sent @ [(s, responseMessage)])
   }"
| "print_loop s rs sends buffer out sent = Some (out, sent)"

section \<open>The trial connection\<close>

definition reply_text :: "obj \<Rightarrow> mem \<Rightarrow> string option" where
  \<comment> \<open>\<open>reply->str\<close> as the program prints it; NULL cannot be printed\<close>
  "reply_text ob m =
     (case ob of
        Tag _ \<Rightarrow> None
      | Obj p \<Rightarrow> do { r \<leftarrow> m_cells m p; t \<leftarrow> rp_str r; Some (takeWhile (\<lambda>x. x \<noteq> NUL) t) })"

definition hiredisConnection :: "sys \<Rightarrow> (int \<times> string list \<times> sys) option" where
  \<comment> \<open>with the lines printed\<close>
  "hiredisConnection y = do {
     (c, y) \<leftarrow> redisConnectWithTimeout ''logstream.wasras.com'' 6379 \<lparr>tv_sec = 60, tv_usec = 0\<rparr> y;
     (case c of
        None \<Rightarrow> Some (1, [''Can't allocate Redis context''], y)
      | Some c \<Rightarrow>
          if rc_err c \<noteq> 0 then do {
            let line = ''Error: '' @ takeWhile (\<lambda>x. x \<noteq> NUL) (rc_errstr c);
            y \<leftarrow> redisFree c y;
            Some (1, [line], y)
          } else do {
            (reply, c, y) \<leftarrow> redisCommand c ''SET %s %s'' [VPtr (''Marco'' @ [NUL]), VPtr (''Testing2'' @ [NUL])] y;
            (case reply of
               None \<Rightarrow> do { y \<leftarrow> redisFree c y; Some (1, [''SET command failed''], y) }
             | Some ob \<Rightarrow> do {
                 text \<leftarrow> reply_text ob (y_mem y);
                 let set_line = ''SET: '' @ text;
                 m \<leftarrow> freeReplyObject ob (y_mem y);
                 (reply, c, y) \<leftarrow> redisCommand c ''GET %s'' [VPtr (''Marco'' @ [NUL])] (y\<lparr>y_mem := m\<rparr>);
                 ob \<leftarrow> reply;
                 p \<leftarrow> (case ob of Obj p \<Rightarrow> Some p | Tag _ \<Rightarrow> None);
                 r \<leftarrow> m_cells (y_mem y) p;
                 get_line \<leftarrow> (if rp_type r = REDIS_REPLY_STRING then do { text \<leftarrow> reply_text ob (y_mem y); Some (''GET: '' @ text) }
                             else Some ''GET command failed'');
                 m \<leftarrow> freeReplyObject ob (y_mem y);
                 y \<leftarrow> redisFree c (y\<lparr>y_mem := m\<rparr>);
                 Some (0, [set_line, get_line], y)
               })
          })
   }"

section \<open>The client\<close>

definition client_text :: "32 word \<Rightarrow> string" where
  \<comment> \<open>the text sent, with the number of the process\<close>
  "client_text pid = ''Hola desde el cliente con PID: '' @ dec_nat (unat pid) @ [CHR 0x0A]"

definition client_round :: "string \<Rightarrow> bool \<Rightarrow> received \<Rightarrow> string \<Rightarrow> (int + string) option" where
  \<comment> \<open>the body of the loop: the exit code, or what it prints. It ends with \<open>i = 0\<close>\<close>
  "client_round message sent r junk =
     (if \<not> sent then Some (Inl (-1))
      else case r of
          RecvError \<Rightarrow> Some (Inr ''Error al recibir datos del servidor'')
        | RecvClosed \<Rightarrow> Some (Inr (''Conexi'' @ [CHR 0xF3] @ ''n cerrada por el servidor''))
        | Received d \<Rightarrow> do {
            buffer \<leftarrow> write_at 0 d junk;
            buffer \<leftarrow> poke (length d) NUL buffer;
            Some (Inr (''Respuesta del servidor: '' @ takeWhile (\<lambda>x. x \<noteq> NUL) buffer))
          })"

fun client_loop :: "string \<Rightarrow> int \<Rightarrow> (bool \<times> received) list \<Rightarrow> string \<Rightarrow> (int option \<times> string list) option" where
  \<comment> \<open>the loop over \<open>i\<close>: the exit code, or \<open>None\<close> when it goes on after these rounds\<close>
  "client_loop message i [] junk = Some (if i < 100 then None else Some 0, [])"
| "client_loop message i ((sent, r) # rs) junk =
     (if i < 100 then do {
        v \<leftarrow> client_round message sent r junk;
        (case v of
           Inl ex \<Rightarrow> Some (Some ex, [message, ''Error al enviar datos al servidor''])
         | Inr text \<Rightarrow> do { (ex, out) \<leftarrow> client_loop message (0 + 1) rs junk; Some (ex, message # text # out) })
      } else Some (Some 0, []))"

section \<open>What the server does with messages\<close>

fun served :: "received list \<Rightarrow> bool list \<Rightarrow> string list" where
  \<comment> \<open>what is received before the connection ends or an answer cannot be sent\<close>
  "served (Received d # rs) sends = d # (if sends \<noteq> [] \<and> \<not> hd sends then [] else served rs (tl sends))"
| "served _ sends = []"

fun answered_count :: "received list \<Rightarrow> bool list \<Rightarrow> nat" where
  "answered_count (Received d # rs) sends = (if sends \<noteq> [] \<and> \<not> hd sends then 0 else Suc (answered_count rs (tl sends)))"
| "answered_count _ sends = 0"

lemma takeWhile_NUL: "takeWhile (\<lambda>x. x \<noteq> NUL) (d @ NUL # r) = takeWhile (\<lambda>x. x \<noteq> NUL) d"
  by (induction d) auto

lemma buffer_text:
  assumes "length buffer = 1024" "length d < 1024"
  shows "\<exists>b. write_at 0 d buffer = Some b \<and> length b = 1024 \<and> poke (length d) NUL b = Some (b[length d := NUL])
     \<and> takeWhile (\<lambda>x. x \<noteq> NUL) (b[length d := NUL]) = takeWhile (\<lambda>x. x \<noteq> NUL) d"
proof -
  define b where "b = d @ drop (length d) buffer"
  have w: "write_at 0 d buffer = Some b" "length b = 1024" using assms by (simp_all add: write_at_def b_def)
  have "drop (length d) buffer \<noteq> []" using assms by simp
  then obtain x xs where "drop (length d) buffer = x # xs" by (cases "drop (length d) buffer") auto
  then have "b[length d := NUL] = d @ NUL # xs" by (simp add: b_def list_update_append)
  then show ?thesis using w assms(2) by (simp add: poke_def takeWhile_NUL)
qed

lemma handle_loop_spec:
  "queue_of (ap_queue a) qs \<Longrightarrow> \<forall>d \<in> set (served rs sends). d \<noteq> [] \<and> length d \<le> 1024 \<Longrightarrow> length qs + length (served rs sends) \<le> SEM_MAX
   \<Longrightarrow> length buffer = 1024 \<Longrightarrow>
   (if \<exists>d \<in> set (served rs sends). length d = 1024 then handle_loop s rs sends buffer a = None
    else \<exists>q. queue_of q (qs @ map (takeWhile (\<lambda>x. x \<noteq> NUL)) (served rs sends))
      \<and> handle_loop s rs sends buffer a
        = Some (a\<lparr>ap_queue := q, ap_sent := ap_sent a @ replicate (answered_count rs sends) (s, responseMessage)\<rparr>))"
proof (induction rs arbitrary: sends buffer a qs)
  case Nil
  then show ?case by (auto intro!: exI [where x = "ap_queue a"])
next
  case (Cons r rs)
  show ?case
  proof (cases r)
    case (Received d)
    have d: "length d \<le> 1024" using Cons.prems(2) Received by simp
    show ?thesis
    proof (cases "length d = 1024")
      case True
      then have "write_at 0 d buffer = Some d" "poke (length d) NUL d = None" using Cons.prems(4) by (simp_all add: write_at_def poke_def)
      then show ?thesis using True Received by simp
    next
      case False
      then obtain b where b: "write_at 0 d buffer = Some b" "length b = 1024" "poke (length d) NUL b = Some (b[length d := NUL])"
        "takeWhile (\<lambda>x. x \<noteq> NUL) (b[length d := NUL]) = takeWhile (\<lambda>x. x \<noteq> NUL) d"
        using buffer_text [OF Cons.prems(4), of d] d by auto
      have "length qs < SEM_MAX" using Cons.prems(3) Received by simp
      then obtain q where q: "Queue_Add (takeWhile (\<lambda>x. x \<noteq> NUL) d) (ap_queue a) = Some q" "queue_of q (qs @ [takeWhile (\<lambda>x. x \<noteq> NUL) d])"
        using work.add_rep [OF Cons.prems(1)] by blast
      show ?thesis
      proof (cases "sends \<noteq> [] \<and> \<not> hd sends")
        case True
        then show ?thesis using b q False Received by (auto intro!: exI [where x = q])
      next
        case go: False
        define a1 where "a1 = a\<lparr>ap_queue := q, ap_sent := ap_sent a @ [(s, responseMessage)]\<rparr>"
        have l: "handle_loop s (r # rs) sends buffer a = handle_loop s rs (tl sends) (b[length d := NUL]) a1"
          using b q(1) go Received by (auto simp: a1_def)
        have ih: "if \<exists>d \<in> set (served rs (tl sends)). length d = 1024 then handle_loop s rs (tl sends) (b[length d := NUL]) a1 = None
            else \<exists>q'. queue_of q' ((qs @ [takeWhile (\<lambda>x. x \<noteq> NUL) d]) @ map (takeWhile (\<lambda>x. x \<noteq> NUL)) (served rs (tl sends)))
              \<and> handle_loop s rs (tl sends) (b[length d := NUL]) a1
                = Some (a1\<lparr>ap_queue := q', ap_sent := ap_sent a1 @ replicate (answered_count rs (tl sends)) (s, responseMessage)\<rparr>)"
          by (rule Cons.IH) (use Cons.prems go Received q(2) b(2) in \<open>auto simp: a1_def\<close>)
        have sv: "served (r # rs) sends = d # served rs (tl sends)" "answered_count (r # rs) sends = Suc (answered_count rs (tl sends))"
          using go Received by auto
        show ?thesis
        proof (cases "\<exists>d \<in> set (served rs (tl sends)). length d = 1024")
          case True
          then show ?thesis using ih unfolding l sv by auto
        next
          case no: False
          then obtain q' where "queue_of q' ((qs @ [takeWhile (\<lambda>x. x \<noteq> NUL) d]) @ map (takeWhile (\<lambda>x. x \<noteq> NUL)) (served rs (tl sends)))"
            "handle_loop s rs (tl sends) (b[length d := NUL]) a1
                = Some (a1\<lparr>ap_queue := q', ap_sent := ap_sent a1 @ replicate (answered_count rs (tl sends)) (s, responseMessage)\<rparr>)"
            using ih by auto
          then show ?thesis using no False unfolding l sv by (auto simp: a1_def intro!: exI [where x = q'])
        qed
      qed
    qed
  qed (use Cons.prems in \<open>auto intro!: exI [where x = "ap_queue a"]\<close>)
qed

lemma base_256:
  assumes "n < 256 ^ 4"
  shows "n mod 256 + n div 256 mod 256 * 256 + n div 65536 mod 256 * 65536 + n div 16777216 mod 256 * 16777216 = (n :: nat)"
proof -
  define a where "a = n div 256"
  define b where "b = a div 256"
  define c where "c = b div 256"
  have d: "n div 65536 = b" "n div 16777216 = c" by (simp_all add: a_def b_def c_def div_mult2_eq [symmetric])
  have "c < 256" using assms unfolding d(2) [symmetric] by (simp add: less_mult_imp_div_less)
  moreover have "n = a * 256 + n mod 256" "a = b * 256 + a mod 256" "b = c * 256 + b mod 256" unfolding a_def b_def c_def by simp_all
  ultimately show ?thesis unfolding d a_def [symmetric] by simp
qed

lemma bytes_int_bytes: "bytes_int (int_bytes w) = w"
proof -
  define n where "n = unat w"
  have i: "(of_char (int_bytes w ! i) :: nat) = n div 2 ^ (8 * i) mod 256" if "i < 4" for i
  proof -
    have "unat (drop_bit k w) = n div 2 ^ k" for k unfolding unat_drop_bit_eq n_def by (rule drop_bit_eq_div)
    then show ?thesis using that by (simp add: int_bytes_def)
  qed
  have "{..<4 :: nat} = {0, 1, 2, 3}" by auto
  then have "(\<Sum>i<4. of_char (int_bytes w ! i) * 2 ^ (8 * i)) = n mod 256 + n div 256 mod 256 * 256 + n div 65536 mod 256 * 65536 + n div 16777216 mod 256 * 16777216"
    by (simp add: i)
  also have "\<dots> = n" by (rule base_256) (use unsigned_less [of w, where ?'a = nat] in \<open>simp add: n_def\<close>)
  finally have "(\<Sum>i<4. of_char (int_bytes w ! i) * 2 ^ (8 * i)) = n" .
  then show ?thesis unfolding bytes_int_def n_def by simp
qed

text \<open>The message of the client comes out of its bytes again; the programs do not use this: the client sends the text alone.\<close>

lemma deserialize_serialize: "DeserializeMessage (SerializeMessage m) = Some m"
proof -
  have "length (int_bytes (operationID m)) = 4" by (simp add: int_bytes_def)
  then show ?thesis by (simp add: DeserializeMessage_def SerializeMessage_def read_at_def bytes_int_bytes)
qed

lemma client_never_finishes:
  assumes "\<forall>(sent, r) \<in> set rs. sent \<and> (\<forall>d. r = Received d \<longrightarrow> length d < 1024)" "i < 100" "length junk = 1024"
  shows "\<exists>out. client_loop message i rs junk = Some (None, out)"
  using assms
proof (induction rs arbitrary: i)
  case (Cons x rs)
  obtain sent r where x: "x = (sent, r)" by (cases x)
  have "\<exists>text. client_round message sent r junk = Some (Inr text)"
  proof (cases r)
    case (Received d)
    then show ?thesis using Cons.prems x buffer_text [of junk d] by (auto simp: client_round_def)
  qed (use Cons.prems x in \<open>auto simp: client_round_def\<close>)
  moreover have "\<exists>out. client_loop message 1 rs junk = Some (None, out)" by (rule Cons.IH) (use Cons.prems in auto)
  ultimately show ?case using Cons.prems x by auto
qed simp

text \<open>
  C37: a client is served in order until its connection ends. For every sequence of received pieces
  and of outcomes of \<open>send\<close>: what is received up to the end of the connection, or to the first answer
  that cannot be sent, is put into the work queue, in order, each piece as the text before its first
  NUL; each piece but the one whose answer fails is answered once; the socket is closed once; and the
  thread of the queue takes out exactly these texts in this order. The only exception is a piece that fills the buffer:
  the terminator is then written behind it.
\<close>
theorem clients_are_served_in_order:
  assumes "queue_of (ap_queue a) qs" "\<forall>d \<in> set (served rs sends). d \<noteq> [] \<and> length d \<le> 1024"
    "length qs + length (served rs sends) \<le> SEM_MAX" "length junk = 1024"
  shows "if \<exists>d \<in> set (served rs sends). length d = 1024 then HandleClient s rs sends junk a = None
    else \<exists>q q'. HandleClient s rs sends junk a
          = Some (a\<lparr>ap_queue := q, ap_sent := ap_sent a @ replicate (answered_count rs sends) (s, responseMessage), ap_closed := ap_closed a @ [s]\<rparr>)
      \<and> queue_of q (qs @ map (takeWhile (\<lambda>x. x \<noteq> NUL)) (served rs sends))
      \<and> work.take_all (length qs + length (served rs sends)) q
          = Some (map Some (qs @ map (takeWhile (\<lambda>x. x \<noteq> NUL)) (served rs sends)), q') \<and> queue_of q' []"
proof (cases "\<exists>d \<in> set (served rs sends). length d = 1024")
  case True
  then show ?thesis using handle_loop_spec [OF assms, of s] by (simp add: HandleClient_def)
next
  case False
  define ms where "ms = qs @ map (takeWhile (\<lambda>x. x \<noteq> NUL)) (served rs sends)"
  obtain q where q: "queue_of q ms" "handle_loop s rs sends junk a
      = Some (a\<lparr>ap_queue := q, ap_sent := ap_sent a @ replicate (answered_count rs sends) (s, responseMessage)\<rparr>)"
    using handle_loop_spec [OF assms, of s] unfolding if_not_P [OF False] ms_def by blast
  obtain q' where "work.take_all (length ms) q = Some (map Some (take (length ms) ms), q')" "queue_of q' (drop (length ms) ms)"
    using work.take_all_rep [OF q(1) order_refl] by blast
  then have "work.take_all (length qs + length (served rs sends)) q = Some (map Some ms, q')" "queue_of q' []" by (simp_all add: ms_def)
  then show ?thesis unfolding if_not_P [OF False] using q unfolding ms_def [symmetric]
    by (intro exI [where x = q] exI [where x = q']) (simp add: HandleClient_def)
qed

theorem clients_are_served_in_order_witness:
  "\<exists>q. HandleClient 5 [Received ''hi'', Received ''you'', RecvClosed] [] (replicate 1024 NUL)
        \<lparr>ap_queue = Queue_init, ap_sent = [], ap_closed = [], ap_clients = 1\<rparr>
      = Some \<lparr>ap_queue = q, ap_sent = [(5, responseMessage), (5, responseMessage)], ap_closed = [5], ap_clients = 1\<rparr>
    \<and> queue_of q [''hi'', ''you'']"
proof -
  define a where "a = \<lparr>ap_queue = Queue_init :: string wqueue, ap_sent = [], ap_closed = [], ap_clients = 1\<rparr>"
  have s: "served [Received ''hi'', Received ''you'', RecvClosed] [] = [''hi'', ''you'']"
    "answered_count [Received ''hi'', Received ''you'', RecvClosed] [] = 2" by (simp_all add: numeral_2_eq_2)
  have q: "queue_of (ap_queue a) []" by (simp add: a_def queue_of_def holds_init) (simp add: Queue_init_def)
  have "\<not> (\<exists>d \<in> set [''hi'', ''you'']. length d = 1024)" by simp
  moreover have "map (takeWhile (\<lambda>x. x \<noteq> NUL)) [''hi'', ''you''] = [''hi'', ''you'']" by simp
  moreover have "replicate 2 (5 :: nat, responseMessage) = [(5, responseMessage), (5, responseMessage)]" by (simp add: numeral_2_eq_2)
  ultimately show ?thesis
    using clients_are_served_in_order [OF q, of "[Received ''hi'', Received ''you'', RecvClosed]" "[]" "replicate 1024 NUL" 5]
    unfolding s by (auto simp: a_def simp del: replicate.simps)
qed

end
