(* ===== verification/Redis.thy ===== *)
theory Redis
  imports Logging Async Interfaces
begin

text \<open>
  The wrapper of hiredis in \<open>Redis.cpp\<close>: the list of sentinels that know the master (\<open>CSentinel\<close>), a
  connection that is made when it is needed (\<open>CRedis\<close>), and the pool of connections that threads share
  (\<open>CRedisPool\<close>). What is written to the log is left out. A text that does not fit its array ends the
  program, as \<open>sprintf_s\<close> and \<open>strcpy_s\<close> do: \<open>None\<close>. \<open>Connect\<close>, \<open>Authenticate\<close> and \<open>Command\<close> call each
  other; where this never ends the value is \<open>None\<close> too. The pool comes twice: its functions called by one
  thread, and the step relation \<open>pool_step\<close> of any number of threads, a step for each call of the semaphore,
  the lock and the queue. A \<open>push\<close> may throw; \<open>front\<close> and \<open>pop\<close>, in a \<open>try\<close> as well, throw nothing.
\<close>

section \<open>Sentinels\<close>

record CConnectionInformation =
  ci_Host :: string
  ci_Port :: "32 word"

definition AddSentinel :: "string \<Rightarrow> 32 word \<Rightarrow> CConnectionInformation list \<Rightarrow> CConnectionInformation list option" where
  "AddSentinel host port cs = do { h \<leftarrow> put_str 129 host; Some (cs @ [\<lparr>ci_Host = h, ci_Port = port\<rparr>]) }"

definition half_second :: timeval where
  "half_second = \<lparr>tv_sec = 0, tv_usec = 500000\<rparr>"

definition cell :: "mem \<Rightarrow> nat option \<Rightarrow> redisReply option" where
  "cell m p = Option.bind p (m_cells m)"

definition reply_at :: "mem \<Rightarrow> obj \<Rightarrow> redisReply option" where
  "reply_at m ob = (case ob of Tag _ \<Rightarrow> None | Obj p \<Rightarrow> m_cells m p)"

definition c_text :: "char list \<Rightarrow> string" where
  "c_text t = takeWhile (\<lambda>x. x \<noteq> NUL) t"

definition master_of :: "obj \<Rightarrow> mem \<Rightarrow> CConnectionInformation option option" where
  \<comment> \<open>host and port of an answer that is an array of two strings or more\<close>
  "master_of ob m = do {
     r \<leftarrow> reply_at m ob;
     if rp_type r = REDIS_REPLY_ARRAY \<and> rp_elements r > 1 then do {
       es \<leftarrow> rp_element r;
       require (1 < length es);
       e0 \<leftarrow> cell m (es ! 0);
       if rp_type e0 = REDIS_REPLY_STRING then do {
         e1 \<leftarrow> cell m (es ! 1);
         if rp_type e1 = REDIS_REPLY_STRING then do {
           t0 \<leftarrow> rp_str e0;
           t1 \<leftarrow> rp_str e1;
           host \<leftarrow> put_str 129 (c_text t0);
           port \<leftarrow> c_strtol t1;
           Some (Some \<lparr>ci_Host = host, ci_Port = word_of_int port\<rparr>)
         } else Some None
       } else Some None
     } else Some None
   }"

definition ask_sentinel :: "CConnectionInformation \<Rightarrow> sys \<Rightarrow> (CConnectionInformation option \<times> sys) option" where
  \<comment> \<open>one round of the loop; a context with an error is not freed\<close>
  "ask_sentinel ci y = do {
     (c, y) \<leftarrow> redisConnectWithTimeout (ci_Host ci) (sint (ci_Port ci)) half_second y;
     (case c of
        None \<Rightarrow> Some (None, y)
      | Some c \<Rightarrow>
          if rc_err c = REDIS_OK then do {
            (reply, c, y) \<leftarrow> redisCommand c ''sentinel get-master-addr-by-name redis02'' [] y;
            (info, y) \<leftarrow> (case reply of
                None \<Rightarrow> Some (None, y)
              | Some ob \<Rightarrow> do {
                  info \<leftarrow> master_of ob (y_mem y);
                  m \<leftarrow> freeReplyObject ob (y_mem y);
                  Some (info, y\<lparr>y_mem := m\<rparr>)
                });
            y \<leftarrow> redisFree c y;
            Some (info, y)
          } else Some (None, y))
   }"

fun GetConnectionInformation :: "CConnectionInformation list \<Rightarrow> sys \<Rightarrow> (CConnectionInformation option \<times> sys) option" where
  "GetConnectionInformation [] y = Some (None, y)"
| "GetConnectionInformation (ci # cs) y = do {
     (info, y) \<leftarrow> ask_sentinel ci y;
     (case info of Some i \<Rightarrow> Some (Some i, y) | None \<Rightarrow> GetConnectionInformation cs y)
   }"

section \<open>One connection\<close>

record pool_settings =
  ps_Sentinel :: "CConnectionInformation list"
  ps_FraudANISHA :: string
  ps_AuthenticationPassword :: string

definition SetFraudANISHA :: "string \<Rightarrow> pool_settings \<Rightarrow> pool_settings option" where
  "SetFraudANISHA sha P = do { t \<leftarrow> put_str 41 sha; Some (P\<lparr>ps_FraudANISHA := t\<rparr>) }"

definition SetAuthenticationPassword :: "string \<Rightarrow> pool_settings \<Rightarrow> pool_settings option" where
  "SetAuthenticationPassword password P = do { t \<leftarrow> put_str 129 password; Some (P\<lparr>ps_AuthenticationPassword := t\<rparr>) }"

record CRedis =
  rd_Context :: "redisContext option"
  rd_PoolObjectID :: nat
  rd_Thread :: nat

definition connected :: "CRedis \<Rightarrow> bool" where
  "connected r \<longleftrightarrow> (case rd_Context r of None \<Rightarrow> False | Some c \<Rightarrow> rc_err c = REDIS_OK)"

definition drop_failed :: "CRedis \<Rightarrow> sys \<Rightarrow> (CRedis \<times> sys) option" where
  "drop_failed r y =
     (case rd_Context r of
        None \<Rightarrow> Some (r, y)
      | Some c \<Rightarrow> if rc_err c \<noteq> REDIS_OK then do { y \<leftarrow> redisFree c y; Some (r\<lparr>rd_Context := None\<rparr>, y) } else Some (r, y))"

definition connect_master :: "pool_settings \<Rightarrow> sys \<Rightarrow> (redisContext option \<times> sys) option" where
  "connect_master P y = do {
     (info, y) \<leftarrow> GetConnectionInformation (ps_Sentinel P) y;
     (case info of
        None \<Rightarrow> Some (None, y)
      | Some i \<Rightarrow> redisConnectWithTimeout (ci_Host i) (sint (ci_Port i)) half_second y)
   }"

definition send_text :: "string \<Rightarrow> bool \<Rightarrow> CRedis \<Rightarrow> sys \<Rightarrow> (obj option \<times> CRedis \<times> sys) option" where
  \<comment> \<open>\<open>Command\<close> after \<open>Connect\<close>: the text is the format\<close>
  "send_text text ok r y =
     (if ok then do {
        c \<leftarrow> rd_Context r;
        (reply, c, y) \<leftarrow> redisCommand c text [] y;
        Some (reply, r\<lparr>rd_Context := Some c\<rparr>, y)
      } else Some (None, r, y))"

definition auth_text :: "pool_settings \<Rightarrow> string option" where
  "auth_text P = put_str (5 + 129 + 2) (''auth '' @ ps_AuthenticationPassword P)"

definition drop_reply :: "obj option \<Rightarrow> sys \<Rightarrow> sys option" where
  \<comment> \<open>the end of \<open>Authenticate\<close>, which looks at the answer for nothing\<close>
  "drop_reply reply y =
     (case reply of
        None \<Rightarrow> Some y
      | Some ob \<Rightarrow> do { r \<leftarrow> reply_at (y_mem y) ob; m \<leftarrow> freeReplyObject ob (y_mem y); Some (y\<lparr>y_mem := m\<rparr>) })"

partial_function (option) Connect :: "pool_settings \<Rightarrow> CRedis \<Rightarrow> sys \<Rightarrow> (bool \<times> CRedis \<times> sys) option" where
  \<comment> \<open>with \<open>Authenticate\<close> and its \<open>Command\<close> written out\<close>
  "Connect P r y = do {
     (r, y) \<leftarrow> drop_failed r y;
     (r, y) \<leftarrow> (case rd_Context r of
         Some c \<Rightarrow> Some (r, y)
       | None \<Rightarrow> do {
           (c, y) \<leftarrow> connect_master P y;
           (case c of
              None \<Rightarrow> Some (r, y)
            | Some c \<Rightarrow>
                if rc_err c \<noteq> REDIS_OK then Some (r\<lparr>rd_Context := Some c\<rparr>, y)
                else do {
                  (_, c, y) \<leftarrow> redisEnableKeepAlive c y;
                  text \<leftarrow> auth_text P;
                  (ok, r, y) \<leftarrow> Connect P (r\<lparr>rd_Context := Some c\<rparr>) y;
                  (reply, r, y) \<leftarrow> send_text text ok r y;
                  y \<leftarrow> drop_reply reply y;
                  Some (r, y)
                })
         });
     Some (connected r, r, y)
   }"

definition Command :: "pool_settings \<Rightarrow> string \<Rightarrow> CRedis \<Rightarrow> sys \<Rightarrow> (obj option \<times> CRedis \<times> sys) option" where
  "Command P text r y = do { (ok, r, y) \<leftarrow> Connect P r y; send_text text ok r y }"

definition Authenticate :: "pool_settings \<Rightarrow> CRedis \<Rightarrow> sys \<Rightarrow> (bool \<times> CRedis \<times> sys) option" where
  "Authenticate P r y = do {
     text \<leftarrow> auth_text P;
     (reply, r, y) \<leftarrow> Command P text r y;
     y \<leftarrow> drop_reply reply y;
     Some (True, r, y)
   }"

definition fraud_text :: "pool_settings \<Rightarrow> 32 word \<Rightarrow> string \<Rightarrow> SYSTEMTIME \<Rightarrow> string option" where
  "fraud_text P CompanyID ANI t =
     put_str 1024 (''evalsha '' @ ps_FraudANISHA P @ '' 0 '' @ dec_int (sint CompanyID) @ '':none:ANI '' @ ANI @ '' 4 ''
       @ dec_nat (unat (wYear t)) @ '','' @ dec_nat (unat (wMonth t)) @ '','' @ dec_nat (unat (wDay t)) @ '','' @ dec_nat (unat (wHour t)))"

definition FraudANI :: "pool_settings \<Rightarrow> 32 word \<Rightarrow> string \<Rightarrow> SYSTEMTIME \<Rightarrow> CRedis \<Rightarrow> sys \<Rightarrow> (int \<times> CRedis \<times> sys) option" where
  \<comment> \<open>with the time that \<open>GetSystemTime\<close> gives\<close>
  "FraudANI P CompanyID ANI t r y = do {
     text \<leftarrow> fraud_text P CompanyID ANI t;
     (reply, r, y) \<leftarrow> Command P text r y;
     (case reply of
        None \<Rightarrow> Some (0, r, y)
      | Some ob \<Rightarrow> do {
          x \<leftarrow> reply_at (y_mem y) ob;
          v \<leftarrow> (if rp_type x = REDIS_REPLY_STRING then (case rp_str x of None \<Rightarrow> Some 0 | Some s \<Rightarrow> c_strtol s) else Some 0);
          m \<leftarrow> freeReplyObject ob (y_mem y);
          Some (v, r, y\<lparr>y_mem := m\<rparr>)
        })
   }"

lemma Connect_authenticates:
  \<comment> \<open>the method as it is written, with its call of \<open>Authenticate\<close>\<close>
  "Connect P r y = do {
     (r, y) \<leftarrow> drop_failed r y;
     (r, y) \<leftarrow> (case rd_Context r of
         Some c \<Rightarrow> Some (r, y)
       | None \<Rightarrow> do {
           (c, y) \<leftarrow> connect_master P y;
           (case c of
              None \<Rightarrow> Some (r, y)
            | Some c \<Rightarrow>
                if rc_err c \<noteq> REDIS_OK then Some (r\<lparr>rd_Context := Some c\<rparr>, y)
                else do {
                  (_, c, y) \<leftarrow> redisEnableKeepAlive c y;
                  (good, r, y) \<leftarrow> Authenticate P (r\<lparr>rd_Context := Some c\<rparr>) y;
                  if good then Some (r, y) else do { c \<leftarrow> rd_Context r; y \<leftarrow> redisFree c y; Some (r\<lparr>rd_Context := None\<rparr>, y) }
                })
         });
     Some (connected r, r, y)
   }"
proof -
  have a: "do { (good, r, y) \<leftarrow> Authenticate P r1 y1;
        if good then Some (r, y) else do { c \<leftarrow> rd_Context r; y \<leftarrow> redisFree c y; Some (r\<lparr>rd_Context := None\<rparr>, y) } }
    = do { text \<leftarrow> auth_text P; (ok, r, y) \<leftarrow> Connect P r1 y1; (reply, r, y) \<leftarrow> send_text text ok r y;
        y \<leftarrow> drop_reply reply y; Some (r, y) }" for r1 y1
    by (simp add: Authenticate_def Command_def bind_assoc case_prod_beta split_def)
  show ?thesis unfolding a by (subst Connect.simps) simp
qed

lemma Connect_open: "connected r \<Longrightarrow> Connect P r y = Some (True, r, y)"
  by (subst Connect.simps) (auto simp: connected_def drop_failed_def split: option.splits)

lemma Connect_reports: "Connect P r y = Some (ok, r', y') \<Longrightarrow> ok = connected r'"
  by (subst (asm) Connect.simps) (auto simp: bind_eq_Some_conv split: prod.splits)

lemma Connect_returns:
  \<comment> \<open>one authentication and no more, where \<open>redisEnableKeepAlive\<close> leaves the context without an error\<close>
  assumes "drop_failed r y = Some (r1, y1)" "rd_Context r1 = None" "connect_master P y1 = Some (Some c, y2)" "rc_err c = REDIS_OK"
    "redisEnableKeepAlive c y2 = Some (st, c1, y3)" "rc_err c1 = REDIS_OK" "auth_text P = Some text"
  shows "Connect P r y = do {
     (reply, r, y) \<leftarrow> send_text text True (r1\<lparr>rd_Context := Some c1\<rparr>) y3;
     y \<leftarrow> drop_reply reply y;
     Some (connected r, r, y)
   }"
proof -
  have o: "connected (r1\<lparr>rd_Context := Some c1\<rparr>)" using assms(6) by (simp add: connected_def)
  show ?thesis by (subst Connect.simps) (simp add: assms Connect_open [OF o] bind_assoc case_prod_beta split_def)
qed

section \<open>The pool\<close>

record CRedisPool =
  po_queue :: "nat list"                \<comment> \<open>the \<open>std::queue\<close> of pointers\<close>
  po_sem :: nat
  po_mutex :: "(nat \<times> nat) option"      \<comment> \<open>the thread that owns the mutex and how often it has locked it\<close>
  po_store :: "nat \<Rightarrow> CRedis option"
  po_fresh :: nat
  po_al :: allocs                       \<comment> \<open>for each \<open>push\<close> to come whether it has memory\<close>

abbreviation POOL_MAX :: nat where "POOL_MAX \<equiv> 2 ^ 31 - 1"   \<comment> \<open>\<open>LONG_MAX\<close>\<close>

definition CRedisPool_new :: "allocs \<Rightarrow> CRedisPool" where
  "CRedisPool_new al = \<lparr>po_queue = [], po_sem = 0, po_mutex = None, po_store = Map.empty, po_fresh = 0, po_al = al\<rparr>"

definition CMutex_Lock :: "nat \<Rightarrow> CRedisPool \<Rightarrow> CRedisPool option" where
  \<comment> \<open>by that thread; \<open>None\<close>: it blocks\<close>
  "CMutex_Lock t p =
     (case po_mutex p of
        None \<Rightarrow> Some (p\<lparr>po_mutex := Some (t, 1)\<rparr>)
      | Some (u, k) \<Rightarrow> if u = t then Some (p\<lparr>po_mutex := Some (t, k + 1)\<rparr>) else None)"

definition CMutex_Unlock :: "nat \<Rightarrow> CRedisPool \<Rightarrow> CRedisPool" where
  \<comment> \<open>\<open>ReleaseMutex\<close> fails for a thread that is not the owner\<close>
  "CMutex_Unlock t p =
     (case po_mutex p of
        None \<Rightarrow> p
      | Some (u, k) \<Rightarrow> if u = t then p\<lparr>po_mutex := (if k = 1 then None else Some (u, k - 1))\<rparr> else p)"

definition pool_push :: "nat \<Rightarrow> CRedisPool \<Rightarrow> bool \<times> CRedisPool" where
  \<comment> \<open>with the \<open>catch\<close> around it: a \<open>push\<close> that throws leaves the queue as it was (\<open>False\<close>)\<close>
  "pool_push a p =
     (case alloc_next (po_al p) of
        (None, al) \<Rightarrow> (False, p\<lparr>po_al := al\<rparr>)
      | (Some _, al) \<Rightarrow> (True, p\<lparr>po_al := al, po_queue := po_queue p @ [a]\<rparr>))"

definition pool_front :: "CRedisPool \<Rightarrow> nat option" where
  \<comment> \<open>undefined for an empty queue\<close>
  "pool_front p = (case po_queue p of [] \<Rightarrow> None | a # as \<Rightarrow> Some a)"

definition pool_pop :: "CRedisPool \<Rightarrow> CRedisPool option" where
  \<comment> \<open>undefined for an empty queue\<close>
  "pool_pop p = (case po_queue p of [] \<Rightarrow> None | a # as \<Rightarrow> Some (p\<lparr>po_queue := as\<rparr>))"

definition pool_Post :: "CRedisPool \<Rightarrow> CRedisPool" where
  "pool_Post p = p\<lparr>po_sem := snd (ReleaseSemaphore POOL_MAX 1 (po_sem p))\<rparr>"

definition pool_Wait :: "CRedisPool \<Rightarrow> CRedisPool option" where
  \<comment> \<open>\<open>None\<close>: the thread blocks\<close>
  "pool_Wait p = map_option (\<lambda>n. p\<lparr>po_sem := n\<rparr>) (WaitForSemaphore (po_sem p))"

text \<open>The functions of the pool, called by one thread with no other thread about; \<open>None\<close>: it blocks.\<close>

definition Pool_Add :: "nat \<Rightarrow> nat \<Rightarrow> CRedisPool \<Rightarrow> CRedisPool option" where
  "Pool_Add t a p = do {
     p \<leftarrow> CMutex_Lock t p;
     let (_, p) = pool_push a p;
     let p = CMutex_Unlock t p;
     Some (pool_Post p)
   }"

definition Pool_Get :: "nat \<Rightarrow> CRedisPool \<Rightarrow> (nat option \<times> CRedisPool) option" where
  "Pool_Get t p = do {
     p \<leftarrow> pool_Wait p;
     p \<leftarrow> CMutex_Lock t p;
     (r, p) \<leftarrow> (if po_queue p \<noteq> [] then do {
                 a \<leftarrow> pool_front p;
                 p \<leftarrow> pool_pop p;
                 Some (Some a, p)
               } else Some (None, p));
     Some (r, CMutex_Unlock t p)
   }"

fun fill_loop :: "nat \<Rightarrow> nat \<Rightarrow> nat \<Rightarrow> CRedisPool \<Rightarrow> CRedisPool option" where
  \<comment> \<open>so many more objects, with the numbers from the third argument on; \<open>new\<close> has its memory\<close>
  "fill_loop t 0 i p = Some p"
| "fill_loop t (Suc k) i p = do {
     let a = po_fresh p;
     let p = p\<lparr>po_fresh := a + 1, po_store := (po_store p)(a \<mapsto> \<lparr>rd_Context = None, rd_PoolObjectID = i + 1, rd_Thread = 0\<rparr>)\<rparr>;
     p \<leftarrow> Pool_Add t a p;
     fill_loop t k (i + 1) p
   }"

definition Fill :: "nat \<Rightarrow> nat \<Rightarrow> CRedisPool \<Rightarrow> (nat \<times> CRedisPool) option" where
  "Fill t how_many p = map_option (Pair how_many) (fill_loop t how_many 0 p)"

fun empty_loop :: "nat \<Rightarrow> nat \<Rightarrow> CRedisPool \<Rightarrow> CRedisPool option" where
  \<comment> \<open>\<open>while (this->empty() == false)\<close>, so many rounds at most\<close>
  "empty_loop t 0 p = Some p"
| "empty_loop t (Suc k) p =
     (if po_queue p = [] then Some p
      else case Pool_Get t p of
          None \<Rightarrow> None
        | Some (None, p) \<Rightarrow> empty_loop t k p
        | Some (Some a, p) \<Rightarrow> empty_loop t k (p\<lparr>po_store := (po_store p)(a := None)\<rparr>))"

definition Empty :: "nat \<Rightarrow> CRedisPool \<Rightarrow> (nat \<times> CRedisPool) option" where
  "Empty t p = map_option (\<lambda>q. (length (po_queue p), q)) (empty_loop t (length (po_queue p)) p)"

definition Pool_FraudANI ::
  "pool_settings \<Rightarrow> nat \<Rightarrow> 32 word \<Rightarrow> string \<Rightarrow> SYSTEMTIME \<Rightarrow> nat \<Rightarrow> CRedisPool \<Rightarrow> sys \<Rightarrow> ((int option) \<times> CRedisPool \<times> sys) option" where
  \<comment> \<open>the result \<open>None\<close>: the thread blocks\<close>
  "Pool_FraudANI P me CompanyID ANI t thread p y =
     (case Pool_Get me p of
        None \<Rightarrow> Some (None, p, y)
      | Some (None, p) \<Rightarrow> Some (Some 0, p, y)
      | Some (Some a, p) \<Rightarrow> do {
          r \<leftarrow> po_store p a;
          (v, r, y) \<leftarrow> FraudANI P CompanyID ANI t (r\<lparr>rd_Thread := thread\<rparr>) y;
          let p = p\<lparr>po_store := (po_store p)(a \<mapsto> r)\<rparr>;
          (case Pool_Add me a p of
             None \<Rightarrow> Some (None, p, y)
           | Some p \<Rightarrow> Some (Some v, p, y))
        })"

definition pool_of :: "CRedisPool \<Rightarrow> nat list \<Rightarrow> bool" where
  "pool_of p as \<longleftrightarrow> po_queue p = as \<and> po_sem p = length as \<and> po_mutex p = None \<and> None \<notin> set (po_al p)"

lemma Pool_Add_lone:
  assumes "po_mutex p = None" "po_sem p < POOL_MAX"
  shows "\<exists>b al. Pool_Add t a p = Some (p\<lparr>po_al := al, po_queue := (if b then po_queue p @ [a] else po_queue p), po_sem := po_sem p + 1\<rparr>)
    \<and> set al \<subseteq> set (po_al p) \<and> (None \<notin> set (po_al p) \<longrightarrow> b)"
proof -
  obtain f al where f: "alloc_next (po_al p) = (f, al)" by (metis surj_pair)
  have "Pool_Add t a p = Some (p\<lparr>po_al := al, po_queue := (if f \<noteq> None then po_queue p @ [a] else po_queue p), po_sem := po_sem p + 1\<rparr>)"
    using assms f by (cases f) (simp_all add: Pool_Add_def CMutex_Lock_def CMutex_Unlock_def pool_push_def pool_Post_def ReleaseSemaphore_def)
  moreover have "f \<noteq> None" if "None \<notin> set (po_al p)" using f alloc_next_None [of "po_al p" al] that by (cases f) auto
  ultimately show ?thesis using alloc_next_set [OF f] by blast
qed

lemma Pool_Get_lone:
  assumes "po_mutex p = None"
  shows "Pool_Get t p = (if po_sem p = 0 then None
    else Some (case po_queue p of [] \<Rightarrow> (None, p\<lparr>po_sem := po_sem p - 1\<rparr>) | a # as \<Rightarrow> (Some a, p\<lparr>po_sem := po_sem p - 1, po_queue := as\<rparr>)))"
  using assms by (cases "po_queue p") (simp_all add: Pool_Get_def pool_Wait_def WaitForSemaphore_def CMutex_Lock_def CMutex_Unlock_def
      pool_front_def pool_pop_def)

interpretation pool: blocking_queue pool_of "Pool_Add t"
  "\<lambda>p. Some (case Pool_Get t p of None \<Rightarrow> (None, p) | Some r \<Rightarrow> r)" POOL_MAX for t
proof unfold_locales
  fix q xs a
  assume "pool_of q xs" "length xs < POOL_MAX"
  then show "\<exists>q'. Pool_Add t a q = Some q' \<and> pool_of q' (xs @ [a])"
    using Pool_Add_lone [of q t a] by (auto simp: pool_of_def)
qed (auto simp: pool_of_def Pool_Get_lone)

lemma fill_loop_spec:
  assumes "po_mutex p = None" "po_sem p + k \<le> POOL_MAX"
  shows "\<exists>q as. fill_loop t k i p = Some q \<and> po_queue q = po_queue p @ as \<and> distinct as \<and> set as \<subseteq> {po_fresh p ..< po_fresh p + k}
    \<and> (None \<notin> set (po_al p) \<longrightarrow> as = [po_fresh p ..< po_fresh p + k] \<and> None \<notin> set (po_al q)) \<and> po_sem q = po_sem p + k \<and> po_mutex q = None"
  using assms
proof (induction k arbitrary: i p)
  case (Suc k)
  define a where "a = po_fresh p"
  define p0 where "p0 = p\<lparr>po_fresh := a + 1, po_store := (po_store p)(a \<mapsto> \<lparr>rd_Context = None, rd_PoolObjectID = i + 1, rd_Thread = 0\<rparr>)\<rparr>"
  obtain b al where b: "Pool_Add t a p0 = Some (p0\<lparr>po_al := al, po_queue := (if b then po_queue p0 @ [a] else po_queue p0), po_sem := po_sem p0 + 1\<rparr>)"
    "set al \<subseteq> set (po_al p0)" "None \<notin> set (po_al p0) \<longrightarrow> b"
    using Pool_Add_lone [of p0 t a] Suc.prems by (auto simp: p0_def)
  define p1 where "p1 = p0\<lparr>po_al := al, po_queue := (if b then po_queue p0 @ [a] else po_queue p0), po_sem := po_sem p0 + 1\<rparr>"
  have p1: "po_fresh p1 = a + 1" "po_sem p1 = po_sem p + 1" "po_mutex p1 = None" "po_al p1 = al"
    "po_queue p1 = (if b then po_queue p @ [a] else po_queue p)" using Suc.prems(1) by (simp_all add: p1_def p0_def)
  have al: "None \<notin> set (po_al p) \<Longrightarrow> b \<and> None \<notin> set al" using b(2,3) by (auto simp: p0_def)
  obtain q as where q: "fill_loop t k (i + 1) p1 = Some q" "po_queue q = po_queue p1 @ as" "distinct as" "set as \<subseteq> {a + 1 ..< a + 1 + k}"
    "None \<notin> set al \<longrightarrow> as = [a + 1 ..< a + 1 + k] \<and> None \<notin> set (po_al q)" "po_sem q = po_sem p1 + k" "po_mutex q = None"
    using Suc.IH [of p1 "i + 1"] Suc.prems(2) p1 by auto
  have l: "fill_loop t (Suc k) i p = Some q" using b(1) q(1) unfolding p1_def [symmetric] by (simp add: p0_def a_def)
  define bs where "bs = (if b then a # as else as)"
  have "po_queue q = po_queue p @ bs" using q(2) p1(5) by (simp add: bs_def)
  moreover have "distinct bs \<and> set bs \<subseteq> {a ..< a + Suc k}" using q(3,4) by (auto simp: bs_def)
  moreover have "None \<notin> set (po_al p) \<longrightarrow> bs = [a ..< a + Suc k] \<and> None \<notin> set (po_al q)"
    using q(5) al by (auto simp: bs_def upt_conv_Cons simp del: upt_Suc)
  ultimately show ?case using l q(6,7) p1(2) unfolding a_def by (intro exI [where x = q] exI [where x = bs]) simp
qed simp

lemma fill_pool:
  assumes "None \<notin> set al" "n \<le> POOL_MAX"
  shows "\<exists>p. Fill t n (CRedisPool_new al) = Some (n, p) \<and> pool_of p [0..<n]"
  using fill_loop_spec [of "CRedisPool_new al" n t 0] assms by (auto simp: Fill_def CRedisPool_new_def pool_of_def)

lemma empty_loop_spec:
  "pool_of p as \<Longrightarrow> \<exists>q. empty_loop t (length as) p = Some q \<and> pool_of q [] \<and> (\<forall>a \<in> set as. po_store q a = None)
     \<and> (\<forall>a. po_store p a = None \<longrightarrow> po_store q a = None)"
proof (induction as arbitrary: p)
  case (Cons a as)
  define p1 where "p1 = p\<lparr>po_sem := length as, po_queue := as, po_store := (po_store p)(a := None)\<rparr>"
  have "Pool_Get t p = Some (Some a, p\<lparr>po_sem := length as, po_queue := as\<rparr>)"
    using Cons.prems by (simp add: pool_of_def Pool_Get_lone)
  then have l: "empty_loop t (length (a # as)) p = empty_loop t (length as) p1" using Cons.prems by (simp add: pool_of_def p1_def)
  have "pool_of p1 as" using Cons.prems by (simp add: pool_of_def p1_def)
  from Cons.IH [OF this] show ?case unfolding l by (auto simp: p1_def)
qed simp

text \<open>A \<open>push\<close> that throws is followed by \<open>Post\<close> all the same: the connection is lost, and \<open>Get\<close> gives NULL.\<close>

lemma thrown_push_gives_null:
  "\<exists>p q. Pool_Add t a (CRedisPool_new [None]) = Some p \<and> Pool_Get t p = Some (None, q)"
  by (simp add: Pool_Add_def CRedisPool_new_def CMutex_Lock_def pool_push_def alloc_next_def CMutex_Unlock_def pool_Post_def
      ReleaseSemaphore_def Pool_Get_def pool_Wait_def WaitForSemaphore_def)

section \<open>Threads that share the pool\<close>

datatype borrower =
    Outside
  | Asking                    \<comment> \<open>in \<open>Get\<close>, before \<open>Wait\<close>\<close>
  | Admitted                  \<comment> \<open>before \<open>Lock\<close>\<close>
  | Looking                   \<comment> \<open>before \<open>empty\<close>\<close>
  | Fronting                    \<comment> \<open>before \<open>front\<close>\<close>
  | Took nat                  \<comment> \<open>before \<open>pop\<close>\<close>
  | Unlocking "nat option"      \<comment> \<open>before \<open>Unlock\<close>, with the result\<close>
  | Holding nat               \<comment> \<open>in \<open>FraudANI\<close> of that object\<close>
  | GotNull                   \<comment> \<open>\<open>Get\<close> has given NULL\<close>
  | Giving nat                \<comment> \<open>in \<open>Add\<close>, before \<open>Lock\<close>\<close>
  | Pushing nat               \<comment> \<open>before \<open>push\<close>\<close>
  | Pushed                    \<comment> \<open>before \<open>Unlock\<close>\<close>
  | Returned                  \<comment> \<open>before \<open>Post\<close>\<close>
  | Faulted                   \<comment> \<open>\<open>front\<close> or \<open>pop\<close> of an empty queue\<close>

record pool_sys =
  pl_pool :: CRedisPool
  pl_thr :: "nat \<Rightarrow> borrower"
  pl_lost :: "nat set"        \<comment> \<open>the objects whose \<open>push\<close> has thrown\<close>

abbreviation sets_thr :: "nat \<Rightarrow> borrower \<Rightarrow> CRedisPool \<Rightarrow> pool_sys \<Rightarrow> pool_sys" where
  "sets_thr t b p s \<equiv> s\<lparr>pl_pool := p, pl_thr := (pl_thr s)(t := b)\<rparr>"

inductive pool_step :: "nat \<Rightarrow> pool_sys \<Rightarrow> pool_sys \<Rightarrow> bool" where
  ask: "pl_thr s t = Outside \<Longrightarrow> pool_step t s (sets_thr t Asking (pl_pool s) s)"
| wait: "pl_thr s t = Asking \<Longrightarrow> pool_Wait (pl_pool s) = Some p \<Longrightarrow> pool_step t s (sets_thr t Admitted p s)"
| lock_get: "pl_thr s t = Admitted \<Longrightarrow> CMutex_Lock t (pl_pool s) = Some p \<Longrightarrow> pool_step t s (sets_thr t Looking p s)"
| look: "pl_thr s t = Looking
    \<Longrightarrow> pool_step t s (sets_thr t (if po_queue (pl_pool s) \<noteq> [] then Fronting else Unlocking None) (pl_pool s) s)"
| front: "pl_thr s t = Fronting
    \<Longrightarrow> pool_step t s (sets_thr t (case pool_front (pl_pool s) of None \<Rightarrow> Faulted | Some a \<Rightarrow> Took a) (pl_pool s) s)"
| pop: "pl_thr s t = Took a \<Longrightarrow> pool_pop (pl_pool s) = Some p \<Longrightarrow> pool_step t s (sets_thr t (Unlocking (Some a)) p s)"
| pop_fault: "pl_thr s t = Took a \<Longrightarrow> pool_pop (pl_pool s) = None \<Longrightarrow> pool_step t s (sets_thr t Faulted (pl_pool s) s)"
| unlock_get: "pl_thr s t = Unlocking r
    \<Longrightarrow> pool_step t s (sets_thr t (case r of None \<Rightarrow> GotNull | Some a \<Rightarrow> Holding a) (CMutex_Unlock t (pl_pool s)) s)"
| null: "pl_thr s t = GotNull \<Longrightarrow> pool_step t s (sets_thr t Outside (pl_pool s) s)"
| use: "pl_thr s t = Holding a
    \<Longrightarrow> pool_step t s (sets_thr t (Holding a) ((pl_pool s)\<lparr>po_store := (po_store (pl_pool s))(a \<mapsto> r)\<rparr>) s)"
| give: "pl_thr s t = Holding a \<Longrightarrow> pool_step t s (sets_thr t (Giving a) (pl_pool s) s)"
| lock_add: "pl_thr s t = Giving a \<Longrightarrow> CMutex_Lock t (pl_pool s) = Some p \<Longrightarrow> pool_step t s (sets_thr t (Pushing a) p s)"
| push: "pl_thr s t = Pushing a \<Longrightarrow> pool_push a (pl_pool s) = (b, p)
    \<Longrightarrow> pool_step t s (sets_thr t Pushed p s\<lparr>pl_lost := (if b then pl_lost s else insert a (pl_lost s))\<rparr>)"
| unlock_add: "pl_thr s t = Pushed \<Longrightarrow> pool_step t s (sets_thr t Returned (CMutex_Unlock t (pl_pool s)) s)"
| post: "pl_thr s t = Returned \<Longrightarrow> pool_step t s (sets_thr t Outside (pool_Post (pl_pool s)) s)"

definition filled_pool :: "nat \<Rightarrow> CRedisPool \<Rightarrow> pool_sys" where
  "filled_pool n p = \<lparr>pl_pool = p, pl_thr = (\<lambda>_. Outside), pl_lost = {..<n} - set (po_queue p)\<rparr>"

inductive pool_reaches :: "nat \<Rightarrow> pool_sys \<Rightarrow> bool" for n where
  filled: "Fill t n (CRedisPool_new al) = Some (n, p) \<Longrightarrow> pool_reaches n (filled_pool n p)"
| step: "pool_reaches n s \<Longrightarrow> pool_step t s s' \<Longrightarrow> pool_reaches n s'"

fun carries :: "borrower \<Rightarrow> nat option" where
  \<comment> \<open>the object in the hands of a thread\<close>
  "carries (Unlocking r) = r"
| "carries (Holding a) = Some a"
| "carries (Giving a) = Some a"
| "carries (Pushing a) = Some a"
| "carries _ = None"

fun owes :: "borrower \<Rightarrow> bool" where
  \<comment> \<open>it has passed the semaphore and not yet taken, or it has given and not yet posted\<close>
  "owes Admitted = True"
| "owes Looking = True"
| "owes Fronting = True"
| "owes (Took a) = True"
| "owes Pushed = True"
| "owes Returned = True"
| "owes _ = False"

fun locked_in :: "borrower \<Rightarrow> bool" where
  "locked_in Looking = True"
| "locked_in Fronting = True"
| "locked_in (Took a) = True"
| "locked_in (Unlocking r) = True"
| "locked_in (Pushing a) = True"
| "locked_in Pushed = True"
| "locked_in _ = False"

definition held :: "(nat \<Rightarrow> borrower) \<Rightarrow> nat set" where
  "held f = {a. \<exists>t. carries (f t) = Some a}"

definition underway :: "(nat \<Rightarrow> borrower) \<Rightarrow> nat set" where
  "underway f = {t. owes (f t)}"

lemma held_keep: "carries b = carries (f t) \<Longrightarrow> held (f(t := b)) = held f"
  unfolding held_def by (rule Collect_cong) (metis fun_upd_apply)

lemma held_gain:
  assumes "carries (f t) = None" "carries b = Some a"
  shows "held (f(t := b)) = insert a (held f)"
proof -
  have "(\<exists>u. carries ((f(t := b)) u) = Some x) \<longleftrightarrow> x = a \<or> (\<exists>u. carries (f u) = Some x)" for x
    using assms by (metis fun_upd_apply option.inject option.distinct(1))
  then show ?thesis by (auto simp: held_def)
qed

lemma held_lose: "carries (f t) = Some a \<Longrightarrow> carries b = None \<Longrightarrow> held f = insert a (held (f(t := b)))"
  using held_gain [of "f(t := b)" t "f t" a] by simp

lemma underway_keep: "owes b = owes (f t) \<Longrightarrow> underway (f(t := b)) = underway f"
  unfolding underway_def by (rule Collect_cong) simp

lemma underway_gain: "\<not> owes (f t) \<Longrightarrow> owes b \<Longrightarrow> underway (f(t := b)) = insert t (underway f) \<and> t \<notin> underway f"
  by (auto simp: underway_def)

lemma underway_lose: "owes (f t) \<Longrightarrow> \<not> owes b \<Longrightarrow> underway f = insert t (underway (f(t := b))) \<and> t \<notin> underway (f(t := b))"
  by (auto simp: underway_def)

lemma mutex_steps:
  "CMutex_Lock t p = Some q \<Longrightarrow> po_mutex p = None \<or> (\<exists>k. po_mutex p = Some (t, k))"
  "CMutex_Lock t p = Some q \<Longrightarrow> po_mutex p = None \<Longrightarrow> q = p\<lparr>po_mutex := Some (t, 1)\<rparr>"
  "CMutex_Lock t p = Some q \<Longrightarrow> po_queue q = po_queue p \<and> po_sem q = po_sem p"
  "po_mutex p = Some (t, 1) \<Longrightarrow> CMutex_Unlock t p = p\<lparr>po_mutex := None\<rparr>"
  "po_queue (CMutex_Unlock t p) = po_queue p" "po_sem (CMutex_Unlock t p) = po_sem p"
  by (auto simp: CMutex_Lock_def CMutex_Unlock_def split: option.splits if_splits)

lemma pool_Wait_eq: "pool_Wait p = Some q \<Longrightarrow> q = p\<lparr>po_sem := po_sem p - 1\<rparr>"
  by (auto simp: pool_Wait_def WaitForSemaphore_def split: if_splits)

lemma pool_Wait_counts: "pool_Wait p = Some q \<Longrightarrow> po_sem p = Suc (po_sem q) \<and> po_queue q = po_queue p"
  by (auto simp: pool_Wait_def WaitForSemaphore_def split: if_splits)

lemma pool_pop_eq: "pool_pop p = Some q \<Longrightarrow> q = p\<lparr>po_queue := tl (po_queue p)\<rparr>"
  by (auto simp: pool_pop_def split: list.splits)

lemma pool_push_eq: "pool_push a p = (b, q) \<Longrightarrow> \<exists>al. q = p\<lparr>po_al := al, po_queue := (if b then po_queue p @ [a] else po_queue p)\<rparr>"
  by (auto simp: pool_push_def split: option.splits prod.splits)

lemma pool_Post_same: "po_queue (pool_Post p) = po_queue p" "po_mutex (pool_Post p) = po_mutex p"
  by (simp_all add: pool_Post_def)

lemma CMutex_Lock_eq: "CMutex_Lock t p = Some q \<Longrightarrow> \<exists>k. q = p\<lparr>po_mutex := Some (t, k)\<rparr>"
  by (auto simp: CMutex_Lock_def split: option.splits if_splits)

section \<open>What holds in every interleaving\<close>

definition mutex_inv :: "pool_sys \<Rightarrow> bool" where
  \<comment> \<open>a thread between \<open>Lock\<close> and \<open>Unlock\<close> is the owner\<close>
  "mutex_inv s \<longleftrightarrow> (\<forall>t. locked_in (pl_thr s t) \<longleftrightarrow> po_mutex (pl_pool s) = Some (t, 1))
     \<and> (\<forall>u k. po_mutex (pl_pool s) = Some (u, k) \<longrightarrow> k = 1)"

definition front_inv :: "pool_sys \<Rightarrow> bool" where
  \<comment> \<open>what a thread has seen of the queue still holds\<close>
  "front_inv s \<longleftrightarrow> (\<forall>t. pl_thr s t \<noteq> Faulted) \<and> (\<forall>t. pl_thr s t = Fronting \<longrightarrow> po_queue (pl_pool s) \<noteq> [])
     \<and> (\<forall>t a. pl_thr s t = Took a \<longrightarrow> (\<exists>as. po_queue (pl_pool s) = a # as))"

definition objects_inv :: "nat \<Rightarrow> pool_sys \<Rightarrow> bool" where
  \<comment> \<open>each object is in the queue, in the hands of one thread, or lost\<close>
  "objects_inv n s \<longleftrightarrow> distinct (po_queue (pl_pool s)) \<and> set (po_queue (pl_pool s)) \<union> held (pl_thr s) \<union> pl_lost s = {..<n}
     \<and> set (po_queue (pl_pool s)) \<inter> held (pl_thr s) = {} \<and> (set (po_queue (pl_pool s)) \<union> held (pl_thr s)) \<inter> pl_lost s = {}
     \<and> (\<forall>t u a. carries (pl_thr s t) = Some a \<and> carries (pl_thr s u) = Some a \<longrightarrow> t = u)"

definition count_inv :: "pool_sys \<Rightarrow> bool" where
  "count_inv s \<longleftrightarrow> finite (underway (pl_thr s))
     \<and> length (po_queue (pl_pool s)) \<le> po_sem (pl_pool s) + card (underway (pl_thr s))
     \<and> po_sem (pl_pool s) + card (underway (pl_thr s)) \<le> length (po_queue (pl_pool s)) + card (pl_lost s)"

definition null_inv :: "pool_sys \<Rightarrow> bool" where
  "null_inv s \<longleftrightarrow> (\<forall>t. pl_thr s t = GotNull \<or> pl_thr s t = Unlocking None \<longrightarrow> pl_lost s \<noteq> {})"

lemma mutex_inv_upd:
  assumes "mutex_inv s" "po_mutex p = po_mutex (pl_pool s)" "locked_in b = locked_in (pl_thr s t)"
  shows "mutex_inv (sets_thr t b p s)"
  using assms by (simp add: mutex_inv_def)

lemma mutex_inv_thr:
  assumes "mutex_inv s" "locked_in b = locked_in (pl_thr s t)"
  shows "mutex_inv (s\<lparr>pl_thr := (pl_thr s)(t := b)\<rparr>)"
  using mutex_inv_upd [OF assms(1) refl assms(2)] by simp

lemma mutex_inv_lock:
  assumes "mutex_inv s" "\<not> locked_in (pl_thr s t)" "locked_in b" "CMutex_Lock t (pl_pool s) = Some p"
  shows "mutex_inv (sets_thr t b p s)"
proof -
  have n: "po_mutex (pl_pool s) = None" using mutex_steps(1) [OF assms(4)] assms(1,2) unfolding mutex_inv_def by blast
  then have "\<not> locked_in (pl_thr s u)" for u using assms(1) by (simp add: mutex_inv_def)
  then show ?thesis using assms(3) mutex_steps(2) [OF assms(4) n] by (simp add: mutex_inv_def)
qed

lemma mutex_inv_unlock:
  assumes "mutex_inv s" "locked_in (pl_thr s t)" "\<not> locked_in b"
  shows "mutex_inv (sets_thr t b (CMutex_Unlock t (pl_pool s)) s)"
proof -
  have o: "po_mutex (pl_pool s) = Some (t, 1)" using assms(1,2) by (simp add: mutex_inv_def)
  then have "\<not> locked_in (pl_thr s u)" if "u \<noteq> t" for u using assms(1) that by (auto simp: mutex_inv_def)
  then show ?thesis using assms(3) mutex_steps(4) [OF o] by (simp add: mutex_inv_def)
qed

lemma front_invD:
  assumes "front_inv s"
  shows "pl_thr s t = Fronting \<Longrightarrow> \<exists>a as. po_queue (pl_pool s) = a # as" "pl_thr s t = Took a \<Longrightarrow> \<exists>as. po_queue (pl_pool s) = a # as"
  using assms by (auto simp: front_inv_def neq_Nil_conv)

lemma no_pop_fault: "front_inv s \<Longrightarrow> pl_thr s t = Took a \<Longrightarrow> pool_pop (pl_pool s) \<noteq> None"
  using front_invD(2) [of s t a] by (auto simp: pool_pop_def)

lemma mutex_inv_step:
  assumes "pool_step t s s'" "mutex_inv s" "front_inv s"
  shows "mutex_inv s'"
  using assms(1)
proof (cases rule: pool_step.cases)
  case (wait p)
  then show ?thesis using assms(2) by (auto dest!: pool_Wait_eq intro!: mutex_inv_upd)
next
  case front
  then obtain a as where "po_queue (pl_pool s) = a # as" using front_invD(1) [OF assms(3)] by blast
  then show ?thesis using front assms(2) by (simp add: pool_front_def mutex_inv_thr)
next
  case (lock_get p)
  then show ?thesis using assms(2) by (auto intro: mutex_inv_lock)
next
  case (lock_add a p)
  then show ?thesis using assms(2) by (auto intro: mutex_inv_lock)
next
  case (unlock_get r)
  then show ?thesis using assms(2) by (auto intro!: mutex_inv_unlock split: option.split)
next
  case unlock_add
  then show ?thesis using assms(2) by (auto intro: mutex_inv_unlock)
next
  case (pop a p)
  then show ?thesis using assms(2) by (auto dest!: pool_pop_eq intro!: mutex_inv_upd)
next
  case (push a b p)
  have "po_mutex p = po_mutex (pl_pool s)" using pool_push_eq [OF push(3)] by auto
  then have "mutex_inv (sets_thr t Pushed p s)" using assms(2) push(2) by (intro mutex_inv_upd) simp_all
  then show ?thesis using push(1) by (simp add: mutex_inv_def)
next
  case (pop_fault a)
  then show ?thesis using no_pop_fault [OF assms(3)] by blast
next
  case post
  then show ?thesis using assms(2) by (auto intro!: mutex_inv_upd simp: pool_Post_same)
qed (use assms(2) in \<open>auto intro!: mutex_inv_upd mutex_inv_thr\<close>)

lemma front_inv_same:
  assumes "front_inv s" "po_queue p = po_queue (pl_pool s)" "b \<noteq> Faulted" "b = Fronting \<Longrightarrow> po_queue p \<noteq> []"
    "\<And>a. b = Took a \<Longrightarrow> \<exists>as. po_queue p = a # as"
  shows "front_inv (sets_thr t b p s)"
  using assms by (auto simp: front_inv_def)

lemma front_inv_thr:
  assumes "front_inv s" "b \<noteq> Faulted" "b = Fronting \<Longrightarrow> po_queue (pl_pool s) \<noteq> []"
    "\<And>a. b = Took a \<Longrightarrow> \<exists>as. po_queue (pl_pool s) = a # as"
  shows "front_inv (s\<lparr>pl_thr := (pl_thr s)(t := b)\<rparr>)"
  using front_inv_same [OF assms(1) refl assms(2-4)] by simp

lemma front_inv_append:
  assumes "front_inv s" "po_queue p = po_queue (pl_pool s) @ xs"
  shows "front_inv (sets_thr t Pushed p s\<lparr>pl_lost := L\<rparr>)"
proof -
  have "\<exists>as. po_queue p = a # as" if "pl_thr s u = Took a" for u a using front_invD(2) [OF assms(1) that] assms(2) by auto
  moreover have "po_queue p \<noteq> []" if "pl_thr s u = Fronting" for u using front_invD(1) [OF assms(1) that] assms(2) by auto
  ultimately show ?thesis using assms(1) by (auto simp: front_inv_def)
qed

lemma front_inv_step:
  assumes "pool_step t s s'" "mutex_inv s" "front_inv s"
  shows "front_inv s'"
  using assms(1)
proof (cases rule: pool_step.cases)
  case (wait p)
  then show ?thesis using assms(3) by (auto dest!: pool_Wait_eq intro!: front_inv_same)
next
  case front
  then obtain a as where "po_queue (pl_pool s) = a # as" using front_invD(1) [OF assms(3)] by blast
  then show ?thesis using front assms(3) by (auto simp: pool_front_def intro!: front_inv_thr)
next
  case (pop a p)
  have l: "locked_in (pl_thr s t)" using pop by simp
  then have "po_mutex (pl_pool s) = Some (t, 1)" using assms(2) unfolding mutex_inv_def by blast
  then have o: "\<not> locked_in (pl_thr s u)" if "u \<noteq> t" for u using assms(2) that by (auto simp: mutex_inv_def)
  then have "pl_thr s u \<noteq> Fronting" "pl_thr s u \<noteq> Took x" if "u \<noteq> t" for u x using that by fastforce+
  then show ?thesis using pop assms(3) by (simp add: front_inv_def)
next
  case (pop_fault a)
  then show ?thesis using no_pop_fault [OF assms(3)] by blast
next
  case (push a b p)
  have "po_queue p = po_queue (pl_pool s) @ (if b then [a] else [])" using pool_push_eq [OF push(3)] by auto
  from front_inv_append [OF assms(3) this] show ?thesis unfolding push(1) .
next
  case (unlock_get r)
  then show ?thesis using assms(3) by (auto intro!: front_inv_same simp: mutex_steps(5) split: option.splits)
next
  case (lock_get p)
  then show ?thesis using assms(3) by (auto dest!: CMutex_Lock_eq intro!: front_inv_same)
next
  case (lock_add a p)
  then show ?thesis using assms(3) by (auto dest!: CMutex_Lock_eq intro!: front_inv_same)
next
  case post
  then show ?thesis using assms(3) by (auto intro!: front_inv_same simp: pool_Post_same)
next
  case unlock_add
  then show ?thesis using assms(3) by (auto intro!: front_inv_same simp: mutex_steps(5))
qed (use assms(3) in \<open>auto intro!: front_inv_same front_inv_thr split: if_splits\<close>)

lemma objects_inv_same:
  assumes "objects_inv n s" "po_queue p = po_queue (pl_pool s)" "carries b = carries (pl_thr s t)"
  shows "objects_inv n (sets_thr t b p s)"
proof -
  have "carries (((pl_thr s)(t := b)) u) = carries (pl_thr s u)" for u using assms(3) by simp
  then show ?thesis using assms(1,2) held_keep [of b "pl_thr s" t, OF assms(3)] by (simp add: objects_inv_def)
qed

lemma objects_inv_thr:
  assumes "objects_inv n s" "carries b = carries (pl_thr s t)"
  shows "objects_inv n (s\<lparr>pl_thr := (pl_thr s)(t := b)\<rparr>)"
  using objects_inv_same [OF assms(1) refl assms(2)] by simp

lemma objects_inv_pop:
  assumes "objects_inv n s" "po_queue (pl_pool s) = a # as" "po_queue p = as" "carries (pl_thr s t) = None"
  shows "objects_inv n (sets_thr t (Unlocking (Some a)) p s)"
proof -
  define f where "f = (pl_thr s)(t := Unlocking (Some a))"
  have h: "held f = insert a (held (pl_thr s))" unfolding f_def using assms(4) by (intro held_gain) simp_all
  have i: "{..<n} = insert a (set as) \<union> held (pl_thr s) \<union> pl_lost s" "distinct (a # as)" "insert a (set as) \<inter> held (pl_thr s) = {}"
    "(insert a (set as) \<union> held (pl_thr s)) \<inter> pl_lost s = {}"
    using assms(1) unfolding objects_inv_def assms(2) by simp_all
  then have c: "carries (pl_thr s u) \<noteq> Some a" for u by (auto simp: held_def)
  have one: "\<forall>v u x. carries (f v) = Some x \<and> carries (f u) = Some x \<longrightarrow> v = u"
    using c assms(1) by (auto simp: objects_inv_def f_def)
  define s' where "s' = sets_thr t (Unlocking (Some a)) p s"
  have s': "po_queue (pl_pool s') = as" "pl_thr s' = f" "pl_lost s' = pl_lost s" using assms(3) by (simp_all add: f_def s'_def)
  show ?thesis unfolding s'_def [symmetric] objects_inv_def s' h i(1) using i(2-4) one by auto
qed

lemma objects_inv_push:
  assumes "objects_inv n s" "pl_thr s t = Pushing a" "pool_push a (pl_pool s) = (b, p)"
  shows "objects_inv n (sets_thr t Pushed p s\<lparr>pl_lost := (if b then pl_lost s else insert a (pl_lost s))\<rparr>)"
proof -
  have h: "held (pl_thr s) = insert a (held ((pl_thr s)(t := Pushed)))" using assms(2) by (intro held_lose) simp_all
  have "carries (pl_thr s u) \<noteq> Some a" if "u \<noteq> t" for u using assms(1,2) that by (auto simp: objects_inv_def)
  then have na: "a \<notin> held ((pl_thr s)(t := Pushed))" by (auto simp: held_def)
  have one: "\<forall>v u x. carries (((pl_thr s)(t := Pushed)) v) = Some x \<and> carries (((pl_thr s)(t := Pushed)) u) = Some x \<longrightarrow> v = u"
    using assms(1) by (auto simp: objects_inv_def)
  have p: "po_queue p = (if b then po_queue (pl_pool s) @ [a] else po_queue (pl_pool s))" using pool_push_eq [OF assms(3)] by auto
  have i: "set (po_queue (pl_pool s)) \<union> insert a (held ((pl_thr s)(t := Pushed))) \<union> pl_lost s = {..<n}" "distinct (po_queue (pl_pool s))"
    "set (po_queue (pl_pool s)) \<inter> insert a (held ((pl_thr s)(t := Pushed))) = {}"
    "(set (po_queue (pl_pool s)) \<union> insert a (held ((pl_thr s)(t := Pushed)))) \<inter> pl_lost s = {}"
    using assms(1) unfolding objects_inv_def h by blast+
  show ?thesis
  proof (cases b)
    case True
    then show ?thesis using i na one p by (auto simp: objects_inv_def)
  next
    case False
    then show ?thesis using i na one p by (auto simp: objects_inv_def)
  qed
qed

lemma objects_inv_step:
  assumes "pool_step t s s'" "front_inv s" "objects_inv n s"
  shows "objects_inv n s'"
  using assms(1)
proof (cases rule: pool_step.cases)
  case (wait p)
  then show ?thesis using assms(3) by (auto dest!: pool_Wait_eq intro!: objects_inv_same)
next
  case (lock_get p)
  then show ?thesis using assms(3) by (auto dest!: CMutex_Lock_eq intro!: objects_inv_same)
next
  case (lock_add a p)
  then show ?thesis using assms(3) by (auto dest!: CMutex_Lock_eq intro!: objects_inv_same)
next
  case post
  then show ?thesis using assms(3) by (auto intro!: objects_inv_same simp: pool_Post_same)
next
  case (pop a p)
  then obtain as where q: "po_queue (pl_pool s) = a # as" "p = (pl_pool s)\<lparr>po_queue := as\<rparr>"
    using front_invD(2) [OF assms(2) pop(2)] pool_pop_eq [OF pop(3)] by auto
  then have "po_queue p = as" by simp
  from objects_inv_pop [OF assms(3) q(1) this] show ?thesis using pop(1,2) by simp
next
  case (push a b p)
  from objects_inv_push [OF assms(3) push(2,3)] show ?thesis unfolding push(1) .
next
  case (unlock_get r)
  then show ?thesis using assms(3) by (auto intro!: objects_inv_same objects_inv_thr simp: mutex_steps(5) split: option.splits)
next
  case front
  then show ?thesis using assms(3) by (auto intro!: objects_inv_same objects_inv_thr split: option.splits)
qed (use assms(3) in \<open>auto intro!: objects_inv_same objects_inv_thr simp: mutex_steps(5) split: if_splits\<close>)

lemma lost_bound:
  assumes "objects_inv n s"
  shows "finite (pl_lost s)" "length (po_queue (pl_pool s)) + card (pl_lost s) \<le> n"
proof -
  have u: "set (po_queue (pl_pool s)) \<union> pl_lost s \<subseteq> {..<n}" "set (po_queue (pl_pool s)) \<inter> pl_lost s = {}" "distinct (po_queue (pl_pool s))"
    using assms by (auto simp: objects_inv_def)
  show f: "finite (pl_lost s)" using u(1) finite_subset by blast
  have "length (po_queue (pl_pool s)) + card (pl_lost s) = card (set (po_queue (pl_pool s)) \<union> pl_lost s)"
    using u(2,3) f by (simp add: card_Un_disjoint distinct_card)
  also have "\<dots> \<le> n" using card_mono [OF _ u(1)] by simp
  finally show "length (po_queue (pl_pool s)) + card (pl_lost s) \<le> n" .
qed

lemma count_inv_same:
  assumes "count_inv s" "po_queue p = po_queue (pl_pool s)" "po_sem p = po_sem (pl_pool s)" "owes b = owes (pl_thr s t)"
  shows "count_inv (sets_thr t b p s)"
  using assms underway_keep [of b "pl_thr s" t, OF assms(4)] by (simp add: count_inv_def)

lemma count_inv_thr:
  assumes "count_inv s" "owes b = owes (pl_thr s t)"
  shows "count_inv (s\<lparr>pl_thr := (pl_thr s)(t := b)\<rparr>)"
  using count_inv_same [OF assms(1) refl refl assms(2)] by simp

lemma count_inv_push:
  assumes "objects_inv n s" "count_inv s" "pl_thr s t = Pushing a" "pool_push a (pl_pool s) = (b, p)"
  shows "count_inv (sets_thr t Pushed p s\<lparr>pl_lost := (if b then pl_lost s else insert a (pl_lost s))\<rparr>)"
proof -
  have p: "po_queue p = (if b then po_queue (pl_pool s) @ [a] else po_queue (pl_pool s))" "po_sem p = po_sem (pl_pool s)"
    using pool_push_eq [OF assms(4)] by auto
  have "a \<in> held (pl_thr s)" using assms(3) by (auto simp: held_def intro: exI [where x = t])
  then have "a \<notin> pl_lost s" using assms(1) by (auto simp: objects_inv_def)
  then have "card (insert a (pl_lost s)) = Suc (card (pl_lost s))" using lost_bound(1) [OF assms(1)] by simp
  moreover have "underway ((pl_thr s)(t := Pushed)) = insert t (underway (pl_thr s)) \<and> t \<notin> underway (pl_thr s)"
    using assms(3) by (intro underway_gain) simp_all
  ultimately show ?thesis using assms(2) p by (cases b) (auto simp: count_inv_def)
qed

lemma count_inv_post:
  assumes "objects_inv n s" "count_inv s" "pl_thr s t = Returned" "n \<le> POOL_MAX"
  shows "count_inv (sets_thr t Outside (pool_Post (pl_pool s)) s)"
proof -
  have u: "underway (pl_thr s) = insert t (underway ((pl_thr s)(t := Outside))) \<and> t \<notin> underway ((pl_thr s)(t := Outside))"
    using assms(3) by (intro underway_lose) simp_all
  then have "finite (underway ((pl_thr s)(t := Outside)))" using assms(2) by (simp add: count_inv_def)
  then have c: "card (underway (pl_thr s)) = Suc (card (underway ((pl_thr s)(t := Outside))))" using u by simp
  have "po_sem (pl_pool s) + 1 \<le> POOL_MAX" using assms(2,4) lost_bound(2) [OF assms(1)] unfolding count_inv_def c by linarith
  then have "po_sem (pool_Post (pl_pool s)) = po_sem (pl_pool s) + 1" by (simp add: pool_Post_def ReleaseSemaphore_def)
  then show ?thesis using assms(2) u c by (auto simp: count_inv_def pool_Post_same)
qed

lemma count_inv_step:
  assumes "pool_step t s s'" "front_inv s" "objects_inv n s" "count_inv s" "n \<le> POOL_MAX"
  shows "count_inv s'"
  using assms(1)
proof (cases rule: pool_step.cases)
  case (wait p)
  have "underway ((pl_thr s)(t := Admitted)) = insert t (underway (pl_thr s)) \<and> t \<notin> underway (pl_thr s)"
    using wait(2) by (intro underway_gain) simp_all
  then show ?thesis using assms(4) wait(1) pool_Wait_counts [OF wait(3)] by (simp add: count_inv_def)
next
  case look
  show ?thesis
  proof (cases "po_queue (pl_pool s) = []")
    case True
    have "underway (pl_thr s) = insert t (underway ((pl_thr s)(t := Unlocking None))) \<and> t \<notin> underway ((pl_thr s)(t := Unlocking None))"
      using look(2) by (intro underway_lose) simp_all
    then show ?thesis using assms(4) look(1) True by (auto simp: count_inv_def)
  next
    case False
    then show ?thesis using assms(4) look by (auto intro!: count_inv_same count_inv_thr)
  qed
next
  case front
  then obtain a as where "po_queue (pl_pool s) = a # as" using front_invD(1) [OF assms(2)] by blast
  then show ?thesis using front assms(4) by (simp add: pool_front_def count_inv_thr)
next
  case (pop a p)
  then obtain as where q: "po_queue (pl_pool s) = a # as" "p = (pl_pool s)\<lparr>po_queue := as\<rparr>"
    using front_invD(2) [OF assms(2) pop(2)] pool_pop_eq [OF pop(3)] by auto
  have "underway (pl_thr s) = insert t (underway ((pl_thr s)(t := Unlocking (Some a)))) \<and> t \<notin> underway ((pl_thr s)(t := Unlocking (Some a)))"
    using pop(2) by (intro underway_lose) simp_all
  then show ?thesis using assms(4) pop(1) q by (auto simp: count_inv_def)
next
  case (pop_fault a)
  then show ?thesis using no_pop_fault [OF assms(2)] by blast
next
  case (push a b p)
  from count_inv_push [OF assms(3,4) push(2,3)] show ?thesis unfolding push(1) .
next
  case post
  from count_inv_post [OF assms(3,4) post(2) assms(5)] show ?thesis unfolding post(1) .
next
  case (lock_get p)
  then show ?thesis using assms(4) by (auto dest!: CMutex_Lock_eq intro!: count_inv_same)
next
  case (lock_add a p)
  then show ?thesis using assms(4) by (auto dest!: CMutex_Lock_eq intro!: count_inv_same)
next
  case (unlock_get r)
  then show ?thesis using assms(4) by (auto intro!: count_inv_same count_inv_thr simp: mutex_steps(5,6) split: option.splits)
qed (use assms(4) in \<open>auto intro!: count_inv_same count_inv_thr simp: mutex_steps(5,6)\<close>)

lemma null_inv_step:
  assumes "pool_step t s s'" "count_inv s" "null_inv s"
  shows "null_inv s'"
  using assms(1)
proof (cases rule: pool_step.cases)
  case look
  have "pl_lost s \<noteq> {}" if "po_queue (pl_pool s) = []"
  proof
    assume "pl_lost s = {}"
    then have "card (underway (pl_thr s)) = 0" "finite (underway (pl_thr s))" using assms(2) that by (simp_all add: count_inv_def)
    moreover have "t \<in> underway (pl_thr s)" using look by (simp add: underway_def)
    ultimately show False by auto
  qed
  then show ?thesis using assms(3) look(1) by (auto simp: null_inv_def)
next
  case (unlock_get r)
  then show ?thesis using assms(3) by (auto simp: null_inv_def split: option.splits)
next
  case front
  then show ?thesis using assms(3) by (auto simp: null_inv_def split: option.splits)
qed (use assms(3) in \<open>auto simp: null_inv_def\<close>)

definition pool_inv :: "nat \<Rightarrow> pool_sys \<Rightarrow> bool" where
  "pool_inv n s \<longleftrightarrow> mutex_inv s \<and> front_inv s \<and> objects_inv n s \<and> count_inv s \<and> null_inv s"

lemma pool_inv_filled:
  assumes "Fill t n (CRedisPool_new al) = Some (n, p)" "n \<le> POOL_MAX"
  shows "pool_inv n (filled_pool n p)"
proof -
  obtain as where q: "po_queue p = as" "distinct as" "set as \<subseteq> {..<n}" "po_sem p = n" "po_mutex p = None"
    using fill_loop_spec [of "CRedisPool_new al" n t 0] assms by (auto simp: Fill_def CRedisPool_new_def lessThan_atLeast0)
  have u: "underway (\<lambda>_. Outside) = {}" "held (\<lambda>_. Outside) = {}" by (simp_all add: underway_def held_def)
  have "card ({..<n} - set as) = n - length as" "length as \<le> n"
    using q(2,3) card_mono [of "{..<n}" "set as"] by (simp_all add: card_Diff_subset distinct_card)
  then have "count_inv (filled_pool n p)" using q by (simp add: count_inv_def filled_pool_def u)
  moreover have "objects_inv n (filled_pool n p)" using q by (auto simp: objects_inv_def filled_pool_def u)
  ultimately show ?thesis using q(5) by (simp add: pool_inv_def mutex_inv_def front_inv_def null_inv_def filled_pool_def)
qed

lemma pool_reaches_inv: "pool_reaches n s \<Longrightarrow> n \<le> POOL_MAX \<Longrightarrow> pool_inv n s"
proof (induction rule: pool_reaches.induct)
  case (filled t al p)
  then show ?case by (rule pool_inv_filled)
next
  case (step s t s')
  then have "pool_inv n s" by blast
  then show ?case using step.hyps(2) step.prems mutex_inv_step front_inv_step objects_inv_step count_inv_step null_inv_step
    unfolding pool_inv_def by metis
qed

text \<open>
  C38: the pool lends each connection to one thread at a time. After \<open>Fill\<close> with \<open>n\<close> objects and in every
  interleaving of the single steps of any number of threads that take an object, use it and give it back,
  and wherever \<open>push\<close> throws: no two threads have the same object in their hands and none has one that is
  in the queue, so that \<open>CRedis\<close> needs no lock of its own; an object that is neither in the queue nor
  in the hands of a thread is one whose \<open>push\<close> has thrown; \<open>front\<close> and \<open>pop\<close> never meet an empty queue;
  \<open>Get\<close> gives NULL only after a \<open>push\<close> has thrown (its exception is swallowed and \<open>Post\<close> follows); and a
  thread that waits at the semaphore while nobody is about to take or to post waits only when every object
  is in the hands of a thread or lost.
\<close>
theorem pool_lends_once:
  assumes "pool_reaches n s" "n \<le> POOL_MAX"
  shows "(\<forall>t u a. carries (pl_thr s t) = Some a \<and> carries (pl_thr s u) = Some a \<longrightarrow> t = u)
    \<and> (\<forall>t a. carries (pl_thr s t) = Some a \<longrightarrow> a \<notin> set (po_queue (pl_pool s)) \<union> pl_lost s)
    \<and> distinct (po_queue (pl_pool s))
    \<and> set (po_queue (pl_pool s)) \<union> {a. \<exists>t. carries (pl_thr s t) = Some a} \<union> pl_lost s = {..<n}
    \<and> (\<forall>t. pl_thr s t \<noteq> Faulted) \<and> (pl_lost s = {} \<longrightarrow> (\<forall>t. pl_thr s t \<noteq> GotNull))
    \<and> (po_sem (pl_pool s) = 0 \<and> (\<forall>t. \<not> owes (pl_thr s t)) \<longrightarrow> {a. \<exists>t. carries (pl_thr s t) = Some a} \<union> pl_lost s = {..<n})"
proof -
  have i: "pool_inv n s" using pool_reaches_inv assms by blast
  have "po_queue (pl_pool s) = []" if "po_sem (pl_pool s) = 0" "\<forall>t. \<not> owes (pl_thr s t)"
    using i that by (simp add: pool_inv_def count_inv_def underway_def)
  then show ?thesis using i unfolding pool_inv_def front_inv_def objects_inv_def null_inv_def held_def by auto
qed

theorem pool_lends_once_witness:
  "\<exists>s. pool_reaches 2 s \<and> pl_thr s 7 = Holding 0 \<and> pl_lost s = {}
     \<and> set (po_queue (pl_pool s)) \<union> {a. \<exists>t. carries (pl_thr s t) = Some a} \<union> pl_lost s = {..<2}"
proof -
  obtain p where p: "Fill 0 2 (CRedisPool_new []) = Some (2, p)" "pool_of p [0, 1]"
    using fill_pool [of "[]" 2 0] by (auto simp: upt_rec)
  define s0 where "s0 = filled_pool 2 p"
  have q: "po_queue p = [0, 1]" "po_sem p = 2" "po_mutex p = None" using p(2) by (simp_all add: pool_of_def)
  define s1 where "s1 = sets_thr 7 Asking p s0"
  define p2 where "p2 = p\<lparr>po_sem := 1\<rparr>"
  define s2 where "s2 = sets_thr 7 Admitted p2 s1"
  define p3 where "p3 = p2\<lparr>po_mutex := Some (7, 1)\<rparr>"
  define s3 where "s3 = sets_thr 7 Looking p3 s2"
  define s4 where "s4 = sets_thr 7 Fronting p3 s3"
  define s5 where "s5 = sets_thr 7 (Took 0) p3 s4"
  define p6 where "p6 = p3\<lparr>po_queue := [1]\<rparr>"
  define s6 where "s6 = sets_thr 7 (Unlocking (Some 0)) p6 s5"
  define s7 where "s7 = sets_thr 7 (Holding 0) (CMutex_Unlock 7 p6) s6"
  have "pool_reaches 2 s0" unfolding s0_def using p(1) by (rule filled)
  then have "pool_reaches 2 s1" by (rule step) (use ask [of s0 7] in \<open>simp add: s1_def s0_def filled_pool_def\<close>)
  moreover have "pool_step 7 s1 s2" unfolding s2_def by (rule wait) (simp_all add: s1_def pool_Wait_def WaitForSemaphore_def q p2_def)
  ultimately have "pool_reaches 2 s2" by (rule step)
  moreover have "pool_step 7 s2 s3" unfolding s3_def by (rule lock_get) (simp_all add: s2_def CMutex_Lock_def q p2_def p3_def)
  ultimately have "pool_reaches 2 s3" by (rule step)
  then have "pool_reaches 2 s4" by (rule step) (use look [of s3 7] in \<open>simp add: s4_def s3_def p3_def p2_def q\<close>)
  then have "pool_reaches 2 s5" by (rule step) (use front [of s4 7] in \<open>simp add: s5_def s4_def pool_front_def p3_def p2_def q\<close>)
  moreover have "pool_step 7 s5 s6" unfolding s6_def by (rule pop) (simp_all add: s5_def pool_pop_def p2_def q p3_def p6_def)
  ultimately have "pool_reaches 2 s6" by (rule step)
  then have r: "pool_reaches 2 s7" by (rule step) (use unlock_get [of s6 7 "Some 0"] in \<open>simp add: s7_def s6_def\<close>)
  have "(2 :: nat) \<le> POOL_MAX" by simp
  from pool_lends_once [OF r this]
  have c: "set (po_queue (pl_pool s7)) \<union> {a. \<exists>t. carries (pl_thr s7 t) = Some a} \<union> pl_lost s7 = {..<2}" by blast
  have "pl_thr s7 7 = Holding 0" "pl_lost s7 = {}"
    using q(1) by (auto simp: s7_def s6_def s5_def s4_def s3_def s2_def s1_def s0_def filled_pool_def)
  with r c show ?thesis by blast
qed

end
