(* ===== verification/Spec2Isabelle.thy ===== *)
theory Spec2Isabelle
  imports AsyncGuarantees LoggingProof RfdProof Server Redis
begin

text \<open>
  A verification development for SocketsCPP: a server for messages, its client, and the Windows port
  of hiredis it is linked with. This theory only brings the others together.

  \<^bold>\<open>The program.\<close> \<open>SocketServerApp/Hiredis/src\<close> is the library: dynamic strings (\<open>sds.c\<close>) hold
  commands and unread input; \<open>hiredis.c\<close> formats commands, parses replies and keeps the
  synchronous context, which \<open>net.c\<close> connects; \<open>async.c\<close> puts callbacks on top, in lists and in
  two hash tables of \<open>dict.c\<close>; \<open>Win32_Interop\<close> gives all of this the descriptors it expects. The
  server in \<open>SocketServerApp\<close> runs a thread per client, which puts what it receives into the work
  queue of \<open>Queue.h\<close>; another thread takes it from there; \<open>Logging.cpp\<close> writes log files through a
  queue of the same class; \<open>Redis.cpp\<close> shares a pool of connections between threads.

  \<^bold>\<open>Conventions.\<close> A definition has the name of the C function or class it models. State is passed
  explicitly: a record for each struct, and records of the outside world (\<open>mem\<close>, \<open>sys\<close>, \<open>os\<close>,
  \<open>fdapi\<close>) whose functions answer calls of the operating system from the calls made before; the
  theorems quantify over these answers. \<open>None\<close> is undefined behaviour, a failed assertion, or a
  thread that blocks, as each theory says; a NULL pointer is \<open>None\<close> inside that. A list of booleans
  gives the outcomes of the allocations to come (true: it succeeds). Sizes wrap where C wraps.

  \<^bold>\<open>Theories and what they show.\<close>

  \<^item> \<open>Prelude\<close>: C integers, characters, checked memory, the collections of simplification rules.
    \<open>Interfaces\<close>: the locales \<open>fifo\<close>, \<open>blocking_queue\<close> and \<open>keyed_store\<close>, interpreted on the lists
    of callbacks, on the work queue and the pool, and on the tables of subscriptions; \<open>byte_appender\<close>
    in \<open>Sds\<close> is interpreted on the strings.

  \<^item> \<open>Sds\<close>, \<open>SdsText\<close> (\<open>sds.c\<close>, \<open>sds.h\<close>): the record \<open>sds\<close> is \<open>struct sdshdr\<close> with the bytes behind it.
    Every operation keeps the invariant \<open>sds_ok\<close> and stays inside its block; appending, cutting,
    trimming and comparing do this to the byte string; conversion of integers, splitting and joining,
    quoting and reading back, the small formatter.

  \<^item> \<open>Reader\<close>, \<open>ReaderProof\<close> (\<open>hiredis.c\<close> 50-671): the parser as a function per C function over
    \<open>redisReader\<close> and a heap of reply objects. It refines a parser on lists; it never leaves its
    buffers or its nine tasks; it inverts the encoding; chunks of input do not matter; errors free
    everything; nesting of more than eight arrays is refused.

  \<^item> \<open>Format\<close>, \<open>FormatProof\<close> (\<open>hiredis.c\<close> 674-978): formatted commands are one array of bulk strings, one per
    word of the format, whatever the arguments hold.

  \<^item> \<open>Context\<close>, \<open>ContextProof\<close> (\<open>hiredis.c\<close> 978-1419): what is appended leaves once and in order, replies
    come back in order, a call returns and reports what happened, an error is final.

  \<^item> \<open>Net\<close>, \<open>NetProof\<close> (\<open>net.c\<close>, the connecting functions of \<open>hiredis.c\<close>): a context owns exactly one open
    socket, and freeing it closes all that was opened; timeouts.

  \<^item> \<open>Dict\<close>, \<open>DictProof\<close> (\<open>dict.c\<close>, \<open>dict.h\<close>): the table is a finite map, also while it grows; iterators
    survive deletions. \<open>Callbacks\<close> (\<open>callbackDict\<close> and the lists of \<open>async.c\<close>): queues and stores in the
    sense of the interfaces; the destructors work on the multisets of keys and callbacks that are allocated, so that
    the release of a table is shown to free each key and each value once and no other.

  \<^item> \<open>Async\<close>, \<open>AsyncProof\<close>, \<open>AsyncGuarantees\<close> (\<open>async.c\<close>): for every program that callbacks may run, the
    end of a context calls each remaining callback once; replies and messages reach theirs.

  \<^item> \<open>WorkQueue\<close> (\<open>Queue.h\<close>, \<open>mutex.h\<close>, \<open>ATMutex.cpp\<close>): the operations, and the step relation \<open>qstep\<close> of any
    number of threads: a first-in first-out queue in every interleaving, without lost wake-ups.

  \<^item> \<open>Logging\<close>, \<open>LoggingProof\<close> (\<open>Logging.cpp\<close>): while files can be opened and written, the files on the disk, the
    buffer and the queue together hold every message once and in order, but for a file to whose name another
    one is moved; the arrays suffice; what one failure to open the file does.

  \<^item> \<open>RfdMap\<close>, \<open>RfdProof\<close> (\<open>win32_rfdmap.cpp\<close>, \<open>Win32_FDAPI.cpp\<close>, \<open>win32_wsiocp.c\<close>, \<open>Win32_Error.c\<close>): the
    tables of descriptors stay well formed under any calls, and a descriptor keeps its meaning
    until it is closed. \<open>WSIOCP_CloseSocketState\<close> is called as the library calls it (\<open>close_state\<close>); a lemma
    shows that for the state of an open socket it leaves a bad pointer behind.

  \<^item> \<open>Server\<close> (\<open>SocketServerApp.cpp\<close>, \<open>ServerMain.cpp\<close>, \<open>SocketClientApp.cpp\<close>): clients are served in order.
    \<open>Redis\<close> (\<open>Redis.cpp\<close>, \<open>Redis.h\<close>): \<open>pool_step\<close> is one step of a thread in \<open>Get\<close>
    or \<open>Add\<close>, between its calls of the semaphore, the lock and the queue; a connection of the pool is lent to one
    thread at a time, and only a \<open>push\<close> that throws loses one.

  \<^bold>\<open>Bounds and fuel.\<close> Loops whose end the code leaves open are \<open>partial_function (option)\<close> or have fuel.
  Fuel is never what a theorem rests on: \<open>redisReaderGetReply\<close>, \<open>redisGetReply\<close>, the formatter and the
  iterators are proved to return. The retry of \<open>sdscatvprintf\<close> doubles its buffer \<open>2 ^ 62\<close> at most,
  beyond all sizes; \<open>freeReplyObject\<close> has as much fuel as there are objects; \<open>move_tries\<close> makes the ten
  attempts of the code. Other bounds are those of the types: strings below \<open>2 ^ 31\<close> bytes, tables up to
  \<open>2 ^ 30\<close> entries, semaphores up to \<open>SEM_MAX\<close> and \<open>POOL_MAX\<close>, the log buffer of \<open>OUT_SIZE\<close> bytes.
  Scripts of reads and writes are finite: after the end a read finds the end of the stream and a
  write is taken whole. A callback is a program that ends.

  \<^bold>\<open>Not modelled.\<close> \<open>Win32_dlmalloc.c\<close> is third-party code and stands behind the outcomes of allocations.
  Of \<open>Win32_Interop\<close>, \<open>poll\<close> and \<open>select\<close>, the forked process, services, the command line, the ANSI console
  and the functions that hand a descriptor to Windows unchanged are left out, as they consist of
  calls of the Windows API. The event library \<open>ae\<close> is not part of the repository: its hooks are
  events, and it may change the state of a socket at any time. Of \<open>Logging.cpp\<close>, a round of
  one of its two threads is one step; the second constructor and the \<open>catch\<close> branches are left out.
  Of the programs, the set-up of Winsock and the creation of threads. What goes to the console is
  modelled where a function exists for it alone, and what \<open>Redis.cpp\<close> logs is not, nor a \<open>new\<close> of
  its \<open>Fill\<close> that throws. \<open>PORT_LONG\<close> has 64 bits, as \<open>Prelude\<close> says.
\<close>

end
